(* ===== verification/Prelude.thy ===== *)
theory Prelude
  imports Main
begin

text \<open>
  Shared vocabulary of the development.  Undefined behaviour, contract violations of the SAT
  interface and exhausted loop bounds are values of \<open>error\<close>; a computation that can meet one has
  the type \<open>'a result\<close>.  \<open>rbind\<close> sequences computations, \<open>rfold\<close> is a counted \<open>for\<close> loop over the
  elements of a list and \<open>rloop\<close> a \<open>while(true)\<close> loop with a bound on its iterations.  \<open>rok m Q\<close>
  states total correctness of \<open>m\<close> (it returns, and the result satisfies \<open>Q\<close>); the collection
  \<open>rok_intros\<close> holds the rules by which the component proofs decompose such statements.
\<close>

named_theorems rok_intros "introduction rules for total correctness"

section \<open>Errors and sequencing\<close>

datatype error =
    OutOfFuel        \<comment> \<open>the bound on loop iterations is exhausted\<close>
  | SolverState      \<comment> \<open>an IPASIR function is called in a state its contract excludes\<close>
  | OutOfBounds      \<comment> \<open>an array is read or written outside its allocation\<close>
  | NullPointer      \<comment> \<open>a null pointer is dereferenced\<close>
  | BufferOverflow   \<comment> \<open>more is written to a buffer than was allocated\<close>
  | DivisionByZero   \<comment> \<open>a remainder modulo zero is computed\<close>
  | IntOverflow      \<comment> \<open>a value leaves the range of \<open>int\<close>\<close>
  | Uninitialised    \<comment> \<open>a variable is read before it is written\<close>
  | InvalidFree      \<comment> \<open>a block is released twice, or not by what allocated it\<close>

type_synonym 'a result = "error + 'a"

definition rbind :: "'a result \<Rightarrow> ('a \<Rightarrow> 'b result) \<Rightarrow> 'b result" where
  "rbind m f = (case m of Inl e \<Rightarrow> Inl e | Inr x \<Rightarrow> f x)"

lemma rbind_simps [simp]:
  "rbind (Inr x) f = f x"
  "rbind (Inl e) f = Inl e"
  "rbind m Inr = m"
  by (simp_all add: rbind_def split: sum.splits)

lemma rbind_Inr: "rbind m f = Inr y \<longleftrightarrow> (\<exists>x. m = Inr x \<and> f x = Inr y)"
  by (cases m) simp_all

lemma rbind_assoc: "rbind (rbind m f) g = rbind m (\<lambda>x. rbind (f x) g)"
  by (cases m) simp_all

lemma rbind_cong [fundef_cong]:
  "m = m' \<Longrightarrow> (\<And>x. m' = Inr x \<Longrightarrow> f x = f' x) \<Longrightarrow> rbind m f = rbind m' f'"
  by (cases m') simp_all

primrec rfold :: "('a \<Rightarrow> 's \<Rightarrow> 's result) \<Rightarrow> 'a list \<Rightarrow> 's \<Rightarrow> 's result" where
  "rfold f [] s = Inr s"
| "rfold f (x # xs) s = rbind (f x s) (rfold f xs)"

datatype ('s, 'r) step = Continue 's | Break 'r

fun rloop :: "nat \<Rightarrow> ('s \<Rightarrow> ('s, 'r) step result) \<Rightarrow> 's \<Rightarrow> 'r result" where
  "rloop 0 body s = Inl OutOfFuel"
| "rloop (Suc k) body s =
     rbind (body s) (\<lambda>t. case t of Continue s' \<Rightarrow> rloop k body s' | Break r \<Rightarrow> Inr r)"

section \<open>Total correctness\<close>

definition rok :: "'a result \<Rightarrow> ('a \<Rightarrow> bool) \<Rightarrow> bool" where
  "rok m Q \<longleftrightarrow> (\<exists>x. m = Inr x \<and> Q x)"

lemma rok_simps [simp]:
  "rok (Inr x) Q \<longleftrightarrow> Q x"
  "\<not> rok (Inl e) Q"
  by (auto simp: rok_def)

lemma rokE: "rok m Q \<Longrightarrow> (\<And>x. m = Inr x \<Longrightarrow> Q x \<Longrightarrow> P) \<Longrightarrow> P"
  by (auto simp: rok_def)

lemma rok_pairE: "rok m (\<lambda>(x, y). P x y) \<Longrightarrow> (\<And>x y. m = Inr (x, y) \<Longrightarrow> P x y \<Longrightarrow> R) \<Longrightarrow> R"
  by (auto simp: rok_def)

lemma rok_weaken: "rok m P \<Longrightarrow> (\<And>x. P x \<Longrightarrow> Q x) \<Longrightarrow> rok m Q"
  by (auto simp: rok_def)

lemma rok_rbind [rok_intros]: "rok m (\<lambda>x. rok (f x) Q) \<Longrightarrow> rok (rbind m f) Q"
  by (auto simp: rok_def)

lemma rok_bind: "rok m P \<Longrightarrow> (\<And>x. P x \<Longrightarrow> rok (f x) Q) \<Longrightarrow> rok (rbind m f) Q"
  by (auto simp: rok_def)

lemma rok_if [rok_intros]:
  "(b \<Longrightarrow> rok m Q) \<Longrightarrow> (\<not> b \<Longrightarrow> rok m' Q) \<Longrightarrow> rok (if b then m else m') Q"
  by simp

lemma rfold_Inr:
  "(\<And>x s. x \<in> set xs \<Longrightarrow> f x s = Inr (g x s)) \<Longrightarrow> rfold f xs s = Inr (fold g xs s)"
  by (induction xs arbitrary: s) auto

lemma rfold_cong:
  "(\<And>x s. x \<in> set xs \<Longrightarrow> f x s = g x s) \<Longrightarrow> rfold f xs s = rfold g xs s"
proof (induction xs arbitrary: s)
  case (Cons x xs)
  then have "f x s = g x s" by simp
  with Cons show ?case by (cases "g x s") simp_all
qed simp

lemma rfold_append: "rfold f (xs @ ys) s = rbind (rfold f xs s) (rfold f ys)"
proof (induction xs arbitrary: s)
  case (Cons x xs)
  then show ?case by (cases "f x s") simp_all
qed simp

lemma rfold_fun: "rfold f [] = Inr" "rfold f (x # xs) = (\<lambda>s. rbind (f x s) (rfold f xs))"
  "rfold f (xs @ ys) = (\<lambda>s. rbind (rfold f xs s) (rfold f ys))"
  by (simp_all add: fun_eq_iff rfold_append)

lemma rfold_concat: "rfold f (concat xss) s = rfold (rfold f) xss s"
proof (induction xss arbitrary: s)
  case (Cons xs xss)
  then show ?case by (simp add: rfold_append) (metis (full_types) ext)
qed simp

lemma rfold_map: "rfold f (map g xs) s = rfold (\<lambda>x. f (g x)) xs s"
  by (induction xs arbitrary: s) (simp_all add: rbind_def split: sum.splits)

text \<open>The invariant of a \<open>for\<close> loop speaks of the elements already visited.\<close>

lemma rok_rfold:
  assumes "I [] s"
    and "\<And>ys x zs s. xs = ys @ x # zs \<Longrightarrow> I ys s \<Longrightarrow> rok (f x s) (I (ys @ [x]))"
  shows "rok (rfold f xs s) (I xs)"
proof -
  have "I ys s \<Longrightarrow> xs = ys @ zs \<Longrightarrow> rok (rfold f zs s) (I xs)" for ys zs s
  proof (induction zs arbitrary: ys s)
    case (Cons x zs)
    show ?case
      using assms(2)[OF Cons.prems(2,1)] Cons.IH[of "ys @ [x]"] Cons.prems(2)
      by (auto simp: rok_def)
  qed simp
  from this[of "[]" s xs] assms(1) show ?thesis by simp
qed

text \<open>The same rule for loops that cannot fail.\<close>

lemma fold_prefix:
  assumes "I [] s" and "\<And>ys x zs s. xs = ys @ x # zs \<Longrightarrow> I ys s \<Longrightarrow> I (ys @ [x]) (f x s)"
  shows "I xs (fold f xs s)"
proof -
  have "rfold (\<lambda>x s. Inr (f x s)) xs s = Inr (fold f xs s)" by (rule rfold_Inr) simp
  moreover have "rok (rfold (\<lambda>x s. Inr (f x s)) xs s) (I xs)"
    using assms by (intro rok_rfold) auto
  ultimately show ?thesis by simp
qed

text \<open>A counted loop \<open>for(i = 0; i < n; i++)\<close>: the invariant speaks of the counter.\<close>

lemma rok_for:
  assumes "I 0 s" and "\<And>i s. i < n \<Longrightarrow> I i s \<Longrightarrow> rok (f i s) (I (Suc i))"
  shows "rok (rfold f [0..<n] s) (I n)"
  using assms
proof (induction n)
  case (Suc n)
  then have "rok (rfold f [0..<n] s) (I n)" by simp
  then obtain t where "rfold f [0..<n] s = Inr t" "I n t" by (rule rokE)
  moreover from Suc.prems(2)[of n t] \<open>I n t\<close> obtain u where "f n t = Inr u" "I (Suc n) u"
    by (auto elim: rokE)
  ultimately show ?case by (simp add: rfold_append)
qed simp

text \<open>
  The rule for \<open>while(true)\<close> loops: an invariant that every iteration keeps, a measure that every
  continuing iteration decreases and that the fuel exceeds, and a postcondition at every exit.
\<close>

lemma rok_rloop:
  assumes "I s" and "\<mu> s < fuel"
    and "\<And>s. I s \<Longrightarrow>
      rok (body s) (\<lambda>t. case t of Continue s' \<Rightarrow> I s' \<and> \<mu> s' < (\<mu> s :: nat) | Break r \<Rightarrow> Q r)"
  shows "rok (rloop fuel body s) Q"
  using assms(1,2)
proof (induction fuel arbitrary: s)
  case (Suc fuel)
  from assms(3)[OF Suc.prems(1)] obtain t where t: "body s = Inr t"
    and "case t of Continue s' \<Rightarrow> I s' \<and> \<mu> s' < \<mu> s | Break r \<Rightarrow> Q r"
    by (rule rokE)
  with Suc.IH Suc.prems(2) show ?case
    by (cases t) auto
qed simp

lemma rloop_mono: "rloop k body s = Inr r \<Longrightarrow> k \<le> k' \<Longrightarrow> rloop k' body s = Inr r"
proof (induction k arbitrary: s k')
  case (Suc k)
  then obtain k'' where "k' = Suc k''" by (cases k') auto
  with Suc show ?case
    by (cases "body s") (auto split: step.splits)
qed simp

section \<open>Decimal numerals\<close>

definition digit_char :: "nat \<Rightarrow> char" where
  "digit_char d = char_of (48 + d)"

fun show_nat :: "nat \<Rightarrow> string" where
  "show_nat n = (if n < 10 then [digit_char n] else show_nat (n div 10) @ [digit_char (n mod 10)])"

declare show_nat.simps [simp del]

lemma show_nat_nonempty [simp]: "show_nat n \<noteq> []"
  by (subst show_nat.simps) simp

definition digit_val :: "char \<Rightarrow> nat" where
  "digit_val c = of_char c - 48"

definition is_digit :: "char \<Rightarrow> bool" where
  "is_digit c \<longleftrightarrow> 48 \<le> (of_char c :: nat) \<and> (of_char c :: nat) \<le> 57"

definition digits_val :: "string \<Rightarrow> nat" where
  "digits_val = foldl (\<lambda>n c. 10 * n + digit_val c) 0"

lemma of_char_digit: "d < 10 \<Longrightarrow> of_char (digit_char d) = 48 + d"
  by (simp add: digit_char_def)

lemma digit_val_char [simp]: "d < 10 \<Longrightarrow> digit_val (digit_char d) = d"
  by (simp add: digit_val_def of_char_digit)

lemma show_nat_digits: "c \<in> set (show_nat n) \<Longrightarrow> is_digit c"
proof (induction n rule: show_nat.induct)
  case (1 n)
  then show ?case
    by (subst (asm) show_nat.simps) (auto simp: is_digit_def of_char_digit split: if_splits)
qed

lemma digits_val_show_nat [simp]: "digits_val (show_nat n) = n"
proof (induction n rule: show_nat.induct)
  case (1 n)
  then show ?case
    by (subst show_nat.simps) (auto simp: digits_val_def)
qed

lemma show_nat_inj: "show_nat m = show_nat n \<longleftrightarrow> m = n"
  by (metis digits_val_show_nat)

section \<open>Lists\<close>

lemma set_filter_upt [simp]: "set (filter P [0..<n]) = {i. i < n \<and> P i}"
  by auto

lemma fold_append_filter:
  "fold (\<lambda>i acc. if P i then acc @ [f i] else acc) xs acc = acc @ map f (filter P xs)"
  by (induction xs arbitrary: acc) auto

section \<open>Separated output\<close>

fun join :: "string \<Rightarrow> string list \<Rightarrow> string" where
  "join sep [] = []"
| "join sep [x] = x"
| "join sep (x # y # ys) = x @ sep @ join sep (y # ys)"

lemma join_Cons: "join sep (x # xs) = x @ concat (map (\<lambda>y. sep @ y) xs)"
  by (induction xs arbitrary: x) auto

lemma join_snoc: "xs \<noteq> [] \<Longrightarrow> join sep (xs @ [x]) = join sep xs @ sep @ x"
  by (cases xs) (auto simp: join_Cons)

lemma fold_append_concat: "fold (\<lambda>x out. out @ f x) xs out = out @ concat (map f xs)"
  by (induction xs arbitrary: out) auto

end
