(* ===== verification/Bitset.thy ===== *)
theory Bitset
  imports Prelude "HOL-Library.Word"
begin

text \<open>
  util/bitset.c.  A bit set is an array of 32-bit unsigned words; the operations keep their word
  arithmetic (shift, or, and, complement).  \<open>wf_bitset\<close> is the representation invariant, \<open>bit_at\<close>
  the truth value of a bit as the callers test it, and \<open>bits\<close> the abstraction to a set of indices.
  \<open>bitset__next_set_bit\<close> is shown to return the least set bit from an index on, although the words
  may hold stray bits beyond the length (\<open>bitset__setAll\<close> and \<open>bitset__randomize\<close> put them there).
  The locale \<open>bit_array\<close> is the contract under which the users of bit sets work.
\<close>

unbundle bit_operations_syntax

section \<open>The data structure and its operations\<close>

type_synonym uint = "32 word"

definition WORD_BITS :: nat where
  "WORD_BITS = 32"

record BitSet =
  data :: "uint list"
  bit_length :: nat
  num_elements :: nat

text \<open>Memory from \<open>malloc\<close> holds an arbitrary pattern until it is written.\<close>

definition uninit_word :: uint where
  "uninit_word = 0xCDCDCDCD"

definition bitset__init :: "nat \<Rightarrow> BitSet" where
  "bitset__init len =
     (let k = len div WORD_BITS + 1
      in \<lparr>data = replicate k uninit_word, bit_length = len, num_elements = k\<rparr>)"

text \<open>\<open>rnd\<close> stands for the successive results of \<open>rand()\<close>.\<close>

definition bitset__randomize :: "(nat \<Rightarrow> uint) \<Rightarrow> BitSet \<Rightarrow> BitSet" where
  "bitset__randomize rnd bs =
     bs\<lparr>data := fold (\<lambda>i d. d[i := rnd i]) [0..<num_elements bs] (data bs)\<rparr>"

definition bitset__clone :: "BitSet \<Rightarrow> BitSet" where
  "bitset__clone bs =
     \<lparr>data = take (num_elements bs) (data bs), bit_length = bit_length bs,
      num_elements = num_elements bs\<rparr>"

definition bitset__set :: "BitSet \<Rightarrow> nat \<Rightarrow> BitSet" where
  "bitset__set bs idx =
     bs\<lparr>data := (data bs)[idx div WORD_BITS :=
       data bs ! (idx div WORD_BITS) OR push_bit (idx mod WORD_BITS) 1]\<rparr>"

definition bitset__setAll :: "BitSet \<Rightarrow> BitSet" where
  "bitset__setAll bs =
     bs\<lparr>data := replicate (num_elements bs) (NOT 0) @ drop (num_elements bs) (data bs)\<rparr>"

definition bitset__unset :: "BitSet \<Rightarrow> nat \<Rightarrow> BitSet" where
  "bitset__unset bs idx =
     bs\<lparr>data := (data bs)[idx div WORD_BITS :=
       data bs ! (idx div WORD_BITS) AND NOT (push_bit (idx mod WORD_BITS) 1)]\<rparr>"

definition bitset__unsetAll :: "BitSet \<Rightarrow> BitSet" where
  "bitset__unsetAll bs =
     bs\<lparr>data := replicate (num_elements bs) 0 @ drop (num_elements bs) (data bs)\<rparr>"

text \<open>The result is the masked word read as a signed integer: zero, a power of two, or \<open>INT_MIN\<close>.\<close>

definition bitset__get :: "BitSet \<Rightarrow> nat \<Rightarrow> int" where
  "bitset__get bs idx = sint (data bs ! (idx div WORD_BITS) AND push_bit (idx mod WORD_BITS) 1)"

text \<open>\<open>for(j = idx; bitset__get(bitset,j) == 0 && j < hi; j++);\<close> returns the final \<open>j\<close>.\<close>

function scan_bit :: "BitSet \<Rightarrow> nat \<Rightarrow> nat \<Rightarrow> nat" where
  "scan_bit bs hi j = (if bitset__get bs j = 0 \<and> j < hi then scan_bit bs hi (Suc j) else j)"
  by pat_completeness auto
termination
  by (relation "measure (\<lambda>(bs, hi, j). hi - j)") auto

text \<open>\<open>for(i = ...; i < num_elements && data[i] == 0; i++);\<close> returns the final \<open>i\<close>.\<close>

function scan_word :: "BitSet \<Rightarrow> nat \<Rightarrow> nat" where
  "scan_word bs i = (if i < num_elements bs \<and> data bs ! i = 0 then scan_word bs (Suc i) else i)"
  by pat_completeness auto
termination
  by (relation "measure (\<lambda>(bs, i). num_elements bs - i)") auto

declare scan_bit.simps [simp del] scan_word.simps [simp del]

text \<open>The second half of \<open>bitset__next_set_bit\<close>: the search behind the first word.\<close>

definition next_in_later_words :: "BitSet \<Rightarrow> nat \<Rightarrow> int" where
  "next_in_later_words bs elem =
     (if num_elements bs \<le> elem + 1 then -1
      else let i = scan_word bs (elem + 1)
           in if num_elements bs \<le> i then -1
              else let j = scan_bit bs (bit_length bs) (i * WORD_BITS)
                   in if bit_length bs \<le> j then -1 else int j)"

definition bitset__next_set_bit :: "BitSet \<Rightarrow> nat \<Rightarrow> int" where
  "bitset__next_set_bit bs idx =
     (let elem = idx div WORD_BITS
      in if data bs ! elem \<noteq> 0
         then let j = scan_bit bs (min ((elem + 1) * WORD_BITS) (bit_length bs)) idx
              in if bit_length bs \<le> j then -1
                 else if j < (elem + 1) * WORD_BITS then int j
                 else next_in_later_words bs elem
         else next_in_later_words bs elem)"

text \<open>\<open>realloc\<close> keeps the common prefix; new words are uninitialised.\<close>

definition bitset__resize :: "BitSet \<Rightarrow> nat \<Rightarrow> bool \<Rightarrow> BitSet" where
  "bitset__resize bs new_length value =
     (let k = new_length div WORD_BITS + 1;
          bs' = bs\<lparr>data := take k (data bs) @ replicate (k - length (data bs)) uninit_word,
                    bit_length := new_length, num_elements := k\<rparr>
      in if value then fold (\<lambda>i b. bitset__set b i) [bit_length bs..<new_length] bs'
         else fold (\<lambda>i b. bitset__unset b i) [bit_length bs..<new_length] bs')"

section \<open>Representation invariant and abstraction\<close>

definition wf_bitset :: "BitSet \<Rightarrow> bool" where
  "wf_bitset bs \<longleftrightarrow> length (data bs) = num_elements bs \<and>
     num_elements bs = bit_length bs div WORD_BITS + 1"

text \<open>\<open>bit_at\<close> is the test \<open>if(bitset__get(b,i))\<close> of the callers.\<close>

definition bit_at :: "BitSet \<Rightarrow> nat \<Rightarrow> bool" where
  "bit_at bs i \<longleftrightarrow> bitset__get bs i \<noteq> 0"

definition bits :: "BitSet \<Rightarrow> nat set" where
  "bits bs = {i. i < bit_length bs \<and> bit_at bs i}"

lemma sint_eq_0_iff: "sint (w :: uint) = 0 \<longleftrightarrow> w = 0"
  by (metis signed_0 signed_word_eqI)

lemma bit_at_iff: "bit_at bs i \<longleftrightarrow> bit (data bs ! (i div WORD_BITS)) (i mod WORD_BITS)"
proof -
  have "push_bit (i mod WORD_BITS) (1 :: uint) = 2 ^ (i mod WORD_BITS)"
    by (simp add: push_bit_eq_mult)
  then show ?thesis
    by (simp add: bit_at_def bitset__get_def sint_eq_0_iff and_exp_eq_0_iff_not_bit)
qed

lemma wf_bitset_data: "wf_bitset bs \<Longrightarrow> length (data bs) = num_elements bs"
  by (simp add: wf_bitset_def)

lemma word_index_bound: "wf_bitset bs \<Longrightarrow> i \<le> bit_length bs \<Longrightarrow> i div WORD_BITS < length (data bs)"
  by (simp add: wf_bitset_def div_le_mono le_imp_less_Suc)

lemma same_bit:
  "i div WORD_BITS = j div WORD_BITS \<Longrightarrow> i mod WORD_BITS = j mod WORD_BITS \<longleftrightarrow> i = j"
  by (metis div_mult_mod_eq)

lemma wf_bitset_init [simp]: "wf_bitset (bitset__init n)"
  by (simp add: wf_bitset_def bitset__init_def Let_def)

lemma wf_bitset_update [simp]:
  "wf_bitset bs \<Longrightarrow> wf_bitset (bitset__set bs i)"
  "wf_bitset bs \<Longrightarrow> wf_bitset (bitset__unset bs i)"
  "wf_bitset bs \<Longrightarrow> wf_bitset (bitset__setAll bs)"
  "wf_bitset bs \<Longrightarrow> wf_bitset (bitset__unsetAll bs)"
  "wf_bitset bs \<Longrightarrow> wf_bitset (bitset__clone bs)"
  by (simp_all add: wf_bitset_def bitset__set_def bitset__unset_def bitset__setAll_def
      bitset__unsetAll_def bitset__clone_def)

lemma bit_length_update [simp]:
  "bit_length (bitset__init n) = n"
  "bit_length (bitset__set bs i) = bit_length bs"
  "bit_length (bitset__unset bs i) = bit_length bs"
  "bit_length (bitset__setAll bs) = bit_length bs"
  "bit_length (bitset__unsetAll bs) = bit_length bs"
  "bit_length (bitset__clone bs) = bit_length bs"
  by (simp_all add: bitset__init_def bitset__set_def bitset__unset_def bitset__setAll_def
      bitset__unsetAll_def bitset__clone_def Let_def)

lemma bit_at_set [simp]:
  assumes "wf_bitset bs" "i \<le> bit_length bs"
  shows "bit_at (bitset__set bs i) j \<longleftrightarrow> bit_at bs j \<or> j = i"
proof -
  have "i mod WORD_BITS < 32" by (simp add: WORD_BITS_def)
  then show ?thesis
    using word_index_bound[OF assms] same_bit[of j i]
    by (auto simp: bit_at_iff bitset__set_def nth_list_update bit_or_iff bit_exp_iff)
qed

lemma bit_at_unset [simp]:
  assumes "wf_bitset bs" "i \<le> bit_length bs"
  shows "bit_at (bitset__unset bs i) j \<longleftrightarrow> bit_at bs j \<and> j \<noteq> i"
proof -
  have "i mod WORD_BITS < 32" "j mod WORD_BITS < 32" by (simp_all add: WORD_BITS_def)
  then show ?thesis
    using word_index_bound[OF assms] same_bit[of j i]
    by (auto simp: bit_at_iff bitset__unset_def nth_list_update bit_and_iff bit_not_iff
        bit_exp_iff)
qed

lemma bit_at_setAll [simp]: "wf_bitset bs \<Longrightarrow> i \<le> bit_length bs \<Longrightarrow> bit_at (bitset__setAll bs) i"
  using word_index_bound[of bs i] wf_bitset_data[of bs]
  by (simp add: bit_at_iff bitset__setAll_def nth_append bit_minus_1_iff WORD_BITS_def)

lemma bit_at_unsetAll [simp]:
  "wf_bitset bs \<Longrightarrow> i \<le> bit_length bs \<Longrightarrow> \<not> bit_at (bitset__unsetAll bs) i"
  using word_index_bound[of bs i] wf_bitset_data[of bs]
  by (simp add: bit_at_iff bitset__unsetAll_def nth_append)

lemma bit_at_clone [simp]: "wf_bitset bs \<Longrightarrow> bit_at (bitset__clone bs) i \<longleftrightarrow> bit_at bs i"
  by (simp add: bit_at_iff bitset__clone_def wf_bitset_def)

lemma bits_update [simp]:
  assumes "wf_bitset bs"
  shows "i < bit_length bs \<Longrightarrow> bits (bitset__set bs i) = insert i (bits bs)"
    and "i < bit_length bs \<Longrightarrow> bits (bitset__unset bs i) = bits bs - {i}"
    and "bits (bitset__setAll bs) = {..<bit_length bs}"
    and "bits (bitset__unsetAll bs) = {}"
    and "bits (bitset__clone bs) = bits bs"
  using assms by (auto simp: bits_def)

lemma finite_bits [simp]: "finite (bits bs)"
  by (rule finite_subset[of _ "{..<bit_length bs}"]) (auto simp: bits_def)

lemma bit_at_bits: "i < bit_length bs \<Longrightarrow> bit_at bs i \<longleftrightarrow> i \<in> bits bs"
  by (simp add: bits_def)

text \<open>
  Resizing sets or clears exactly the bits from the old length on.  The loop starts at the old
  length, so all earlier bits keep their value.
\<close>

lemma fold_set_bits:
  "wf_bitset bs \<Longrightarrow> \<forall>i\<in>set xs. i \<le> bit_length bs \<Longrightarrow>
   wf_bitset (fold (\<lambda>i b. bitset__set b i) xs bs) \<and>
   bit_length (fold (\<lambda>i b. bitset__set b i) xs bs) = bit_length bs \<and>
   (\<forall>j. bit_at (fold (\<lambda>i b. bitset__set b i) xs bs) j \<longleftrightarrow> bit_at bs j \<or> j \<in> set xs)"
  by (induction xs arbitrary: bs) auto

lemma fold_unset_bits:
  "wf_bitset bs \<Longrightarrow> \<forall>i\<in>set xs. i \<le> bit_length bs \<Longrightarrow>
   wf_bitset (fold (\<lambda>i b. bitset__unset b i) xs bs) \<and>
   bit_length (fold (\<lambda>i b. bitset__unset b i) xs bs) = bit_length bs \<and>
   (\<forall>j. bit_at (fold (\<lambda>i b. bitset__unset b i) xs bs) j \<longleftrightarrow> bit_at bs j \<and> j \<notin> set xs)"
  by (induction xs arbitrary: bs) auto

lemma resize_frame:
  assumes "wf_bitset bs" "bit_length bs \<le> n" "i < bit_length bs"
  defines "k \<equiv> n div WORD_BITS + 1"
  defines "bs' \<equiv> bs\<lparr>data := take k (data bs) @ replicate (k - length (data bs)) uninit_word,
    bit_length := n, num_elements := k\<rparr>"
  shows "wf_bitset bs'" and "bit_at bs' i \<longleftrightarrow> bit_at bs i"
proof -
  have "num_elements bs \<le> k"
    using assms(1,2) by (simp add: wf_bitset_def k_def div_le_mono)
  then show "wf_bitset bs'"
    using assms(1) by (simp add: wf_bitset_def bs'_def k_def)
  show "bit_at bs' i \<longleftrightarrow> bit_at bs i"
    using word_index_bound[of bs i] assms \<open>num_elements bs \<le> k\<close> wf_bitset_data[of bs]
    by (simp add: bit_at_iff nth_append)
qed

lemma bits_resize:
  assumes "wf_bitset bs" "bit_length bs < n"
  shows "bits (bitset__resize bs n v) = bits bs \<union> (if v then {bit_length bs..<n} else {})"
proof -
  let ?k = "n div WORD_BITS + 1"
  let ?b = "bs\<lparr>data := take ?k (data bs) @ replicate (?k - length (data bs)) uninit_word,
    bit_length := n, num_elements := ?k\<rparr>"
  have wf: "wf_bitset ?b"
    using assms by (auto simp: wf_bitset_def div_le_mono)
  have same: "i < bit_length bs \<Longrightarrow> bit_at ?b i \<longleftrightarrow> bit_at bs i" for i
    using resize_frame(2)[of bs n i] assms by simp
  have "bits (if v then fold (\<lambda>i b. bitset__set b i) [bit_length bs..<n] ?b
      else fold (\<lambda>i b. bitset__unset b i) [bit_length bs..<n] ?b) =
    bits bs \<union> (if v then {bit_length bs..<n} else {})"
    using fold_set_bits[OF wf, of "[bit_length bs..<n]"] same
      fold_unset_bits[OF wf, of "[bit_length bs..<n]"] assms(2)
    by (auto simp: bits_def)
  then show ?thesis by (simp only: bitset__resize_def Let_def)
qed

section \<open>Finding the next set bit\<close>

lemma scan_bit_spec:
  "j \<le> scan_bit bs hi j \<and>
   (\<forall>k. j \<le> k \<and> k < scan_bit bs hi j \<longrightarrow> \<not> bit_at bs k) \<and>
   (scan_bit bs hi j < hi \<longrightarrow> bit_at bs (scan_bit bs hi j))"
proof (induction bs hi j rule: scan_bit.induct)
  case (1 bs hi j)
  show ?case
  proof (cases "bitset__get bs j = 0 \<and> j < hi")
    case True
    with 1 show ?thesis
      by (auto simp: scan_bit.simps[of bs hi j] bit_at_def)
        (metis Suc_leI le_neq_implies_less)+
  next
    case False
    then show ?thesis by (auto simp: scan_bit.simps[of bs hi j] bit_at_def)
  qed
qed

lemma scan_bit_le: "j \<le> hi \<Longrightarrow> scan_bit bs hi j \<le> hi"
proof (induction bs hi j rule: scan_bit.induct)
  case (1 bs hi j)
  then show ?case by (cases "bitset__get bs j = 0 \<and> j < hi") (auto simp: scan_bit.simps[of bs hi j])
qed

lemma scan_word_spec:
  "i \<le> scan_word bs i \<and> (\<forall>k. i \<le> k \<and> k < scan_word bs i \<longrightarrow> data bs ! k = 0)"
proof (induction bs i rule: scan_word.induct)
  case (1 bs i)
  show ?case
  proof (cases "i < num_elements bs \<and> data bs ! i = 0")
    case True
    with 1 show ?thesis
      by (auto simp: scan_word.simps[of bs i]) (metis Suc_leI le_neq_implies_less)
  next
    case False
    then have "scan_word bs i = i" by (auto simp: scan_word.simps[of bs i])
    then show ?thesis by auto
  qed
qed

lemma zero_word_no_bit: "data bs ! (k div WORD_BITS) = 0 \<Longrightarrow> \<not> bit_at bs k"
  by (simp add: bit_at_iff)

text \<open>What a search from \<open>i\<close> on promises: the least set bit, or \<open>-1\<close> when there is none.\<close>

definition least_from :: "nat set \<Rightarrow> nat \<Rightarrow> int \<Rightarrow> bool" where
  "least_from B i r \<longleftrightarrow>
     (r = -1 \<and> (\<forall>k\<in>B. k < i)) \<or>
     (\<exists>j. r = int j \<and> i \<le> j \<and> j \<in> B \<and> (\<forall>k\<in>B. i \<le> k \<longrightarrow> j \<le> k))"

lemma least_from_scan:
  assumes "\<And>k. k \<in> bits bs \<Longrightarrow> i \<le> k \<Longrightarrow> j \<le> k" and "i \<le> j"
  shows "least_from (bits bs) i
    (let r = scan_bit bs (bit_length bs) j in if bit_length bs \<le> r then -1 else int r)"
proof -
  define r where "r = scan_bit bs (bit_length bs) j"
  have r: "j \<le> r" "\<And>k. j \<le> k \<Longrightarrow> k < r \<Longrightarrow> \<not> bit_at bs k" "r < bit_length bs \<Longrightarrow> bit_at bs r"
    using scan_bit_spec[of j bs "bit_length bs"] by (auto simp: r_def)
  have least: "k \<in> bits bs \<Longrightarrow> i \<le> k \<Longrightarrow> r \<le> k" for k
    using assms r(2)[of k] by (force simp: bits_def not_less)
  show ?thesis
  proof (cases "bit_length bs \<le> r")
    case True
    with least show ?thesis
      by (force simp: least_from_def r_def[symmetric] bits_def not_less)
  next
    case False
    then have "r \<in> bits bs" using r(3) by (simp add: bits_def)
    with False r(1) least assms(2) show ?thesis
      by (auto simp: least_from_def r_def[symmetric])
  qed
qed

lemma div_less_word: "k < (e + 1) * WORD_BITS \<longleftrightarrow> k div WORD_BITS \<le> e"
  by (metis Suc_eq_plus1 WORD_BITS_def less_Suc_eq_le less_mult_imp_div_less
      div_less_iff_less_mult zero_less_numeral)

lemma next_in_later_words_spec:
  assumes "wf_bitset bs"
  shows "least_from (bits bs) ((e + 1) * WORD_BITS) (next_in_later_words bs e)"
proof (cases "num_elements bs \<le> scan_word bs (e + 1) \<or> num_elements bs \<le> e + 1")
  case True
  have "k < (e + 1) * WORD_BITS" if "k \<in> bits bs" for k
  proof (rule ccontr)
    assume "\<not> k < (e + 1) * WORD_BITS"
    then have e: "e < k div WORD_BITS" by (simp only: div_less_word)
    have "k div WORD_BITS < num_elements bs"
      using word_index_bound[OF assms, of k] that wf_bitset_data[OF assms] by (simp add: bits_def)
    then have "data bs ! (k div WORD_BITS) = 0"
      using True e scan_word_spec[of "e + 1" bs] by auto
    with that show False by (auto simp: bits_def dest: zero_word_no_bit)
  qed
  then have "\<forall>k\<in>bits bs. k < (e + 1) * WORD_BITS" by blast
  moreover have "next_in_later_words bs e = -1"
    using True by (auto simp: next_in_later_words_def Let_def)
  ultimately show ?thesis unfolding least_from_def by blast
next
  case False
  define i where "i = scan_word bs (e + 1)"
  have i: "e + 1 \<le> i" "\<And>k. e + 1 \<le> k \<Longrightarrow> k < i \<Longrightarrow> data bs ! k = 0"
    using scan_word_spec[of "e + 1" bs] by (auto simp: i_def)
  have "i * WORD_BITS \<le> k" if "k \<in> bits bs" "(e + 1) * WORD_BITS \<le> k" for k
  proof (rule ccontr)
    assume "\<not> i * WORD_BITS \<le> k"
    then have "k div WORD_BITS < i"
      by (simp add: WORD_BITS_def div_less_iff_less_mult)
    moreover have "e < k div WORD_BITS"
      using that(2) div_less_word[of k e] by linarith
    ultimately show False
      using i(2)[of "k div WORD_BITS"] that(1) by (auto simp: bits_def dest: zero_word_no_bit)
  qed
  moreover have "(e + 1) * WORD_BITS \<le> i * WORD_BITS" using i(1) mult_le_mono1 by blast
  ultimately have "least_from (bits bs) ((e + 1) * WORD_BITS)
    (let r = scan_bit bs (bit_length bs) (i * WORD_BITS)
     in if bit_length bs \<le> r then -1 else int r)"
    by (rule least_from_scan)
  with False show ?thesis
    by (simp add: next_in_later_words_def Let_def i_def)
qed

lemma least_from_skip:
  "least_from B j r \<Longrightarrow> i \<le> j \<Longrightarrow> \<forall>k\<in>B. i \<le> k \<longrightarrow> j \<le> k \<Longrightarrow> least_from B i r"
  unfolding least_from_def by (metis le_trans not_le)

lemma bitset__next_set_bit_spec:
  assumes wf: "wf_bitset bs" and idx: "idx \<le> bit_length bs"
  shows "least_from (bits bs) idx (bitset__next_set_bit bs idx)"
proof -
  define e where "e = idx div WORD_BITS"
  define hi where "hi = min ((e + 1) * WORD_BITS) (bit_length bs)"
  define j where "j = scan_bit bs hi idx"
  have below: "idx < (e + 1) * WORD_BITS" by (simp only: div_less_word e_def)
  have j: "idx \<le> j" "\<And>k. idx \<le> k \<Longrightarrow> k < j \<Longrightarrow> \<not> bit_at bs k" "j < hi \<Longrightarrow> bit_at bs j" "j \<le> hi"
    using scan_bit_spec[of idx bs hi] scan_bit_le[of idx hi bs] idx below
    by (auto simp: j_def hi_def)
  have nb: "j \<le> k" if "k \<in> bits bs" "idx \<le> k" for k
    using j(2)[of k] that by (auto simp: bits_def not_less[symmetric])
  have later: "least_from (bits bs) idx (next_in_later_words bs e)"
    if "\<And>k. idx \<le> k \<Longrightarrow> k < (e + 1) * WORD_BITS \<Longrightarrow> k \<notin> bits bs"
    using next_in_later_words_spec[OF wf, of e]
  proof (rule least_from_skip)
    show "idx \<le> (e + 1) * WORD_BITS" using below by simp
    show "\<forall>k\<in>bits bs. idx \<le> k \<longrightarrow> (e + 1) * WORD_BITS \<le> k" using that by (meson not_le)
  qed
  show ?thesis
  proof (cases "data bs ! e = 0")
    case True
    have "k \<notin> bits bs" if "idx \<le> k" "k < (e + 1) * WORD_BITS" for k
    proof -
      have "k div WORD_BITS \<le> e" using that(2) by (simp only: div_less_word)
      moreover have "e \<le> k div WORD_BITS" using that(1) by (simp add: e_def div_le_mono)
      ultimately show ?thesis using True zero_word_no_bit[of bs k] by (simp add: bits_def)
    qed
    with later True show ?thesis
      by (simp add: bitset__next_set_bit_def Let_def e_def[symmetric])
  next
    case False
    then have res: "bitset__next_set_bit bs idx =
      (if bit_length bs \<le> j then -1 else if j < (e + 1) * WORD_BITS then int j
       else next_in_later_words bs e)"
      unfolding j_def hi_def e_def bitset__next_set_bit_def Let_def
      by (simp only: if_True not_False_eq_True)
    show ?thesis
    proof (cases "bit_length bs \<le> j")
      case True
      have "k < idx" if "k \<in> bits bs" for k
        using nb[OF that] that True by (force simp: bits_def)
      with True res show ?thesis by (simp add: least_from_def)
    next
      case short: False
      show ?thesis
      proof (cases "j < (e + 1) * WORD_BITS")
        case True
        then have "j \<in> bits bs" using short j(3) by (simp add: hi_def bits_def)
        then show ?thesis using res short True j(1) nb by (auto simp: least_from_def)
      next
        case past: False
        then have "k \<notin> bits bs" if "idx \<le> k" "k < (e + 1) * WORD_BITS" for k
          using j(2)[of k] that by (auto simp: bits_def)
        with later res short past show ?thesis by simp
      qed
    qed
  qed
qed

text \<open>
  The loop \<open>for(i = next_set_bit(b,0); i != -1; i = next_set_bit(b,i+1))\<close>: the indices it visits.
  Its termination needs no invariant, since a returned index is always below the length.
\<close>

lemma next_set_bit_bounds:
  "bitset__next_set_bit bs idx \<noteq> -1 \<Longrightarrow>
   idx \<le> nat (bitset__next_set_bit bs idx) \<and> nat (bitset__next_set_bit bs idx) < bit_length bs"
proof -
  have ge: "idx \<le> i * WORD_BITS" if "idx div WORD_BITS + 1 \<le> i" for i
  proof -
    have "idx < (idx div WORD_BITS + 1) * WORD_BITS" by (simp only: div_less_word)
    also have "\<dots> \<le> i * WORD_BITS" using that by (rule mult_le_mono1)
    finally show ?thesis by simp
  qed
  have later: "next_in_later_words bs (idx div WORD_BITS) = -1 \<or>
    (\<exists>j. next_in_later_words bs (idx div WORD_BITS) = int j \<and> idx \<le> j \<and> j < bit_length bs)"
    using scan_word_spec[of "idx div WORD_BITS + 1" bs]
      scan_bit_spec[of "scan_word bs (idx div WORD_BITS + 1) * WORD_BITS" bs "bit_length bs"]
      ge[of "scan_word bs (idx div WORD_BITS + 1)"]
    by (auto simp: next_in_later_words_def Let_def not_le intro: le_trans)
  assume "bitset__next_set_bit bs idx \<noteq> -1"
  with later scan_bit_spec[of idx bs "min ((idx div WORD_BITS + 1) * WORD_BITS) (bit_length bs)"]
  show ?thesis
    by (auto simp: bitset__next_set_bit_def Let_def split: if_splits)
qed

function set_bits_from :: "BitSet \<Rightarrow> nat \<Rightarrow> nat list" where
  "set_bits_from bs idx =
     (if bitset__next_set_bit bs idx = -1 then []
      else nat (bitset__next_set_bit bs idx)
        # set_bits_from bs (nat (bitset__next_set_bit bs idx) + 1))"
  by pat_completeness auto
termination
  by (relation "measure (\<lambda>(bs, idx). bit_length bs - idx)")
    (auto dest!: next_set_bit_bounds)

declare set_bits_from.simps [simp del]

definition bitset_members :: "BitSet \<Rightarrow> nat list" where
  "bitset_members bs = set_bits_from bs 0"

lemma set_bits_from_sorted_list:
  "wf_bitset bs \<Longrightarrow> idx \<le> bit_length bs \<Longrightarrow>
   set_bits_from bs idx = filter (\<lambda>i. i \<in> bits bs) [idx..<bit_length bs]"
proof (induction bs idx rule: set_bits_from.induct)
  case (1 bs idx)
  note spec = bitset__next_set_bit_spec[OF "1.prems"]
  show ?case
  proof (cases "bitset__next_set_bit bs idx = -1")
    case True
    with spec have "\<forall>k\<in>bits bs. k < idx" by (auto simp: least_from_def)
    then have "filter (\<lambda>i. i \<in> bits bs) [idx..<bit_length bs] = []"
      by (auto simp: filter_empty_conv)
    with True show ?thesis by (simp add: set_bits_from.simps[of bs idx])
  next
    case False
    with spec obtain j where j: "bitset__next_set_bit bs idx = int j" "idx \<le> j" "j \<in> bits bs"
      "\<forall>k\<in>bits bs. idx \<le> k \<longrightarrow> j \<le> k"
      by (auto simp: least_from_def)
    then have len: "j < bit_length bs" by (simp add: bits_def)
    then have "[idx..<bit_length bs] = [idx..<j] @ j # [Suc j..<bit_length bs]"
      using j(2) by (metis upt_conv_Cons upt_add_eq_append le_add_diff_inverse less_imp_le)
    moreover have "filter (\<lambda>i. i \<in> bits bs) [idx..<j] = []"
      using j(4) by (force simp: filter_empty_conv)
    ultimately have "filter (\<lambda>i. i \<in> bits bs) [idx..<bit_length bs] =
      j # filter (\<lambda>i. i \<in> bits bs) [Suc j..<bit_length bs]"
      using j(3) by simp
    with "1.IH"[OF False] "1.prems"(1) j(1) len show ?thesis
      by (simp add: set_bits_from.simps[of bs idx])
  qed
qed

lemma bitset_members_eq:
  "wf_bitset bs \<Longrightarrow> bitset_members bs = filter (\<lambda>i. i \<in> bits bs) [0..<bit_length bs]"
  by (simp add: bitset_members_def set_bits_from_sorted_list)

lemma set_bitset_members [simp]: "wf_bitset bs \<Longrightarrow> set (bitset_members bs) = bits bs"
  by (auto simp: bitset_members_eq bits_def)

section \<open>The contract of bit arrays\<close>

text \<open>
  What random access sets, labelings and argumentation frameworks rely on: a state with a length,
  an invariant, a test and two updates that act on a single index.
\<close>

locale bit_array =
  fixes len :: "'b \<Rightarrow> nat"
    and ok :: "'b \<Rightarrow> bool"
    and test :: "'b \<Rightarrow> nat \<Rightarrow> bool"
    and put :: "'b \<Rightarrow> nat \<Rightarrow> 'b"
    and clear :: "'b \<Rightarrow> nat \<Rightarrow> 'b"
  assumes ok_put: "ok b \<Longrightarrow> ok (put b i)"
    and ok_clear: "ok b \<Longrightarrow> ok (clear b i)"
    and len_put: "len (put b i) = len b"
    and len_clear: "len (clear b i) = len b"
    and test_put: "ok b \<Longrightarrow> i < len b \<Longrightarrow> test (put b i) j \<longleftrightarrow> test b j \<or> j = i"
    and test_clear: "ok b \<Longrightarrow> i < len b \<Longrightarrow> test (clear b i) j \<longleftrightarrow> test b j \<and> j \<noteq> i"
begin

lemma fold_put:
  "ok b \<Longrightarrow> \<forall>i\<in>set xs. i < len b \<Longrightarrow>
   ok (fold (\<lambda>i b. put b i) xs b) \<and> len (fold (\<lambda>i b. put b i) xs b) = len b \<and>
   (\<forall>j. test (fold (\<lambda>i b. put b i) xs b) j \<longleftrightarrow> test b j \<or> j \<in> set xs)"
  by (induction xs arbitrary: b) (auto simp: ok_put len_put test_put)

lemma fold_clear:
  "ok b \<Longrightarrow> \<forall>i\<in>set xs. i < len b \<Longrightarrow>
   ok (fold (\<lambda>i b. clear b i) xs b) \<and> len (fold (\<lambda>i b. clear b i) xs b) = len b \<and>
   (\<forall>j. test (fold (\<lambda>i b. clear b i) xs b) j \<longleftrightarrow> test b j \<and> j \<notin> set xs)"
  by (induction xs arbitrary: b) (auto simp: ok_clear len_clear test_clear)

lemma put_clear_same: "ok b \<Longrightarrow> i < len b \<Longrightarrow> test (clear (put b i) i) j \<longleftrightarrow> test b j \<and> j \<noteq> i"
  by (auto simp: ok_put len_put test_put test_clear)

end

interpretation bs: bit_array bit_length wf_bitset bit_at bitset__set bitset__unset
  by unfold_locales auto

end
