(* ===== verification/Raset.thy ===== *)
theory Raset
  imports Bitset
begin

text \<open>
  util/raset.c.  A random access set keeps a bit set, an array whose first \<open>number_of_elements\<close>
  entries are the elements, and the inverse of that array.  \<open>raset_inv\<close> states how the three agree;
  \<open>raset_list\<close> is the abstraction to the list of elements in array order.  The locale \<open>index_set\<close>
  is the contract the solve functions use; it is interpreted by the operations of this theory.
\<close>

section \<open>The data structure and its operations\<close>

record RaSet =
  elements :: BitSet
  number_of_elements :: nat
  max_number_of_elements :: nat
  elements_arr :: "nat list"
  elements_arr_inverted :: "nat list"

definition uninit_index :: nat where
  "uninit_index = 0xCD"

definition raset__init_empty :: "nat \<Rightarrow> RaSet" where
  "raset__init_empty m =
     \<lparr>elements = bitset__unsetAll (bitset__init m), number_of_elements = 0,
      max_number_of_elements = m, elements_arr = replicate m uninit_index,
      elements_arr_inverted = replicate m uninit_index\<rparr>"

definition raset__reset :: "RaSet \<Rightarrow> RaSet" where
  "raset__reset rs = rs\<lparr>number_of_elements := 0, elements := bitset__unsetAll (elements rs)\<rparr>"

definition raset__contains :: "RaSet \<Rightarrow> nat \<Rightarrow> bool" where
  "raset__contains rs element \<longleftrightarrow> bitset__get (elements rs) element \<noteq> 0"

definition raset__add :: "RaSet \<Rightarrow> nat \<Rightarrow> bool \<times> RaSet" where
  "raset__add rs element =
     (if raset__contains rs element then (False, rs)
      else (True,
        rs\<lparr>elements := bitset__set (elements rs) element,
            elements_arr := (elements_arr rs)[number_of_elements rs := element],
            elements_arr_inverted := (elements_arr_inverted rs)[element := number_of_elements rs],
            number_of_elements := number_of_elements rs + 1\<rparr>))"

text \<open>
  The last element moves to the place of the removed one; the source reads the array again after
  writing it, so the two assignments are kept in order.
\<close>

definition raset__remove :: "RaSet \<Rightarrow> nat \<Rightarrow> bool \<times> RaSet" where
  "raset__remove rs element =
     (if \<not> raset__contains rs element then (False, rs)
      else
        let n = number_of_elements rs - 1;
            pos = elements_arr_inverted rs ! element;
            arr = (elements_arr rs)[pos := elements_arr rs ! n];
            inv = (elements_arr_inverted rs)[arr ! pos := pos]
        in (True,
          rs\<lparr>elements := bitset__unset (elements rs) element, number_of_elements := n,
              elements_arr := arr, elements_arr_inverted := inv\<rparr>))"

text \<open>\<open>r\<close> stands for the result of \<open>rand()\<close>.\<close>

definition raset__random_element :: "nat \<Rightarrow> RaSet \<Rightarrow> nat result" where
  "raset__random_element r rs =
     (if number_of_elements rs = 0 then Inl DivisionByZero
      else Inr (elements_arr rs ! (r mod number_of_elements rs)))"

definition raset__random_element_with_skip :: "nat \<Rightarrow> RaSet \<Rightarrow> BitSet \<Rightarrow> int" where
  "raset__random_element_with_skip r rs ignore =
     (let arr = fold (\<lambda>i arr. if bitset__get ignore (elements_arr rs ! i) = 0
                              then arr @ [elements_arr rs ! i] else arr)
                  [0..<number_of_elements rs] []
      in if length arr = 0 then -1 else int (arr ! (r mod length arr)))"

definition raset__get :: "RaSet \<Rightarrow> nat \<Rightarrow> nat" where
  "raset__get rs idx = elements_arr rs ! idx"

definition raset__print :: "RaSet \<Rightarrow> string list \<Rightarrow> string" where
  "raset__print rs ids2arguments =
     ''['' @ snd (fold (\<lambda>i (isFirst, out).
         (False, out @ (if isFirst then [] else '','') @ ids2arguments ! (elements_arr rs ! i)))
       [0..<number_of_elements rs] (True, [])) @ '']'' @ [CHR 0x0A]"

definition raset__print_i23 :: "RaSet \<Rightarrow> string list \<Rightarrow> string" where
  "raset__print_i23 rs ids2arguments =
     ''w '' @ fold (\<lambda>i out. out @ ids2arguments ! (elements_arr rs ! i) @ '' '')
       [0..<number_of_elements rs] [] @ [CHR 0x0A]"

section \<open>Representation invariant\<close>

definition raset_list :: "RaSet \<Rightarrow> nat list" where
  "raset_list s = take (number_of_elements s) (elements_arr s)"

definition raset_set :: "RaSet \<Rightarrow> nat set" where
  "raset_set s = set (raset_list s)"

definition raset_inv :: "RaSet \<Rightarrow> bool" where
  "raset_inv s \<longleftrightarrow>
     wf_bitset (elements s) \<and> bit_length (elements s) = max_number_of_elements s \<and>
     length (elements_arr s) = max_number_of_elements s \<and>
     length (elements_arr_inverted s) = max_number_of_elements s \<and>
     number_of_elements s \<le> max_number_of_elements s \<and>
     distinct (raset_list s) \<and>
     raset_set s \<subseteq> {..<max_number_of_elements s} \<and>
     (\<forall>i < max_number_of_elements s. bit_at (elements s) i \<longleftrightarrow> i \<in> raset_set s) \<and>
     (\<forall>k < number_of_elements s. elements_arr_inverted s ! (elements_arr s ! k) = k)"

lemma raset__contains_iff:
  "raset_inv s \<Longrightarrow> i < max_number_of_elements s \<Longrightarrow> raset__contains s i \<longleftrightarrow> i \<in> raset_set s"
  by (simp add: raset_inv_def raset__contains_def bit_at_def)

lemma length_raset_list: "raset_inv s \<Longrightarrow> length (raset_list s) = number_of_elements s"
  by (simp add: raset_inv_def raset_list_def)

lemma nth_raset_list: "k < number_of_elements s \<Longrightarrow> elements_arr s ! k = raset_list s ! k"
  by (simp add: raset_list_def)

lemma raset_card: "raset_inv s \<Longrightarrow> card (raset_set s) = number_of_elements s"
  by (metis distinct_card length_raset_list raset_inv_def raset_set_def)

lemma raset_init_empty [simp]:
  "raset_inv (raset__init_empty m)" "raset_list (raset__init_empty m) = []"
  "raset_set (raset__init_empty m) = {}" "max_number_of_elements (raset__init_empty m) = m"
  by (auto simp: raset_inv_def raset__init_empty_def raset_set_def raset_list_def)

lemma raset_reset [simp]:
  "raset_inv s \<Longrightarrow> raset_inv (raset__reset s)"
  "raset_list (raset__reset s) = []" "raset_set (raset__reset s) = {}"
  "max_number_of_elements (raset__reset s) = max_number_of_elements s"
  by (auto simp: raset_inv_def raset__reset_def raset_set_def raset_list_def)

lemma raset_add_fresh:
  assumes inv: "raset_inv s" and i: "i < max_number_of_elements s" and new: "i \<notin> raset_set s"
  shows "raset_inv (snd (raset__add s i)) \<and>
    raset_list (snd (raset__add s i)) = raset_list s @ [i]"
proof -
  let ?s = "snd (raset__add s i)"
  have room: "number_of_elements s < max_number_of_elements s"
  proof (rule ccontr)
    assume "\<not> ?thesis"
    then have "card (raset_set s) = card {..<max_number_of_elements s}"
      using inv raset_card[OF inv] by (simp add: raset_inv_def)
    then have "raset_set s = {..<max_number_of_elements s}"
      using inv by (metis card_subset_eq finite_lessThan raset_inv_def)
    with i new show False by simp
  qed
  have upd: "?s = s\<lparr>elements := bitset__set (elements s) i,
      elements_arr := (elements_arr s)[number_of_elements s := i],
      elements_arr_inverted := (elements_arr_inverted s)[i := number_of_elements s],
      number_of_elements := number_of_elements s + 1\<rparr>"
    using raset__contains_iff[OF inv i] new by (simp add: raset__add_def)
  have lst: "raset_list ?s = raset_list s @ [i]"
    using room inv by (simp add: upd raset_list_def take_Suc_conv_app_nth raset_inv_def)
  have "elements_arr s ! k \<noteq> i" if "k < number_of_elements s" for k
    using that new inv by (auto simp: raset_set_def raset_list_def raset_inv_def in_set_conv_nth)
  then have "raset_inv ?s"
    using inv i new room lst unfolding raset_inv_def raset_set_def
    by (auto simp: upd nth_list_update less_Suc_eq)
  with lst show ?thesis by simp
qed

lemma raset_add [simp]:
  assumes "raset_inv s" "i < max_number_of_elements s"
  shows "raset_inv (snd (raset__add s i))"
    and "raset_set (snd (raset__add s i)) = insert i (raset_set s)"
    and "fst (raset__add s i) \<longleftrightarrow> i \<notin> raset_set s"
    and "max_number_of_elements (snd (raset__add s i)) = max_number_of_elements s"
    and "raset_list (snd (raset__add s i)) =
      (if i \<in> raset_set s then raset_list s else raset_list s @ [i])"
  using raset_add_fresh[OF assms] raset__contains_iff[OF assms] assms(1)
  by (cases "i \<in> raset_set s"; auto simp: raset__add_def raset_set_def)+

text \<open>Removal swaps the last element into the gap.\<close>

lemma raset_remove_member:
  assumes inv: "raset_inv s" and mem: "i \<in> raset_set s"
  shows "raset_inv (snd (raset__remove s i)) \<and>
    raset_set (snd (raset__remove s i)) = raset_set s - {i} \<and>
    number_of_elements (snd (raset__remove s i)) = number_of_elements s - 1"
proof -
  let ?s = "snd (raset__remove s i)"
  let ?xs = "raset_list s"
  define n where "n = number_of_elements s - 1"
  define p where "p = elements_arr_inverted s ! i"
  define l where "l = elements_arr s ! n"
  have im: "i < max_number_of_elements s" using inv mem by (auto simp: raset_inv_def)
  obtain k where k: "k < number_of_elements s" "elements_arr s ! k = i"
    using mem inv by (auto simp: raset_set_def in_set_conv_nth length_raset_list nth_raset_list)
  with inv have pk: "p = k" by (auto simp: p_def raset_inv_def)
  have n: "n < number_of_elements s" "number_of_elements s = Suc n" using k(1) by (auto simp: n_def)
  have lens: "length (elements_arr s) = max_number_of_elements s"
    "length (elements_arr_inverted s) = max_number_of_elements s"
    "number_of_elements s \<le> max_number_of_elements s" "length ?xs = Suc n"
    using inv n length_raset_list[OF inv] by (auto simp: raset_inv_def)
  have lm: "l < max_number_of_elements s"
  proof -
    have "l \<in> raset_set s"
      unfolding l_def raset_set_def using n lens nth_raset_list[of n s] by (metis lessI nth_mem)
    then show ?thesis using inv by (auto simp: raset_inv_def)
  qed
  have upd: "?s = s\<lparr>elements := bitset__unset (elements s) i, number_of_elements := n,
      elements_arr := (elements_arr s)[p := l],
      elements_arr_inverted := (elements_arr_inverted s)[l := p]\<rparr>"
    using raset__contains_iff[OF inv im] mem k(1) pk lens
    by (simp add: raset__remove_def Let_def n_def p_def l_def)
  obtain ys z where xs: "?xs = ys @ [z]" using lens(4) by (metis append_butlast_last_id list.size(3) nat.distinct(1))
  then have ly: "length ys = n" using lens(4) by simp
  then have z: "z = l" using xs n nth_raset_list[of n s] by (simp add: l_def nth_append)
  have lst: "raset_list ?s = take n (?xs[k := l])"
    using n k pk lens by (simp add: upd raset_list_def take_update_swap min_def)
  have dist: "distinct (ys @ [z])" using inv xs by (simp add: raset_inv_def)
  have ki: "(ys @ [z]) ! k = i" using k nth_raset_list[of k s] xs by simp
  have elems: "distinct (raset_list ?s) \<and> raset_set ?s = raset_set s - {i}"
  proof (cases "k = n")
    case True
    then have "raset_list ?s = ys" using lst xs ly by simp
    with True ki ly dist xs show ?thesis by (auto simp: raset_set_def)
  next
    case False
    then have kn: "k < length ys" using k n ly by simp
    then have "raset_list ?s = ys[k := z]" using lst xs ly z by (simp add: list_update_append)
    moreover have "ys ! k = i" using ki kn by (simp add: nth_append)
    moreover have "set (ys[k := z]) = insert z (set ys - {ys ! k})"
      using dist kn by (intro set_update_distinct) auto
    moreover have "z \<noteq> ys ! k" using dist kn by (metis distinct_append disjoint_iff list.set_intros(1) nth_mem)
    ultimately show ?thesis
      using dist xs by (auto simp: raset_set_def distinct_list_update)
  qed
  have inv_arr: "elements_arr_inverted ?s ! (elements_arr ?s ! j) = j" if j: "j < n" for j
  proof -
    have inj: "elements_arr s ! j = elements_arr s ! j' \<Longrightarrow> j' < number_of_elements s \<Longrightarrow> j = j'" for j'
      using j n inv unfolding raset_inv_def by (metis less_SucI)
    show ?thesis
      using j n lens k pk lm inj[of n] inv
      by (cases "j = k") (auto simp: upd nth_list_update l_def raset_inv_def)
  qed
  have wf: "wf_bitset (elements s)" "bit_length (elements s) = max_number_of_elements s"
    "raset_set s \<subseteq> {..<max_number_of_elements s}"
    and agree: "\<And>j. j < max_number_of_elements s \<Longrightarrow> bit_at (elements s) j \<longleftrightarrow> j \<in> raset_set s"
    using inv by (simp_all add: raset_inv_def)
  have fields: "elements ?s = bitset__unset (elements s) i" "number_of_elements ?s = n"
    "max_number_of_elements ?s = max_number_of_elements s"
    "length (elements_arr ?s) = max_number_of_elements s"
    "length (elements_arr_inverted ?s) = max_number_of_elements s"
    using lens by (simp_all add: upd)
  have c1: "wf_bitset (elements ?s)" "bit_length (elements ?s) = max_number_of_elements ?s"
    "number_of_elements ?s \<le> max_number_of_elements ?s"
    using wf lens n by (simp_all add: fields)
  have c2: "length (elements_arr ?s) = max_number_of_elements ?s"
    "length (elements_arr_inverted ?s) = max_number_of_elements ?s"
    by (simp_all add: fields)
  have c3: "raset_set ?s \<subseteq> {..<max_number_of_elements ?s}"
    using wf(3) elems fields(3) by auto
  have c4: "\<forall>j < max_number_of_elements ?s. bit_at (elements ?s) j \<longleftrightarrow> j \<in> raset_set ?s"
    using agree wf im elems by (simp add: fields)
  have c5: "\<forall>j < number_of_elements ?s. elements_arr_inverted ?s ! (elements_arr ?s ! j) = j"
    unfolding fields(2) using inv_arr by blast
  have "raset_inv ?s"
    unfolding raset_inv_def
    by (intro conjI c1 c2 c3 c4 c5) (rule elems[THEN conjunct1])
  with elems show ?thesis by (simp add: fields(2) n_def)
qed

lemma raset_remove_absent: "\<not> raset__contains s i \<Longrightarrow> raset__remove s i = (False, s)"
  by (simp add: raset__remove_def)

lemma raset_remove [simp]:
  assumes "raset_inv s" "i < max_number_of_elements s"
  shows "raset_inv (snd (raset__remove s i))"
    and "raset_set (snd (raset__remove s i)) = raset_set s - {i}"
    and "fst (raset__remove s i) \<longleftrightarrow> i \<in> raset_set s"
    and "max_number_of_elements (snd (raset__remove s i)) = max_number_of_elements s"
proof -
  show "fst (raset__remove s i) \<longleftrightarrow> i \<in> raset_set s"
    using raset__contains_iff[OF assms] by (simp add: raset__remove_def Let_def)
  show "max_number_of_elements (snd (raset__remove s i)) = max_number_of_elements s"
    by (simp add: raset__remove_def Let_def)
  show "raset_inv (snd (raset__remove s i))"
    "raset_set (snd (raset__remove s i)) = raset_set s - {i}"
    using raset_remove_member[OF assms(1), of i] raset__contains_iff[OF assms]
      raset_remove_absent[of s i] assms(1)
    by (cases "i \<in> raset_set s"; simp)+
qed

section \<open>Printing and random choice\<close>

lemma raset_array_order:
  "raset_inv s \<Longrightarrow> map (\<lambda>i. elements_arr s ! i) [0..<number_of_elements s] = raset_list s"
  by (intro nth_equalityI) (auto simp: length_raset_list nth_raset_list)

lemma raset__print_i23_eq:
  assumes "raset_inv s"
  shows "raset__print_i23 s ids =
    ''w '' @ concat (map (\<lambda>a. ids ! a @ '' '') (raset_list s)) @ [CHR 0x0A]"
  using fold_append_concat[of "\<lambda>i. ids ! (elements_arr s ! i) @ '' ''" "[0..<number_of_elements s]" "[]"]
    raset_array_order[OF assms, symmetric]
  by (simp add: raset__print_i23_def comp_def)

lemma fold_first:
  "fold (\<lambda>i (isFirst, out). (False, out @ (if isFirst then [] else '','') @ f i)) xs (False, out) =
   (False, out @ concat (map (\<lambda>i. '','' @ f i) xs))"
  by (induction xs arbitrary: out) auto

lemma raset__print_eq:
  assumes "raset_inv s"
  shows "raset__print s ids =
    ''['' @ join '','' (map (\<lambda>a. ids ! a) (raset_list s)) @ '']'' @ [CHR 0x0A]"
proof -
  have "snd (fold (\<lambda>i (isFirst, out). (False, out @ (if isFirst then [] else '','') @ f i)) ks
      (True, [])) = join '','' (map f ks)" for f :: "nat \<Rightarrow> string" and ks
    by (cases ks) (auto simp: join_Cons fold_first comp_def)
  from this[of "\<lambda>i. ids ! (elements_arr s ! i)" "[0..<number_of_elements s]"]
  show ?thesis
    by (simp add: raset__print_def raset_array_order[OF assms, symmetric] comp_def)
qed

lemma raset__random_element_member:
  assumes "raset_inv s" "raset_set s \<noteq> {}"
  shows "rok (raset__random_element r s) (\<lambda>x. x \<in> raset_set s)"
proof -
  have "0 < number_of_elements s"
    using assms by (metis card_gt_0_iff finite_set raset_card raset_set_def)
  then show ?thesis
    using assms(1) nth_mem[of "r mod number_of_elements s" "raset_list s"]
    by (simp add: raset__random_element_def length_raset_list nth_raset_list raset_set_def)
qed

lemma raset__random_element_with_skip_spec:
  assumes inv: "raset_inv s"
  shows "case raset__random_element_with_skip r s ignore of x \<Rightarrow>
    if \<forall>i\<in>raset_set s. bit_at ignore i then x = -1
    else \<exists>i\<in>raset_set s. \<not> bit_at ignore i \<and> x = int i"
proof -
  define ys where "ys = filter (\<lambda>a. \<not> bit_at ignore a) (raset_list s)"
  have "fold (\<lambda>i arr. if bitset__get ignore (elements_arr s ! i) = 0
      then arr @ [elements_arr s ! i] else arr) [0..<number_of_elements s] [] = ys"
    unfolding ys_def raset_array_order[OF inv, symmetric]
    by (simp add: fold_append_filter filter_map bit_at_def comp_def)
  then have res: "raset__random_element_with_skip r s ignore =
      (if length ys = 0 then -1 else int (ys ! (r mod length ys)))"
    by (simp add: raset__random_element_with_skip_def Let_def)
  show ?thesis
  proof (cases "ys = []")
    case True
    then have "\<forall>i\<in>raset_set s. bit_at ignore i"
      by (auto simp: ys_def raset_set_def filter_empty_conv)
    with res True show ?thesis by simp
  next
    case False
    then have m: "ys ! (r mod length ys) \<in> set ys" by (intro nth_mem) simp
    then have "\<not> (\<forall>i\<in>raset_set s. bit_at ignore i)" by (auto simp: ys_def raset_set_def)
    moreover have "\<exists>i\<in>raset_set s. \<not> bit_at ignore i \<and> int (ys ! (r mod length ys)) = int i"
      using m by (auto simp: ys_def raset_set_def)
    ultimately show ?thesis using res False by (simp only:) auto
  qed
qed

section \<open>The contract of index sets\<close>

locale index_set =
  fixes cap :: "'s \<Rightarrow> nat"
    and ok :: "'s \<Rightarrow> bool"
    and members :: "'s \<Rightarrow> nat set"
    and empty :: "nat \<Rightarrow> 's"
    and contains :: "'s \<Rightarrow> nat \<Rightarrow> bool"
    and add :: "'s \<Rightarrow> nat \<Rightarrow> 's"
    and remove :: "'s \<Rightarrow> nat \<Rightarrow> 's"
  assumes ok_empty: "ok (empty n)" "cap (empty n) = n" "members (empty n) = {}"
    and ok_add: "ok s \<Longrightarrow> i < cap s \<Longrightarrow> ok (add s i)"
      "ok s \<Longrightarrow> i < cap s \<Longrightarrow> members (add s i) = insert i (members s)"
      "ok s \<Longrightarrow> i < cap s \<Longrightarrow> cap (add s i) = cap s"
    and ok_remove: "ok s \<Longrightarrow> i < cap s \<Longrightarrow> ok (remove s i)"
      "ok s \<Longrightarrow> i < cap s \<Longrightarrow> members (remove s i) = members s - {i}"
      "ok s \<Longrightarrow> i < cap s \<Longrightarrow> cap (remove s i) = cap s"
    and contains_iff: "ok s \<Longrightarrow> i < cap s \<Longrightarrow> contains s i \<longleftrightarrow> i \<in> members s"
begin

text \<open>The loops of the solve functions that collect or discard the indices with a property.\<close>

lemma fold_add_if:
  "ok s \<Longrightarrow> \<forall>i\<in>set xs. i < cap s \<Longrightarrow>
   ok (fold (\<lambda>i s. if P i then add s i else s) xs s) \<and>
   cap (fold (\<lambda>i s. if P i then add s i else s) xs s) = cap s \<and>
   members (fold (\<lambda>i s. if P i then add s i else s) xs s) = members s \<union> {i \<in> set xs. P i}"
  by (induction xs arbitrary: s) (auto simp: ok_add)

lemma fold_remove_if:
  "ok s \<Longrightarrow> \<forall>i\<in>set xs. i < cap s \<Longrightarrow>
   ok (fold (\<lambda>i s. if P i then remove s i else s) xs s) \<and>
   cap (fold (\<lambda>i s. if P i then remove s i else s) xs s) = cap s \<and>
   members (fold (\<lambda>i s. if P i then remove s i else s) xs s) = members s - {i \<in> set xs. P i}"
  by (induction xs arbitrary: s) (auto simp: ok_remove)

lemma fold_add:
  "ok s \<Longrightarrow> \<forall>i\<in>set xs. i < cap s \<Longrightarrow>
   ok (fold (\<lambda>i s. add s i) xs s) \<and> cap (fold (\<lambda>i s. add s i) xs s) = cap s \<and>
   members (fold (\<lambda>i s. add s i) xs s) = members s \<union> set xs"
  using fold_add_if[of s xs "\<lambda>_. True"] by simp

text \<open>Removing what is contained and removing unconditionally agree.\<close>

lemma fold_remove_contained:
  "ok s \<Longrightarrow> \<forall>i\<in>set xs. i < cap s \<Longrightarrow>
   ok (fold (\<lambda>i s. if contains s i then remove s i else s) xs s) \<and>
   cap (fold (\<lambda>i s. if contains s i then remove s i else s) xs s) = cap s \<and>
   members (fold (\<lambda>i s. if contains s i then remove s i else s) xs s) = members s - set xs"
  by (induction xs arbitrary: s) (auto simp: ok_remove contains_iff)

end

interpretation rs: index_set max_number_of_elements raset_inv raset_set raset__init_empty
    raset__contains "\<lambda>s i. snd (raset__add s i)" "\<lambda>s i. snd (raset__remove s i)"
  by unfold_locales (auto simp: raset__contains_iff)

end
