(* ===== verification/Argumentation.thy ===== *)
theory Argumentation
  imports Prelude
begin

text \<open>
  The abstract specification: Dung's argumentation frameworks and the semantics named by the tracks
  of the solver (grounded, complete, preferred, stable, semi-stable, stage, ideal).  The lemmas are
  the facts of the theory of argumentation that the algorithms of the solver rest on: every
  admissible set lies in a preferred extension that contains the grounded extension, admissible
  sets that do not attack each other can be joined, the ideal extension is the largest admissible
  set that no admissible set attacks, and skeptical preferred acceptance can be decided from
  admissible sets alone.
\<close>

section \<open>Frameworks and semantics\<close>

record framework =
  args :: "nat set"
  attacks :: "(nat \<times> nat) set"

definition wf_framework :: "framework \<Rightarrow> bool" where
  "wf_framework F \<longleftrightarrow> finite (args F) \<and> attacks F \<subseteq> args F \<times> args F"

definition attacked :: "framework \<Rightarrow> nat set \<Rightarrow> nat set" where
  "attacked F E = attacks F `` E"

definition conflict_free :: "framework \<Rightarrow> nat set \<Rightarrow> bool" where
  "conflict_free F E \<longleftrightarrow> E \<subseteq> args F \<and> (\<forall>a\<in>E. \<forall>b\<in>E. (a, b) \<notin> attacks F)"

definition defends :: "framework \<Rightarrow> nat set \<Rightarrow> nat \<Rightarrow> bool" where
  "defends F E a \<longleftrightarrow> (\<forall>b. (b, a) \<in> attacks F \<longrightarrow> (\<exists>c\<in>E. (c, b) \<in> attacks F))"

definition admissible :: "framework \<Rightarrow> nat set \<Rightarrow> bool" where
  "admissible F E \<longleftrightarrow> conflict_free F E \<and> (\<forall>a\<in>E. defends F E a)"

definition complete_ext :: "framework \<Rightarrow> nat set \<Rightarrow> bool" where
  "complete_ext F E \<longleftrightarrow> admissible F E \<and> (\<forall>a\<in>args F. defends F E a \<longrightarrow> a \<in> E)"

inductive_set grounded_ext :: "framework \<Rightarrow> nat set" for F where
  groundedI: "a \<in> args F \<Longrightarrow> (\<And>b. (b, a) \<in> attacks F \<Longrightarrow> \<exists>c. c \<in> grounded_ext F \<and> (c, b) \<in> attacks F) \<Longrightarrow>
    a \<in> grounded_ext F"

definition preferred :: "framework \<Rightarrow> nat set \<Rightarrow> bool" where
  "preferred F E \<longleftrightarrow> admissible F E \<and> (\<forall>E'. admissible F E' \<and> E \<subseteq> E' \<longrightarrow> E' = E)"

definition stable :: "framework \<Rightarrow> nat set \<Rightarrow> bool" where
  "stable F E \<longleftrightarrow> conflict_free F E \<and> (\<forall>a\<in>args F - E. \<exists>b\<in>E. (b, a) \<in> attacks F)"

definition range_of :: "framework \<Rightarrow> nat set \<Rightarrow> nat set" where
  "range_of F E = E \<union> attacked F E"

definition semi_stable :: "framework \<Rightarrow> nat set \<Rightarrow> bool" where
  "semi_stable F E \<longleftrightarrow> complete_ext F E \<and>
     (\<forall>E'. complete_ext F E' \<and> range_of F E \<subseteq> range_of F E' \<longrightarrow> range_of F E' = range_of F E)"

definition stage :: "framework \<Rightarrow> nat set \<Rightarrow> bool" where
  "stage F E \<longleftrightarrow> conflict_free F E \<and>
     (\<forall>E'. conflict_free F E' \<and> range_of F E \<subseteq> range_of F E' \<longrightarrow> range_of F E' = range_of F E)"

definition ideal_set :: "framework \<Rightarrow> nat set \<Rightarrow> bool" where
  "ideal_set F E \<longleftrightarrow> admissible F E \<and> (\<forall>P. preferred F P \<longrightarrow> E \<subseteq> P)"

definition ideal_ext :: "framework \<Rightarrow> nat set \<Rightarrow> bool" where
  "ideal_ext F E \<longleftrightarrow> ideal_set F E \<and> (\<forall>E'. ideal_set F E' \<longrightarrow> E' \<subseteq> E)"

definition credulous :: "(nat set \<Rightarrow> bool) \<Rightarrow> nat \<Rightarrow> bool" where
  "credulous sem a \<longleftrightarrow> (\<exists>E. sem E \<and> a \<in> E)"

definition skeptical :: "(nat set \<Rightarrow> bool) \<Rightarrow> nat \<Rightarrow> bool" where
  "skeptical sem a \<longleftrightarrow> (\<forall>E. sem E \<longrightarrow> a \<in> E)"

section \<open>Admissible sets\<close>

named_theorems arg_defs "definitions of the semantics"

lemmas [arg_defs] = conflict_free_def defends_def admissible_def

lemma wf_attacks: "wf_framework F \<Longrightarrow> (a, b) \<in> attacks F \<Longrightarrow> a \<in> args F \<and> b \<in> args F"
  by (auto simp: wf_framework_def)

lemma admissible_subset: "admissible F E \<Longrightarrow> E \<subseteq> args F"
  by (simp add: arg_defs)

lemma admissible_cf: "admissible F E \<Longrightarrow> a \<in> E \<Longrightarrow> b \<in> E \<Longrightarrow> (a, b) \<notin> attacks F"
  by (simp add: arg_defs)

lemma admissible_defence:
  "admissible F E \<Longrightarrow> a \<in> E \<Longrightarrow> (b, a) \<in> attacks F \<Longrightarrow> \<exists>c\<in>E. (c, b) \<in> attacks F"
  by (simp add: arg_defs)

lemma admissible_finite: "wf_framework F \<Longrightarrow> admissible F E \<Longrightarrow> finite E"
  by (auto simp: wf_framework_def dest: admissible_subset intro: finite_subset)

lemma admissible_empty [simp]: "admissible F {}"
  by (simp add: arg_defs)

text \<open>Two admissible sets of which the first does not attack the second can be joined.\<close>

lemma admissible_union:
  assumes "admissible F E" "admissible F E'" and "\<And>a b. a \<in> E \<Longrightarrow> b \<in> E' \<Longrightarrow> (a, b) \<notin> attacks F"
  shows "admissible F (E \<union> E')"
proof -
  have "(b, a) \<notin> attacks F" if "a \<in> E" "b \<in> E'" for a b
    using admissible_defence[OF assms(1) that(1)] assms(3) that(2) by blast
  then show ?thesis
    using assms unfolding arg_defs by blast
qed

lemma preferred_above:
  assumes "wf_framework F" "admissible F E"
  shows "\<exists>P. preferred F P \<and> E \<subseteq> P"
proof -
  let ?S = "{E'. admissible F E' \<and> E \<subseteq> E'}"
  have "finite ?S"
    using assms(1) by (auto simp: wf_framework_def dest: admissible_subset
        intro!: finite_subset[of ?S "Pow (args F)"])
  moreover have "E \<in> ?S" using assms(2) by simp
  ultimately obtain P where "P \<in> ?S" "E \<subseteq> P" "\<forall>E'\<in>?S. P \<subseteq> E' \<longrightarrow> P = E'"
    using finite_has_maximal2[of ?S E] by auto
  then show ?thesis unfolding preferred_def by blast
qed

lemma preferred_exists: "wf_framework F \<Longrightarrow> \<exists>P. preferred F P"
  using preferred_above[OF _ admissible_empty] by blast

lemma preferred_admissible: "preferred F P \<Longrightarrow> admissible F P"
  by (simp add: preferred_def)

lemma admissible_insert_defended:
  assumes "admissible F E" "a \<in> args F" "defends F E a"
  shows "admissible F (insert a E)"
proof -
  have no_in: "(b, a) \<notin> attacks F" if "b \<in> E" for b
    using assms that admissible_cf[OF assms(1)] unfolding defends_def by blast
  have no_out: "(a, b) \<notin> attacks F" if "b \<in> E" for b
    using admissible_defence[OF assms(1) that] no_in by blast
  have "(a, a) \<notin> attacks F"
    using assms(3) no_in unfolding defends_def by blast
  with assms no_in no_out show ?thesis
    unfolding arg_defs by blast
qed

lemma preferred_complete: "preferred F P \<Longrightarrow> complete_ext F P"
  using admissible_insert_defended[of F P] unfolding complete_ext_def preferred_def by blast

section \<open>The grounded extension\<close>

lemma grounded_args: "a \<in> grounded_ext F \<Longrightarrow> a \<in> args F"
  by (erule grounded_ext.cases) simp

lemma grounded_defence:
  "a \<in> grounded_ext F \<Longrightarrow> (b, a) \<in> attacks F \<Longrightarrow> \<exists>c\<in>grounded_ext F. (c, b) \<in> attacks F"
  by (erule grounded_ext.cases) blast

lemma grounded_conflict_free: "a \<in> grounded_ext F \<Longrightarrow> (b, a) \<in> attacks F \<Longrightarrow> b \<notin> grounded_ext F"
proof (induction arbitrary: b rule: grounded_ext.induct)
  case (groundedI a)
  then obtain c where c: "c \<in> grounded_ext F" "(c, b) \<in> attacks F"
    and IH: "\<And>d. (d, c) \<in> attacks F \<Longrightarrow> d \<notin> grounded_ext F" by blast
  then show ?case using grounded_defence[of b F c] by blast
qed

lemma grounded_admissible: "admissible F (grounded_ext F)"
  unfolding arg_defs
  using grounded_args grounded_defence grounded_conflict_free by blast

lemma grounded_complete: "complete_ext F (grounded_ext F)"
proof -
  have "a \<in> grounded_ext F" if "a \<in> args F" "defends F (grounded_ext F) a" for a
    using that by (intro groundedI) (auto simp: defends_def)
  then show ?thesis by (simp add: complete_ext_def grounded_admissible)
qed

lemma grounded_least: "complete_ext F E \<Longrightarrow> grounded_ext F \<subseteq> E"
proof
  fix a assume E: "complete_ext F E" and "a \<in> grounded_ext F"
  from this(2) show "a \<in> E"
  proof (induction rule: grounded_ext.induct)
    case (groundedI a)
    then have "defends F E a" unfolding defends_def by blast
    with E groundedI(1) show ?case by (simp add: complete_ext_def)
  qed
qed

lemma grounded_preferred: "preferred F P \<Longrightarrow> grounded_ext F \<subseteq> P"
  by (simp add: grounded_least preferred_complete)

text \<open>Every admissible set can be joined with the grounded extension.\<close>

lemma admissible_with_grounded:
  assumes "wf_framework F" "admissible F E"
  shows "admissible F (E \<union> grounded_ext F)"
proof -
  obtain P where P: "preferred F P" "E \<subseteq> P" using preferred_above[OF assms] by blast
  have "\<And>a b. a \<in> E \<Longrightarrow> b \<in> grounded_ext F \<Longrightarrow> (a, b) \<notin> attacks F"
    using P admissible_cf[OF preferred_admissible[OF P(1)]] grounded_preferred[OF P(1)] by blast
  then show ?thesis using admissible_union assms(2) grounded_admissible by blast
qed

lemma grounded_out_not_credulous:
  assumes "wf_framework F" "admissible F E" "a \<in> attacked F (grounded_ext F)"
  shows "a \<notin> E"
  using admissible_with_grounded[OF assms(1,2)] assms(3)
  unfolding arg_defs attacked_def by blast

lemma preferred_eqI:
  assumes "wf_framework F" "admissible F E" "grounded_ext F \<subseteq> E"
    and "\<And>E'. admissible F E' \<Longrightarrow> grounded_ext F \<subseteq> E' \<Longrightarrow> E \<subseteq> E' \<Longrightarrow> E' = E"
  shows "preferred F E"
  using assms unfolding preferred_def by blast

section \<open>Stable, semi-stable and stage extensions\<close>

lemma stable_preferred:
  assumes wf: "wf_framework F" and "stable F E"
  shows "preferred F E"
proof -
  have cf: "conflict_free F E" and att: "\<And>a. a \<in> args F \<Longrightarrow> a \<notin> E \<Longrightarrow> \<exists>b\<in>E. (b, a) \<in> attacks F"
    using assms(2) by (auto simp: stable_def)
  have "admissible F E"
    using cf att wf_attacks[OF wf] unfolding arg_defs by meson
  moreover have "E' \<subseteq> E" if "admissible F E'" "E \<subseteq> E'" for E'
    using that att admissible_cf[OF that(1)] admissible_subset[OF that(1)] by blast
  ultimately show ?thesis unfolding preferred_def by blast
qed

lemma stable_grounded: "wf_framework F \<Longrightarrow> stable F E \<Longrightarrow> grounded_ext F \<subseteq> E"
  by (simp add: grounded_preferred stable_preferred)

lemma stable_antichain: "wf_framework F \<Longrightarrow> stable F E \<Longrightarrow> stable F E' \<Longrightarrow> E \<subseteq> E' \<Longrightarrow> E = E'"
  using stable_preferred unfolding preferred_def by blast

lemma range_of_mono: "E \<subseteq> E' \<Longrightarrow> range_of F E \<subseteq> range_of F E'"
  by (auto simp: range_of_def attacked_def)

lemma range_of_args: "wf_framework F \<Longrightarrow> E \<subseteq> args F \<Longrightarrow> range_of F E \<subseteq> args F"
  by (auto simp: range_of_def attacked_def dest: wf_attacks)

text \<open>Semi-stable extensions are the admissible sets of maximal range.\<close>

lemma admissible_below_complete:
  assumes "wf_framework F" "admissible F E"
  shows "\<exists>C. complete_ext F C \<and> E \<subseteq> C"
  using preferred_above[OF assms] preferred_complete by blast

lemma semi_stable_iff_admissible:
  assumes wf: "wf_framework F"
  shows "semi_stable F E \<longleftrightarrow> admissible F E \<and>
    (\<forall>E'. admissible F E' \<and> range_of F E \<subseteq> range_of F E' \<longrightarrow> range_of F E' = range_of F E)"
    (is "_ \<longleftrightarrow> ?R")
proof
  assume ss: "semi_stable F E"
  have "range_of F E' = range_of F E"
    if adm: "admissible F E'" and le: "range_of F E \<subseteq> range_of F E'" for E'
  proof -
    obtain C where C: "complete_ext F C" "E' \<subseteq> C"
      using admissible_below_complete[OF wf adm] by blast
    then show ?thesis
      using le ss range_of_mono[OF C(2), of F] unfolding semi_stable_def by blast
  qed
  with ss show ?R by (auto simp: semi_stable_def complete_ext_def)
next
  assume R: ?R
  have "a \<in> E" if "a \<in> args F" "defends F E a" for a
  proof (rule ccontr)
    assume "a \<notin> E"
    have adm: "admissible F (insert a E)"
      using R that by (simp add: admissible_insert_defended)
    then have "range_of F (insert a E) = range_of F E"
      using R range_of_mono[of E "insert a E" F] by blast
    then have "a \<in> attacked F E" using \<open>a \<notin> E\<close> by (auto simp: range_of_def)
    then show False using admissible_cf[OF adm] by (auto simp: attacked_def)
  qed
  with R show "semi_stable F E" by (auto simp: semi_stable_def complete_ext_def)
qed

lemma maximal_range_exists:
  assumes wf: "wf_framework F" and "sem E" and "\<And>E. sem E \<Longrightarrow> E \<subseteq> args F"
  shows "\<exists>E'. sem E' \<and> range_of F E \<subseteq> range_of F E' \<and>
    (\<forall>E''. sem E'' \<and> range_of F E' \<subseteq> range_of F E'' \<longrightarrow> range_of F E'' = range_of F E')"
proof -
  let ?S = "range_of F ` {E. sem E}"
  have "?S \<subseteq> Pow (args F)" using assms(3) range_of_args[OF wf] by blast
  then have "finite ?S" using wf by (simp add: wf_framework_def finite_subset)
  moreover have "range_of F E \<in> ?S" using assms(2) by blast
  ultimately obtain R where "R \<in> ?S" "range_of F E \<subseteq> R" "\<forall>R'\<in>?S. R \<subseteq> R' \<longrightarrow> R = R'"
    using finite_has_maximal2[of ?S "range_of F E"] by auto
  then obtain E' where "sem E'" "R = range_of F E'" by auto
  with \<open>range_of F E \<subseteq> R\<close> \<open>\<forall>R'\<in>?S. R \<subseteq> R' \<longrightarrow> R = R'\<close> show ?thesis
    by (intro exI[of _ E']) auto
qed

lemma semi_stable_exists:
  assumes "wf_framework F"
  shows "\<exists>E. semi_stable F E"
  using maximal_range_exists[OF assms, of "admissible F" "{}"] admissible_subset[of F]
    semi_stable_iff_admissible[OF assms] by auto

lemma semi_stable_grounded: "semi_stable F E \<Longrightarrow> grounded_ext F \<subseteq> E"
  by (simp add: semi_stable_def grounded_least)

section \<open>Skeptical preferred acceptance and the ideal extension\<close>

text \<open>
  The criterion behind the DS-PR procedure: an argument in some admissible set is in every preferred
  extension iff every admissible set that attacks an admissible set with the argument can itself be
  extended to an admissible set with the argument.
\<close>

lemma preferred_without_attacks:
  assumes "preferred F P" "admissible F S" "a \<in> S" "a \<notin> P"
  shows "\<exists>p\<in>P. \<exists>s\<in>S. (p, s) \<in> attacks F"
proof (rule ccontr)
  assume "\<not> ?thesis"
  then have "admissible F (P \<union> S)"
    using admissible_union[of F P S] assms(2) preferred_admissible[OF assms(1)] by blast
  then have "P \<union> S = P" using assms(1) unfolding preferred_def by blast
  with assms(3,4) show False by blast
qed

lemma skeptical_preferred_iff:
  assumes wf: "wf_framework F" and S: "admissible F S" "a \<in> S"
  shows "skeptical (preferred F) a \<longleftrightarrow>
    (\<forall>E T. admissible F E \<and> admissible F T \<and> a \<in> T \<and> (\<exists>e\<in>E. \<exists>t\<in>T. (e, t) \<in> attacks F) \<longrightarrow>
      (\<exists>U. admissible F U \<and> a \<in> U \<and> E \<subseteq> U))"
proof
  assume "skeptical (preferred F) a"
  then show "\<forall>E T. admissible F E \<and> admissible F T \<and> a \<in> T \<and> (\<exists>e\<in>E. \<exists>t\<in>T. (e, t) \<in> attacks F) \<longrightarrow>
      (\<exists>U. admissible F U \<and> a \<in> U \<and> E \<subseteq> U)"
    using preferred_above[OF wf] preferred_admissible unfolding skeptical_def by metis
next
  assume crit: "\<forall>E T. admissible F E \<and> admissible F T \<and> a \<in> T \<and> (\<exists>e\<in>E. \<exists>t\<in>T. (e, t) \<in> attacks F) \<longrightarrow>
      (\<exists>U. admissible F U \<and> a \<in> U \<and> E \<subseteq> U)"
  show "skeptical (preferred F) a"
    unfolding skeptical_def
  proof (intro allI impI)
    fix P assume P: "preferred F P"
    show "a \<in> P"
    proof (rule ccontr)
      assume "a \<notin> P"
      with crit preferred_without_attacks[OF P S] S preferred_admissible[OF P]
      obtain U where "admissible F U" "a \<in> U" "P \<subseteq> U" by blast
      with P \<open>a \<notin> P\<close> show False unfolding preferred_def by blast
    qed
  qed
qed

lemma skeptical_preferred_credulous:
  assumes "wf_framework F" "skeptical (preferred F) a"
  shows "\<exists>E. admissible F E \<and> a \<in> E"
  using assms preferred_exists preferred_admissible unfolding skeptical_def by blast

text \<open>The arguments that no admissible set attacks.\<close>

definition unattacked_core :: "framework \<Rightarrow> nat set" where
  "unattacked_core F = {a \<in> args F. \<forall>E. admissible F E \<longrightarrow> a \<notin> attacked F E}"

lemma ideal_set_iff:
  assumes wf: "wf_framework F"
  shows "ideal_set F E \<longleftrightarrow> admissible F E \<and> E \<subseteq> unattacked_core F"
proof
  assume I: "ideal_set F E"
  have "a \<notin> attacked F T" if a: "a \<in> E" and T: "admissible F T" for a T
  proof -
    obtain P where "preferred F P" "T \<subseteq> P" using preferred_above[OF wf T] by blast
    with I a show ?thesis
      using admissible_cf[OF preferred_admissible] unfolding ideal_set_def attacked_def by blast
  qed
  with I show "admissible F E \<and> E \<subseteq> unattacked_core F"
    by (auto simp: ideal_set_def unattacked_core_def dest: admissible_subset)
next
  assume E: "admissible F E \<and> E \<subseteq> unattacked_core F"
  have "E \<subseteq> P" if P: "preferred F P" for P
  proof -
    have "admissible F (P \<union> E)"
      using E preferred_admissible[OF P]
      by (intro admissible_union) (auto simp: unattacked_core_def attacked_def)
    with P show ?thesis unfolding preferred_def by blast
  qed
  with E show "ideal_set F E" unfolding ideal_set_def by blast
qed

lemma grounded_ideal: "ideal_set F (grounded_ext F)"
  by (simp add: ideal_set_def grounded_admissible grounded_preferred)

lemma ideal_set_union:
  assumes wf: "wf_framework F" and "ideal_set F E" "ideal_set F E'"
  shows "ideal_set F (E \<union> E')"
proof -
  have "admissible F (E \<union> E')"
    using assms ideal_set_iff[OF wf] by (intro admissible_union) (auto simp: unattacked_core_def attacked_def)
  with assms show ?thesis unfolding ideal_set_def by blast
qed

lemma ideal_ext_unique: "ideal_ext F E \<Longrightarrow> ideal_ext F E' \<Longrightarrow> E = E'"
  by (auto simp: ideal_ext_def)

text \<open>
  The core splits the arguments that can be in the ideal extension from the rest: what a core
  argument attacks is never ideal.
\<close>

lemma ideal_set_in_candidates:
  assumes wf: "wf_framework F" and "ideal_set F E" "a \<in> E" "p \<in> unattacked_core F"
  shows "(p, a) \<notin> attacks F"
  using assms ideal_set_iff[OF wf] admissible_defence[of F E a p]
  by (auto simp: unattacked_core_def attacked_def)

lemma ideal_ext_intro:
  assumes wf: "wf_framework F"
    and sub: "E \<subseteq> unattacked_core F"
    and free: "\<And>a p. a \<in> E \<Longrightarrow> p \<in> unattacked_core F \<Longrightarrow> (p, a) \<notin> attacks F"
    and defd: "\<And>a. a \<in> E \<Longrightarrow> defends F E a"
    and maxi: "\<And>I. ideal_set F I \<Longrightarrow> I \<subseteq> E"
  shows "ideal_ext F E"
proof -
  have "conflict_free F E"
    using sub free unfolding conflict_free_def unattacked_core_def by blast
  then have "admissible F E" using defd by (simp add: admissible_def)
  with sub maxi ideal_set_iff[OF wf] show ?thesis by (auto simp: ideal_ext_def)
qed

end
