(* ===== verification/Aaf.thy ===== *)
theory Aaf
  imports Raset Argumentation "HOL-Library.Multiset"
begin

text \<open>
  taas/taas_aaf.c.  \<open>AAF\<close> is the solver's representation of an argumentation framework: adjacency
  lists in both directions, attack counters and two bit sets.  \<open>wf_aaf\<close> states that the two
  directions describe the same multigraph and that sizes and indices fit; \<open>af_of\<close> is the abstract
  framework it represents.  \<open>taas__aaf_destroy\<close> only frees memory and has no counterpart here.
\<close>

record AAF =
  ids2arguments :: "string list"
  arguments2ids :: "string \<rightharpoonup> nat"
  number_of_arguments :: nat
  number_of_attacks :: nat
  children :: "nat list list"
  parents :: "nat list list"
  number_of_attackers :: "nat list"
  initial :: BitSet
  loops :: BitSet

text \<open>The search stops at the first matching node of the list of children.\<close>

fun find_child :: "nat list \<Rightarrow> nat \<Rightarrow> bool" where
  "find_child [] j = False"
| "find_child (c # cs) j = (if c = j then True else find_child cs j)"

definition taas__aaf_isAttack :: "AAF \<Rightarrow> nat \<Rightarrow> nat \<Rightarrow> bool" where
  "taas__aaf_isAttack aaf i j = find_child (children aaf ! i) j"

definition af_of :: "AAF \<Rightarrow> framework" where
  "af_of A = \<lparr>args = {..<number_of_arguments A},
     attacks = {(a, b). b < number_of_arguments A \<and> a \<in> set (parents A ! b)}\<rparr>"

definition wf_aaf :: "AAF \<Rightarrow> bool" where
  "wf_aaf A \<longleftrightarrow> (let n = number_of_arguments A in
     length (children A) = n \<and> length (parents A) = n \<and> length (ids2arguments A) = n \<and>
     (\<forall>i<n. set (children A ! i) \<subseteq> {..<n}) \<and> (\<forall>i<n. set (parents A ! i) \<subseteq> {..<n}) \<and>
     (\<forall>i<n. \<forall>j<n. count_list (children A ! i) j = count_list (parents A ! j) i) \<and>
     (\<forall>i<n. length (parents A ! i) \<le> n) \<and>
     number_of_attacks A = sum_list (map length (parents A)))"

text \<open>The facts about counters and bit sets that hold when a framework has just been read.\<close>

definition fresh_aaf :: "AAF \<Rightarrow> bool" where
  "fresh_aaf A \<longleftrightarrow> (let n = number_of_arguments A in
     number_of_attackers A = map length (parents A) \<and>
     wf_bitset (initial A) \<and> bit_length (initial A) = n \<and>
     (\<forall>i<n. bit_at (initial A) i \<longleftrightarrow> parents A ! i = []) \<and>
     wf_bitset (loops A) \<and> bit_length (loops A) = n \<and>
     (\<forall>i<n. bit_at (loops A) i \<longleftrightarrow> i \<in> set (parents A ! i)))"

lemma find_child_iff: "find_child cs j \<longleftrightarrow> j \<in> set cs"
  by (induction cs) auto

lemma args_af_of [simp]: "args (af_of A) = {..<number_of_arguments A}"
  by (simp add: af_of_def)

lemma attacks_af_of:
  "(a, b) \<in> attacks (af_of A) \<longleftrightarrow> b < number_of_arguments A \<and> a \<in> set (parents A ! b)"
  by (simp add: af_of_def)

lemma wf_aafD:
  assumes "wf_aaf A"
  shows "length (children A) = number_of_arguments A"
    and "length (parents A) = number_of_arguments A"
    and "length (ids2arguments A) = number_of_arguments A"
    and "i < number_of_arguments A \<Longrightarrow> set (children A ! i) \<subseteq> {..<number_of_arguments A}"
    and "i < number_of_arguments A \<Longrightarrow> set (parents A ! i) \<subseteq> {..<number_of_arguments A}"
    and "i < number_of_arguments A \<Longrightarrow> j < number_of_arguments A \<Longrightarrow>
      count_list (children A ! i) j = count_list (parents A ! j) i"
    and "i < number_of_arguments A \<Longrightarrow> length (parents A ! i) \<le> number_of_arguments A"
    and "number_of_attacks A = sum_list (map length (parents A))"
  using assms by (simp_all add: wf_aaf_def Let_def)

lemma parent_bound:
  "wf_aaf A \<Longrightarrow> i < number_of_arguments A \<Longrightarrow> p \<in> set (parents A ! i) \<Longrightarrow> p < number_of_arguments A"
  using wf_aafD(5) by blast

lemma child_bound:
  "wf_aaf A \<Longrightarrow> i < number_of_arguments A \<Longrightarrow> p \<in> set (children A ! i) \<Longrightarrow> p < number_of_arguments A"
  using wf_aafD(4) by blast

lemma child_iff_parent:
  assumes "wf_aaf A" "i < number_of_arguments A" "j < number_of_arguments A"
  shows "j \<in> set (children A ! i) \<longleftrightarrow> i \<in> set (parents A ! j)"
  using wf_aafD(6)[OF assms] by (metis count_list_0_iff)

lemma wf_af_of: "wf_aaf A \<Longrightarrow> wf_framework (af_of A)"
  by (auto simp: wf_framework_def attacks_af_of dest: parent_bound)

lemma children_attacks:
  "wf_aaf A \<Longrightarrow> i < number_of_arguments A \<Longrightarrow>
   j \<in> set (children A ! i) \<longleftrightarrow> (i, j) \<in> attacks (af_of A)"
  using child_bound[of A i j] child_iff_parent[of A i j] by (auto simp: attacks_af_of)

lemma isAttack_iff:
  "wf_aaf A \<Longrightarrow> i < number_of_arguments A \<Longrightarrow>
   taas__aaf_isAttack A i j \<longleftrightarrow> (i, j) \<in> attacks (af_of A)"
  by (simp add: taas__aaf_isAttack_def find_child_iff children_attacks)

end
