(* ===== verification/Ipasir.thy ===== *)
theory Ipasir
  imports Aaf
begin

text \<open>
  ipasir.h and sat/ipasir_solver.cpp.  The SAT solver itself is linked in from outside (the makefile
  selects it), so it is a parameter of the model: an \<open>oracle\<close> that answers a query from everything
  that was ever passed to the solver.  The state of a solver object is what the interface documents:
  the clauses added, the clause being added, the assumptions for the next query and whether a model
  may be read.  Reading a value outside the state SAT and solving with an unfinished clause violate
  the contract and are the error \<open>SolverState\<close>.  \<open>oracle_ok\<close> states the documented behaviour of the
  solver (\<open>ipasir_solve\<close> and \<open>ipasir_val\<close> in ipasir.h, totality of \<open>val\<close> in cadical.hpp).
\<close>

section \<open>The solver object\<close>

datatype call = Add int | Assume int | Solve

datatype sat_mode = INPUT | SAT "int \<Rightarrow> int" | UNSAT

record ipasir =
  clauses :: "int list list"
  pending :: "int list"
  assumed :: "int list"
  mode :: sat_mode
  history :: "call list"

type_synonym sat_oracle = "ipasir \<Rightarrow> int \<times> (int \<Rightarrow> int)"

definition ipasir_init :: ipasir where
  "ipasir_init = \<lparr>clauses = [], pending = [], assumed = [], mode = INPUT, history = []\<rparr>"

definition ipasir_add :: "ipasir \<Rightarrow> int \<Rightarrow> ipasir" where
  "ipasir_add s lit_or_zero =
     (if lit_or_zero = 0
      then s\<lparr>clauses := clauses s @ [pending s], pending := [], mode := INPUT,
             history := Add 0 # history s\<rparr>
      else s\<lparr>pending := pending s @ [lit_or_zero], mode := INPUT,
             history := Add lit_or_zero # history s\<rparr>)"

definition ipasir_assume :: "ipasir \<Rightarrow> int \<Rightarrow> ipasir" where
  "ipasir_assume s lit =
     s\<lparr>assumed := assumed s @ [lit], mode := INPUT, history := Assume lit # history s\<rparr>"

definition ipasir_solve :: "sat_oracle \<Rightarrow> ipasir \<Rightarrow> (int \<times> ipasir) result" where
  "ipasir_solve ips s =
     (if pending s \<noteq> [] then Inl SolverState
      else case ips s of (r, val) \<Rightarrow>
        Inr (r, s\<lparr>assumed := [], history := Solve # history s,
                  mode := (if r = 10 then SAT val else if r = 20 then UNSAT else INPUT)\<rparr>))"

definition ipasir_val :: "ipasir \<Rightarrow> int \<Rightarrow> int result" where
  "ipasir_val s lit = (case mode s of SAT val \<Rightarrow> Inr (val lit) | _ \<Rightarrow> Inl SolverState)"

section \<open>The bridge functions\<close>

text \<open>The announced number of variables is ignored by the source.\<close>

definition sat__init :: "nat \<Rightarrow> ipasir" where
  "sat__init num_vars = ipasir_init"

definition sat__add :: "ipasir \<Rightarrow> int \<Rightarrow> ipasir" where
  "sat__add s var = ipasir_add s var"

definition sat__assume :: "ipasir \<Rightarrow> int \<Rightarrow> ipasir" where
  "sat__assume s lit = ipasir_assume s lit"

definition sat__addClause1 :: "ipasir \<Rightarrow> int \<Rightarrow> ipasir" where
  "sat__addClause1 s var = ipasir_add (ipasir_add s var) 0"

definition sat__addClause2 :: "ipasir \<Rightarrow> int \<Rightarrow> int \<Rightarrow> ipasir" where
  "sat__addClause2 s var1 var2 = ipasir_add (ipasir_add (ipasir_add s var1) var2) 0"

definition sat__addClause3 :: "ipasir \<Rightarrow> int \<Rightarrow> int \<Rightarrow> int \<Rightarrow> ipasir" where
  "sat__addClause3 s var1 var2 var3 =
     ipasir_add (ipasir_add (ipasir_add (ipasir_add s var1) var2) var3) 0"

text \<open>The first \<open>num\<close> entries of the array, then the terminating zero.\<close>

definition sat__addClause :: "ipasir \<Rightarrow> int list \<Rightarrow> nat \<Rightarrow> ipasir" where
  "sat__addClause s clause num =
     ipasir_add (fold (\<lambda>i s. ipasir_add s (clause ! i)) [0..<num] s) 0"

definition sat__addClauseZTVec :: "ipasir \<Rightarrow> int list \<Rightarrow> ipasir" where
  "sat__addClauseZTVec s clause =
     fold (\<lambda>i s. ipasir_add s (clause ! i)) [0..<length clause] s"

text \<open>Adds up to and including the first zero; without one the array is overrun.\<close>

fun sat__addClauseZT :: "ipasir \<Rightarrow> int list \<Rightarrow> ipasir result" where
  "sat__addClauseZT s [] = Inl OutOfBounds"
| "sat__addClauseZT s (c # cs) =
     (if c \<noteq> 0 then sat__addClauseZT (ipasir_add s c) cs else Inr (ipasir_add s c))"

definition sat__solve :: "sat_oracle \<Rightarrow> ipasir \<Rightarrow> (int \<times> ipasir) result" where
  "sat__solve ips s = ipasir_solve ips s"

definition sat__get :: "ipasir \<Rightarrow> int \<Rightarrow> int result" where
  "sat__get s var = ipasir_val s var"

definition printClause :: "int list \<Rightarrow> nat \<Rightarrow> int list \<Rightarrow> AAF \<Rightarrow> string" where
  "printClause clause num in_vars aaf =
     ''<'' @ snd (fold (\<lambda>i (isFirst, out).
        (False, fold (\<lambda>j out.
            if in_vars ! j = clause ! i then out @ ids2arguments aaf ! j
            else if in_vars ! j = - (clause ! i) then out @ ''-'' @ ids2arguments aaf ! j
            else out) [0..<number_of_arguments aaf] (out @ (if isFirst then [] else '',''))))
       [0..<num] (True, [])) @ ''>'' @ [CHR 0x0A]"

definition printModel :: "ipasir \<Rightarrow> int list \<Rightarrow> AAF \<Rightarrow> string result" where
  "printModel s in_vars aaf =
     rbind (rfold (\<lambda>i (isFirst, out). rbind (sat__get s (in_vars ! i)) (\<lambda>x.
         if x = 0 then Inr (isFirst, out)
         else Inr (False, out @ (if isFirst then [] else '','') @ ids2arguments aaf ! i)))
       [0..<number_of_arguments aaf] (True, ''{''))
     (\<lambda>(_, out). Inr (out @ ''}'' @ [CHR 0x0A]))"

section \<open>Truth of literals and clauses\<close>

definition lit_true :: "(nat \<Rightarrow> bool) \<Rightarrow> int \<Rightarrow> bool" where
  "lit_true v l = (if 0 < l then v (nat l) else \<not> v (nat (- l)))"

definition holds :: "(nat \<Rightarrow> bool) \<Rightarrow> ipasir \<Rightarrow> bool" where
  "holds v s \<longleftrightarrow> (\<forall>c\<in>set (clauses s). \<exists>l\<in>set c. lit_true v l)"

definition assuming :: "(nat \<Rightarrow> bool) \<Rightarrow> ipasir \<Rightarrow> bool" where
  "assuming v s \<longleftrightarrow> (\<forall>l\<in>set (assumed s). lit_true v l)"

definition val_of :: "(nat \<Rightarrow> bool) \<Rightarrow> int \<Rightarrow> int" where
  "val_of v l = (if lit_true v l then l else - l)"

definition oracle_ok :: "sat_oracle \<Rightarrow> bool" where
  "oracle_ok ips \<longleftrightarrow> (\<forall>s. pending s = [] \<longrightarrow>
     (fst (ips s) = 10 \<and> (\<exists>v. holds v s \<and> assuming v s \<and> (\<forall>l. l \<noteq> 0 \<longrightarrow> snd (ips s) l = val_of v l))) \<or>
     (fst (ips s) = 20 \<and> (\<forall>v. holds v s \<longrightarrow> \<not> assuming v s)))"

definition model_is :: "ipasir \<Rightarrow> (nat \<Rightarrow> bool) \<Rightarrow> bool" where
  "model_is s v \<longleftrightarrow> (\<exists>val. mode s = SAT val \<and> (\<forall>l. l \<noteq> 0 \<longrightarrow> val l = val_of v l))"

definition ready :: "ipasir \<Rightarrow> bool" where
  "ready s \<longleftrightarrow> pending s = []"

lemma lit_true_neg [simp]: "l \<noteq> 0 \<Longrightarrow> lit_true v (- l) \<longleftrightarrow> \<not> lit_true v l"
  by (auto simp: lit_true_def)

lemma val_of_pos [simp]: "0 < l \<Longrightarrow> 0 < val_of v l \<longleftrightarrow> lit_true v l"
  "0 < l \<Longrightarrow> val_of v l < 0 \<longleftrightarrow> \<not> lit_true v l"
  by (auto simp: val_of_def)

lemma sat__get_model: "model_is s v \<Longrightarrow> l \<noteq> 0 \<Longrightarrow> sat__get s l = Inr (val_of v l)"
  by (auto simp: model_is_def sat__get_def ipasir_val_def)

lemma sat__get_error: "(\<And>val. mode s \<noteq> SAT val) \<Longrightarrow> sat__get s l = Inl SolverState"
  by (cases "mode s") (auto simp: sat__get_def ipasir_val_def)

section \<open>Effect of the bridge functions\<close>

lemma ready_init [simp]: "ready (sat__init n)" "assumed (sat__init n) = []" "holds v (sat__init n)"
  by (simp_all add: sat__init_def ipasir_init_def ready_def holds_def)

lemma sat__add_lit [simp]:
  "l \<noteq> 0 \<Longrightarrow> pending (sat__add s l) = pending s @ [l]"
  "l \<noteq> 0 \<Longrightarrow> holds v (sat__add s l) \<longleftrightarrow> holds v s"
  "assumed (sat__add s l) = assumed s"
  by (simp_all add: sat__add_def ipasir_add_def holds_def)

lemma sat__add_zero [simp]:
  "ready (sat__add s 0)"
  "holds v (sat__add s 0) \<longleftrightarrow> holds v s \<and> (\<exists>l\<in>set (pending s). lit_true v l)"
  by (auto simp: sat__add_def ipasir_add_def holds_def ready_def)

lemma sat__addClause1_effect [simp]:
  "ready s \<Longrightarrow> ready (sat__addClause1 s a)"
  "assumed (sat__addClause1 s a) = assumed s"
  "ready s \<Longrightarrow> a \<noteq> 0 \<Longrightarrow> holds v (sat__addClause1 s a) \<longleftrightarrow> holds v s \<and> lit_true v a"
  by (auto simp: sat__addClause1_def ipasir_add_def holds_def ready_def)

lemma sat__addClause2_effect [simp]:
  "ready s \<Longrightarrow> ready (sat__addClause2 s a b)"
  "assumed (sat__addClause2 s a b) = assumed s"
  "ready s \<Longrightarrow> a \<noteq> 0 \<Longrightarrow> b \<noteq> 0 \<Longrightarrow>
     holds v (sat__addClause2 s a b) \<longleftrightarrow> holds v s \<and> (lit_true v a \<or> lit_true v b)"
  by (auto simp: sat__addClause2_def ipasir_add_def holds_def ready_def)

lemma sat__addClause3_effect [simp]:
  "ready s \<Longrightarrow> ready (sat__addClause3 s a b c)"
  "assumed (sat__addClause3 s a b c) = assumed s"
  "ready s \<Longrightarrow> a \<noteq> 0 \<Longrightarrow> b \<noteq> 0 \<Longrightarrow> c \<noteq> 0 \<Longrightarrow>
     holds v (sat__addClause3 s a b c) \<longleftrightarrow>
     holds v s \<and> (lit_true v a \<or> lit_true v b \<or> lit_true v c)"
  by (auto simp: sat__addClause3_def ipasir_add_def holds_def ready_def)

text \<open>Literals added one at a time collect in the pending clause.\<close>

lemma fold_sat__add:
  "\<forall>x\<in>set xs. P x \<longrightarrow> f x \<noteq> 0 \<Longrightarrow>
   pending (fold (\<lambda>x s. if P x then sat__add s (f x) else s) xs s) = pending s @ map f (filter P xs) \<and>
   assumed (fold (\<lambda>x s. if P x then sat__add s (f x) else s) xs s) = assumed s \<and>
   (\<forall>v. holds v (fold (\<lambda>x s. if P x then sat__add s (f x) else s) xs s) \<longleftrightarrow> holds v s)"
  by (induction xs arbitrary: s) auto

lemma fold_sat__add_all:
  "\<forall>x\<in>set xs. f x \<noteq> 0 \<Longrightarrow>
   pending (fold (\<lambda>x s. sat__add s (f x)) xs s) = pending s @ map f xs \<and>
   assumed (fold (\<lambda>x s. sat__add s (f x)) xs s) = assumed s \<and>
   (\<forall>v. holds v (fold (\<lambda>x s. sat__add s (f x)) xs s) \<longleftrightarrow> holds v s)"
  using fold_sat__add[of xs "\<lambda>_. True" f s] by simp

lemma sat__addClause_fold:
  "num = length clause \<Longrightarrow> sat__addClause s clause num = sat__add (fold (\<lambda>l s. sat__add s l) clause s) 0"
proof -
  assume n: "num = length clause"
  have "fold (\<lambda>i s. ipasir_add s (clause ! i)) [0..<num] s =
      fold (\<lambda>l s. ipasir_add s l) (map (\<lambda>i. clause ! i) [0..<num]) s"
    by (simp add: fold_map comp_def)
  then show ?thesis by (simp add: sat__addClause_def sat__add_def n map_nth)
qed

lemma sat__addClause_effect [simp]:
  assumes "num = length clause"
  shows "ready (sat__addClause s clause num)"
    and "\<forall>l\<in>set clause. l \<noteq> 0 \<Longrightarrow> assumed (sat__addClause s clause num) = assumed s"
    and "ready s \<Longrightarrow> \<forall>l\<in>set clause. l \<noteq> 0 \<Longrightarrow>
      holds v (sat__addClause s clause num) \<longleftrightarrow> holds v s \<and> (\<exists>l\<in>set clause. lit_true v l)"
  using fold_sat__add_all[of clause "\<lambda>l. l" s]
  by (auto simp: sat__addClause_fold[OF assms] ready_def[of s])

lemma sat__addClauseZT_pending:
  "\<forall>l\<in>set c. l \<noteq> 0 \<Longrightarrow> rok (sat__addClauseZT s (c @ [0])) (\<lambda>s'. ready s' \<and> assumed s' = assumed s \<and>
     (\<forall>v. holds v s' \<longleftrightarrow> holds v s \<and> (\<exists>l\<in>set (pending s @ c). lit_true v l)))"
proof (induction c arbitrary: s)
  case Nil
  then show ?case by (auto simp: sat__add_def[symmetric])
next
  case (Cons l c)
  then show ?case
    using Cons.IH[of "ipasir_add s l"] sat__add_lit[where l = l and s = s]
    by (auto simp: sat__add_def[symmetric] elim!: rok_weaken)
qed

lemma sat__addClauseZT_effect:
  assumes "ready s" "\<forall>l\<in>set c. l \<noteq> 0"
  shows "rok (sat__addClauseZT s (c @ [0])) (\<lambda>s'. ready s' \<and> assumed s' = assumed s \<and>
     (\<forall>v. holds v s' \<longleftrightarrow> holds v s \<and> (\<exists>l\<in>set c. lit_true v l)))"
  using sat__addClauseZT_pending[OF assms(2), of s] assms(1) by (simp add: ready_def)

lemma sat__assume_effect [simp]:
  "ready (sat__assume s l) \<longleftrightarrow> ready s"
  "assumed (sat__assume s l) = assumed s @ [l]"
  "holds v (sat__assume s l) \<longleftrightarrow> holds v s"
  by (auto simp: sat__assume_def ipasir_assume_def holds_def ready_def)

lemma fold_sat__assume:
  "assumed (fold (\<lambda>x s. if P x then sat__assume s (f x) else s) xs s) = assumed s @ map f (filter P xs) \<and>
   (ready (fold (\<lambda>x s. if P x then sat__assume s (f x) else s) xs s) \<longleftrightarrow> ready s) \<and>
   (\<forall>v. holds v (fold (\<lambda>x s. if P x then sat__assume s (f x) else s) xs s) \<longleftrightarrow> holds v s)"
  by (induction xs arbitrary: s) auto

text \<open>Solving: either a model of clauses and assumptions can be read, or there is none.\<close>

lemma rok_solve:
  assumes ips: "oracle_ok ips" and s: "ready s"
    and sat: "\<And>s' v. holds v s \<Longrightarrow> assuming v s \<Longrightarrow> ready s' \<Longrightarrow> assumed s' = [] \<Longrightarrow>
      clauses s' = clauses s \<Longrightarrow> model_is s' v \<Longrightarrow> Q (10, s')"
    and unsat: "\<And>s'. (\<And>v. holds v s \<Longrightarrow> \<not> assuming v s) \<Longrightarrow> ready s' \<Longrightarrow> assumed s' = [] \<Longrightarrow>
      clauses s' = clauses s \<Longrightarrow> Q (20, s')"
  shows "rok (sat__solve ips s) Q"
proof -
  obtain r val where a: "ips s = (r, val)" by (cases "ips s")
  let ?s = "s\<lparr>assumed := [], history := Solve # history s,
    mode := (if r = 10 then SAT val else if r = 20 then UNSAT else INPUT)\<rparr>"
  have res: "sat__solve ips s = Inr (r, ?s)"
    using s a by (simp add: sat__solve_def ipasir_solve_def ready_def)
  have frame: "ready ?s" "assumed ?s = []" "clauses ?s = clauses s"
    using s by (simp_all add: ready_def)
  have cases: "(r = 10 \<and> (\<exists>v. holds v s \<and> assuming v s \<and> (\<forall>l. l \<noteq> 0 \<longrightarrow> val l = val_of v l))) \<or>
     (r = 20 \<and> (\<forall>v. holds v s \<longrightarrow> \<not> assuming v s))"
    using ips s a unfolding oracle_ok_def ready_def by (metis fst_conv snd_conv)
  then show ?thesis
  proof (elim disjE conjE exE)
    fix v assume "r = 10" "holds v s" "assuming v s" "\<forall>l. l \<noteq> 0 \<longrightarrow> val l = val_of v l"
    then show ?thesis
      unfolding res rok_simps using sat[of v ?s] frame by (simp add: model_is_def)
  next
    assume "r = 20" "\<forall>v. holds v s \<longrightarrow> \<not> assuming v s"
    then show ?thesis
      unfolding res rok_simps using unsat[of ?s] frame by simp
  qed
qed

lemma holds_clauses: "clauses s' = clauses s \<Longrightarrow> holds v s' \<longleftrightarrow> holds v s"
  by (simp add: holds_def)

text \<open>A valuation can be chosen freely on distinct positive variables.\<close>

lemma valuation_exists:
  assumes "distinct vs" "\<forall>x\<in>set vs. (0 :: int) < x"
  shows "\<exists>v. \<forall>i<length vs. lit_true v (vs ! i) \<longleftrightarrow> P i"
proof (intro exI allI impI)
  fix i assume i: "i < length vs"
  then have "0 < vs ! i" using assms(2) by simp
  with i assms(1) show "lit_true (\<lambda>k. \<exists>j<length vs. vs ! j = int k \<and> P j) (vs ! i) \<longleftrightarrow> P i"
    by (auto simp: lit_true_def nth_eq_iff_index_eq)
qed

section \<open>A reference oracle\<close>

text \<open>
  Exhaustive search satisfies the contract, so the contract is satisfiable; the witnesses of the
  development use it.  The candidates in \<open>hints\<close> are tried first, which stands for the freedom an
  implementation has to choose among the models.
\<close>

definition vars_of :: "ipasir \<Rightarrow> nat list" where
  "vars_of s = remdups (map (\<lambda>l. nat \<bar>l\<bar>) (concat (clauses s) @ assumed s))"

definition search_oracle :: "nat list list \<Rightarrow> sat_oracle" where
  "search_oracle hints s =
     (case find (\<lambda>vs. holds (\<lambda>k. k \<in> set vs) s \<and> assuming (\<lambda>k. k \<in> set vs) s)
             (hints @ subseqs (vars_of s)) of
        Some vs \<Rightarrow> (10, val_of (\<lambda>k. k \<in> set vs))
      | None \<Rightarrow> (20, \<lambda>_. 0))"

definition brute_force :: sat_oracle where
  "brute_force = search_oracle []"

lemma lit_true_cong: "v (nat \<bar>l\<bar>) \<longleftrightarrow> w (nat \<bar>l\<bar>) \<Longrightarrow> lit_true v l \<longleftrightarrow> lit_true w l"
  by (auto simp: lit_true_def)

lemma search_oracle_ok: "oracle_ok (search_oracle hints)"
  unfolding oracle_ok_def
proof (intro allI impI)
  fix s :: ipasir
  let ?P = "\<lambda>vs. holds (\<lambda>k. k \<in> set vs) s \<and> assuming (\<lambda>k. k \<in> set vs) s"
  show "(fst (search_oracle hints s) = 10 \<and> (\<exists>v. holds v s \<and> assuming v s \<and>
      (\<forall>l. l \<noteq> 0 \<longrightarrow> snd (search_oracle hints s) l = val_of v l))) \<or>
    (fst (search_oracle hints s) = 20 \<and> (\<forall>v. holds v s \<longrightarrow> \<not> assuming v s))"
  proof (cases "find ?P (hints @ subseqs (vars_of s))")
    case (Some vs)
    then have "?P vs" by (metis (no_types, lifting) find_Some_iff)
    with Some show ?thesis by (auto simp: search_oracle_def)
  next
    case None
    have "\<not> assuming v s" if "holds v s" for v
    proof
      assume "assuming v s"
      have "{k \<in> set (vars_of s). v k} \<in> set ` set (subseqs (vars_of s))"
        by (simp add: subseqs_powset)
      then obtain vs where vs: "vs \<in> set (subseqs (vars_of s))" "set vs = {k \<in> set (vars_of s). v k}"
        by auto
      have mem: "nat \<bar>l\<bar> \<in> set (vars_of s)" if "l \<in> set (assumed s) \<or> (\<exists>c\<in>set (clauses s). l \<in> set c)" for l
        using that by (auto simp: vars_of_def)
      have agree: "lit_true (\<lambda>k. k \<in> set vs) l \<longleftrightarrow> lit_true v l"
        if "l \<in> set (assumed s) \<or> (\<exists>c\<in>set (clauses s). l \<in> set c)" for l
        using mem[OF that] by (intro lit_true_cong) (simp add: vs(2))
      have "?P vs"
        using \<open>holds v s\<close> \<open>assuming v s\<close> agree unfolding holds_def assuming_def by blast
      with vs(1) show False using None by (auto simp: find_None_iff)
    qed
    with None show ?thesis by (auto simp: search_oracle_def)
  qed
qed

lemma brute_force_ok: "oracle_ok brute_force"
  unfolding brute_force_def by (rule search_oracle_ok)

end
