(* ===== verification/Labeling.thy ===== *)
theory Labeling
  imports Aaf
begin

text \<open>
  taas/taas_labeling.c.  A labeling is a pair of bit sets, one for the arguments that are in and one
  for those that are out.  The printing functions write into a buffer that starts with 100 bytes and
  grows by 100 bytes when the next name may not fit; the model keeps the capacity, and a write past
  it is the error \<open>BufferOverflow\<close>.
\<close>

definition LAB_IN :: int where "LAB_IN = 1"

definition LAB_OUT :: int where "LAB_OUT = 2"

definition LAB_UNDEC :: int where "LAB_UNDEC = 4"

definition LAB_UNLABELED :: int where "LAB_UNLABELED = -1"

lemmas LAB_defs = LAB_IN_def LAB_OUT_def LAB_UNDEC_def LAB_UNLABELED_def

record Labeling =
  lab_in :: BitSet
  lab_out :: BitSet
  twoValued :: bool

text \<open>
  \<open>taas__lab_init\<close> only allocates the two headers; the bit sets are filled in by the caller.
\<close>

definition taas__lab_init :: "bool \<Rightarrow> Labeling" where
  "taas__lab_init two =
     (let hdr = \<lparr>data = [], bit_length = 0, num_elements = 0\<rparr>
      in \<lparr>lab_in = hdr, lab_out = hdr, twoValued = two\<rparr>)"

definition taas__lab_randomize :: "(nat \<Rightarrow> uint) \<Rightarrow> (nat \<Rightarrow> uint) \<Rightarrow> Labeling \<Rightarrow> Labeling" where
  "taas__lab_randomize rnd1 rnd2 lab =
     (let inn = bitset__randomize rnd1 (lab_in lab)
      in if twoValued lab then lab\<lparr>lab_in := inn\<rparr>
         else let out = bitset__randomize rnd2 (lab_out lab);
                  d = fold (\<lambda>i d. d[i := d ! i AND NOT (data inn ! i)])
                        [0..<num_elements inn] (data out)
              in lab\<lparr>lab_in := inn, lab_out := out\<lparr>data := d\<rparr>\<rparr>)"

definition taas__lab_get_label :: "Labeling \<Rightarrow> nat \<Rightarrow> int" where
  "taas__lab_get_label lab arg =
     (if twoValued lab then (if bit_at (lab_in lab) arg then LAB_IN else LAB_OUT)
      else if bit_at (lab_in lab) arg \<and> \<not> bit_at (lab_out lab) arg then LAB_IN
      else if \<not> bit_at (lab_in lab) arg \<and> bit_at (lab_out lab) arg then LAB_OUT
      else if \<not> bit_at (lab_in lab) arg \<and> \<not> bit_at (lab_out lab) arg then LAB_UNDEC
      else LAB_UNLABELED)"

definition taas__lab_set_label :: "Labeling \<Rightarrow> nat \<Rightarrow> int \<Rightarrow> Labeling" where
  "taas__lab_set_label lab arg label =
     (if label = LAB_IN then
        lab\<lparr>lab_in := bitset__set (lab_in lab) arg, lab_out := bitset__unset (lab_out lab) arg\<rparr>
      else if label = LAB_OUT then
        lab\<lparr>lab_in := bitset__unset (lab_in lab) arg, lab_out := bitset__set (lab_out lab) arg\<rparr>
      else if label = LAB_UNDEC then
        lab\<lparr>lab_in := bitset__unset (lab_in lab) arg, lab_out := bitset__unset (lab_out lab) arg\<rparr>
      else
        lab\<lparr>lab_in := bitset__set (lab_in lab) arg, lab_out := bitset__set (lab_out lab) arg\<rparr>)"

section \<open>Printing\<close>

text \<open>
  \<open>put_char\<close> is \<open>str[sidx++] = c\<close> and \<open>put_string\<close> is \<open>strcpy(&str[sidx],s)\<close> with the index moved
  to the terminator; \<open>buf\<close> holds the first \<open>sidx\<close> characters, \<open>len\<close> is the allocated size.
\<close>

definition put_char :: "nat \<Rightarrow> char \<Rightarrow> string \<Rightarrow> string result" where
  "put_char len c buf = (if length buf + 1 \<le> len then Inr (buf @ [c]) else Inl BufferOverflow)"

definition put_string :: "nat \<Rightarrow> string \<Rightarrow> string \<Rightarrow> string result" where
  "put_string len s buf =
     (if length buf + length s + 1 \<le> len then Inr (buf @ s) else Inl BufferOverflow)"

text \<open>\<open>str[sidx] = '\0'\<close> ends the string.\<close>

definition put_end :: "nat \<Rightarrow> string \<Rightarrow> string result" where
  "put_end len buf = (if length buf + 1 \<le> len then Inr buf else Inl BufferOverflow)"

definition grow :: "nat \<Rightarrow> string \<Rightarrow> nat \<Rightarrow> nat \<Rightarrow> nat" where
  "grow slack s sidx len = (if len < sidx + length s + slack then len + 100 else len)"

text \<open>One iteration of the printing loops: the state is the first-flag, the capacity and the buffer.\<close>

definition print_arg :: "char \<Rightarrow> Labeling \<Rightarrow> AAF \<Rightarrow> nat \<Rightarrow> bool \<times> nat \<times> string \<Rightarrow>
    (bool \<times> nat \<times> string) result" where
  "print_arg sep lab aaf idx st =
     (case st of (isFirst, len, buf) \<Rightarrow>
        if \<not> twoValued lab \<and> bit_at (lab_out lab) idx then Inr (isFirst, len, buf)
        else
          let name = ids2arguments aaf ! idx; len = grow 4 name (length buf) len
          in if isFirst
             then rbind (put_string len name buf) (\<lambda>buf. Inr (False, len, buf))
             else rbind (put_char len sep buf) (\<lambda>buf.
                  rbind (put_string len name buf) (\<lambda>buf. Inr (isFirst, len, buf))))"

definition taas__lab_print :: "Labeling \<Rightarrow> AAF \<Rightarrow> string result" where
  "taas__lab_print lab aaf =
     rbind (rfold (print_arg (CHR '','') lab aaf) (bitset_members (lab_in lab)) (True, 100, ''[''))
       (\<lambda>(_, len, buf). rbind (put_char len (CHR '']'') buf) (put_end len))"

definition taas__lab_print_i23 :: "Labeling \<Rightarrow> AAF \<Rightarrow> string result" where
  "taas__lab_print_i23 lab aaf =
     rbind (rfold (print_arg (CHR '' '') lab aaf) (bitset_members (lab_in lab)) (True, 100, ''w ''))
       (\<lambda>(_, len, buf). put_end len buf)"

definition label_char :: "Labeling \<Rightarrow> nat \<Rightarrow> char" where
  "label_char lab idx =
     (if taas__lab_get_label lab idx = LAB_IN then CHR ''I''
      else if taas__lab_get_label lab idx = LAB_OUT then CHR ''O''
      else if taas__lab_get_label lab idx = LAB_UNDEC then CHR ''U''
      else CHR ''X'')"

definition print_arg_label :: "Labeling \<Rightarrow> AAF \<Rightarrow> nat \<Rightarrow> bool \<times> nat \<times> string \<Rightarrow>
    (bool \<times> nat \<times> string) result" where
  "print_arg_label lab aaf idx st =
     (case st of (isFirst, len, buf) \<Rightarrow>
        let name = ids2arguments aaf ! idx; len = grow 6 name (length buf) len
        in rbind (if isFirst then Inr buf else put_char len (CHR '','') buf) (\<lambda>buf.
           rbind (put_string len name buf) (\<lambda>buf.
           rbind (put_char len (CHR ''='') buf) (\<lambda>buf.
           rbind (put_char len (label_char lab idx) buf) (\<lambda>buf. Inr (False, len, buf))))))"

definition taas__lab_print_as_labeling :: "Labeling \<Rightarrow> AAF \<Rightarrow> string result" where
  "taas__lab_print_as_labeling lab aaf =
     rbind (rfold (print_arg_label lab aaf) [0..<number_of_arguments aaf] (True, 100, ''[''))
       (\<lambda>(_, len, buf). rbind (put_char len (CHR '']'') buf) (put_end len))"

section \<open>Labels\<close>

definition wf_labeling :: "nat \<Rightarrow> Labeling \<Rightarrow> bool" where
  "wf_labeling n lab \<longleftrightarrow> wf_bitset (lab_in lab) \<and> bit_length (lab_in lab) = n \<and>
     wf_bitset (lab_out lab) \<and> bit_length (lab_out lab) = n"

lemma get_set_label:
  assumes "wf_labeling n lab" "\<not> twoValued lab" "i < n" "l \<in> {LAB_IN, LAB_OUT, LAB_UNDEC, LAB_UNLABELED}"
  shows "taas__lab_get_label (taas__lab_set_label lab i l) i = l"
    and "j \<noteq> i \<Longrightarrow> taas__lab_get_label (taas__lab_set_label lab i l) j = taas__lab_get_label lab j"
    and "wf_labeling n (taas__lab_set_label lab i l)"
  using assms
  by (auto simp: taas__lab_get_label_def taas__lab_set_label_def wf_labeling_def LAB_defs)

lemma label_cases:
  "taas__lab_get_label lab i \<in> {LAB_IN, LAB_OUT, LAB_UNDEC, LAB_UNLABELED}"
  by (simp add: taas__lab_get_label_def)

lemma label_unset_only_three:
  "\<not> twoValued lab \<Longrightarrow> \<not> (bit_at (lab_in lab) i \<and> bit_at (lab_out lab) i) \<Longrightarrow>
   taas__lab_get_label lab i \<in> {LAB_IN, LAB_OUT, LAB_UNDEC}"
  by (auto simp: taas__lab_get_label_def LAB_defs)

section \<open>What the printing functions produce\<close>

definition printed :: "Labeling \<Rightarrow> nat list" where
  "printed lab = filter (\<lambda>i. twoValued lab \<or> \<not> bit_at (lab_out lab) i) (bitset_members (lab_in lab))"

definition names_fit :: "nat \<Rightarrow> AAF \<Rightarrow> nat set \<Rightarrow> bool" where
  "names_fit m aaf I \<longleftrightarrow> (\<forall>i\<in>I. length (ids2arguments aaf ! i) \<le> m)"

text \<open>
  The loop invariant: three bytes are free, and the buffer holds the prefix and the names printed so
  far.  Names of up to 99 characters keep it.
\<close>

definition print_inv :: "string \<Rightarrow> string \<Rightarrow> (nat \<Rightarrow> string) \<Rightarrow> nat list \<Rightarrow> bool \<times> nat \<times> string \<Rightarrow> bool" where
  "print_inv prefix sep f ks st \<longleftrightarrow>
     (case st of (isFirst, len, buf) \<Rightarrow>
        isFirst = (ks = []) \<and> length buf + 3 \<le> len \<and> buf = prefix @ join sep (map f ks))"

lemma print_arg_step:
  assumes "print_inv prefix [sep] (\<lambda>i. ids2arguments aaf ! i)
      (filter (\<lambda>i. twoValued lab \<or> \<not> bit_at (lab_out lab) i) ys) st"
    and "length (ids2arguments aaf ! x) \<le> 99"
  shows "rok (print_arg sep lab aaf x st)
    (print_inv prefix [sep] (\<lambda>i. ids2arguments aaf ! i)
      (filter (\<lambda>i. twoValued lab \<or> \<not> bit_at (lab_out lab) i) (ys @ [x])))"
  using assms
  by (cases st)
    (auto simp: print_arg_def print_inv_def Let_def grow_def put_string_def put_char_def join_snoc)

lemma print_args:
  assumes "names_fit 99 aaf (set ks)" "length prefix \<le> 97"
  shows "rok (rfold (print_arg sep lab aaf) ks (True, 100, prefix))
    (print_inv prefix [sep] (\<lambda>i. ids2arguments aaf ! i)
      (filter (\<lambda>i. twoValued lab \<or> \<not> bit_at (lab_out lab) i) ks))"
proof (rule rok_rfold)
  show "print_inv prefix [sep] (\<lambda>i. ids2arguments aaf ! i)
      (filter (\<lambda>i. twoValued lab \<or> \<not> bit_at (lab_out lab) i) []) (True, 100, prefix)"
    using assms(2) by (simp add: print_inv_def)
next
  fix ys x zs st
  assume "ks = ys @ x # zs" and inv: "print_inv prefix [sep] (\<lambda>i. ids2arguments aaf ! i)
      (filter (\<lambda>i. twoValued lab \<or> \<not> bit_at (lab_out lab) i) ys) st"
  then have "length (ids2arguments aaf ! x) \<le> 99" using assms(1) by (simp add: names_fit_def)
  with inv show "rok (print_arg sep lab aaf x st) (print_inv prefix [sep] (\<lambda>i. ids2arguments aaf ! i)
      (filter (\<lambda>i. twoValued lab \<or> \<not> bit_at (lab_out lab) i) (ys @ [x])))"
    by (rule print_arg_step)
qed

lemma lab_print_i23_rok:
  assumes "wf_bitset (lab_in lab)" "names_fit 99 aaf (bits (lab_in lab))"
  shows "rok (taas__lab_print_i23 lab aaf)
    (\<lambda>out. out = ''w '' @ join '' '' (map (\<lambda>i. ids2arguments aaf ! i) (printed lab)))"
proof -
  have "rok (rfold (print_arg (CHR '' '') lab aaf) (bitset_members (lab_in lab)) (True, 100, ''w ''))
    (print_inv ''w '' '' '' (\<lambda>i. ids2arguments aaf ! i) (printed lab))"
    using print_args[of aaf "bitset_members (lab_in lab)" "''w ''" "CHR '' ''" lab] assms
    by (simp add: printed_def)
  then show ?thesis
    unfolding taas__lab_print_i23_def
    by (rule rok_bind) (auto simp: print_inv_def put_end_def)
qed

lemma lab_print_rok:
  assumes "wf_bitset (lab_in lab)" "names_fit 99 aaf (bits (lab_in lab))"
  shows "rok (taas__lab_print lab aaf)
    (\<lambda>out. out = ''['' @ join '','' (map (\<lambda>i. ids2arguments aaf ! i) (printed lab)) @ '']'')"
proof -
  have "rok (rfold (print_arg (CHR '','') lab aaf) (bitset_members (lab_in lab)) (True, 100, ''[''))
    (print_inv ''['' '','' (\<lambda>i. ids2arguments aaf ! i) (printed lab))"
    using print_args[of aaf "bitset_members (lab_in lab)" "''[''" "CHR '',''" lab] assms
    by (simp add: printed_def)
  then show ?thesis
    unfolding taas__lab_print_def
    by (rule rok_bind) (auto simp: print_inv_def put_end_def put_char_def)
qed

lemma print_arg_label_step:
  assumes "print_inv ''['' '','' (\<lambda>i. ids2arguments aaf ! i @ [CHR ''='', label_char lab i]) ys st"
    and "length (ids2arguments aaf ! x) \<le> 97"
  shows "rok (print_arg_label lab aaf x st)
    (print_inv ''['' '','' (\<lambda>i. ids2arguments aaf ! i @ [CHR ''='', label_char lab i]) (ys @ [x]))"
  using assms
  by (cases st)
    (auto simp: print_arg_label_def print_inv_def Let_def grow_def put_string_def put_char_def join_snoc)

lemma lab_print_as_labeling_rok:
  assumes "names_fit 97 aaf {..<number_of_arguments aaf}"
  shows "rok (taas__lab_print_as_labeling lab aaf)
    (\<lambda>out. out = ''['' @ join '','' (map (\<lambda>i. ids2arguments aaf ! i @ [CHR ''='', label_char lab i])
      [0..<number_of_arguments aaf]) @ '']'')"
proof -
  have "rok (rfold (print_arg_label lab aaf) [0..<number_of_arguments aaf] (True, 100, ''[''))
    (print_inv ''['' '','' (\<lambda>i. ids2arguments aaf ! i @ [CHR ''='', label_char lab i])
      [0..<number_of_arguments aaf])"
  proof (rule rok_rfold)
    fix ys x zs st
    assume "[0..<number_of_arguments aaf] = ys @ x # zs"
    then have "x \<in> set [0..<number_of_arguments aaf]" by simp
    then have "length (ids2arguments aaf ! x) \<le> 97" using assms by (simp add: names_fit_def)
    then show "print_inv ''['' '','' (\<lambda>i. ids2arguments aaf ! i @ [CHR ''='', label_char lab i]) ys st \<Longrightarrow>
      rok (print_arg_label lab aaf x st)
        (print_inv ''['' '','' (\<lambda>i. ids2arguments aaf ! i @ [CHR ''='', label_char lab i]) (ys @ [x]))"
      by (intro print_arg_label_step)
  qed (simp add: print_inv_def)
  then show ?thesis
    unfolding taas__lab_print_as_labeling_def
    by (rule rok_bind) (auto simp: print_inv_def put_end_def put_char_def)
qed

text \<open>
  A single name of 199 or more characters is written past the end: the buffer grows by 100 bytes
  once, whatever the name needs.
\<close>

lemma lab_print_i23_overflow:
  assumes "bitset_members (lab_in lab) = i # is" "twoValued lab \<or> \<not> bit_at (lab_out lab) i"
    and "198 \<le> length (ids2arguments aaf ! i)"
  shows "taas__lab_print_i23 lab aaf = Inl BufferOverflow"
  using assms by (auto simp: taas__lab_print_i23_def print_arg_def Let_def grow_def put_string_def)

section \<open>Grounded labelings\<close>

text \<open>
  The labeling the solve functions receive: the arguments of the grounded extension are in, those it
  attacks are out.
\<close>

definition grounded_labeling :: "AAF \<Rightarrow> Labeling \<Rightarrow> bool" where
  "grounded_labeling A g \<longleftrightarrow> wf_labeling (number_of_arguments A) g \<and> \<not> twoValued g \<and>
     (\<forall>i < number_of_arguments A.
        (bit_at (lab_in g) i \<longleftrightarrow> i \<in> grounded_ext (af_of A)) \<and>
        (bit_at (lab_out g) i \<longleftrightarrow> i \<in> attacked (af_of A) (grounded_ext (af_of A))))"

lemma grounded_labelingD:
  assumes "grounded_labeling A g"
  shows "i < number_of_arguments A \<Longrightarrow> bit_at (lab_in g) i \<longleftrightarrow> i \<in> grounded_ext (af_of A)"
    and "i < number_of_arguments A \<Longrightarrow>
      bit_at (lab_out g) i \<longleftrightarrow> i \<in> attacked (af_of A) (grounded_ext (af_of A))"
    and "wf_labeling (number_of_arguments A) g" and "\<not> twoValued g"
  using assms by (simp_all add: grounded_labeling_def)

lemma grounded_bits:
  assumes "grounded_labeling A g"
  shows "bits (lab_in g) = grounded_ext (af_of A)"
    and "printed g = filter (\<lambda>i. i \<in> grounded_ext (af_of A)) [0..<number_of_arguments A]"
proof -
  have b: "bit_length (lab_in g) = number_of_arguments A" "wf_bitset (lab_in g)"
    using grounded_labelingD(3)[OF assms] by (simp_all add: wf_labeling_def)
  show bits: "bits (lab_in g) = grounded_ext (af_of A)"
    using b(1) grounded_labelingD(1)[OF assms] grounded_args[of _ "af_of A"] by (auto simp: bits_def)
  have out: "\<not> bit_at (lab_out g) i" if "i \<in> grounded_ext (af_of A)" for i
  proof -
    have "i \<notin> attacked (af_of A) (grounded_ext (af_of A))"
      using that grounded_conflict_free by (auto simp: attacked_def)
    then show ?thesis
      using grounded_labelingD(2)[OF assms, of i] grounded_args[OF that] by simp
  qed
  show "printed g = filter (\<lambda>i. i \<in> grounded_ext (af_of A)) [0..<number_of_arguments A]"
    unfolding printed_def bitset_members_eq[OF b(2)] b(1) bits filter_filter
    using out by (intro filter_cong) auto
qed

end
