(* ===== verification/Encodings.thy ===== *)
theory Encodings
  imports Ipasir Labeling
begin

text \<open>
  tasks/task_general.cpp.  The clause generators for admissible, conflict-free, stable and complete
  sets and for attacks between two sets.  Clause buffers keep the size the source allocates.  The
  relation \<open>adds s s' C\<close> says that a generator took the solver from \<open>s\<close> to \<open>s'\<close> and thereby
  constrained the valuations by exactly \<open>C\<close>; each generator is characterised by the conditions on
  the sets of arguments whose in- and out-variables are true.  The locale \<open>set_encoding\<close> is the
  contract between the encodings and the semantics: every model describes an extension, and every
  extension is described by a model.
\<close>

section \<open>The clause generators\<close>

definition put_lit :: "nat \<Rightarrow> int \<Rightarrow> int list \<Rightarrow> int list result" where
  "put_lit cap x clause = (if length clause < cap then Inr (clause @ [x]) else Inl BufferOverflow)"

text \<open>The bodies of the loops over the arguments are definitions of their own.\<close>

definition adm_arg ::
    "int list \<Rightarrow> int list \<Rightarrow> AAF \<Rightarrow> Labeling \<Rightarrow> nat \<Rightarrow> ipasir \<times> bool \<Rightarrow> (ipasir \<times> bool) result" where
  "adm_arg in_vars out_vars aaf grounded i = (\<lambda>(solver, all_grounded).
     let solver = sat__addClause2 solver (- (in_vars ! i)) (- (out_vars ! i))
     in if bit_at (lab_in grounded) i then Inr (sat__addClause1 solver (in_vars ! i), all_grounded)
        else if bit_at (lab_out grounded) i
        then Inr (sat__addClause1 solver (out_vars ! i), all_grounded)
        else
          rbind (rfold (\<lambda>p (solver, out_clause).
              let solver = sat__addClause2 solver (- (in_vars ! i)) (out_vars ! p)
              in rbind (put_lit (2 + number_of_arguments aaf) (in_vars ! p) out_clause)
                   (\<lambda>out_clause. Inr (solver, out_clause)))
            (parents aaf ! i) (solver, [- (out_vars ! i)])) (\<lambda>(solver, out_clause).
          rbind (put_lit (2 + number_of_arguments aaf) 0 out_clause) (\<lambda>out_clause.
          rbind (sat__addClauseZT solver out_clause) (\<lambda>solver. Inr (solver, False)))))"

definition add_admTestClauses ::
    "ipasir \<Rightarrow> int list \<Rightarrow> int list \<Rightarrow> AAF \<Rightarrow> Labeling \<Rightarrow> (ipasir \<times> bool) result" where
  "add_admTestClauses solver in_vars out_vars aaf grounded =
     rfold (adm_arg in_vars out_vars aaf grounded) [0..<number_of_arguments aaf] (solver, True)"

definition cf_arg ::
    "int list \<Rightarrow> int list \<Rightarrow> AAF \<Rightarrow> Labeling \<Rightarrow> nat \<Rightarrow> ipasir \<times> bool \<Rightarrow> (ipasir \<times> bool) result" where
  "cf_arg in_vars out_vars aaf grounded i = (\<lambda>(solver, all_grounded).
     let solver = sat__addClause2 solver (- (in_vars ! i)) (- (out_vars ! i));
         all_grounded = (if \<not> bit_at (lab_in grounded) i \<and> \<not> bit_at (lab_out grounded) i
                         then False else all_grounded)
     in rbind (rfold (\<lambda>p (solver, out_clause).
            let solver = sat__addClause2 solver (- (in_vars ! p)) (out_vars ! i)
            in rbind (put_lit (2 + number_of_arguments aaf) (in_vars ! p) out_clause)
                 (\<lambda>out_clause. Inr (solver, out_clause)))
          (parents aaf ! i) (solver, [- (out_vars ! i)])) (\<lambda>(solver, out_clause).
        rbind (put_lit (2 + number_of_arguments aaf) 0 out_clause) (\<lambda>out_clause.
        rbind (sat__addClauseZT solver out_clause) (\<lambda>solver. Inr (solver, all_grounded)))))"

definition add_cfTestClauses ::
    "ipasir \<Rightarrow> int list \<Rightarrow> int list \<Rightarrow> AAF \<Rightarrow> Labeling \<Rightarrow> (ipasir \<times> bool) result" where
  "add_cfTestClauses solver in_vars out_vars aaf grounded =
     rfold (cf_arg in_vars out_vars aaf grounded) [0..<number_of_arguments aaf] (solver, True)"

text \<open>
  The clause \<open>clause_oneattack\<close> is submitted with \<open>number_of_attacks\<close> literals; reading entries that
  were never written would be the error \<open>Uninitialised\<close>.
\<close>

definition attack_arg ::
    "int list \<Rightarrow> int list \<Rightarrow> AAF \<Rightarrow> nat \<Rightarrow> ipasir \<times> int list \<times> int \<Rightarrow> (ipasir \<times> int list \<times> int) result" where
  "attack_arg in_vars in_attacked_vars aaf i =
     rfold (\<lambda>p (solver, clause_oneattack, idx).
         rbind (put_lit (number_of_attacks aaf) idx clause_oneattack) (\<lambda>clause_oneattack.
         let solver = sat__addClause2 solver (- idx) (in_vars ! p);
             solver = sat__addClause2 solver (- idx) (in_attacked_vars ! i);
             solver = sat__addClause3 solver idx (- (in_attacked_vars ! i)) (- (in_vars ! p))
         in Inr (solver, clause_oneattack, idx + 1)))
       (parents aaf ! i)"

definition add_attackClauses ::
    "ipasir \<Rightarrow> int list \<Rightarrow> int list \<Rightarrow> int \<Rightarrow> AAF \<Rightarrow> ipasir result" where
  "add_attackClauses solver in_vars in_attacked_vars attack_idx_offset aaf =
     rbind (rfold (attack_arg in_vars in_attacked_vars aaf) [0..<number_of_arguments aaf]
              (solver, [], attack_idx_offset))
     (\<lambda>(solver, clause_oneattack, idx).
        if length clause_oneattack < number_of_attacks aaf then Inl Uninitialised
        else Inr (sat__addClause solver clause_oneattack (number_of_attacks aaf)))"

definition stb_arg :: "int list \<Rightarrow> AAF \<Rightarrow> Labeling \<Rightarrow> nat \<Rightarrow> ipasir \<Rightarrow> ipasir result" where
  "stb_arg in_vars aaf grounded i solver =
     (let solver =
            (if bit_at (lab_in grounded) i then sat__addClause1 solver (in_vars ! i)
             else if bit_at (lab_out grounded) i then sat__addClause1 solver (- (in_vars ! i))
             else solver)
      in rbind (rfold (\<lambda>p (solver, clause, emptyclause).
             let solver = sat__addClause2 solver (- (in_vars ! i)) (- (in_vars ! p))
             in rbind (put_lit (1 + number_of_arguments aaf) (in_vars ! p) clause)
                  (\<lambda>clause. Inr (solver, clause, False)))
           (parents aaf ! i) (solver, [in_vars ! i], True)) (\<lambda>(solver, clause, emptyclause).
         Inr (if \<not> emptyclause then sat__addClause solver clause (length clause) else solver)))"

definition add_stbTestClauses :: "ipasir \<Rightarrow> int list \<Rightarrow> AAF \<Rightarrow> Labeling \<Rightarrow> ipasir result" where
  "add_stbTestClauses solver in_vars aaf grounded =
     rfold (stb_arg in_vars aaf grounded) [0..<number_of_arguments aaf] solver"

definition com_arg :: "int list \<Rightarrow> int list \<Rightarrow> AAF \<Rightarrow> Labeling \<Rightarrow> nat \<Rightarrow> ipasir \<Rightarrow> ipasir result" where
  "com_arg in_vars out_vars aaf grounded i solver =
     (let solver = sat__addClause2 solver (- (in_vars ! i)) (- (out_vars ! i))
      in if bit_at (lab_in grounded) i then Inr (sat__addClause1 solver (in_vars ! i))
         else if bit_at (lab_out grounded) i then Inr (sat__addClause1 solver (out_vars ! i))
         else
           rbind (rfold (\<lambda>p (solver, clause, clause2).
               let solver = sat__addClause2 solver (- (in_vars ! i)) (out_vars ! p);
                   solver = sat__addClause2 solver (- (in_vars ! p)) (out_vars ! i)
               in rbind (put_lit (1 + number_of_arguments aaf) (in_vars ! p) clause) (\<lambda>clause.
                  rbind (put_lit (1 + number_of_arguments aaf) (- (out_vars ! p)) clause2) (\<lambda>clause2.
                  Inr (solver, clause, clause2))))
             (parents aaf ! i) (solver, [- (out_vars ! i)], [in_vars ! i]))
           (\<lambda>(solver, clause, clause2).
           let solver = sat__addClause solver clause (length clause)
           in Inr (sat__addClause solver clause2 (length clause2))))"

definition add_comTestClauses ::
    "ipasir \<Rightarrow> int list \<Rightarrow> int list \<Rightarrow> AAF \<Rightarrow> Labeling \<Rightarrow> ipasir result" where
  "add_comTestClauses solver in_vars out_vars aaf grounded =
     rfold (com_arg in_vars out_vars aaf grounded) [0..<number_of_arguments aaf] solver"

section \<open>What a generator adds\<close>

definition adds :: "ipasir \<Rightarrow> ipasir \<Rightarrow> ((nat \<Rightarrow> bool) \<Rightarrow> bool) \<Rightarrow> bool" where
  "adds s s' C \<longleftrightarrow> ready s' \<and> assumed s' = assumed s \<and> (\<forall>v. holds v s' \<longleftrightarrow> holds v s \<and> C v)"

lemma addsD:
  "adds s s' C \<Longrightarrow> ready s'" "adds s s' C \<Longrightarrow> assumed s' = assumed s"
  "adds s s' C \<Longrightarrow> holds v s' \<longleftrightarrow> holds v s \<and> C v"
  by (simp_all add: adds_def)

lemma adds_refl: "ready s \<Longrightarrow> adds s s (\<lambda>_. True)"
  by (simp add: adds_def)

lemma adds_trans:
  "adds s s' C \<Longrightarrow> adds s' s'' D \<Longrightarrow> (\<And>v. E v \<longleftrightarrow> C v \<and> D v) \<Longrightarrow> adds s s'' E"
  by (simp add: adds_def)

lemma adds_cong: "adds s s' C \<Longrightarrow> (\<And>v. C v \<longleftrightarrow> D v) \<Longrightarrow> adds s s' D"
  by (simp add: adds_def)

lemma adds_clause1: "ready s \<Longrightarrow> a \<noteq> 0 \<Longrightarrow> adds s (sat__addClause1 s a) (\<lambda>v. lit_true v a)"
  by (simp add: adds_def)

lemma adds_clause2:
  "ready s \<Longrightarrow> a \<noteq> 0 \<Longrightarrow> b \<noteq> 0 \<Longrightarrow>
   adds s (sat__addClause2 s a b) (\<lambda>v. lit_true v a \<or> lit_true v b)"
  by (simp add: adds_def)

lemma adds_clause:
  "ready s \<Longrightarrow> \<forall>l\<in>set c. l \<noteq> 0 \<Longrightarrow> n = length c \<Longrightarrow>
   adds s (sat__addClause s c n) (\<lambda>v. \<exists>l\<in>set c. lit_true v l)"
  by (simp add: adds_def)

text \<open>Variable arrays hold a positive number for every argument.\<close>

definition vars_ok :: "nat \<Rightarrow> int list \<Rightarrow> bool" where
  "vars_ok n vs \<longleftrightarrow> length vs = n \<and> (\<forall>x\<in>set vs. 0 < x)"

definition true_set :: "(nat \<Rightarrow> bool) \<Rightarrow> int list \<Rightarrow> nat set" where
  "true_set v vs = {i. i < length vs \<and> lit_true v (vs ! i)}"

lemma vars_pos: "vars_ok n vs \<Longrightarrow> i < n \<Longrightarrow> 0 < vs ! i"
  by (simp add: vars_ok_def)

lemma vars_nonzero [simp]: "vars_ok n vs \<Longrightarrow> i < n \<Longrightarrow> vs ! i \<noteq> 0"
  using vars_pos[of n vs i] by simp

lemma true_set_iff: "vars_ok n vs \<Longrightarrow> i < n \<Longrightarrow> lit_true v (vs ! i) \<longleftrightarrow> i \<in> true_set v vs"
  by (simp add: true_set_def vars_ok_def)

lemma true_set_bound: "vars_ok n vs \<Longrightarrow> i \<in> true_set v vs \<Longrightarrow> i < n"
  by (simp add: true_set_def vars_ok_def)

lemma put_lit_rok: "length c < cap \<Longrightarrow> put_lit cap x c = Inr (c @ [x])"
  by (simp add: put_lit_def)

text \<open>
  The inner loops over the parents have a common shape: clauses are added for every parent while
  some further state (the clause buffers) is built up.
\<close>

lemma parents_loop:
  assumes step: "\<And>ys p zs s c. ps = ys @ p # zs \<Longrightarrow> ready s \<Longrightarrow> J ys c \<Longrightarrow>
      rok (f p (s, c)) (\<lambda>(s', c'). adds s s' (C p) \<and> J (ys @ [p]) c')"
    and s: "ready s" and c: "J [] c"
  shows "rok (rfold f ps (s, c)) (\<lambda>(s', c'). adds s s' (\<lambda>v. \<forall>p\<in>set ps. C p v) \<and> J ps c')"
proof (rule rok_weaken[OF rok_rfold[where
    I = "\<lambda>ys (s', c'). adds s s' (\<lambda>v. \<forall>p\<in>set ys. C p v) \<and> J ys c'"]])
  show "case (s, c) of (s', c') \<Rightarrow> adds s s' (\<lambda>v. \<forall>p\<in>set []. C p v) \<and> J [] c'"
    using s c by (simp add: adds_def)
next
  fix ys x zs st
  assume ps: "ps = ys @ x # zs"
    and I: "case st of (s', c') \<Rightarrow> adds s s' (\<lambda>v. \<forall>p\<in>set ys. C p v) \<and> J ys c'"
  obtain s' c' where st: "st = (s', c')" by (cases st)
  have s': "adds s s' (\<lambda>v. \<forall>p\<in>set ys. C p v)" and c': "J ys c'" using I st by auto
  show "rok (f x st) (\<lambda>(s', c'). adds s s' (\<lambda>v. \<forall>p\<in>set (ys @ [x]). C p v) \<and> J (ys @ [x]) c')"
    unfolding st
    by (rule rok_weaken[OF step[OF ps addsD(1)[OF s'] c']]) (auto intro!: adds_trans[OF s'])
qed

lemma adds_out_clause:
  assumes "ready s" "\<forall>l\<in>set c. l \<noteq> 0" "length c < cap"
  shows "rok (rbind (put_lit cap 0 c) (\<lambda>c. rbind (sat__addClauseZT s c) (\<lambda>s. Inr (s, b))))
    (\<lambda>(s', b'). adds s s' (\<lambda>v. \<exists>l\<in>set c. lit_true v l) \<and> b' = b)"
  using sat__addClauseZT_effect[OF assms(1,2)] assms(3)
  by (auto simp: put_lit_rok adds_def rok_def)

section \<open>Characterisation of the generators\<close>

text \<open>\<open>I\<close> and \<open>O\<close> are the arguments whose in- and out-variables are true.\<close>

definition adm_cond :: "AAF \<Rightarrow> Labeling \<Rightarrow> nat set \<Rightarrow> nat set \<Rightarrow> nat \<Rightarrow> bool" where
  "adm_cond A g I U i \<longleftrightarrow> \<not> (i \<in> I \<and> i \<in> U) \<and>
     (if bit_at (lab_in g) i then i \<in> I
      else if bit_at (lab_out g) i then i \<in> U
      else (i \<in> I \<longrightarrow> set (parents A ! i) \<subseteq> U) \<and> (i \<in> U \<longrightarrow> (\<exists>p\<in>set (parents A ! i). p \<in> I)))"

definition cf_cond :: "AAF \<Rightarrow> Labeling \<Rightarrow> nat set \<Rightarrow> nat set \<Rightarrow> nat \<Rightarrow> bool" where
  "cf_cond A g I U i \<longleftrightarrow> \<not> (i \<in> I \<and> i \<in> U) \<and>
     ((\<exists>p\<in>set (parents A ! i). p \<in> I) \<longleftrightarrow> i \<in> U)"

definition com_cond :: "AAF \<Rightarrow> Labeling \<Rightarrow> nat set \<Rightarrow> nat set \<Rightarrow> nat \<Rightarrow> bool" where
  "com_cond A g I U i \<longleftrightarrow> \<not> (i \<in> I \<and> i \<in> U) \<and>
     (if bit_at (lab_in g) i then i \<in> I
      else if bit_at (lab_out g) i then i \<in> U
      else (i \<in> I \<longleftrightarrow> set (parents A ! i) \<subseteq> U) \<and> (i \<in> U \<longleftrightarrow> (\<exists>p\<in>set (parents A ! i). p \<in> I)))"

definition stb_cond :: "AAF \<Rightarrow> Labeling \<Rightarrow> nat set \<Rightarrow> nat \<Rightarrow> bool" where
  "stb_cond A g I i \<longleftrightarrow>
     (if bit_at (lab_in g) i then i \<in> I else if bit_at (lab_out g) i then i \<notin> I else True) \<and>
     (i \<in> I \<longrightarrow> (\<forall>p\<in>set (parents A ! i). p \<notin> I)) \<and>
     (parents A ! i \<noteq> [] \<longrightarrow> i \<in> I \<or> (\<exists>p\<in>set (parents A ! i). p \<in> I))"

definition all_decided :: "Labeling \<Rightarrow> nat \<Rightarrow> bool" where
  "all_decided g n \<longleftrightarrow> (\<forall>i<n. bit_at (lab_in g) i \<or> bit_at (lab_out g) i)"


text \<open>The outer loops over the arguments, with and without the flag \<open>all_grounded\<close>.\<close>

lemma args_loop_flag:
  assumes step: "\<And>i s b. i < n \<Longrightarrow> ready s \<Longrightarrow>
      rok (f i (s, b)) (\<lambda>(s', b'). adds s s' (C i) \<and> b' = (b \<and> D i))"
    and s: "ready s"
  shows "rok (rfold f [0..<n] (s, True)) (\<lambda>(s', b). adds s s' (\<lambda>v. \<forall>i<n. C i v) \<and> b = (\<forall>i<n. D i))"
proof (rule rok_weaken[OF rok_for[where I = "\<lambda>i (s', b).
    adds s s' (\<lambda>v. \<forall>j<i. C j v) \<and> b = (\<forall>j<i. D j)"]])
  fix i st
  assume i: "i < n" and "case st of (s', b) \<Rightarrow> adds s s' (\<lambda>v. \<forall>j<i. C j v) \<and> b = (\<forall>j<i. D j)"
  then obtain s' where st: "st = (s', \<forall>j<i. D j)" and s': "adds s s' (\<lambda>v. \<forall>j<i. C j v)"
    by (cases st) auto
  show "rok (f i st) (\<lambda>(s', b). adds s s' (\<lambda>v. \<forall>j<Suc i. C j v) \<and> b = (\<forall>j<Suc i. D j))"
    unfolding st
    by (rule rok_weaken[OF step[OF i addsD(1)[OF s']]])
      (auto intro!: adds_trans[OF s'] simp: less_Suc_eq)
qed (use s in \<open>auto simp: adds_def\<close>)

lemma args_loop:
  assumes step: "\<And>i s. i < n \<Longrightarrow> ready s \<Longrightarrow> rok (f i s) (\<lambda>s'. adds s s' (C i))" and s: "ready s"
  shows "rok (rfold f [0..<n] s) (\<lambda>s'. adds s s' (\<lambda>v. \<forall>i<n. C i v))"
proof (rule rok_weaken[OF rok_for[where I = "\<lambda>i s'. adds s s' (\<lambda>v. \<forall>j<i. C j v)"]])
  fix i s'
  assume i: "i < n" and s': "adds s s' (\<lambda>v. \<forall>j<i. C j v)"
  show "rok (f i s') (\<lambda>s'. adds s s' (\<lambda>v. \<forall>j<Suc i. C j v))"
    by (rule rok_weaken[OF step[OF i addsD(1)[OF s']]])
      (auto intro!: adds_trans[OF s'] simp: less_Suc_eq)
qed (use s in \<open>auto simp: adds_def\<close>)

text \<open>
  The part shared by the admissible and the conflict-free encoding: the loop over the parents and the
  clause that lists them.
\<close>

lemma out_clause_step:
  assumes s: "ready s" and l: "l \<noteq> 0" and f: "\<forall>p\<in>set ps. f p \<noteq> 0" and room: "length ps + 2 \<le> cap"
    and step: "\<And>p s. p \<in> set ps \<Longrightarrow> ready s \<Longrightarrow> adds s (g p s) (C p)"
  shows "rok (rbind (rfold (\<lambda>p (s, c). let s = g p s in rbind (put_lit cap (f p) c) (\<lambda>c. Inr (s, c)))
        ps (s, [l]))
      (\<lambda>(s, c). rbind (put_lit cap 0 c) (\<lambda>c. rbind (sat__addClauseZT s c) (\<lambda>s. Inr (s, b)))))
    (\<lambda>(s', b'). adds s s' (\<lambda>v. (\<forall>p\<in>set ps. C p v) \<and> (lit_true v l \<or> (\<exists>p\<in>set ps. lit_true v (f p)))) \<and>
      b' = b)"
proof (rule rok_bind[OF parents_loop[where J = "\<lambda>ys c. c = l # map f ys" and C = C, OF _ s]])
  fix ys p zs s c
  assume "ps = ys @ p # zs" "ready s" "c = l # map f ys"
  then show "rok (case (s, c) of (s, c) \<Rightarrow> let s = g p s in rbind (put_lit cap (f p) c) (\<lambda>c. Inr (s, c)))
      (\<lambda>(s', c'). adds s s' (C p) \<and> c' = l # map f (ys @ [p]))"
    using room step[of p s] by (simp add: put_lit_rok)
next
  fix st assume st: "case st of (s', c') \<Rightarrow> adds s s' (\<lambda>v. \<forall>p\<in>set ps. C p v) \<and> c' = l # map f ps"
  then obtain s' where [simp]: "st = (s', l # map f ps)" and s': "adds s s' (\<lambda>v. \<forall>p\<in>set ps. C p v)"
    by (cases st) auto
  have "rok (rbind (put_lit cap 0 (l # map f ps)) (\<lambda>c. rbind (sat__addClauseZT s' c) (\<lambda>s. Inr (s, b))))
    (\<lambda>(s'', b'). adds s' s'' (\<lambda>v. \<exists>x\<in>set (l # map f ps). lit_true v x) \<and> b' = b)"
    using addsD(1)[OF s'] l f room by (intro adds_out_clause) auto
  then show "rok (case st of (s, c) \<Rightarrow> rbind (put_lit cap 0 c) (\<lambda>c.
      rbind (sat__addClauseZT s c) (\<lambda>s. Inr (s, b))))
    (\<lambda>(s', b'). adds s s' (\<lambda>v. (\<forall>p\<in>set ps. C p v) \<and> (lit_true v l \<or> (\<exists>p\<in>set ps. lit_true v (f p)))) \<and>
      b' = b)"
    by (simp, elim rok_weaken) (auto intro: adds_trans[OF s'])
qed simp

lemma adds_exclusive:
  "ready s \<Longrightarrow> vars_ok n iv \<Longrightarrow> vars_ok n ov \<Longrightarrow> i < n \<Longrightarrow>
   adds s (sat__addClause2 s (- (iv ! i)) (- (ov ! i))) (\<lambda>v. \<not> (i \<in> true_set v iv \<and> i \<in> true_set v ov))"
  using true_set_iff[of n iv i] true_set_iff[of n ov i]
  by (auto simp: adds_def)

lemma adm_arg_rok:
  assumes wf: "wf_aaf A" and iv: "vars_ok (number_of_arguments A) iv"
    and ov: "vars_ok (number_of_arguments A) ov" and s: "ready s" and i: "i < number_of_arguments A"
  shows "rok (adm_arg iv ov A g i (s, b)) (\<lambda>(s', b').
    adds s s' (\<lambda>v. adm_cond A g (true_set v iv) (true_set v ov) i) \<and>
    b' = (b \<and> (bit_at (lab_in g) i \<or> bit_at (lab_out g) i)))"
proof -
  let ?s = "sat__addClause2 s (- (iv ! i)) (- (ov ! i))"
  note nz = vars_nonzero[OF iv] vars_nonzero[OF ov] and pb = parent_bound[OF wf i]
  note ts = true_set_iff[OF iv] true_set_iff[OF ov]
  note s2 = adds_exclusive[OF s iv ov i]
  have "rok (rbind (rfold (\<lambda>p (s, c). let s = sat__addClause2 s (- (iv ! i)) (ov ! p)
        in rbind (put_lit (2 + number_of_arguments A) (iv ! p) c) (\<lambda>c. Inr (s, c)))
        (parents A ! i) (?s, [- (ov ! i)])) (\<lambda>(s, c).
      rbind (put_lit (2 + number_of_arguments A) 0 c) (\<lambda>c.
      rbind (sat__addClauseZT s c) (\<lambda>s. Inr (s, False)))))
    (\<lambda>(s', b'). adds ?s s' (\<lambda>v. (\<forall>p\<in>set (parents A ! i). lit_true v (- (iv ! i)) \<or> lit_true v (ov ! p)) \<and>
      (lit_true v (- (ov ! i)) \<or> (\<exists>p\<in>set (parents A ! i). lit_true v (iv ! p)))) \<and> b' = False)"
    using addsD(1)[OF s2] nz pb i wf_aafD(7)[OF wf i]
    by (intro out_clause_step) (auto simp: adds_def)
  moreover have "adds s s' (\<lambda>v. adm_cond A g (true_set v iv) (true_set v ov) i)"
    if "adds ?s s' (\<lambda>v. (\<forall>p\<in>set (parents A ! i). lit_true v (- (iv ! i)) \<or> lit_true v (ov ! p)) \<and>
      (lit_true v (- (ov ! i)) \<or> (\<exists>p\<in>set (parents A ! i). lit_true v (iv ! p))))"
      "\<not> bit_at (lab_in g) i" "\<not> bit_at (lab_out g) i" for s'
    using that(2,3) i pb nz ts by (intro adds_trans[OF s2 that(1)]) (auto simp: adm_cond_def)
  moreover have "adds s (sat__addClause1 ?s (iv ! i)) (\<lambda>v. adm_cond A g (true_set v iv) (true_set v ov) i)"
    if "bit_at (lab_in g) i"
    using that addsD(1)[OF s2] nz i ts
    by (intro adds_trans[OF s2 adds_clause1]) (auto simp: adm_cond_def)
  moreover have "adds s (sat__addClause1 ?s (ov ! i)) (\<lambda>v. adm_cond A g (true_set v iv) (true_set v ov) i)"
    if "\<not> bit_at (lab_in g) i" "bit_at (lab_out g) i"
    using that addsD(1)[OF s2] nz i ts
    by (intro adds_trans[OF s2 adds_clause1]) (auto simp: adm_cond_def)
  ultimately show ?thesis
    by (auto simp: adm_arg_def Let_def[of ?s] elim!: rok_weaken)
qed

lemma add_admTestClauses_rok:
  assumes "wf_aaf A" "vars_ok (number_of_arguments A) iv" "vars_ok (number_of_arguments A) ov" "ready s"
  shows "rok (add_admTestClauses s iv ov A g) (\<lambda>(s', b).
    adds s s' (\<lambda>v. \<forall>i<number_of_arguments A. adm_cond A g (true_set v iv) (true_set v ov) i) \<and>
    b = all_decided g (number_of_arguments A))"
  unfolding add_admTestClauses_def all_decided_def
  by (rule args_loop_flag) (simp_all add: adm_arg_rok assms)

lemma cf_arg_rok:
  assumes wf: "wf_aaf A" and iv: "vars_ok (number_of_arguments A) iv"
    and ov: "vars_ok (number_of_arguments A) ov" and s: "ready s" and i: "i < number_of_arguments A"
  shows "rok (cf_arg iv ov A g i (s, b)) (\<lambda>(s', b').
    adds s s' (\<lambda>v. cf_cond A g (true_set v iv) (true_set v ov) i) \<and>
    b' = (b \<and> (bit_at (lab_in g) i \<or> bit_at (lab_out g) i)))"
proof -
  let ?s = "sat__addClause2 s (- (iv ! i)) (- (ov ! i))"
  let ?b = "if \<not> bit_at (lab_in g) i \<and> \<not> bit_at (lab_out g) i then False else b"
  note nz = vars_nonzero[OF iv] vars_nonzero[OF ov] and pb = parent_bound[OF wf i]
  note ts = true_set_iff[OF iv] true_set_iff[OF ov]
  note s2 = adds_exclusive[OF s iv ov i]
  have "rok (rbind (rfold (\<lambda>p (s, c). let s = sat__addClause2 s (- (iv ! p)) (ov ! i)
        in rbind (put_lit (2 + number_of_arguments A) (iv ! p) c) (\<lambda>c. Inr (s, c)))
        (parents A ! i) (?s, [- (ov ! i)])) (\<lambda>(s, c).
      rbind (put_lit (2 + number_of_arguments A) 0 c) (\<lambda>c.
      rbind (sat__addClauseZT s c) (\<lambda>s. Inr (s, ?b)))))
    (\<lambda>(s', b'). adds ?s s' (\<lambda>v. (\<forall>p\<in>set (parents A ! i). lit_true v (- (iv ! p)) \<or> lit_true v (ov ! i)) \<and>
      (lit_true v (- (ov ! i)) \<or> (\<exists>p\<in>set (parents A ! i). lit_true v (iv ! p)))) \<and> b' = ?b)"
    using addsD(1)[OF s2] nz pb i wf_aafD(7)[OF wf i]
    by (intro out_clause_step) (auto simp: adds_def)
  moreover have "adds s s' (\<lambda>v. cf_cond A g (true_set v iv) (true_set v ov) i)"
    if "adds ?s s' (\<lambda>v. (\<forall>p\<in>set (parents A ! i). lit_true v (- (iv ! p)) \<or> lit_true v (ov ! i)) \<and>
      (lit_true v (- (ov ! i)) \<or> (\<exists>p\<in>set (parents A ! i). lit_true v (iv ! p))))" for s'
    using i pb nz ts by (intro adds_trans[OF s2 that]) (auto simp: cf_cond_def)
  ultimately show ?thesis
    unfolding cf_arg_def prod.case Let_def[of ?s] Let_def[of ?b]
    by (auto elim!: rok_weaken)
qed

lemma add_cfTestClauses_rok:
  assumes "wf_aaf A" "vars_ok (number_of_arguments A) iv" "vars_ok (number_of_arguments A) ov" "ready s"
  shows "rok (add_cfTestClauses s iv ov A g) (\<lambda>(s', b).
    adds s s' (\<lambda>v. \<forall>i<number_of_arguments A. cf_cond A g (true_set v iv) (true_set v ov) i) \<and>
    b = all_decided g (number_of_arguments A))"
  unfolding add_cfTestClauses_def all_decided_def
  by (rule args_loop_flag) (simp_all add: cf_arg_rok assms)

lemma com_arg_rok:
  assumes wf: "wf_aaf A" and iv: "vars_ok (number_of_arguments A) iv"
    and ov: "vars_ok (number_of_arguments A) ov" and s: "ready s" and i: "i < number_of_arguments A"
  shows "rok (com_arg iv ov A g i s) (\<lambda>s'.
    adds s s' (\<lambda>v. com_cond A g (true_set v iv) (true_set v ov) i))"
proof -
  let ?n = "number_of_arguments A" and ?ps = "parents A ! i"
  let ?s = "sat__addClause2 s (- (iv ! i)) (- (ov ! i))"
  note nz = vars_nonzero[OF iv] vars_nonzero[OF ov] and pb = parent_bound[OF wf i]
  note ts = true_set_iff[OF iv] true_set_iff[OF ov]
  note s2 = adds_exclusive[OF s iv ov i]
  let ?C = "\<lambda>p v. (lit_true v (- (iv ! i)) \<or> lit_true v (ov ! p)) \<and> (lit_true v (- (iv ! p)) \<or> lit_true v (ov ! i))"
  let ?J = "\<lambda>ys (c, d). c = - (ov ! i) # map (\<lambda>p. iv ! p) ys \<and> d = iv ! i # map (\<lambda>p. - (ov ! p)) ys"
  have loop: "rok (rfold (\<lambda>p (s, c, d).
        let s = sat__addClause2 s (- (iv ! i)) (ov ! p); s = sat__addClause2 s (- (iv ! p)) (ov ! i)
        in rbind (put_lit (1 + ?n) (iv ! p) c) (\<lambda>c.
           rbind (put_lit (1 + ?n) (- (ov ! p)) d) (\<lambda>d. Inr (s, c, d)))) ?ps (?s, [- (ov ! i)], [iv ! i]))
    (\<lambda>(s', c). adds ?s s' (\<lambda>v. \<forall>p\<in>set ?ps. ?C p v) \<and> ?J ?ps c)"
  proof (rule parents_loop[where J = ?J and C = ?C, OF _ addsD(1)[OF s2]])
    fix ys p zs s c assume H: "?ps = ys @ p # zs" "ready s" "?J ys c"
    have "length ?ps \<le> ?n" using wf_aafD(7)[OF wf i] .
    then have "length ys < ?n" using H(1) by simp
    moreover have "p < ?n" using pb[of p] H(1) by simp
    ultimately show "rok (case (s, c) of (s, c, d) \<Rightarrow>
        let s = sat__addClause2 s (- (iv ! i)) (ov ! p); s = sat__addClause2 s (- (iv ! p)) (ov ! i)
        in rbind (put_lit (1 + ?n) (iv ! p) c) (\<lambda>c.
           rbind (put_lit (1 + ?n) (- (ov ! p)) d) (\<lambda>d. Inr (s, c, d))))
      (\<lambda>(s', c'). adds s s' (?C p) \<and> ?J (ys @ [p]) c')"
      using H(2,3) nz i by (cases c) (auto simp: Let_def put_lit_rok adds_def)
  qed simp
  let ?c = "- (ov ! i) # map (\<lambda>p. iv ! p) ?ps" and ?d = "iv ! i # map (\<lambda>p. - (ov ! p)) ?ps"
  have fin: "adds s (sat__addClause (sat__addClause s' ?c (length ?c)) ?d (length ?d))
      (\<lambda>v. com_cond A g (true_set v iv) (true_set v ov) i)"
    if s': "adds ?s s' (\<lambda>v. \<forall>p\<in>set ?ps. ?C p v)" and und: "\<not> bit_at (lab_in g) i" "\<not> bit_at (lab_out g) i" for s'
  proof -
    have zs: "\<forall>l\<in>set ?c. l \<noteq> 0" "\<forall>l\<in>set ?d. l \<noteq> 0" using nz i pb by auto
    have "adds s' (sat__addClause s' ?c (length ?c)) (\<lambda>v. \<exists>l\<in>set ?c. lit_true v l)"
      using addsD(1)[OF s'] zs(1) by (rule adds_clause) simp
    moreover from addsD(1)[OF this] zs(2)
    have "adds (sat__addClause s' ?c (length ?c)) (sat__addClause (sat__addClause s' ?c (length ?c)) ?d (length ?d))
        (\<lambda>v. \<exists>l\<in>set ?d. lit_true v l)"
      by (rule adds_clause) simp
    ultimately have "adds s' (sat__addClause (sat__addClause s' ?c (length ?c)) ?d (length ?d))
        (\<lambda>v. (\<exists>l\<in>set ?c. lit_true v l) \<and> (\<exists>l\<in>set ?d. lit_true v l))"
      by (rule adds_trans) simp
    then have "adds ?s (sat__addClause (sat__addClause s' ?c (length ?c)) ?d (length ?d))
        (\<lambda>v. (\<forall>p\<in>set ?ps. ?C p v) \<and> (\<exists>l\<in>set ?c. lit_true v l) \<and> (\<exists>l\<in>set ?d. lit_true v l))"
      by (rule adds_trans[OF s']) simp
    then show ?thesis
      using und i pb nz ts by (rule_tac adds_trans[OF s2]) (assumption, auto simp: com_cond_def)
  qed
  have unit: "bit_at (lab_in g) i \<Longrightarrow> adds s (sat__addClause1 ?s (iv ! i)) (\<lambda>v. com_cond A g (true_set v iv) (true_set v ov) i)"
    "\<not> bit_at (lab_in g) i \<Longrightarrow> bit_at (lab_out g) i \<Longrightarrow>
     adds s (sat__addClause1 ?s (ov ! i)) (\<lambda>v. com_cond A g (true_set v iv) (true_set v ov) i)"
    using addsD(1)[OF s2] nz i ts
    by (auto intro!: adds_trans[OF s2 adds_clause1] simp: com_cond_def)
  show ?thesis
    unfolding com_arg_def Let_def[of ?s]
  proof (intro rok_if rok_bind[OF loop])
    fix st
    assume und: "\<not> bit_at (lab_in g) i" "\<not> bit_at (lab_out g) i"
      and "case st of (s', c) \<Rightarrow> adds ?s s' (\<lambda>v. \<forall>p\<in>set ?ps. ?C p v) \<and> ?J ?ps c"
    then obtain s' where "st = (s', ?c, ?d)" "adds ?s s' (\<lambda>v. \<forall>p\<in>set ?ps. ?C p v)"
      by (cases st) auto
    with fin[OF this(2) und] show "rok (case st of (solver, clause, clause2) \<Rightarrow>
        let solver = sat__addClause solver clause (length clause)
        in Inr (sat__addClause solver clause2 (length clause2)))
      (\<lambda>s'. adds s s' (\<lambda>v. com_cond A g (true_set v iv) (true_set v ov) i))"
      by (simp only: prod.case Let_def rok_simps)
  qed (simp_all add: unit)
qed

lemma add_comTestClauses_rok:
  assumes "wf_aaf A" "vars_ok (number_of_arguments A) iv" "vars_ok (number_of_arguments A) ov" "ready s"
  shows "rok (add_comTestClauses s iv ov A g) (\<lambda>s'.
    adds s s' (\<lambda>v. \<forall>i<number_of_arguments A. com_cond A g (true_set v iv) (true_set v ov) i))"
  unfolding add_comTestClauses_def
  by (rule args_loop) (simp_all add: com_arg_rok assms)

lemma stb_arg_rok:
  assumes wf: "wf_aaf A" and iv: "vars_ok (number_of_arguments A) iv"
    and s: "ready s" and i: "i < number_of_arguments A"
  shows "rok (stb_arg iv A g i s) (\<lambda>s'. adds s s' (\<lambda>v. stb_cond A g (true_set v iv) i))"
proof -
  let ?n = "number_of_arguments A" and ?ps = "parents A ! i"
  let ?s = "if bit_at (lab_in g) i then sat__addClause1 s (iv ! i)
    else if bit_at (lab_out g) i then sat__addClause1 s (- (iv ! i)) else s"
  note nz = vars_nonzero[OF iv] and pb = parent_bound[OF wf i] and ts = true_set_iff[OF iv]
  let ?K = "\<lambda>v. if bit_at (lab_in g) i then i \<in> true_set v iv
    else if bit_at (lab_out g) i then i \<notin> true_set v iv else True"
  have s2: "adds s ?s ?K" using s nz i ts by (auto simp: adds_def)
  let ?C = "\<lambda>p v. lit_true v (- (iv ! i)) \<or> lit_true v (- (iv ! p))"
  let ?J = "\<lambda>ys (c, e). c = iv ! i # map (\<lambda>p. iv ! p) ys \<and> e = (ys = [])"
  have loop: "rok (rfold (\<lambda>p (s, c, e). let s = sat__addClause2 s (- (iv ! i)) (- (iv ! p))
        in rbind (put_lit (1 + ?n) (iv ! p) c) (\<lambda>c. Inr (s, c, False))) ?ps (?s, [iv ! i], True))
    (\<lambda>(s', c). adds ?s s' (\<lambda>v. \<forall>p\<in>set ?ps. ?C p v) \<and> ?J ?ps c)"
  proof (rule parents_loop[where J = ?J and C = ?C, OF _ addsD(1)[OF s2]])
    fix ys p zs s c assume H: "?ps = ys @ p # zs" "ready s" "?J ys c"
    have "length ?ps \<le> ?n" using wf_aafD(7)[OF wf i] .
    then have "length ys < ?n" using H(1) by simp
    moreover have "p < ?n" using pb[of p] H(1) by simp
    ultimately show "rok (case (s, c) of (s, c, e) \<Rightarrow> let s = sat__addClause2 s (- (iv ! i)) (- (iv ! p))
        in rbind (put_lit (1 + ?n) (iv ! p) c) (\<lambda>c. Inr (s, c, False)))
      (\<lambda>(s', c'). adds s s' (?C p) \<and> ?J (ys @ [p]) c')"
      using H(2,3) nz i by (cases c) (auto simp: Let_def put_lit_rok adds_def)
  qed simp
  let ?c = "iv ! i # map (\<lambda>p. iv ! p) ?ps"
  have fin: "adds s (if \<not> (?ps = []) then sat__addClause s' ?c (length ?c) else s')
      (\<lambda>v. stb_cond A g (true_set v iv) i)"
    if s': "adds ?s s' (\<lambda>v. \<forall>p\<in>set ?ps. ?C p v)" for s'
  proof -
    have z: "\<forall>l\<in>set ?c. l \<noteq> 0" using nz i pb by auto
    have "adds s' (if \<not> (?ps = []) then sat__addClause s' ?c (length ?c) else s')
        (\<lambda>v. ?ps \<noteq> [] \<longrightarrow> (\<exists>l\<in>set ?c. lit_true v l))"
      using adds_clause[OF addsD(1)[OF s'] z] adds_refl[OF addsD(1)[OF s']] by simp
    then have "adds ?s (if \<not> (?ps = []) then sat__addClause s' ?c (length ?c) else s')
        (\<lambda>v. (\<forall>p\<in>set ?ps. ?C p v) \<and> (?ps \<noteq> [] \<longrightarrow> (\<exists>l\<in>set ?c. lit_true v l)))"
      by (rule adds_trans[OF s']) simp
    then show ?thesis
      using i pb nz ts by (rule_tac adds_trans[OF s2]) (assumption, auto simp: stb_cond_def)
  qed
  show ?thesis
    unfolding stb_arg_def Let_def[of ?s]
  proof (rule rok_bind[OF loop])
    fix st
    assume "case st of (s', c) \<Rightarrow> adds ?s s' (\<lambda>v. \<forall>p\<in>set ?ps. ?C p v) \<and> ?J ?ps c"
    then obtain s' where "st = (s', ?c, ?ps = [])" "adds ?s s' (\<lambda>v. \<forall>p\<in>set ?ps. ?C p v)"
      by (cases st) auto
    with fin[OF this(2)] show "rok (case st of (solver, clause, emptyclause) \<Rightarrow>
        Inr (if \<not> emptyclause then sat__addClause solver clause (length clause) else solver))
      (\<lambda>s'. adds s s' (\<lambda>v. stb_cond A g (true_set v iv) i))"
      by (simp only: prod.case rok_simps)
  qed
qed

lemma add_stbTestClauses_rok:
  assumes "wf_aaf A" "vars_ok (number_of_arguments A) iv" "ready s"
  shows "rok (add_stbTestClauses s iv A g) (\<lambda>s'.
    adds s s' (\<lambda>v. \<forall>i<number_of_arguments A. stb_cond A g (true_set v iv) i))"
  unfolding add_stbTestClauses_def
  by (rule args_loop) (simp_all add: stb_arg_rok assms)

section \<open>Attacks between two sets\<close>

text \<open>The attacks in the order in which the generator numbers them.\<close>

definition attack_list :: "AAF \<Rightarrow> (nat \<times> nat) list" where
  "attack_list A = concat (map (\<lambda>i. map (\<lambda>p. (p, i)) (parents A ! i)) [0..<number_of_arguments A])"

lemma set_attack_list: "set (attack_list A) = attacks (af_of A)"
  by (auto simp: attack_list_def af_of_def)

lemma length_attack_list: "wf_aaf A \<Longrightarrow> length (attack_list A) = number_of_attacks A"
proof -
  assume wf: "wf_aaf A"
  have "map (\<lambda>i. length (parents A ! i)) [0..<number_of_arguments A] = map length (parents A)"
    using wf_aafD(2)[OF wf] by (intro nth_equalityI) auto
  then show ?thesis
    by (simp add: attack_list_def length_concat comp_def wf_aafD(8)[OF wf])
qed

lemma rfold_nested:
  "rfold (\<lambda>i. rfold (\<lambda>p. f (p, i)) (h i)) xs s = rfold f (concat (map (\<lambda>i. map (\<lambda>p. (p, i)) (h i)) xs)) s"
proof -
  have inner: "rfold (\<lambda>p. f (p, i)) ps s = rfold f (map (\<lambda>p. (p, i)) ps) s" for i ps s
  proof (induction ps arbitrary: s)
    case (Cons p ps)
    then show ?case by (cases "f (p, i) s") simp_all
  qed simp
  show ?thesis
  proof (induction xs arbitrary: s)
    case (Cons x xs)
    then show ?case
      by (cases "rfold f (map (\<lambda>p. (p, x)) (h x)) s") (simp_all add: rfold_append inner)
  qed simp
qed

definition attack_step :: "int list \<Rightarrow> int list \<Rightarrow> AAF \<Rightarrow> nat \<times> nat \<Rightarrow>
    ipasir \<times> int list \<times> int \<Rightarrow> (ipasir \<times> int list \<times> int) result" where
  "attack_step iv jv A = (\<lambda>(p, i) (s, c, idx).
     rbind (put_lit (number_of_attacks A) idx c) (\<lambda>c.
     let s = sat__addClause2 s (- idx) (iv ! p); s = sat__addClause2 s (- idx) (jv ! i);
         s = sat__addClause3 s idx (- (jv ! i)) (- (iv ! p))
     in Inr (s, c, idx + 1)))"

lemma attack_loop_flat:
  "rfold (attack_arg iv jv A) [0..<number_of_arguments A] st = rfold (attack_step iv jv A) (attack_list A) st"
proof -
  have "attack_arg iv jv A = (\<lambda>i. rfold (\<lambda>p. attack_step iv jv A (p, i)) (parents A ! i))"
    by (intro ext) (simp add: attack_arg_def attack_step_def)
  then show ?thesis by (simp only: rfold_nested attack_list_def)
qed

definition attack_cond :: "(nat \<Rightarrow> bool) \<Rightarrow> int \<Rightarrow> nat set \<Rightarrow> nat set \<Rightarrow> (nat \<times> nat) list \<Rightarrow> bool" where
  "attack_cond v off I J ps \<longleftrightarrow>
     (\<forall>k<length ps. lit_true v (off + int k) \<longleftrightarrow> fst (ps ! k) \<in> I \<and> snd (ps ! k) \<in> J)"

lemma attack_cond_snoc:
  "attack_cond v off I J (ps @ [x]) \<longleftrightarrow> attack_cond v off I J ps \<and>
     (lit_true v (off + int (length ps)) \<longleftrightarrow> fst x \<in> I \<and> snd x \<in> J)"
  by (auto simp: attack_cond_def nth_append less_Suc_eq)

lemma add_attackClauses_rok:
  assumes wf: "wf_aaf A" and iv: "vars_ok (number_of_arguments A) iv"
    and jv: "vars_ok (number_of_arguments A) jv" and s: "ready s" and off: "0 < off"
  shows "rok (add_attackClauses s iv jv off A) (\<lambda>s'. adds s s' (\<lambda>v.
    attack_cond v off (true_set v iv) (true_set v jv) (attack_list A) \<and>
    (\<exists>k<number_of_attacks A. lit_true v (off + int k))))"
  unfolding add_attackClauses_def attack_loop_flat
proof (rule rok_bind[OF rok_rfold[where I = "\<lambda>ys (s', c, idx).
    adds s s' (\<lambda>v. attack_cond v off (true_set v iv) (true_set v jv) ys) \<and>
    c = map (\<lambda>k. off + int k) [0..<length ys] \<and> idx = off + int (length ys)"]])
  fix ys x zs st
  assume ps: "attack_list A = ys @ x # zs" and "case st of (s', c, idx) \<Rightarrow>
    adds s s' (\<lambda>v. attack_cond v off (true_set v iv) (true_set v jv) ys) \<and>
    c = map (\<lambda>k. off + int k) [0..<length ys] \<and> idx = off + int (length ys)"
  then obtain s' where st: "st = (s', map (\<lambda>k. off + int k) [0..<length ys], off + int (length ys))"
    and s': "adds s s' (\<lambda>v. attack_cond v off (true_set v iv) (true_set v jv) ys)"
    by (cases st) auto
  obtain p i where x: "x = (p, i)" by (cases x)
  have room: "length ys < number_of_attacks A" using ps length_attack_list[OF wf] by simp
  have "(p, i) \<in> attacks (af_of A)" using ps x by (simp flip: set_attack_list)
  then have b: "p < number_of_arguments A" "i < number_of_arguments A"
    using parent_bound[OF wf] by (auto simp: attacks_af_of)
  define k where "k = off + int (length ys)"
  have k: "k \<noteq> 0" using off by (simp add: k_def)
  have "adds s' (sat__addClause3 (sat__addClause2 (sat__addClause2 s' (- k) (iv ! p)) (- k) (jv ! i))
      k (- (jv ! i)) (- (iv ! p)))
    (\<lambda>v. lit_true v k \<longleftrightarrow> p \<in> true_set v iv \<and> i \<in> true_set v jv)"
    using addsD(1)[OF s'] b vars_nonzero[OF iv] vars_nonzero[OF jv] k
      true_set_iff[OF iv b(1)] true_set_iff[OF jv b(2)]
    by (auto simp: adds_def)
  then show "rok (attack_step iv jv A x st) (\<lambda>(s', c, idx).
    adds s s' (\<lambda>v. attack_cond v off (true_set v iv) (true_set v jv) (ys @ [x])) \<and>
    c = map (\<lambda>k. off + int k) [0..<length (ys @ [x])] \<and> idx = off + int (length (ys @ [x])))"
    using room unfolding attack_step_def x st
    by (auto simp: put_lit_rok Let_def attack_cond_snoc simp flip: k_def intro!: adds_trans[OF s'])
next
  fix st assume "case st of (s', c, idx) \<Rightarrow>
    adds s s' (\<lambda>v. attack_cond v off (true_set v iv) (true_set v jv) (attack_list A)) \<and>
    c = map (\<lambda>k. off + int k) [0..<length (attack_list A)] \<and> idx = off + int (length (attack_list A))"
  then obtain s' idx where st: "st = (s', map (\<lambda>k. off + int k) [0..<number_of_attacks A], idx)"
    and s': "adds s s' (\<lambda>v. attack_cond v off (true_set v iv) (true_set v jv) (attack_list A))"
    by (cases st) (auto simp: length_attack_list[OF wf])
  let ?c = "map (\<lambda>k. off + int k) [0..<number_of_attacks A]"
  have "adds s' (sat__addClause s' ?c (number_of_attacks A)) (\<lambda>v. \<exists>l\<in>set ?c. lit_true v l)"
    using addsD(1)[OF s'] off by (intro adds_clause) auto
  then show "rok (case st of (solver, c, idx) \<Rightarrow>
      if length c < number_of_attacks A then Inl Uninitialised
      else Inr (sat__addClause solver c (number_of_attacks A)))
    (\<lambda>s'. adds s s' (\<lambda>v. attack_cond v off (true_set v iv) (true_set v jv) (attack_list A) \<and>
      (\<exists>k<number_of_attacks A. lit_true v (off + int k))))"
    by (auto simp: st intro!: adds_trans[OF s'])
qed (use s in \<open>auto simp: adds_def attack_cond_def\<close>)

text \<open>In a model of the clauses the first set attacks the second.\<close>

lemma attack_cond_attacks:
  assumes "wf_aaf A" "attack_cond v off I J (attack_list A)" "k < number_of_attacks A" "lit_true v (off + int k)"
  shows "\<exists>a\<in>I. \<exists>b\<in>J. (a, b) \<in> attacks (af_of A)"
proof -
  have k: "k < length (attack_list A)" using assms(1,3) by (simp add: length_attack_list)
  then have "attack_list A ! k \<in> attacks (af_of A)" using nth_mem set_attack_list by blast
  moreover obtain a b where ab: "attack_list A ! k = (a, b)" by (cases "attack_list A ! k")
  moreover have "a \<in> I \<and> b \<in> J" using k ab assms(2,4) by (auto simp: attack_cond_def)
  ultimately show ?thesis by auto
qed

section \<open>Models are extensions\<close>

text \<open>
  The contract of an encoding over in- and out-variables: \<open>cond\<close> is what a model satisfies, \<open>sem\<close> the
  kind of set it describes.  Soundness may leave attacked arguments without the label out;
  completeness supplies the model that labels all of them.
\<close>

definition describes :: "(AAF \<Rightarrow> Labeling \<Rightarrow> nat set \<Rightarrow> nat set \<Rightarrow> nat \<Rightarrow> bool) \<Rightarrow> AAF \<Rightarrow> Labeling \<Rightarrow>
    int list \<Rightarrow> int list \<Rightarrow> (nat set \<Rightarrow> nat set \<Rightarrow> bool) \<Rightarrow> ipasir \<Rightarrow> bool" where
  "describes cond A g iv ov R s \<longleftrightarrow> ready s \<and> (\<forall>v. holds v s \<longleftrightarrow>
     (\<forall>i<number_of_arguments A. cond A g (true_set v iv) (true_set v ov) i) \<and>
     R (true_set v iv) (true_set v ov))"

lemma describesD:
  "describes cond A g iv ov R s \<Longrightarrow> ready s"
  "describes cond A g iv ov R s \<Longrightarrow> holds v s \<longleftrightarrow>
     (\<forall>i<number_of_arguments A. cond A g (true_set v iv) (true_set v ov) i) \<and>
     R (true_set v iv) (true_set v ov)"
  by (simp_all add: describes_def)

lemma describes_adds:
  "describes cond A g iv ov R s \<Longrightarrow> adds s s' C \<Longrightarrow>
   (\<And>v. C v \<longleftrightarrow> R' (true_set v iv) (true_set v ov)) \<Longrightarrow>
   describes cond A g iv ov (\<lambda>I U. R I U \<and> R' I U) s'"
  by (simp add: describes_def adds_def)

lemma describes_cong:
  "describes cond A g iv ov R s \<Longrightarrow>
   (\<And>I U. I \<subseteq> {..<length iv} \<Longrightarrow> U \<subseteq> {..<length ov} \<Longrightarrow> R I U \<longleftrightarrow> R' I U) \<Longrightarrow>
   describes cond A g iv ov R' s"
proof -
  assume d: "describes cond A g iv ov R s"
    and c: "\<And>I U. I \<subseteq> {..<length iv} \<Longrightarrow> U \<subseteq> {..<length ov} \<Longrightarrow> R I U \<longleftrightarrow> R' I U"
  have "true_set v vs \<subseteq> {..<length vs}" for v vs by (auto simp: true_set_def)
  then have "R (true_set v iv) (true_set v ov) \<longleftrightarrow> R' (true_set v iv) (true_set v ov)" for v by (intro c)
  with d show ?thesis unfolding describes_def by (simp only: simp_thms)
qed

lemma describes_clauses:
  "describes cond A g iv ov R s \<Longrightarrow> clauses s' = clauses s \<Longrightarrow> ready s' \<Longrightarrow> describes cond A g iv ov R s'"
  using holds_clauses[of s' s] unfolding describes_def by blast

lemma describes_init:
  "adds (sat__init m) s (\<lambda>v. \<forall>i<number_of_arguments A. cond A g (true_set v iv) (true_set v ov) i) \<Longrightarrow>
   describes cond A g iv ov (\<lambda>_ _. True) s"
  by (simp add: describes_def adds_def)

locale set_encoding =
  fixes cond :: "AAF \<Rightarrow> Labeling \<Rightarrow> nat set \<Rightarrow> nat set \<Rightarrow> nat \<Rightarrow> bool"
    and sem :: "framework \<Rightarrow> nat set \<Rightarrow> bool"
  assumes sound: "wf_aaf A \<Longrightarrow> grounded_labeling A g \<Longrightarrow> I \<subseteq> {..<number_of_arguments A} \<Longrightarrow>
      U \<subseteq> {..<number_of_arguments A} \<Longrightarrow> (\<And>i. i < number_of_arguments A \<Longrightarrow> cond A g I U i) \<Longrightarrow>
      sem (af_of A) I \<and> U \<subseteq> attacked (af_of A) I"
    and complete: "wf_aaf A \<Longrightarrow> grounded_labeling A g \<Longrightarrow> sem (af_of A) E \<Longrightarrow>
      i < number_of_arguments A \<Longrightarrow> cond A g E (attacked (af_of A) E) i"
    and sem_args: "sem (af_of A) E \<Longrightarrow> E \<subseteq> {..<number_of_arguments A}"
begin

lemma model_range:
  "wf_aaf A \<Longrightarrow> grounded_labeling A g \<Longrightarrow> I \<subseteq> {..<number_of_arguments A} \<Longrightarrow>
   U \<subseteq> {..<number_of_arguments A} \<Longrightarrow> (\<And>i. i < number_of_arguments A \<Longrightarrow> cond A g I U i) \<Longrightarrow>
   I \<union> U \<subseteq> range_of (af_of A) I"
  using sound[of A g I U] by (auto simp: range_of_def)

text \<open>A model exists for an extension, with distinct variables, and it labels its whole range.\<close>

lemma model_exists:
  assumes wf: "wf_aaf A" and g: "grounded_labeling A g" and E: "sem (af_of A) E"
    and iv: "vars_ok (number_of_arguments A) iv" and ov: "vars_ok (number_of_arguments A) ov"
    and dist: "distinct (iv @ ov)"
  shows "\<exists>v. true_set v iv = E \<and> true_set v ov = attacked (af_of A) E \<and>
    (\<forall>i<number_of_arguments A. cond A g (true_set v iv) (true_set v ov) i)"
proof -
  let ?n = "number_of_arguments A"
  have len: "length iv = ?n" "length ov = ?n" using iv ov by (simp_all add: vars_ok_def)
  obtain v where v: "\<forall>k<length (iv @ ov). lit_true v ((iv @ ov) ! k) \<longleftrightarrow>
      (if k < ?n then k \<in> E else k - ?n \<in> attacked (af_of A) E)"
    using valuation_exists[OF dist, of "\<lambda>k. if k < ?n then k \<in> E else k - ?n \<in> attacked (af_of A) E"] iv ov
    by (auto simp: vars_ok_def)
  have "lit_true v (iv ! k) \<longleftrightarrow> k \<in> E" if "k < ?n" for k
    using v[rule_format, of k] that len by (simp add: nth_append)
  moreover have "lit_true v (ov ! k) \<longleftrightarrow> k \<in> attacked (af_of A) E" if "k < ?n" for k
    using v[rule_format, of "?n + k"] that len by (simp add: nth_append)
  moreover have "attacked (af_of A) E \<subseteq> {..<?n}"
    by (auto simp: attacked_def attacks_af_of)
  ultimately have "true_set v iv = E" "true_set v ov = attacked (af_of A) E"
    using len sem_args[OF E] by (auto simp: true_set_def)
  with complete[OF wf g E] show ?thesis by (intro exI[of _ v]) simp
qed

text \<open>
  One call of the solver under assumptions: a model describes a set of the semantics with the
  additional constraints, and without a model there is no such set.
\<close>

lemma solve:
  assumes wf: "wf_aaf A" and g: "grounded_labeling A g" and ips: "oracle_ok ips"
    and iv: "vars_ok (number_of_arguments A) iv" and ov: "vars_ok (number_of_arguments A) ov"
    and dist: "distinct (iv @ ov)"
    and s: "describes cond A g iv ov R s"
    and assm: "\<And>v. assuming v s \<longleftrightarrow> Q (true_set v iv) (true_set v ov)"
    and sat: "\<And>s' v I U. I = true_set v iv \<Longrightarrow> U = true_set v ov \<Longrightarrow> sem (af_of A) I \<Longrightarrow>
      U \<subseteq> attacked (af_of A) I \<Longrightarrow> R I U \<Longrightarrow> Q I U \<Longrightarrow> model_is s' v \<Longrightarrow>
      describes cond A g iv ov R s' \<Longrightarrow> assumed s' = [] \<Longrightarrow> holds v s' \<Longrightarrow> P (10, s')"
    and unsat: "\<And>s'. (\<And>E. sem (af_of A) E \<Longrightarrow> \<not> (R E (attacked (af_of A) E) \<and> Q E (attacked (af_of A) E))) \<Longrightarrow>
      describes cond A g iv ov R s' \<Longrightarrow> assumed s' = [] \<Longrightarrow> P (20, s')"
  shows "rok (sat__solve ips s) P"
proof (rule rok_solve[OF ips describesD(1)[OF s]])
  fix s' v
  assume h: "holds v s" and a: "assuming v s" and s': "ready s'" "assumed s' = []" "clauses s' = clauses s"
    and m: "model_is s' v"
  let ?I = "true_set v iv" and ?U = "true_set v ov"
  have C: "\<And>i. i < number_of_arguments A \<Longrightarrow> cond A g ?I ?U i" and R: "R ?I ?U"
    using h describesD(2)[OF s] by blast+
  have "?I \<subseteq> {..<number_of_arguments A}" "?U \<subseteq> {..<number_of_arguments A}"
    using true_set_bound[OF iv] true_set_bound[OF ov] by auto
  from sound[OF wf g this C] have "sem (af_of A) ?I" "?U \<subseteq> attacked (af_of A) ?I" by auto
  then show "P (10, s')"
    using R a assm m s'(2) describes_clauses[OF s s'(3,1)] h holds_clauses[OF s'(3)] by (intro sat) auto
next
  fix s'
  assume no: "\<And>v. holds v s \<Longrightarrow> \<not> assuming v s"
    and s': "ready s'" "assumed s' = []" "clauses s' = clauses s"
  show "P (20, s')"
  proof (rule unsat[OF _ describes_clauses[OF s s'(3,1)] s'(2)])
    fix E assume "sem (af_of A) E"
    from model_exists[OF wf g this iv ov dist] obtain v where
      v: "true_set v iv = E" "true_set v ov = attacked (af_of A) E"
        "\<forall>i<number_of_arguments A. cond A g (true_set v iv) (true_set v ov) i" by blast
    with no[of v] describesD(2)[OF s, of v] assm[of v]
    show "\<not> (R E (attacked (af_of A) E) \<and> Q E (attacked (af_of A) E))" by auto
  qed
qed

end

definition adm_sem :: "framework \<Rightarrow> nat set \<Rightarrow> bool" where
  "adm_sem F E \<longleftrightarrow> admissible F E \<and> grounded_ext F \<subseteq> E"

lemma grounded_attacks:
  "wf_aaf A \<Longrightarrow> i \<in> attacked (af_of A) (grounded_ext (af_of A)) \<Longrightarrow> i < number_of_arguments A \<and>
   (\<exists>p\<in>set (parents A ! i). p \<in> grounded_ext (af_of A))"
  by (auto simp: attacked_def attacks_af_of)

lemma grounded_parents_out:
  "i \<in> grounded_ext (af_of A) \<Longrightarrow> p \<in> set (parents A ! i) \<Longrightarrow>
   p \<in> attacked (af_of A) (grounded_ext (af_of A))"
  using grounded_defence[of i "af_of A" p] grounded_args[of i "af_of A"]
  by (auto simp: attacked_def attacks_af_of)

text \<open>The part of the soundness proof shared by the admissible and the complete encoding.\<close>

lemma adm_cond_sound:
  assumes wf: "wf_aaf A" and g: "grounded_labeling A g"
    and I: "I \<subseteq> {..<number_of_arguments A}" and U: "U \<subseteq> {..<number_of_arguments A}"
    and C: "\<And>i. i < number_of_arguments A \<Longrightarrow> adm_cond A g I U i"
  shows "adm_sem (af_of A) I \<and> U \<subseteq> attacked (af_of A) I"
proof -
  let ?F = "af_of A" and ?G = "grounded_ext (af_of A)"
  note gin = grounded_labelingD(1)[OF g] and gout = grounded_labelingD(2)[OF g]
  have disj: "i \<notin> U" if "i \<in> I" for i using C[of i] I that by (auto simp: adm_cond_def)
  have G: "?G \<subseteq> I"
  proof
    fix i assume "i \<in> ?G"
    moreover from this have "i < number_of_arguments A" using grounded_args by fastforce
    ultimately show "i \<in> I" using C[of i] gin by (simp add: adm_cond_def)
  qed
  have parents_out: "p \<in> U" if "i \<in> I" "p \<in> set (parents A ! i)" for i p
  proof -
    have i: "i < number_of_arguments A" using that(1) I by auto
    then have p: "p < number_of_arguments A" using parent_bound[OF wf] that(2) by blast
    show ?thesis
    proof (cases "i \<in> ?G")
      case True
      then have po: "p \<in> attacked ?F ?G" using grounded_parents_out that(2) by blast
      then have "p \<notin> ?G" using grounded_conflict_free by (fastforce simp: attacked_def)
      with po p C[of p] gin gout show ?thesis by (simp add: adm_cond_def)
    next
      case False
      moreover have "i \<notin> attacked ?F ?G"
        using C[OF i] False disj[OF that(1)] gin[OF i] gout[OF i] by (auto simp: adm_cond_def)
      ultimately show ?thesis
        using C[OF i] that gin[OF i] gout[OF i] by (auto simp: adm_cond_def)
    qed
  qed
  have out: "\<exists>p\<in>set (parents A ! i). p \<in> I" if "i \<in> U" for i
  proof -
    have i: "i < number_of_arguments A" using that U by auto
    show ?thesis
    proof (cases "i \<in> attacked ?F ?G")
      case True
      then show ?thesis using grounded_attacks[OF wf] G by blast
    next
      case False
      moreover have "i \<notin> ?G" using G disj that by blast
      ultimately show ?thesis using C[OF i] that gin[OF i] gout[OF i] by (auto simp: adm_cond_def)
    qed
  qed
  have "conflict_free ?F I"
    using I parents_out disj by (auto simp: conflict_free_def attacks_af_of)
  moreover have "defends ?F I i" if "i \<in> I" for i
    using parents_out[OF that] out U by (fastforce simp: defends_def attacks_af_of)
  ultimately have "admissible ?F I" by (simp add: admissible_def)
  moreover have "U \<subseteq> attacked ?F I"
    using out U by (fastforce simp: attacked_def attacks_af_of)
  ultimately show ?thesis using G by (simp add: adm_sem_def)
qed

text \<open>What an extension that contains the grounded extension makes true.\<close>

lemma grounded_cases:
  assumes wf: "wf_aaf A" and g: "grounded_labeling A g" and i: "i < number_of_arguments A"
    and G: "grounded_ext (af_of A) \<subseteq> E"
  shows "bit_at (lab_in g) i \<Longrightarrow> i \<in> E" and "bit_at (lab_out g) i \<Longrightarrow> i \<in> attacked (af_of A) E"
  using G grounded_labelingD(1,2)[OF g i] by (auto simp: attacked_def)

lemma admissible_labels:
  assumes wf: "wf_aaf A" and E: "admissible (af_of A) E" and i: "i < number_of_arguments A"
  shows "i \<in> E \<Longrightarrow> i \<notin> attacked (af_of A) E"
    and "i \<in> E \<Longrightarrow> set (parents A ! i) \<subseteq> attacked (af_of A) E"
    and "i \<in> attacked (af_of A) E \<longleftrightarrow> (\<exists>p\<in>set (parents A ! i). p \<in> E)"
    and "set (parents A ! i) \<subseteq> attacked (af_of A) E \<longleftrightarrow> defends (af_of A) E i"
proof -
  show "i \<in> E \<Longrightarrow> i \<notin> attacked (af_of A) E"
    using admissible_cf[OF E] by (auto simp: attacked_def)
  show D: "set (parents A ! i) \<subseteq> attacked (af_of A) E \<longleftrightarrow> defends (af_of A) E i"
    using i by (simp add: defends_def attacked_def attacks_af_of Image_iff subset_iff Bex_def)
  show "i \<in> E \<Longrightarrow> set (parents A ! i) \<subseteq> attacked (af_of A) E"
    using E D by (simp add: admissible_def)
  show "i \<in> attacked (af_of A) E \<longleftrightarrow> (\<exists>p\<in>set (parents A ! i). p \<in> E)"
    using i by (auto simp: attacked_def attacks_af_of)
qed

interpretation adm: set_encoding adm_cond adm_sem
proof unfold_locales
  fix A g E i
  assume wf: "wf_aaf A" and g: "grounded_labeling A g" and E: "adm_sem (af_of A) E"
    and i: "i < number_of_arguments A"
  then have adm: "admissible (af_of A) E" and G: "grounded_ext (af_of A) \<subseteq> E"
    by (simp_all add: adm_sem_def)
  show "adm_cond A g E (attacked (af_of A) E) i"
    using admissible_labels[OF wf adm i] grounded_cases[OF wf g i G] by (simp add: adm_cond_def)
next
  show "E \<subseteq> {..<number_of_arguments A}" if "adm_sem (af_of A) E" for A E
    using that admissible_subset[of "af_of A" E] by (simp add: adm_sem_def)
qed (rule adm_cond_sound)

text \<open>The complete encoding strengthens the admissible one; maximality is what it adds.\<close>

lemma com_cond_sound:
  assumes wf: "wf_aaf A" and g: "grounded_labeling A g"
    and I: "I \<subseteq> {..<number_of_arguments A}" and U: "U \<subseteq> {..<number_of_arguments A}"
    and C: "\<And>i. i < number_of_arguments A \<Longrightarrow> com_cond A g I U i"
  shows "complete_ext (af_of A) I \<and> U \<subseteq> attacked (af_of A) I"
proof -
  let ?F = "af_of A"
  have "adm_cond A g I U i" if "i < number_of_arguments A" for i
    using C[OF that] by (auto simp: adm_cond_def com_cond_def split: if_splits)
  then have adm: "admissible ?F I" and sub: "U \<subseteq> attacked ?F I"
    using adm_cond_sound[OF wf g I U] by (simp_all add: adm_sem_def)
  have out: "i \<in> U" if "i \<in> attacked ?F I" for i
  proof -
    have i: "i < number_of_arguments A" and p: "\<exists>p\<in>set (parents A ! i). p \<in> I"
      using that by (auto simp: attacked_def attacks_af_of)
    with that C[OF i] admissible_labels(1)[OF wf adm i] show ?thesis
      by (auto simp: com_cond_def split: if_splits)
  qed
  have "i \<in> I" if "i \<in> args ?F" "defends ?F I i" for i
  proof -
    have i: "i < number_of_arguments A" using that(1) by simp
    have po: "set (parents A ! i) \<subseteq> U"
      using out admissible_labels(4)[OF wf adm i] that(2) by blast
    have "i \<notin> U"
    proof
      assume "i \<in> U"
      then obtain p where "p \<in> I" "(p, i) \<in> attacks ?F" using sub by (auto simp: attacked_def)
      then show False using that(2) admissible_cf[OF adm] by (auto simp: defends_def)
    qed
    with po C[OF i] show ?thesis by (auto simp: com_cond_def split: if_splits)
  qed
  with adm sub show ?thesis by (simp add: complete_ext_def)
qed

interpretation com: set_encoding com_cond complete_ext
proof unfold_locales
  fix A g E i
  assume wf: "wf_aaf A" and g: "grounded_labeling A g" and E: "complete_ext (af_of A) E"
    and i: "i < number_of_arguments A"
  then have adm: "admissible (af_of A) E" and G: "grounded_ext (af_of A) \<subseteq> E"
    by (simp_all add: complete_ext_def grounded_least)
  have "defends (af_of A) E i \<Longrightarrow> i \<in> E" using E i by (simp add: complete_ext_def)
  then show "com_cond A g E (attacked (af_of A) E) i"
    using admissible_labels[OF wf adm i] grounded_cases[OF wf g i G]
    unfolding com_cond_def by metis
next
  show "E \<subseteq> {..<number_of_arguments A}" if "complete_ext (af_of A) E" for A E
    using that admissible_subset[of "af_of A" E] by (simp add: complete_ext_def)
qed (rule com_cond_sound)

interpretation cf: set_encoding cf_cond conflict_free
proof unfold_locales
  fix A g I U
  assume "wf_aaf A" and I: "I \<subseteq> {..<number_of_arguments A}" and U: "U \<subseteq> {..<number_of_arguments A}"
    and C: "\<And>i. i < number_of_arguments A \<Longrightarrow> cf_cond A g I U i"
  show "conflict_free (af_of A) I \<and> U \<subseteq> attacked (af_of A) I"
  proof (intro conjI)
    show "U \<subseteq> attacked (af_of A) I"
    proof
      fix i assume "i \<in> U"
      moreover from this U have "i < number_of_arguments A" by auto
      ultimately show "i \<in> attacked (af_of A) I"
        using C[of i] by (auto simp: cf_cond_def attacked_def attacks_af_of)
    qed
    show "conflict_free (af_of A) I"
      unfolding conflict_free_def
    proof (intro conjI ballI)
      fix a b assume ab: "a \<in> I" "b \<in> I"
      with I have "b < number_of_arguments A" by auto
      with ab C[of b] show "(a, b) \<notin> attacks (af_of A)"
        by (auto simp: cf_cond_def attacks_af_of)
    qed (use I in simp)
  qed
next
  fix A g E i
  assume E: "conflict_free (af_of A) E" and i: "i < number_of_arguments A"
  have "i \<in> attacked (af_of A) E \<longleftrightarrow> (\<exists>p\<in>set (parents A ! i). p \<in> E)"
    using i by (auto simp: attacked_def attacks_af_of)
  moreover have "\<not> (i \<in> E \<and> i \<in> attacked (af_of A) E)"
    using E by (auto simp: conflict_free_def attacked_def)
  ultimately show "cf_cond A g E (attacked (af_of A) E) i" by (simp add: cf_cond_def)
qed (simp add: conflict_free_def)

lemma stb_cond_iff:
  assumes wf: "wf_aaf A" and g: "grounded_labeling A g" and I: "I \<subseteq> {..<number_of_arguments A}"
  shows "(\<forall>i<number_of_arguments A. stb_cond A g I i) \<longleftrightarrow> stable (af_of A) I"
proof
  let ?F = "af_of A" and ?n = "number_of_arguments A"
  assume C: "\<forall>i<?n. stb_cond A g I i"
  have "conflict_free ?F I"
    using C I by (auto simp: conflict_free_def attacks_af_of stb_cond_def)
  moreover have "\<exists>b\<in>I. (b, a) \<in> attacks ?F" if a: "a < ?n" "a \<notin> I" for a
  proof -
    have "parents A ! a \<noteq> []"
    proof
      assume "parents A ! a = []"
      then have "a \<in> grounded_ext ?F" using a by (intro groundedI) (auto simp: attacks_af_of)
      with C a grounded_labelingD(1)[OF g a(1)] show False by (auto simp: stb_cond_def)
    qed
    with C a show ?thesis by (auto simp: stb_cond_def attacks_af_of)
  qed
  ultimately show "stable ?F I" by (auto simp: stable_def)
next
  let ?F = "af_of A" and ?n = "number_of_arguments A"
  assume S: "stable ?F I"
  note adm = preferred_admissible[OF stable_preferred[OF wf_af_of[OF wf] S]]
  note G = stable_grounded[OF wf_af_of[OF wf] S]
  show "\<forall>i<?n. stb_cond A g I i"
  proof (intro allI impI)
    fix i assume i: "i < ?n"
    have cf: "i \<in> I \<longrightarrow> (\<forall>p\<in>set (parents A ! i). p \<notin> I)"
      using S i by (auto simp: stable_def conflict_free_def attacks_af_of)
    have at: "i \<in> I \<or> (\<exists>p\<in>set (parents A ! i). p \<in> I)"
      using S i by (auto simp: stable_def attacks_af_of)
    have "bit_at (lab_in g) i \<Longrightarrow> i \<in> I" "bit_at (lab_out g) i \<Longrightarrow> i \<notin> I"
      using grounded_cases[OF wf g i G] admissible_labels(1)[OF wf adm i] by blast+
    with cf at show "stb_cond A g I i" by (simp add: stb_cond_def)
  qed
qed

end
