(* ===== verification/TaskBase.thy ===== *)
theory TaskBase
  imports Encodings
begin

text \<open>
  What the solve functions under tasks/ have in common: the task specification (taas_inout.c), the
  numbering of the SAT variables, reading a model back and printing a set of arguments.  The relation
  \<open>prints_ext\<close> says that a line of output lists exactly the arguments of a set, each once.
\<close>

section \<open>The task specification\<close>

text \<open>A field that the source leaves uninitialised or NULL is \<open>None\<close>.\<close>

record TaskSpecification =
  track :: "string option"
  problem :: string
  file_name :: "string option"
  format :: "string option"
  arg :: int
  argAsString :: "string option"
  additional_keys :: "string list"
  additional_values :: "string option list"

definition query :: "TaskSpecification \<Rightarrow> nat" where
  "query task = nat (arg task)"

section \<open>Variable numbering\<close>

text \<open>The loops that fill \<open>in_vars\<close>, and \<open>in_vars\<close> together with \<open>out_vars\<close>, from a running index.\<close>

definition alloc_vars :: "nat \<Rightarrow> int \<Rightarrow> int list \<times> int" where
  "alloc_vars n idx = fold (\<lambda>i (in_vars, idx). (in_vars @ [idx], idx + 1)) [0..<n] ([], idx)"

definition alloc_in_out :: "nat \<Rightarrow> int \<Rightarrow> int list \<times> int list \<times> int" where
  "alloc_in_out n idx =
     fold (\<lambda>i (in_vars, out_vars, idx). (in_vars @ [idx], out_vars @ [idx + 1], idx + 2))
       [0..<n] ([], [], idx)"

lemma alloc_vars_eq: "alloc_vars n idx = (map (\<lambda>i. idx + int i) [0..<n], idx + int n)"
  unfolding alloc_vars_def by (induction n) (simp_all add: algebra_simps)

lemma alloc_in_out_eq:
  "alloc_in_out n idx =
   (map (\<lambda>i. idx + 2 * int i) [0..<n], map (\<lambda>i. idx + 2 * int i + 1) [0..<n], idx + 2 * int n)"
  unfolding alloc_in_out_def by (induction n) (simp_all add: algebra_simps)

lemma alloc_vars_ok:
  assumes "alloc_vars n idx = (vs, idx')" "0 < idx"
  shows "vars_ok n vs" and "distinct vs" and "set vs \<subseteq> {idx..<idx'}" and "0 < idx'"
  using assms by (auto simp: alloc_vars_eq vars_ok_def distinct_map inj_on_def)

lemma alloc_in_out_ok:
  assumes "alloc_in_out n idx = (iv, ov, idx')" "0 < idx"
  shows "vars_ok n iv" and "vars_ok n ov" and "distinct (iv @ ov)"
    and "set iv \<subseteq> {idx..<idx'}" and "set ov \<subseteq> {idx..<idx'}" and "0 < idx'"
proof -
  have *: "iv = map (\<lambda>i. idx + 2 * int i) [0..<n]" "ov = map (\<lambda>i. idx + 2 * int i + 1) [0..<n]"
      "idx' = idx + 2 * int n"
    using assms(1) by (simp_all add: alloc_in_out_eq)
  show "vars_ok n iv" "vars_ok n ov" "0 < idx'" "set iv \<subseteq> {idx..<idx'}" "set ov \<subseteq> {idx..<idx'}"
    using assms(2) by (auto simp: * vars_ok_def)
  have "idx + 2 * int i \<noteq> idx + 2 * int j + 1" for i j by presburger
  then show "distinct (iv @ ov)" by (auto simp: * distinct_map inj_on_def)
qed

lemmas in_alloc = alloc_vars_ok[OF _ zero_less_one]

lemmas in_out_alloc = alloc_in_out_ok[OF _ zero_less_one]

section \<open>Reading a model and printing a set\<close>

definition newline :: string where
  "newline = [CHR 0x0A]"

definition YES :: string where "YES = ''YES'' @ newline"

definition NO :: string where "NO = ''NO'' @ newline"

text \<open>The loop \<open>if(sat__get(solver,in_vars[i]) > 0) printf(...)\<close>, with what is printed for \<open>i\<close>.\<close>

definition print_model :: "ipasir \<Rightarrow> int list \<Rightarrow> (nat \<Rightarrow> string) \<Rightarrow> nat \<Rightarrow> string result" where
  "print_model solver in_vars pr n =
     rfold (\<lambda>i out. rbind (sat__get solver (in_vars ! i)) (\<lambda>x.
       Inr (if x > 0 then out @ pr i else out))) [0..<n] []"

definition print_name :: "AAF \<Rightarrow> nat \<Rightarrow> string" where
  "print_name aaf i = ids2arguments aaf ! i @ '' ''"

definition print_number :: "nat \<Rightarrow> string" where
  "print_number i = show_nat (i + 1) @ '' ''"

lemma print_model_eq:
  assumes "model_is s v" "vars_ok n vs"
  shows "print_model s vs pr n = Inr (concat (map pr (filter (\<lambda>i. i \<in> true_set v vs) [0..<n])))"
proof -
  have "print_model s vs pr n =
      Inr (fold (\<lambda>i out. if i \<in> true_set v vs then out @ pr i else out) [0..<n] [])"
    unfolding print_model_def
    by (rule rfold_Inr) (use assms in \<open>simp add: sat__get_model vars_pos true_set_iff\<close>)
  moreover have "fold (\<lambda>i out. if P i then out @ pr i else out) xs out = out @ concat (map pr (filter P xs))"
    for P xs out
    by (induction xs arbitrary: out) auto
  ultimately show ?thesis by simp
qed

definition witness_line :: "(nat \<Rightarrow> string) \<Rightarrow> nat list \<Rightarrow> string" where
  "witness_line pr xs = ''w '' @ concat (map pr xs) @ newline"

definition lists_set :: "(nat \<Rightarrow> string) \<Rightarrow> nat set \<Rightarrow> string \<Rightarrow> bool" where
  "lists_set pr E out \<longleftrightarrow> (\<exists>xs. distinct xs \<and> set xs = E \<and> out = witness_line pr xs)"

definition prints_ext :: "AAF \<Rightarrow> nat set \<Rightarrow> string \<Rightarrow> bool" where
  "prints_ext aaf E out \<longleftrightarrow> lists_set (print_name aaf) E out \<or>
     (\<exists>xs. distinct xs \<and> set xs = E \<and>
        out = ''w '' @ join '' '' (map (\<lambda>i. ids2arguments aaf ! i) xs) @ newline)"

lemma lists_set_filter:
  "E \<subseteq> {..<n} \<Longrightarrow> lists_set pr E (witness_line pr (filter (\<lambda>i. i \<in> E) [0..<n]))"
  unfolding lists_set_def by (intro exI[of _ "filter (\<lambda>i. i \<in> E) [0..<n]"]) auto

lemma true_set_subset: "vars_ok n vs \<Longrightarrow> true_set v vs \<subseteq> {..<n}"
  using true_set_bound by blast

lemma print_model_lists:
  assumes "model_is s v" "vars_ok n vs"
  shows "rok (print_model s vs pr n) (\<lambda>out. lists_set pr (true_set v vs) (''w '' @ out @ newline))"
  using lists_set_filter[OF true_set_subset[OF assms(2)], of pr v]
  by (simp add: print_model_eq[OF assms] witness_line_def)

lemma prints_raset:
  "raset_inv s \<Longrightarrow> prints_ext A (raset_set s) (raset__print_i23 s (ids2arguments A))"
  unfolding prints_ext_def lists_set_def
  by (intro disjI1 exI[of _ "raset_list s"])
    (simp add: raset__print_i23_eq raset_inv_def raset_set_def witness_line_def newline_def print_name_def[abs_def])

text \<open>Printing the grounded labeling with \<open>printf("%s\n", ...)\<close>.\<close>

definition print_labeling :: "Labeling \<Rightarrow> AAF \<Rightarrow> string result" where
  "print_labeling lab aaf = rbind (taas__lab_print_i23 lab aaf) (\<lambda>out. Inr (out @ newline))"

lemma prints_grounded:
  assumes g: "grounded_labeling A g" and "names_fit 99 A (grounded_ext (af_of A))"
  shows "rok (print_labeling g A) (prints_ext A (grounded_ext (af_of A)))"
proof -
  have "wf_bitset (lab_in g)" using grounded_labelingD(3)[OF g] by (simp add: wf_labeling_def)
  then have "rok (taas__lab_print_i23 g A)
      (\<lambda>out. out = ''w '' @ join '' '' (map (\<lambda>i. ids2arguments A ! i) (printed g)))"
    using assms(2) by (intro lab_print_i23_rok) (simp_all add: grounded_bits(1)[OF g])
  moreover have "set (printed g) = grounded_ext (af_of A)" "distinct (printed g)"
    using grounded_args[of _ "af_of A"] by (auto simp: grounded_bits(2)[OF g])
  ultimately show ?thesis
    unfolding print_labeling_def prints_ext_def by (intro rok_rbind) (auto elim!: rok_weaken)
qed

section \<open>Solvers that enumerate sets\<close>

text \<open>
  The relation behind the proofs of all solve functions: projected to the variables \<open>iv\<close>, the models
  of the clauses in a solver are exactly the sets in \<open>X\<close>.
\<close>

definition models :: "ipasir \<Rightarrow> int list \<Rightarrow> nat set set \<Rightarrow> bool" where
  "models s iv X \<longleftrightarrow> ready s \<and> (\<forall>v. holds v s \<longrightarrow> true_set v iv \<in> X) \<and>
     (\<forall>E\<in>X. \<exists>v. holds v s \<and> true_set v iv = E)"

lemma models_ready: "models s iv X \<Longrightarrow> ready s"
  by (simp add: models_def)

lemma models_cong: "models s iv X \<Longrightarrow> X = Y \<Longrightarrow> models s iv Y"
  by simp

lemma models_frame:
  assumes "models s iv X" "clauses s' = clauses s" "ready s'"
  shows "models s' iv X"
  using assms(1,3) holds_clauses[OF assms(2)] unfolding models_def by simp

lemma models_subset: "models s iv X \<Longrightarrow> E \<in> X \<Longrightarrow> E \<subseteq> {..<length iv}"
  by (auto simp: models_def true_set_def)

lemma models_witness: "models s iv X \<Longrightarrow> E \<in> X \<Longrightarrow> \<exists>v. holds v s \<and> true_set v iv = E"
  by (simp add: models_def)

lemma models_adds:
  assumes "models s iv X" "adds s s' C" "\<And>v. C v \<longleftrightarrow> R (true_set v iv)"
  shows "models s' iv {E \<in> X. R E}"
  unfolding models_def
proof (intro conjI allI impI ballI)
  show "ready s'" by (rule addsD(1)[OF assms(2)])
  fix v assume "holds v s'"
  then show "true_set v iv \<in> {E \<in> X. R E}"
    using assms(1) addsD(3)[OF assms(2)] assms(3) unfolding models_def by blast
next
  fix E assume E: "E \<in> {E \<in> X. R E}"
  then obtain v where "holds v s" "true_set v iv = E" using assms(1) unfolding models_def by blast
  with E show "\<exists>v. holds v s' \<and> true_set v iv = E"
    using addsD(3)[OF assms(2)] assms(3) by blast
qed

text \<open>One call of the solver, under assumptions on the enumerated sets.\<close>

lemma solve_models:
  assumes ips: "oracle_ok ips" and s: "models s iv X"
    and assm: "\<And>v. assuming v s \<longleftrightarrow> Q (true_set v iv)"
    and sat: "\<And>s' v. true_set v iv \<in> X \<Longrightarrow> Q (true_set v iv) \<Longrightarrow> model_is s' v \<Longrightarrow> models s' iv X \<Longrightarrow>
      assumed s' = [] \<Longrightarrow> P (10, s')"
    and unsat: "\<And>s'. (\<And>E. E \<in> X \<Longrightarrow> \<not> Q E) \<Longrightarrow> models s' iv X \<Longrightarrow> assumed s' = [] \<Longrightarrow> P (20, s')"
  shows "rok (sat__solve ips s) P"
proof (rule rok_solve[OF ips models_ready[OF s]])
  fix s' v
  assume "holds v s" "assuming v s" "ready s'" "assumed s' = []" "clauses s' = clauses s" "model_is s' v"
  then show "P (10, s')"
    using s assm by (intro sat[of v s'] models_frame[OF s]) (auto simp: models_def)
next
  fix s'
  assume no: "\<And>v. holds v s \<Longrightarrow> \<not> assuming v s" and f: "ready s'" "assumed s' = []" "clauses s' = clauses s"
  have "\<not> Q E" if E: "E \<in> X" for E
  proof -
    obtain v where "holds v s" "true_set v iv = E" using s E unfolding models_def by blast
    with no[of v] assm[of v] show ?thesis by simp
  qed
  then show "P (20, s')" using f by (intro unsat models_frame[OF s])
qed

lemma assuming_none: "assumed s = [] \<Longrightarrow> assuming v s"
  by (simp add: assuming_def)

text \<open>The sets that an encoding enumerates.\<close>

context set_encoding
begin

lemma describes_models:
  assumes wf: "wf_aaf A" and g: "grounded_labeling A g"
    and iv: "vars_ok (number_of_arguments A) iv" and ov: "vars_ok (number_of_arguments A) ov"
    and dist: "distinct (iv @ ov)" and s: "describes cond A g iv ov (\<lambda>_ _. True) s"
  shows "models s iv {E. sem (af_of A) E}"
  unfolding models_def
proof (intro conjI allI impI ballI)
  show "ready s" by (rule describesD(1)[OF s])
  fix v assume "holds v s"
  then have C: "\<And>i. i < number_of_arguments A \<Longrightarrow> cond A g (true_set v iv) (true_set v ov) i"
    using describesD(2)[OF s] by simp
  show "true_set v iv \<in> {E. sem (af_of A) E}"
    using sound[OF wf g true_set_subset[OF iv] true_set_subset[OF ov] C] by simp
next
  fix E assume "E \<in> {E. sem (af_of A) E}"
  then have E: "sem (af_of A) E" by simp
  show "\<exists>v. holds v s \<and> true_set v iv = E"
    using model_exists[OF wf g E iv ov dist] describesD(2)[OF s] by auto
qed

lemma models_init:
  assumes "wf_aaf A" "grounded_labeling A g" "vars_ok (number_of_arguments A) iv"
    "vars_ok (number_of_arguments A) ov" "distinct (iv @ ov)"
    and "adds (sat__init m) s (\<lambda>v. \<forall>i<number_of_arguments A. cond A g (true_set v iv) (true_set v ov) i)"
  shows "models s iv {E. sem (af_of A) E}"
  by (rule describes_models[OF assms(1-5) describes_init[where cond = cond, OF assms(6)]])

end

section \<open>Clauses and assumptions from a model\<close>

text \<open>The loops that collect the variables that are false in the current model.\<close>

definition false_vars :: "nat \<Rightarrow> ipasir \<Rightarrow> int list \<Rightarrow> nat \<Rightarrow> int list result" where
  "false_vars cap solver in_vars n =
     rfold (\<lambda>i clause. rbind (sat__get solver (in_vars ! i)) (\<lambda>x.
       if x < 0 then put_lit cap (in_vars ! i) clause else Inr clause)) [0..<n] []"

definition others :: "int list \<Rightarrow> nat set \<Rightarrow> int list" where
  "others iv E = map (\<lambda>i. iv ! i) (filter (\<lambda>i. i \<notin> E) [0..<length iv])"

lemma others_nonzero: "vars_ok n iv \<Longrightarrow> \<forall>l\<in>set (others iv E). l \<noteq> 0"
  by (auto simp: others_def vars_ok_def dest!: nth_mem)

lemma others_true: "vars_ok n iv \<Longrightarrow> (\<exists>l\<in>set (others iv E). lit_true v l) \<longleftrightarrow> \<not> true_set v iv \<subseteq> E"
  by (auto simp: others_def true_set_def)

lemma others_empty: "vars_ok n iv \<Longrightarrow> others iv E = [] \<longleftrightarrow> {..<n} \<subseteq> E"
  by (auto simp: others_def vars_ok_def filter_empty_conv)

lemma length_others: "length (others iv E) \<le> length iv"
  unfolding others_def by (metis length_filter_le length_map length_upt minus_nat.diff_0)

text \<open>Appending to a buffer that is as long as the number of arguments never overruns it.\<close>

lemma put_lit_filter:
  assumes "n \<le> cap"
  shows "rfold (\<lambda>i clause. if P i then put_lit cap (f i) clause else Inr clause) [0..<n] [] =
    Inr (map f (filter P [0..<n]))"
  using assms
proof (induction n)
  case (Suc n)
  have "length (filter P [0..<n]) \<le> n" using length_filter_le[of P "[0..<n]"] by simp
  then have "length (map f (filter P [0..<n])) < cap" using Suc.prems by simp
  with Suc show ?case by (simp add: rfold_append put_lit_def)
qed simp

lemma false_vars_eq:
  assumes m: "model_is s v" and iv: "vars_ok n iv" and cap: "n \<le> cap"
  shows "false_vars cap s iv n = Inr (others iv (true_set v iv))"
proof -
  have "rfold (\<lambda>i clause. rbind (sat__get s (iv ! i)) (\<lambda>x.
      if x < 0 then put_lit cap (iv ! i) clause else Inr clause)) xs c =
    rfold (\<lambda>i clause. if i \<notin> true_set v iv then put_lit cap (iv ! i) clause else Inr clause) xs c"
    if "set xs \<subseteq> {..<n}" for xs c
    using that
  proof (induction xs arbitrary: c)
    case (Cons x xs)
    then have "x < n" by simp
    with m iv have "sat__get s (iv ! x) = Inr (val_of v (iv ! x))" "val_of v (iv ! x) < 0 \<longleftrightarrow> x \<notin> true_set v iv"
      by (simp_all add: sat__get_model vars_pos true_set_iff)
    with Cons show ?case
      by (cases "put_lit cap (iv ! x) c") auto
  qed simp
  from this[of "[0..<n]" "[]"] show ?thesis
    using put_lit_filter[OF cap, of "\<lambda>i. i \<notin> true_set v iv" "\<lambda>i. iv ! i"] iv
    by (simp add: false_vars_def others_def vars_ok_def atLeast0LessThan)
qed

text \<open>Adding the collected clause excludes the subsets of the current set.\<close>

lemma models_block:
  assumes s: "models s iv X" and iv: "vars_ok n iv"
  shows "models (sat__addClause s (others iv E) (length (others iv E))) iv {E' \<in> X. \<not> E' \<subseteq> E}"
  by (rule models_adds[OF s adds_clause[OF models_ready[OF s] others_nonzero[OF iv] refl]])
    (rule others_true[OF iv])

lemma models_in:
  assumes s: "models s iv X" and iv: "vars_ok n iv" and i: "i < n"
  shows "models (sat__addClause1 s (iv ! i)) iv {E \<in> X. i \<in> E}"
  using iv i by (intro models_adds[OF s adds_clause1[OF models_ready[OF s]]]) (auto simp: true_set_iff)

text \<open>Literals added one by one, closed by a zero.\<close>

lemma adds_lits:
  assumes s: "ready s" and f: "\<forall>x\<in>set xs. P x \<longrightarrow> f x \<noteq> 0"
  shows "adds s (sat__add (fold (\<lambda>x s. if P x then sat__add s (f x) else s) xs s) 0)
    (\<lambda>v. \<exists>x\<in>set xs. P x \<and> lit_true v (f x))"
  using fold_sat__add[OF f, of s] s by (auto simp: adds_def ready_def[of s])

text \<open>The membership assumption of the DC and DS tasks.\<close>

lemma assuming_in:
  "vars_ok n iv \<Longrightarrow> i < n \<Longrightarrow> assumed s = [] \<Longrightarrow> assuming v (sat__assume s (iv ! i)) \<longleftrightarrow> i \<in> true_set v iv"
  by (simp add: assuming_def true_set_iff)

lemma assuming_not_in:
  "vars_ok n iv \<Longrightarrow> i < n \<Longrightarrow> assumed s = [] \<Longrightarrow>
   assuming v (sat__assume s (- (iv ! i))) \<longleftrightarrow> i \<notin> true_set v iv"
  by (simp add: assuming_def true_set_iff)

lemma models_assume: "models s iv X \<Longrightarrow> models (sat__assume s l) iv X"
  by (simp add: models_def)

section \<open>Counting loops\<close>

text \<open>
  The shape of the loops of CE-ST and CE-CO: solve, count, add a clause made from the model, until
  the clause is empty or there is no model.
\<close>

definition count_loop ::
    "sat_oracle \<Rightarrow> (ipasir \<Rightarrow> int list result) \<Rightarrow> ipasir \<times> nat \<Rightarrow> (ipasir \<times> nat, nat) step result" where
  "count_loop ips mk = (\<lambda>(s, cnt).
     rbind (sat__solve ips s) (\<lambda>(sat, s).
     if sat = 10 then
       let cnt = cnt + 1
       in rbind (mk s) (\<lambda>clause.
          if length clause = 0 then Inr (Break cnt)
          else Inr (Continue (sat__addClause s clause (length clause), cnt)))
     else Inr (Break cnt)))"

text \<open>
  When the clause excludes the current set and nothing else that the solver enumerates, the loop
  counts the enumerated sets, in one round more than there are sets.
\<close>

lemma count_loop_rok:
  assumes ips: "oracle_ok ips" and fin: "finite S"
    and mk: "\<And>s v. model_is s v \<Longrightarrow> mk s = Inr (cl (true_set v iv))"
    and nz: "\<And>E. \<forall>l\<in>set (cl E). l \<noteq> 0"
    and tr: "\<And>v E. (\<exists>l\<in>set (cl E). lit_true v l) \<longleftrightarrow> \<not> blk (true_set v iv) E"
    and blk: "\<And>E E'. E \<in> S \<Longrightarrow> E' \<in> S \<Longrightarrow> blk E' E \<longleftrightarrow> E' = E"
    and s: "models s iv S" "assumed s = []" and fuel: "card S < fuel"
  shows "rok (rloop fuel (count_loop ips mk) (s, 0)) (\<lambda>r. r = card S)"
proof -
  define inv where "inv = (\<lambda>(s, cnt). \<exists>X\<subseteq>S. models s iv (S - X) \<and> assumed s = [] \<and> cnt = card X)"
  show ?thesis
  proof (rule rok_rloop[where I = inv and \<mu> = "\<lambda>(s, cnt). card S - cnt"])
    show "inv (s, 0)" unfolding inv_def using s by (auto intro!: exI[of _ "{}"])
    show "(case (s, 0) of (s, cnt) \<Rightarrow> card S - cnt) < fuel" using fuel by simp
  next
    fix st assume "inv st"
    then obtain s X where st: "st = (s, card X)" and X: "X \<subseteq> S" and s: "models s iv (S - X)" "assumed s = []"
      unfolding inv_def by auto
    have finX: "finite X" using X fin finite_subset by blast
    show "rok (count_loop ips mk st) (\<lambda>t. case t of
        Continue s' \<Rightarrow> inv s' \<and> (case s' of (s, cnt) \<Rightarrow> card S - cnt) < (case st of (s, cnt) \<Rightarrow> card S - cnt)
      | Break r \<Rightarrow> r = card S)"
      unfolding count_loop_def st prod.case
    proof (rule rok_rbind, rule solve_models[OF ips s(1), where Q = "\<lambda>_. True"], goal_cases)
      case (2 s' v)
      let ?E = "true_set v iv"
      let ?c = "cl ?E"
      have new: "card (insert ?E X) = Suc (card X)" and le: "card (insert ?E X) \<le> card S"
        using 2(1) X finX card_mono[OF fin, of "insert ?E X"] by auto
      have only: "{E' \<in> S - X. \<not> blk E' ?E} = S - insert ?E X" using blk[of ?E] 2(1) by blast
      have blkd: "models (sat__addClause s' ?c (length ?c)) iv {E' \<in> S - X. \<not> blk E' ?E}"
        by (rule models_adds[OF 2(4) adds_clause[OF models_ready[OF 2(4)] nz refl] tr])
      have I: "inv (sat__addClause s' ?c (length ?c), Suc (card X))"
        unfolding inv_def
        using blkd[unfolded only] 2(5) nz[of ?E] new 2(1) X by (auto intro!: exI[of _ "insert ?E X"])
      have last: "Suc (card X) = card S" if "?c = []"
      proof -
        have "blk E' ?E" if E': "E' \<in> S - X" for E'
        proof -
          obtain v' where "true_set v' iv = E'" using models_witness[OF s(1) E'] by blast
          with tr[of ?E v'] \<open>?c = []\<close> show ?thesis by simp
        qed
        then have "S = insert ?E X" using blk[of ?E] 2(1) X by blast
        with new show ?thesis by simp
      qed
      show ?case using I last new le by (auto simp: mk[OF 2(3)])
    next
      case (3 s')
      then have "X = S" using X by blast
      then show ?case by simp
    qed (simp add: assuming_none s(2))
  qed
qed

lemma finite_extensions: "(\<And>E. sem E \<Longrightarrow> E \<subseteq> {..<n}) \<Longrightarrow> finite {E :: nat set. sem E}"
  by (rule finite_subset[of _ "Pow {..<n}"]) auto

section \<open>Sets collected from a model\<close>

text \<open>Loops over the array of a random access set run over its list of elements.\<close>

lemma fold_elements:
  assumes "raset_inv r"
  shows "fold (\<lambda>i. f (elements_arr r ! i)) [0..<number_of_elements r] = fold f (raset_list r)"
  using fold_map[of f "\<lambda>i. elements_arr r ! i" "[0..<number_of_elements r]"]
  by (simp add: raset_array_order[OF assms] comp_def)

lemma raset_list_bound: "raset_inv r \<Longrightarrow> x \<in> set (raset_list r) \<Longrightarrow> x < max_number_of_elements r"
  by (auto simp: raset_inv_def raset_set_def)

text \<open>The loop that puts the arguments that are true in the model into a new set.\<close>

definition true_raset :: "ipasir \<Rightarrow> int list \<Rightarrow> nat \<Rightarrow> RaSet result" where
  "true_raset solver in_vars n =
     rfold (\<lambda>i s. rbind (sat__get solver (in_vars ! i)) (\<lambda>x.
       Inr (if x > 0 then snd (raset__add s i) else s))) [0..<n] (raset__init_empty n)"

definition raset_is :: "nat \<Rightarrow> nat set \<Rightarrow> RaSet \<Rightarrow> bool" where
  "raset_is n E r \<longleftrightarrow> raset_inv r \<and> max_number_of_elements r = n \<and> raset_set r = E"

lemma raset_isD:
  "raset_is n E r \<Longrightarrow> raset_inv r" "raset_is n E r \<Longrightarrow> max_number_of_elements r = n"
  "raset_is n E r \<Longrightarrow> raset_set r = E"
  by (simp_all add: raset_is_def)

lemma raset_is_init: "raset_is n {} (raset__init_empty n)"
  by (simp add: raset_is_def rs.ok_empty)

lemma raset_is_add: "raset_is n E r \<Longrightarrow> i < n \<Longrightarrow> raset_is n (insert i E) (snd (raset__add r i))"
  using rs.ok_add[of r i] by (simp add: raset_is_def)

lemma raset_is_reset: "raset_is n E r \<Longrightarrow> raset_is n {} (raset__reset r)"
  by (simp add: raset_is_def)

lemma raset_is_contains: "raset_is n E r \<Longrightarrow> i < n \<Longrightarrow> raset__contains r i \<longleftrightarrow> i \<in> E"
  using rs.contains_iff[of r i] by (simp add: raset_is_def)

lemma raset_is_subset: "raset_is n E r \<Longrightarrow> E \<subseteq> {..<n}"
  by (auto simp: raset_is_def raset_inv_def)

lemma raset_is_list: "raset_is n E r \<Longrightarrow> set (raset_list r) = E"
  by (simp add: raset_is_def raset_set_def)

lemma raset_is_prints: "raset_is n E r \<Longrightarrow> prints_ext A E (raset__print_i23 r (ids2arguments A))"
  using prints_raset by (auto simp: raset_is_def)

lemma true_raset_rok:
  assumes m: "model_is s v" and iv: "vars_ok n iv"
  shows "rok (true_raset s iv n) (raset_is n (true_set v iv))"
proof -
  have "rok (true_raset s iv n) (raset_is n {i \<in> true_set v iv. i < n})"
    unfolding true_raset_def
  proof (rule rok_for[where I = "\<lambda>k. raset_is n {i \<in> true_set v iv. i < k}"])
    fix i r assume i: "i < n" and r: "raset_is n {j \<in> true_set v iv. j < i} r"
    have "{j \<in> true_set v iv. j < Suc i} = (if i \<in> true_set v iv then insert i else id) {j \<in> true_set v iv. j < i}"
      by (auto simp: less_Suc_eq)
    with r i iv show "rok (rbind (sat__get s (iv ! i)) (\<lambda>x. Inr (if x > 0 then snd (raset__add r i) else r)))
        (raset_is n {j \<in> true_set v iv. j < Suc i})"
      by (auto simp: sat__get_model[OF m] vars_pos true_set_iff raset_is_add)
  qed (simp add: raset_is_init)
  moreover have "{i \<in> true_set v iv. i < n} = true_set v iv" using true_set_subset[OF iv] by blast
  ultimately show ?thesis by simp
qed

end
