(* ===== verification/Inout.thy ===== *)
theory Inout
  imports TaskBase
begin

text \<open>
  taas/taas_inout.c and util/miscutil.c: solver information, the command line, the readers of the
  TGF and the ICCMA 2023 format, and the lookup of the queried argument.  A C string in a buffer ends
  at the first NUL; \<open>trimwhitespace\<close> writes one behind the text it returns, and \<open>getline\<close> reuses its
  buffer, so that the scan for a blank can run into the rest of an earlier line.  The file system is
  a function from paths to contents; opening a missing file yields a null pointer.
  The relation \<open>reads\<close> says which framework a reader has built from the attacks it has seen.  Texts
  printed in either format are read back to the framework they print.
\<close>

section \<open>Strings\<close>

definition NUL :: char where
  "NUL = CHR 0x00"

definition isspace :: "char \<Rightarrow> bool" where
  "isspace c \<longleftrightarrow> (let k = of_char c :: nat in k = 32 \<or> 9 \<le> k \<and> k \<le> 13)"

text \<open>The C string that starts at the beginning of a buffer.\<close>

definition cstr :: "string \<Rightarrow> string" where
  "cstr buf = takeWhile (\<lambda>c. c \<noteq> NUL) buf"

text \<open>\<open>struct StringValuePair\<close> is declared and not used by the program.\<close>

record StringValuePair =
  key_string :: string
  key_value :: int

text \<open>The loop \<open>while(end > str && isspace(*end)) end--\<close>, with \<open>end\<close> relative to \<open>str\<close>.\<close>

fun trim_end :: "string \<Rightarrow> nat \<Rightarrow> nat" where
  "trim_end s 0 = 0"
| "trim_end s (Suc e) = (if isspace (s ! Suc e) then trim_end s e else Suc e)"

text \<open>The result is the offset of the returned pointer and the buffer as it is left behind.\<close>

definition trimwhitespace :: "string \<Rightarrow> nat \<times> string" where
  "trimwhitespace buf =
     (let str = length (takeWhile isspace buf);
          s = cstr (drop str buf)
      in if s = [] then (str, buf)
         else (str, buf[str + trim_end s (length s - 1) + 1 := NUL]))"

text \<open>The call together with the string it returns.\<close>

definition trimmed :: "string \<Rightarrow> string \<times> string" where
  "trimmed buf = (let (str, buf') = trimwhitespace buf in (cstr (drop str buf'), buf'))"

text \<open>\<open>getline\<close> into a buffer that is reused: the line, a NUL, and what was there before.\<close>

definition getline :: "string \<Rightarrow> string \<Rightarrow> string" where
  "getline row line = line @ [NUL] @ drop (length line + 1) row"

text \<open>The successive lines that \<open>getline\<close> delivers, each with its newline.\<close>

fun file_lines :: "string \<Rightarrow> string list" where
  "file_lines [] = []"
| "file_lines (c # cs) =
     (if c = CHR 0x0A then [c] # file_lines cs
      else case file_lines cs of [] \<Rightarrow> [[c]] | l # ls \<Rightarrow> (c # l) # ls)"

text \<open>\<open>while(row[idx] != ' ') idx++\<close>\<close>

definition find_space :: "string \<Rightarrow> nat result" where
  "find_space row =
     (let idx = length (takeWhile (\<lambda>c. c \<noteq> CHR '' '') row)
      in if idx < length row then Inr idx else Inl OutOfBounds)"

text \<open>\<open>atoi\<close>: optional blanks and sign, then digits; a value outside the range of \<open>int\<close> is undefined.\<close>

definition atoi :: "string \<Rightarrow> int result" where
  "atoi s =
     (let s = dropWhile isspace s;
          neg = (case s of [] \<Rightarrow> False | c # _ \<Rightarrow> c = CHR ''-'');
          s = (case s of [] \<Rightarrow> [] | c # s' \<Rightarrow> if c = CHR ''-'' \<or> c = CHR ''+'' then s' else s);
          v = int (digits_val (takeWhile is_digit s));
          v = (if neg then - v else v)
      in if - (2 ^ 31) \<le> v \<and> v < 2 ^ 31 then Inr v else Inl IntOverflow)"

section \<open>Solver information and the command line\<close>

record SolverInformation =
  description :: string
  formats :: string
  problems :: string

definition taas__solverinformation :: "string \<Rightarrow> string \<Rightarrow> string \<Rightarrow> SolverInformation" where
  "taas__solverinformation d f p = \<lparr>description = d, formats = f, problems = p\<rparr>"

text \<open>\<open>argv[++i]\<close>; behind the last argument is a null pointer.\<close>

definition next_arg :: "string list \<Rightarrow> string option" where
  "next_arg rest = (case rest of [] \<Rightarrow> None | v # _ \<Rightarrow> Some v)"

text \<open>
  The loop over the parameters.  \<open>Inl out\<close> is the early exit after printing \<open>out\<close>; \<open>Inr\<close> holds the
  task and the counter \<open>param\<close>.
\<close>

fun cmd_loop ::
    "SolverInformation \<Rightarrow> string list \<Rightarrow> TaskSpecification \<Rightarrow> nat \<Rightarrow> string + TaskSpecification \<times> nat" where
  "cmd_loop info [] task param = Inr (task, param)"
| "cmd_loop info (a # rest) task param =
     (if a = ''-p'' then cmd_loop info (tl rest) (task\<lparr>track := next_arg rest\<rparr>) (param + 1)
      else if a = ''-f'' then cmd_loop info (tl rest) (task\<lparr>file_name := next_arg rest\<rparr>) (param + 1)
      else if a = ''-a'' then cmd_loop info (tl rest) (task\<lparr>argAsString := next_arg rest\<rparr>) param
      else if a = ''-fo'' then cmd_loop info (tl rest) (task\<lparr>format := next_arg rest\<rparr>) (param + 1)
      else if a = ''--formats'' then Inl (formats info @ newline)
      else if a = ''--problems'' then Inl (problems info @ newline)
      else cmd_loop info (tl rest)
             (task\<lparr>additional_keys := additional_keys task @ [a],
                   additional_values := additional_values task @ [next_arg rest]\<rparr>) param)"

definition empty_task :: TaskSpecification where
  "empty_task = \<lparr>track = None, problem = '''', file_name = None, format = None, arg = -1,
     argAsString = None, additional_keys = [], additional_values = []\<rparr>"

text \<open>\<open>None\<close> stands for the NULL result; the string is what has been printed.\<close>

definition taas__cmd_handle ::
    "string list \<Rightarrow> SolverInformation \<Rightarrow> (TaskSpecification option \<times> string) result" where
  "taas__cmd_handle argv info =
     (case cmd_loop info (tl argv) empty_task 0 of
        Inl out \<Rightarrow> Inr (None, out)
      | Inr (task, param) \<Rightarrow>
          if param < 2 then Inr (None, description info @ newline)
          else case track task of
                 None \<Rightarrow> Inl NullPointer
               | Some t \<Rightarrow> if t = [] then Inl OutOfBounds
                   else Inr (Some (task\<lparr>problem := take 2 t, arg := -1\<rparr>), ''''))"

definition taas__task_get_value :: "TaskSpecification \<Rightarrow> string \<Rightarrow> string option" where
  "taas__task_get_value task key =
     (case find (\<lambda>i. additional_keys task ! i = key) [0..<length (additional_keys task)] of
        None \<Rightarrow> None | Some i \<Rightarrow> additional_values task ! i)"

section \<open>Building a framework\<close>

text \<open>The assignments by which both readers enter an argument.\<close>

definition add_argument :: "nat \<Rightarrow> string \<Rightarrow> AAF \<Rightarrow> AAF" where
  "add_argument idx name aaf =
     aaf\<lparr>ids2arguments := (ids2arguments aaf)[idx := name],
         arguments2ids := (arguments2ids aaf)(name \<mapsto> idx),
         children := (children aaf)[idx := []],
         parents := (parents aaf)[idx := []],
         number_of_attackers := (number_of_attackers aaf)[idx := 0]\<rparr>"

text \<open>A bit is in reach of a bit set when its word is allocated.\<close>

definition has_bit :: "BitSet \<Rightarrow> nat \<Rightarrow> bool" where
  "has_bit bs i \<longleftrightarrow> i div WORD_BITS < length (data bs)"

text \<open>The assignments by which both readers enter the attack from \<open>i\<close> to \<open>j\<close>.\<close>

definition add_attack :: "nat \<Rightarrow> nat \<Rightarrow> AAF \<Rightarrow> AAF result" where
  "add_attack i j aaf =
     (if i < length (children aaf) \<and> j < length (parents aaf) \<and> j < length (number_of_attackers aaf) \<and>
         has_bit (initial aaf) j \<and> (i = j \<longrightarrow> has_bit (loops aaf) i)
      then Inr (aaf\<lparr>children := (children aaf)[i := j # children aaf ! i],
                    parents := (parents aaf)[j := i # parents aaf ! j],
                    number_of_attackers :=
                      (number_of_attackers aaf)[j := number_of_attackers aaf ! j + 1],
                    initial := bitset__unset (initial aaf) j,
                    loops := (if i = j then bitset__set (loops aaf) i else loops aaf)\<rparr>)
      else Inl OutOfBounds)"

text \<open>The arrays as they come from \<open>malloc\<close>; the bit sets are set up later.\<close>

definition alloc_aaf :: "nat \<Rightarrow> AAF" where
  "alloc_aaf n = \<lparr>ids2arguments = replicate n [], arguments2ids = Map.empty, number_of_arguments = n,
     number_of_attacks = 0, children = replicate n [], parents = replicate n [],
     number_of_attackers = replicate n 0, initial = bitset__init n, loops = bitset__init n\<rparr>"

definition init_bits :: "nat \<Rightarrow> AAF \<Rightarrow> AAF" where
  "init_bits n aaf =
     aaf\<lparr>number_of_arguments := n, number_of_attacks := 0,
         initial := bitset__setAll (bitset__init n), loops := bitset__unsetAll (bitset__init n)\<rparr>"

section \<open>The TGF reader\<close>

text \<open>The first pass counts the lines before the separator; the buffer is handed on.\<close>

fun tgf_count :: "string list \<Rightarrow> string \<Rightarrow> nat \<Rightarrow> nat \<times> string" where
  "tgf_count [] row idx = (idx, row)"
| "tgf_count (line # rest) row idx =
     (let (t, row) = trimmed (getline row line)
      in if t = '''' then tgf_count rest row idx
         else if t = ''#'' then (idx, row)
         else tgf_count rest row (idx + 1))"

text \<open>\<open>sizeof(trimwhitespace(row))+1\<close>: the size of a pointer, not of the string.\<close>

definition NAME_ALLOC :: nat where
  "NAME_ALLOC = 8 + 1"

text \<open>
  One line of the second pass.  The state is the framework, the buffer, \<open>argumentSection\<close> and \<open>idx\<close>,
  which counts arguments first and is the scan position in the section of the attacks.
\<close>

definition tgf_attack :: "AAF \<Rightarrow> string \<Rightarrow> (AAF \<times> string \<times> bool \<times> nat) result" where
  "tgf_attack aaf row =
     rbind (find_space row) (\<lambda>idx.
       let row = row[idx := NUL]
       in case (arguments2ids aaf (cstr row), arguments2ids aaf (cstr (drop (idx + 1) row))) of
            (Some idx1, Some idx2) \<Rightarrow>
              rbind (add_attack idx1 idx2 (aaf\<lparr>number_of_attacks := number_of_attacks aaf + 1\<rparr>))
                (\<lambda>aaf. Inr (aaf, row, False, idx))
          | _ \<Rightarrow> Inl NullPointer)"

definition tgf_line ::
    "string \<Rightarrow> AAF \<times> string \<times> bool \<times> nat \<Rightarrow> (AAF \<times> string \<times> bool \<times> nat) result" where
  "tgf_line line = (\<lambda>(aaf, row, argumentSection, idx).
     let (t, row) = trimmed (getline row line)
     in if t = '''' then Inr (aaf, row, argumentSection, idx)
        else if t = ''#'' then Inr (init_bits idx aaf, row, False, idx)
        else if argumentSection then
          if NAME_ALLOC < length t + 1 then Inl BufferOverflow
          else if idx < length (ids2arguments aaf)
               then Inr (add_argument idx t aaf, row, argumentSection, idx + 1)
               else Inl OutOfBounds
        else tgf_attack aaf row)"

text \<open>Without a separator line the bit sets and the number of attacks are never written.\<close>

definition taas__readFile_tgf :: "(string \<Rightarrow> string option) \<Rightarrow> string option \<Rightarrow> AAF result" where
  "taas__readFile_tgf fs path =
     (case Option.bind path fs of
        None \<Rightarrow> Inl NullPointer
      | Some content \<Rightarrow>
          let (n, row) = tgf_count (file_lines content) [] 0
          in rbind (rfold tgf_line (file_lines content) (alloc_aaf n, row, True, 0))
               (\<lambda>(aaf, _, argumentSection, _). if argumentSection then Inl Uninitialised else Inr aaf))"

section \<open>The ICCMA 2023 reader\<close>

text \<open>The search for the header line; the result is the count, the lines left, and the buffer.\<close>

fun i23_header :: "string list \<Rightarrow> string \<Rightarrow> (int \<times> string list \<times> string) result" where
  "i23_header [] row = Inl Uninitialised"
| "i23_header (line # rest) row =
     (let (t, row) = trimmed (getline row line)
      in if take 1 t = ''#'' then i23_header rest row
         else if take 4 t = ''p af'' then rbind (atoi (drop 4 t)) (\<lambda>n. Inr (n, rest, row))
         else i23_header rest row)"

text \<open>
  Names are printed with \<open>snprintf\<close> into a buffer of \<open>(int)log10(idx+1) + 2\<close> bytes, which is what the
  decimal digits and the NUL need.
\<close>

definition i23_arguments :: "nat \<Rightarrow> AAF" where
  "i23_arguments n =
     fold (\<lambda>idx. add_argument idx (show_nat (idx + 1))) [0..<n] (init_bits n (alloc_aaf n))"

definition i23_attack :: "AAF \<Rightarrow> string \<Rightarrow> (AAF \<times> string) result" where
  "i23_attack aaf row =
     rbind (find_space row) (\<lambda>idx.
       let row = row[idx := NUL]
       in rbind (atoi (cstr row)) (\<lambda>a. rbind (atoi (cstr (drop (idx + 1) row))) (\<lambda>b.
            if a - 1 < 0 \<or> b - 1 < 0 then Inl OutOfBounds
            else rbind (add_attack (nat (a - 1)) (nat (b - 1))
                         (aaf\<lparr>number_of_attacks := number_of_attacks aaf + 1\<rparr>))
                   (\<lambda>aaf. Inr (aaf, row)))))"

definition i23_line :: "string \<Rightarrow> AAF \<times> string \<Rightarrow> (AAF \<times> string) result" where
  "i23_line line = (\<lambda>(aaf, row).
     let (t, row) = trimmed (getline row line)
     in if t = '''' then Inr (aaf, row)
        else if take 1 t = ''#'' then Inr (aaf, row)
        else i23_attack aaf row)"

text \<open>A negative count makes \<open>malloc\<close> fail or leaves arrays without elements.\<close>

definition taas__readFile_i23 :: "(string \<Rightarrow> string option) \<Rightarrow> string option \<Rightarrow> AAF result" where
  "taas__readFile_i23 fs path =
     (case Option.bind path fs of
        None \<Rightarrow> Inl NullPointer
      | Some content \<Rightarrow>
          rbind (i23_header (file_lines content) []) (\<lambda>(n, rest, row).
            if n < 0 then Inl OutOfBounds
            else rbind (rfold i23_line rest (i23_arguments (nat n), row))
                   (\<lambda>(aaf, _). Inr aaf)))"

section \<open>The queried argument\<close>

definition taas__update_arg_param :: "TaskSpecification \<Rightarrow> AAF \<Rightarrow> TaskSpecification result" where
  "taas__update_arg_param task aaf =
     (if problem task = ''DS'' \<or> problem task = ''DC'' then
        case argAsString task of
          None \<Rightarrow> Inl NullPointer
        | Some s \<Rightarrow> (case arguments2ids aaf (fst (trimmed (s @ [NUL]))) of
              None \<Rightarrow> Inl NullPointer
            | Some i \<Rightarrow> Inr (task\<lparr>arg := int i\<rparr>))
      else Inr task)"

section \<open>What has been read\<close>

text \<open>
  \<open>reads n names atts A\<close>: the framework holds \<open>n\<close> arguments with these names and the attacks \<open>atts\<close>,
  in the order in which they were read; the adjacency lists are built by prepending.
\<close>

definition targets :: "(nat \<times> nat) list \<Rightarrow> nat \<Rightarrow> nat list" where
  "targets atts i = rev (map snd (filter (\<lambda>e. fst e = i) atts))"

definition sources :: "(nat \<times> nat) list \<Rightarrow> nat \<Rightarrow> nat list" where
  "sources atts j = rev (map fst (filter (\<lambda>e. snd e = j) atts))"

definition reads :: "nat \<Rightarrow> string list \<Rightarrow> (nat \<times> nat) list \<Rightarrow> AAF \<Rightarrow> bool" where
  "reads n names atts A \<longleftrightarrow>
     number_of_arguments A = n \<and> number_of_attacks A = length atts \<and>
     ids2arguments A = names \<and> length names = n \<and>
     set atts \<subseteq> {..<n} \<times> {..<n} \<and>
     children A = map (targets atts) [0..<n] \<and> parents A = map (sources atts) [0..<n] \<and>
     number_of_attackers A = map length (parents A) \<and>
     wf_bitset (initial A) \<and> bit_length (initial A) = n \<and>
     bits (initial A) = {..<n} - snd ` set atts \<and>
     wf_bitset (loops A) \<and> bit_length (loops A) = n \<and>
     bits (loops A) = {i. (i, i) \<in> set atts}"

lemma targets_sources [simp]:
  "set (targets atts i) = {j. (i, j) \<in> set atts}"
  "set (sources atts j) = {i. (i, j) \<in> set atts}"
  "targets (atts @ [(i, j)]) = (targets atts)(i := j # targets atts i)"
  "sources (atts @ [(i, j)]) = (sources atts)(j := i # sources atts j)"
  "targets [] = (\<lambda>_. [])"
  "sources [] = (\<lambda>_. [])"
  by (force simp: targets_def sources_def)+

lemma count_targets: "count_list (targets atts i) j = count_list atts (i, j)"
  unfolding targets_def by (induction atts) auto

lemma count_sources: "count_list (sources atts j) i = count_list atts (i, j)"
  unfolding sources_def by (induction atts) auto

lemma update_map_upt: "i < n \<Longrightarrow> (map f [0..<n])[i := x] = map (f(i := x)) [0..<n]"
  by (rule nth_equalityI) (auto simp: nth_list_update)

lemma sum_sources:
  "set atts \<subseteq> {..<n} \<times> {..<n} \<Longrightarrow> (\<Sum>i\<leftarrow>[0..<n]. length (sources atts i)) = length atts"
proof (induction atts rule: rev_induct)
  case (snoc e atts)
  obtain a b where e: "e = (a, b)" by (cases e)
  with snoc.prems have b: "b < n" by simp
  have "(\<Sum>i\<leftarrow>[0..<n]. length (sources (atts @ [e]) i)) =
      (\<Sum>i\<leftarrow>[0..<n]. length (sources atts i) + (if i = b then 1 else 0))"
    by (rule arg_cong[where f = sum_list]) (auto simp: e)
  also have "\<dots> = length atts + (\<Sum>i\<leftarrow>[0..<n]. if i = b then 1 else 0)"
    using snoc by (simp add: sum_list_addf)
  also have "(\<Sum>i\<leftarrow>[0..<n]. if i = b then 1 else 0) = (1 :: nat)"
    using b by (simp add: interv_sum_list_conv_sum_set_nat)
  finally show ?case by simp
qed (simp add: sum_list_0)

lemma distinct_sources: "distinct atts \<Longrightarrow> distinct (sources atts j)"
  by (auto simp: sources_def distinct_map inj_on_def prod_eq_iff)

text \<open>Without repeated attack lines, the result is a well-formed framework with fresh counters.\<close>

lemma reads_wf:
  assumes r: "reads n names atts A" and d: "distinct atts"
  shows "wf_aaf A" and "fresh_aaf A" and "af_of A = \<lparr>args = {..<n}, attacks = set atts\<rparr>"
proof -
  note f = r[unfolded reads_def]
  have le: "length (sources atts i) \<le> n" for i
  proof -
    have "length (sources atts i) = card (set (sources atts i))"
      using distinct_sources[OF d] by (simp only: distinct_card)
    also have "\<dots> \<le> card {..<n}" using f by (intro card_mono) auto
    finally show ?thesis by simp
  qed
  have ch: "set (children A ! i) = {j. (i, j) \<in> set atts}" if "i < n" for i
    using f that by simp
  have pa: "set (parents A ! i) = {a. (a, i) \<in> set atts}" if "i < n" for i
    using f that by force
  have s: "sum_list (map length (parents A)) = length atts"
    using f sum_sources[of atts n] by (simp add: o_def)
  have c: "count_list (children A ! i) j = count_list (parents A ! j) i" if "i < n" "j < n" for i j
    using f that by (simp add: count_targets count_sources)
  have sub: "set atts \<subseteq> {..<n} \<times> {..<n}" using f by blast
  show "wf_aaf A"
    unfolding wf_aaf_def Let_def using f s c ch pa le sub by auto
  have i: "bit_at (initial A) i \<longleftrightarrow> parents A ! i = []" if "i < n" for i
  proof -
    have "bit_at (initial A) i \<longleftrightarrow> i \<in> bits (initial A)" using f that by (simp add: bit_at_bits)
    also have "\<dots> \<longleftrightarrow> set (parents A ! i) = {}" using f that pa[OF that] by force
    finally show ?thesis by simp
  qed
  have l: "bit_at (loops A) i \<longleftrightarrow> i \<in> set (parents A ! i)" if "i < n" for i
    using f that pa[OF that] by (simp add: bit_at_bits)
  show "fresh_aaf A"
    unfolding fresh_aaf_def Let_def using f i l by simp
  show "af_of A = \<lparr>args = {..<n}, attacks = set atts\<rparr>"
    using f pa sub by (auto simp: af_of_def)
qed

section \<open>Entering arguments and attacks\<close>

lemma has_bit_wf: "wf_bitset bs \<Longrightarrow> i < bit_length bs \<Longrightarrow> has_bit bs i"
  by (simp add: has_bit_def word_index_bound)

lemma reads_add_attack:
  assumes r: "reads n names atts A" and "i < n" "j < n"
  shows "rok (add_attack i j (A\<lparr>number_of_attacks := number_of_attacks A + 1\<rparr>))
    (reads n names (atts @ [(i, j)]))"
proof -
  note f = r[unfolded reads_def]
  have "has_bit (initial A) j" "has_bit (loops A) i"
    using f assms by (auto intro!: has_bit_wf)
  then show ?thesis
    using f assms by (auto simp: add_attack_def reads_def update_map_upt o_def fun_upd_def)
qed

text \<open>The check for the bounds is all that can fail, and what succeeds was in bounds.\<close>

lemma add_attack_Inr:
  assumes "reads n names atts A" "add_attack i j (A\<lparr>number_of_attacks := k\<rparr>) = Inr A'"
  shows "i < n" "j < n"
  using assms by (auto simp: add_attack_def reads_def split: if_splits)

definition ids_of :: "string list \<Rightarrow> string \<rightharpoonup> nat" where
  "ids_of names = fold (\<lambda>i m. m(names ! i \<mapsto> i)) [0..<length names] Map.empty"

lemma ids_of_Nil [simp]: "ids_of [] = Map.empty"
  by (simp add: ids_of_def)

lemma ids_of_snoc [simp]: "ids_of (names @ [x]) = (ids_of names)(x \<mapsto> length names)"
proof -
  have "fold (\<lambda>i m. m((names @ [x]) ! i \<mapsto> i)) [0..<length names] Map.empty = ids_of names"
    unfolding ids_of_def by (rule fold_cong) (auto simp: nth_append)
  then show ?thesis unfolding ids_of_def by simp
qed

lemma ids_of_Some: "ids_of names s = Some i \<Longrightarrow> i < length names \<and> names ! i = s"
  by (induction names rule: rev_induct) (auto simp: nth_append split: if_splits)

lemma ids_of_nth: "distinct names \<Longrightarrow> i < length names \<Longrightarrow> ids_of names (names ! i) = Some i"
proof (induction names rule: rev_induct)
  case (snoc x xs)
  then show ?case by (cases "i = length xs") (auto simp: nth_append in_set_conv_nth)
qed simp

lemma ids_of_dom: "dom (ids_of names) = set names"
proof (induction names rule: rev_induct)
  case (snoc x xs)
  have "dom (ids_of (xs @ [x])) = insert x (dom (ids_of xs))"
    by (simp only: ids_of_snoc dom_fun_upd option.distinct if_False)
  with snoc show ?case by (simp del: ids_of_snoc)
qed simp

text \<open>\<open>entered n names A\<close>: the first arguments have been entered into arrays of length \<open>n\<close>.\<close>

definition entered :: "nat \<Rightarrow> string list \<Rightarrow> AAF \<Rightarrow> bool" where
  "entered n names A \<longleftrightarrow> length names \<le> n \<and>
     ids2arguments A = names @ replicate (n - length names) [] \<and> arguments2ids A = ids_of names \<and>
     children A = replicate n [] \<and> parents A = replicate n [] \<and> number_of_attackers A = replicate n 0"

lemma entered_alloc: "entered n [] (alloc_aaf n)"
  by (simp add: entered_def alloc_aaf_def)

lemma entered_init_bits: "entered n names (init_bits m A) \<longleftrightarrow> entered n names A"
  by (simp add: entered_def init_bits_def)

lemma entered_add_argument:
  assumes "entered n names A" "length names < n" "idx = length names"
  shows "entered n (names @ [x]) (add_argument idx x A)"
proof -
  obtain k where k: "n - length names = Suc k" using assms(2) by (cases "n - length names") auto
  then have "n - Suc (length names) = k" by simp
  with assms k show ?thesis
    by (auto simp: entered_def add_argument_def list_update_append
        intro!: list_update_same_conv[THEN iffD2])
qed

lemma reads_entered:
  "entered n names A \<Longrightarrow> length names = n \<Longrightarrow> reads n names [] (init_bits n A)"
  by (auto simp: reads_def entered_def init_bits_def bits_def map_replicate_const)

lemma i23_arguments_reads:
  "reads n (map (\<lambda>i. show_nat (i + 1)) [0..<n]) [] (i23_arguments n)"
  "arguments2ids (i23_arguments n) = ids_of (map (\<lambda>i. show_nat (i + 1)) [0..<n])"
proof -
  let ?names = "\<lambda>k. map (\<lambda>i. show_nat (i + 1)) [0..<k]"
  have *: "k \<le> n \<Longrightarrow> entered n (?names k)
      (fold (\<lambda>idx. add_argument idx (show_nat (idx + 1))) [0..<k] (init_bits n (alloc_aaf n)))" for k
  proof (induction k)
    case 0
    then show ?case by (simp add: entered_init_bits entered_alloc)
  next
    case (Suc k)
    then show ?case using entered_add_argument[of n "?names k" _ k] by simp
  qed
  have keep: "init_bits n (i23_arguments n) = i23_arguments n"
  proof -
    have "init_bits n (add_argument i x A) = add_argument i x (init_bits n A)" for i x A
      by (simp add: init_bits_def add_argument_def)
    then have "init_bits n (fold (\<lambda>idx. add_argument idx (show_nat (idx + 1))) xs A) =
        fold (\<lambda>idx. add_argument idx (show_nat (idx + 1))) xs (init_bits n A)" for xs A
      by (induction xs arbitrary: A) simp_all
    then show ?thesis by (simp add: i23_arguments_def) (simp add: init_bits_def)
  qed
  show "arguments2ids (i23_arguments n) = ids_of (?names n)"
    using *[of n] by (simp add: i23_arguments_def entered_def)
  show "reads n (?names n) [] (i23_arguments n)"
    using reads_entered[of n "?names n" "i23_arguments n"] *[of n] keep
    by (simp add: i23_arguments_def)
qed

section \<open>Strings and lines\<close>

lemma cstr_append [simp]: "NUL \<notin> set s \<Longrightarrow> cstr (s @ NUL # r) = s"
  by (auto simp: cstr_def takeWhile_append2 takeWhile_tail)

lemma isspace_NUL [simp]: "\<not> isspace NUL" and isspace_newline [simp]: "isspace (CHR 0x0A)"
  by (simp_all add: isspace_def NUL_def)

text \<open>Texts without blanks at either end are what trimming leaves alone.\<close>

definition clean :: "string \<Rightarrow> bool" where
  "clean s \<longleftrightarrow> s \<noteq> [] \<and> NUL \<notin> set s \<and> \<not> isspace (hd s) \<and> \<not> isspace (last s)"

lemma trimmed_line:
  assumes "clean s"
  shows "\<exists>r. trimmed (getline row (s @ newline)) = (s, s @ NUL # r)"
proof -
  obtain k where k: "length s = Suc k" using assms by (cases s) (auto simp: clean_def)
  obtain c cs where s: "s = c # cs" using k by (cases s) auto
  have nul: "CHR 0x0A \<noteq> NUL" by (simp add: NUL_def)
  have no: "takeWhile isspace (getline row (s @ [CHR 0x0A])) = []"
    using assms by (simp add: getline_def s clean_def)
  have full: "cstr (getline row (s @ [CHR 0x0A])) = s @ [CHR 0x0A]"
    using assms nul cstr_append[of "s @ [CHR 0x0A]"] by (simp add: getline_def clean_def)
  have "trim_end (s @ [CHR 0x0A]) (Suc k) = k"
  proof -
    have "(s @ [CHR 0x0A]) ! Suc k = CHR 0x0A" using k by (metis nth_append_length)
    moreover have "\<not> isspace ((s @ [CHR 0x0A]) ! k)"
      using assms k last_conv_nth[of s] by (auto simp: nth_append clean_def)
    ultimately show ?thesis by (cases k) simp_all
  qed
  moreover have "(getline row (s @ [CHR 0x0A]))[Suc k := NUL] = s @ NUL # NUL # drop (Suc (Suc (Suc k))) row"
    using k by (simp add: getline_def list_update_append)
  ultimately show ?thesis
    using assms k by (auto simp: trimmed_def trimwhitespace_def newline_def no full clean_def)
qed

lemma trimmed_clean: "clean s \<Longrightarrow> fst (trimmed (s @ [NUL])) = s"
proof -
  assume c: "clean s"
  obtain k where k: "length s = Suc k" using c by (cases s) (auto simp: clean_def)
  have "takeWhile isspace (s @ [NUL]) = []" using c by (cases s) (simp_all add: clean_def)
  moreover have "trim_end s k = k"
    using c k last_conv_nth[of s] by (cases k) (auto simp: clean_def)
  moreover have "(s @ [NUL])[Suc k := NUL] = s @ [NUL]" using k by (simp add: list_update_append)
  ultimately show ?thesis using c k by (auto simp: trimmed_def trimwhitespace_def clean_def)
qed

lemma file_lines_concat:
  "(\<And>l. l \<in> set ls \<Longrightarrow> \<exists>s. l = s @ newline \<and> CHR 0x0A \<notin> set s) \<Longrightarrow>
   file_lines (concat ls @ t) = ls @ file_lines t"
proof (induction ls)
  case (Cons l ls)
  then obtain s where l: "l = s @ [CHR 0x0A]" "CHR 0x0A \<notin> set s" by (auto simp: newline_def)
  have "CHR 0x0A \<notin> set s \<Longrightarrow> file_lines (s @ CHR 0x0A # t) = (s @ [CHR 0x0A]) # file_lines t" for s t
    by (induction s) auto
  with Cons l show ?case by simp
qed simp

lemma find_space_at:
  "CHR '' '' \<notin> set a \<Longrightarrow> find_space (a @ CHR '' '' # r) = Inr (length a)"
proof -
  assume "CHR '' '' \<notin> set a"
  then have "takeWhile (\<lambda>c. c \<noteq> CHR '' '') a = a" by (auto simp: takeWhile_eq_all_conv)
  then show ?thesis by (simp add: find_space_def takeWhile_tail)
qed

lemma split_at_space:
  assumes "NUL \<notin> set a" "NUL \<notin> set b" and row: "row = (a @ CHR '' '' # b @ NUL # r)[length a := NUL]"
  shows "cstr row = a" "cstr (drop (length a + 1) row) = b"
proof -
  have "row = a @ NUL # b @ NUL # r" unfolding row by (simp add: list_update_append)
  then show "cstr row = a" "cstr (drop (length a + 1) row) = b" using assms(1,2) by simp_all
qed

lemma digit_char_facts:
  assumes "is_digit c"
  shows "\<not> isspace c" "c \<noteq> NUL" "c \<noteq> CHR ''-''" "c \<noteq> CHR ''+''" "c \<noteq> CHR '' ''" "c \<noteq> CHR ''#''"
    "c \<noteq> CHR 0x0A"
  using assms by (auto simp: is_digit_def isspace_def NUL_def Let_def)

lemma show_nat_facts:
  "\<not> isspace (hd (show_nat n))" "\<not> isspace (last (show_nat n))" "NUL \<notin> set (show_nat n)"
  "CHR '' '' \<notin> set (show_nat n)" "CHR 0x0A \<notin> set (show_nat n)" "hd (show_nat n) \<noteq> CHR ''#''"
proof -
  have d: "c \<in> set (show_nat n) \<Longrightarrow> is_digit c" for c by (rule show_nat_digits)
  have "is_digit (hd (show_nat n))" "is_digit (last (show_nat n))" by (rule d, simp)+
  then show "\<not> isspace (hd (show_nat n))" "\<not> isspace (last (show_nat n))" "hd (show_nat n) \<noteq> CHR ''#''"
    using digit_char_facts by blast+
  show "NUL \<notin> set (show_nat n)" "CHR '' '' \<notin> set (show_nat n)" "CHR 0x0A \<notin> set (show_nat n)"
    using d digit_char_facts by blast+
qed

lemma atoi_show_nat: "n < 2 ^ 31 \<Longrightarrow> atoi (show_nat n) = Inr (int n)"
proof -
  assume n: "n < 2 ^ 31"
  obtain c cs where s: "show_nat n = c # cs" by (cases "show_nat n") auto
  have "is_digit c" using show_nat_digits[of c n] s by simp
  then have c: "\<not> isspace c" "c \<noteq> CHR ''-''" "c \<noteq> CHR ''+''" by (auto dest: digit_char_facts)
  have t: "takeWhile is_digit (show_nat n) = show_nat n"
    using show_nat_digits by (simp add: takeWhile_eq_all_conv)
  have d: "dropWhile isspace (show_nat n) = show_nat n" using c by (simp add: s)
  show ?thesis
    unfolding atoi_def Let_def d using c n t digits_val_show_nat[of n] by (simp add: s)
qed

lemma atoi_blank: "atoi (CHR '' '' # s) = atoi s"
  by (simp add: atoi_def isspace_def)

lemma trimmed_blank: "fst (trimmed (getline row newline)) = ''''"
  by (simp add: trimmed_def trimwhitespace_def getline_def newline_def cstr_def Let_def)

section \<open>Round trip of the ICCMA 2023 format\<close>

datatype i23_item = Comment string | Blank | Attack nat nat

fun item_line :: "i23_item \<Rightarrow> string" where
  "item_line (Comment s) = CHR ''#'' # s @ newline"
| "item_line Blank = newline"
| "item_line (Attack a b) = show_nat (a + 1) @ '' '' @ show_nat (b + 1) @ newline"

fun item_ok :: "nat \<Rightarrow> i23_item \<Rightarrow> bool" where
  "item_ok n (Comment s) \<longleftrightarrow> clean (CHR ''#'' # s) \<and> CHR 0x0A \<notin> set s"
| "item_ok n Blank \<longleftrightarrow> True"
| "item_ok n (Attack a b) \<longleftrightarrow> a < n \<and> b < n"

fun item_attacks :: "i23_item \<Rightarrow> (nat \<times> nat) list" where
  "item_attacks (Attack a b) = [(a, b)]"
| "item_attacks _ = []"

definition header_line :: "nat \<Rightarrow> string" where
  "header_line n = ''p af '' @ show_nat n @ newline"

definition i23_text :: "string list \<Rightarrow> nat \<Rightarrow> i23_item list \<Rightarrow> string" where
  "i23_text comments n items =
     concat (map (item_line \<circ> Comment) comments @ header_line n # map item_line items)"

definition item_list_attacks :: "i23_item list \<Rightarrow> (nat \<times> nat) list" where
  "item_list_attacks items = concat (map item_attacks items)"

lemma i23_text_lines:
  assumes "\<forall>c\<in>set comments. item_ok n (Comment c)" "\<forall>i\<in>set items. item_ok n i"
  shows "file_lines (i23_text comments n items) =
    map (item_line \<circ> Comment) comments @ header_line n # map item_line items"
proof -
  have "\<exists>s. item_line i = s @ newline \<and> CHR 0x0A \<notin> set s" if "item_ok n i" for i
  proof (cases i)
    case (Comment s)
    with that show ?thesis by (intro exI[of _ "CHR ''#'' # s"]) simp
  next
    case (Attack a b)
    then show ?thesis
      by (intro exI[of _ "show_nat (a + 1) @ '' '' @ show_nat (b + 1)"]) (simp add: show_nat_facts)
  qed simp
  moreover have "\<exists>s. header_line n = s @ newline \<and> CHR 0x0A \<notin> set s"
    by (intro exI[of _ "''p af '' @ show_nat n"]) (simp add: header_line_def show_nat_facts)
  ultimately have "file_lines (i23_text comments n items @ []) =
    (map (item_line \<circ> Comment) comments @ header_line n # map item_line items) @ file_lines []"
    unfolding i23_text_def using assms by (intro file_lines_concat) auto
  then show ?thesis by simp
qed

lemma clean_pair: "clean (show_nat a @ '' '' @ show_nat b)"
  using show_nat_facts[of a] show_nat_facts[of b] by (simp add: clean_def) (simp add: NUL_def)

lemma i23_attack_pair:
  assumes r: "reads n names atts aaf" and n: "n < 2 ^ 31" "a < n" "b < n"
    and row: "row = (show_nat (a + 1) @ '' '' @ show_nat (b + 1)) @ NUL # rest"
  shows "rok (i23_attack aaf row) (\<lambda>(aaf', row').
    reads n names (atts @ [(a, b)]) aaf' \<and> arguments2ids aaf' = arguments2ids aaf)"
proof -
  define sa sb where "sa = show_nat (a + 1)" and "sb = show_nat (b + 1)"
  note facts = show_nat_facts[of "a + 1", folded sa_def] show_nat_facts[of "b + 1", folded sb_def]
  have row: "row = sa @ CHR '' '' # sb @ NUL # rest" using row by (simp add: sa_def sb_def)
  have sp: "find_space row = Inr (length sa)"
    unfolding row by (rule find_space_at) (rule facts)
  have sl: "cstr (row[length sa := NUL]) = sa" "cstr (drop (length sa + 1) (row[length sa := NUL])) = sb"
    using split_at_space[OF facts(3) facts(9) refl, of rest] by (simp_all add: row)
  have at: "atoi sa = Inr (int (a + 1))" "atoi sb = Inr (int (b + 1))"
    unfolding sa_def sb_def by (rule atoi_show_nat, use n in simp)+
  have ids: "arguments2ids A' = arguments2ids A" if "add_attack i j A = Inr A'" for i j A A'
    using that by (auto simp: add_attack_def split: if_splits)
  obtain A' where A': "add_attack a b (aaf\<lparr>number_of_attacks := number_of_attacks aaf + 1\<rparr>) = Inr A'"
    "reads n names (atts @ [(a, b)]) A'" using reads_add_attack[OF r n(2,3)] by (rule rokE)
  show ?thesis
    using ids[OF A'(1)] A' by (simp add: i23_attack_def sp sl[simplified] at)
qed

lemma i23_line_item:
  assumes "item_ok n i" and r: "reads n names atts aaf" and n: "n < 2 ^ 31"
  shows "rok (i23_line (item_line i) (aaf, row)) (\<lambda>(aaf', row').
    reads n names (atts @ item_attacks i) aaf' \<and> arguments2ids aaf' = arguments2ids aaf)"
proof (cases i)
  case (Comment s)
  with assms(1) trimmed_line[of "CHR ''#'' # s" row] r show ?thesis
    by (auto simp: i23_line_def)
next
  case Blank
  then show ?thesis
    using trimmed_blank[of row] r by (auto simp: i23_line_def split: prod.split)
next
  case (Attack a b)
  define t where "t = show_nat (a + 1) @ '' '' @ show_nat (b + 1)"
  obtain rest where tr: "trimmed (getline row (t @ newline)) = (t, t @ NUL # rest)"
    using trimmed_line[OF clean_pair, of row "a + 1" "b + 1"] by (auto simp: t_def)
  have hd: "take 1 t \<noteq> ''#''" "t \<noteq> ''''"
    using show_nat_facts(6)[of "a + 1"] by (cases "show_nat (a + 1)", auto simp: t_def)+
  have "i23_line (item_line i) (aaf, row) = i23_attack aaf (t @ NUL # rest)"
    using hd tr by (simp add: i23_line_def Attack t_def)
  then show ?thesis
    using i23_attack_pair[OF r n, of a b "t @ NUL # rest" rest] assms(1)
    by (simp add: Attack t_def)
qed

lemma i23_header_read:
  assumes "\<forall>c\<in>set comments. item_ok n (Comment c)" "n < 2 ^ 31"
  shows "\<exists>row'. i23_header (map (item_line \<circ> Comment) comments @ header_line n # rest) row =
    Inr (int n, rest, row')"
  using assms
proof (induction comments arbitrary: row)
  case Nil
  have "clean (''p af '' @ show_nat n)"
    using show_nat_facts[of n] by (simp add: clean_def NUL_def isspace_def)
  from trimmed_line[OF this, of row] obtain r where
    "trimmed (getline row (header_line n)) = (''p af '' @ show_nat n, (''p af '' @ show_nat n) @ NUL # r)"
    by (auto simp: header_line_def)
  then show ?case using assms(2) by (simp add: atoi_blank atoi_show_nat)
next
  case (Cons c comments)
  then obtain r where "trimmed (getline row (item_line (Comment c))) = (CHR ''#'' # c, (CHR ''#'' # c) @ NUL # r)"
    using trimmed_line[of "CHR ''#'' # c" row] by auto
  with Cons show ?case by simp
qed

lemma readFile_i23_text:
  assumes fs: "fs p = Some (i23_text comments n items)" and n: "n < 2 ^ 31"
    and ok: "\<forall>c\<in>set comments. item_ok n (Comment c)" "\<forall>i\<in>set items. item_ok n i"
  shows "rok (taas__readFile_i23 fs (Some p)) (\<lambda>A.
    reads n (map (\<lambda>i. show_nat (i + 1)) [0..<n]) (item_list_attacks items) A \<and>
    arguments2ids A = ids_of (map (\<lambda>i. show_nat (i + 1)) [0..<n]))"
proof -
  let ?names = "map (\<lambda>i. show_nat (i + 1)) [0..<n]"
  obtain row where h: "i23_header (file_lines (i23_text comments n items)) [] =
      Inr (int n, map item_line items, row)"
    using i23_header_read[OF ok(1) n] i23_text_lines[OF ok] by metis
  have "rok (rfold i23_line (map item_line items) (i23_arguments n, row)) (\<lambda>(A, _).
      reads n ?names (item_list_attacks items) A \<and> arguments2ids A = ids_of ?names)"
    using ok(2)
  proof (induction items rule: rev_induct)
    case Nil
    then show ?case using i23_arguments_reads[of n] by (simp add: item_list_attacks_def)
  next
    case (snoc i items)
    then have IH: "rok (rfold i23_line (map item_line items) (i23_arguments n, row)) (\<lambda>(A, _).
      reads n ?names (item_list_attacks items) A \<and> arguments2ids A = ids_of ?names)" by simp
    show ?case
      unfolding map_append rfold_append
    proof (rule rok_bind[OF IH], goal_cases)
      case (1 st)
      obtain A row' where st: "st = (A, row')" by (cases st)
      have "rok (i23_line (item_line i) (A, row')) (\<lambda>(aaf', row'').
          reads n ?names (item_list_attacks items @ item_attacks i) aaf' \<and>
          arguments2ids aaf' = arguments2ids A)"
        by (rule i23_line_item) (use 1 snoc.prems n in \<open>auto simp: st\<close>)
      with 1 show ?case
        by (auto simp: item_list_attacks_def st elim!: rokE)
    qed
  qed
  then show ?thesis
    by (auto simp: taas__readFile_i23_def fs h elim!: rokE)
qed

section \<open>Whatever the ICCMA 2023 reader accepts\<close>

text \<open>
  No text, however malformed, makes the reader return a framework that is inconsistent: it either
  fails with an error or returns what some list of attacks describes.
\<close>

lemma rfold_Nil: "rfold f [] = Inr"
  by (rule ext) simp

lemma i23_line_reads:
  assumes r: "reads n names atts aaf" and ok: "i23_line line (aaf, row) = Inr (aaf', row')"
  shows "\<exists>atts'. reads n names (atts @ atts') aaf'"
proof -
  obtain t r1 where t: "trimmed (getline row line) = (t, r1)" by (cases "trimmed (getline row line)")
  show ?thesis
  proof (cases "t = '''' \<or> take 1 t = ''#''")
    case True
    with ok t have "aaf' = aaf" by (auto simp: i23_line_def split: if_splits)
    with r show ?thesis by (intro exI[of _ "[]"]) simp
  next
    case False
    with ok t have "i23_attack aaf r1 = Inr (aaf', row')" by (auto simp: i23_line_def)
    then obtain a b where
      add: "add_attack a b (aaf\<lparr>number_of_attacks := number_of_attacks aaf + 1\<rparr>) = Inr aaf'"
      by (auto simp: i23_attack_def rbind_def Let_def split: sum.splits if_splits)
    from add_attack_Inr[OF r add] have "a < n" "b < n" by blast+
    from reads_add_attack[OF r this] add show ?thesis by auto
  qed
qed

lemma i23_lines_reads:
  "reads n names atts aaf \<Longrightarrow> rfold i23_line ls (aaf, row) = Inr (aaf', row') \<Longrightarrow>
   \<exists>atts'. reads n names (atts @ atts') aaf'"
proof (induction ls arbitrary: atts aaf row)
  case Nil
  then show ?case by (auto intro!: exI[of _ "[]"])
next
  case (Cons l ls)
  from Cons.prems(2) obtain aaf1 row1 where
    1: "i23_line l (aaf, row) = Inr (aaf1, row1)" and 2: "rfold i23_line ls (aaf1, row1) = Inr (aaf', row')"
    by (cases "i23_line l (aaf, row)") auto
  from i23_line_reads[OF Cons.prems(1) 1] obtain atts1 where "reads n names (atts @ atts1) aaf1" by blast
  from Cons.IH[OF this 2] show ?case by (metis append_assoc)
qed

lemma readFile_i23_accepts:
  assumes "taas__readFile_i23 fs path = Inr A"
  shows "\<exists>n atts. reads n (map (\<lambda>i. show_nat (i + 1)) [0..<n]) atts A"
proof -
  from assms obtain m rest row row' where
    "rfold i23_line rest (i23_arguments (nat m), row) = Inr (A, row')"
    by (auto simp: taas__readFile_i23_def rbind_def split: option.splits sum.splits if_splits prod.splits)
  from i23_lines_reads[OF i23_arguments_reads(1) this] show ?thesis by (metis append_Nil)
qed

section \<open>Round trip of the trivial graph format\<close>

definition name_ok :: "string \<Rightarrow> bool" where
  "name_ok s \<longleftrightarrow> clean s \<and> CHR 0x0A \<notin> set s \<and> CHR '' '' \<notin> set s \<and> s \<noteq> ''#'' \<and> length s < NAME_ALLOC"

definition attack_line :: "string list \<Rightarrow> nat \<times> nat \<Rightarrow> string" where
  "attack_line names e = names ! fst e @ '' '' @ names ! snd e @ newline"

definition tgf_text :: "string list \<Rightarrow> (nat \<times> nat) list \<Rightarrow> string" where
  "tgf_text names atts =
     concat (map (\<lambda>s. s @ newline) names @ (''#'' @ newline) # map (attack_line names) atts)"

lemma trimmed_getline: "clean s \<Longrightarrow> fst (trimmed (getline row (s @ newline))) = s"
  using trimmed_line[of s row] by auto

lemma clean_hash: "clean ''#''"
  by (simp add: clean_def NUL_def isspace_def)

lemma name_okD:
  assumes "name_ok s"
  shows "clean s" "s \<noteq> ''''" "s \<noteq> ''#''" "NUL \<notin> set s" "CHR '' '' \<notin> set s" "CHR 0x0A \<notin> set s"
    "length s < NAME_ALLOC"
  using assms by (auto simp: name_ok_def clean_def)

lemma tgf_count_names:
  assumes "\<forall>s\<in>set names. name_ok s"
  shows "\<exists>row'. tgf_count (map (\<lambda>s. s @ newline) names @ ls) row k = tgf_count ls row' (k + length names)"
  using assms
proof (induction names arbitrary: row k)
  case (Cons s names)
  then have s: "name_ok s" by simp
  obtain r where "trimmed (getline row (s @ newline)) = (s, r)"
    using trimmed_getline[OF name_okD(1)[OF s], of row] by (metis prod.collapse)
  with Cons.IH[of r "k + 1"] Cons.prems name_okD[OF s] show ?case by simp
qed auto

lemma tgf_names_entered:
  assumes "\<forall>s\<in>set names. name_ok s" "length names \<le> n"
  shows "\<exists>A row'. rfold tgf_line (map (\<lambda>s. s @ newline) names) (alloc_aaf n, row, True, 0) =
    Inr (A, row', True, length names) \<and> entered n names A"
  using assms
proof (induction names rule: rev_induct)
  case Nil
  then show ?case by (simp add: entered_alloc)
next
  case (snoc s names)
  then obtain A row' where
    IH: "rfold tgf_line (map (\<lambda>s. s @ newline) names) (alloc_aaf n, row, True, 0) =
      Inr (A, row', True, length names)" and A: "entered n names A" by auto
  have s: "name_ok s" using snoc by simp
  obtain r where "trimmed (getline row' (s @ newline)) = (s, r)"
    using trimmed_getline[OF name_okD(1)[OF s], of row'] by (metis prod.collapse)
  moreover have "length names < length (ids2arguments A)"
    using A snoc.prems by (simp add: entered_def)
  ultimately have "tgf_line (s @ newline) (A, row', True, length names) =
      Inr (add_argument (length names) s A, r, True, length names + 1)"
    using name_okD[OF s] by (simp add: tgf_line_def)
  with IH entered_add_argument[OF A _ refl, of s] snoc.prems show ?case
    by (simp add: rfold_append)
qed

lemma tgf_attack_line:
  assumes r: "reads n names atts A" and ids: "arguments2ids A = ids_of names" and d: "distinct names"
    and ok: "\<forall>s\<in>set names. name_ok s" and e: "a < n" "b < n"
  shows "rok (tgf_line (attack_line names (a, b)) (A, row, False, k)) (\<lambda>(A', row', sec, k').
    reads n names (atts @ [(a, b)]) A' \<and> arguments2ids A' = ids_of names \<and> \<not> sec)"
proof -
  define sa sb where "sa = names ! a" and "sb = names ! b"
  have len: "length names = n" using r by (simp add: reads_def)
  have a: "name_ok sa" and b: "name_ok sb" using ok e len by (auto simp: sa_def sb_def)
  note fa = name_okD[OF a] and fb = name_okD[OF b]
  define t where "t = sa @ CHR '' '' # sb"
  have "clean t" using fa fb by (auto simp: t_def clean_def NUL_def)
  then obtain rest where tr: "trimmed (getline row (t @ newline)) = (t, t @ NUL # rest)"
    using trimmed_line by blast
  have t: "t \<noteq> ''''" "t \<noteq> ''#''" using fa by (auto simp: t_def append_eq_Cons_conv)
  have sp: "find_space (t @ NUL # rest) = Inr (length sa)"
    using find_space_at[OF fa(5)] by (simp add: t_def)
  have sl: "cstr ((t @ NUL # rest)[length sa := NUL]) = sa"
      "cstr (drop (length sa + 1) ((t @ NUL # rest)[length sa := NUL])) = sb"
    using split_at_space[OF fa(4) fb(4) refl, of rest] by (simp_all add: t_def)
  have lk: "arguments2ids A sa = Some a" "arguments2ids A sb = Some b"
    using ids ids_of_nth[OF d] e len by (simp_all add: sa_def sb_def)
  have keep: "arguments2ids A' = arguments2ids A''" if "add_attack i j A'' = Inr A'" for i j A' A''
    using that by (auto simp: add_attack_def split: if_splits)
  obtain A' where A': "add_attack a b (A\<lparr>number_of_attacks := number_of_attacks A + 1\<rparr>) = Inr A'"
    "reads n names (atts @ [(a, b)]) A'" using reads_add_attack[OF r e] by (rule rokE)
  have line: "attack_line names (a, b) = t @ newline" by (simp add: attack_line_def t_def sa_def sb_def)
  show ?thesis
    using A' keep[OF A'(1)] ids t
    by (simp add: tgf_line_def tgf_attack_def line tr sp sl[simplified] lk[unfolded ids] Let_def)
qed

lemma readFile_tgf_text:
  assumes fs: "fs p = Some (tgf_text names atts)" and d: "distinct names"
    and ok: "\<forall>s\<in>set names. name_ok s" and e: "set atts \<subseteq> {..<length names} \<times> {..<length names}"
  shows "rok (taas__readFile_tgf fs (Some p)) (\<lambda>A. reads (length names) names atts A \<and>
    arguments2ids A = ids_of names)"
proof -
  let ?n = "length names"
  define H where "H = ''#'' @ newline"
  let ?nl = "map (\<lambda>s. s @ newline) names"
  have "\<exists>s. attack_line names x = s @ newline \<and> CHR 0x0A \<notin> set s" if "x \<in> set atts" for x
    using that e ok
    by (intro exI[of _ "names ! fst x @ '' '' @ names ! snd x"]) (auto simp: attack_line_def name_ok_def)
  then have "file_lines (tgf_text names atts @ []) =
      (?nl @ H # map (attack_line names) atts) @ file_lines []"
    unfolding tgf_text_def H_def[symmetric] using ok
    by (intro file_lines_concat) (auto simp: name_ok_def, auto simp: H_def)
  then have ls: "file_lines (tgf_text names atts) = ?nl @ H # map (attack_line names) atts"
    by simp
  have hash: "\<exists>r. trimmed (getline row H) = (''#'', r)" for row
    unfolding H_def using trimmed_getline[OF clean_hash, of row] by (metis prod.collapse)
  obtain row1 where c: "tgf_count (file_lines (tgf_text names atts)) [] 0 = (?n, row1)"
  proof -
    obtain row' where "tgf_count (?nl @ H # map (attack_line names) atts) [] 0 =
        tgf_count (H # map (attack_line names) atts) row' ?n"
      using tgf_count_names[OF ok, of "H # map (attack_line names) atts" "[]" 0] by auto
    moreover obtain r where "trimmed (getline row' H) = (''#'', r)" using hash by blast
    ultimately show thesis by (intro that[of r]) (simp add: ls)
  qed
  obtain A0 row2 where n: "rfold tgf_line ?nl (alloc_aaf ?n, row1, True, 0) = Inr (A0, row2, True, ?n)"
    and A0: "entered ?n names A0"
    using tgf_names_entered[OF ok order_refl] by blast
  obtain row3 where h: "tgf_line H (A0, row2, True, ?n) = Inr (init_bits ?n A0, row3, False, ?n)"
    using hash[of row2] by (auto simp: tgf_line_def)
  have "rok (rfold tgf_line (map (attack_line names) atts) (init_bits ?n A0, row3, False, ?n))
      (\<lambda>(A, row, sec, k). reads ?n names atts A \<and> arguments2ids A = ids_of names \<and> \<not> sec)"
    using e
  proof (induction atts rule: rev_induct)
    case Nil
    have "arguments2ids (init_bits ?n A0) = ids_of names"
      using A0 by (simp add: entered_def init_bits_def)
    with reads_entered[OF A0 refl] show ?case by simp
  next
    case (snoc x atts)
    obtain a b where x: "x = (a, b)" by (cases x)
    from snoc have IH: "rok (rfold tgf_line (map (attack_line names) atts) (init_bits ?n A0, row3, False, ?n))
      (\<lambda>(A, row, sec, k). reads ?n names atts A \<and> arguments2ids A = ids_of names \<and> \<not> sec)" by simp
    show ?case
      unfolding map_append rfold_append
    proof (rule rok_bind[OF IH], goal_cases)
      case (1 st)
      then obtain A row k where st: "st = (A, row, False, k)"
        and A: "reads ?n names atts A" "arguments2ids A = ids_of names" by auto
      have "rok (tgf_line (attack_line names (a, b)) (A, row, False, k)) (\<lambda>(A', row', sec, k').
          reads ?n names (atts @ [(a, b)]) A' \<and> arguments2ids A' = ids_of names \<and> \<not> sec)"
        by (rule tgf_attack_line[OF A d ok]) (use snoc.prems x in auto)
      then show ?case by (simp add: st x rfold_Nil)
    qed
  qed
  then show ?thesis
    by (auto simp: taas__readFile_tgf_def fs c[unfolded ls] ls rfold_append n h elim!: rokE)
qed

text \<open>A name of nine characters or more is copied into nine bytes.\<close>

lemma readFile_tgf_long_name:
  assumes fs: "fs p = Some (concat (map (\<lambda>s. s @ newline) (names @ [long])) @ rest)"
    and ok: "\<forall>s\<in>set names. name_ok s"
    and long: "clean long" "CHR 0x0A \<notin> set long" "8 < length long"
  shows "taas__readFile_tgf fs (Some p) = Inl BufferOverflow"
proof -
  let ?nl = "map (\<lambda>s. s @ newline) names"
  define n row1 where "n = fst (tgf_count (file_lines (concat (map (\<lambda>s. s @ newline) (names @ [long])) @ rest)) [] 0)"
    and "row1 = snd (tgf_count (file_lines (concat (map (\<lambda>s. s @ newline) (names @ [long])) @ rest)) [] 0)"
  have ls: "file_lines (concat (map (\<lambda>s. s @ newline) (names @ [long])) @ rest) =
      map (\<lambda>s. s @ newline) (names @ [long]) @ file_lines rest"
    using ok long by (intro file_lines_concat) (auto simp: name_ok_def)
  have mono: "k \<le> fst (tgf_count ls row k)" for ls row k
    by (induction ls row k rule: tgf_count.induct) (auto split: prod.splits intro: Suc_leD)
  have "length names \<le> n"
    using tgf_count_names[OF ok, of "(long @ newline) # file_lines rest" "[]" 0] mono[of "length names"]
    unfolding n_def ls by (auto simp del: tgf_count.simps)
  then obtain A row2 where n: "rfold tgf_line ?nl (alloc_aaf n, row1, True, 0) = Inr (A, row2, True, length names)"
    using tgf_names_entered[OF ok] by blast
  obtain r where tr: "trimmed (getline row2 (long @ newline)) = (long, r)"
    using trimmed_getline[OF long(1), of row2] by (metis prod.collapse)
  have "long \<noteq> ''''" "long \<noteq> ''#''" using long(3) by auto
  then have "tgf_line (long @ newline) (A, row2, True, length names) = Inl BufferOverflow"
    using tr long(3) by (simp add: tgf_line_def NAME_ALLOC_def)
  then show ?thesis
    by (simp add: taas__readFile_tgf_def fs split_beta rfold_append n ls[simplified]
        n_def[symmetric, unfolded ls, simplified] row1_def[symmetric, unfolded ls, simplified])
qed

section \<open>Trimming\<close>

definition strip :: "string \<Rightarrow> string" where
  "strip s = rev (dropWhile isspace (rev (dropWhile isspace s)))"

lemma trim_end_append: "e < length s \<Longrightarrow> trim_end (s @ t) e = trim_end s e"
  by (induction e) (auto simp: nth_append)

lemma trim_end_less: "trim_end s e \<le> e"
  by (induction e) auto

lemma take_trim_end:
  "s \<noteq> [] \<Longrightarrow> \<not> isspace (hd s) \<Longrightarrow>
   take (Suc (trim_end s (length s - 1))) s = rev (dropWhile isspace (rev s))"
proof (induction s rule: rev_induct)
  case (snoc x s)
  show ?case
  proof (cases "s = []")
    case True
    with snoc show ?thesis by simp
  next
    case False
    then obtain k where k: "length s = Suc k" by (cases s) auto
    have IH: "take (Suc (trim_end s k)) s = rev (dropWhile isspace (rev s))"
      using snoc.IH snoc.prems False k by simp
    have "(s @ [x]) ! Suc k = x" using k by (metis nth_append_length)
    moreover have "Suc (trim_end s k) \<le> length s" using trim_end_less[of s k] k by simp
    ultimately show ?thesis
      using IH k trim_end_append[of k s "[x]"] by simp
  qed
qed simp

lemma trimmed_strip:
  assumes s: "NUL \<notin> set s"
  shows "fst (trimmed (s @ NUL # r)) = strip s"
proof -
  define ws u where "ws = takeWhile isspace s" and "u = dropWhile isspace s"
  have su: "s = ws @ u" by (simp add: ws_def u_def)
  have nu: "NUL \<notin> set u" using s su by auto
  have tw: "takeWhile isspace (s @ NUL # r) = ws"
    using takeWhile_tail[of isspace NUL s r] by (simp add: ws_def)
  have dr: "drop (length ws) (s @ NUL # r) = u @ NUL # r" by (simp add: su)
  show ?thesis
  proof (cases "u = []")
    case True
    have "strip s = []" by (simp only: strip_def u_def[symmetric] True) simp
    moreover have "cstr (NUL # r) = []" by (simp add: cstr_def)
    ultimately show ?thesis using True dr by (simp add: trimmed_def trimwhitespace_def tw Let_def)
  next
    case False
    then have hd: "\<not> isspace (hd u)" by (simp add: u_def hd_dropWhile)
    define e where "e = trim_end u (length u - 1)"
    have e: "Suc e \<le> length u"
      using trim_end_less[of u "length u - 1"] False by (cases u) (auto simp: e_def)
    have "drop (length ws) ((s @ NUL # r)[length ws + e + 1 := NUL]) = (u @ NUL # r)[Suc e := NUL]"
      by (simp add: su list_update_append)
    also have "\<dots> = take (Suc e) u @ NUL # drop (Suc (Suc e)) (u @ NUL # r)"
      using e by (subst upd_conv_take_nth_drop) simp_all
    finally have d: "drop (length ws) ((s @ NUL # r)[length ws + e + 1 := NUL]) =
        take (Suc e) u @ NUL # drop (Suc (Suc e)) (u @ NUL # r)" .
    have "cstr (drop (length ws) ((s @ NUL # r)[length ws + e + 1 := NUL])) = take (Suc e) u"
      unfolding d by (rule cstr_append) (use nu in_set_takeD in fast)
    moreover have "take (Suc e) u = strip s"
      using take_trim_end[OF False hd] by (simp add: e_def strip_def u_def)
    ultimately show ?thesis
      using False nu dr by (simp add: trimmed_def trimwhitespace_def tw Let_def e_def)
  qed
qed

section \<open>The command line\<close>

lemma cmd_loop_lengths:
  "cmd_loop info as task param = Inr (task', param') \<Longrightarrow>
   length (additional_values task) = length (additional_keys task) \<Longrightarrow>
   length (additional_values task') = length (additional_keys task')"
  by (induction info as task param rule: cmd_loop.induct) (auto split: if_splits)

lemma task_get_value_map_of:
  assumes "length (additional_values task) = length (additional_keys task)"
  shows "taas__task_get_value task key =
    Option.bind (map_of (zip (additional_keys task) (additional_values task)) key) (\<lambda>v. v)"
proof -
  have *: "(case find (\<lambda>i. ks ! i = key) [0..<length ks] of None \<Rightarrow> None | Some i \<Rightarrow> vs ! i) =
      Option.bind (map_of (zip ks vs) key) (\<lambda>v. v)" if "length vs = length ks" for ks :: "string list" and vs
    using that
  proof (induction ks arbitrary: vs)
    case (Cons k ks)
    then obtain v vs' where vs: "vs = v # vs'" and l: "length vs' = length ks" by (cases vs) auto
    have up: "[0..<length (k # ks)] = 0 # map Suc [0..<length ks]"
      by (simp add: upt_conv_Cons map_Suc_upt del: upt_Suc)
    have "find (\<lambda>i. (k # ks) ! i = key) (map Suc is) = map_option Suc (find (\<lambda>i. ks ! i = key) is)" for "is"
      by (induction "is") auto
    with Cons.IH[OF l] show ?case
      unfolding up vs by (cases "find (\<lambda>i. ks ! i = key) [0..<length ks]") auto
  qed simp
  show ?thesis unfolding taas__task_get_value_def by (rule *[OF assms])
qed

lemma cmd_handle_task:
  assumes "taas__cmd_handle argv info = Inr (Some task, out)"
  shows "out = ''''" and "arg task = -1" and "\<exists>t. track task = Some t \<and> problem task = take 2 t"
    and "length (additional_values task) = length (additional_keys task)"
proof -
  obtain task' param where l: "cmd_loop info (tl argv) empty_task 0 = Inr (task', param)"
    using assms by (cases "cmd_loop info (tl argv) empty_task 0") (auto simp: taas__cmd_handle_def)
  with assms show "out = ''''" "arg task = -1" "\<exists>t. track task = Some t \<and> problem task = take 2 t"
    by (auto simp: taas__cmd_handle_def split: if_splits option.splits)
  have "length (additional_values task') = length (additional_keys task')"
    using cmd_loop_lengths[OF l] by (simp add: empty_task_def)
  with assms l show "length (additional_values task) = length (additional_keys task)"
    by (auto simp: taas__cmd_handle_def split: if_splits option.splits)
qed

text \<open>The usual command line, with further key-value pairs behind it.\<close>

lemma cmd_handle_usual:
  assumes "t \<noteq> ''''"
  shows "taas__cmd_handle [prog, ''-p'', t, ''-f'', f, ''-fo'', fo, ''-a'', a] info =
    Inr (Some \<lparr>track = Some t, problem = take 2 t, file_name = Some f, format = Some fo, arg = -1,
               argAsString = Some a, additional_keys = [], additional_values = []\<rparr>, '''')"
  using assms by (simp add: taas__cmd_handle_def empty_task_def next_arg_def)

lemma update_arg_param_query:
  assumes "problem task = ''DS'' \<or> problem task = ''DC''" "argAsString task = Some (names ! i)"
    and "arguments2ids aaf = ids_of names" "distinct names" "i < length names" "clean (names ! i)"
  shows "taas__update_arg_param task aaf = Inr (task\<lparr>arg := int i\<rparr>)"
  using assms by (simp add: taas__update_arg_param_def trimmed_clean ids_of_nth)

lemma update_arg_param_unknown:
  assumes "problem task = ''DS'' \<or> problem task = ''DC''" "argAsString task = Some s"
    and "arguments2ids aaf = ids_of names" "NUL \<notin> set s" "strip s \<notin> set names"
  shows "taas__update_arg_param task aaf = Inl NullPointer"
proof -
  have "arguments2ids aaf (strip s) = None"
    using assms(3,5) ids_of_dom[of names] by (auto simp: dom_def)
  then show ?thesis using assms(1,2) trimmed_strip[OF assms(4), of "[]"]
    by (auto simp: taas__update_arg_param_def)
qed

end
