(* ===== verification/Basics.thy ===== *)
theory Basics
  imports Labeling
begin

text \<open>
  taas/taas_basics.c without the dispatcher \<open>taas__solve\<close> (theory \<open>Driver\<close>): the computation of the
  grounded extension by a worklist over attack counters, and the local correctness checks for labels.
  The worklist loop runs with a bound on its iterations; \<open>n + 1\<close> iterations are enough for \<open>n\<close>
  arguments, since every argument enters the worklist at most once.
\<close>

section \<open>The grounded extension\<close>

text \<open>The innermost loop body: one attacker of \<open>j\<close> is out.\<close>

definition dec_attackers :: "nat \<Rightarrow> AAF \<times> Labeling \<times> nat list \<Rightarrow> AAF \<times> Labeling \<times> nat list" where
  "dec_attackers j = (\<lambda>(aaf, grounded, stack).
     if number_of_attackers aaf ! j > 0 then
       let aaf = aaf\<lparr>number_of_attackers :=
                   (number_of_attackers aaf)[j := number_of_attackers aaf ! j - 1]\<rparr>
       in if number_of_attackers aaf ! j = 0
          then (aaf, grounded\<lparr>lab_in := bitset__set (lab_in grounded) j\<rparr>, j # stack)
          else (aaf, grounded, stack)
     else (aaf, grounded, stack))"

definition set_out :: "nat \<Rightarrow> AAF \<times> Labeling \<times> nat list \<Rightarrow> AAF \<times> Labeling \<times> nat list" where
  "set_out c = (\<lambda>(aaf, grounded, stack).
     if bit_at (lab_out grounded) c then (aaf, grounded, stack)
     else fold dec_attackers (children aaf ! c)
            (aaf, grounded\<lparr>lab_out := bitset__set (lab_out grounded) c\<rparr>, stack))"

definition grounded_loop ::
    "AAF \<times> Labeling \<times> nat list \<Rightarrow> (AAF \<times> Labeling \<times> nat list, AAF \<times> Labeling) step result" where
  "grounded_loop = (\<lambda>(aaf, grounded, stack).
     case stack of
       [] \<Rightarrow> Inr (Break (aaf, grounded))
     | arg # stack \<Rightarrow> Inr (Continue (fold set_out (children aaf ! arg) (aaf, grounded, stack))))"

definition taas__compute_grounded :: "nat \<Rightarrow> AAF \<Rightarrow> Labeling \<Rightarrow> (AAF \<times> Labeling) result" where
  "taas__compute_grounded fuel aaf grounded =
     (let grounded = grounded\<lparr>lab_in := bitset__clone (initial aaf),
                              lab_out := bitset__unsetAll (bitset__init (number_of_arguments aaf))\<rparr>;
          stack = fold (\<lambda>a stack. a # stack) (bitset_members (lab_in grounded)) []
      in rloop fuel grounded_loop (aaf, grounded, stack))"

definition fullcovered :: "Labeling \<Rightarrow> AAF \<Rightarrow> bool" where
  "fullcovered grounded aaf =
     list_all (\<lambda>i. \<not> (\<not> bit_at (lab_out grounded) i \<and> \<not> bit_at (lab_in grounded) i))
       [0..<number_of_arguments aaf]"

section \<open>Correctness of the worklist algorithm\<close>

text \<open>
  The counters hold the number of attackers that are not out, and the arguments without such
  attackers are in.
\<close>

definition counts :: "AAF \<Rightarrow> nat set \<Rightarrow> AAF \<times> Labeling \<times> nat list \<Rightarrow> bool" where
  "counts A U = (\<lambda>(aaf, g, stack).
     aaf = A\<lparr>number_of_attackers := number_of_attackers aaf\<rparr> \<and>
     length (number_of_attackers aaf) = number_of_arguments A \<and>
     (\<forall>j<number_of_arguments A.
        number_of_attackers aaf ! j = length (filter (\<lambda>p. p \<notin> U) (parents A ! j))) \<and>
     bits (lab_in g) = {j. j < number_of_arguments A \<and> number_of_attackers aaf ! j = 0} \<and>
     wf_labeling (number_of_arguments A) g \<and> \<not> twoValued g \<and> bits (lab_out g) = U)"

text \<open>What is added to the labels in is pushed on the worklist.\<close>

definition pushed :: "AAF \<times> Labeling \<times> nat list \<Rightarrow> AAF \<times> Labeling \<times> nat list \<Rightarrow> bool" where
  "pushed = (\<lambda>(_, g, stack) (_, g', stack'). \<exists>new. stack' = new @ stack \<and> distinct new \<and>
     bits (lab_in g') = bits (lab_in g) \<union> set new \<and> bits (lab_in g) \<inter> set new = {})"

lemma pushed_refl: "pushed st st"
  by (auto simp: pushed_def)

lemma pushed_trans: "pushed st st' \<Longrightarrow> pushed st' st'' \<Longrightarrow> pushed st st''"
  by (cases st, cases st', cases st'') (fastforce simp: pushed_def)

text \<open>The loop over the children of an argument that has just become out.\<close>

lemma fold_dec_attackers:
  assumes wf: "wf_aaf A" and st: "counts A U st" and c: "c < number_of_arguments A" "c \<notin> U"
    and st1: "st = (aaf, g, stack)" and g': "g' = g\<lparr>lab_out := bitset__set (lab_out g) c\<rparr>"
  shows "counts A (insert c U) (fold dec_attackers (children A ! c) (aaf, g', stack)) \<and>
    pushed st (fold dec_attackers (children A ! c) (aaf, g', stack))"
proof -
  let ?n = "number_of_arguments A" and ?cs = "children A ! c"
  define cnt where "cnt = number_of_attackers aaf"
  have aaf: "aaf = A\<lparr>number_of_attackers := cnt\<rparr>" and len: "length cnt = ?n"
    and cnt: "\<And>j. j < ?n \<Longrightarrow> cnt ! j = length (filter (\<lambda>p. p \<notin> U) (parents A ! j))"
    and inn: "bits (lab_in g) = {j. j < ?n \<and> cnt ! j = 0}"
    and g: "wf_labeling ?n g" "\<not> twoValued g" "bits (lab_out g) = U"
    using st unfolding counts_def st1 cnt_def by auto
  have split: "length (filter (\<lambda>p. p \<notin> insert c U) (parents A ! j)) + count_list ?cs j = cnt ! j"
    if j: "j < ?n" for j
  proof -
    have "length (filter (\<lambda>p. p \<notin> insert c U) ps) + count_list ps c = length (filter (\<lambda>p. p \<notin> U) ps)" for ps
      using c(2) by (induction ps) auto
    then show ?thesis using cnt[OF j] wf_aafD(6)[OF wf c(1) j] by simp
  qed
  define J where "J zs st' \<longleftrightarrow> (case st' of (aaf', g'', stack') \<Rightarrow>
      aaf' = A\<lparr>number_of_attackers := number_of_attackers aaf'\<rparr> \<and>
      length (number_of_attackers aaf') = ?n \<and>
      (\<forall>j<?n. number_of_attackers aaf' ! j + count_list zs j = cnt ! j) \<and>
      bits (lab_in g'') = {j. j < ?n \<and> number_of_attackers aaf' ! j = 0} \<and>
      wf_labeling ?n g'' \<and> \<not> twoValued g'' \<and> bits (lab_out g'') = insert c U) \<and> pushed st st'" for zs st'
  have "J ?cs (fold dec_attackers ?cs (aaf, g', stack))"
  proof (rule fold_prefix)
    show "J [] (aaf, g', stack)"
      using aaf len inn g c(1) unfolding J_def g' st1
      by (simp add: wf_labeling_def pushed_def)
  next
    fix ys x zs s
    assume cs: "?cs = ys @ x # zs" and J: "J ys s"
    obtain aaf' g'' stack' where s: "s = (aaf', g'', stack')" by (cases s)
    define cnt' where "cnt' = number_of_attackers aaf'"
    have aaf': "aaf' = A\<lparr>number_of_attackers := cnt'\<rparr>" and len': "length cnt' = ?n"
      and cnt': "\<And>j. j < ?n \<Longrightarrow> cnt' ! j + count_list ys j = cnt ! j"
      and inn': "bits (lab_in g'') = {j. j < ?n \<and> cnt' ! j = 0}"
      and g'': "wf_labeling ?n g''" "\<not> twoValued g''" "bits (lab_out g'') = insert c U"
      and pu: "pushed st s"
      using J unfolding J_def s cnt'_def by auto
    have x: "x < ?n" using child_bound[OF wf c(1), of x] cs by simp
    have pos: "0 < cnt' ! x" using split[OF x] cnt'[OF x] by (simp add: cs)
    let ?cnt = "cnt'[x := cnt' ! x - 1]"
    let ?g = "if cnt' ! x = 1 then g''\<lparr>lab_in := bitset__set (lab_in g'') x\<rparr> else g''"
    let ?st = "if cnt' ! x = 1 then x # stack' else stack'"
    have step: "dec_attackers x s = (A\<lparr>number_of_attackers := ?cnt\<rparr>, ?g, ?st)"
      using pos x len' by (auto simp: dec_attackers_def s aaf' Let_def)
    have in1: "bits (lab_in ?g) = {j. j < ?n \<and> ?cnt ! j = 0}"
    proof -
      have "?cnt ! j = 0 \<longleftrightarrow> cnt' ! j = 0 \<or> cnt' ! x = 1 \<and> j = x" if "j < ?n" for j
        using pos that len' by (cases "j = x") auto
      then have "{j. j < ?n \<and> ?cnt ! j = 0} =
          (if cnt' ! x = 1 then insert x (bits (lab_in g'')) else bits (lab_in g''))"
        unfolding inn' using x by (simp add: set_eq_iff cong: conj_cong) blast
      then show ?thesis using g''(1) x by (simp add: wf_labeling_def)
    qed
    have c1: "\<forall>j<?n. ?cnt ! j + count_list (ys @ [x]) j = cnt ! j"
    proof (intro allI impI)
      fix j assume "j < ?n"
      with cnt'[OF this] pos len' show "?cnt ! j + count_list (ys @ [x]) j = cnt ! j"
        by (cases "j = x") auto
    qed
    have "x \<notin> bits (lab_in g'')" using inn' pos by simp
    then have "pushed s (A\<lparr>number_of_attackers := ?cnt\<rparr>, ?g, ?st)"
      using x g''(1) unfolding pushed_def s
      by (auto simp: wf_labeling_def intro!: exI[of _ "if cnt' ! x = 1 then [x] else []"])
    with pu have p1: "pushed st (A\<lparr>number_of_attackers := ?cnt\<rparr>, ?g, ?st)" by (rule pushed_trans)
    have w1: "wf_labeling ?n ?g" "\<not> twoValued ?g" "bits (lab_out ?g) = insert c U"
      using g'' by (auto simp: wf_labeling_def)
    show "J (ys @ [x]) (dec_attackers x s)"
      unfolding step J_def using c1 in1 p1 w1 len' by auto
  qed
  then show ?thesis
    using split unfolding J_def counts_def by fastforce
qed

lemma counts_frame:
  assumes "counts A U (aaf, g, stack)"
  shows "children aaf = children A" and "wf_labeling (number_of_arguments A) g" and "bits (lab_out g) = U"
proof -
  have "aaf = A\<lparr>number_of_attackers := number_of_attackers aaf\<rparr>"
    using assms unfolding counts_def prod.case by (elim conjE)
  from arg_cong[OF this, of children] show "children aaf = children A" by simp
qed (use assms in \<open>simp_all add: counts_def\<close>)

lemma set_out_step:
  assumes wf: "wf_aaf A" and st: "counts A U st" and c: "c < number_of_arguments A"
  shows "counts A (insert c U) (set_out c st)" and "pushed st (set_out c st)"
proof -
  obtain aaf g stack where st1: "st = (aaf, g, stack)" by (cases st)
  note fr = counts_frame[OF st[unfolded st1]]
  have g: "bits (lab_out g) = U" "bit_length (lab_out g) = number_of_arguments A"
    using fr by (simp_all add: wf_labeling_def)
  have "counts A (insert c U) (set_out c st) \<and> pushed st (set_out c st)"
  proof (cases "c \<in> U")
    case True
    then have "set_out c st = st" using g c by (simp add: set_out_def st1 bit_at_bits)
    with True st show ?thesis by (simp add: insert_absorb pushed_refl)
  next
    case False
    then have "set_out c st = fold dec_attackers (children A ! c)
        (aaf, g\<lparr>lab_out := bitset__set (lab_out g) c\<rparr>, stack)"
      using g c by (simp add: set_out_def st1 bit_at_bits fr(1))
    with fold_dec_attackers[OF wf st c False st1] show ?thesis by simp
  qed
  then show "counts A (insert c U) (set_out c st)" "pushed st (set_out c st)" by simp_all
qed

lemma fold_set_out:
  assumes "wf_aaf A" "counts A U st" "set cs \<subseteq> {..<number_of_arguments A}"
  shows "counts A (U \<union> set cs) (fold set_out cs st) \<and> pushed st (fold set_out cs st)"
proof (rule fold_prefix[where I = "\<lambda>ys s. counts A (U \<union> set ys) s \<and> pushed st s"])
  fix ys x zs s
  assume cs: "cs = ys @ x # zs" and I: "counts A (U \<union> set ys) s \<and> pushed st s"
  then have "x < number_of_arguments A" using assms(3) by auto
  with set_out_step[OF assms(1), of "U \<union> set ys" s x] I
  show "counts A (U \<union> set (ys @ [x])) (set_out x s) \<and> pushed st (set_out x s)"
    by (auto intro: pushed_trans)
qed (use assms in \<open>simp add: pushed_refl\<close>)

text \<open>
  The invariant of the worklist loop: the arguments that are out are those attacked by an argument
  that is in and has left the worklist, and they are attacked by the grounded extension.
\<close>

definition worklist_inv :: "AAF \<Rightarrow> AAF \<times> Labeling \<times> nat list \<Rightarrow> bool" where
  "worklist_inv A = (\<lambda>(aaf, g, stack). distinct stack \<and> set stack \<subseteq> bits (lab_in g) \<and>
     counts A (attacked (af_of A) (bits (lab_in g) - set stack)) (aaf, g, stack) \<and>
     bits (lab_in g) \<subseteq> grounded_ext (af_of A))"

definition worklist_measure :: "AAF \<Rightarrow> AAF \<times> Labeling \<times> nat list \<Rightarrow> nat" where
  "worklist_measure A = (\<lambda>(aaf, g, stack).
     length stack + card ({..<number_of_arguments A} - bits (lab_in g)))"

lemma counts_in_grounded:
  assumes wf: "wf_aaf A" and c: "counts A U (aaf, g, stack)" and U: "U \<subseteq> attacked (af_of A) (grounded_ext (af_of A))"
  shows "bits (lab_in g) \<subseteq> grounded_ext (af_of A)"
proof
  fix j assume "j \<in> bits (lab_in g)"
  then have j: "j < number_of_arguments A" and "filter (\<lambda>p. p \<notin> U) (parents A ! j) = []"
    using c by (auto simp: counts_def)
  then have "set (parents A ! j) \<subseteq> U" by (auto simp: filter_empty_conv)
  with U have "\<exists>c. c \<in> grounded_ext (af_of A) \<and> (c, b) \<in> attacks (af_of A)"
    if "(b, j) \<in> attacks (af_of A)" for b
  proof -
    have "b \<in> U" using that \<open>set (parents A ! j) \<subseteq> U\<close> by (auto simp: attacks_af_of)
    with U show ?thesis by (auto simp: attacked_def)
  qed
  then show "j \<in> grounded_ext (af_of A)" using j by (intro groundedI) auto
qed

lemma worklist_step:
  assumes wf: "wf_aaf A" and inv: "worklist_inv A (aaf, g, arg # stack)"
  shows "worklist_inv A (fold set_out (children aaf ! arg) (aaf, g, stack))"
    and "worklist_measure A (fold set_out (children aaf ! arg) (aaf, g, stack)) <
      worklist_measure A (aaf, g, arg # stack)"
proof -
  let ?n = "number_of_arguments A" and ?F = "af_of A"
  let ?U = "attacked ?F (bits (lab_in g) - set (arg # stack))"
  have dist: "distinct (arg # stack)" and sub: "set (arg # stack) \<subseteq> bits (lab_in g)"
    and c: "counts A ?U (aaf, g, arg # stack)" and G: "bits (lab_in g) \<subseteq> grounded_ext ?F"
    using inv by (simp_all add: worklist_inv_def)
  note aaf = counts_frame(1)[OF c]
  have arg: "arg < ?n" using sub G grounded_args[of arg ?F] by auto
  have kids: "set (children A ! arg) = attacked ?F {arg}"
    using children_attacks[OF wf arg] by (auto simp: attacked_def)
  have "counts A ?U (aaf, g, stack)" using c unfolding counts_def prod.case .
  then obtain aaf' g' new where res: "fold set_out (children aaf ! arg) (aaf, g, stack) = (aaf', g', new @ stack)"
    and c': "counts A (?U \<union> set (children A ! arg)) (aaf', g', new @ stack)"
    and new: "distinct new" "bits (lab_in g') = bits (lab_in g) \<union> set new" "bits (lab_in g) \<inter> set new = {}"
    using fold_set_out[OF wf _ wf_aafD(4)[OF wf arg], of ?U "(aaf, g, stack)"] unfolding aaf
    by (cases "fold set_out (children A ! arg) (aaf, g, stack)") (auto simp: pushed_def)
  have "bits (lab_in g') - set (new @ stack) = insert arg (bits (lab_in g) - set (arg # stack))"
    using new dist sub by auto
  then have U: "attacked ?F (bits (lab_in g') - set (new @ stack)) = ?U \<union> set (children A ! arg)"
    unfolding kids by (auto simp: attacked_def)
  have "?U \<union> set (children A ! arg) \<subseteq> attacked ?F (grounded_ext ?F)"
    using G sub unfolding kids by (auto simp: attacked_def)
  with c' U new dist sub show "worklist_inv A (fold set_out (children aaf ! arg) (aaf, g, stack))"
    unfolding res worklist_inv_def using counts_in_grounded[OF wf c'] by auto
  have "card ({..<?n} - bits (lab_in g')) + length new = card ({..<?n} - bits (lab_in g))"
  proof -
    have "set new \<subseteq> {..<?n} - bits (lab_in g)"
      using new counts_in_grounded[OF wf c'] \<open>_ \<subseteq> attacked ?F (grounded_ext ?F)\<close>
        grounded_args[of _ ?F] by auto
    moreover have "{..<?n} - bits (lab_in g') = ({..<?n} - bits (lab_in g)) - set new" using new by auto
    ultimately show ?thesis
      using distinct_card[OF new(1)] card_mono[of "{..<?n} - bits (lab_in g)" "set new"]
      by (simp add: card_Diff_subset)
  qed
  then show "worklist_measure A (fold set_out (children aaf ! arg) (aaf, g, stack)) <
      worklist_measure A (aaf, g, arg # stack)"
    unfolding res worklist_measure_def by simp
qed

lemma worklist_init:
  assumes wf: "wf_aaf A" and fr: "fresh_aaf A" and g: "\<not> twoValued g"
    and g': "g' = g\<lparr>lab_in := bitset__clone (initial A),
      lab_out := bitset__unsetAll (bitset__init (number_of_arguments A))\<rparr>"
  shows "worklist_inv A (A, g', fold (\<lambda>a stack. a # stack) (bitset_members (lab_in g')) [])"
proof -
  let ?n = "number_of_arguments A" and ?st = "fold (\<lambda>a stack. a # stack) (bitset_members (lab_in g')) []"
  have st: "?st = rev (bitset_members (lab_in g'))" by (metis append_Nil2 fold_Cons_rev)
  have b: "wf_bitset (initial A)" "bit_length (initial A) = ?n"
    and init: "\<And>i. i < ?n \<Longrightarrow> bit_at (initial A) i \<longleftrightarrow> parents A ! i = []"
    and cnt: "number_of_attackers A = map length (parents A)"
    using fr by (simp_all add: fresh_aaf_def Let_def)
  have len: "length (parents A) = ?n" using wf_aafD(2)[OF wf] .
  have inn: "bits (lab_in g') = {j. j < ?n \<and> parents A ! j = []}"
    using b init by (auto simp: bits_def g')
  have wfl: "wf_labeling ?n g'" using b by (simp add: wf_labeling_def g')
  then have set_st: "set ?st = bits (lab_in g')" and dist: "distinct ?st"
    unfolding st by (simp_all add: wf_labeling_def bitset_members_eq)
      (auto simp: bits_def)
  have out: "bits (lab_out g') = {}" by (auto simp: g' bits_def)
  have "counts A {} (A, g', ?st)"
    unfolding counts_def prod.case
  proof (intro conjI allI impI)
    show "A = A\<lparr>number_of_attackers := number_of_attackers A\<rparr>" by simp
    show "length (number_of_attackers A) = ?n" by (simp add: cnt len)
    show "number_of_attackers A ! j = length (filter (\<lambda>p. p \<notin> {}) (parents A ! j))" if "j < ?n" for j
      using that by (simp add: cnt len)
    have "number_of_attackers A ! j = 0 \<longleftrightarrow> parents A ! j = []" if "j < ?n" for j
      using that by (simp add: cnt len)
    then show "bits (lab_in g') = {j. j < ?n \<and> number_of_attackers A ! j = 0}"
      unfolding inn by blast
    show "\<not> twoValued g'" using g by (simp add: g')
  qed (use wfl out in simp_all)
  moreover have "bits (lab_in g') \<subseteq> grounded_ext (af_of A)"
    by (rule counts_in_grounded[OF wf calculation]) simp
  ultimately show ?thesis
    using dist set_st unfolding worklist_inv_def prod.case by (simp add: attacked_def)
qed

text \<open>When the worklist is empty, the labels are those of the grounded extension.\<close>

lemma worklist_end:
  assumes inv: "worklist_inv A (aaf, g, [])"
  shows "grounded_labeling A g" and "bits (lab_in g) = grounded_ext (af_of A)"
    and "aaf = A\<lparr>number_of_attackers := number_of_attackers aaf\<rparr>"
proof -
  let ?G = "grounded_ext (af_of A)"
  have c: "counts A (attacked (af_of A) (bits (lab_in g))) (aaf, g, [])" and sub: "bits (lab_in g) \<subseteq> ?G"
    using inv unfolding worklist_inv_def prod.case by simp_all
  note cs = c[unfolded counts_def prod.case]
  have "a \<in> bits (lab_in g)" if "a \<in> ?G" for a
    using that
  proof (induction rule: grounded_ext.induct)
    case (groundedI a)
    then have a: "a < number_of_arguments A" by simp
    have "p \<in> attacked (af_of A) (bits (lab_in g))" if "p \<in> set (parents A ! a)" for p
    proof -
      have "(p, a) \<in> attacks (af_of A)" using that a by (simp add: attacks_af_of)
      then show ?thesis using groundedI(2) by (auto simp: attacked_def)
    qed
    then have "filter (\<lambda>p. p \<notin> attacked (af_of A) (bits (lab_in g))) (parents A ! a) = []"
      by (simp add: filter_empty_conv)
    then have "number_of_attackers aaf ! a = 0" using cs a by simp
    then show ?case using cs a by blast
  qed
  with sub show G: "bits (lab_in g) = ?G" by blast
  show "grounded_labeling A g"
    unfolding grounded_labeling_def
  proof (intro conjI allI impI)
    fix i assume i: "i < number_of_arguments A"
    have "bit_length (lab_in g) = number_of_arguments A" "bit_length (lab_out g) = number_of_arguments A"
      using cs by (simp_all add: wf_labeling_def)
    then show "bit_at (lab_in g) i \<longleftrightarrow> i \<in> ?G"
      "bit_at (lab_out g) i \<longleftrightarrow> i \<in> attacked (af_of A) ?G"
      using i counts_frame(3)[OF c] G by (simp_all add: bit_at_bits)
  qed (use cs in blast)+
  show "aaf = A\<lparr>number_of_attackers := number_of_attackers aaf\<rparr>" using cs by blast
qed

lemma worklist_measure_start:
  assumes inv: "worklist_inv A (aaf, g, stack)"
  shows "worklist_measure A (aaf, g, stack) \<le> number_of_arguments A"
proof -
  have d: "distinct stack" and s: "set stack \<subseteq> bits (lab_in g)"
    and w: "bits (lab_in g) \<subseteq> {..<number_of_arguments A}"
    using inv grounded_args[of _ "af_of A"] unfolding worklist_inv_def prod.case by auto
  have "length stack \<le> card (bits (lab_in g))"
    using s by (simp only: distinct_card[OF d, symmetric] card_mono finite_bits)
  moreover have "card ({..<number_of_arguments A} - bits (lab_in g)) + card (bits (lab_in g)) = number_of_arguments A"
    using w card_Diff_subset[OF finite_bits w] card_mono[OF _ w] by simp
  ultimately show ?thesis unfolding worklist_measure_def prod.case by linarith
qed

text \<open>
  Total correctness: with one iteration more than there are arguments the loop ends, and the labels
  are those of the grounded extension.  Only the attack counters of the framework change.
\<close>

lemma compute_grounded_rok:
  assumes wf: "wf_aaf A" and fr: "fresh_aaf A" and g: "\<not> twoValued g"
    and fuel: "number_of_arguments A < fuel"
  shows "rok (taas__compute_grounded fuel A g) (\<lambda>(A', g').
    grounded_labeling A g' \<and> A' = A\<lparr>number_of_attackers := number_of_attackers A'\<rparr>)"
  unfolding taas__compute_grounded_def Let_def
proof (rule rok_rloop[where I = "worklist_inv A" and \<mu> = "worklist_measure A"])
  let ?g = "g\<lparr>lab_in := bitset__clone (initial A),
      lab_out := bitset__unsetAll (bitset__init (number_of_arguments A))\<rparr>"
  let ?st = "fold (\<lambda>a stack. a # stack) (bitset_members (lab_in ?g)) []"
  show inv: "worklist_inv A (A, ?g, ?st)" by (rule worklist_init[OF wf fr g refl])
  show "worklist_measure A (A, ?g, ?st) < fuel" using worklist_measure_start[OF inv] fuel by linarith
next
  fix s assume inv: "worklist_inv A s"
  obtain aaf g stack where s: "s = (aaf, g, stack)" by (cases s)
  show "rok (grounded_loop s) (\<lambda>t. case t of
      Continue s' \<Rightarrow> worklist_inv A s' \<and> worklist_measure A s' < worklist_measure A s
    | Break (A', g') \<Rightarrow> grounded_labeling A g' \<and> A' = A\<lparr>number_of_attackers := number_of_attackers A'\<rparr>)"
  proof (cases stack)
    case (Cons arg stack')
    show ?thesis
      using worklist_step[OF wf inv[unfolded s Cons]] by (simp add: grounded_loop_def s Cons)
  next
    case Nil
    show ?thesis using worklist_end[OF inv[unfolded s Nil]] by (simp add: grounded_loop_def s Nil)
  qed
qed

text \<open>The early exit test: nothing is left undecided.\<close>

lemma fullcovered_iff:
  assumes g: "grounded_labeling A g"
  shows "fullcovered g A \<longleftrightarrow> stable (af_of A) (grounded_ext (af_of A))"
proof -
  let ?F = "af_of A" and ?G = "grounded_ext (af_of A)"
  have cf: "conflict_free ?F ?G"
    using grounded_admissible by (simp add: admissible_def)
  have "fullcovered g A \<longleftrightarrow> (\<forall>i<number_of_arguments A. i \<in> attacked ?F ?G \<or> i \<in> ?G)"
    using grounded_labelingD(1,2)[OF g] by (auto simp: fullcovered_def list_all_iff)
  also have "\<dots> \<longleftrightarrow> stable ?F ?G"
    unfolding stable_def attacked_def using cf by (simp add: Ball_def Bex_def Image_iff) blast
  finally show ?thesis .
qed

section \<open>Local correctness of labels\<close>

text \<open>The last loop of both checks: it fails on an attacker that is in and looks for one undecided.\<close>

fun undec_scan :: "(nat \<Rightarrow> int) \<Rightarrow> nat list \<Rightarrow> bool \<Rightarrow> bool" where
  "undec_scan label [] undec_attacker = undec_attacker"
| "undec_scan label (p # ps) undec_attacker =
     (let attacker_label = label p
      in if attacker_label = LAB_IN then False
         else undec_scan label ps (if attacker_label = LAB_UNDEC then True else undec_attacker))"

definition taas__labeled_correctly :: "AAF \<Rightarrow> Labeling \<Rightarrow> nat \<Rightarrow> bool" where
  "taas__labeled_correctly aaf lab arg =
     (let label = taas__lab_get_label lab arg
      in if label = LAB_IN then
           if list_ex (\<lambda>c. taas__lab_get_label lab c \<noteq> LAB_OUT) (children aaf ! arg) then False
           else if list_ex (\<lambda>p. taas__lab_get_label lab p \<noteq> LAB_OUT) (parents aaf ! arg) then False
           else True
         else if label = LAB_OUT then
           if list_ex (\<lambda>p. taas__lab_get_label lab p = LAB_IN) (parents aaf ! arg) then True else False
         else if list_ex (\<lambda>c. taas__lab_get_label lab c = LAB_IN) (children aaf ! arg) then False
         else undec_scan (taas__lab_get_label lab) (parents aaf ! arg) False)"

definition taas__labeled_correctly_under_assumption ::
    "AAF \<Rightarrow> Labeling \<Rightarrow> nat \<Rightarrow> nat \<Rightarrow> int \<Rightarrow> bool" where
  "taas__labeled_correctly_under_assumption aaf lab arg arg_other lab_other =
     (let label = (if arg = arg_other then lab_other else taas__lab_get_label lab arg)
      in if label = LAB_IN then
           if list_ex (\<lambda>c. if c = arg_other \<and> lab_other \<noteq> LAB_OUT then True
                           else taas__lab_get_label lab c \<noteq> LAB_OUT) (children aaf ! arg) then False
           else if list_ex (\<lambda>p. if p = arg_other \<and> lab_other \<noteq> LAB_OUT then True
                           else taas__lab_get_label lab p \<noteq> LAB_OUT) (parents aaf ! arg) then False
           else True
         else if label = LAB_OUT then
           if list_ex (\<lambda>p. if p = arg_other \<and> lab_other = LAB_IN then True
                           else taas__lab_get_label lab p = LAB_IN) (parents aaf ! arg) then True
           else False
         else if list_ex (\<lambda>c. if c = arg_other \<and> lab_other \<noteq> LAB_IN then True
                           else taas__lab_get_label lab c = LAB_IN) (children aaf ! arg) then False
         else undec_scan (\<lambda>p. if p = arg_other then lab_other else taas__lab_get_label lab p)
                (parents aaf ! arg) False)"

lemma undec_scan_iff:
  "undec_scan f ps b \<longleftrightarrow> (\<forall>p\<in>set ps. f p \<noteq> LAB_IN) \<and> (b \<or> (\<exists>p\<in>set ps. f p = LAB_UNDEC))"
  by (induction ps arbitrary: b) (auto simp: Let_def LAB_defs)

text \<open>
  If every argument passes the check then the arguments labeled in form a complete extension that
  attacks exactly the arguments labeled out, and every complete extension yields such a labeling.
\<close>

lemma labels_of:
  assumes "\<not> twoValued lab" "wf_labeling n lab" "bits (lab_in lab) \<inter> bits (lab_out lab) = {}" "i < n"
  shows "taas__lab_get_label lab i = LAB_IN \<longleftrightarrow> i \<in> bits (lab_in lab)"
    and "taas__lab_get_label lab i = LAB_OUT \<longleftrightarrow> i \<in> bits (lab_out lab)"
    and "taas__lab_get_label lab i = LAB_UNDEC \<longleftrightarrow> i \<notin> bits (lab_in lab) \<and> i \<notin> bits (lab_out lab)"
proof -
  have "\<not> (i \<in> bits (lab_in lab) \<and> i \<in> bits (lab_out lab))" using assms(3) by blast
  then show "taas__lab_get_label lab i = LAB_IN \<longleftrightarrow> i \<in> bits (lab_in lab)"
    and "taas__lab_get_label lab i = LAB_OUT \<longleftrightarrow> i \<in> bits (lab_out lab)"
    and "taas__lab_get_label lab i = LAB_UNDEC \<longleftrightarrow> i \<notin> bits (lab_in lab) \<and> i \<notin> bits (lab_out lab)"
    using assms(1,2,4) by (simp_all add: taas__lab_get_label_def LAB_defs wf_labeling_def bit_at_bits)
qed

lemma labeled_correctly_cases:
  assumes wf: "wf_aaf A" and lab: "\<not> twoValued lab" "wf_labeling (number_of_arguments A) lab"
      "bits (lab_in lab) \<inter> bits (lab_out lab) = {}"
    and i: "i < number_of_arguments A"
  shows "taas__labeled_correctly A lab i \<longleftrightarrow>
    (if i \<in> bits (lab_in lab)
     then attacked (af_of A) {i} \<subseteq> bits (lab_out lab) \<and> set (parents A ! i) \<subseteq> bits (lab_out lab)
     else if i \<in> bits (lab_out lab) then i \<in> attacked (af_of A) (bits (lab_in lab))
     else attacked (af_of A) {i} \<inter> bits (lab_in lab) = {} \<and> i \<notin> attacked (af_of A) (bits (lab_in lab)) \<and>
       \<not> set (parents A ! i) \<subseteq> bits (lab_out lab))"
proof -
  let ?L = "taas__lab_get_label lab" and ?I = "bits (lab_in lab)" and ?U = "bits (lab_out lab)"
  note l = labels_of[OF lab]
  have kids: "attacked (af_of A) {i} = set (children A ! i)"
    using children_attacks[OF wf i] by (auto simp: attacked_def)
  have par: "i \<in> attacked (af_of A) ?I \<longleftrightarrow> (\<exists>p\<in>set (parents A ! i). p \<in> ?I)"
    using i unfolding attacked_def Image_iff attacks_af_of by blast
  have c: "c < number_of_arguments A" if "c \<in> set (children A ! i)" for c
    using that child_bound[OF wf i] by blast
  have p: "p < number_of_arguments A" if "p \<in> set (parents A ! i)" for p
    using that parent_bound[OF wf i] by blast
  have lc: "(?L c = LAB_OUT \<longleftrightarrow> c \<in> ?U) \<and> (?L c = LAB_IN \<longleftrightarrow> c \<in> ?I)" if "c \<in> set (children A ! i)" for c
    using l(1,2)[OF c[OF that]] by simp
  have lp: "(?L p = LAB_OUT \<longleftrightarrow> p \<in> ?U) \<and> (?L p = LAB_IN \<longleftrightarrow> p \<in> ?I) \<and> (?L p = LAB_UNDEC \<longleftrightarrow> p \<notin> ?I \<and> p \<notin> ?U)"
    if "p \<in> set (parents A ! i)" for p
    using l[OF p[OF that]] by simp
  consider "i \<in> ?I" | "i \<in> ?U" "i \<notin> ?I" | "i \<notin> ?I" "i \<notin> ?U" by blast
  then show ?thesis
  proof cases
    case 1
    then have "?L i = LAB_IN" using l(1)[OF i] by simp
    with 1 show ?thesis
      using lc lp by (simp add: taas__labeled_correctly_def list_ex_iff kids subset_iff) blast
  next
    case 2
    then have "?L i = LAB_OUT" using l(2)[OF i] by simp
    with 2 show ?thesis
      using lp by (simp add: taas__labeled_correctly_def list_ex_iff par LAB_defs)
  next
    case 3
    then have "?L i = LAB_UNDEC" using l(3)[OF i] by simp
    then have "taas__labeled_correctly A lab i \<longleftrightarrow>
        (\<forall>c\<in>set (children A ! i). ?L c \<noteq> LAB_IN) \<and> (\<forall>p\<in>set (parents A ! i). ?L p \<noteq> LAB_IN) \<and>
        (\<exists>p\<in>set (parents A ! i). ?L p = LAB_UNDEC)"
      by (auto simp: taas__labeled_correctly_def list_ex_iff undec_scan_iff LAB_defs)
    with 3 show ?thesis
      using lc lp by (simp add: kids par) blast
  qed
qed

lemma labeled_correctly_complete:
  assumes wf: "wf_aaf A" and lab: "\<not> twoValued lab" "wf_labeling (number_of_arguments A) lab"
      "bits (lab_in lab) \<inter> bits (lab_out lab) = {}"
  shows "(\<forall>i<number_of_arguments A. taas__labeled_correctly A lab i) \<longleftrightarrow>
    complete_ext (af_of A) (bits (lab_in lab)) \<and>
    bits (lab_out lab) = attacked (af_of A) (bits (lab_in lab))"
    (is "?C \<longleftrightarrow> _")
proof -
  let ?F = "af_of A" and ?n = "number_of_arguments A" and ?I = "bits (lab_in lab)" and ?U = "bits (lab_out lab)"
  note cases = labeled_correctly_cases[OF wf lab]
  have I: "?I \<subseteq> {..<?n}" and U: "?U \<subseteq> {..<?n}" using lab(2) by (auto simp: wf_labeling_def bits_def)
  have D: "set (parents A ! i) \<subseteq> attacked ?F ?I \<longleftrightarrow> defends ?F ?I i" if "i < ?n" for i
    using that by (simp add: defends_def attacked_def attacks_af_of Image_iff subset_iff Bex_def)
  show ?thesis
  proof
    assume C: ?C
    have att: "?U = attacked ?F ?I"
    proof
      show "?U \<subseteq> attacked ?F ?I"
      proof
        fix i assume "i \<in> ?U"
        moreover from this U lab(3) have "i < ?n" "i \<notin> ?I" by auto
        ultimately show "i \<in> attacked ?F ?I" using C cases[of i] by simp
      qed
      show "attacked ?F ?I \<subseteq> ?U"
      proof
        fix j assume "j \<in> attacked ?F ?I"
        then obtain i where "i \<in> ?I" "j \<in> attacked ?F {i}" by (auto simp: attacked_def)
        then show "j \<in> ?U" using C cases[of i] I by auto
      qed
    qed
    have cf: "conflict_free ?F ?I"
      using I att lab(3) by (auto simp: conflict_free_def attacked_def)
    have "defends ?F ?I i" if "i \<in> ?I" for i
      using C cases[of i] I that D[of i] att by auto
    moreover have "i \<in> ?I" if "i < ?n" "defends ?F ?I i" for i
    proof (rule ccontr)
      assume "i \<notin> ?I"
      moreover have "i \<notin> ?U"
        using that(2) cf unfolding att by (auto simp: defends_def attacked_def conflict_free_def)
      ultimately show False using C cases[OF that(1)] D[OF that(1)] that att by simp
    qed
    ultimately show "complete_ext ?F ?I \<and> ?U = attacked ?F ?I"
      using cf att by (simp add: complete_ext_def admissible_def)
  next
    assume R: "complete_ext ?F ?I \<and> ?U = attacked ?F ?I"
    then have adm: "admissible ?F ?I" by (simp add: complete_ext_def)
    show ?C
    proof (intro allI impI)
      fix i assume i: "i < ?n"
      have "attacked ?F {i} \<inter> ?I = {}" if "i \<notin> ?U"
      proof -
        have False if "j \<in> ?I" "(i, j) \<in> attacks ?F" for j
          using admissible_defence[OF adm that] \<open>i \<notin> ?U\<close> R by (auto simp: attacked_def)
        then show ?thesis by (auto simp: attacked_def)
      qed
      moreover have "attacked ?F {i} \<subseteq> ?U" if "i \<in> ?I" using that R by (auto simp: attacked_def)
      moreover have "defends ?F ?I i \<longleftrightarrow> i \<in> ?I"
        using R adm i unfolding complete_ext_def admissible_def by auto
      then have "set (parents A ! i) \<subseteq> ?U \<longleftrightarrow> i \<in> ?I" using R D[OF i] by simp
      ultimately show "taas__labeled_correctly A lab i" using R by (auto simp: cases[OF i])
    qed
  qed
qed

text \<open>
  The check under an assumption agrees with the check of the updated labeling when the assumed
  argument is not a neighbour.
\<close>

lemma under_assumption_away:
  assumes "wf_labeling n lab" "\<not> twoValued lab" "arg_other < n"
    and l: "l \<in> {LAB_IN, LAB_OUT, LAB_UNDEC, LAB_UNLABELED}"
    and "arg_other \<notin> set (children A ! arg)" "arg_other \<notin> set (parents A ! arg)"
  shows "taas__labeled_correctly_under_assumption A lab arg arg_other l =
    taas__labeled_correctly A (taas__lab_set_label lab arg_other l) arg"
proof -
  note gs = get_set_label[OF assms(1,2,3) l]
  let ?lab = "taas__lab_set_label lab arg_other l"
  have "taas__lab_get_label ?lab j = taas__lab_get_label lab j"
    if "j \<in> set (children A ! arg) \<or> j \<in> set (parents A ! arg)" for j
  proof -
    have "j \<noteq> arg_other" using that assms(5,6) by blast
    then show ?thesis by (rule gs(2))
  qed
  then have away: "taas__lab_get_label ?lab j = taas__lab_get_label lab j" "j \<noteq> arg_other"
    if "j \<in> set (children A ! arg) \<union> set (parents A ! arg)" for j
    using that assms(5,6) by auto
  have own: "taas__lab_get_label ?lab arg = (if arg = arg_other then l else taas__lab_get_label lab arg)"
    using gs(1,2) by simp
  have ex: "list_ex (\<lambda>c. if c = arg_other \<and> b then True else taas__lab_get_label lab c = k) xs =
        list_ex (\<lambda>c. taas__lab_get_label ?lab c = k) xs"
      "list_ex (\<lambda>c. if c = arg_other \<and> b then True else taas__lab_get_label lab c \<noteq> k) xs =
        list_ex (\<lambda>c. taas__lab_get_label ?lab c \<noteq> k) xs"
    if "set xs \<subseteq> set (children A ! arg) \<union> set (parents A ! arg)" for xs b k
    using away that by (auto intro!: list_ex_cong)
  have scan: "undec_scan (\<lambda>p. if p = arg_other then l else taas__lab_get_label lab p) (parents A ! arg) False =
      undec_scan (taas__lab_get_label ?lab) (parents A ! arg) False"
    using away by (auto simp: undec_scan_iff)
  show ?thesis
    by (simp only: taas__labeled_correctly_def taas__labeled_correctly_under_assumption_def Let_def
        own scan ex Un_upper1 Un_upper2)
qed

end
