(* ===== verification/Stable.thy ===== *)
theory Stable
  imports TaskBase
begin

text \<open>
  The tracks on stable extensions: tasks/task_se-st.cpp, task_dc-st.cpp, task_ds-st.cpp and
  task_ce-st.cpp.  Each function returns what it prints (and its boolean result); the specifications
  compare that with the stable extensions of the abstract framework.
\<close>

section \<open>The solve functions\<close>

definition solve_sest :: "sat_oracle \<Rightarrow> TaskSpecification \<Rightarrow> AAF \<Rightarrow> Labeling \<Rightarrow> string result" where
  "solve_sest ips task aaf grounded =
     (let n = number_of_arguments aaf;
          solver = sat__init (n + 1);
          (in_vars, idx) = alloc_vars n 1
      in rbind (add_stbTestClauses solver in_vars aaf grounded) (\<lambda>solver.
         rbind (sat__solve ips solver) (\<lambda>(sat, solver).
         if sat = 20 then Inr NO
         else rbind (print_model solver in_vars (print_name aaf) n) (\<lambda>out.
              Inr (''w '' @ out @ newline)))))"

definition solve_dcst ::
    "sat_oracle \<Rightarrow> TaskSpecification \<Rightarrow> AAF \<Rightarrow> Labeling \<Rightarrow> bool \<Rightarrow> (bool \<times> string) result" where
  "solve_dcst ips task aaf grounded do_print =
     (let n = number_of_arguments aaf;
          solver = sat__init (n + 1);
          (in_vars, idx) = alloc_vars n 1
      in rbind (add_stbTestClauses solver in_vars aaf grounded) (\<lambda>solver.
         let solver = sat__assume solver (in_vars ! query task)
         in rbind (sat__solve ips solver) (\<lambda>(sat, solver).
         if sat = 20 then Inr (False, if do_print then NO else [])
         else if do_print then
           rbind (print_model solver in_vars print_number n) (\<lambda>out.
             Inr (True, YES @ ''w '' @ out @ newline))
         else Inr (True, []))))"

definition solve_dsst ::
    "sat_oracle \<Rightarrow> TaskSpecification \<Rightarrow> AAF \<Rightarrow> Labeling \<Rightarrow> bool \<Rightarrow> (bool \<times> string) result" where
  "solve_dsst ips task aaf grounded do_print =
     (let n = number_of_arguments aaf;
          solver = sat__init (n + 1);
          (in_vars, idx) = alloc_vars n 1
      in rbind (add_stbTestClauses solver in_vars aaf grounded) (\<lambda>solver.
         rbind (sat__solve ips solver) (\<lambda>(sat, solver).
         if sat = 20 then Inr (True, if do_print then YES else [])
         else if bit_at (lab_in grounded) (query task) then Inr (True, if do_print then YES else [])
         else if bit_at (lab_out grounded) (query task) then
           if do_print then
             rbind (print_model solver in_vars print_number n) (\<lambda>out.
               Inr (False, NO @ ''w '' @ out @ newline))
           else Inr (False, [])
         else
           let solver = sat__assume solver (- (in_vars ! query task))
           in rbind (sat__solve ips solver) (\<lambda>(sat, solver).
              if sat = 20 then Inr (True, if do_print then YES else [])
              else if do_print then
                rbind (print_model solver in_vars print_number n) (\<lambda>out.
                  Inr (False, NO @ ''w '' @ out @ newline))
              else Inr (False, [])))))"

definition cest_loop ::
    "sat_oracle \<Rightarrow> int list \<Rightarrow> nat \<Rightarrow> ipasir \<times> nat \<Rightarrow> (ipasir \<times> nat, nat) step result" where
  "cest_loop ips in_vars n = (\<lambda>(solver, stb_cnt).
     rbind (sat__solve ips solver) (\<lambda>(sat, solver).
     if sat = 10 then
       let stb_cnt = stb_cnt + 1
       in rbind (false_vars n solver in_vars n) (\<lambda>clause.
          if length clause = 0 then Inr (Break stb_cnt)
          else Inr (Continue (sat__addClause solver clause (length clause), stb_cnt)))
     else Inr (Break stb_cnt)))"

definition solve_cest ::
    "nat \<Rightarrow> sat_oracle \<Rightarrow> TaskSpecification \<Rightarrow> AAF \<Rightarrow> Labeling \<Rightarrow> string result" where
  "solve_cest fuel ips task aaf grounded =
     (let n = number_of_arguments aaf;
          solver = sat__init (n + 1);
          (in_vars, idx) = alloc_vars n 1
      in rbind (add_stbTestClauses solver in_vars aaf grounded) (\<lambda>solver.
         rbind (rloop fuel (cest_loop ips in_vars n) (solver, 0)) (\<lambda>stb_cnt.
         Inr (show_nat stb_cnt @ newline))))"

section \<open>Specifications\<close>

lemma stb_models:
  assumes wf: "wf_aaf A" and g: "grounded_labeling A g" and iv: "vars_ok (number_of_arguments A) iv"
    and dist: "distinct iv"
  shows "rok (add_stbTestClauses (sat__init m) iv A g) (\<lambda>s. models s iv {E. stable (af_of A) E} \<and> assumed s = [])"
proof (rule rok_weaken[OF add_stbTestClauses_rok[OF wf iv ready_init(1)]])
  let ?n = "number_of_arguments A"
  fix s assume s: "adds (sat__init m) s (\<lambda>v. \<forall>i<?n. stb_cond A g (true_set v iv) i)"
  have iff: "holds v s \<longleftrightarrow> stable (af_of A) (true_set v iv)" for v
    using addsD(3)[OF s] stb_cond_iff[OF wf g true_set_subset[OF iv]] by simp
  have "\<exists>v. true_set v iv = E" if "stable (af_of A) E" for E
  proof -
    have "E \<subseteq> {..<?n}" using that by (simp add: stable_def conflict_free_def)
    moreover obtain v where "\<forall>i<length iv. lit_true v (iv ! i) \<longleftrightarrow> i \<in> E"
      using valuation_exists[OF dist, of "\<lambda>i. i \<in> E"] iv by (auto simp: vars_ok_def)
    ultimately show ?thesis using iv by (intro exI[of _ v]) (auto simp: true_set_def vars_ok_def)
  qed
  with iff addsD(1,2)[OF s]
  show "models s iv {E. stable (af_of A) E} \<and> assumed s = []" unfolding models_def by auto
qed

lemma solve_sest_rok:
  assumes wf: "wf_aaf A" and g: "grounded_labeling A g" and ips: "oracle_ok ips"
  shows "rok (solve_sest ips task A g) (\<lambda>out.
    (\<exists>E. stable (af_of A) E \<and> prints_ext A E out) \<or> (\<forall>E. \<not> stable (af_of A) E) \<and> out = NO)"
proof -
  obtain iv idx where al: "alloc_vars (number_of_arguments A) 1 = (iv, idx)" by fastforce
  note iv = in_alloc(1)[OF al]
  show ?thesis
    unfolding solve_sest_def al Let_def prod.case
  proof (rule rok_bind[OF stb_models[OF wf g iv in_alloc(2)[OF al]]], elim conjE, rule rok_rbind,
      rule solve_models[OF ips, where Q = "\<lambda>_. True"], assumption)
    fix s' v
    assume st: "true_set v iv \<in> {E. stable (af_of A) E}" and m: "model_is s' v"
    show "rok (case (10 :: int, s') of (sat, solver) \<Rightarrow> if sat = 20 then Inr NO
        else rbind (print_model solver iv (print_name A) (number_of_arguments A)) (\<lambda>out.
          Inr (''w '' @ out @ newline)))
      (\<lambda>out. (\<exists>E. stable (af_of A) E \<and> prints_ext A E out) \<or> (\<forall>E. \<not> stable (af_of A) E) \<and> out = NO)"
      using print_model_lists[OF m iv, of "print_name A"] st
      by (auto simp: prints_ext_def intro!: rok_rbind elim!: rok_weaken)
  qed (auto simp: assuming_none)
qed

text \<open>The witness lines of the decision tracks number the arguments from 1.\<close>

lemma solve_dcst_rok:
  assumes wf: "wf_aaf A" and g: "grounded_labeling A g" and ips: "oracle_ok ips"
    and q: "query task < number_of_arguments A"
  shows "rok (solve_dcst ips task A g do_print) (\<lambda>(b, out).
    b = credulous (stable (af_of A)) (query task) \<and>
    (do_print \<longrightarrow> (if b then \<exists>E w. stable (af_of A) E \<and> query task \<in> E \<and>
        lists_set print_number E w \<and> out = YES @ w else out = NO)) \<and>
    (\<not> do_print \<longrightarrow> out = []))"
proof -
  obtain iv idx where al: "alloc_vars (number_of_arguments A) 1 = (iv, idx)" by fastforce
  note iv = in_alloc(1)[OF al]
  show ?thesis
    unfolding solve_dcst_def al Let_def prod.case
  proof (rule rok_bind[OF stb_models[OF wf g iv in_alloc(2)[OF al]]], elim conjE, rule rok_rbind,
      rule solve_models[OF ips models_assume, where Q = "\<lambda>E. query task \<in> E"], assumption)
    fix s :: ipasir and v assume "assumed s = []"
    then show "assuming v (sat__assume s (iv ! query task)) \<longleftrightarrow> query task \<in> true_set v iv"
      by (rule assuming_in[OF iv q])
  next
    fix s' v
    assume st: "true_set v iv \<in> {E. stable (af_of A) E}" "query task \<in> true_set v iv" and m: "model_is s' v"
    then have b: "credulous (stable (af_of A)) (query task)" by (auto simp: credulous_def)
    show "rok (case (10 :: int, s') of (sat, solver) \<Rightarrow> if sat = 20 then Inr (False, if do_print then NO else [])
        else if do_print then rbind (print_model solver iv print_number (number_of_arguments A)) (\<lambda>out.
          Inr (True, YES @ ''w '' @ out @ newline))
        else Inr (True, []))
      (\<lambda>(b, out). b = credulous (stable (af_of A)) (query task) \<and>
        (do_print \<longrightarrow> (if b then \<exists>E w. stable (af_of A) E \<and> query task \<in> E \<and>
            lists_set print_number E w \<and> out = YES @ w else out = NO)) \<and>
        (\<not> do_print \<longrightarrow> out = []))"
      using print_model_lists[OF m iv, of print_number] st b
      by (auto intro!: rok_rbind elim!: rok_weaken)
  qed (auto simp: credulous_def)
qed

lemma solve_dsst_rok:
  assumes wf: "wf_aaf A" and g: "grounded_labeling A g" and ips: "oracle_ok ips"
    and q: "query task < number_of_arguments A"
  shows "rok (solve_dsst ips task A g do_print) (\<lambda>(b, out).
    b = skeptical (stable (af_of A)) (query task) \<and>
    (do_print \<longrightarrow> (if b then out = YES else \<exists>E w. stable (af_of A) E \<and> query task \<notin> E \<and>
        lists_set print_number E w \<and> out = NO @ w)) \<and>
    (\<not> do_print \<longrightarrow> out = []))"
    (is "rok _ ?Q")
proof -
  let ?S = "{E. stable (af_of A) E}"
  obtain iv idx where al: "alloc_vars (number_of_arguments A) 1 = (iv, idx)" by fastforce
  note iv = in_alloc(1)[OF al]
  have witness: "rok (if do_print then rbind (print_model s iv print_number (number_of_arguments A)) (\<lambda>out.
      Inr (False, NO @ ''w '' @ out @ newline)) else Inr (False, [])) ?Q"
    if m: "model_is s v" and st: "stable (af_of A) (true_set v iv)" and out: "query task \<notin> true_set v iv" for s v
  proof -
    have "\<not> skeptical (stable (af_of A)) (query task)" using st out by (auto simp: skeptical_def)
    then show ?thesis
      using print_model_lists[OF m iv, of print_number] st out by (auto intro!: rok_rbind elim!: rok_weaken)
  qed
  have yes: "?Q (True, if do_print then YES else [])"
    if "\<And>E. stable (af_of A) E \<Longrightarrow> query task \<in> E"
    using that by (auto simp: skeptical_def)
  note G = stable_grounded[OF wf_af_of[OF wf]]
  have gin: "query task \<in> E" if "bit_at (lab_in g) (query task)" "stable (af_of A) E" for E
    using G[OF that(2)] that(1) grounded_labelingD(1)[OF g q] by blast
  have gout: "query task \<notin> E" if "bit_at (lab_out g) (query task)" "stable (af_of A) E" for E
    using grounded_out_not_credulous[OF wf_af_of[OF wf] preferred_admissible[OF stable_preferred[OF wf_af_of[OF wf] that(2)]]]
      that(1) grounded_labelingD(2)[OF g q] by blast
  show ?thesis
    unfolding solve_dsst_def al Let_def prod.case
  proof (rule rok_bind[OF stb_models[OF wf g iv in_alloc(2)[OF al]]], elim conjE, rule rok_rbind,
      rule solve_models[OF ips, where Q = "\<lambda>_. True"], assumption)
    fix s' v
    assume st: "true_set v iv \<in> ?S" and m: "model_is s' v" and s': "models s' iv ?S" "assumed s' = []"
    have "rok (rbind (sat__solve ips (sat__assume s' (- (iv ! query task)))) (\<lambda>(sat, solver).
        if sat = 20 then Inr (True, if do_print then YES else [])
        else if do_print then rbind (print_model solver iv print_number (number_of_arguments A)) (\<lambda>out.
          Inr (False, NO @ ''w '' @ out @ newline)) else Inr (False, []))) ?Q"
    proof (rule rok_rbind, rule solve_models[OF ips models_assume[OF s'(1)], where Q = "\<lambda>E. query task \<notin> E"])
      show "assuming v (sat__assume s' (- (iv ! query task))) \<longleftrightarrow> query task \<notin> true_set v iv" for v
        by (rule assuming_not_in[OF iv q s'(2)])
    next
      fix s'' v assume "true_set v iv \<in> ?S" "query task \<notin> true_set v iv" "model_is s'' v"
      then show "rok (case (10 :: int, s'') of (sat, solver) \<Rightarrow>
          if sat = 20 then Inr (True, if do_print then YES else [])
          else if do_print then rbind (print_model solver iv print_number (number_of_arguments A)) (\<lambda>out.
            Inr (False, NO @ ''w '' @ out @ newline)) else Inr (False, [])) ?Q"
        using witness[of s'' v] by simp
    qed (use yes in simp)
    then show "rok (case (10 :: int, s') of (sat, solver) \<Rightarrow>
        if sat = 20 then Inr (True, if do_print then YES else [])
        else if bit_at (lab_in g) (query task) then Inr (True, if do_print then YES else [])
        else if bit_at (lab_out g) (query task) then
          if do_print then rbind (print_model solver iv print_number (number_of_arguments A)) (\<lambda>out.
            Inr (False, NO @ ''w '' @ out @ newline)) else Inr (False, [])
        else rbind (sat__solve ips (sat__assume solver (- (iv ! query task)))) (\<lambda>(sat, solver).
          if sat = 20 then Inr (True, if do_print then YES else [])
          else if do_print then rbind (print_model solver iv print_number (number_of_arguments A)) (\<lambda>out.
            Inr (False, NO @ ''w '' @ out @ newline)) else Inr (False, []))) ?Q"
      using yes gin witness[OF m, of] gout st by simp
  qed (auto simp: assuming_none skeptical_def)
qed

section \<open>Counting\<close>

lemma cest_loop_count: "cest_loop ips iv n = count_loop ips (\<lambda>s. false_vars n s iv n)"
  by (simp add: cest_loop_def count_loop_def)

text \<open>
  Each round finds a stable extension that is in no earlier one, so the number of rounds is the
  number of stable extensions, and one round more than that suffices.
\<close>

lemma solve_cest_rok:
  assumes wf: "wf_aaf A" and g: "grounded_labeling A g" and ips: "oracle_ok ips"
    and fuel: "card {E. stable (af_of A) E} < fuel"
  shows "rok (solve_cest fuel ips task A g) (\<lambda>out. out = show_nat (card {E. stable (af_of A) E}) @ newline)"
proof -
  obtain iv idx where al: "alloc_vars (number_of_arguments A) 1 = (iv, idx)" by fastforce
  note iv = in_alloc(1)[OF al]
  have fin: "finite {E. stable (af_of A) E}"
    by (rule finite_extensions[of _ "number_of_arguments A"]) (simp add: stable_def conflict_free_def)
  show ?thesis
    unfolding solve_cest_def al Let_def prod.case
  proof (rule rok_bind[OF stb_models[OF wf g iv in_alloc(2)[OF al]]], elim conjE, rule rok_bind)
    fix s assume s: "models s iv {E. stable (af_of A) E}" "assumed s = []"
    show "rok (rloop fuel (cest_loop ips iv (number_of_arguments A)) (s, 0)) (\<lambda>r. r = card {E. stable (af_of A) E})"
      unfolding cest_loop_count
    proof (rule count_loop_rok[OF ips fin _ others_nonzero[OF iv] others_true[OF iv] _ s fuel])
      show "E' \<subseteq> E \<longleftrightarrow> E' = E" if "E \<in> {E. stable (af_of A) E}" "E' \<in> {E. stable (af_of A) E}" for E E'
        using that stable_antichain[OF wf_af_of[OF wf]] by blast
    qed (simp add: false_vars_eq[OF _ iv])
  qed simp
qed

end
