(* ===== verification/Complete.thy ===== *)
theory Complete
  imports TaskBase
begin

text \<open>
  The tracks on complete extensions: tasks/task_dc-co.cpp (which also answers DC-PR) and
  tasks/task_ce-co.cpp.
\<close>

section \<open>The solve functions\<close>

definition solve_dcco ::
    "sat_oracle \<Rightarrow> TaskSpecification \<Rightarrow> AAF \<Rightarrow> Labeling \<Rightarrow> bool \<Rightarrow> (bool \<times> string) result" where
  "solve_dcco ips task aaf grounded do_print =
     (let n = number_of_arguments aaf;
          solver_comTest = sat__init (2 * n + 1);
          (in_vars, out_vars, idx) = alloc_in_out n 1
      in rbind (add_comTestClauses solver_comTest in_vars out_vars aaf grounded) (\<lambda>solver_comTest.
         let solver_comTest = sat__assume solver_comTest (in_vars ! query task)
         in rbind (sat__solve ips solver_comTest) (\<lambda>(sat, solver_comTest).
         if sat = 20 then Inr (False, if do_print then NO else [])
         else if do_print then
           rbind (print_model solver_comTest in_vars print_number n) (\<lambda>out.
             Inr (True, YES @ ''w '' @ out @ newline))
         else Inr (True, []))))"

text \<open>The clause of CE-CO: every argument with its membership flipped.\<close>

definition flipped_vars :: "nat \<Rightarrow> ipasir \<Rightarrow> int list \<Rightarrow> nat \<Rightarrow> int list result" where
  "flipped_vars cap solver in_vars n =
     rfold (\<lambda>i clause. rbind (sat__get solver (in_vars ! i)) (\<lambda>x.
       if x > 0 then put_lit cap (- (in_vars ! i)) clause
       else put_lit cap (in_vars ! i) clause)) [0..<n] []"

definition ceco_loop ::
    "sat_oracle \<Rightarrow> int list \<Rightarrow> nat \<Rightarrow> ipasir \<times> nat \<Rightarrow> (ipasir \<times> nat, nat) step result" where
  "ceco_loop ips in_vars n = (\<lambda>(solver, co_cnt).
     rbind (sat__solve ips solver) (\<lambda>(sat, solver).
     if sat = 10 then
       let co_cnt = co_cnt + 1
       in rbind (flipped_vars n solver in_vars n) (\<lambda>clause.
          if length clause = 0 then Inr (Break co_cnt)
          else Inr (Continue (sat__addClause solver clause (length clause), co_cnt)))
     else Inr (Break co_cnt)))"

definition solve_ceco ::
    "nat \<Rightarrow> sat_oracle \<Rightarrow> TaskSpecification \<Rightarrow> AAF \<Rightarrow> Labeling \<Rightarrow> string result" where
  "solve_ceco fuel ips task aaf grounded =
     (let n = number_of_arguments aaf;
          solver = sat__init (2 * n + 1);
          (in_vars, out_vars, idx) = alloc_in_out n 1
      in rbind (add_comTestClauses solver in_vars out_vars aaf grounded) (\<lambda>solver.
         rbind (rloop fuel (ceco_loop ips in_vars n) (solver, 0)) (\<lambda>co_cnt.
         Inr (show_nat co_cnt @ newline))))"

section \<open>Specifications\<close>

lemma com_models:
  assumes wf: "wf_aaf A" and g: "grounded_labeling A g"
    and al: "alloc_in_out (number_of_arguments A) 1 = (iv, ov, idx)"
  shows "rok (add_comTestClauses (sat__init m) iv ov A g)
    (\<lambda>s. models s iv {E. complete_ext (af_of A) E} \<and> assumed s = [])"
  by (rule rok_weaken[OF add_comTestClauses_rok[OF wf in_out_alloc(1,2)[OF al] ready_init(1)]])
    (simp add: com.models_init[OF wf g in_out_alloc(1-3)[OF al]] addsD(2))

text \<open>The credulous answer also holds for preferred semantics; the witness is a complete extension.\<close>

lemma credulous_preferred:
  assumes "wf_framework F"
  shows "credulous (preferred F) a \<longleftrightarrow> credulous (complete_ext F) a"
  using preferred_above[OF assms] preferred_complete[of F] unfolding credulous_def complete_ext_def by blast

lemma solve_dcco_rok:
  assumes wf: "wf_aaf A" and g: "grounded_labeling A g" and ips: "oracle_ok ips"
    and q: "query task < number_of_arguments A"
  shows "rok (solve_dcco ips task A g do_print) (\<lambda>(b, out).
    b = credulous (complete_ext (af_of A)) (query task) \<and>
    (do_print \<longrightarrow> (if b then \<exists>E w. complete_ext (af_of A) E \<and> query task \<in> E \<and>
        lists_set print_number E w \<and> out = YES @ w else out = NO)) \<and>
    (\<not> do_print \<longrightarrow> out = []))"
proof -
  obtain iv ov idx where al: "alloc_in_out (number_of_arguments A) 1 = (iv, ov, idx)"
    by (cases "alloc_in_out (number_of_arguments A) 1") auto
  note iv = in_out_alloc(1)[OF al]
  show ?thesis
    unfolding solve_dcco_def al Let_def prod.case
  proof (rule rok_bind[OF com_models[OF wf g al]], elim conjE, rule rok_rbind,
      rule solve_models[OF ips models_assume, where Q = "\<lambda>E. query task \<in> E"], assumption, goal_cases)
    case (1 s v)
    then show ?case by (intro assuming_in[OF iv q])
  next
    case (2 s s' v)
    then have "credulous (complete_ext (af_of A)) (query task)" by (auto simp: credulous_def)
    with 2 show ?case
      using print_model_lists[OF 2(5) iv, of print_number] by (auto intro!: rok_rbind elim!: rok_weaken)
  qed (auto simp: credulous_def)
qed

definition flipped :: "int list \<Rightarrow> nat set \<Rightarrow> int list" where
  "flipped iv E = map (\<lambda>i. if i \<in> E then - (iv ! i) else iv ! i) [0..<length iv]"

lemma flipped_vars_eq:
  assumes m: "model_is s v" and iv: "vars_ok n iv"
  shows "flipped_vars n s iv n = Inr (flipped iv (true_set v iv))"
proof -
  have "rok (flipped_vars n s iv n) (\<lambda>c. c = map (\<lambda>i. if i \<in> true_set v iv then - (iv ! i) else iv ! i) [0..<n])"
    unfolding flipped_vars_def
  proof (rule rok_for)
    fix i c assume "i < n" "c = map (\<lambda>i. if i \<in> true_set v iv then - (iv ! i) else iv ! i) [0..<i]"
    then show "rok (rbind (sat__get s (iv ! i)) (\<lambda>x. if x > 0 then put_lit n (- (iv ! i)) c else put_lit n (iv ! i) c))
        (\<lambda>c. c = map (\<lambda>i. if i \<in> true_set v iv then - (iv ! i) else iv ! i) [0..<Suc i])"
      using iv by (simp add: sat__get_model[OF m] vars_pos true_set_iff put_lit_rok)
  qed simp
  then show ?thesis using iv by (auto elim!: rokE simp: flipped_def vars_ok_def)
qed

lemma flipped_nonzero: "vars_ok n iv \<Longrightarrow> \<forall>l\<in>set (flipped iv E). l \<noteq> 0"
  by (auto simp: flipped_def vars_ok_def dest!: nth_mem)

lemma flipped_true:
  assumes iv: "vars_ok n iv"
  shows "(\<exists>l\<in>set (flipped iv E). lit_true v l) \<longleftrightarrow> true_set v iv \<noteq> E \<inter> {..<n}"
proof -
  have "(\<exists>l\<in>set (flipped iv E). lit_true v l) \<longleftrightarrow> (\<exists>i<n. (i \<in> true_set v iv) \<noteq> (i \<in> E))"
  proof -
    have "lit_true v (if i \<in> E then - (iv ! i) else iv ! i) \<longleftrightarrow> (i \<in> true_set v iv) \<noteq> (i \<in> E)" if "i < n" for i
      using true_set_iff[OF iv that] vars_nonzero[OF iv that] by auto
    moreover have "length iv = n" using iv by (simp add: vars_ok_def)
    ultimately show ?thesis unfolding flipped_def set_map bex_simps(7) by (simp add: Bex_def)
  qed
  also have "\<dots> \<longleftrightarrow> true_set v iv \<noteq> E \<inter> {..<n}"
    using true_set_bound[OF iv] by auto
  finally show ?thesis .
qed

lemma ceco_loop_count: "ceco_loop ips iv n = count_loop ips (\<lambda>s. flipped_vars n s iv n)"
  by (simp add: ceco_loop_def count_loop_def)

lemma solve_ceco_rok:
  assumes wf: "wf_aaf A" and g: "grounded_labeling A g" and ips: "oracle_ok ips"
    and fuel: "card {E. complete_ext (af_of A) E} < fuel"
  shows "rok (solve_ceco fuel ips task A g)
    (\<lambda>out. out = show_nat (card {E. complete_ext (af_of A) E}) @ newline)"
proof -
  let ?S = "{E. complete_ext (af_of A) E}"
  obtain iv ov idx where al: "alloc_in_out (number_of_arguments A) 1 = (iv, ov, idx)"
    by (cases "alloc_in_out (number_of_arguments A) 1") auto
  note iv = in_out_alloc(1)[OF al]
  have sub: "E \<subseteq> {..<number_of_arguments A}" if "complete_ext (af_of A) E" for E
    using that by (rule com.sem_args)
  show ?thesis
    unfolding solve_ceco_def al Let_def prod.case
  proof (rule rok_bind[OF com_models[OF wf g al]], elim conjE, rule rok_bind)
    fix s assume s: "models s iv ?S" "assumed s = []"
    show "rok (rloop fuel (ceco_loop ips iv (number_of_arguments A)) (s, 0)) (\<lambda>r. r = card ?S)"
      unfolding ceco_loop_count
    proof (rule count_loop_rok[OF ips finite_extensions[OF sub] _ flipped_nonzero[OF iv] _ _ s fuel])
      show "(\<exists>l\<in>set (flipped iv E). lit_true v l) \<longleftrightarrow> \<not> true_set v iv = E \<inter> {..<number_of_arguments A}" for v E
        by (rule flipped_true[OF iv])
    next
      fix E E' assume "E \<in> ?S" "E' \<in> ?S"
      then have "E \<inter> {..<number_of_arguments A} = E" using sub[of E] by blast
      then show "E' = E \<inter> {..<number_of_arguments A} \<longleftrightarrow> E' = E" by simp
    qed (simp_all only: flipped_vars_eq[OF _ iv])
  qed simp
qed

end
