(* ===== verification/Preferred.thy ===== *)
theory Preferred
  imports TaskBase
begin

text \<open>
  tasks/task_se-pr.cpp, task_ds-pr.cpp and task_ce-pr.cpp.  SE-PR grows an admissible set until no
  larger one exists; DS-PR looks for an admissible set that attacks a set with the queried argument
  and cannot be extended by that argument; CE-PR enumerates maximal admissible sets.  The loops run
  with a bound on their iterations: a preferred set is reached within \<open>n + 1\<close> rounds, the search of
  DS-PR and the enumeration of CE-PR visit every admissible set at most once.
\<close>

section \<open>SE-PR\<close>

text \<open>The loop that splits the arguments into newly accepted ones and the clause for the next round.\<close>

definition sepr_scan ::
    "ipasir \<Rightarrow> int list \<Rightarrow> nat \<Rightarrow> RaSet \<Rightarrow> RaSet \<Rightarrow> (RaSet \<times> int list) result" where
  "sepr_scan solver in_vars n admSet temp =
     rfold (\<lambda>i (temp, clause). rbind (sat__get solver (in_vars ! i)) (\<lambda>x.
         if \<not> raset__contains admSet i \<and> x > 0 then Inr (snd (raset__add temp i), clause)
         else if x < 0 then rbind (put_lit n (in_vars ! i) clause) (\<lambda>clause. Inr (temp, clause))
         else Inr (temp, clause)))
       [0..<n] (temp, [])"

definition sepr_loop ::
    "sat_oracle \<Rightarrow> int list \<Rightarrow> nat \<Rightarrow> ipasir \<times> RaSet \<times> RaSet \<Rightarrow> (ipasir \<times> RaSet \<times> RaSet, RaSet) step result"
  where
  "sepr_loop ips in_vars n = (\<lambda>(solver, admSet, temp).
     rbind (sat__solve ips solver) (\<lambda>(sat, solver).
     if sat = 20 then Inr (Break admSet)
     else rbind (sepr_scan solver in_vars n admSet temp) (\<lambda>(temp, clause).
       let solver = sat__addClause solver clause (length clause);
           (admSet, solver) =
             fold (\<lambda>i (admSet, solver).
                 (snd (raset__add admSet (elements_arr temp ! i)),
                  sat__addClause1 solver (in_vars ! (elements_arr temp ! i))))
               [0..<number_of_elements temp] (admSet, solver)
       in Inr (Continue (solver, admSet, raset__reset temp)))))"

definition solve_sepr ::
    "nat \<Rightarrow> sat_oracle \<Rightarrow> TaskSpecification \<Rightarrow> AAF \<Rightarrow> Labeling \<Rightarrow> RaSet option \<Rightarrow> string result" where
  "solve_sepr fuel ips task aaf grounded initial_admSet =
     (let n = number_of_arguments aaf;
          solver = sat__init (2 * n);
          (in_vars, out_vars, idx) = alloc_in_out n 1
      in rbind (add_admTestClauses solver in_vars out_vars aaf grounded) (\<lambda>(solver, all_grounded).
         if all_grounded then print_labeling grounded aaf
         else
           let solver = fold (\<lambda>i solver.
                   if (case initial_admSet of None \<Rightarrow> True | Some r \<Rightarrow> \<not> raset__contains r i)
                   then sat__add solver (in_vars ! i) else solver) [0..<n] solver;
               solver = sat__add solver 0;
               (admSet, solver) = (case initial_admSet of
                   None \<Rightarrow> (raset__init_empty n, solver)
                 | Some r \<Rightarrow> (r, fold (\<lambda>i solver. sat__addClause1 solver (in_vars ! (elements_arr r ! i)))
                                   [0..<number_of_elements r] solver));
               temp = raset__init_empty n
           in rbind (rloop fuel (sepr_loop ips in_vars n) (solver, admSet, temp)) (\<lambda>admSet.
              Inr (raset__print_i23 admSet (ids2arguments aaf)))))"

lemma sepr_scan_rok:
  assumes m: "model_is s v" and iv: "vars_ok n iv" and adm: "raset_is n E admSet" and sub: "E \<subseteq> true_set v iv"
    and temp: "raset_is n {} temp"
  shows "rok (sepr_scan s iv n admSet temp) (\<lambda>(temp', c).
    raset_is n (true_set v iv - E) temp' \<and> c = others iv (true_set v iv))"
proof -
  have len: "length iv = n" using iv by (simp add: vars_ok_def)
  have "rok (sepr_scan s iv n admSet temp) (\<lambda>(temp', c).
      raset_is n {i \<in> true_set v iv - E. i < n} temp' \<and>
      c = map (\<lambda>i. iv ! i) (filter (\<lambda>i. i \<notin> true_set v iv) [0..<n]))"
    unfolding sepr_scan_def
  proof (rule rok_for[where I = "\<lambda>k (temp', c). raset_is n {i \<in> true_set v iv - E. i < k} temp' \<and>
      c = map (\<lambda>i. iv ! i) (filter (\<lambda>i. i \<notin> true_set v iv) [0..<k])"])
    fix i st assume i: "i < n" and "case st of (temp', c) \<Rightarrow> raset_is n {j \<in> true_set v iv - E. j < i} temp' \<and>
        c = map (\<lambda>i. iv ! i) (filter (\<lambda>i. i \<notin> true_set v iv) [0..<i])"
    then obtain t where st: "st = (t, map (\<lambda>i. iv ! i) (filter (\<lambda>i. i \<notin> true_set v iv) [0..<i]))"
      and t: "raset_is n {j \<in> true_set v iv - E. j < i} t" by (cases st) auto
    have set: "{j \<in> true_set v iv - E. j < Suc i} =
        (if i \<in> true_set v iv \<and> i \<notin> E then insert i else id) {j \<in> true_set v iv - E. j < i}"
      by (auto simp: less_Suc_eq)
    have room: "length (filter (\<lambda>i. i \<notin> true_set v iv) [0..<i]) < n"
      using i length_filter_le[of "\<lambda>i. i \<notin> true_set v iv" "[0..<i]"] by simp
    show "rok (case st of (temp, clause) \<Rightarrow> rbind (sat__get s (iv ! i)) (\<lambda>x.
        if \<not> raset__contains admSet i \<and> x > 0 then Inr (snd (raset__add temp i), clause)
        else if x < 0 then rbind (put_lit n (iv ! i) clause) (\<lambda>clause. Inr (temp, clause))
        else Inr (temp, clause)))
      (\<lambda>(temp', c). raset_is n {j \<in> true_set v iv - E. j < Suc i} temp' \<and>
        c = map (\<lambda>i. iv ! i) (filter (\<lambda>i. i \<notin> true_set v iv) [0..<Suc i]))"
      unfolding st prod.case set
      using i iv sub t room
      by (auto simp: sat__get_model[OF m] vars_pos true_set_iff raset_is_contains[OF adm i]
          raset_is_add put_lit_rok)
  qed (use temp in simp)
  moreover have "{i \<in> true_set v iv - E. i < n} = true_set v iv - E" using true_set_subset[OF iv] by blast
  ultimately show ?thesis by (simp add: others_def len)
qed

text \<open>Accepting the new arguments: the set grows and the solver is restricted to larger sets.\<close>

lemma accept_all:
  assumes iv: "vars_ok n iv" and adm: "raset_is n E admSet" and s: "models s iv X" "assumed s = []"
    and xs: "set xs \<subseteq> {..<n}"
  shows "case fold (\<lambda>i (admSet, solver). (snd (raset__add admSet i), sat__addClause1 solver (iv ! i))) xs (admSet, s)
    of (admSet', s') \<Rightarrow> raset_is n (E \<union> set xs) admSet' \<and> models s' iv {E' \<in> X. set xs \<subseteq> E'} \<and> assumed s' = []"
  using adm s xs
proof (induction xs arbitrary: admSet E s X)
  case (Cons x xs)
  then have x: "x < n" by simp
  have "{E' \<in> {E' \<in> X. x \<in> E'}. set xs \<subseteq> E'} = {E' \<in> X. set (x # xs) \<subseteq> E'}" by auto
  with Cons.IH[OF raset_is_add[OF Cons.prems(1) x] models_in[OF Cons.prems(2) iv x]] Cons.prems(3,4)
  show ?case by simp
qed simp

text \<open>
  The loop of SE-PR: the current set is admissible and the solver enumerates the larger admissible
  sets (with the grounded extension), so the loop ends in a preferred extension.
\<close>

lemma no_larger_preferred:
  assumes wf: "wf_framework F" and E: "admissible F E"
    and no: "\<And>E'. adm_sem F E' \<Longrightarrow> \<not> E \<subset> E'"
  shows "preferred F E"
proof -
  have "adm_sem F (E \<union> grounded_ext F)"
    using admissible_with_grounded[OF wf E] by (simp add: adm_sem_def)
  then have "grounded_ext F \<subseteq> E" using no[of "E \<union> grounded_ext F"] by blast
  then show ?thesis using no by (intro preferred_eqI[OF wf E]) (auto simp: adm_sem_def)
qed

lemma psubset_measure: "E \<subset> E' \<Longrightarrow> E' \<subseteq> {..<n} \<Longrightarrow> n - card E' < n - card (E :: nat set)"
  using psubset_card_mono[of E' E] card_mono[of "{..<n}" E'] finite_subset[of E' "{..<n}"] by fastforce

lemma sepr_loop_rok:
  assumes ips: "oracle_ok ips" and wf: "wf_framework F" and iv: "vars_ok n iv" and F: "args F = {..<n}"
    and E0: "admissible F E0" "raset_is n E0 admSet" and temp: "raset_is n {} temp"
    and s: "models s iv {E. adm_sem F E \<and> E0 \<subset> E}" "assumed s = []" and fuel: "n < fuel"
  shows "rok (rloop fuel (sepr_loop ips iv n) (s, admSet, temp))
    (\<lambda>r. \<exists>E. raset_is n E r \<and> preferred F E \<and> E0 \<subseteq> E)"
proof -
  define inv where "inv = (\<lambda>(s, admSet, temp). \<exists>E. E0 \<subseteq> E \<and> admissible F E \<and> raset_is n E admSet \<and>
      raset_is n {} temp \<and> models s iv {E'. adm_sem F E' \<and> E \<subset> E'} \<and> assumed s = [])"
  show ?thesis
  proof (rule rok_rloop[where I = inv and \<mu> = "\<lambda>(s, admSet, temp). n - card (raset_set admSet)"])
    show "inv (s, admSet, temp)" unfolding inv_def using assms by auto
  next
    fix st assume "inv st"
    then obtain s admSet temp E where st: "st = (s, admSet, temp)" and E: "E0 \<subseteq> E" "admissible F E"
      and r: "raset_is n E admSet" "raset_is n {} temp"
      and s: "models s iv {E'. adm_sem F E' \<and> E \<subset> E'}" "assumed s = []"
      unfolding inv_def by auto
    let ?X = "{E'. adm_sem F E' \<and> E \<subset> E'}"
    show "rok (sepr_loop ips iv n st) (\<lambda>t. case t of
        Continue s' \<Rightarrow> inv s' \<and> (case s' of (s, admSet, temp) \<Rightarrow> n - card (raset_set admSet)) <
          (case st of (s, admSet, temp) \<Rightarrow> n - card (raset_set admSet))
      | Break r \<Rightarrow> \<exists>E. raset_is n E r \<and> preferred F E \<and> E0 \<subseteq> E)"
      unfolding sepr_loop_def st prod.case
    proof (rule rok_rbind, rule solve_models[OF ips s(1), where Q = "\<lambda>_. True"], goal_cases)
      case (2 s' v)
      let ?I = "true_set v iv" and ?c = "others iv (true_set v iv)"
      have I: "adm_sem F ?I" "E \<subset> ?I" using 2(1) by auto
      have blk: "models (sat__addClause s' ?c (length ?c)) iv {E' \<in> ?X. \<not> E' \<subseteq> ?I}"
        by (rule models_block[OF 2(4) iv])
      have asm: "assumed (sat__addClause s' ?c (length ?c)) = []"
        using 2(5) others_nonzero[OF iv] by simp
      have step: "rok (Inr (Continue
            (case fold (\<lambda>i (admSet, solver). (snd (raset__add admSet (elements_arr t ! i)),
                sat__addClause1 solver (iv ! (elements_arr t ! i)))) [0..<number_of_elements t]
                (admSet, sat__addClause s' ?c (length ?c)) of
              (a, solver) \<Rightarrow> (solver, a, raset__reset t)))) (\<lambda>t. case t of
          Continue s' \<Rightarrow> inv s' \<and> (case s' of (s, admSet, temp) \<Rightarrow> n - card (raset_set admSet)) < n - card (raset_set admSet)
        | Break r \<Rightarrow> \<exists>E. raset_is n E r \<and> preferred F E \<and> E0 \<subseteq> E)"
        if t: "raset_is n (?I - E) t" for t
      proof -
        have "set (raset_list t) \<subseteq> {..<n}" using raset_is_list[OF t] raset_is_subset[OF t] by simp
        from accept_all[OF iv r(1) blk asm this] obtain a s'' where
          res: "fold (\<lambda>i (admSet, solver). (snd (raset__add admSet i), sat__addClause1 solver (iv ! i)))
              (raset_list t) (admSet, sat__addClause s' ?c (length ?c)) = (a, s'')"
          and a: "raset_is n (E \<union> (?I - E)) a" and s'': "assumed s'' = []"
            "models s'' iv {E' \<in> {E' \<in> ?X. \<not> E' \<subseteq> ?I}. ?I - E \<subseteq> E'}"
          unfolding raset_is_list[OF t] by (auto split: prod.splits)
        have "E \<union> (?I - E) = ?I" using I(2) by blast
        moreover have "{E' \<in> {E' \<in> ?X. \<not> E' \<subseteq> ?I}. ?I - E \<subseteq> E'} = {E'. adm_sem F E' \<and> ?I \<subset> E'}"
          using I(2) by blast
        ultimately have "inv (s'', a, raset__reset t)"
          unfolding inv_def using a s'' I E raset_is_reset[OF t] by (auto simp: adm_sem_def)
        moreover have "n - card (raset_set a) < n - card (raset_set admSet)"
          using psubset_measure[OF I(2) true_set_subset[OF iv]] raset_isD(3)[OF a] raset_isD(3)[OF r(1)] \<open>E \<union> (?I - E) = ?I\<close>
          by simp
        moreover note fold_elements[OF raset_isD(1)[OF t],
            of "\<lambda>i (admSet, solver). (snd (raset__add admSet i), sat__addClause1 solver (iv ! i))"]
        ultimately show ?thesis using res by simp
      qed
      from sepr_scan_rok[OF 2(3) iv r(1) _ r(2)] I(2) obtain t
        where t: "raset_is n (?I - E) t" and scan: "sepr_scan s' iv n admSet temp = Inr (t, ?c)"
        by (auto elim!: rokE)
      show ?case using step[OF t] by (simp add: scan Let_def split_beta)
    next
      case (3 s')
      then have "preferred F E" by (intro no_larger_preferred[OF wf E(2)]) blast
      then show ?case using r(1) E(1) by auto
    qed (simp add: assuming_none s(2))
  qed (use fuel in auto)
qed

lemma adm_models:
  assumes wf: "wf_aaf A" and g: "grounded_labeling A g"
    and al: "alloc_in_out (number_of_arguments A) 1 = (iv, ov, idx)"
  shows "rok (add_admTestClauses (sat__init m) iv ov A g) (\<lambda>(s, b).
    models s iv {E. adm_sem (af_of A) E} \<and> assumed s = [] \<and> b = all_decided g (number_of_arguments A))"
  by (rule rok_weaken[OF add_admTestClauses_rok[OF wf in_out_alloc(1,2)[OF al] ready_init(1)]])
    (auto simp: adm.models_init[OF wf g in_out_alloc(1-3)[OF al]] addsD(2))

lemma all_decided_preferred:
  assumes wf: "wf_aaf A" and g: "grounded_labeling A g" and all: "all_decided g (number_of_arguments A)"
    and E: "admissible (af_of A) E"
  shows "preferred (af_of A) (grounded_ext (af_of A))" and "E \<subseteq> grounded_ext (af_of A)"
proof -
  let ?F = "af_of A" and ?G = "grounded_ext (af_of A)"
  have dec: "i \<in> ?G \<or> i \<in> attacked ?F ?G" if "i < number_of_arguments A" for i
    using all that grounded_labelingD(1,2)[OF g that] by (auto simp: all_decided_def)
  have sub: "E' \<subseteq> ?G" if "admissible ?F E'" for E'
  proof
    fix i assume i: "i \<in> E'"
    with admissible_subset[OF that] have "i < number_of_arguments A" by auto
    moreover have "i \<notin> attacked ?F ?G"
      using grounded_out_not_credulous[OF wf_af_of[OF wf] that] i by blast
    ultimately show "i \<in> ?G" using dec by blast
  qed
  then show "E \<subseteq> ?G" using E by blast
  show "preferred ?F ?G" using sub grounded_admissible unfolding preferred_def by blast
qed

text \<open>The clause that asks for an argument outside the initial set, literal by literal.\<close>

lemma adds_some_in:
  assumes s: "ready s" and iv: "vars_ok n iv" and P: "\<And>i. i < n \<Longrightarrow> P i \<longleftrightarrow> i \<notin> E"
  shows "adds s (sat__add (fold (\<lambda>i s. if P i then sat__add s (iv ! i) else s) [0..<n] s) 0)
    (\<lambda>v. \<not> true_set v iv \<subseteq> E)"
proof (rule adds_cong)
  show "adds s (sat__add (fold (\<lambda>i s. if P i then sat__add s (iv ! i) else s) [0..<n] s) 0)
      (\<lambda>v. \<exists>i\<in>set [0..<n]. P i \<and> lit_true v (iv ! i))"
    using iv by (intro adds_lits s) auto
  fix v
  have "(P i \<and> lit_true v (iv ! i)) \<longleftrightarrow> i \<in> true_set v iv - E" if "i < n" for i
    using P[OF that] true_set_iff[OF iv that] by auto
  then have "(\<exists>i\<in>set [0..<n]. P i \<and> lit_true v (iv ! i)) \<longleftrightarrow> (\<exists>i<n. i \<in> true_set v iv - E)"
    by (simp add: Bex_def cong: conj_cong)
  also have "\<dots> \<longleftrightarrow> \<not> true_set v iv \<subseteq> E" using true_set_bound[OF iv] by blast
  finally show "(\<exists>i\<in>set [0..<n]. P i \<and> lit_true v (iv ! i)) \<longleftrightarrow> \<not> true_set v iv \<subseteq> E" .
qed

lemma models_some_in:
  assumes s: "models s iv X" "assumed s = []" and iv: "vars_ok n iv"
    and P: "\<And>i. i < n \<Longrightarrow> P i \<longleftrightarrow> i \<notin> E"
  shows "models (sat__add (fold (\<lambda>i s. if P i then sat__add s (iv ! i) else s) [0..<n] s) 0) iv {E' \<in> X. \<not> E' \<subseteq> E}"
    and "assumed (sat__add (fold (\<lambda>i s. if P i then sat__add s (iv ! i) else s) [0..<n] s) 0) = []"
proof -
  note ad = adds_some_in[OF models_ready[OF s(1)] iv P]
  show "assumed (sat__add (fold (\<lambda>i s. if P i then sat__add s (iv ! i) else s) [0..<n] s) 0) = []"
    using addsD(2)[OF ad] s(2) by (rule trans)
  show "models (sat__add (fold (\<lambda>i s. if P i then sat__add s (iv ! i) else s) [0..<n] s) 0) iv {E' \<in> X. \<not> E' \<subseteq> E}"
    by (rule models_adds[OF s(1) ad]) simp_all
qed

lemma models_all_in:
  assumes s: "models s iv X" "assumed s = []" and iv: "vars_ok n iv" and xs: "set xs \<subseteq> {..<n}"
  shows "models (fold (\<lambda>i s. sat__addClause1 s (iv ! i)) xs s) iv {E \<in> X. set xs \<subseteq> E}"
    and "assumed (fold (\<lambda>i s. sat__addClause1 s (iv ! i)) xs s) = []"
proof -
  have "models (fold (\<lambda>i s. sat__addClause1 s (iv ! i)) xs s) iv {E \<in> X. set xs \<subseteq> E} \<and>
      assumed (fold (\<lambda>i s. sat__addClause1 s (iv ! i)) xs s) = []"
    using s xs
  proof (induction xs arbitrary: s X)
    case (Cons x xs)
    then have x: "x < n" by simp
    have "{E' \<in> {E' \<in> X. x \<in> E'}. set xs \<subseteq> E'} = {E' \<in> X. set (x # xs) \<subseteq> E'}" by auto
    with Cons.IH[OF models_in[OF Cons.prems(1) iv x]] Cons.prems(2,3) show ?case by simp
  qed simp
  then show "models (fold (\<lambda>i s. sat__addClause1 s (iv ! i)) xs s) iv {E \<in> X. set xs \<subseteq> E}"
    and "assumed (fold (\<lambda>i s. sat__addClause1 s (iv ! i)) xs s) = []" by simp_all
qed

definition initial_ok :: "AAF \<Rightarrow> nat set \<Rightarrow> RaSet option \<Rightarrow> bool" where
  "initial_ok A E0 init \<longleftrightarrow> admissible (af_of A) E0 \<and>
     (case init of None \<Rightarrow> E0 = {} | Some r \<Rightarrow> raset_is (number_of_arguments A) E0 r)"

lemma solve_sepr_rok:
  assumes wf: "wf_aaf A" and g: "grounded_labeling A g" and ips: "oracle_ok ips"
    and names: "names_fit 99 A (grounded_ext (af_of A))"
    and init: "initial_ok A E0 init" and fuel: "number_of_arguments A < fuel"
  shows "rok (solve_sepr fuel ips task A g init) (\<lambda>out.
    \<exists>E. preferred (af_of A) E \<and> E0 \<subseteq> E \<and> prints_ext A E out)"
proof -
  let ?n = "number_of_arguments A" and ?F = "af_of A"
  obtain iv ov idx where al: "alloc_in_out ?n 1 = (iv, ov, idx)" by (cases "alloc_in_out ?n 1") auto
  note iv = in_out_alloc(1)[OF al]
  have E0: "admissible ?F E0" using init by (simp add: initial_ok_def)
  define P where "P = (\<lambda>i. case init of None \<Rightarrow> True | Some r \<Rightarrow> \<not> raset__contains r i)"
  have P: "P i \<longleftrightarrow> i \<notin> E0" if "i < ?n" for i
    using init that raset_is_contains by (auto simp: P_def initial_ok_def split: option.splits)
  show ?thesis
    unfolding solve_sepr_def al Let_def prod.case
  proof (rule rok_bind[OF adm_models[OF wf g al]], goal_cases)
    case (1 x)
    then obtain s b where x: "x = (s, b)" and s: "models s iv {E. adm_sem ?F E}" "assumed s = []"
      and b: "b = all_decided g ?n" by (cases x) auto
    show ?case
    proof (cases b)
      case True
      then show ?thesis
        using all_decided_preferred[OF wf g _ E0] b prints_grounded[OF g names]
        unfolding x by (auto elim!: rok_weaken)
    next
      case False
      let ?s = "sat__add (fold (\<lambda>i s. if P i then sat__add s (iv ! i) else s) [0..<?n] s) 0"
      note s1 = models_some_in[OF s iv P]
      have X: "{E' \<in> {E' \<in> {E. adm_sem ?F E}. \<not> E' \<subseteq> E0}. E0 \<subseteq> E'} = {E. adm_sem ?F E \<and> E0 \<subset> E}"
        by blast
      have loop: "rok (rloop fuel (sepr_loop ips iv ?n) (s', a, raset__init_empty ?n))
          (\<lambda>r. \<exists>E. raset_is ?n E r \<and> preferred ?F E \<and> E0 \<subseteq> E)"
        if "raset_is ?n E0 a" "models s' iv {E. adm_sem ?F E \<and> E0 \<subset> E}" "assumed s' = []" for s' a
        using that by (intro sepr_loop_rok[OF ips wf_af_of[OF wf] iv _ E0 _ raset_is_init _ _ fuel]) simp_all
      have fin: "rok (rbind (rloop fuel (sepr_loop ips iv ?n) (s', a, raset__init_empty ?n))
          (\<lambda>r. Inr (raset__print_i23 r (ids2arguments A))))
        (\<lambda>out. \<exists>E. preferred ?F E \<and> E0 \<subseteq> E \<and> prints_ext A E out)"
        if "raset_is ?n E0 a" "models s' iv {E. adm_sem ?F E \<and> E0 \<subset> E}" "assumed s' = []" for s' a
        by (rule rok_bind[OF loop[OF that]]) (use raset_is_prints in auto)
      show ?thesis
      proof (cases init)
        case None
        then have e: "E0 = {}" using init by (simp add: initial_ok_def)
        have "models ?s iv {E. adm_sem ?F E \<and> E0 \<subset> E}" using s1(1) X e by simp
        from fin[OF _ this s1(2)] raset_is_init[of ?n] show ?thesis
          using False None unfolding x by (simp add: P_def e)
      next
        case (Some r)
        then have r: "raset_is ?n E0 r" using init by (simp add: initial_ok_def)
        have xs: "set (raset_list r) \<subseteq> {..<?n}" using raset_is_list[OF r] raset_is_subset[OF r] by simp
        note s2 = models_all_in[OF s1 iv xs, unfolded raset_is_list[OF r] X]
        note fe = fold_elements[OF raset_isD(1)[OF r], of "\<lambda>i s. sat__addClause1 s (iv ! i)"]
        show ?thesis
          using False Some fin[OF r s2] unfolding x by (simp add: P_def fe)
      qed
    qed
  qed
qed

end
