(* ===== verification/Skeptical.thy ===== *)
theory Skeptical
  imports Preferred
begin

text \<open>
  tasks/task_ds-pr.cpp: skeptical acceptance with respect to preferred semantics.  One solver holds
  the admissible sets, the other one pairs of admissible sets of which the first attacks the second
  and the second has the query.  The search stops when an attacker cannot be extended by the query
  (answer NO, and the attacker is extended to a preferred extension as a witness) or when no
  attacker is left (answer YES).
\<close>

section \<open>The solve function\<close>

text \<open>Adding to one solver the literals that are false in the model of another one.\<close>

definition add_false_vars :: "ipasir \<Rightarrow> ipasir \<Rightarrow> int list \<Rightarrow> nat \<Rightarrow> ipasir result" where
  "add_false_vars reader target in_vars n =
     rbind (rfold (\<lambda>i target. rbind (sat__get reader (in_vars ! i)) (\<lambda>x.
         Inr (if x < 0 then sat__add target (in_vars ! i) else target))) [0..<n] target)
     (\<lambda>target. Inr (sat__add target 0))"

definition assume_true_vars :: "ipasir \<Rightarrow> ipasir \<Rightarrow> int list \<Rightarrow> nat \<Rightarrow> ipasir result" where
  "assume_true_vars reader target in_vars n =
     rfold (\<lambda>i target. rbind (sat__get reader (in_vars ! i)) (\<lambda>x.
       Inr (if x > 0 then sat__assume target (in_vars ! i) else target))) [0..<n] target"

definition dspr_loop ::
    "sat_oracle \<Rightarrow> int list \<Rightarrow> nat \<Rightarrow> nat \<Rightarrow> ipasir \<times> ipasir \<Rightarrow> (ipasir \<times> ipasir, bool \<times> ipasir) step result"
  where
  "dspr_loop ips in_vars n q = (\<lambda>(solver_admTest, solver_attAdmTest).
     rbind (sat__solve ips solver_attAdmTest) (\<lambda>(sat, solver_attAdmTest).
     if sat = 20 then Inr (Break (True, solver_attAdmTest))
     else
       let solver_admTest = sat__assume solver_admTest (in_vars ! q)
       in rbind (assume_true_vars solver_attAdmTest solver_admTest in_vars n) (\<lambda>solver_admTest.
          rbind (sat__solve ips solver_admTest) (\<lambda>(sat, solver_admTest).
          if sat = 20 then Inr (Break (False, solver_attAdmTest))
          else rbind (add_false_vars solver_admTest solver_attAdmTest in_vars n) (\<lambda>solver_attAdmTest.
               Inr (Continue (solver_admTest, solver_attAdmTest)))))))"

definition solve_dspr ::
    "nat \<Rightarrow> sat_oracle \<Rightarrow> TaskSpecification \<Rightarrow> AAF \<Rightarrow> Labeling \<Rightarrow> bool \<Rightarrow> (bool \<times> string) result" where
  "solve_dspr fuel ips task aaf grounded do_print =
     (let n = number_of_arguments aaf;
          solver_admTest = sat__init (2 * n);
          solver_attAdmTest = sat__init (4 * n + number_of_attacks aaf);
          (in_vars, out_vars, idx) = alloc_in_out n 1
      in rbind (add_admTestClauses solver_admTest in_vars out_vars aaf grounded) (\<lambda>(solver_admTest, _).
         let (in_attacked_vars, out_attacked_vars, idx) = alloc_in_out n idx
         in rbind (add_admTestClauses solver_attAdmTest in_vars out_vars aaf grounded) (\<lambda>(solver_attAdmTest, _).
            rbind (add_admTestClauses solver_attAdmTest in_attacked_vars out_attacked_vars aaf grounded)
              (\<lambda>(solver_attAdmTest, _).
            rbind (add_attackClauses solver_attAdmTest in_vars in_attacked_vars (4 * int n + 1) aaf)
              (\<lambda>solver_attAdmTest.
            let solver_admTest = sat__assume solver_admTest (in_vars ! query task)
            in rbind (sat__solve ips solver_admTest) (\<lambda>(sat, solver_admTest).
            if sat = 20 then
              if do_print then
                rbind (solve_sepr fuel ips task aaf grounded None) (\<lambda>out. Inr (False, NO @ out))
              else Inr (False, [])
            else rbind (add_false_vars solver_admTest solver_attAdmTest in_vars n) (\<lambda>solver_attAdmTest.
            let solver_admTest = sat__assume solver_admTest (out_vars ! query task)
            in rbind (sat__solve ips solver_admTest) (\<lambda>(sat, solver_admTest).
            if sat = 10 then
              if do_print then
                rbind (true_raset solver_admTest in_vars n) (\<lambda>initial_admSet.
                rbind (solve_sepr fuel ips task aaf grounded (Some initial_admSet)) (\<lambda>out.
                Inr (False, NO @ out)))
              else Inr (False, [])
            else
              let solver_attAdmTest = sat__addClause1 solver_attAdmTest (in_attacked_vars ! query task)
              in rbind (rloop fuel (dspr_loop ips in_vars n (query task)) (solver_admTest, solver_attAdmTest))
                   (\<lambda>(answer, solver_attAdmTest).
                 if answer then Inr (True, if do_print then YES else [])
                 else if do_print then
                   rbind (true_raset solver_attAdmTest in_vars n) (\<lambda>initial_admSet.
                   rbind (solve_sepr fuel ips task aaf grounded (Some initial_admSet)) (\<lambda>out.
                   Inr (False, NO @ out)))
                 else Inr (False, []))))))))))"

section \<open>The two solvers\<close>

lemma add_false_vars_adds:
  assumes m: "model_is r v" and s: "ready s" and iv: "vars_ok n iv"
  shows "rok (add_false_vars r s iv n) (\<lambda>s'. adds s s' (\<lambda>w. \<not> true_set w iv \<subseteq> true_set v iv))"
proof -
  have "rfold (\<lambda>i t. rbind (sat__get r (iv ! i)) (\<lambda>x. Inr (if x < 0 then sat__add t (iv ! i) else t))) [0..<n] s =
      Inr (fold (\<lambda>i t. if i \<notin> true_set v iv then sat__add t (iv ! i) else t) [0..<n] s)"
    by (rule rfold_Inr) (use iv in \<open>simp add: sat__get_model[OF m] vars_pos true_set_iff\<close>)
  then show ?thesis
    using adds_some_in[OF s iv, of "\<lambda>i. i \<notin> true_set v iv" "true_set v iv"]
    by (simp add: add_false_vars_def)
qed

lemma add_false_vars_rok:
  assumes m: "model_is r v" and s: "models s iv X" "assumed s = []" and iv: "vars_ok n iv"
  shows "rok (add_false_vars r s iv n) (\<lambda>s'. models s' iv {E \<in> X. \<not> E \<subseteq> true_set v iv} \<and> assumed s' = [])"
  by (rule rok_weaken[OF add_false_vars_adds[OF m models_ready[OF s(1)] iv]])
    (use s(2) addsD(2) models_adds[OF s(1)] in auto)

lemma assume_true_vars_eq:
  assumes m: "model_is r v" and iv: "vars_ok n iv"
  shows "assume_true_vars r s iv n =
    Inr (fold (\<lambda>i t. if i \<in> true_set v iv then sat__assume t (iv ! i) else t) [0..<n] s)"
  unfolding assume_true_vars_def
  by (rule rfold_Inr) (use iv in \<open>simp add: sat__get_model[OF m] vars_pos true_set_iff\<close>)

lemma assumed_true_vars:
  assumes m: "model_is r w" and iv: "vars_ok n iv" and s: "models s iv X" "assumed s = []" and q: "q < n"
  shows "rok (assume_true_vars r (sat__assume s (iv ! q)) iv n) (\<lambda>s'. models s' iv X \<and>
    (\<forall>v. assuming v s' \<longleftrightarrow> insert q (true_set w iv) \<subseteq> true_set v iv))"
proof -
  let ?s = "sat__assume s (iv ! q)"
  let ?t = "fold (\<lambda>i t. if i \<in> true_set w iv then sat__assume t (iv ! i) else t) [0..<n] ?s"
  note fa = fold_sat__assume[of "\<lambda>i. i \<in> true_set w iv" "\<lambda>i. iv ! i" "[0..<n]" ?s]
  have "models ?t iv X" using models_assume[OF s(1)] fa unfolding models_def by blast
  moreover have "assuming v ?t \<longleftrightarrow> insert q (true_set w iv) \<subseteq> true_set v iv" for v
  proof -
    have "assuming v ?t \<longleftrightarrow> lit_true v (iv ! q) \<and> (\<forall>i<n. i \<in> true_set w iv \<longrightarrow> lit_true v (iv ! i))"
      using fa s(2) by (auto simp: assuming_def)
    also have "\<dots> \<longleftrightarrow> q \<in> true_set v iv \<and> (\<forall>i<n. i \<in> true_set w iv \<longrightarrow> i \<in> true_set v iv)"
      using true_set_iff[OF iv] q by simp
    also have "\<dots> \<longleftrightarrow> insert q (true_set w iv) \<subseteq> true_set v iv"
      using true_set_bound[OF iv] by blast
    finally show ?thesis .
  qed
  ultimately show ?thesis by (simp add: assume_true_vars_eq[OF m iv])
qed

text \<open>Admissible sets that attack an admissible set with a property, such as to have the query.\<close>

definition attackers_with :: "framework \<Rightarrow> (nat set \<Rightarrow> bool) \<Rightarrow> nat set set" where
  "attackers_with F Q = {E. adm_sem F E \<and>
     (\<exists>T. adm_sem F T \<and> Q T \<and> (\<exists>e\<in>E. \<exists>t\<in>T. (e, t) \<in> attacks F))}"

abbreviation attackers_of :: "framework \<Rightarrow> nat \<Rightarrow> nat set set" where
  "attackers_of F a \<equiv> attackers_with F (\<lambda>T. a \<in> T)"

lemma valuation_join:
  assumes "\<forall>l\<in>S. (0 :: int) < l" "\<forall>l\<in>T. 0 < l" "S \<inter> T = {}"
  shows "\<exists>v. (\<forall>l\<in>S. lit_true v l \<longleftrightarrow> lit_true v1 l) \<and> (\<forall>l\<in>T. lit_true v l \<longleftrightarrow> lit_true v2 l)"
  using assms
  by (intro exI[of _ "\<lambda>k. if int k \<in> S then v1 k else v2 k"]) (auto simp: lit_true_def)

lemma true_set_cong: "\<forall>l\<in>set vs. lit_true v l \<longleftrightarrow> lit_true w l \<Longrightarrow> true_set v vs = true_set w vs"
  by (auto simp: true_set_def)

lemma att_models:
  assumes wf: "wf_aaf A" and g: "grounded_labeling A g"
    and al: "alloc_in_out (number_of_arguments A) 1 = (iv, ov, idx)"
      "alloc_in_out (number_of_arguments A) idx = (iav, oav, idx')"
    and off: "idx' \<le> off"
    and s: "ready s" and C: "\<And>v. holds v s \<longleftrightarrow>
      (\<forall>i<number_of_arguments A. adm_cond A g (true_set v iv) (true_set v ov) i) \<and>
      (\<forall>i<number_of_arguments A. adm_cond A g (true_set v iav) (true_set v oav) i) \<and>
      attack_cond v off (true_set v iv) (true_set v iav) (attack_list A) \<and>
      (\<exists>k<number_of_attacks A. lit_true v (off + int k)) \<and> R (true_set v iv) \<and> Q (true_set v iav)"
  shows "models s iv {E \<in> attackers_with (af_of A) Q. R E}"
proof -
  let ?n = "number_of_arguments A" and ?F = "af_of A"
  note a1 = in_out_alloc[OF al(1)]
  note a2 = alloc_in_out_ok[OF al(2) a1(6)]
  show ?thesis
    unfolding models_def
  proof (intro conjI allI impI ballI s)
    fix v assume "holds v s"
    then have c1: "\<And>i. i < ?n \<Longrightarrow> adm_cond A g (true_set v iv) (true_set v ov) i"
      and c2: "\<And>i. i < ?n \<Longrightarrow> adm_cond A g (true_set v iav) (true_set v oav) i"
      and c3: "attack_cond v off (true_set v iv) (true_set v iav) (attack_list A)"
      and c4: "\<exists>k<number_of_attacks A. lit_true v (off + int k)" and c5: "Q (true_set v iav)"
      and c6: "R (true_set v iv)"
      using C[of v] by blast+
    have "adm_sem ?F (true_set v iv)" "adm_sem ?F (true_set v iav)"
      using adm.sound[OF wf g true_set_subset[OF a1(1)] true_set_subset[OF a1(2)] c1]
        adm.sound[OF wf g true_set_subset[OF a2(1)] true_set_subset[OF a2(2)] c2] by simp_all
    with attack_cond_attacks[OF wf c3] c4 c5 c6 show "true_set v iv \<in> {E \<in> attackers_with ?F Q. R E}"
      unfolding attackers_with_def by blast
  next
    fix E assume "E \<in> {E \<in> attackers_with ?F Q. R E}"
    then obtain T e t where E: "adm_sem ?F E" and R: "R E" and T: "adm_sem ?F T" "Q T"
      and et: "e \<in> E" "t \<in> T" "(e, t) \<in> attacks ?F" unfolding attackers_with_def by blast
    obtain v1 where v1: "true_set v1 iv = E" "true_set v1 ov = attacked ?F E"
        "\<forall>i<?n. adm_cond A g (true_set v1 iv) (true_set v1 ov) i"
      using adm.model_exists[OF wf g E a1(1-3)] by blast
    obtain v2 where v2: "true_set v2 iav = T" "true_set v2 oav = attacked ?F T"
        "\<forall>i<?n. adm_cond A g (true_set v2 iav) (true_set v2 oav) i"
      using adm.model_exists[OF wf g T(1) a2(1-3)] by blast
    let ?ks = "map (\<lambda>k. off + int k) [0..<number_of_attacks A]"
    have pos: "0 < off" using off a2(6) by simp
    have "distinct ?ks" "\<forall>x\<in>set ?ks. 0 < x" using pos by (auto simp: distinct_map inj_on_def)
    from valuation_exists[OF this, of "\<lambda>k. fst (attack_list A ! k) \<in> E \<and> snd (attack_list A ! k) \<in> T"]
    obtain v3 where v3: "\<And>k. k < number_of_attacks A \<Longrightarrow> lit_true v3 (off + int k) \<longleftrightarrow>
        fst (attack_list A ! k) \<in> E \<and> snd (attack_list A ! k) \<in> T" by auto
    let ?S1 = "set iv \<union> set ov" and ?S2 = "set iav \<union> set oav"
    have pos1: "\<forall>l\<in>?S1. 0 < l" and pos2: "\<forall>l\<in>?S2. 0 < l" using a1(1,2) a2(1,2) by (auto simp: vars_ok_def)
    have low: "\<forall>l\<in>?S1. l < idx" "\<forall>l\<in>?S2. idx \<le> l \<and> l < idx'" "idx \<le> idx'"
      using a1(4,5) a2(4,5) alloc_in_out_eq[of ?n idx] al(2) by auto
    have d12: "?S1 \<inter> ?S2 = {}"
      unfolding disjoint_iff using low(1,2) by (meson not_less)
    obtain v12 where v12: "\<forall>l\<in>?S1. lit_true v12 l \<longleftrightarrow> lit_true v1 l" "\<forall>l\<in>?S2. lit_true v12 l \<longleftrightarrow> lit_true v2 l"
      using valuation_join[OF pos1 pos2 d12] by blast
    have "l < off" if "l \<in> ?S1 \<union> ?S2" for l
      using that low off by (meson UnE less_le_trans)
    moreover have "off \<le> l" if "l \<in> set ?ks" for l using that by auto
    ultimately have d3: "(?S1 \<union> ?S2) \<inter> set ?ks = {}"
      unfolding disjoint_iff by (meson not_less)
    have pos12: "\<forall>l\<in>?S1 \<union> ?S2. 0 < l" and pos3: "\<forall>l\<in>set ?ks. 0 < l" using pos1 pos2 pos by auto
    obtain v where v: "\<forall>l\<in>?S1 \<union> ?S2. lit_true v l \<longleftrightarrow> lit_true v12 l" "\<forall>l\<in>set ?ks. lit_true v l \<longleftrightarrow> lit_true v3 l"
      using valuation_join[OF pos12 pos3 d3] by blast
    have ts: "true_set v iv = E" "true_set v ov = attacked ?F E" "true_set v iav = T" "true_set v oav = attacked ?F T"
      using v(1) v12 v1 v2 true_set_cong[of iv v v1] true_set_cong[of ov v v1]
        true_set_cong[of iav v v2] true_set_cong[of oav v v2] by auto
    have vk: "lit_true v (off + int k) \<longleftrightarrow> fst (attack_list A ! k) \<in> E \<and> snd (attack_list A ! k) \<in> T"
      if "k < number_of_attacks A" for k
      using v(2) v3[OF that] that by simp
    have "(e, t) \<in> set (attack_list A)" using et(3) by (simp add: set_attack_list)
    then obtain k where "k < number_of_attacks A" "attack_list A ! k = (e, t)"
      by (auto simp: in_set_conv_nth length_attack_list[OF wf])
    with vk[of k] et have one: "\<exists>k<number_of_attacks A. lit_true v (off + int k)" by auto
    have "holds v s"
      unfolding C ts using v1(3) v2(3) v1(1,2) v2(1,2) vk one T(2) R
      by (auto simp: attack_cond_def length_attack_list[OF wf])
    with ts(1) show "\<exists>v. holds v s \<and> true_set v iv = E" by blast
  qed
qed

section \<open>The search\<close>

lemma models_image: "models s iv X \<Longrightarrow> {true_set v iv |v. holds v s} = X"
  by (auto simp: models_def)

text \<open>A set that is admissible and cannot be extended by the query is a counterexample.\<close>

definition refutes :: "framework \<Rightarrow> nat \<Rightarrow> nat set \<Rightarrow> bool" where
  "refutes F a E \<longleftrightarrow> admissible F E \<and> (\<forall>P. preferred F P \<and> E \<subseteq> P \<longrightarrow> a \<notin> P)"

lemma refutes_not_skeptical: "wf_framework F \<Longrightarrow> refutes F a E \<Longrightarrow> \<not> skeptical (preferred F) a"
  using preferred_above unfolding refutes_def skeptical_def by blast

lemma preferred_adm_sem: "preferred F P \<Longrightarrow> adm_sem F P"
  by (simp add: adm_sem_def preferred_admissible grounded_preferred)

lemma no_extension_refutes:
  assumes "adm_sem F E" "\<And>E'. adm_sem F E' \<Longrightarrow> \<not> insert a E \<subseteq> E'"
  shows "refutes F a E"
  using assms preferred_adm_sem unfolding refutes_def adm_sem_def by blast

text \<open>Without attackers left, every preferred extension lies in a set with the query.\<close>

lemma no_attackers_skeptical:
  assumes S: "adm_sem F S" "a \<in> S"
    and no: "\<And>E. E \<in> attackers_of F a \<Longrightarrow> \<exists>I. adm_sem F I \<and> a \<in> I \<and> E \<subseteq> I"
  shows "skeptical (preferred F) a"
  unfolding skeptical_def
proof (intro allI impI, rule ccontr)
  fix P assume P: "preferred F P" and a: "a \<notin> P"
  have adm: "admissible F S" using S(1) by (simp add: adm_sem_def)
  have "P \<in> attackers_of F a"
    using preferred_without_attacks[OF P adm S(2) a] S preferred_adm_sem[OF P]
    unfolding attackers_with_def by blast
  then obtain I where "adm_sem F I" "a \<in> I" "P \<subseteq> I" using no by blast
  then show False using P a unfolding preferred_def adm_sem_def by blast
qed

lemma dspr_loop_rok:
  assumes ips: "oracle_ok ips" and iv: "vars_ok n iv" and q: "q < n"
    and fin: "finite (attackers_of F q)"
    and adm: "models s iv {E. adm_sem F E}" "assumed s = []"
    and S: "adm_sem F S" "q \<in> S"
    and att: "models t iv {E \<in> attackers_of F q. \<not> E \<subseteq> S}" "assumed t = []"
    and fuel: "card (attackers_of F q) < fuel"
  shows "rok (rloop fuel (dspr_loop ips iv n q) (s, t)) (\<lambda>(b, t').
    if b then skeptical (preferred F) q else \<exists>v. model_is t' v \<and> refutes F q (true_set v iv))"
proof -
  define inv where "inv = (\<lambda>(s, t). models s iv {E. adm_sem F E} \<and> assumed s = [] \<and> assumed t = [] \<and>
      (\<exists>\<B>. models t iv {E \<in> attackers_of F q. \<forall>I\<in>\<B>. \<not> E \<subseteq> I} \<and> (\<forall>I\<in>\<B>. adm_sem F I \<and> q \<in> I)))"
  let ?\<mu> = "\<lambda>(s :: ipasir, t). card {true_set v iv |v. holds v t}"
  show ?thesis
  proof (rule rok_rloop[where I = inv and \<mu> = ?\<mu>])
    show "inv (s, t)" unfolding inv_def using adm att S by (auto intro!: exI[of _ "{S}"])
    have "card {E \<in> attackers_of F q. \<not> E \<subseteq> S} \<le> card (attackers_of F q)"
      by (intro card_mono fin) auto
    then show "?\<mu> (s, t) < fuel" using fuel by (simp add: models_image[OF att(1)])
  next
    fix st assume "inv st"
    then obtain s t \<B> where st: "st = (s, t)" and s: "models s iv {E. adm_sem F E}" "assumed s = []"
      and t: "models t iv {E \<in> attackers_of F q. \<forall>I\<in>\<B>. \<not> E \<subseteq> I}" "assumed t = []"
      and B: "\<And>I. I \<in> \<B> \<Longrightarrow> adm_sem F I \<and> q \<in> I" unfolding inv_def by auto
    let ?X = "{E \<in> attackers_of F q. \<forall>I\<in>\<B>. \<not> E \<subseteq> I}"
    define post where "post = (\<lambda>x. case x of Continue s' \<Rightarrow> inv s' \<and> ?\<mu> s' < ?\<mu> st
      | Break (b, t') \<Rightarrow> if b then skeptical (preferred F) q else \<exists>v. model_is t' v \<and> refutes F q (true_set v iv))"
    have "rok (dspr_loop ips iv n q st) post"
      unfolding dspr_loop_def st prod.case
    proof (rule rok_rbind, rule solve_models[OF ips t(1), where Q = "\<lambda>_. True"], goal_cases)
      case (2 t' v)
      let ?E = "true_set v iv"
      have E: "adm_sem F ?E" using 2(1) by (simp add: attackers_with_def)
      have inner: "rok (rbind (sat__solve ips s') (\<lambda>(sat, s''). if sat = 20 then Inr (Break (False, t'))
          else rbind (add_false_vars s'' t' iv n) (\<lambda>t''. Inr (Continue (s'', t''))))) post"
        if s': "models s' iv {E. adm_sem F E}" "\<And>v. assuming v s' \<longleftrightarrow> insert q ?E \<subseteq> true_set v iv" for s'
      proof (rule rok_rbind, rule solve_models[OF ips s'(1), where Q = "\<lambda>E. insert q ?E \<subseteq> E"], goal_cases)
        case 1 show ?case by (rule s'(2))
      next
        case (2 s'' w)
        let ?I = "true_set w iv"
        have I: "adm_sem F ?I" "q \<in> ?I" "?E \<subseteq> ?I" using 2(1,2) by auto
        have "rok (add_false_vars s'' t' iv n) (\<lambda>t''. models t'' iv {E \<in> ?X. \<not> E \<subseteq> ?I} \<and> assumed t'' = [])"
          using \<open>models t' iv ?X\<close> \<open>assumed t' = []\<close> by (intro add_false_vars_rok[OF 2(3) _ _ iv])
        then obtain t'' where t'': "add_false_vars s'' t' iv n = Inr t''"
            "models t'' iv {E \<in> ?X. \<not> E \<subseteq> ?I}" "assumed t'' = []" by (auto elim: rokE)
        have "{E \<in> ?X. \<not> E \<subseteq> ?I} = {E \<in> attackers_of F q. \<forall>J\<in>insert ?I \<B>. \<not> E \<subseteq> J}" by auto
        with t''(2) have tt: "models t'' iv {E \<in> attackers_of F q. \<forall>J\<in>insert ?I \<B>. \<not> E \<subseteq> J}" by simp
        then have "inv (s'', t'')"
          unfolding inv_def using 2(4,5) t''(3) B I(1,2) by (auto intro!: exI[of _ "insert ?I \<B>"])
        moreover have "card {E \<in> ?X. \<not> E \<subseteq> ?I} < card ?X"
          using fin I(3) \<open>?E \<in> ?X\<close> by (intro psubset_card_mono) auto
        ultimately show ?case
          by (simp add: t''(1) models_image[OF t''(2)] models_image[OF t(1)] st post_def)
      next
        case (3 s'')
        then have "refutes F q ?E" by (intro no_extension_refutes[OF E]) blast
        then show ?case using \<open>model_is t' v\<close> by (auto simp: post_def)
      qed
      have "rok (rbind (assume_true_vars t' (sat__assume s (iv ! q)) iv n) (\<lambda>s'.
          rbind (sat__solve ips s') (\<lambda>(sat, s''). if sat = 20 then Inr (Break (False, t'))
          else rbind (add_false_vars s'' t' iv n) (\<lambda>t''. Inr (Continue (s'', t'')))))) post"
        by (rule rok_bind[OF assumed_true_vars[OF 2(3) iv s q]]) (use inner in blast)
      then show ?case by simp
    next
      case (3 t')
      have "skeptical (preferred F) q"
      proof (rule no_attackers_skeptical[OF S])
        fix E assume "E \<in> attackers_of F q"
        with 3(1)[of E] B show "\<exists>I. adm_sem F I \<and> q \<in> I \<and> E \<subseteq> I" by blast
      qed
      then show ?case by (simp add: post_def)
    qed (simp add: assuming_none t(2))
    then show "rok (dspr_loop ips iv n q st) (\<lambda>x. case x of Continue s' \<Rightarrow> inv s' \<and> ?\<mu> s' < ?\<mu> st
      | Break r \<Rightarrow> (case r of (b, t') \<Rightarrow> if b then skeptical (preferred F) q
          else \<exists>v. model_is t' v \<and> refutes F q (true_set v iv)))"
      by (simp only: post_def)
  qed
qed

section \<open>Correctness of DS-PR\<close>

definition dspr_spec :: "AAF \<Rightarrow> nat \<Rightarrow> bool \<Rightarrow> bool \<times> string \<Rightarrow> bool" where
  "dspr_spec A q do_print = (\<lambda>(b, out). b = skeptical (preferred (af_of A)) q \<and>
     (do_print \<longrightarrow> (if b then out = YES else \<exists>P w. preferred (af_of A) P \<and> q \<notin> P \<and>
        prints_ext A P w \<and> out = NO @ w)) \<and>
     (\<not> do_print \<longrightarrow> out = []))"

lemma dspr_no:
  assumes wf: "wf_aaf A" and g: "grounded_labeling A g" and ips: "oracle_ok ips"
    and names: "names_fit 99 A (grounded_ext (af_of A))" and fuel: "number_of_arguments A < fuel"
    and init: "initial_ok A E init" and ref: "refutes (af_of A) q E"
  shows "rok (if do_print then rbind (solve_sepr fuel ips task A g init) (\<lambda>out. Inr (False, NO @ out))
    else Inr (False, [])) (dspr_spec A q do_print)"
proof -
  have "\<not> skeptical (preferred (af_of A)) q" by (rule refutes_not_skeptical[OF wf_af_of[OF wf] ref])
  moreover have "q \<notin> P" if "preferred (af_of A) P" "E \<subseteq> P" for P using ref that by (simp add: refutes_def)
  ultimately show ?thesis
    using solve_sepr_rok[OF wf g ips names init fuel, of task]
    by (auto simp: dspr_spec_def intro!: rok_rbind elim!: rok_weaken) blast
qed

lemma dspr_no_model:
  assumes wf: "wf_aaf A" and g: "grounded_labeling A g" and ips: "oracle_ok ips"
    and names: "names_fit 99 A (grounded_ext (af_of A))" and fuel: "number_of_arguments A < fuel"
    and m: "model_is s v" and iv: "vars_ok (number_of_arguments A) iv"
    and ref: "refutes (af_of A) q (true_set v iv)"
  shows "rok (if do_print then rbind (true_raset s iv (number_of_arguments A)) (\<lambda>r.
      rbind (solve_sepr fuel ips task A g (Some r)) (\<lambda>out. Inr (False, NO @ out)))
    else Inr (False, [])) (dspr_spec A q do_print)"
proof -
  obtain r where r: "true_raset s iv (number_of_arguments A) = Inr r"
      "raset_is (number_of_arguments A) (true_set v iv) r"
    using true_raset_rok[OF m iv] by (rule rokE)
  have "initial_ok A (true_set v iv) (Some r)" using r(2) ref by (simp add: initial_ok_def refutes_def)
  from dspr_no[OF wf g ips names fuel this ref, of do_print task] show ?thesis
    by (cases do_print) (simp_all add: r(1))
qed

lemma finite_attackers: "wf_aaf A \<Longrightarrow> finite (attackers_of (af_of A) q) \<and>
  card (attackers_of (af_of A) q) \<le> 2 ^ number_of_arguments A"
proof -
  assume "wf_aaf A"
  have sub: "attackers_of (af_of A) q \<subseteq> Pow {..<number_of_arguments A}"
    using admissible_subset[of "af_of A"] by (auto simp: attackers_with_def adm_sem_def)
  then show ?thesis
    using card_mono[OF _ sub] finite_subset[OF sub] by (simp add: card_Pow)
qed

lemma solve_dspr_rok:
  assumes wf: "wf_aaf A" and g: "grounded_labeling A g" and ips: "oracle_ok ips"
    and names: "names_fit 99 A (grounded_ext (af_of A))" and q: "query task < number_of_arguments A"
    and fuel: "2 ^ number_of_arguments A < fuel"
  shows "rok (solve_dspr fuel ips task A g do_print) (dspr_spec A (query task) do_print)"
proof -
  let ?n = "number_of_arguments A" and ?F = "af_of A" and ?q = "query task"
  note wfF = wf_af_of[OF wf]
  obtain iv ov idx where al: "alloc_in_out ?n 1 = (iv, ov, idx)" by (cases "alloc_in_out ?n 1") auto
  obtain iav oav idx' where al2: "alloc_in_out ?n idx = (iav, oav, idx')" by (cases "alloc_in_out ?n idx") auto
  note a1 = in_out_alloc[OF al]
  note a2 = alloc_in_out_ok[OF al2 a1(6)]
  have off: "idx' \<le> 4 * int ?n + 1" using al al2 by (auto simp: alloc_in_out_eq)
  have nfuel: "?n < fuel" using fuel less_exp[of ?n] by linarith
  note no = dspr_no[OF wf g ips names nfuel] dspr_no_model[OF wf g ips names nfuel _ a1(1)]
  let ?c1 = "\<lambda>v. \<forall>i<?n. adm_cond A g (true_set v iv) (true_set v ov) i"
  let ?c2 = "\<lambda>v. \<forall>i<?n. adm_cond A g (true_set v iav) (true_set v oav) i"
  let ?c3 = "\<lambda>v. attack_cond v (4 * int ?n + 1) (true_set v iv) (true_set v iav) (attack_list A)"
  let ?c4 = "\<lambda>v. \<exists>k<number_of_attacks A. lit_true v (4 * int ?n + 1 + int k)"
  let ?D = "describes adm_cond A g iv ov (\<lambda>_ _. True)"
  show ?thesis
    unfolding solve_dspr_def al al2 Let_def prod.case
  proof (rule rok_bind[OF add_admTestClauses_rok[OF wf a1(1,2) ready_init(1)]], clarify,
      rule rok_bind[OF add_admTestClauses_rok[OF wf a1(1,2) ready_init(1)]], clarify,
      rule rok_bind[OF add_admTestClauses_rok[OF wf a2(1,2) addsD(1)]], assumption, clarify,
      rule rok_bind[OF add_attackClauses_rok[OF wf a1(1) a2(1) addsD(1)]], assumption, simp,
      rule rok_rbind, goal_cases)
    case (1 s _ t0 _ t1 _ t)
    have s: "?D s" and sA: "assumed s = []" using describes_init[where cond = adm_cond, OF 1(1)] addsD(2)[OF 1(1)] by simp_all
    have tA: "assumed t = []" using addsD(2)[OF 1(2)] addsD(2)[OF 1(3)] addsD(2)[OF 1(4)] by simp
    have t: "ready t" "\<And>v. holds v t \<longleftrightarrow> ?c1 v \<and> ?c2 v \<and> ?c3 v \<and> ?c4 v"
      using addsD(1)[OF 1(4)] addsD(3)[OF 1(4)] addsD(3)[OF 1(3)] addsD(3)[OF 1(2)] by auto
    have s1: "?D (sat__assume s (iv ! ?q))" using s by (simp add: describes_def)
    show ?case
    proof (rule adm.solve[OF wf g ips a1(1-3) s1, where Q = "\<lambda>I U. ?q \<in> I"], goal_cases)
      case (1 v) show ?case by (rule assuming_in[OF a1(1) q sA])
    next
      case (3 s')
      have "refutes ?F ?q {}"
        unfolding refutes_def using 3(1) preferred_adm_sem by auto
      with no(1)[of "{}" None] show ?case by (simp add: initial_ok_def)
    next
      case (2 s' v I U)
      have S: "adm_sem ?F (true_set v iv)" "?q \<in> true_set v iv" using 2 by simp_all
      have s2: "?D (sat__assume s' (ov ! ?q))" using 2(8) by (simp add: describes_def)
      have step: "rok (rbind (sat__solve ips (sat__assume s' (ov ! ?q))) (\<lambda>(sat, s'').
            if sat = 10 then if do_print then rbind (true_raset s'' iv ?n) (\<lambda>r.
                rbind (solve_sepr fuel ips task A g (Some r)) (\<lambda>out. Inr (False, NO @ out)))
              else Inr (False, [])
            else rbind (rloop fuel (dspr_loop ips iv ?n ?q) (s'', sat__addClause1 t' (iav ! ?q)))
              (\<lambda>(answer, t''). if answer then Inr (True, if do_print then YES else [])
                else if do_print then rbind (true_raset t'' iv ?n) (\<lambda>r.
                  rbind (solve_sepr fuel ips task A g (Some r)) (\<lambda>out. Inr (False, NO @ out)))
                else Inr (False, []))))
          (dspr_spec A ?q do_print)"
        if t': "adds t t' (\<lambda>w. \<not> true_set w iv \<subseteq> true_set v iv)" for t'
      proof (rule rok_rbind, rule adm.solve[OF wf g ips a1(1-3) s2, where Q = "\<lambda>I U. ?q \<in> U"], goal_cases)
        case (1 w) show ?case by (rule assuming_in[OF a1(2) q 2(9)])
      next
        case (2 s'' w I U)
        have "refutes ?F ?q (true_set w iv)"
          unfolding refutes_def
        proof (intro conjI allI impI)
          show "admissible ?F (true_set w iv)" using 2 by (simp add: adm_sem_def)
          fix P assume P: "preferred ?F P \<and> true_set w iv \<subseteq> P"
          have "?q \<in> attacked ?F P" using 2 P by (auto simp: attacked_def)
          then show "?q \<notin> P" using P admissible_cf[OF preferred_admissible] by (auto simp: attacked_def)
        qed
        from no(2)[OF 2(7) this] show ?case by simp
      next
        case (3 s'')
        let ?t = "sat__addClause1 t' (iav ! ?q)"
        have rdy: "ready t'" using addsD(1)[OF t'] .
        have pos: "0 < iav ! ?q" by (rule vars_pos[OF a2(1) q])
        have tm: "models ?t iv {E \<in> attackers_of ?F ?q. \<not> E \<subseteq> true_set v iv}"
        proof (rule att_models[OF wf g al al2 off, where R = "\<lambda>E. \<not> E \<subseteq> true_set v iv" and Q = "\<lambda>T. ?q \<in> T"])
          show "ready ?t" using rdy by simp
          show "holds w ?t \<longleftrightarrow> ?c1 w \<and> ?c2 w \<and> ?c3 w \<and> ?c4 w \<and> \<not> true_set w iv \<subseteq> true_set v iv \<and>
              ?q \<in> true_set w iav" for w
            using rdy pos addsD(3)[OF t'] t(2) true_set_iff[OF a2(1) q] by auto
        qed
        have tmA: "assumed ?t = []" using addsD(2)[OF t'] tA by simp
        have "rok (rloop fuel (dspr_loop ips iv ?n ?q) (s'', ?t)) (\<lambda>(b, t').
            if b then skeptical (preferred ?F) ?q else \<exists>v. model_is t' v \<and> refutes ?F ?q (true_set v iv))"
          using finite_attackers[OF wf, of ?q] fuel
          by (intro dspr_loop_rok[OF ips a1(1) q _ adm.describes_models[OF wf g a1(1-3) 3(2)] 3(3) S tm tmA]) auto
        then have "rok (rbind (rloop fuel (dspr_loop ips iv ?n ?q) (s'', ?t))
            (\<lambda>(answer, t''). if answer then Inr (True, if do_print then YES else [])
              else if do_print then rbind (true_raset t'' iv ?n) (\<lambda>r.
                rbind (solve_sepr fuel ips task A g (Some r)) (\<lambda>out. Inr (False, NO @ out)))
              else Inr (False, []))) (dspr_spec A ?q do_print)"
        proof (rule rok_bind, clarify, goal_cases)
          case (1 b t'')
          show ?case
          proof (cases b)
            case True
            with 1 show ?thesis by (simp add: dspr_spec_def)
          next
            case False
            obtain v where "model_is t'' v" "refutes ?F ?q (true_set v iv)" using 1 False by auto
            from no(2)[OF this] False show ?thesis by simp
          qed
        qed
        then show ?case by simp
      qed
      from rok_bind[OF add_false_vars_adds[OF 2(7) t(1) a1(1)] step] show ?case by simp
    qed
  qed
qed

end
