(* ===== verification/CountPreferred.thy ===== *)
theory CountPreferred
  imports Preferred
begin

text \<open>
  tasks/task_ce-pr.cpp: counting preferred extensions.  The inner loop grows an admissible set under
  assumptions, the outer loop counts the maximal sets found and excludes their subsets.  When no
  non-empty admissible set exists the empty set is the only preferred extension.
\<close>

section \<open>The solve function\<close>

definition cepr_scan :: "ipasir \<Rightarrow> int list \<Rightarrow> nat \<Rightarrow> RaSet \<Rightarrow> (RaSet \<times> int list) result" where
  "cepr_scan solver in_vars n temp =
     rfold (\<lambda>i (temp, clause). rbind (sat__get solver (in_vars ! i)) (\<lambda>x.
         if x > 0 then Inr (snd (raset__add temp i), clause)
         else if x < 0 then rbind (put_lit n (in_vars ! i) clause) (\<lambda>clause. Inr (temp, clause))
         else Inr (temp, clause)))
       [0..<n] (temp, [])"

definition cepr_inner ::
    "sat_oracle \<Rightarrow> int list \<Rightarrow> nat \<Rightarrow> ipasir \<times> RaSet \<times> RaSet \<times> bool \<Rightarrow>
     (ipasir \<times> RaSet \<times> RaSet \<times> bool, ipasir \<times> RaSet \<times> RaSet \<times> bool) step result" where
  "cepr_inner ips in_vars n = (\<lambda>(solver, admSet, temp, noFurther).
     let temp = raset__reset temp
     in rbind (sat__solve ips solver) (\<lambda>(sat, solver).
        if sat = 20 then Inr (Break (solver, admSet, temp, noFurther))
        else
          let noFurther = False
          in rbind (cepr_scan solver in_vars n temp) (\<lambda>(temp, clause).
             let solver = sat__addClause solver clause (length clause);
                 (admSet, solver) =
                   fold (\<lambda>i (admSet, solver).
                       (snd (raset__add admSet (elements_arr temp ! i)),
                        sat__assume solver (in_vars ! (elements_arr temp ! i))))
                     [0..<number_of_elements temp] (admSet, solver)
             in Inr (Continue (solver, admSet, temp, noFurther)))))"

definition cepr_outer ::
    "nat \<Rightarrow> sat_oracle \<Rightarrow> int list \<Rightarrow> nat \<Rightarrow> ipasir \<times> RaSet \<times> RaSet \<times> nat \<Rightarrow>
     (ipasir \<times> RaSet \<times> RaSet \<times> nat, nat) step result" where
  "cepr_outer fuel ips in_vars n = (\<lambda>(solver, admSet, temp, cnt_pr).
     let admSet = raset__reset admSet
     in rbind (rloop fuel (cepr_inner ips in_vars n) (solver, admSet, temp, True))
          (\<lambda>(solver, admSet, temp, noFurther).
        if noFurther then Inr (Break cnt_pr)
        else
          let cnt_pr = cnt_pr + 1
          in rbind (rfold (\<lambda>i clause. if \<not> raset__contains admSet i then put_lit n (in_vars ! i) clause
                       else Inr clause) [0..<n] []) (\<lambda>clause.
             Inr (Continue (sat__addClause solver clause (length clause), admSet, temp, cnt_pr)))))"

definition solve_cepr ::
    "nat \<Rightarrow> sat_oracle \<Rightarrow> TaskSpecification \<Rightarrow> AAF \<Rightarrow> Labeling \<Rightarrow> string result" where
  "solve_cepr fuel ips task aaf grounded =
     (let n = number_of_arguments aaf;
          solver = sat__init (2 * n + 1);
          (in_vars, out_vars, idx) = alloc_in_out n 1
      in rbind (add_admTestClauses solver in_vars out_vars aaf grounded) (\<lambda>(solver, _).
         let solver = fold (\<lambda>i solver. sat__add solver (in_vars ! i)) [0..<n] solver;
             solver = sat__add solver 0;
             admSet = raset__init_empty n;
             temp = raset__init_empty n
         in rbind (rloop fuel (cepr_outer fuel ips in_vars n) (solver, admSet, temp, 0)) (\<lambda>cnt_pr.
            let cnt_pr = (if cnt_pr = 0 then 1 else cnt_pr)
            in Inr (show_nat cnt_pr @ newline))))"

section \<open>The inner loop\<close>

lemma cepr_scan_rok:
  assumes m: "model_is s v" and iv: "vars_ok n iv" and temp: "raset_is n {} temp"
  shows "rok (cepr_scan s iv n temp) (\<lambda>(temp', c).
    raset_is n (true_set v iv) temp' \<and> c = others iv (true_set v iv))"
proof -
  have step: "cepr_scan s iv n temp = rfold (\<lambda>i (temp, clause). rbind (sat__get s (iv ! i)) (\<lambda>x.
         if \<not> raset__contains (raset__init_empty n) i \<and> x > 0 then Inr (snd (raset__add temp i), clause)
         else if x < 0 then rbind (put_lit n (iv ! i) clause) (\<lambda>clause. Inr (temp, clause))
         else Inr (temp, clause))) [0..<n] (temp, [])"
    unfolding cepr_scan_def
    by (rule rfold_cong) (simp add: raset_is_contains[OF raset_is_init])
  then have "cepr_scan s iv n temp = sepr_scan s iv n (raset__init_empty n) temp"
    by (simp only: sepr_scan_def)
  with sepr_scan_rok[OF m iv raset_is_init _ temp] show ?thesis by simp
qed

lemma assume_all:
  assumes adm: "raset_is n E admSet" and s: "models s iv X" and xs: "set xs \<subseteq> {..<n}"
  shows "case fold (\<lambda>i (admSet, solver). (snd (raset__add admSet i), sat__assume solver (iv ! i))) xs (admSet, s)
    of (admSet', s') \<Rightarrow> raset_is n (E \<union> set xs) admSet' \<and> models s' iv X \<and>
      assumed s' = assumed s @ map (\<lambda>i. iv ! i) xs"
  using adm s xs
proof (induction xs arbitrary: admSet E s)
  case (Cons x xs)
  then have x: "x < n" by simp
  from Cons.IH[OF raset_is_add[OF Cons.prems(1) x] models_assume[OF Cons.prems(2)]] Cons.prems(3)
  show ?case by simp
qed simp

lemma assuming_all:
  assumes iv: "vars_ok n iv" and xs: "set xs \<subseteq> {..<n}" and s: "assumed s = map (\<lambda>i. iv ! i) xs"
  shows "assuming v s \<longleftrightarrow> set xs \<subseteq> true_set v iv"
  using xs true_set_iff[OF iv] by (auto simp: assuming_def s)

text \<open>
  The state of the inner loop: either nothing has been found, or the current set is one of the
  enumerated sets and is assumed in the next query; what remains is not below the current set.
\<close>

definition cepr_inv :: "int list \<Rightarrow> nat \<Rightarrow> nat set set \<Rightarrow> ipasir \<times> RaSet \<times> RaSet \<times> bool \<Rightarrow> bool" where
  "cepr_inv iv n X = (\<lambda>(s, admSet, temp, noFurther). \<exists>cur T.
     raset_is n cur admSet \<and> raset_is n T temp \<and> (if noFurther then cur = {} else cur \<in> X) \<and>
     models s iv {E \<in> X. \<not> E \<subseteq> cur} \<and> (\<forall>v. assuming v s \<longleftrightarrow> cur \<subseteq> true_set v iv))"

lemma cepr_inner_rok:
  assumes ips: "oracle_ok ips" and iv: "vars_ok n iv" and ne: "\<And>E. E \<in> X \<Longrightarrow> E \<noteq> {}"
    and I0: "cepr_inv iv n X st" and fuel: "n < fuel"
  shows "rok (rloop fuel (cepr_inner ips iv n) st) (\<lambda>(s, admSet, temp, noFurther).
    \<exists>cur T. raset_is n cur admSet \<and> raset_is n T temp \<and> assumed s = [] \<and>
      models s iv {E \<in> X. \<not> E \<subseteq> cur} \<and>
      (if noFurther then X = {} else cur \<in> X \<and> (\<forall>E\<in>X. cur \<subseteq> E \<longrightarrow> E = cur)))"
    (is "rok _ ?post")
proof (rule rok_rloop[where I = "cepr_inv iv n X" and \<mu> = "\<lambda>(s, admSet, temp, b). n - card (raset_set admSet)"])
  show "cepr_inv iv n X st" by (rule I0)
  show "(case st of (s, admSet, temp, b) \<Rightarrow> n - card (raset_set admSet)) < fuel" using fuel by (cases st) auto
next
  fix st assume "cepr_inv iv n X st"
  then obtain s admSet temp b cur T where st: "st = (s, admSet, temp, b)" and r: "raset_is n cur admSet"
    and T: "raset_is n T temp" and cur: "if b then cur = {} else cur \<in> X"
    and s: "models s iv {E \<in> X. \<not> E \<subseteq> cur}" and asm: "\<And>v. assuming v s \<longleftrightarrow> cur \<subseteq> true_set v iv"
    unfolding cepr_inv_def by (cases st) auto
  define Q where "Q = (\<lambda>t. case t of
      Continue s' \<Rightarrow> cepr_inv iv n X s' \<and> (case s' of (s, admSet, temp, b) \<Rightarrow> n - card (raset_set admSet)) <
        (case st of (s, admSet, temp, b) \<Rightarrow> n - card (raset_set admSet))
    | Break r \<Rightarrow> ?post r)"
  let ?X = "{E \<in> X. \<not> E \<subseteq> cur}"
  have "rok (cepr_inner ips iv n st) Q"
    unfolding cepr_inner_def st prod.case Let_def
  proof (rule rok_rbind, rule solve_models[OF ips s, where Q = "\<lambda>E. cur \<subseteq> E"], goal_cases)
    case (1 v) show ?case by (rule asm)
  next
    case (2 s' v)
    let ?I = "true_set v iv" and ?c = "others iv (true_set v iv)"
    have I: "?I \<in> X" "cur \<subset> ?I" using 2(1,2) by auto
    obtain t where scan: "cepr_scan s' iv n (raset__reset temp) = Inr (t, ?c)" and t: "raset_is n ?I t"
      using cepr_scan_rok[OF 2(3) iv raset_is_reset[OF T]] by (auto elim!: rokE)
    have blk: "models (sat__addClause s' ?c (length ?c)) iv {E \<in> ?X. \<not> E \<subseteq> ?I}"
      by (rule models_block[OF 2(4) iv])
    have eqX: "{E \<in> ?X. \<not> E \<subseteq> ?I} = {E \<in> X. \<not> E \<subseteq> ?I}" using I(2) by blast
    have none: "assumed (sat__addClause s' ?c (length ?c)) = []" using 2(5) others_nonzero[OF iv] by simp
    have xs: "set (raset_list t) \<subseteq> {..<n}" using raset_is_list[OF t] raset_is_subset[OF t] by simp
    from assume_all[OF r blk xs] obtain a s'' where
      res: "fold (\<lambda>i (admSet, solver). (snd (raset__add admSet i), sat__assume solver (iv ! i)))
          (raset_list t) (admSet, sat__addClause s' ?c (length ?c)) = (a, s'')"
      and a: "raset_is n (cur \<union> ?I) a" and s'': "models s'' iv {E \<in> ?X. \<not> E \<subseteq> ?I}"
      and as: "assumed s'' = map (\<lambda>i. iv ! i) (raset_list t)"
      unfolding raset_is_list[OF t] by (auto simp: none split: prod.splits)
    have un: "cur \<union> ?I = ?I" using I(2) by blast
    have "\<And>w. assuming w s'' \<longleftrightarrow> ?I \<subseteq> true_set w iv"
      using assuming_all[OF iv xs as] raset_is_list[OF t] by simp
    then have "cepr_inv iv n X (s'', a, t, False)"
      unfolding cepr_inv_def using a[unfolded un] t s''[unfolded eqX] I(1)
      by (auto intro!: exI[of _ ?I])
    moreover have "n - card (raset_set a) < n - card (raset_set admSet)"
      using psubset_measure[OF I(2) true_set_subset[OF iv]] raset_isD(3)[OF a] raset_isD(3)[OF r] un by simp
    moreover note fold_elements[OF raset_isD(1)[OF t],
        of "\<lambda>i (admSet, solver). (snd (raset__add admSet i), sat__assume solver (iv ! i))"]
    ultimately show ?case
      using res by (simp add: scan Q_def st)
  next
    case (3 s')
    have "?post (s', admSet, raset__reset temp, b)"
    proof (cases b)
      case True
      then have "X = {}" using 3(1) cur ne by fastforce
      then show ?thesis using r raset_is_reset[OF T] 3(2,3) True by auto
    next
      case False
      then have "\<forall>E\<in>X. cur \<subseteq> E \<longrightarrow> E = cur" using 3(1) by blast
      then show ?thesis using r raset_is_reset[OF T] 3(2,3) cur False by auto
    qed
    then show ?case by (simp add: Q_def)
  qed
  then show "rok (cepr_inner ips iv n st) (\<lambda>t. case t of
      Continue s' \<Rightarrow> cepr_inv iv n X s' \<and> (case s' of (s, admSet, temp, b) \<Rightarrow> n - card (raset_set admSet)) <
        (case st of (s, admSet, temp, b) \<Rightarrow> n - card (raset_set admSet))
    | Break r \<Rightarrow> ?post r)"
    by (simp only: Q_def)
qed

section \<open>Counting the maximal sets\<close>

lemma cepr_clause:
  assumes r: "raset_is n E r" and iv: "vars_ok n iv"
  shows "rfold (\<lambda>i clause. if \<not> raset__contains r i then put_lit n (iv ! i) clause else Inr clause) [0..<n] [] =
    Inr (others iv E)"
proof -
  have "rfold (\<lambda>i clause. if \<not> raset__contains r i then put_lit n (iv ! i) clause else Inr clause) [0..<n] [] =
      rfold (\<lambda>i clause. if i \<notin> E then put_lit n (iv ! i) clause else Inr clause) [0..<n] []"
    by (rule rfold_cong) (simp add: raset_is_contains[OF r])
  then show ?thesis
    using put_lit_filter[of n n "\<lambda>i. i \<notin> E" "\<lambda>i. iv ! i"] iv by (simp add: others_def vars_ok_def)
qed

text \<open>
  The invariant of the outer loop: the sets counted so far are preferred and not empty, and what
  remains are the admissible sets that are below none of them.
\<close>

definition remaining :: "framework \<Rightarrow> nat set set \<Rightarrow> nat set set" where
  "remaining F \<P> = {E. adm_sem F E \<and> E \<noteq> {} \<and> (\<forall>P\<in>\<P>. \<not> E \<subseteq> P)}"

lemma maximal_remaining_preferred:
  assumes wf: "wf_framework F" and E: "E \<in> remaining F \<P>" and max: "\<forall>E'\<in>remaining F \<P>. E \<subseteq> E' \<longrightarrow> E' = E"
  shows "preferred F E"
proof (rule no_larger_preferred[OF wf])
  show "admissible F E" using E by (simp add: remaining_def adm_sem_def)
  fix E' assume adm: "adm_sem F E'"
  show "\<not> E \<subset> E'"
  proof
    assume "E \<subset> E'"
    with adm E have "E' \<in> remaining F \<P>" unfolding remaining_def by blast
    with max \<open>E \<subset> E'\<close> show False by blast
  qed
qed

lemma remaining_empty:
  assumes P: "\<And>P. P \<in> \<P> \<Longrightarrow> preferred F P \<and> P \<noteq> {}" and none: "remaining F \<P> = {}"
  shows "\<P> = {P. preferred F P \<and> P \<noteq> {}}"
proof -
  have "P \<in> \<P>" if "preferred F P" "P \<noteq> {}" for P
  proof -
    have "adm_sem F P"
      using that by (simp add: adm_sem_def preferred_admissible grounded_preferred)
    with none that(2) obtain P' where "P' \<in> \<P>" "P \<subseteq> P'" unfolding remaining_def by blast
    with P that show ?thesis unfolding preferred_def by blast
  qed
  with P show ?thesis by blast
qed

lemma cepr_outer_rok:
  assumes ips: "oracle_ok ips" and wf: "wf_framework F" and iv: "vars_ok n iv"
    and fin: "finite {P. preferred F P}"
    and s: "models s iv (remaining F {})" "assumed s = []"
    and adm: "raset_is n E0 admSet" "raset_is n T0 temp"
    and fuel: "n < fuel" "card {P. preferred F P \<and> P \<noteq> {}} < fuel"
  shows "rok (rloop fuel (cepr_outer fuel ips iv n) (s, admSet, temp, 0))
    (\<lambda>r. r = card {P. preferred F P \<and> P \<noteq> {}})"
proof -
  let ?S = "{P. preferred F P \<and> P \<noteq> {}}"
  have finS: "finite ?S" using fin by (rule rev_finite_subset) auto
  define inv where "inv = (\<lambda>(s, admSet, temp, cnt). \<exists>\<P>\<subseteq>?S. cnt = card \<P> \<and> models s iv (remaining F \<P>) \<and>
      assumed s = [] \<and> (\<exists>E. raset_is n E admSet) \<and> (\<exists>T. raset_is n T temp))"
  show ?thesis
  proof (rule rok_rloop[where I = inv and \<mu> = "\<lambda>(s, admSet, temp, cnt). card ?S - cnt"])
    show "inv (s, admSet, temp, 0)" unfolding inv_def using s adm by (auto intro!: exI[of _ "{} :: nat set set"])
  next
    fix st assume "inv st"
    then obtain s admSet temp \<P> E T where st: "st = (s, admSet, temp, card \<P>)" and P: "\<P> \<subseteq> ?S"
      and s: "models s iv (remaining F \<P>)" "assumed s = []" and r: "raset_is n E admSet" "raset_is n T temp"
      unfolding inv_def by (cases st) auto
    define Q where "Q = (\<lambda>t. case t of
        Continue s' \<Rightarrow> inv s' \<and> (case s' of (s, admSet, temp, cnt) \<Rightarrow> card ?S - cnt) <
          (case st of (s, admSet, temp, cnt) \<Rightarrow> card ?S - cnt)
      | Break r \<Rightarrow> r = card ?S)"
    let ?X = "remaining F \<P>"
    have I0: "cepr_inv iv n ?X (s, raset__reset admSet, temp, True)"
    proof -
      have "{E \<in> ?X. \<not> E \<subseteq> {}} = ?X" by (auto simp: remaining_def)
      with s r(2) raset_is_reset[OF r(1)] show ?thesis
        unfolding cepr_inv_def by (auto simp: assuming_none)
    qed
    have "rok (cepr_outer fuel ips iv n st) Q"
      unfolding cepr_outer_def st prod.case Let_def
    proof (rule rok_bind[OF cepr_inner_rok[OF ips iv _ I0 fuel(1)]], goal_cases)
      case (1 E) then show ?case by (simp add: remaining_def)
    next
      case (2 res)
      obtain s' a t b where res: "res = (s', a, t, b)" by (cases res)
      with 2 obtain cur T where cur: "raset_is n cur a" "raset_is n T t" and s': "assumed s' = []"
          "models s' iv {E \<in> ?X. \<not> E \<subseteq> cur}"
        and fin: "if b then ?X = {} else cur \<in> ?X \<and> (\<forall>E\<in>?X. cur \<subseteq> E \<longrightarrow> E = cur)" by auto
      show ?case
      proof (cases b)
        case True
        then have "\<P> = ?S" using fin P by (intro remaining_empty) auto
        with True show ?thesis by (simp add: res Q_def)
      next
        case False
        let ?c = "others iv cur"
        have curX: "cur \<in> ?X" using fin False by simp
        then have pref: "cur \<in> ?S"
          using fin False maximal_remaining_preferred[OF wf] by (auto simp: remaining_def)
        have new: "cur \<notin> \<P>" using curX by (auto simp: remaining_def)
        have "{E \<in> {E \<in> ?X. \<not> E \<subseteq> cur}. \<not> E \<subseteq> cur} = remaining F (insert cur \<P>)"
          by (auto simp: remaining_def)
        with models_block[OF s'(2) iv, of cur]
        have m: "models (sat__addClause s' ?c (length ?c)) iv (remaining F (insert cur \<P>))" by simp
        have as: "assumed (sat__addClause s' ?c (length ?c)) = []" using s'(1) others_nonzero[OF iv] by simp
        have card: "card (insert cur \<P>) = Suc (card \<P>)" "card (insert cur \<P>) \<le> card ?S"
          using new P pref finS card_mono[OF finS, of "insert cur \<P>"] finite_subset[OF P finS] by auto
        have "inv (sat__addClause s' ?c (length ?c), a, t, Suc (card \<P>))"
          unfolding inv_def using m as card pref P cur by (auto intro!: exI[of _ "insert cur \<P>"])
        then show ?thesis
          using False card by (simp add: res Q_def st cepr_clause[OF cur(1) iv])
      qed
    qed
    then show "rok (cepr_outer fuel ips iv n st) (\<lambda>t. case t of
        Continue s' \<Rightarrow> inv s' \<and> (case s' of (s, admSet, temp, cnt) \<Rightarrow> card ?S - cnt) <
          (case st of (s, admSet, temp, cnt) \<Rightarrow> card ?S - cnt)
      | Break r \<Rightarrow> r = card ?S)"
      by (simp only: Q_def)
  qed (use fuel(2) in auto)
qed

text \<open>The empty set is preferred exactly when it is the only preferred extension.\<close>

lemma count_with_empty:
  assumes wf: "wf_framework F"
  shows "card {P. preferred F P} =
    (if card {P. preferred F P \<and> P \<noteq> {}} = 0 then 1 else card {P. preferred F P \<and> P \<noteq> {}})"
proof (cases "preferred F {}")
  case True
  then have "{P. preferred F P} = {{}}" unfolding preferred_def by blast
  moreover from this have "{P. preferred F P \<and> P \<noteq> {}} = {}" by blast
  ultimately show ?thesis by simp
next
  case False
  then have eq: "{P. preferred F P \<and> P \<noteq> {}} = {P. preferred F P}" by auto
  have "finite {P. preferred F P}"
  proof (rule finite_subset)
    show "{P. preferred F P} \<subseteq> Pow (args F)" using preferred_admissible admissible_subset by blast
    show "finite (Pow (args F))" using wf by (simp add: wf_framework_def)
  qed
  moreover have "{P. preferred F P} \<noteq> {}" using preferred_exists[OF wf] by simp
  ultimately have "card {P. preferred F P} \<noteq> 0" by (simp only: card_eq_0_iff) simp
  with eq show ?thesis by simp
qed

lemma solve_cepr_rok:
  assumes wf: "wf_aaf A" and g: "grounded_labeling A g" and ips: "oracle_ok ips"
    and fuel: "number_of_arguments A < fuel" "card {P. preferred (af_of A) P} < fuel"
  shows "rok (solve_cepr fuel ips task A g) (\<lambda>out. out = show_nat (card {P. preferred (af_of A) P}) @ newline)"
proof -
  let ?n = "number_of_arguments A" and ?F = "af_of A"
  obtain iv ov idx where al: "alloc_in_out ?n 1 = (iv, ov, idx)" by (cases "alloc_in_out ?n 1") auto
  note iv = in_out_alloc(1)[OF al]
  have fin: "finite {P. preferred ?F P}"
    using finite_extensions[of "preferred ?F" ?n] admissible_subset[OF preferred_admissible, of ?F] by simp
  have "{P. preferred ?F P \<and> P \<noteq> {}} \<subseteq> {P. preferred ?F P}" by auto
  from card_mono[OF fin this] have fuel2: "card {P. preferred ?F P \<and> P \<noteq> {}} < fuel" using fuel(2) by simp
  show ?thesis
    unfolding solve_cepr_def al Let_def prod.case
  proof (rule rok_bind[OF adm_models[OF wf g al]], clarify, goal_cases)
    case (1 s b)
    have X: "{E' \<in> {E. adm_sem ?F E}. \<not> E' \<subseteq> {}} = remaining ?F {}" by (auto simp: remaining_def)
    note s1 = models_some_in[OF 1 iv, of "\<lambda>_. True" "{}", unfolded X]
    have "rok (rloop fuel (cepr_outer fuel ips iv ?n)
        (sat__add (fold (\<lambda>i s. sat__add s (iv ! i)) [0..<?n] s) 0, raset__init_empty ?n, raset__init_empty ?n, 0))
      (\<lambda>r. r = card {P. preferred ?F P \<and> P \<noteq> {}})"
      using s1 by (intro cepr_outer_rok[OF ips wf_af_of[OF wf] iv fin _ _ raset_is_init raset_is_init fuel(1) fuel2]) simp_all
    then show ?case
      by (rule rok_bind) (simp add: count_with_empty[OF wf_af_of[OF wf]])
  qed
qed

end
