(* ===== verification/Ideal.thy ===== *)
theory Ideal
  imports Preferred
begin

text \<open>
  tasks/task_se-id.cpp: the ideal extension.  First the arguments that no admissible set attacks are
  determined (the preferred super-core \<open>psc\<close>), by asking for admissible sets that attack the current
  candidates and discarding what they attack; then the arguments attacked from the core and, until
  nothing changes, the arguments that are not defended are removed.  Both loops shrink a set, so
  \<open>n + 1\<close> rounds are enough.
\<close>

section \<open>The operations\<close>

definition psc_init :: "AAF \<Rightarrow> Labeling \<Rightarrow> RaSet" where
  "psc_init aaf grounded =
     fold (\<lambda>i psc. if \<not> bit_at (lab_out grounded) i then snd (raset__add psc i) else psc)
       [0..<number_of_arguments aaf] (raset__init_empty (number_of_arguments aaf))"

definition psc_clause :: "int list \<Rightarrow> AAF \<Rightarrow> RaSet \<Rightarrow> ipasir \<Rightarrow> ipasir \<times> bool" where
  "psc_clause in_vars aaf psc solver =
     fold (\<lambda>i. fold (\<lambda>p (solver, emptyclause). (sat__add solver (in_vars ! p), False))
                 (parents aaf ! (elements_arr psc ! i)))
       [0..<number_of_elements psc] (solver, True)"

definition psc_remove :: "int list \<Rightarrow> AAF \<Rightarrow> ipasir \<Rightarrow> RaSet \<Rightarrow> RaSet result" where
  "psc_remove in_vars aaf solver psc =
     rfold (\<lambda>i psc. rbind (sat__get solver (in_vars ! i)) (\<lambda>x.
         Inr (if x > 0 then
                fold (\<lambda>c psc. if raset__contains psc c then snd (raset__remove psc c) else psc)
                  (children aaf ! i) psc
              else psc)))
       [0..<number_of_arguments aaf] psc"

definition psc_loop ::
    "sat_oracle \<Rightarrow> int list \<Rightarrow> AAF \<Rightarrow> ipasir \<times> RaSet \<times> bool \<Rightarrow> (ipasir \<times> RaSet \<times> bool, RaSet \<times> bool) step result"
  where
  "psc_loop ips in_vars aaf = (\<lambda>(solver_admTest, psc, onerunonly).
     let (solver_admTest, emptyclause) = psc_clause in_vars aaf psc solver_admTest
     in if emptyclause then Inr (Break (psc, onerunonly))
        else
          let solver_admTest = sat__add solver_admTest 0
          in rbind (sat__solve ips solver_admTest) (\<lambda>(sat, solver_admTest).
             if sat = 20 then Inr (Break (psc, onerunonly))
             else rbind (psc_remove in_vars aaf solver_admTest psc) (\<lambda>psc.
                  Inr (Continue (solver_admTest, psc, False)))))"

definition psc_unattacked :: "AAF \<Rightarrow> RaSet \<Rightarrow> RaSet" where
  "psc_unattacked aaf psc =
     fold (\<lambda>i ideal.
         let isAttacked = list_ex (\<lambda>p. raset__contains psc p) (parents aaf ! (elements_arr psc ! i))
         in if \<not> isAttacked then snd (raset__add ideal (elements_arr psc ! i)) else ideal)
       [0..<number_of_elements psc] (raset__init_empty (number_of_arguments aaf))"

definition keep_arg :: "AAF \<Rightarrow> RaSet \<Rightarrow> nat \<Rightarrow> bool" where
  "keep_arg aaf ideal a =
     list_all (\<lambda>attacker. list_ex (\<lambda>d. raset__contains ideal d) (parents aaf ! attacker)) (parents aaf ! a)"

text \<open>The \<open>for\<close> loop of a round: removing an argument keeps the position (\<open>i--\<close>).\<close>

definition prune_scan :: "AAF \<Rightarrow> RaSet \<times> bool \<times> nat \<Rightarrow> (RaSet \<times> bool \<times> nat, RaSet \<times> bool) step result" where
  "prune_scan aaf = (\<lambda>(ideal, changed, i).
     if i < number_of_elements ideal then
       let a = elements_arr ideal ! i
       in if \<not> keep_arg aaf ideal a
          then Inr (Continue (snd (raset__remove ideal a), True, i))
          else Inr (Continue (ideal, changed, i + 1))
     else Inr (Break (ideal, changed)))"

definition prune_round :: "nat \<Rightarrow> AAF \<Rightarrow> RaSet \<Rightarrow> (RaSet, RaSet) step result" where
  "prune_round fuel aaf ideal =
     rbind (rloop fuel (prune_scan aaf) (ideal, False, 0)) (\<lambda>(ideal, changed).
       Inr (if changed then Continue ideal else Break ideal))"

definition grounded_raset :: "AAF \<Rightarrow> Labeling \<Rightarrow> RaSet" where
  "grounded_raset aaf grounded =
     fold (\<lambda>idx ideal. if \<not> twoValued grounded \<and> bit_at (lab_out grounded) idx then ideal
                       else snd (raset__add ideal idx))
       (bitset_members (lab_in grounded)) (raset__init_empty (number_of_arguments aaf))"

definition compute_ideal ::
    "nat \<Rightarrow> sat_oracle \<Rightarrow> TaskSpecification \<Rightarrow> AAF \<Rightarrow> Labeling \<Rightarrow> RaSet result" where
  "compute_ideal fuel ips task aaf grounded =
     (let n = number_of_arguments aaf;
          (in_vars, out_vars, idx) = alloc_in_out n 1;
          solver_admTest = sat__init (nat (idx - 1))
      in rbind (add_admTestClauses solver_admTest in_vars out_vars aaf grounded) (\<lambda>(solver_admTest, _).
         rbind (rloop fuel (psc_loop ips in_vars aaf) (solver_admTest, psc_init aaf grounded, True))
           (\<lambda>(psc, onerunonly).
         if onerunonly then Inr (grounded_raset aaf grounded)
         else if number_of_elements psc = 0 then Inr psc
         else rloop fuel (prune_round fuel aaf) (psc_unattacked aaf psc))))"

definition solve_seid ::
    "nat \<Rightarrow> sat_oracle \<Rightarrow> TaskSpecification \<Rightarrow> AAF \<Rightarrow> Labeling \<Rightarrow> string result" where
  "solve_seid fuel ips task aaf grounded =
     rbind (compute_ideal fuel ips task aaf grounded) (\<lambda>ideal.
       Inr (raset__print_i23 ideal (ids2arguments aaf)))"

section \<open>The preferred super-core\<close>

lemma psc_clause_eq:
  assumes "raset_inv psc"
  shows "psc_clause iv A psc s =
    (let ps = concat (map (\<lambda>c. parents A ! c) (raset_list psc))
     in (fold (\<lambda>p s. sat__add s (iv ! p)) ps s, ps = []))"
proof -
  have inner: "fold (\<lambda>p (s, e). (sat__add s (iv ! p), False)) ps (s, e) =
      (fold (\<lambda>p s. sat__add s (iv ! p)) ps s, e \<and> ps = [])" for ps s e
    by (induction ps arbitrary: s e) auto
  have "fold (\<lambda>c. fold (\<lambda>p (s, e). (sat__add s (iv ! p), False)) (parents A ! c)) cs (s, e) =
      (fold (\<lambda>p s. sat__add s (iv ! p)) (concat (map (\<lambda>c. parents A ! c) cs)) s,
       e \<and> concat (map (\<lambda>c. parents A ! c) cs) = [])" for cs s e
    by (induction cs arbitrary: s e) (auto simp: inner)
  then show ?thesis
    using fold_elements[OF assms, of "\<lambda>c. fold (\<lambda>p (s, e). (sat__add s (iv ! p), False)) (parents A ! c)"]
    by (simp add: psc_clause_def Let_def)
qed

definition attacks_set :: "framework \<Rightarrow> nat set \<Rightarrow> nat set \<Rightarrow> bool" where
  "attacks_set F E C \<longleftrightarrow> attacked F E \<inter> C \<noteq> {}"

lemma attacks_set_parents:
  assumes C: "C \<subseteq> {..<number_of_arguments A}"
  shows "attacks_set (af_of A) E C \<longleftrightarrow> (\<exists>p\<in>\<Union>c\<in>C. set (parents A ! c). p \<in> E)"
proof -
  have "attacks_set (af_of A) E C \<longleftrightarrow> (\<exists>c\<in>C. \<exists>p\<in>E. (p, c) \<in> attacks (af_of A))"
    unfolding attacks_set_def attacked_def by blast
  also have "\<dots> \<longleftrightarrow> (\<exists>c\<in>C. \<exists>p\<in>E. p \<in> set (parents A ! c))" using C by (auto simp: attacks_af_of)
  also have "\<dots> \<longleftrightarrow> (\<exists>p\<in>\<Union>c\<in>C. set (parents A ! c). p \<in> E)" by blast
  finally show ?thesis .
qed

lemma psc_clause_adds:
  assumes wf: "wf_aaf A" and iv: "vars_ok (number_of_arguments A) iv" and s: "ready s"
    and psc: "raset_is (number_of_arguments A) C psc"
  shows "case psc_clause iv A psc s of (s', e) \<Rightarrow>
    adds s (sat__add s' 0) (\<lambda>v. attacks_set (af_of A) (true_set v iv) C) \<and>
    (e \<longrightarrow> (\<forall>E. \<not> attacks_set (af_of A) E C))"
proof -
  let ?n = "number_of_arguments A" and ?ps = "concat (map (\<lambda>c. parents A ! c) (raset_list psc))"
  have C: "C \<subseteq> {..<?n}" by (rule raset_is_subset[OF psc])
  have ps: "set ?ps = (\<Union>c\<in>C. set (parents A ! c))" using raset_is_list[OF psc] by auto
  have b: "p < ?n" if "p \<in> set ?ps" for p using that C parent_bound[OF wf] unfolding ps by blast
  have "\<forall>p\<in>set ?ps. iv ! p \<noteq> 0" using b iv by auto
  from fold_sat__add_all[OF this, of s] s
  have "adds s (sat__add (fold (\<lambda>p s. sat__add s (iv ! p)) ?ps s) 0) (\<lambda>v. \<exists>p\<in>set ?ps. lit_true v (iv ! p))"
    by (simp add: adds_def ready_def[of s] image_iff Bex_def) blast
  then have "adds s (sat__add (fold (\<lambda>p s. sat__add s (iv ! p)) ?ps s) 0)
      (\<lambda>v. attacks_set (af_of A) (true_set v iv) C)"
  proof (rule adds_cong)
    fix v
    have "(\<exists>p\<in>set ?ps. lit_true v (iv ! p)) \<longleftrightarrow> (\<exists>p\<in>set ?ps. p \<in> true_set v iv)"
      using b true_set_iff[OF iv] by blast
    then show "(\<exists>p\<in>set ?ps. lit_true v (iv ! p)) \<longleftrightarrow> attacks_set (af_of A) (true_set v iv) C"
      unfolding attacks_set_parents[OF C] ps .
  qed
  moreover have "\<not> attacks_set (af_of A) E C" if "?ps = []" for E
    using that ps by (simp add: attacks_set_parents[OF C])
  ultimately show ?thesis
    by (simp only: psc_clause_eq[OF raset_isD(1)[OF psc]] Let_def prod.case) simp
qed

lemma psc_remove_rok:
  assumes wf: "wf_aaf A" and iv: "vars_ok (number_of_arguments A) iv" and m: "model_is s v"
    and psc: "raset_is (number_of_arguments A) C psc"
  shows "rok (psc_remove iv A s psc) (raset_is (number_of_arguments A) (C - attacked (af_of A) (true_set v iv)))"
proof -
  let ?n = "number_of_arguments A"
  have "rok (psc_remove iv A s psc)
      (raset_is ?n (C - (\<Union>i\<in>{i \<in> true_set v iv. i < ?n}. set (children A ! i))))"
    unfolding psc_remove_def
  proof (rule rok_for[where I = "\<lambda>k. raset_is ?n (C - (\<Union>i\<in>{i \<in> true_set v iv. i < k}. set (children A ! i)))"])
    fix i r assume i: "i < ?n" and r: "raset_is ?n (C - (\<Union>i\<in>{j \<in> true_set v iv. j < i}. set (children A ! i))) r"
    have set: "{j \<in> true_set v iv. j < Suc i} =
        (if i \<in> true_set v iv then insert i else id) {j \<in> true_set v iv. j < i}"
      by (auto simp: less_Suc_eq)
    have "\<forall>c\<in>set (children A ! i). c < max_number_of_elements r"
      using child_bound[OF wf i] raset_isD(2)[OF r] by simp
    from rs.fold_remove_contained[OF raset_isD(1)[OF r] this]
    have rem: "raset_is ?n (C - (\<Union>i\<in>{j \<in> true_set v iv. j < i}. set (children A ! i)) - set (children A ! i))
        (fold (\<lambda>c psc. if raset__contains psc c then snd (raset__remove psc c) else psc) (children A ! i) r)"
      using r by (simp add: raset_is_def)
    show "rok (rbind (sat__get s (iv ! i)) (\<lambda>x. Inr (if x > 0 then
          fold (\<lambda>c psc. if raset__contains psc c then snd (raset__remove psc c) else psc) (children A ! i) r
        else r)))
      (raset_is ?n (C - (\<Union>i\<in>{j \<in> true_set v iv. j < Suc i}. set (children A ! i))))"
    proof (cases "i \<in> true_set v iv")
      case True
      have "C - (\<Union>i\<in>{j \<in> true_set v iv. j < i}. set (children A ! i)) - set (children A ! i) =
          C - (\<Union>i\<in>{j \<in> true_set v iv. j < Suc i}. set (children A ! i))"
        unfolding set using True by auto
      with True rem i iv show ?thesis by (simp add: sat__get_model[OF m] vars_pos true_set_iff)
    next
      case False
      with r i iv show ?thesis unfolding set by (simp add: sat__get_model[OF m] vars_pos true_set_iff)
    qed
  qed (use psc in simp)
  moreover have "(\<Union>i\<in>{i \<in> true_set v iv. i < ?n}. set (children A ! i)) = attacked (af_of A) (true_set v iv)"
    using children_attacks[OF wf] true_set_bound[OF iv] by (auto simp: attacked_def)
  ultimately show ?thesis by simp
qed

lemma psc_init_is:
  assumes g: "grounded_labeling A g"
  shows "raset_is (number_of_arguments A)
    ({..<number_of_arguments A} - attacked (af_of A) (grounded_ext (af_of A))) (psc_init A g)"
proof -
  let ?n = "number_of_arguments A"
  have "raset_inv (psc_init A g) \<and> max_number_of_elements (psc_init A g) = ?n \<and>
      raset_set (psc_init A g) = {i \<in> set [0..<?n]. \<not> bit_at (lab_out g) i}"
    using rs.fold_add_if[of "raset__init_empty ?n" "[0..<?n]" "\<lambda>i. \<not> bit_at (lab_out g) i"]
    by (simp add: psc_init_def rs.ok_empty)
  moreover have "{i \<in> set [0..<?n]. \<not> bit_at (lab_out g) i} =
      {..<?n} - attacked (af_of A) (grounded_ext (af_of A))"
    using grounded_labelingD(2)[OF g] by auto
  ultimately show ?thesis by (simp add: raset_is_def)
qed

lemma no_attack_core:
  assumes wf: "wf_framework F" and no: "\<And>E. adm_sem F E \<Longrightarrow> \<not> attacks_set F E C" and C: "C \<subseteq> args F"
  shows "C \<subseteq> unattacked_core F"
proof
  fix c assume c: "c \<in> C"
  have "c \<notin> attacked F E" if "admissible F E" for E
  proof -
    have "adm_sem F (E \<union> grounded_ext F)"
      using admissible_with_grounded[OF wf that] by (simp add: adm_sem_def)
    from no[OF this] c show ?thesis by (auto simp: attacks_set_def attacked_def)
  qed
  with c C show "c \<in> unattacked_core F" by (auto simp: unattacked_core_def)
qed

definition psc_inv :: "AAF \<Rightarrow> int list \<Rightarrow> ipasir \<times> RaSet \<times> bool \<Rightarrow> bool" where
  "psc_inv A iv = (\<lambda>(s, psc, b). assumed s = [] \<and> (\<exists>C R. raset_is (number_of_arguments A) C psc \<and>
     unattacked_core (af_of A) \<subseteq> C \<and>
     (b \<longrightarrow> C = {..<number_of_arguments A} - attacked (af_of A) (grounded_ext (af_of A))) \<and>
     models s iv {E. adm_sem (af_of A) E \<and> R E} \<and>
     (\<forall>E. adm_sem (af_of A) E \<longrightarrow> attacks_set (af_of A) E C \<longrightarrow> R E)))"

definition psc_result :: "AAF \<Rightarrow> RaSet \<times> bool \<Rightarrow> bool" where
  "psc_result A = (\<lambda>(psc, b). raset_is (number_of_arguments A) (unattacked_core (af_of A)) psc \<and>
     (b \<longrightarrow> unattacked_core (af_of A) =
       {..<number_of_arguments A} - attacked (af_of A) (grounded_ext (af_of A))))"

lemma psc_step:
  assumes wf: "wf_aaf A" and ips: "oracle_ok ips" and iv: "vars_ok (number_of_arguments A) iv"
    and inv: "psc_inv A iv (s, psc, b)"
  shows "rok (psc_loop ips iv A (s, psc, b)) (\<lambda>t. case t of
      Continue (s', psc', b') \<Rightarrow> psc_inv A iv (s', psc', b') \<and> card (raset_set psc') < card (raset_set psc)
    | Break r \<Rightarrow> psc_result A r)"
proof -
  let ?n = "number_of_arguments A" and ?F = "af_of A"
  note wfF = wf_af_of[OF wf]
  obtain C R where psc: "raset_is ?n C psc" and core: "unattacked_core ?F \<subseteq> C" and as: "assumed s = []"
    and b: "b \<Longrightarrow> C = {..<?n} - attacked ?F (grounded_ext ?F)"
    and s: "models s iv {E. adm_sem ?F E \<and> R E}"
    and R: "\<And>E. adm_sem ?F E \<Longrightarrow> attacks_set ?F E C \<Longrightarrow> R E"
    using inv unfolding psc_inv_def by auto
  have C: "C \<subseteq> args ?F" using raset_is_subset[OF psc] by simp
  obtain s1 e where cl: "psc_clause iv A psc s = (s1, e)" by (cases "psc_clause iv A psc s")
  have ad: "adds s (sat__add s1 0) (\<lambda>v. attacks_set ?F (true_set v iv) C)"
    and e: "e \<Longrightarrow> \<not> attacks_set ?F E C" for E
    using psc_clause_adds[OF wf iv models_ready[OF s] psc] by (simp_all add: cl)
  have result: "psc_result A (psc, b)" if no: "\<And>E. adm_sem ?F E \<Longrightarrow> \<not> attacks_set ?F E C"
  proof -
    have "C = unattacked_core ?F" using no_attack_core[OF wfF no C] core by blast
    with psc b show ?thesis by (auto simp: psc_result_def)
  qed
  show ?thesis
  proof (cases e)
    case True
    with result e show ?thesis by (simp add: psc_loop_def cl)
  next
    case False
    let ?X = "{E \<in> {E. adm_sem ?F E \<and> R E}. attacks_set ?F E C}"
    have m: "models (sat__add s1 0) iv ?X" by (rule models_adds[OF s ad]) simp
    have as1: "assumed (sat__add s1 0) = []" using addsD(2)[OF ad] as by simp
    have "rok (rbind (sat__solve ips (sat__add s1 0)) (\<lambda>(sat, s'). if sat = 20 then Inr (Break (psc, b))
        else rbind (psc_remove iv A s' psc) (\<lambda>psc. Inr (Continue (s', psc, False))))) (\<lambda>t. case t of
        Continue (s', psc', b') \<Rightarrow> psc_inv A iv (s', psc', b') \<and> card (raset_set psc') < card (raset_set psc)
      | Break r \<Rightarrow> psc_result A r)"
    proof (rule rok_rbind, rule solve_models[OF ips m, where Q = "\<lambda>_. True"], goal_cases)
      case (2 s' v)
      let ?I = "true_set v iv" and ?C = "C - attacked ?F (true_set v iv)"
      have I: "adm_sem ?F ?I" "attacks_set ?F ?I C" using 2(1) by simp_all
      obtain r where rem: "psc_remove iv A s' psc = Inr r" and r: "raset_is ?n ?C r"
        using psc_remove_rok[OF wf iv 2(3) psc] by (auto elim: rokE)
      have "unattacked_core ?F \<subseteq> ?C"
        using core I(1) by (auto simp: unattacked_core_def adm_sem_def)
      moreover have "attacks_set ?F E C" if "attacks_set ?F E ?C" for E
        using that by (auto simp: attacks_set_def)
      moreover have "?X = {E. adm_sem ?F E \<and> R E \<and> attacks_set ?F E C}" by blast
      ultimately have "psc_inv A iv (s', r, False)"
        unfolding psc_inv_def using r 2(4,5) R by (auto intro!: exI[of _ ?C] exI[of _ "\<lambda>E. R E \<and> attacks_set ?F E C"])
      moreover have "card ?C < card C"
        using I(2) raset_is_subset[OF psc] finite_subset[OF _ finite_lessThan]
        by (intro psubset_card_mono) (auto simp: attacks_set_def)
      ultimately show ?case
        using raset_isD(3)[OF r] raset_isD(3)[OF psc] by (simp add: rem)
    next
      case (3 s')
      have "\<not> attacks_set ?F E C" if "adm_sem ?F E" for E using 3(1)[of E] R[OF that] that by blast
      with result show ?case by simp
    qed (simp only: assuming_none[OF as1])
    then show ?thesis using False by (simp add: psc_loop_def cl Let_def)
  qed
qed

lemma psc_loop_rok:
  assumes wf: "wf_aaf A" and g: "grounded_labeling A g" and ips: "oracle_ok ips"
    and iv: "vars_ok (number_of_arguments A) iv"
    and s: "models s iv {E. adm_sem (af_of A) E}" "assumed s = []" and fuel: "number_of_arguments A < fuel"
  shows "rok (rloop fuel (psc_loop ips iv A) (s, psc_init A g, True)) (psc_result A)"
proof (rule rok_rloop[where I = "psc_inv A iv" and \<mu> = "\<lambda>(s, psc, b). card (raset_set psc)"])
  let ?n = "number_of_arguments A" and ?F = "af_of A"
  have sub: "unattacked_core ?F \<subseteq> {..<?n} - attacked ?F (grounded_ext ?F)"
    using grounded_admissible by (auto simp: unattacked_core_def)
  show "psc_inv A iv (s, psc_init A g, True)"
    unfolding psc_inv_def using s sub psc_init_is[OF g]
    by (auto intro!: exI[of _ "{..<?n} - attacked ?F (grounded_ext ?F)"] exI[of _ "\<lambda>_. True"])
  have "card ({..<?n} - attacked ?F (grounded_ext ?F)) \<le> ?n"
    using card_mono[of "{..<?n}" "{..<?n} - attacked ?F (grounded_ext ?F)"] by simp
  then show "(case (s, psc_init A g, True) of (s, psc, b) \<Rightarrow> card (raset_set psc)) < fuel"
    using fuel raset_isD(3)[OF psc_init_is[OF g]] by simp
next
  fix st assume inv: "psc_inv A iv st"
  obtain s psc b where st: "st = (s, psc, b)" by (cases st)
  show "rok (psc_loop ips iv A st) (\<lambda>t. case t of
      Continue s' \<Rightarrow> psc_inv A iv s' \<and> (case s' of (s, psc, b) \<Rightarrow> card (raset_set psc)) <
        (case st of (s, psc, b) \<Rightarrow> card (raset_set psc))
    | Break r \<Rightarrow> psc_result A r)"
    unfolding st
    by (rule rok_weaken[OF psc_step[OF wf ips iv inv[unfolded st]]]) (auto split: step.splits prod.splits)
qed

section \<open>Pruning\<close>

text \<open>Between the rounds: a part of the core, not attacked from the core, above every ideal set.\<close>

definition candidate :: "framework \<Rightarrow> nat set \<Rightarrow> bool" where
  "candidate F E \<longleftrightarrow> E \<subseteq> unattacked_core F \<and>
     (\<forall>a\<in>E. \<forall>p\<in>unattacked_core F. (p, a) \<notin> attacks F) \<and> (\<forall>I. ideal_set F I \<longrightarrow> I \<subseteq> E)"

lemma candidate_ideal:
  assumes "wf_framework F" "candidate F E" "\<And>a. a \<in> E \<Longrightarrow> defends F E a"
  shows "ideal_ext F E"
  using assms(2,3) by (intro ideal_ext_intro[OF assms(1)]) (auto simp: candidate_def)

lemma candidate_remove:
  assumes "candidate F E" "\<not> defends F E a"
  shows "candidate F (E - {a})"
proof -
  have "a \<notin> I" if "ideal_set F I" for I
  proof
    assume "a \<in> I"
    with that have "defends F I a" by (simp add: ideal_set_def admissible_def)
    moreover have "I \<subseteq> E" using that assms(1) by (simp add: candidate_def)
    ultimately have "defends F E a" unfolding defends_def by blast
    with assms(2) show False ..
  qed
  with assms(1) show ?thesis unfolding candidate_def by blast
qed

lemma keep_arg_iff:
  assumes wf: "wf_aaf A" and r: "raset_is (number_of_arguments A) E r" and a: "a < number_of_arguments A"
  shows "keep_arg A r a \<longleftrightarrow> defends (af_of A) E a"
proof -
  have "keep_arg A r a \<longleftrightarrow> (\<forall>b\<in>set (parents A ! a). \<exists>d\<in>set (parents A ! b). d \<in> E)"
    unfolding keep_arg_def list_all_iff list_ex_iff
    using raset_is_contains[OF r] parent_bound[OF wf] parent_bound[OF wf a] by blast
  also have "\<dots> \<longleftrightarrow> defends (af_of A) E a"
    unfolding defends_def attacks_af_of using a parent_bound[OF wf a] by blast
  finally show ?thesis .
qed

lemma raset_is_remove: "raset_is n E r \<Longrightarrow> i < n \<Longrightarrow> raset_is n (E - {i}) (snd (raset__remove r i))"
  using rs.ok_remove[of r i] by (simp add: raset_is_def)

lemma raset_is_number: "raset_is n E r \<Longrightarrow> number_of_elements r = card E"
  using raset_card by (auto simp: raset_is_def)

lemma raset_is_nth: "raset_is n E r \<Longrightarrow> i < number_of_elements r \<Longrightarrow> elements_arr r ! i \<in> E"
  using nth_mem[of i "raset_list r"] length_raset_list[of r] nth_raset_list[of i r]
  by (simp add: raset_is_def raset_set_def)

lemma raset_is_surj:
  assumes "raset_is n E r" "a \<in> E"
  shows "\<exists>i<number_of_elements r. elements_arr r ! i = a"
proof -
  obtain i where "i < length (raset_list r)" "raset_list r ! i = a"
    using assms by (auto simp: raset_is_list[symmetric, OF assms(1)] in_set_conv_nth)
  then show ?thesis
    using length_raset_list[OF raset_isD(1)[OF assms(1)]] nth_raset_list[of i r]
    by (intro exI[of _ i]) simp
qed

definition prune_inv :: "AAF \<Rightarrow> nat set \<Rightarrow> RaSet \<times> bool \<times> nat \<Rightarrow> bool" where
  "prune_inv A E0 = (\<lambda>(r, changed, i). \<exists>E. raset_is (number_of_arguments A) E r \<and> candidate (af_of A) E \<and>
     i \<le> number_of_elements r \<and> E \<subseteq> E0 \<and>
     (if changed then E \<noteq> E0 else E = E0 \<and> (\<forall>j<i. defends (af_of A) E (elements_arr r ! j))))"

lemma prune_step:
  assumes wf: "wf_aaf A" and inv: "prune_inv A E0 (r, changed, i)"
  shows "rok (prune_scan A (r, changed, i)) (\<lambda>t. case t of
      Continue (r', changed', i') \<Rightarrow> prune_inv A E0 (r', changed', i') \<and>
        number_of_elements r' - i' < number_of_elements r - i
    | Break (r', changed') \<Rightarrow> \<exists>E. raset_is (number_of_arguments A) E r' \<and> candidate (af_of A) E \<and>
        (if changed' then E \<subset> E0 else E = E0 \<and> (\<forall>a\<in>E. defends (af_of A) E a)))"
proof -
  let ?n = "number_of_arguments A" and ?F = "af_of A"
  obtain E where r: "raset_is ?n E r" and c: "candidate ?F E"
    and i: "i \<le> number_of_elements r" and sub: "E \<subseteq> E0"
    and ch: "if changed then E \<noteq> E0 else E = E0 \<and> (\<forall>j<i. defends ?F E (elements_arr r ! j))"
    using inv unfolding prune_inv_def by auto
  let ?a = "elements_arr r ! i"
  show ?thesis
  proof (cases "i < number_of_elements r")
    case False
    then have "i = number_of_elements r" using i by simp
    then have "\<forall>a\<in>E. defends ?F E a" if "\<not> changed"
      using that ch raset_is_surj[OF r] by auto
    then show ?thesis using False r c sub ch by (auto simp: prune_scan_def)
  next
    case True
    have a: "?a \<in> E" by (rule raset_is_nth[OF r True])
    then have an: "?a < ?n" using raset_is_subset[OF r] by auto
    have keep: "keep_arg A r ?a \<longleftrightarrow> defends ?F E ?a" by (rule keep_arg_iff[OF wf r an])
    show ?thesis
    proof (cases "keep_arg A r ?a")
      case keeps: True
      then have "prune_inv A E0 (r, changed, Suc i)"
        unfolding prune_inv_def prod.case using r c True sub ch keep
        by (cases changed) (auto simp: less_Suc_eq intro!: exI[of _ E])
      with True keeps show ?thesis by (simp add: prune_scan_def Let_def)
    next
      case drops: False
      let ?r = "snd (raset__remove r ?a)"
      have r': "raset_is ?n (E - {?a}) ?r" by (rule raset_is_remove[OF r an])
      have num: "number_of_elements ?r = number_of_elements r - 1"
        using raset_is_number[OF r'] raset_is_number[OF r] a by simp
      have "prune_inv A E0 (?r, True, i)"
        unfolding prune_inv_def using r' candidate_remove[OF c] drops keep sub a True num
        by (auto intro!: exI[of _ "E - {?a}"])
      with True drops num show ?thesis by (simp add: prune_scan_def Let_def)
    qed
  qed
qed

lemma prune_scan_rok:
  assumes wf: "wf_aaf A" and r: "raset_is (number_of_arguments A) E0 r" and c: "candidate (af_of A) E0"
    and fuel: "number_of_arguments A < fuel"
  shows "rok (rloop fuel (prune_scan A) (r, False, 0)) (\<lambda>(r, changed). \<exists>E.
    raset_is (number_of_arguments A) E r \<and> candidate (af_of A) E \<and>
    (if changed then E \<subset> E0 else E = E0 \<and> (\<forall>a\<in>E. defends (af_of A) E a)))"
proof (rule rok_rloop[where I = "prune_inv A E0" and \<mu> = "\<lambda>(r, changed, i). number_of_elements r - i"])
  show "prune_inv A E0 (r, False, 0)" using r c by (simp add: prune_inv_def)
  have "card E0 \<le> number_of_arguments A" using card_mono[OF _ raset_is_subset[OF r]] by simp
  then show "(case (r, False, 0) of (r, changed, i) \<Rightarrow> number_of_elements r - i) < fuel"
    using fuel raset_is_number[OF r] by simp
next
  fix st assume inv: "prune_inv A E0 st"
  obtain r changed i where st: "st = (r, changed, i)" by (cases st)
  show "rok (prune_scan A st) (\<lambda>t. case t of
      Continue s' \<Rightarrow> prune_inv A E0 s' \<and> (case s' of (r, changed, i) \<Rightarrow> number_of_elements r - i) <
        (case st of (r, changed, i) \<Rightarrow> number_of_elements r - i)
    | Break res \<Rightarrow> (case res of (r, changed) \<Rightarrow> \<exists>E. raset_is (number_of_arguments A) E r \<and> candidate (af_of A) E \<and>
        (if changed then E \<subset> E0 else E = E0 \<and> (\<forall>a\<in>E. defends (af_of A) E a))))"
    unfolding st
    by (rule rok_weaken[OF prune_step[OF wf inv[unfolded st]]])
      (auto split: step.splits prod.splits split del: if_split)
qed

lemma prune_rok:
  assumes wf: "wf_aaf A" and r: "raset_is (number_of_arguments A) E0 r" and c: "candidate (af_of A) E0"
    and fuel: "number_of_arguments A < fuel"
  shows "rok (rloop fuel (prune_round fuel A) r) (\<lambda>r. \<exists>E.
    raset_is (number_of_arguments A) E r \<and> ideal_ext (af_of A) E)"
proof (rule rok_rloop[where \<mu> = "\<lambda>r. card (raset_set r)" and
    I = "\<lambda>r. \<exists>E. raset_is (number_of_arguments A) E r \<and> candidate (af_of A) E"])
  show "\<exists>E. raset_is (number_of_arguments A) E r \<and> candidate (af_of A) E" using r c by blast
  show "card (raset_set r) < fuel"
    using fuel raset_isD(3)[OF r] card_mono[OF _ raset_is_subset[OF r]] by simp
next
  let ?n = "number_of_arguments A" and ?F = "af_of A"
  fix r assume "\<exists>E. raset_is ?n E r \<and> candidate ?F E"
  then obtain E0 where r: "raset_is ?n E0 r" and c: "candidate ?F E0" by blast
  show "rok (prune_round fuel A r) (\<lambda>t. case t of
      Continue r' \<Rightarrow> (\<exists>E. raset_is ?n E r' \<and> candidate ?F E) \<and> card (raset_set r') < card (raset_set r)
    | Break r' \<Rightarrow> \<exists>E. raset_is ?n E r' \<and> ideal_ext ?F E)"
    unfolding prune_round_def
  proof (rule rok_bind[OF prune_scan_rok[OF wf r c fuel]], clarify, goal_cases)
    case (1 r' changed E)
    show ?case
    proof (cases changed)
      case True
      then have "E \<subset> E0" using 1 by simp
      then have "card E < card E0"
        using raset_is_subset[OF r] finite_subset[OF _ finite_lessThan] by (intro psubset_card_mono) auto
      with True 1 show ?thesis using raset_isD(3)[OF r] raset_isD(3)[OF 1(1)] by auto
    next
      case False
      with 1 candidate_ideal[OF wf_af_of[OF wf]] show ?thesis by auto
    qed
  qed
qed

section \<open>Correctness of SE-ID\<close>

lemma psc_unattacked_set:
  assumes wf: "wf_aaf A" and psc: "raset_is (number_of_arguments A) (unattacked_core (af_of A)) psc"
  shows "raset_is (number_of_arguments A)
    {c \<in> unattacked_core (af_of A). \<forall>p\<in>unattacked_core (af_of A). (p, c) \<notin> attacks (af_of A)} (psc_unattacked A psc)"
proof -
  let ?n = "number_of_arguments A" and ?F = "af_of A" and ?C = "unattacked_core (af_of A)"
  let ?P = "\<lambda>c. \<not> list_ex (\<lambda>p. raset__contains psc p) (parents A ! c)"
  let ?E = "{c \<in> ?C. \<forall>p\<in>?C. (p, c) \<notin> attacks ?F}"
  have ll: "\<forall>i\<in>set (raset_list psc). i < ?n" using raset_is_list[OF psc] raset_is_subset[OF psc] by auto
  have "psc_unattacked A psc =
      fold (\<lambda>c ideal. if ?P c then snd (raset__add ideal c) else ideal) (raset_list psc) (raset__init_empty ?n)"
    using fold_elements[OF raset_isD(1)[OF psc],
        of "\<lambda>c ideal. if ?P c then snd (raset__add ideal c) else ideal"]
    by (simp add: psc_unattacked_def Let_def)
  then have "raset_is ?n {c \<in> set (raset_list psc). ?P c} (psc_unattacked A psc)"
    using rs.fold_add_if[of "raset__init_empty ?n" "raset_list psc" ?P] ll
    by (simp add: raset_is_def rs.ok_empty)
  moreover have "?P c \<longleftrightarrow> (\<forall>p\<in>?C. (p, c) \<notin> attacks ?F)" if c: "c \<in> ?C" for c
  proof -
    have cn: "c < ?n" using c raset_is_subset[OF psc] by auto
    have "?P c \<longleftrightarrow> (\<forall>p\<in>set (parents A ! c). p \<notin> ?C)"
      unfolding list_ex_iff using raset_is_contains[OF psc] parent_bound[OF wf cn] by blast
    then show ?thesis using cn by (auto simp: attacks_af_of)
  qed
  ultimately show "raset_is ?n ?E (psc_unattacked A psc)"
    using raset_is_list[OF psc] by (simp cong: conj_cong)
qed

lemma psc_unattacked_is:
  assumes wf: "wf_aaf A" and psc: "raset_is (number_of_arguments A) (unattacked_core (af_of A)) psc"
  shows "\<exists>E. raset_is (number_of_arguments A) E (psc_unattacked A psc) \<and> candidate (af_of A) E"
proof -
  let ?F = "af_of A" and ?C = "unattacked_core (af_of A)"
  let ?E = "{c \<in> ?C. \<forall>p\<in>?C. (p, c) \<notin> attacks ?F}"
  have "I \<subseteq> ?E" if I: "ideal_set ?F I" for I
    using I ideal_set_iff[OF wf_af_of[OF wf]] ideal_set_in_candidates[OF wf_af_of[OF wf] I] by blast
  then have "candidate ?F ?E" unfolding candidate_def by blast
  with psc_unattacked_set[OF wf psc] show ?thesis by blast
qed

lemma grounded_raset_is:
  assumes g: "grounded_labeling A g"
  shows "raset_is (number_of_arguments A) (grounded_ext (af_of A)) (grounded_raset A g)"
proof -
  let ?n = "number_of_arguments A" and ?G = "grounded_ext (af_of A)"
  have w: "wf_bitset (lab_in g)" using grounded_labelingD(3)[OF g] by (simp add: wf_labeling_def)
  have mem: "set (bitset_members (lab_in g)) = ?G" using grounded_bits(1)[OF g] w by simp
  have b: "i < ?n" if "i \<in> ?G" for i using grounded_args[OF that] by simp
  have out: "\<not> bit_at (lab_out g) i" if "i \<in> ?G" for i
    using grounded_labelingD(2)[OF g b[OF that]] grounded_conflict_free[OF that] by (auto simp: attacked_def)
  have "grounded_raset A g = fold (\<lambda>i r. snd (raset__add r i)) (bitset_members (lab_in g)) (raset__init_empty ?n)"
    unfolding grounded_raset_def by (rule fold_cong) (use mem out in auto)
  then show ?thesis
    using rs.fold_add[of "raset__init_empty ?n" "bitset_members (lab_in g)"] mem b
    by (simp add: raset_is_def rs.ok_empty)
qed

text \<open>When nothing was discarded the ideal extension is the grounded extension.\<close>

lemma core_all_admissible:
  assumes wf: "wf_framework F" and core: "unattacked_core F = args F - attacked F (grounded_ext F)"
    and adm: "admissible F I"
  shows "I \<subseteq> grounded_ext F"
proof
  fix a assume a: "a \<in> I"
  have "\<exists>c. c \<in> grounded_ext F \<and> (c, b) \<in> attacks F" if b: "(b, a) \<in> attacks F" for b
  proof -
    have "b \<in> attacked F I" using admissible_defence[OF adm a b] by (auto simp: attacked_def)
    then have "b \<notin> unattacked_core F" using adm by (auto simp: unattacked_core_def)
    moreover have "b \<in> args F" using wf_attacks[OF wf b] by simp
    ultimately show ?thesis unfolding core by (auto simp: attacked_def)
  qed
  then show "a \<in> grounded_ext F" using a admissible_subset[OF adm] by (intro groundedI) auto
qed

lemma core_all_grounded:
  assumes wf: "wf_framework F" and core: "unattacked_core F = args F - attacked F (grounded_ext F)"
  shows "ideal_ext F (grounded_ext F)"
  using core_all_admissible[OF assms] by (auto simp: ideal_ext_def ideal_set_def grounded_ideal[unfolded ideal_set_def])

lemma compute_ideal_rok:
  assumes wf: "wf_aaf A" and g: "grounded_labeling A g" and ips: "oracle_ok ips"
    and fuel: "number_of_arguments A < fuel"
  shows "rok (compute_ideal fuel ips task A g) (\<lambda>r. \<exists>E.
    raset_is (number_of_arguments A) E r \<and> ideal_ext (af_of A) E)"
proof -
  let ?n = "number_of_arguments A" and ?F = "af_of A"
  note wfF = wf_af_of[OF wf]
  obtain iv ov idx where al: "alloc_in_out ?n 1 = (iv, ov, idx)" by (cases "alloc_in_out ?n 1") auto
  note iv = in_out_alloc(1)[OF al]
  show ?thesis
    unfolding compute_ideal_def al Let_def prod.case
  proof (rule rok_bind[OF adm_models[OF wf g al]], clarify, rule rok_bind[OF psc_loop_rok[OF wf g ips iv _ _ fuel]],
      assumption, assumption, goal_cases)
    case (1 s _ x)
    obtain psc b where x: "x = (psc, b)" by (cases x)
    have psc: "raset_is ?n (unattacked_core ?F) psc"
      and b: "b \<Longrightarrow> unattacked_core ?F = {..<?n} - attacked ?F (grounded_ext ?F)"
      using 1(3) by (simp_all add: x psc_result_def)
    show ?case
    proof (cases b)
      case True
      then show ?thesis
        using grounded_raset_is[OF g] core_all_grounded[OF wfF] b by (auto simp: x)
    next
      case notb: False
      show ?thesis
      proof (cases "number_of_elements psc = 0")
        case True
        have "finite (unattacked_core ?F)" using raset_is_subset[OF psc] finite_subset by blast
        then have "unattacked_core ?F = {}" using raset_is_number[OF psc] True by simp
        then have "ideal_ext ?F {}"
          using ideal_set_iff[OF wfF] by (auto simp: ideal_ext_def)
        with psc \<open>unattacked_core ?F = {}\<close> notb True show ?thesis by (auto simp: x)
      next
        case False
        from psc_unattacked_is[OF wf psc] obtain E where
          "raset_is ?n E (psc_unattacked A psc)" "candidate ?F E" by blast
        from prune_rok[OF wf this fuel] notb False show ?thesis by (simp add: x)
      qed
    qed
  qed
qed

lemma solve_seid_rok:
  assumes "wf_aaf A" "grounded_labeling A g" "oracle_ok ips" "number_of_arguments A < fuel"
  shows "rok (solve_seid fuel ips task A g) (\<lambda>out. \<exists>E. ideal_ext (af_of A) E \<and> prints_ext A E out)"
  unfolding solve_seid_def
  by (rule rok_bind[OF compute_ideal_rok[OF assms]]) (auto dest: raset_is_prints)

end
