(* ===== verification/IdealQuery.thy ===== *)
theory IdealQuery
  imports Ideal
begin

text \<open>
  tasks/task_ds-id.cpp: membership in the ideal extension.  The procedure repeats the steps of SE-ID
  and returns NO as soon as the query is discarded.  The dispatcher answers queries that the grounded
  extension decides, and the procedure relies on that: it answers NO when no candidate was discarded
  and never looks for a query that was not a candidate to begin with.  With \<open>PRINT_WITNESS\<close> set to 1
  the dispatcher calls \<open>compute_ideal\<close> instead, so the procedure is not reached in this build.
\<close>

section \<open>The solve function\<close>

text \<open>\<open>None\<close> is the early return with the answer NO.\<close>

definition dsid_child :: "nat \<Rightarrow> nat \<Rightarrow> RaSet option \<Rightarrow> RaSet option" where
  "dsid_child q c psc = (case psc of
     None \<Rightarrow> None
   | Some psc \<Rightarrow>
       if raset__contains psc c then (if c = q then None else Some (snd (raset__remove psc c)))
       else Some psc)"

definition dsid_remove :: "int list \<Rightarrow> AAF \<Rightarrow> nat \<Rightarrow> ipasir \<Rightarrow> RaSet \<Rightarrow> RaSet option result" where
  "dsid_remove in_vars aaf q solver psc =
     rfold (\<lambda>i psc. case psc of
         None \<Rightarrow> Inr None
       | Some _ \<Rightarrow> rbind (sat__get solver (in_vars ! i)) (\<lambda>x.
           Inr (if x > 0 then fold (dsid_child q) (children aaf ! i) psc else psc)))
       [0..<number_of_arguments aaf] (Some psc)"

definition dsid_loop ::
    "sat_oracle \<Rightarrow> int list \<Rightarrow> AAF \<Rightarrow> nat \<Rightarrow> ipasir \<times> RaSet \<times> bool \<Rightarrow>
     (ipasir \<times> RaSet \<times> bool, (RaSet \<times> bool) option) step result" where
  "dsid_loop ips in_vars aaf q = (\<lambda>(solver_admTest, psc, onerunonly).
     let (solver_admTest, emptyclause) = psc_clause in_vars aaf psc solver_admTest
     in if emptyclause then Inr (Break (Some (psc, onerunonly)))
        else
          let solver_admTest = sat__add solver_admTest 0
          in rbind (sat__solve ips solver_admTest) (\<lambda>(sat, solver_admTest).
             if sat = 20 then Inr (Break (Some (psc, onerunonly)))
             else rbind (dsid_remove in_vars aaf q solver_admTest psc) (\<lambda>r. Inr (case r of
                    None \<Rightarrow> Break None
                  | Some psc \<Rightarrow> Continue (solver_admTest, psc, False)))))"

definition dsid_unattacked :: "AAF \<Rightarrow> nat \<Rightarrow> RaSet \<Rightarrow> RaSet option" where
  "dsid_unattacked aaf q psc =
     fold (\<lambda>i ideal. case ideal of
         None \<Rightarrow> None
       | Some ideal \<Rightarrow>
           let isAttacked = list_ex (\<lambda>p. raset__contains psc p) (parents aaf ! (elements_arr psc ! i))
           in if isAttacked then (if elements_arr psc ! i = q then None else Some ideal)
              else Some (snd (raset__add ideal (elements_arr psc ! i))))
       [0..<number_of_elements psc] (Some (raset__init_empty (number_of_arguments aaf)))"

definition dsid_prune_scan ::
    "AAF \<Rightarrow> nat \<Rightarrow> RaSet \<times> bool \<times> nat \<Rightarrow> (RaSet \<times> bool \<times> nat, (RaSet \<times> bool) option) step result" where
  "dsid_prune_scan aaf q = (\<lambda>(ideal, changed, i).
     if i < number_of_elements ideal then
       let a = elements_arr ideal ! i
       in if \<not> keep_arg aaf ideal a
          then (if a = q then Inr (Break None) else Inr (Continue (snd (raset__remove ideal a), True, i)))
          else Inr (Continue (ideal, changed, i + 1))
     else Inr (Break (Some (ideal, changed))))"

definition dsid_prune_round :: "nat \<Rightarrow> AAF \<Rightarrow> nat \<Rightarrow> RaSet \<Rightarrow> (RaSet, bool) step result" where
  "dsid_prune_round fuel aaf q ideal =
     rbind (rloop fuel (dsid_prune_scan aaf q) (ideal, False, 0)) (\<lambda>r. Inr (case r of
         None \<Rightarrow> Break False
       | Some (ideal, changed) \<Rightarrow> if changed then Continue ideal else Break True))"

definition solve_dsid ::
    "nat \<Rightarrow> sat_oracle \<Rightarrow> TaskSpecification \<Rightarrow> AAF \<Rightarrow> Labeling \<Rightarrow> bool \<Rightarrow> (bool \<times> string) result" where
  "solve_dsid fuel ips task aaf grounded do_print =
     (let n = number_of_arguments aaf;
          (in_vars, out_vars, idx) = alloc_in_out n 1;
          solver_admTest = sat__init (nat (idx - 1));
          no = (False, if do_print then NO else [])
      in rbind (add_admTestClauses solver_admTest in_vars out_vars aaf grounded) (\<lambda>(solver_admTest, _).
         rbind (rloop fuel (dsid_loop ips in_vars aaf (query task)) (solver_admTest, psc_init aaf grounded, True))
           (\<lambda>r. case r of
              None \<Rightarrow> Inr no
            | Some (psc, onerunonly) \<Rightarrow>
                if onerunonly then Inr no
                else if number_of_elements psc = 0 then Inr no
                else (case dsid_unattacked aaf (query task) psc of
                    None \<Rightarrow> Inr no
                  | Some ideal \<Rightarrow>
                      rbind (rloop fuel (dsid_prune_round fuel aaf (query task)) ideal) (\<lambda>answer.
                        Inr (if answer then (True, if do_print then YES else []) else no))))))"

section \<open>The core\<close>

lemma dsid_child_None [simp]: "fold (dsid_child q) cs None = None"
  by (induction cs) (simp_all add: dsid_child_def)

lemma dsid_child_Some: "dsid_child q c (Some psc) =
    (if raset__contains psc c then (if c = q then None else Some (snd (raset__remove psc c))) else Some psc)"
  by (simp add: dsid_child_def)

lemma dsid_children:
  assumes "raset_is n C psc" "set cs \<subseteq> {..<n}" "q \<in> C" "q < n"
  shows "fold (dsid_child q) cs (Some psc) = (if q \<in> set cs then None else
    Some (fold (\<lambda>c psc. if raset__contains psc c then snd (raset__remove psc c) else psc) cs psc))"
  using assms
proof (induction cs arbitrary: psc C)
  case (Cons c cs)
  then have c: "c < n" and cs: "set cs \<subseteq> {..<n}" by simp_all
  show ?case
  proof (cases "c = q")
    case True
    with Cons.prems raset_is_contains[OF Cons.prems(1) c] show ?thesis by (simp add: dsid_child_Some)
  next
    case False
    have rem: "raset_is n (C - {c}) (snd (raset__remove psc c))" by (rule raset_is_remove[OF Cons.prems(1) c])
    from Cons.IH[OF Cons.prems(1) cs Cons.prems(3,4)] Cons.IH[OF rem cs _ Cons.prems(4)] False Cons.prems(3)
    show ?thesis by (simp add: dsid_child_Some)
  qed
qed simp

lemma dsid_remove_rok:
  assumes wf: "wf_aaf A" and iv: "vars_ok (number_of_arguments A) iv" and m: "model_is s v"
    and psc: "raset_is (number_of_arguments A) C psc" and q: "q \<in> C"
  shows "rok (dsid_remove iv A q s psc) (\<lambda>r. case r of
      None \<Rightarrow> q \<in> attacked (af_of A) (true_set v iv)
    | Some r \<Rightarrow> q \<notin> attacked (af_of A) (true_set v iv) \<and>
        raset_is (number_of_arguments A) (C - attacked (af_of A) (true_set v iv)) r)"
proof -
  let ?n = "number_of_arguments A" and ?ch = "\<lambda>k. \<Union>i\<in>{i \<in> true_set v iv. i < k}. set (children A ! i)"
  have qn: "q < ?n" using q raset_is_subset[OF psc] by blast
  have "rok (dsid_remove iv A q s psc) (\<lambda>r. case r of None \<Rightarrow> q \<in> ?ch ?n | Some r \<Rightarrow> q \<notin> ?ch ?n \<and> raset_is ?n (C - ?ch ?n) r)"
    unfolding dsid_remove_def
  proof (rule rok_for[where I = "\<lambda>k r. case r of None \<Rightarrow> q \<in> ?ch k | Some r \<Rightarrow> q \<notin> ?ch k \<and> raset_is ?n (C - ?ch k) r"])
    fix i r assume i: "i < ?n" and r: "case r of None \<Rightarrow> q \<in> ?ch i | Some r \<Rightarrow> q \<notin> ?ch i \<and> raset_is ?n (C - ?ch i) r"
    have step: "?ch (Suc i) = (if i \<in> true_set v iv then ?ch i \<union> set (children A ! i) else ?ch i)"
      by (auto simp: less_Suc_eq)
    show "rok (case r of None \<Rightarrow> Inr None | Some _ \<Rightarrow> rbind (sat__get s (iv ! i)) (\<lambda>x.
        Inr (if x > 0 then fold (dsid_child q) (children A ! i) r else r)))
      (\<lambda>r. case r of None \<Rightarrow> q \<in> ?ch (Suc i) | Some r \<Rightarrow> q \<notin> ?ch (Suc i) \<and> raset_is ?n (C - ?ch (Suc i)) r)"
    proof (cases r)
      case None
      with r show ?thesis unfolding step by simp
    next
      case (Some r')
      then have r': "q \<notin> ?ch i" "raset_is ?n (C - ?ch i) r'" using r by simp_all
      show ?thesis
      proof (cases "i \<in> true_set v iv")
        case False
        with r' Some vars_pos[OF iv i] show ?thesis
          unfolding step by (simp add: sat__get_model[OF m] true_set_iff[OF iv i])
      next
        case True
        have cs: "set (children A ! i) \<subseteq> {..<?n}" by (rule wf_aafD(4)[OF wf i])
        have "\<forall>c\<in>set (children A ! i). c < max_number_of_elements r'" using cs raset_isD(2)[OF r'(2)] by auto
        from rs.fold_remove_contained[OF raset_isD(1)[OF r'(2)] this]
        have "raset_is ?n (C - ?ch i - set (children A ! i))
            (fold (\<lambda>c psc. if raset__contains psc c then snd (raset__remove psc c) else psc) (children A ! i) r')"
          using r'(2) by (simp add: raset_is_def)
        moreover have "C - ?ch i - set (children A ! i) = C - (?ch i \<union> set (children A ! i))" by blast
        moreover have "q \<in> C - ?ch i" using q r'(1) by blast
        ultimately show ?thesis
          unfolding step using True Some r'(1) vars_pos[OF iv i] dsid_children[OF r'(2) cs _ qn]
          by (simp add: sat__get_model[OF m] true_set_iff[OF iv i])
      qed
    qed
  qed (use psc in simp)
  moreover have "?ch ?n = attacked (af_of A) (true_set v iv)"
    using children_attacks[OF wf] true_set_bound[OF iv] by (auto simp: attacked_def)
  ultimately show ?thesis by (simp only:)
qed

lemma dsid_step:
  assumes wf: "wf_aaf A" and ips: "oracle_ok ips" and iv: "vars_ok (number_of_arguments A) iv"
    and inv: "psc_inv A iv (s, psc, b)" and q: "q \<in> raset_set psc"
  shows "rok (dsid_loop ips iv A q (s, psc, b)) (\<lambda>t. case t of
      Continue (s', psc', b') \<Rightarrow> psc_inv A iv (s', psc', b') \<and> q \<in> raset_set psc' \<and>
        card (raset_set psc') < card (raset_set psc)
    | Break r \<Rightarrow> (case r of None \<Rightarrow> q \<notin> unattacked_core (af_of A)
        | Some (psc', b') \<Rightarrow> psc_result A (psc', b') \<and> q \<in> raset_set psc'))"
proof -
  let ?n = "number_of_arguments A" and ?F = "af_of A"
  obtain C R where psc: "raset_is ?n C psc" and s: "models s iv {E. adm_sem ?F E \<and> R E}" and as: "assumed s = []"
    using inv unfolding psc_inv_def by auto
  have qC: "q \<in> C" using q raset_isD(3)[OF psc] by simp
  note step = psc_step[OF wf ips iv inv]
  obtain s1 e where cl: "psc_clause iv A psc s = (s1, e)" by (cases "psc_clause iv A psc s")
  have ad: "adds s (sat__add s1 0) (\<lambda>v. attacks_set ?F (true_set v iv) C)"
    using psc_clause_adds[OF wf iv models_ready[OF s] psc] by (simp add: cl)
  show ?thesis
  proof (cases e)
    case True
    with step q show ?thesis by (simp add: psc_loop_def dsid_loop_def cl)
  next
    case False
    let ?X = "{E \<in> {E. adm_sem ?F E \<and> R E}. attacks_set ?F E C}"
    have m: "models (sat__add s1 0) iv ?X" by (rule models_adds[OF s ad]) simp
    have as1: "assumed (sat__add s1 0) = []" using addsD(2)[OF ad] as by simp
    have "rok (sat__solve ips (sat__add s1 0)) (\<lambda>(sat, s').
        sat = 20 \<or> sat \<noteq> 20 \<and> (\<exists>v. model_is s' v \<and> adm_sem ?F (true_set v iv)))"
      by (rule solve_models[OF ips m, where Q = "\<lambda>_. True"]) (auto simp: assuming_none[OF as1])
    then obtain sat s' where sol: "sat__solve ips (sat__add s1 0) = Inr (sat, s')"
      and cases: "sat = 20 \<or> sat \<noteq> 20 \<and> (\<exists>v. model_is s' v \<and> adm_sem ?F (true_set v iv))" by (rule rokE) auto
    from cases show ?thesis
    proof (elim disjE conjE exE)
      assume "sat = 20"
      with step q False show ?thesis by (simp add: psc_loop_def dsid_loop_def cl sol)
    next
      fix v assume ns: "sat \<noteq> 20" and v: "model_is s' v" and I: "adm_sem ?F (true_set v iv)"
      obtain r where r: "psc_remove iv A s' psc = Inr r" "raset_is ?n (C - attacked ?F (true_set v iv)) r"
        using psc_remove_rok[OF wf iv v psc] by (rule rokE)
      from step False ns have st: "psc_inv A iv (s', r, False)" "card (raset_set r) < card (raset_set psc)"
        by (simp_all add: psc_loop_def cl sol r(1))
      have core: "q \<notin> unattacked_core ?F" if "q \<in> attacked ?F (true_set v iv)"
        using that I by (auto simp: unattacked_core_def adm_sem_def)
      obtain r' where r': "dsid_remove iv A q s' psc = Inr r'"
        and ok: "case r' of None \<Rightarrow> q \<in> attacked ?F (true_set v iv) | Some r \<Rightarrow> q \<notin> attacked ?F (true_set v iv) \<and>
          raset_is ?n (C - attacked ?F (true_set v iv)) r"
        using dsid_remove_rok[OF wf iv v psc qC] by (rule rokE)
      have inv': "psc_inv A iv (s', r2, False)" if "raset_is ?n (C - attacked ?F (true_set v iv)) r2" for r2
        using st(1) that r(2) unfolding psc_inv_def by (auto simp: raset_is_def)
      show ?thesis
      proof (cases r')
        case None
        with ok core False ns show ?thesis by (simp add: dsid_loop_def cl sol r')
      next
        case (Some r2)
        with ok inv' qC st(2) raset_isD(3)[OF r(2)] raset_isD(3) False ns show ?thesis
          by (auto simp: dsid_loop_def cl sol r')
      qed
    qed
  qed
qed

section \<open>Pruning\<close>

lemma dsid_unattacked_eq:
  assumes "raset_inv psc"
  shows "dsid_unattacked A q psc =
    (if q \<in> raset_set psc \<and> list_ex (\<lambda>p. raset__contains psc p) (parents A ! q) then None
     else Some (psc_unattacked A psc))"
proof -
  let ?at = "\<lambda>c. list_ex (\<lambda>p. raset__contains psc p) (parents A ! c)"
  let ?f = "\<lambda>c ideal. if \<not> ?at c then snd (raset__add ideal c) else ideal"
  let ?g = "\<lambda>c ideal. case ideal of None \<Rightarrow> None
    | Some ideal \<Rightarrow> if ?at c then (if c = q then None else Some ideal) else Some (snd (raset__add ideal c))"
  have none: "fold ?g cs None = None" for cs by (induction cs) auto
  have "fold ?g cs (Some r) = (if q \<in> set cs \<and> ?at q then None else Some (fold ?f cs r))" for cs r
    by (induction cs arbitrary: r) (auto simp: none)
  then show ?thesis
    using fold_elements[OF assms, of ?g] fold_elements[OF assms, of ?f]
    unfolding dsid_unattacked_def psc_unattacked_def Let_def raset_set_def by simp
qed

definition never_ideal :: "framework \<Rightarrow> nat \<Rightarrow> bool" where
  "never_ideal F q \<longleftrightarrow> (\<forall>I. ideal_set F I \<longrightarrow> q \<notin> I)"

lemma dsid_prune_step:
  assumes wf: "wf_aaf A" and inv: "prune_inv A E0 (r, changed, i)" and q: "q \<in> raset_set r"
  shows "rok (dsid_prune_scan A q (r, changed, i)) (\<lambda>t. case t of
      Continue (r', changed', i') \<Rightarrow> prune_inv A E0 (r', changed', i') \<and> q \<in> raset_set r' \<and>
        number_of_elements r' - i' < number_of_elements r - i
    | Break None \<Rightarrow> never_ideal (af_of A) q
    | Break (Some (r', changed')) \<Rightarrow> \<exists>E. raset_is (number_of_arguments A) E r' \<and> candidate (af_of A) E \<and> q \<in> E \<and>
        (if changed' then E \<subset> E0 else E = E0 \<and> (\<forall>a\<in>E. defends (af_of A) E a)))"
proof -
  let ?n = "number_of_arguments A" and ?F = "af_of A" and ?a = "elements_arr r ! i"
  obtain E where r: "raset_is ?n E r" and c: "candidate ?F E" using inv unfolding prune_inv_def by auto
  note step = prune_step[OF wf inv]
  show ?thesis
  proof (cases "i < number_of_elements r")
    case False
    then show ?thesis using step q by (auto simp: prune_scan_def dsid_prune_scan_def raset_is_def)
  next
    case True
    have a: "?a \<in> E" by (rule raset_is_nth[OF r True])
    then have an: "?a < ?n" using raset_is_subset[OF r] by auto
    have keep: "keep_arg A r ?a \<longleftrightarrow> defends ?F E ?a" by (rule keep_arg_iff[OF wf r an])
    show ?thesis
    proof (cases "keep_arg A r ?a")
      case keeps: True
      with True step q show ?thesis by (simp add: prune_scan_def dsid_prune_scan_def Let_def)
    next
      case drops: False
      have "never_ideal ?F ?a"
        using candidate_remove[OF c] drops keep unfolding never_ideal_def candidate_def by blast
      moreover have "raset_set (snd (raset__remove r ?a)) = E - {?a}"
        using raset_isD(3)[OF raset_is_remove[OF r an]] .
      ultimately show ?thesis
        using True drops step q raset_isD(3)[OF r] by (auto simp: prune_scan_def dsid_prune_scan_def Let_def)
    qed
  qed
qed

lemma dsid_prune_scan_rok:
  assumes wf: "wf_aaf A" and r: "raset_is (number_of_arguments A) E0 r" and c: "candidate (af_of A) E0"
    and q: "q \<in> E0" and fuel: "number_of_arguments A < fuel"
  shows "rok (rloop fuel (dsid_prune_scan A q) (r, False, 0)) (\<lambda>x. case x of
      None \<Rightarrow> never_ideal (af_of A) q
    | Some (r, changed) \<Rightarrow> \<exists>E. raset_is (number_of_arguments A) E r \<and> candidate (af_of A) E \<and> q \<in> E \<and>
        (if changed then E \<subset> E0 else E = E0 \<and> (\<forall>a\<in>E. defends (af_of A) E a)))"
proof (rule rok_rloop[where I = "\<lambda>st. prune_inv A E0 st \<and> q \<in> raset_set (fst st)" and
      \<mu> = "\<lambda>(r, changed, i). number_of_elements r - i"])
  show "prune_inv A E0 (r, False, 0) \<and> q \<in> raset_set (fst (r, False, 0 :: nat))"
    using r c q by (auto simp: prune_inv_def raset_is_def)
  have "card E0 \<le> number_of_arguments A" using card_mono[OF _ raset_is_subset[OF r]] by simp
  then show "(case (r, False, 0) of (r, changed, i) \<Rightarrow> number_of_elements r - i) < fuel"
    using fuel raset_is_number[OF r] by simp
next
  fix st assume inv: "prune_inv A E0 st \<and> q \<in> raset_set (fst st)"
  obtain r changed i where st: "st = (r, changed, i)" by (cases st)
  have I: "prune_inv A E0 (r, changed, i)" "q \<in> raset_set r" using inv st by simp_all
  show "rok (dsid_prune_scan A q st) (\<lambda>t. case t of
      Continue s' \<Rightarrow> (prune_inv A E0 s' \<and> q \<in> raset_set (fst s')) \<and>
        (case s' of (r, changed, i) \<Rightarrow> number_of_elements r - i) <
        (case st of (r, changed, i) \<Rightarrow> number_of_elements r - i)
    | Break x \<Rightarrow> (case x of None \<Rightarrow> never_ideal (af_of A) q
        | Some (r, changed) \<Rightarrow> \<exists>E. raset_is (number_of_arguments A) E r \<and> candidate (af_of A) E \<and> q \<in> E \<and>
            (if changed then E \<subset> E0 else E = E0 \<and> (\<forall>a\<in>E. defends (af_of A) E a))))"
    unfolding st
    by (rule rok_weaken[OF dsid_prune_step[OF wf I]])
      (auto split: step.splits prod.splits option.splits split del: if_split)
qed

lemma dsid_prune_rok:
  assumes wf: "wf_aaf A" and r: "raset_is (number_of_arguments A) E0 r" and c: "candidate (af_of A) E0"
    and q: "q \<in> E0" and fuel: "number_of_arguments A < fuel"
  shows "rok (rloop fuel (dsid_prune_round fuel A q) r) (\<lambda>b.
    if b then \<exists>E. ideal_ext (af_of A) E \<and> q \<in> E else never_ideal (af_of A) q)"
proof (rule rok_rloop[where \<mu> = "\<lambda>r. card (raset_set r)" and
    I = "\<lambda>r. \<exists>E. raset_is (number_of_arguments A) E r \<and> candidate (af_of A) E \<and> q \<in> E"])
  show "\<exists>E. raset_is (number_of_arguments A) E r \<and> candidate (af_of A) E \<and> q \<in> E" using r c q by blast
  show "card (raset_set r) < fuel"
    using fuel raset_isD(3)[OF r] card_mono[OF _ raset_is_subset[OF r]] by simp
next
  let ?n = "number_of_arguments A" and ?F = "af_of A"
  fix r assume "\<exists>E. raset_is ?n E r \<and> candidate ?F E \<and> q \<in> E"
  then obtain E0 where r: "raset_is ?n E0 r" and c: "candidate ?F E0" "q \<in> E0" by blast
  show "rok (dsid_prune_round fuel A q r) (\<lambda>t. case t of
      Continue r' \<Rightarrow> (\<exists>E. raset_is ?n E r' \<and> candidate ?F E \<and> q \<in> E) \<and> card (raset_set r') < card (raset_set r)
    | Break b \<Rightarrow> if b then \<exists>E. ideal_ext ?F E \<and> q \<in> E else never_ideal ?F q)"
    unfolding dsid_prune_round_def
  proof (rule rok_bind[OF dsid_prune_scan_rok[OF wf r c fuel]], goal_cases)
    case (1 x)
    show ?case
    proof (cases x)
      case None
      with 1 show ?thesis by simp
    next
      case (Some y)
      obtain r' changed where y: "y = (r', changed)" by (cases y)
      obtain E where E: "raset_is ?n E r'" "candidate ?F E" "q \<in> E"
        "if changed then E \<subset> E0 else E = E0 \<and> (\<forall>a\<in>E. defends ?F E a)" using 1 Some y by auto
      show ?thesis
      proof (cases changed)
        case True
        then have "card E < card E0"
          using E(4) raset_is_subset[OF r] finite_subset[OF _ finite_lessThan] by (intro psubset_card_mono) auto
        with True E raset_isD(3)[OF r] raset_isD(3)[OF E(1)] Some y show ?thesis by auto
      next
        case False
        with E candidate_ideal[OF wf_af_of[OF wf] E(2)] Some y show ?thesis by auto
      qed
    qed
  qed
qed

section \<open>Correctness of DS-ID\<close>

definition dsid_answer :: "AAF \<Rightarrow> nat \<Rightarrow> bool \<Rightarrow> bool \<times> string \<Rightarrow> bool" where
  "dsid_answer A q do_print = (\<lambda>(b, out). b = (\<exists>E. ideal_ext (af_of A) E \<and> q \<in> E) \<and>
     out = (if do_print then (if b then YES else NO) else []))"

lemma not_core_not_ideal:
  "wf_framework F \<Longrightarrow> q \<notin> unattacked_core F \<Longrightarrow> ideal_ext F E \<Longrightarrow> q \<notin> E"
  using ideal_set_iff[of F E] by (auto simp: ideal_ext_def)

lemma solve_dsid_rok:
  assumes wf: "wf_aaf A" and g: "grounded_labeling A g" and ips: "oracle_ok ips"
    and q: "query task < number_of_arguments A" "query task \<notin> grounded_ext (af_of A)"
      "query task \<notin> attacked (af_of A) (grounded_ext (af_of A))"
    and fuel: "number_of_arguments A < fuel"
  shows "rok (solve_dsid fuel ips task A g do_print) (dsid_answer A (query task) do_print)"
proof -
  let ?n = "number_of_arguments A" and ?F = "af_of A" and ?q = "query task"
  note wfF = wf_af_of[OF wf]
  obtain iv ov idx where al: "alloc_in_out ?n 1 = (iv, ov, idx)" by (cases "alloc_in_out ?n 1") auto
  note iv = in_out_alloc(1)[OF al]
  have no: "dsid_answer A ?q do_print (False, if do_print then NO else [])"
    if "\<And>E. ideal_ext ?F E \<Longrightarrow> ?q \<notin> E" using that by (auto simp: dsid_answer_def)
  have sub: "unattacked_core ?F \<subseteq> {..<?n} - attacked ?F (grounded_ext ?F)"
    using grounded_admissible by (auto simp: unattacked_core_def)
  have loop: "rok (rloop fuel (dsid_loop ips iv A ?q) (s, psc_init A g, True)) (\<lambda>r. case r of
      None \<Rightarrow> ?q \<notin> unattacked_core ?F | Some (psc, b) \<Rightarrow> psc_result A (psc, b) \<and> ?q \<in> raset_set psc)"
    if s: "models s iv {E. adm_sem ?F E}" "assumed s = []" for s
  proof (rule rok_rloop[where I = "\<lambda>st. psc_inv A iv st \<and> ?q \<in> raset_set (fst (snd st))" and
        \<mu> = "\<lambda>(s, psc, b). card (raset_set psc)"])
    have "psc_inv A iv (s, psc_init A g, True)"
      unfolding psc_inv_def using s sub psc_init_is[OF g]
      by (auto intro!: exI[of _ "{..<?n} - attacked ?F (grounded_ext ?F)"] exI[of _ "\<lambda>_. True"])
    then show "psc_inv A iv (s, psc_init A g, True) \<and> ?q \<in> raset_set (fst (snd (s, psc_init A g, True)))"
      using q raset_isD(3)[OF psc_init_is[OF g]] by simp
    have "card ({..<?n} - attacked ?F (grounded_ext ?F)) \<le> ?n"
      using card_mono[of "{..<?n}" "{..<?n} - attacked ?F (grounded_ext ?F)"] by simp
    then show "(case (s, psc_init A g, True) of (s, psc, b) \<Rightarrow> card (raset_set psc)) < fuel"
      using fuel raset_isD(3)[OF psc_init_is[OF g]] by simp
  next
    fix st assume inv: "psc_inv A iv st \<and> ?q \<in> raset_set (fst (snd st))"
    obtain s psc b where st: "st = (s, psc, b)" by (cases st)
    have I: "psc_inv A iv (s, psc, b)" "?q \<in> raset_set psc" using inv st by simp_all
    show "rok (dsid_loop ips iv A ?q st) (\<lambda>t. case t of
        Continue s' \<Rightarrow> (psc_inv A iv s' \<and> ?q \<in> raset_set (fst (snd s'))) \<and>
          (case s' of (s, psc, b) \<Rightarrow> card (raset_set psc)) < (case st of (s, psc, b) \<Rightarrow> card (raset_set psc))
      | Break r \<Rightarrow> (case r of None \<Rightarrow> ?q \<notin> unattacked_core ?F
          | Some (psc, b) \<Rightarrow> psc_result A (psc, b) \<and> ?q \<in> raset_set psc))"
      unfolding st
      by (rule rok_weaken[OF dsid_step[OF wf ips iv I]]) (auto split: step.splits prod.splits option.splits)
  qed
  show ?thesis
    unfolding solve_dsid_def al Let_def prod.case
  proof (rule rok_bind[OF adm_models[OF wf g al]], clarify, rule rok_bind[OF loop], assumption, assumption, goal_cases)
    case (1 s _ x)
    show ?case
    proof (cases x)
      case None
      with 1 no not_core_not_ideal[OF wfF] show ?thesis by simp
    next
      case (Some y)
      obtain psc b where y: "y = (psc, b)" by (cases y)
      have psc: "raset_is ?n (unattacked_core ?F) psc" and qp: "?q \<in> raset_set psc"
        and b: "b \<Longrightarrow> unattacked_core ?F = args ?F - attacked ?F (grounded_ext ?F)"
        using 1(3) by (simp_all add: Some y psc_result_def)
      show ?thesis
      proof (cases b)
        case True
        have "?q \<notin> E" if "ideal_ext ?F E" for E
          using ideal_ext_unique[OF that core_all_grounded[OF wfF b[OF True]]] q(2) by simp
        with True no show ?thesis by (simp add: Some y)
      next
        case notb: False
        have ne: "number_of_elements psc \<noteq> 0"
          using qp raset_card[OF raset_isD(1)[OF psc]] by (metis List.finite_set card_gt_0_iff empty_iff less_numeral_extra(3) raset_set_def)
        let ?E0 = "{c \<in> unattacked_core ?F. \<forall>p\<in>unattacked_core ?F. (p, c) \<notin> attacks ?F}"
        note E0 = psc_unattacked_set[OF wf psc]
        have c0: "candidate ?F ?E0"
          using psc_unattacked_is[OF wf psc] E0 by (auto simp: raset_is_def)
        have core: "raset_set psc = unattacked_core ?F" by (rule raset_isD(3)[OF psc])
        have at: "list_ex (\<lambda>p. raset__contains psc p) (parents A ! ?q) \<longleftrightarrow>
            (\<exists>p\<in>unattacked_core ?F. (p, ?q) \<in> attacks ?F)"
          unfolding list_ex_iff attacks_af_of using raset_is_contains[OF psc] parent_bound[OF wf q(1)] q(1) by blast
        show ?thesis
        proof (cases "list_ex (\<lambda>p. raset__contains psc p) (parents A ! ?q)")
          case True
          have "?q \<notin> E" if "ideal_ext ?F E" for E
            using that True at ideal_set_in_candidates[OF wfF, of E ?q] by (auto simp: ideal_ext_def)
          with no True notb ne qp show ?thesis
            by (simp add: Some y dsid_unattacked_eq[OF raset_isD(1)[OF psc]])
        next
          case False
          have qE: "?q \<in> ?E0" using False at qp core by auto
          have "rok (rbind (rloop fuel (dsid_prune_round fuel A ?q) (psc_unattacked A psc)) (\<lambda>answer.
              Inr (if answer then (True, if do_print then YES else []) else (False, if do_print then NO else []))))
            (dsid_answer A ?q do_print)"
            by (rule rok_bind[OF dsid_prune_rok[OF wf E0 c0 qE fuel]])
              (auto simp: dsid_answer_def never_ideal_def ideal_ext_def split: if_splits)
          with False notb ne show ?thesis
            by (simp add: Some y dsid_unattacked_eq[OF raset_isD(1)[OF psc]])
        qed
      qed
    qed
  qed
qed

end
