(* ===== verification/Range.thy ===== *)
theory Range
  imports Preferred
begin

text \<open>
  tasks/task_se-sst.cpp and tasks/task_se-stg.cpp: a semi-stable and a stage extension.  Both ask for
  a set of the encoding that labels everything the previous one labelled and one argument more; when
  there is none, the range of the last set is maximal.  The range grows in every round, so \<open>n + 1\<close>
  rounds are enough.  The loop is proved once for every encoding that satisfies \<open>set_encoding\<close>.
\<close>

section \<open>The solve functions\<close>

text \<open>The two conditions of the loop over the arguments, with the evaluation order of the source.\<close>

definition some_pos :: "ipasir \<Rightarrow> int list \<Rightarrow> int list \<Rightarrow> nat \<Rightarrow> bool result" where
  "some_pos solver in_vars out_vars i =
     rbind (sat__get solver (in_vars ! i)) (\<lambda>x. if x > 0 then Inr True
       else rbind (sat__get solver (out_vars ! i)) (\<lambda>y. Inr (y > 0)))"

definition both_neg :: "ipasir \<Rightarrow> int list \<Rightarrow> int list \<Rightarrow> nat \<Rightarrow> bool result" where
  "both_neg solver in_vars out_vars i =
     rbind (sat__get solver (in_vars ! i)) (\<lambda>x. if x < 0
       then rbind (sat__get solver (out_vars ! i)) (\<lambda>y. Inr (y < 0)) else Inr False)"

definition put_both :: "nat \<Rightarrow> int list \<Rightarrow> int list \<Rightarrow> nat \<Rightarrow> int list \<Rightarrow> int list result" where
  "put_both cap in_vars out_vars i clause =
     rbind (put_lit cap (in_vars ! i) clause) (put_lit cap (out_vars ! i))"

definition range_arg ::
    "ipasir \<Rightarrow> int list \<Rightarrow> int list \<Rightarrow> nat \<Rightarrow> RaSet \<Rightarrow> nat \<Rightarrow> RaSet \<times> RaSet \<times> int list \<Rightarrow>
     (RaSet \<times> RaSet \<times> int list) result" where
  "range_arg solver in_vars out_vars n notUndec i = (\<lambda>(temp, in_arg, clause).
     rbind (if raset__contains notUndec i then Inr False else some_pos solver in_vars out_vars i) (\<lambda>new.
     rbind (if new then Inr (snd (raset__add temp i), clause)
            else rbind (both_neg solver in_vars out_vars i) (\<lambda>undec.
              if undec then rbind (put_both (2 * n) in_vars out_vars i clause) (\<lambda>clause. Inr (temp, clause))
              else Inr (temp, clause))) (\<lambda>(temp, clause).
     rbind (sat__get solver (in_vars ! i)) (\<lambda>x.
     Inr (temp, if x > 0 then snd (raset__add in_arg i) else in_arg, clause)))))"

text \<open>The loop over \<open>temp\<close>: what is newly labelled has to stay labelled.\<close>

definition keep_labelled ::
    "int list \<Rightarrow> int list \<Rightarrow> RaSet \<Rightarrow> ipasir \<times> RaSet \<Rightarrow> ipasir \<times> RaSet" where
  "keep_labelled in_vars out_vars temp =
     fold (\<lambda>i (solver, notUndec).
         (sat__addClause2 solver (in_vars ! (elements_arr temp ! i)) (out_vars ! (elements_arr temp ! i)),
          snd (raset__add notUndec (elements_arr temp ! i))))
       [0..<number_of_elements temp]"

definition range_loop ::
    "sat_oracle \<Rightarrow> int list \<Rightarrow> int list \<Rightarrow> nat \<Rightarrow> ipasir \<times> RaSet \<times> RaSet \<times> RaSet \<Rightarrow>
     (ipasir \<times> RaSet \<times> RaSet \<times> RaSet, RaSet) step result" where
  "range_loop ips in_vars out_vars n = (\<lambda>(solver, notUndec, in_arg, temp).
     rbind (sat__solve ips solver) (\<lambda>(sat, solver).
     if sat = 20 then Inr (Break in_arg)
     else
       rbind (rfold (range_arg solver in_vars out_vars n notUndec) [0..<n] (temp, raset__reset in_arg, []))
         (\<lambda>(temp, in_arg, clause).
       let solver = sat__addClause solver clause (length clause);
           (solver, notUndec) = keep_labelled in_vars out_vars temp (solver, notUndec)
       in Inr (Continue (solver, notUndec, in_arg, raset__reset temp)))))"

text \<open>The clause \<open>for(i) { sat__add(in_vars[i]); sat__add(out_vars[i]); } sat__add(0)\<close>.\<close>

definition add_some_labelled :: "int list \<Rightarrow> int list \<Rightarrow> nat \<Rightarrow> ipasir \<Rightarrow> ipasir" where
  "add_some_labelled in_vars out_vars n solver =
     sat__add (fold (\<lambda>i solver. sat__add (sat__add solver (in_vars ! i)) (out_vars ! i)) [0..<n] solver) 0"

definition solve_sesst ::
    "nat \<Rightarrow> sat_oracle \<Rightarrow> TaskSpecification \<Rightarrow> AAF \<Rightarrow> Labeling \<Rightarrow> string result" where
  "solve_sesst fuel ips task aaf grounded =
     (let n = number_of_arguments aaf;
          solver = sat__init (2 * n);
          (in_vars, out_vars, idx) = alloc_in_out n 1
      in rbind (add_admTestClauses solver in_vars out_vars aaf grounded) (\<lambda>(solver, all_grounded).
         if all_grounded then print_labeling grounded aaf
         else rbind (rloop fuel (range_loop ips in_vars out_vars n)
                (add_some_labelled in_vars out_vars n solver,
                 raset__init_empty n, raset__init_empty n, raset__init_empty n)) (\<lambda>in_arg.
              Inr (raset__print_i23 in_arg (ids2arguments aaf)))))"

definition solve_sestg ::
    "nat \<Rightarrow> sat_oracle \<Rightarrow> TaskSpecification \<Rightarrow> AAF \<Rightarrow> Labeling \<Rightarrow> string result" where
  "solve_sestg fuel ips task aaf grounded =
     (let n = number_of_arguments aaf;
          solver = sat__init (2 * n);
          (in_vars, out_vars, idx) = alloc_in_out n 1
      in rbind (add_cfTestClauses solver in_vars out_vars aaf grounded) (\<lambda>(solver, all_grounded).
         if all_grounded then print_labeling grounded aaf
         else rbind (rloop fuel (range_loop ips in_vars out_vars n)
                (add_some_labelled in_vars out_vars n solver,
                 raset__init_empty n, raset__init_empty n, raset__init_empty n)) (\<lambda>in_arg.
              Inr (raset__print_i23 in_arg (ids2arguments aaf)))))"

section \<open>Reading the range of a model\<close>

definition both_lits :: "int list \<Rightarrow> int list \<Rightarrow> nat set \<Rightarrow> nat \<Rightarrow> int list" where
  "both_lits iv ov N n = concat (map (\<lambda>i. [iv ! i, ov ! i]) (filter (\<lambda>i. i \<notin> N) [0..<n]))"

lemma length_both_lits: "length (both_lits iv ov N n) \<le> 2 * n"
proof -
  have "length (both_lits iv ov N n) = 2 * length (filter (\<lambda>i. i \<notin> N) [0..<n])"
    by (simp add: both_lits_def length_concat comp_def sum_list_triv)
  then show ?thesis using length_filter_le[of "\<lambda>i. i \<notin> N" "[0..<n]"] by simp
qed

lemma both_lits_Suc:
  "both_lits iv ov N (Suc n) = both_lits iv ov N n @ (if n \<in> N then [] else [iv ! n, ov ! n])"
  by (simp add: both_lits_def)

lemma both_lits_true:
  assumes "vars_ok n iv" "vars_ok n ov"
  shows "\<forall>l\<in>set (both_lits iv ov N n). l \<noteq> 0"
    and "(\<exists>l\<in>set (both_lits iv ov N n). lit_true v l) \<longleftrightarrow> \<not> true_set v iv \<union> true_set v ov \<subseteq> N"
proof -
  show "\<forall>l\<in>set (both_lits iv ov N n). l \<noteq> 0" using assms by (auto simp: both_lits_def)
  have "(\<exists>l\<in>set (both_lits iv ov N n). lit_true v l) \<longleftrightarrow>
      (\<exists>i<n. i \<notin> N \<and> (lit_true v (iv ! i) \<or> lit_true v (ov ! i)))"
    by (auto simp: both_lits_def)
  also have "\<dots> \<longleftrightarrow> (\<exists>i<n. i \<notin> N \<and> (i \<in> true_set v iv \<or> i \<in> true_set v ov))"
    using true_set_iff[OF assms(1)] true_set_iff[OF assms(2)] by blast
  also have "\<dots> \<longleftrightarrow> \<not> true_set v iv \<union> true_set v ov \<subseteq> N"
    using true_set_bound[OF assms(1)] true_set_bound[OF assms(2)] by blast
  finally show "(\<exists>l\<in>set (both_lits iv ov N n). lit_true v l) \<longleftrightarrow> \<not> true_set v iv \<union> true_set v ov \<subseteq> N" .
qed

lemma put_both_lits:
  assumes "i < n"
  shows "put_both (2 * n) iv ov i (both_lits iv ov N i) = Inr (both_lits iv ov N i @ [iv ! i, ov ! i])"
proof -
  have "length (both_lits iv ov N i) + 1 < 2 * n" using length_both_lits[of iv ov N i] assms by linarith
  then show ?thesis by (simp add: put_both_def put_lit_def)
qed

lemma model_signs:
  assumes m: "model_is s v" and iv: "vars_ok n iv" and ov: "vars_ok n ov" and i: "i < n"
  shows "some_pos s iv ov i = Inr (i \<in> true_set v iv \<union> true_set v ov)"
    and "both_neg s iv ov i = Inr (i \<notin> true_set v iv \<union> true_set v ov)"
  using vars_pos[OF iv i] vars_pos[OF ov i] i
  by (simp_all add: some_pos_def both_neg_def sat__get_model[OF m] true_set_iff[OF iv i] true_set_iff[OF ov i])

lemma below_Suc: "{j \<in> S. j < Suc i} = (if i \<in> S then insert i {j \<in> S. j < i} else {j \<in> S. j < i})"
  by (auto simp: less_Suc_eq)

lemma range_collect_rok:
  assumes m: "model_is s v" and iv: "vars_ok n iv" and ov: "vars_ok n ov"
    and N: "raset_is n N notUndec" and t: "raset_is n {} temp" and a: "raset_is n {} in_arg"
  shows "rok (rfold (range_arg s iv ov n notUndec) [0..<n] (temp, in_arg, [])) (\<lambda>(temp, in_arg, clause).
    raset_is n (true_set v iv \<union> true_set v ov - N) temp \<and> raset_is n (true_set v iv) in_arg \<and>
    clause = both_lits iv ov (true_set v iv \<union> true_set v ov) n)"
proof -
  let ?I = "true_set v iv" and ?R = "true_set v iv \<union> true_set v ov"
  have "rok (rfold (range_arg s iv ov n notUndec) [0..<n] (temp, in_arg, [])) (\<lambda>(temp, in_arg, clause).
      raset_is n {i \<in> ?R - N. i < n} temp \<and> raset_is n {i \<in> ?I. i < n} in_arg \<and> clause = both_lits iv ov ?R n)"
  proof (rule rok_for[where I = "\<lambda>k (temp, in_arg, clause).
      raset_is n {i \<in> ?R - N. i < k} temp \<and> raset_is n {i \<in> ?I. i < k} in_arg \<and> clause = both_lits iv ov ?R k"])
    show "case (temp, in_arg, []) of (temp, in_arg, clause) \<Rightarrow>
        raset_is n {i \<in> ?R - N. i < 0} temp \<and> raset_is n {i \<in> ?I. i < 0} in_arg \<and> clause = both_lits iv ov ?R 0"
      using t a by (simp add: both_lits_def)
  next
    fix i st
    assume i: "i < n" and "case st of (temp, in_arg, clause) \<Rightarrow>
      raset_is n {j \<in> ?R - N. j < i} temp \<and> raset_is n {j \<in> ?I. j < i} in_arg \<and> clause = both_lits iv ov ?R i"
    then obtain temp in_arg where st: "st = (temp, in_arg, both_lits iv ov ?R i)"
      and t: "raset_is n {j \<in> ?R - N. j < i} temp" and a: "raset_is n {j \<in> ?I. j < i} in_arg" by (cases st) auto
    show "rok (range_arg s iv ov n notUndec i st) (\<lambda>(temp, in_arg, clause).
        raset_is n {j \<in> ?R - N. j < Suc i} temp \<and> raset_is n {j \<in> ?I. j < Suc i} in_arg \<and>
        clause = both_lits iv ov ?R (Suc i))"
      unfolding range_arg_def st prod.case below_Suc both_lits_Suc
      using raset_is_add[OF t i] raset_is_add[OF a i] t a vars_pos[OF iv i]
      by (simp add: model_signs[OF m iv ov i] raset_is_contains[OF N i] sat__get_model[OF m] true_set_iff[OF iv i]
          put_both_lits[OF i])
  qed
  moreover have "{i \<in> ?R - N. i < n} = ?R - N" "{i \<in> ?I. i < n} = ?I"
    using true_set_bound[OF iv] true_set_bound[OF ov] by auto
  ultimately show ?thesis by simp
qed

lemma fold_keep_labelled:
  assumes iv: "vars_ok n iv" and ov: "vars_ok n ov" and s: "ready s" and N: "raset_is n N nu"
    and xs: "set xs \<subseteq> {..<n}"
  shows "case fold (\<lambda>x (s, nu). (sat__addClause2 s (iv ! x) (ov ! x), snd (raset__add nu x))) xs (s, nu) of
    (s', nu') \<Rightarrow> adds s s' (\<lambda>v. set xs \<subseteq> true_set v iv \<union> true_set v ov) \<and> raset_is n (N \<union> set xs) nu'"
  using s N xs
proof (induction xs arbitrary: s nu N)
  case (Cons x xs)
  then have x: "x < n" and xs: "set xs \<subseteq> {..<n}" by simp_all
  have ad: "adds s (sat__addClause2 s (iv ! x) (ov ! x)) (\<lambda>v. x \<in> true_set v iv \<union> true_set v ov)"
    using adds_clause2[OF Cons.prems(1), of "iv ! x" "ov ! x"] x iv ov by (simp add: true_set_iff)
  from Cons.IH[OF addsD(1)[OF ad] raset_is_add[OF Cons.prems(2) x] xs] show ?case
    by (auto intro: adds_trans[OF ad])
qed (simp add: adds_def)

lemma keep_labelled_effect:
  assumes iv: "vars_ok n iv" and ov: "vars_ok n ov" and s: "ready s" and N: "raset_is n N nu"
    and t: "raset_is n T temp"
  shows "case keep_labelled iv ov temp (s, nu) of (s', nu') \<Rightarrow>
    adds s s' (\<lambda>v. T \<subseteq> true_set v iv \<union> true_set v ov) \<and> raset_is n (N \<union> T) nu'"
proof -
  have "keep_labelled iv ov temp (s, nu) =
      fold (\<lambda>x (s, nu). (sat__addClause2 s (iv ! x) (ov ! x), snd (raset__add nu x))) (raset_list temp) (s, nu)"
    unfolding keep_labelled_def
    by (rule fold_elements[OF raset_isD(1)[OF t], THEN fun_cong,
        of "\<lambda>x (s, nu). (sat__addClause2 s (iv ! x) (ov ! x), snd (raset__add nu x))"])
  with fold_keep_labelled[OF iv ov s N, of "raset_list temp"] raset_is_list[OF t] raset_is_subset[OF t]
  show ?thesis by simp
qed

lemma add_some_labelled_adds:
  assumes iv: "vars_ok n iv" and ov: "vars_ok n ov" and s: "ready s"
  shows "adds s (add_some_labelled iv ov n s) (\<lambda>v. \<not> true_set v iv \<union> true_set v ov \<subseteq> {})"
proof -
  have "fold (\<lambda>i s. sat__add (sat__add s (iv ! i)) (ov ! i)) xs s = fold (\<lambda>l s. sat__add s l)
      (concat (map (\<lambda>i. [iv ! i, ov ! i]) xs)) s" for xs s
    by (induction xs arbitrary: s) auto
  then have "add_some_labelled iv ov n s = sat__add (fold (\<lambda>l s. sat__add s l) (both_lits iv ov {} n) s) 0"
    by (simp add: add_some_labelled_def both_lits_def)
  also have "\<dots> = sat__addClause s (both_lits iv ov {} n) (length (both_lits iv ov {} n))"
    by (simp add: sat__addClause_fold)
  finally show ?thesis
    using adds_clause[OF s both_lits_true(1)[OF iv ov] refl] by (simp only: both_lits_true(2)[OF iv ov])
qed

section \<open>The loop maximises the range\<close>

definition range_req :: "nat set \<Rightarrow> nat set \<Rightarrow> nat set \<Rightarrow> bool" where
  "range_req N I U \<longleftrightarrow> N \<subseteq> I \<union> U \<and> \<not> I \<union> U \<subseteq> N"

definition max_range :: "(nat set \<Rightarrow> bool) \<Rightarrow> framework \<Rightarrow> nat set \<Rightarrow> bool" where
  "max_range sem F E \<longleftrightarrow> sem E \<and>
     (\<forall>E'. sem E' \<and> range_of F E \<subseteq> range_of F E' \<longrightarrow> range_of F E' = range_of F E)"

context set_encoding
begin

definition range_inv :: "AAF \<Rightarrow> Labeling \<Rightarrow> int list \<Rightarrow> int list \<Rightarrow> ipasir \<times> RaSet \<times> RaSet \<times> RaSet \<Rightarrow> bool" where
  "range_inv A g iv ov = (\<lambda>(s, nu, a, t). \<exists>N E. raset_is (number_of_arguments A) N nu \<and>
     raset_is (number_of_arguments A) E a \<and> raset_is (number_of_arguments A) {} t \<and>
     describes cond A g iv ov (range_req N) s \<and> assumed s = [] \<and>
     (N = {} \<and> E = {} \<or> sem (af_of A) E \<and> N \<subseteq> range_of (af_of A) E))"

lemma range_max:
  assumes no: "\<And>E. sem F E \<Longrightarrow> \<not> range_req N E (attacked F E)" and ex: "sem F E0"
    and E: "N = {} \<and> E = {} \<or> sem F E \<and> N \<subseteq> range_of F E"
  shows "max_range (sem F) F E"
proof -
  have no': "range_of F E' \<subseteq> N" if "sem F E'" "N \<subseteq> range_of F E'" for E'
    using no[OF that(1)] that(2) by (simp add: range_req_def range_of_def)
  from E show ?thesis
  proof
    assume e: "N = {} \<and> E = {}"
    have "range_of F E' = {}" if "sem F E'" for E' using no'[OF that] e by simp
    moreover from this[OF ex] have "E0 = {}" by (simp add: range_of_def)
    ultimately show ?thesis using ex e unfolding max_range_def by simp
  next
    assume e: "sem F E \<and> N \<subseteq> range_of F E"
    show ?thesis
      unfolding max_range_def
    proof (intro conjI allI impI)
      show "sem F E" using e by simp
      fix E' assume E': "sem F E' \<and> range_of F E \<subseteq> range_of F E'"
      with e no'[of E'] have "range_of F E' \<subseteq> N" by blast
      with e E' show "range_of F E' = range_of F E" by blast
    qed
  qed
qed

lemma range_step:
  assumes wf: "wf_aaf A" and g: "grounded_labeling A g" and ips: "oracle_ok ips"
    and iv: "vars_ok (number_of_arguments A) iv" and ov: "vars_ok (number_of_arguments A) ov"
    and dist: "distinct (iv @ ov)" and ex: "sem (af_of A) E0" and inv: "range_inv A g iv ov (s, nu, a, t)"
  shows "rok (range_loop ips iv ov (number_of_arguments A) (s, nu, a, t)) (\<lambda>x. case x of
      Continue (s', nu', a', t') \<Rightarrow> range_inv A g iv ov (s', nu', a', t') \<and> raset_set nu \<subset> raset_set nu'
    | Break r \<Rightarrow> \<exists>E. raset_is (number_of_arguments A) E r \<and> max_range (sem (af_of A)) (af_of A) E)"
proof -
  let ?n = "number_of_arguments A" and ?F = "af_of A"
  obtain N E where N: "raset_is ?n N nu" and E: "raset_is ?n E a" and t: "raset_is ?n {} t"
    and s: "describes cond A g iv ov (range_req N) s" "assumed s = []"
    and NE: "N = {} \<and> E = {} \<or> sem ?F E \<and> N \<subseteq> range_of ?F E"
    using inv unfolding range_inv_def by auto
  define Q where "Q = (\<lambda>x. case x of
      Continue (s', nu', a', t') \<Rightarrow> range_inv A g iv ov (s', nu', a', t') \<and> raset_set nu \<subset> raset_set nu'
    | Break r \<Rightarrow> \<exists>E. raset_is ?n E r \<and> max_range (sem ?F) ?F E)"
  have "rok (range_loop ips iv ov ?n (s, nu, a, t)) Q"
    unfolding range_loop_def prod.case
  proof (rule rok_rbind, rule solve[OF wf g ips iv ov dist s(1), where Q = "\<lambda>_ _. True"], goal_cases)
    case (1 v)
    show ?case using s(2) by (simp add: assuming_def)
  next
    case (3 s')
    then have "max_range (sem ?F) ?F E" using NE by (intro range_max[OF _ ex]) auto
    with E show ?case by (auto simp: Q_def)
  next
    case (2 s' v I U)
    let ?R = "true_set v iv \<union> true_set v ov"
    have cont: "Q (Continue (s2, nu2, a2, raset__reset t2))"
      if t2: "raset_is ?n (?R - N) t2" and a2: "raset_is ?n (true_set v iv) a2"
        and k: "keep_labelled iv ov t2 (sat__addClause s' (both_lits iv ov ?R ?n) (length (both_lits iv ov ?R ?n)), nu)
          = (s2, nu2)" for a2 t2 s2 nu2
    proof -
      have ad1: "adds s' (sat__addClause s' (both_lits iv ov ?R ?n) (length (both_lits iv ov ?R ?n)))
          (\<lambda>w. \<not> true_set w iv \<union> true_set w ov \<subseteq> ?R)"
        using adds_clause[OF describesD(1)[OF 2(8)] both_lits_true(1)[OF iv ov] refl]
        by (simp only: both_lits_true(2)[OF iv ov])
      have ad2: "adds (sat__addClause s' (both_lits iv ov ?R ?n) (length (both_lits iv ov ?R ?n))) s2
          (\<lambda>w. ?R - N \<subseteq> true_set w iv \<union> true_set w ov)" and nu2: "raset_is ?n (N \<union> (?R - N)) nu2"
        using keep_labelled_effect[OF iv ov addsD(1)[OF ad1] N t2] unfolding k by auto
      have sub: "N \<subseteq> ?R" "\<not> ?R \<subseteq> N" using 2(1,2,5) by (auto simp: range_req_def)
      have "describes cond A g iv ov (\<lambda>I U. (range_req N I U \<and> \<not> I \<union> U \<subseteq> ?R) \<and> ?R - N \<subseteq> I \<union> U) s2"
        by (rule describes_adds[OF describes_adds[OF 2(8) ad1 refl] ad2 refl])
      then have "describes cond A g iv ov (range_req ?R) s2"
        by (rule describes_cong) (use sub in \<open>auto simp: range_req_def\<close>)
      moreover have "?R \<subseteq> range_of ?F (true_set v iv)" using 2(1,2,4) by (auto simp: range_of_def)
      moreover have "N \<union> (?R - N) = ?R" using sub by blast
      ultimately have "range_inv A g iv ov (s2, nu2, a2, raset__reset t2)"
        unfolding range_inv_def prod.case
        using nu2 a2 raset_is_reset[OF t2] addsD(2)[OF ad1] addsD(2)[OF ad2] 2(1,3,9)
        by (intro exI[of _ ?R] exI[of _ "true_set v iv"]) simp
      with sub nu2 N show ?thesis by (auto simp: Q_def raset_is_def)
    qed
    show ?case
      unfolding prod.case
      by (simp, rule rok_bind[OF range_collect_rok[OF 2(7) iv ov N t raset_is_reset[OF E]]])
        (auto split: prod.splits intro: cont)
  qed
  then show ?thesis by (simp only: Q_def)
qed

lemma range_loop_rok:
  assumes wf: "wf_aaf A" and g: "grounded_labeling A g" and ips: "oracle_ok ips"
    and iv: "vars_ok (number_of_arguments A) iv" and ov: "vars_ok (number_of_arguments A) ov"
    and dist: "distinct (iv @ ov)" and ex: "sem (af_of A) E0"
    and s: "describes cond A g iv ov (\<lambda>_ _. True) s" "assumed s = []" and fuel: "number_of_arguments A < fuel"
  shows "rok (rloop fuel (range_loop ips iv ov (number_of_arguments A))
      (add_some_labelled iv ov (number_of_arguments A) s, raset__init_empty (number_of_arguments A),
       raset__init_empty (number_of_arguments A), raset__init_empty (number_of_arguments A)))
    (\<lambda>r. \<exists>E. raset_is (number_of_arguments A) E r \<and> max_range (sem (af_of A)) (af_of A) E)"
proof (rule rok_rloop[where I = "range_inv A g iv ov" and
      \<mu> = "\<lambda>(s, nu, a, t). number_of_arguments A - card (raset_set nu)"])
  let ?n = "number_of_arguments A"
  note ad = add_some_labelled_adds[OF iv ov describesD(1)[OF s(1)]]
  have "describes cond A g iv ov (range_req {}) (add_some_labelled iv ov ?n s)"
    by (rule describes_cong[OF describes_adds[OF s(1) ad refl]]) (simp add: range_req_def)
  then show "range_inv A g iv ov (add_some_labelled iv ov ?n s, raset__init_empty ?n, raset__init_empty ?n,
      raset__init_empty ?n)"
    unfolding range_inv_def using addsD(2)[OF ad] s(2) raset_is_init by auto
  show "(case (add_some_labelled iv ov ?n s, raset__init_empty ?n, raset__init_empty ?n, raset__init_empty ?n) of
      (s, nu, a, t) \<Rightarrow> ?n - card (raset_set nu)) < fuel" using fuel by simp
next
  let ?n = "number_of_arguments A"
  fix st assume inv: "range_inv A g iv ov st"
  obtain s nu a t where st: "st = (s, nu, a, t)" by (cases st)
  have less: "?n - card (raset_set nu') < ?n - card (raset_set nu)"
    if "range_inv A g iv ov (s', nu', a', t')" "raset_set nu \<subset> raset_set nu'" for s' nu' a' t'
  proof -
    have "raset_set nu' \<subseteq> {..<?n}"
      using that(1) raset_is_subset[of ?n _ nu'] raset_isD(3)[of ?n _ nu'] unfolding range_inv_def by fastforce
    moreover from finite_subset[OF this] have "finite (raset_set nu')" by simp
    ultimately have "card (raset_set nu) < card (raset_set nu')" "card (raset_set nu') \<le> ?n"
      using that(2) psubset_card_mono[of "raset_set nu'"] card_mono[of "{..<?n}" "raset_set nu'"] by simp_all
    then show ?thesis by linarith
  qed
  show "rok (range_loop ips iv ov ?n st) (\<lambda>x. case x of
      Continue s' \<Rightarrow> range_inv A g iv ov s' \<and> (case s' of (s, nu, a, t) \<Rightarrow> ?n - card (raset_set nu)) <
        (case st of (s, nu, a, t) \<Rightarrow> ?n - card (raset_set nu))
    | Break r \<Rightarrow> \<exists>E. raset_is ?n E r \<and> max_range (sem (af_of A)) (af_of A) E)"
    unfolding st
    by (rule rok_weaken[OF range_step[OF wf g ips iv ov dist ex inv[unfolded st]]])
      (auto split: step.splits prod.splits intro: less)
qed

end

section \<open>Correctness of SE-SST and SE-STG\<close>

lemma max_range_semi_stable:
  assumes wf: "wf_framework F"
  shows "max_range (adm_sem F) F E \<Longrightarrow> semi_stable F E"
proof -
  assume m: "max_range (adm_sem F) F E"
  have "range_of F E' = range_of F E" if E': "admissible F E'" "range_of F E \<subseteq> range_of F E'" for E'
  proof -
    have sub: "range_of F E' \<subseteq> range_of F (E' \<union> grounded_ext F)" by (rule range_of_mono) simp
    have "adm_sem F (E' \<union> grounded_ext F)"
      using admissible_with_grounded[OF wf E'(1)] by (simp add: adm_sem_def)
    with m E'(2) sub have "range_of F (E' \<union> grounded_ext F) = range_of F E"
      unfolding max_range_def by blast
    with sub E'(2) show ?thesis by blast
  qed
  with m show ?thesis unfolding semi_stable_iff_admissible[OF wf] by (auto simp: max_range_def adm_sem_def)
qed

lemma max_range_stage: "max_range (conflict_free F) F E \<longleftrightarrow> stage F E"
  by (simp add: max_range_def stage_def)

lemma stable_range: "wf_framework F \<Longrightarrow> stable F E \<Longrightarrow> range_of F E = args F"
  by (auto simp: stable_def range_of_def attacked_def conflict_free_def dest: wf_attacks)

lemma stable_stage: "wf_framework F \<Longrightarrow> stable F E \<Longrightarrow> stage F E"
  unfolding stage_def using range_of_args stable_range[of F E] unfolding stable_def conflict_free_def by blast

lemma stable_semi_stable:
  assumes wf: "wf_framework F" and E: "stable F E"
  shows "semi_stable F E"
  unfolding semi_stable_iff_admissible[OF wf]
proof (intro conjI allI impI)
  show "admissible F E" by (rule preferred_admissible[OF stable_preferred[OF wf E]])
  fix E' assume E': "admissible F E' \<and> range_of F E \<subseteq> range_of F E'"
  then have "range_of F E' \<subseteq> args F" using range_of_args[OF wf] admissible_subset[of F E'] by blast
  with E' show "range_of F E' = range_of F E" using stable_range[OF wf E] by blast
qed

lemma all_decided_stable:
  assumes wf: "wf_aaf A" and g: "grounded_labeling A g" and all: "all_decided g (number_of_arguments A)"
  shows "stable (af_of A) (grounded_ext (af_of A))"
proof -
  let ?F = "af_of A" and ?G = "grounded_ext (af_of A)"
  have "i \<in> ?G \<or> i \<in> attacked ?F ?G" if "i < number_of_arguments A" for i
    using all that grounded_labelingD(1,2)[OF g that] by (auto simp: all_decided_def)
  then show ?thesis
    using grounded_admissible[of ?F] by (auto simp: stable_def admissible_def attacked_def)
qed

lemma adm_describes:
  assumes wf: "wf_aaf A" and al: "alloc_in_out (number_of_arguments A) 1 = (iv, ov, idx)"
  shows "rok (add_admTestClauses (sat__init m) iv ov A g) (\<lambda>(s, b).
    describes adm_cond A g iv ov (\<lambda>_ _. True) s \<and> assumed s = [] \<and> b = all_decided g (number_of_arguments A))"
  by (rule rok_weaken[OF add_admTestClauses_rok[OF wf in_out_alloc(1,2)[OF al] ready_init(1)]])
    (auto simp: describes_init addsD(2))

lemma cf_describes:
  assumes wf: "wf_aaf A" and al: "alloc_in_out (number_of_arguments A) 1 = (iv, ov, idx)"
  shows "rok (add_cfTestClauses (sat__init m) iv ov A g) (\<lambda>(s, b).
    describes cf_cond A g iv ov (\<lambda>_ _. True) s \<and> assumed s = [] \<and> b = all_decided g (number_of_arguments A))"
  by (rule rok_weaken[OF add_cfTestClauses_rok[OF wf in_out_alloc(1,2)[OF al] ready_init(1)]])
    (auto simp: describes_init addsD(2))

lemma adm_sem_grounded: "adm_sem F (grounded_ext F)"
  by (simp add: adm_sem_def grounded_admissible)

lemma solve_sesst_rok:
  assumes wf: "wf_aaf A" and g: "grounded_labeling A g" and ips: "oracle_ok ips"
    and names: "names_fit 99 A (grounded_ext (af_of A))" and fuel: "number_of_arguments A < fuel"
  shows "rok (solve_sesst fuel ips task A g) (\<lambda>out. \<exists>E. semi_stable (af_of A) E \<and> prints_ext A E out)"
proof -
  let ?n = "number_of_arguments A"
  obtain iv ov idx where al: "alloc_in_out ?n 1 = (iv, ov, idx)" by (cases "alloc_in_out ?n 1") auto
  note a = in_out_alloc(1-3)[OF al]
  show ?thesis
    unfolding solve_sesst_def al Let_def prod.case
  proof (rule rok_bind[OF adm_describes[OF wf al]], clarify, goal_cases)
    case (1 s b)
    show ?case
    proof (cases "all_decided g ?n")
      case True
      note stb = stable_semi_stable[OF wf_af_of[OF wf] all_decided_stable[OF wf g True]]
      have "rok (print_labeling g A) (\<lambda>out. \<exists>E. semi_stable (af_of A) E \<and> prints_ext A E out)"
        by (rule rok_weaken[OF prints_grounded[OF g names]]) (use stb in blast)
      with True show ?thesis by simp
    next
      case False
      have "rok (rbind (rloop fuel (range_loop ips iv ov ?n)
          (add_some_labelled iv ov ?n s, raset__init_empty ?n, raset__init_empty ?n, raset__init_empty ?n))
          (\<lambda>r. Inr (raset__print_i23 r (ids2arguments A))))
        (\<lambda>out. \<exists>E. semi_stable (af_of A) E \<and> prints_ext A E out)"
        by (rule rok_bind[OF adm.range_loop_rok[OF wf g ips a adm_sem_grounded 1 fuel]])
          (use max_range_semi_stable[OF wf_af_of[OF wf]] raset_is_prints in \<open>unfold rok_simps, blast\<close>)
      with False show ?thesis by simp
    qed
  qed
qed

lemma solve_sestg_rok:
  assumes wf: "wf_aaf A" and g: "grounded_labeling A g" and ips: "oracle_ok ips"
    and names: "names_fit 99 A (grounded_ext (af_of A))" and fuel: "number_of_arguments A < fuel"
  shows "rok (solve_sestg fuel ips task A g) (\<lambda>out. \<exists>E. stage (af_of A) E \<and> prints_ext A E out)"
proof -
  let ?n = "number_of_arguments A"
  obtain iv ov idx where al: "alloc_in_out ?n 1 = (iv, ov, idx)" by (cases "alloc_in_out ?n 1") auto
  note a = in_out_alloc(1-3)[OF al]
  have empty: "conflict_free (af_of A) {}" by (simp add: conflict_free_def)
  show ?thesis
    unfolding solve_sestg_def al Let_def prod.case
  proof (rule rok_bind[OF cf_describes[OF wf al]], clarify, goal_cases)
    case (1 s b)
    show ?case
    proof (cases "all_decided g ?n")
      case True
      note stb = stable_stage[OF wf_af_of[OF wf] all_decided_stable[OF wf g True]]
      have "rok (print_labeling g A) (\<lambda>out. \<exists>E. stage (af_of A) E \<and> prints_ext A E out)"
        by (rule rok_weaken[OF prints_grounded[OF g names]]) (use stb in blast)
      with True show ?thesis by simp
    next
      case False
      have "rok (rbind (rloop fuel (range_loop ips iv ov ?n)
          (add_some_labelled iv ov ?n s, raset__init_empty ?n, raset__init_empty ?n, raset__init_empty ?n))
          (\<lambda>r. Inr (raset__print_i23 r (ids2arguments A))))
        (\<lambda>out. \<exists>E. stage (af_of A) E \<and> prints_ext A E out)"
        by (rule rok_bind[OF cf.range_loop_rok[OF wf g ips a empty 1 fuel]])
          (auto simp: max_range_stage raset_is_prints)
      with False show ?thesis by simp
    qed
  qed
qed

end
