(* ===== verification/Partial.thy ===== *)
theory Partial
  imports Prelude
begin

text \<open>
  Correctness up to named errors: \<open>rsafe es m Q\<close> says that \<open>m\<close> either returns a result with \<open>Q\<close> or
  fails with one of the errors \<open>es\<close>; with no error left it is total correctness.  It is used for
  the procedures that can violate the contract of the SAT interface.
\<close>

definition rsafe :: "error set \<Rightarrow> 'a result \<Rightarrow> ('a \<Rightarrow> bool) \<Rightarrow> bool" where
  "rsafe es m Q \<longleftrightarrow> (case m of Inl e \<Rightarrow> e \<in> es | Inr x \<Rightarrow> Q x)"

lemma rsafe_simps [simp]:
  "rsafe es (Inr x) Q \<longleftrightarrow> Q x"
  "rsafe es (Inl e) Q \<longleftrightarrow> e \<in> es"
  by (simp_all add: rsafe_def)

lemma rsafe_total: "rsafe {} m Q \<longleftrightarrow> rok m Q"
  by (cases m) simp_all

lemma rok_rsafe: "rok m Q \<Longrightarrow> rsafe es m Q"
  by (cases m) simp_all

lemma rsafe_weaken: "rsafe es m P \<Longrightarrow> (\<And>x. P x \<Longrightarrow> Q x) \<Longrightarrow> rsafe es m Q"
  by (cases m) simp_all

lemma rsafe_bind: "rsafe es m P \<Longrightarrow> (\<And>x. P x \<Longrightarrow> rsafe es (f x) Q) \<Longrightarrow> rsafe es (rbind m f) Q"
  by (cases m) simp_all

lemma rsafe_rok_bind: "rok m P \<Longrightarrow> (\<And>x. P x \<Longrightarrow> rsafe es (f x) Q) \<Longrightarrow> rsafe es (rbind m f) Q"
  by (cases m) simp_all

lemma rsafe_rok_rbind: "rok m (\<lambda>x. rsafe es (f x) Q) \<Longrightarrow> rsafe es (rbind m f) Q"
  by (cases m) simp_all

lemma rsafe_result: "rsafe es m Q \<Longrightarrow> m = Inr x \<Longrightarrow> Q x"
  by simp

lemma rsafe_for:
  assumes "I 0 s" and "\<And>i s. i < n \<Longrightarrow> I i s \<Longrightarrow> rsafe es (f i s) (I (Suc i))"
  shows "rsafe es (rfold f [0..<n] s) (I n)"
  using assms
proof (induction n)
  case (Suc n)
  then have IH: "rsafe es (rfold f [0..<n] s) (I n)" by simp
  have "rsafe es (rbind (rfold f [0..<n] s) (\<lambda>t. f n t)) (I (Suc n))"
    by (rule rsafe_bind[OF IH]) (use Suc.prems(2) in simp)
  moreover have "rfold f [] = Inr" by (rule ext) simp
  then have "rfold f [n] = f n" by (intro ext) simp
  ultimately show ?case by (simp add: rfold_append)
qed simp

lemma rsafe_rloop:
  assumes "I s" and "\<mu> s < fuel"
    and "\<And>s. I s \<Longrightarrow>
      rsafe es (body s) (\<lambda>t. case t of Continue s' \<Rightarrow> I s' \<and> \<mu> s' < (\<mu> s :: nat) | Break r \<Rightarrow> Q r)"
  shows "rsafe es (rloop fuel body s) Q"
  using assms(1,2)
proof (induction fuel arbitrary: s)
  case (Suc fuel)
  show ?case
    unfolding rloop.simps
  proof (rule rsafe_bind[OF assms(3)[OF Suc.prems(1)]], goal_cases)
    case (1 t)
    with Suc.IH Suc.prems(2) show ?case by (cases t) auto
  qed
qed simp

end
