(* ===== verification/RangeQuery.thy ===== *)
theory RangeQuery
  imports Range Partial
begin

text \<open>
  tasks/task_dc-sst.cpp, task_ds-sst.cpp, task_dc-stg.cpp and task_ds-stg.cpp: acceptance with respect
  to semi-stable and stage semantics.  An outer solver proposes a set with (DC) or without (DS) the
  query; an inner solver grows its range as long as the query allows.  When the range can only grow
  by changing the status of the query, the outer solver has to label an argument outside the range.
  The loops are proved for every encoding that satisfies \<open>set_encoding\<close> and for every literal that
  is assumed.  The stage versions read the model of the inner solver after they have added clauses to
  it, which the contract of the SAT interface forbids (\<open>stg_collect_violation\<close>); they are correct
  up to that error.
\<close>

section \<open>The loops\<close>

text \<open>The outer model is copied to the inner solver: what it labels has to stay labelled.\<close>

definition outer_arg ::
    "ipasir \<Rightarrow> int list \<Rightarrow> int list \<Rightarrow> nat \<Rightarrow> nat \<Rightarrow> RaSet \<times> RaSet \<times> ipasir \<times> int list \<Rightarrow>
     (RaSet \<times> RaSet \<times> ipasir \<times> int list) result" where
  "outer_arg solver in_vars out_vars n i = (\<lambda>(notUndec, in_arg, inner_solver, clause).
     rbind (some_pos solver in_vars out_vars i) (\<lambda>labelled.
     if labelled then
       let notUndec = snd (raset__add notUndec i)
       in rbind (sat__get solver (in_vars ! i)) (\<lambda>x.
          Inr (notUndec, if x > 0 then snd (raset__add in_arg i) else in_arg,
               sat__addClause2 inner_solver (in_vars ! i) (out_vars ! i), clause))
     else rbind (put_both (2 * n) in_vars out_vars i clause) (\<lambda>clause.
          Inr (notUndec, in_arg, inner_solver, clause))))"

text \<open>One round of the inner loop; \<open>collect\<close> is the part that reads the next model.\<close>

type_synonym collector = "ipasir \<Rightarrow> RaSet \<Rightarrow> RaSet \<Rightarrow> (ipasir \<times> RaSet \<times> RaSet \<times> int list) result"

definition query_inner ::
    "sat_oracle \<Rightarrow> collector \<Rightarrow> int \<Rightarrow> ipasir \<times> RaSet \<times> RaSet \<Rightarrow>
     (ipasir \<times> RaSet \<times> RaSet, bool \<times> RaSet \<times> RaSet) step result" where
  "query_inner ips collect lit = (\<lambda>(inner_solver, notUndec, in_arg).
     rbind (sat__solve ips (sat__assume inner_solver lit)) (\<lambda>(sat, inner_solver).
     if sat = 20 then
       rbind (sat__solve ips inner_solver) (\<lambda>(sat, inner_solver).
         Inr (Break (sat = 20, notUndec, in_arg)))
     else
       rbind (collect inner_solver notUndec (raset__reset in_arg)) (\<lambda>(inner_solver, notUndec, in_arg, clause).
         Inr (Continue (sat__addClause inner_solver clause (length clause), notUndec, in_arg)))))"

definition add_outside :: "int list \<Rightarrow> int list \<Rightarrow> nat \<Rightarrow> RaSet \<Rightarrow> ipasir \<Rightarrow> ipasir" where
  "add_outside in_vars out_vars n notUndec solver =
     sat__add (fold (\<lambda>i solver. if \<not> raset__contains notUndec i
          then sat__add (sat__add solver (in_vars ! i)) (out_vars ! i) else solver) [0..<n] solver) 0"

definition query_outer ::
    "nat \<Rightarrow> sat_oracle \<Rightarrow> (ipasir \<Rightarrow> (ipasir \<times> bool) result) \<Rightarrow> collector \<Rightarrow> int list \<Rightarrow> int list \<Rightarrow> nat \<Rightarrow> int \<Rightarrow>
     ipasir \<Rightarrow> (ipasir, RaSet option) step result" where
  "query_outer fuel ips add_clauses collect in_vars out_vars n lit solver =
     rbind (sat__solve ips (sat__assume solver lit)) (\<lambda>(sat, solver).
     if sat = 20 then Inr (Break None)
     else
       rbind (add_clauses (sat__init (2 * n))) (\<lambda>(inner_solver, _).
       rbind (rfold (outer_arg solver in_vars out_vars n) [0..<n]
                (raset__init_empty n, raset__init_empty n, inner_solver, []))
         (\<lambda>(notUndec, in_arg, inner_solver, clause).
       rbind (rloop fuel (query_inner ips collect lit)
                (sat__addClause inner_solver clause (length clause), notUndec, in_arg))
         (\<lambda>(found, notUndec, in_arg).
       Inr (if found then Break (Some in_arg)
            else Continue (add_outside in_vars out_vars n notUndec solver))))))"

text \<open>Semi-stable: the model is read into two sets before clauses are added.\<close>

definition sst_read ::
    "ipasir \<Rightarrow> int list \<Rightarrow> int list \<Rightarrow> nat \<Rightarrow> RaSet \<times> RaSet \<Rightarrow> (RaSet \<times> RaSet) result" where
  "sst_read inner_solver in_vars out_vars i = (\<lambda>(vars_to_add, vars_to_add_in).
     rbind (some_pos inner_solver in_vars out_vars i) (\<lambda>labelled.
     rbind (sat__get inner_solver (in_vars ! i)) (\<lambda>x.
     Inr (if labelled then snd (raset__add vars_to_add i) else vars_to_add,
          if x > 0 then snd (raset__add vars_to_add_in i) else vars_to_add_in))))"

definition sst_arg ::
    "int list \<Rightarrow> int list \<Rightarrow> nat \<Rightarrow> nat \<Rightarrow> RaSet \<Rightarrow> RaSet \<Rightarrow> nat \<Rightarrow> ipasir \<times> RaSet \<times> RaSet \<times> int list \<Rightarrow>
     (ipasir \<times> RaSet \<times> RaSet \<times> int list) result" where
  "sst_arg in_vars out_vars n q vars_to_add vars_to_add_in i = (\<lambda>(inner_solver, notUndec, in_arg, clause).
     if raset__contains vars_to_add i then
       let (inner_solver, notUndec) =
             (if \<not> raset__contains notUndec i \<and> q \<noteq> i
              then (sat__addClause2 inner_solver (in_vars ! i) (out_vars ! i), snd (raset__add notUndec i))
              else (inner_solver, notUndec));
           in_arg = (if raset__contains vars_to_add_in i then snd (raset__add in_arg i) else in_arg)
       in Inr (inner_solver, notUndec, in_arg, clause)
     else rbind (put_both (2 * n) in_vars out_vars i clause) (\<lambda>clause.
          Inr (inner_solver, notUndec, in_arg, clause)))"

definition sst_collect :: "int list \<Rightarrow> int list \<Rightarrow> nat \<Rightarrow> nat \<Rightarrow> collector" where
  "sst_collect in_vars out_vars n q inner_solver notUndec in_arg =
     rbind (rfold (sst_read inner_solver in_vars out_vars) [0..<n] (raset__init_empty n, raset__init_empty n))
       (\<lambda>(vars_to_add, vars_to_add_in).
     rfold (sst_arg in_vars out_vars n q vars_to_add vars_to_add_in) [0..<n] (inner_solver, notUndec, in_arg, []))"

text \<open>Stage: the model is read while clauses are added to the same solver.\<close>

definition stg_arg ::
    "int list \<Rightarrow> int list \<Rightarrow> nat \<Rightarrow> nat \<Rightarrow> nat \<Rightarrow> ipasir \<times> RaSet \<times> RaSet \<times> int list \<Rightarrow>
     (ipasir \<times> RaSet \<times> RaSet \<times> int list) result" where
  "stg_arg in_vars out_vars n q i = (\<lambda>(inner_solver, notUndec, in_arg, clause).
     rbind (some_pos inner_solver in_vars out_vars i) (\<lambda>labelled.
     if labelled then
       let (inner_solver, notUndec) =
             (if \<not> raset__contains notUndec i \<and> q \<noteq> i
              then (sat__addClause2 inner_solver (in_vars ! i) (out_vars ! i), snd (raset__add notUndec i))
              else (inner_solver, notUndec))
       in rbind (sat__get inner_solver (in_vars ! i)) (\<lambda>x.
          Inr (inner_solver, notUndec, if x > 0 then snd (raset__add in_arg i) else in_arg, clause))
     else rbind (put_both (2 * n) in_vars out_vars i clause) (\<lambda>clause.
          Inr (inner_solver, notUndec, in_arg, clause))))"

definition stg_collect :: "int list \<Rightarrow> int list \<Rightarrow> nat \<Rightarrow> nat \<Rightarrow> collector" where
  "stg_collect in_vars out_vars n q inner_solver notUndec in_arg =
     rfold (stg_arg in_vars out_vars n q) [0..<n] (inner_solver, notUndec, in_arg, [])"

section \<open>The solve functions\<close>

definition solve_dcsst ::
    "nat \<Rightarrow> sat_oracle \<Rightarrow> TaskSpecification \<Rightarrow> AAF \<Rightarrow> Labeling \<Rightarrow> bool \<Rightarrow> (bool \<times> string) result" where
  "solve_dcsst fuel ips task aaf grounded do_print =
     (let n = number_of_arguments aaf;
          (in_vars, out_vars, idx) = alloc_in_out n 1
      in rbind (add_admTestClauses (sat__init (2 * n)) in_vars out_vars aaf grounded) (\<lambda>(solver, all_grounded).
         if all_grounded then
           let accepted = bit_at (lab_in grounded) (query task)
           in if do_print then
                rbind (print_labeling grounded aaf) (\<lambda>out. Inr (accepted, (if accepted then YES else NO) @ out))
              else Inr (accepted, [])
         else
           rbind (rloop fuel (query_outer fuel ips (\<lambda>s. add_admTestClauses s in_vars out_vars aaf grounded)
                    (sst_collect in_vars out_vars n (query task)) in_vars out_vars n (in_vars ! query task)) solver)
             (\<lambda>r. case r of
                None \<Rightarrow> Inr (False, if do_print then NO else [])
              | Some in_arg \<Rightarrow>
                  Inr (True, if do_print then YES @ raset__print_i23 in_arg (ids2arguments aaf) else []))))"

definition solve_dssst ::
    "nat \<Rightarrow> sat_oracle \<Rightarrow> TaskSpecification \<Rightarrow> AAF \<Rightarrow> Labeling \<Rightarrow> bool \<Rightarrow> (bool \<times> string) result" where
  "solve_dssst fuel ips task aaf grounded do_print =
     (let n = number_of_arguments aaf;
          (in_vars, out_vars, idx) = alloc_in_out n 1
      in rbind (add_admTestClauses (sat__init (2 * n)) in_vars out_vars aaf grounded) (\<lambda>(solver, all_grounded).
         if all_grounded then
           if bit_at (lab_in grounded) (query task) then Inr (True, if do_print then YES else [])
           else if do_print then rbind (print_labeling grounded aaf) (\<lambda>out. Inr (False, NO @ out))
           else Inr (False, [])
         else
           rbind (rloop fuel (query_outer fuel ips (\<lambda>s. add_admTestClauses s in_vars out_vars aaf grounded)
                    (sst_collect in_vars out_vars n (query task)) in_vars out_vars n (- (in_vars ! query task))) solver)
             (\<lambda>r. case r of
                None \<Rightarrow> Inr (True, if do_print then YES else [])
              | Some in_arg \<Rightarrow>
                  Inr (False, if do_print then NO @ raset__print_i23 in_arg (ids2arguments aaf) else []))))"

definition solve_dcstg ::
    "nat \<Rightarrow> sat_oracle \<Rightarrow> TaskSpecification \<Rightarrow> AAF \<Rightarrow> Labeling \<Rightarrow> bool \<Rightarrow> (bool \<times> string) result" where
  "solve_dcstg fuel ips task aaf grounded do_print =
     (let n = number_of_arguments aaf;
          (in_vars, out_vars, idx) = alloc_in_out n 1
      in rbind (add_cfTestClauses (sat__init (2 * n)) in_vars out_vars aaf grounded) (\<lambda>(solver, all_grounded).
         if all_grounded then
           let accepted = bit_at (lab_in grounded) (query task)
           in if do_print then
                rbind (print_labeling grounded aaf) (\<lambda>out. Inr (accepted, (if accepted then YES else NO) @ out))
              else Inr (accepted, [])
         else
           rbind (rloop fuel (query_outer fuel ips (\<lambda>s. add_cfTestClauses s in_vars out_vars aaf grounded)
                    (stg_collect in_vars out_vars n (query task)) in_vars out_vars n (in_vars ! query task)) solver)
             (\<lambda>r. case r of
                None \<Rightarrow> Inr (False, if do_print then NO else [])
              | Some in_arg \<Rightarrow>
                  Inr (True, if do_print then YES @ raset__print_i23 in_arg (ids2arguments aaf) else []))))"

definition solve_dsstg ::
    "nat \<Rightarrow> sat_oracle \<Rightarrow> TaskSpecification \<Rightarrow> AAF \<Rightarrow> Labeling \<Rightarrow> bool \<Rightarrow> (bool \<times> string) result" where
  "solve_dsstg fuel ips task aaf grounded do_print =
     (let n = number_of_arguments aaf;
          (in_vars, out_vars, idx) = alloc_in_out n 1
      in rbind (add_cfTestClauses (sat__init (2 * n)) in_vars out_vars aaf grounded) (\<lambda>(solver, all_grounded).
         if all_grounded then
           let accepted = bit_at (lab_in grounded) (query task)
           in if do_print then
                rbind (print_labeling grounded aaf) (\<lambda>out. Inr (accepted, (if accepted then YES else NO) @ out))
              else Inr (accepted, [])
         else
           rbind (rloop fuel (query_outer fuel ips (\<lambda>s. add_cfTestClauses s in_vars out_vars aaf grounded)
                    (stg_collect in_vars out_vars n (query task)) in_vars out_vars n (- (in_vars ! query task))) solver)
             (\<lambda>r. case r of
                None \<Rightarrow> Inr (True, if do_print then YES else [])
              | Some in_arg \<Rightarrow>
                  Inr (False, if do_print then NO @ raset__print_i23 in_arg (ids2arguments aaf) else []))))"

section \<open>Reading the models\<close>

abbreviation labels :: "int list \<Rightarrow> int list \<Rightarrow> (nat \<Rightarrow> bool) \<Rightarrow> nat set" where
  "labels iv ov v \<equiv> true_set v iv \<union> true_set v ov"

lemma labels_below:
  assumes "vars_ok n iv" "vars_ok n ov"
  shows "{i \<in> labels iv ov v. i < n} = labels iv ov v" and "{i \<in> true_set v iv. i < n} = true_set v iv"
    and "{i \<in> labels iv ov v - N. i < n} = labels iv ov v - N"
  using true_set_bound[OF assms(1)] true_set_bound[OF assms(2)] by auto

lemma adds_keep:
  assumes s': "adds s s' (\<lambda>w. S \<subseteq> labels iv ov w)" and iv: "vars_ok n iv" and ov: "vars_ok n ov" and i: "i < n"
  shows "adds s (sat__addClause2 s' (iv ! i) (ov ! i)) (\<lambda>w. insert i S \<subseteq> labels iv ov w)"
proof (rule adds_trans[OF s' adds_clause2[OF addsD(1)[OF s']]])
  show "iv ! i \<noteq> 0" "ov ! i \<noteq> 0" using iv ov i by simp_all
  show "insert i S \<subseteq> labels iv ov w \<longleftrightarrow> S \<subseteq> labels iv ov w \<and> (lit_true w (iv ! i) \<or> lit_true w (ov ! i))" for w
    using true_set_iff[OF iv i] true_set_iff[OF ov i] by auto
qed

lemma outer_collect_rok:
  assumes m: "model_is s v" and iv: "vars_ok n iv" and ov: "vars_ok n ov" and t: "ready t"
  shows "rok (rfold (outer_arg s iv ov n) [0..<n] (raset__init_empty n, raset__init_empty n, t, []))
    (\<lambda>(nu, a, t', clause). raset_is n (labels iv ov v) nu \<and> raset_is n (true_set v iv) a \<and>
      adds t t' (\<lambda>w. labels iv ov v \<subseteq> labels iv ov w) \<and> clause = both_lits iv ov (labels iv ov v) n)"
proof -
  let ?R = "labels iv ov v" and ?I = "true_set v iv"
  define J where "J = (\<lambda>k (nu, a, t', clause). raset_is n {i \<in> ?R. i < k} nu \<and> raset_is n {i \<in> ?I. i < k} a \<and>
    adds t t' (\<lambda>w. {i \<in> ?R. i < k} \<subseteq> labels iv ov w) \<and> clause = both_lits iv ov ?R k)"
  have "rok (rfold (outer_arg s iv ov n) [0..<n] (raset__init_empty n, raset__init_empty n, t, [])) (J n)"
  proof (rule rok_for[where I = J])
    show "J 0 (raset__init_empty n, raset__init_empty n, t, [])"
      using t by (simp add: J_def raset_is_init adds_refl both_lits_def)
  next
    fix i st assume i: "i < n" and "J i st"
    then obtain nu a t' where st: "st = (nu, a, t', both_lits iv ov ?R i)"
      and nu: "raset_is n {j \<in> ?R. j < i} nu" and a: "raset_is n {j \<in> ?I. j < i} a"
      and t': "adds t t' (\<lambda>w. {j \<in> ?R. j < i} \<subseteq> labels iv ov w)" by (cases st) (auto simp: J_def)
    show "rok (outer_arg s iv ov n i st) (J (Suc i))"
    proof (cases "i \<in> ?R")
      case True
      then show ?thesis
        unfolding outer_arg_def J_def st prod.case below_Suc both_lits_Suc
        using raset_is_add[OF nu i] raset_is_add[OF a i] a vars_pos[OF iv i] adds_keep[OF t' iv ov i]
        by (simp add: model_signs[OF m iv ov i] sat__get_model[OF m] true_set_iff[OF iv i])
    next
      case False
      then show ?thesis
        unfolding outer_arg_def J_def st prod.case below_Suc both_lits_Suc
        using nu a t' by (simp add: model_signs[OF m iv ov i] put_both_lits[OF i])
    qed
  qed
  then show ?thesis by (rule rok_weaken) (simp only: J_def labels_below[OF iv ov])
qed

text \<open>What the two readers of the inner model compute, for the arguments below \<open>k\<close>.\<close>

definition collected ::
    "nat \<Rightarrow> int list \<Rightarrow> int list \<Rightarrow> nat \<Rightarrow> (nat \<Rightarrow> bool) \<Rightarrow> nat set \<Rightarrow> ipasir \<Rightarrow> nat \<Rightarrow>
     ipasir \<times> RaSet \<times> RaSet \<times> int list \<Rightarrow> bool" where
  "collected n iv ov q v N s k = (\<lambda>(s', nu, a, clause).
     adds s s' (\<lambda>w. {i \<in> labels iv ov v - (N \<union> {q}). i < k} \<subseteq> labels iv ov w) \<and>
     raset_is n (N \<union> {i \<in> labels iv ov v - (N \<union> {q}). i < k}) nu \<and>
     raset_is n {i \<in> true_set v iv. i < k} a \<and> clause = both_lits iv ov (labels iv ov v) k)"

lemma collected_init:
  "ready s \<Longrightarrow> raset_is n N nu \<Longrightarrow> raset_is n {} a \<Longrightarrow> collected n iv ov q v N s 0 (s, nu, a, [])"
  by (simp add: collected_def adds_refl both_lits_def)

lemma collected_labelled:
  assumes iv: "vars_ok n iv" and ov: "vars_ok n ov" and i: "i < n" and l: "i \<in> labels iv ov v"
    and c: "collected n iv ov q v N s i (s', nu, a, clause)"
  shows "collected n iv ov q v N s (Suc i)
    (if \<not> raset__contains nu i \<and> q \<noteq> i then sat__addClause2 s' (iv ! i) (ov ! i) else s',
     if \<not> raset__contains nu i \<and> q \<noteq> i then snd (raset__add nu i) else nu,
     if i \<in> true_set v iv then snd (raset__add a i) else a, clause)"
proof -
  let ?S = "{j \<in> labels iv ov v - (N \<union> {q}). j < i}"
  have s': "adds s s' (\<lambda>w. ?S \<subseteq> labels iv ov w)" and nu: "raset_is n (N \<union> ?S) nu"
    and a: "raset_is n {j \<in> true_set v iv. j < i} a" and cl: "clause = both_lits iv ov (labels iv ov v) i"
    using c by (auto simp: collected_def)
  have con: "raset__contains nu i \<longleftrightarrow> i \<in> N" using raset_is_contains[OF nu i] by simp
  show ?thesis
  proof (cases "i \<notin> N \<and> q \<noteq> i")
    case True
    then have new: "i \<in> labels iv ov v - (N \<union> {q})" and c: "(\<not> raset__contains nu i \<and> q \<noteq> i) = True"
      using l con by auto
    show ?thesis
      unfolding collected_def c if_True prod.case below_Suc both_lits_Suc if_P[OF new] if_P[OF l]
      using adds_keep[OF s' iv ov i] raset_is_add[OF nu i] raset_is_add[OF a i] a cl by simp
  next
    case False
    then have old: "i \<notin> labels iv ov v - (N \<union> {q})" and c: "(\<not> raset__contains nu i \<and> q \<noteq> i) = False"
      using con by auto
    show ?thesis
      unfolding collected_def c if_False prod.case below_Suc both_lits_Suc if_not_P[OF old] if_P[OF l]
      using s' nu raset_is_add[OF a i] a cl by simp
  qed
qed

lemma collected_unlabelled:
  assumes "i \<notin> labels iv ov v" and "collected n iv ov q v N s i (s', nu, a, clause)"
  shows "collected n iv ov q v N s (Suc i) (s', nu, a, clause @ [iv ! i, ov ! i])"
  using assms unfolding collected_def prod.case below_Suc both_lits_Suc by simp

lemma collected_clause: "collected n iv ov q v N s k (s', nu, a, clause) \<Longrightarrow> clause = both_lits iv ov (labels iv ov v) k"
  by (simp add: collected_def)

lemma sst_read_rok:
  assumes m: "model_is s v" and iv: "vars_ok n iv" and ov: "vars_ok n ov"
  shows "rok (rfold (sst_read s iv ov) [0..<n] (raset__init_empty n, raset__init_empty n))
    (\<lambda>(va, vi). raset_is n (labels iv ov v) va \<and> raset_is n (true_set v iv) vi)"
proof -
  define J where "J = (\<lambda>k (va, vi). raset_is n {i \<in> labels iv ov v. i < k} va \<and> raset_is n {i \<in> true_set v iv. i < k} vi)"
  have "rok (rfold (sst_read s iv ov) [0..<n] (raset__init_empty n, raset__init_empty n)) (J n)"
  proof (rule rok_for[where I = J])
    show "J 0 (raset__init_empty n, raset__init_empty n)" by (simp add: J_def raset_is_init)
  next
    fix i st assume i: "i < n" and "J i st"
    then obtain va vi where st: "st = (va, vi)" and va: "raset_is n {j \<in> labels iv ov v. j < i} va"
      and vi: "raset_is n {j \<in> true_set v iv. j < i} vi" by (cases st) (auto simp: J_def)
    show "rok (sst_read s iv ov i st) (J (Suc i))"
      unfolding sst_read_def J_def st prod.case below_Suc
      using raset_is_add[OF va i] raset_is_add[OF vi i] va vi vars_pos[OF iv i]
      by (simp add: model_signs[OF m iv ov i] sat__get_model[OF m] true_set_iff[OF iv i])
  qed
  then show ?thesis by (rule rok_weaken) (simp only: J_def labels_below[OF iv ov])
qed

lemma sst_collect_rok:
  assumes m: "model_is s v" and s: "ready s" and iv: "vars_ok n iv" and ov: "vars_ok n ov"
    and nu: "raset_is n N nu" and a: "raset_is n {} a"
  shows "rok (sst_collect iv ov n q s nu a) (collected n iv ov q v N s n)"
  unfolding sst_collect_def
proof (rule rok_bind[OF sst_read_rok[OF m iv ov]], clarify)
  fix va vi assume va: "raset_is n (labels iv ov v) va" and vi: "raset_is n (true_set v iv) vi"
  show "rok (rfold (sst_arg iv ov n q va vi) [0..<n] (s, nu, a, [])) (collected n iv ov q v N s n)"
  proof (rule rok_for[where I = "collected n iv ov q v N s", OF collected_init[OF s nu a]])
    fix i st assume i: "i < n" and c: "collected n iv ov q v N s i st"
    obtain s' nu' a' clause where st: "st = (s', nu', a', clause)" by (cases st)
    show "rok (sst_arg iv ov n q va vi i st) (collected n iv ov q v N s (Suc i))"
    proof (cases "i \<in> labels iv ov v")
      case True
      with collected_labelled[OF iv ov i True c[unfolded st]] show ?thesis
        by (cases "\<not> raset__contains nu' i \<and> q \<noteq> i")
          (simp_all only: sst_arg_def st raset_is_contains[OF va i] raset_is_contains[OF vi i] prod.case if_True
            if_False Let_def not_False_eq_True simp_thms rok_simps)
    next
      case False
      with collected_unlabelled[OF False c[unfolded st]] collected_clause[OF c[unfolded st]] show ?thesis
        by (simp add: sst_arg_def st raset_is_contains[OF va i] put_both_lits[OF i])
    qed
  qed
qed

text \<open>The stage reader fails as soon as it reads after it has added a clause.\<close>

lemma addClause2_mode: "mode (sat__addClause2 s a b) = INPUT"
  by (simp add: sat__addClause2_def ipasir_add_def)

lemma stg_collect_rsafe:
  assumes m: "model_is s v" and s: "ready s" and iv: "vars_ok n iv" and ov: "vars_ok n ov"
    and nu: "raset_is n N nu" and a: "raset_is n {} a"
  shows "rsafe {SolverState} (stg_collect iv ov n q s nu a) (collected n iv ov q v N s n)"
proof -
  define J where "J = (\<lambda>k st. collected n iv ov q v N s k st \<and> (model_is (fst st) v \<or> mode (fst st) = INPUT))"
  have "rsafe {SolverState} (rfold (stg_arg iv ov n q) [0..<n] (s, nu, a, [])) (J n)"
  proof (rule rsafe_for[where I = J])
    show "J 0 (s, nu, a, [])" using collected_init[OF s nu a] m by (simp add: J_def)
  next
    fix i st assume i: "i < n" and "J i st"
    obtain s' nu' a' clause where st: "st = (s', nu', a', clause)" by (cases st)
    then have c: "collected n iv ov q v N s i (s', nu', a', clause)" and md: "model_is s' v \<or> mode s' = INPUT"
      using \<open>J i st\<close> by (simp_all add: J_def)
    show "rsafe {SolverState} (stg_arg iv ov n q i st) (J (Suc i))"
    proof (cases "mode s' = INPUT")
      case True
      then show ?thesis by (simp add: stg_arg_def st some_pos_def sat__get_error)
    next
      case False
      with md have m': "model_is s' v" by simp
      show ?thesis
      proof (cases "i \<in> labels iv ov v")
        case True
        with collected_labelled[OF iv ov i True c] m' vars_pos[OF iv i] show ?thesis
          by (cases "q = i") (auto simp: stg_arg_def st model_signs[OF m' iv ov i] sat__get_model[OF m']
              true_set_iff[OF iv i] sat__get_error addClause2_mode J_def split: if_splits)
      next
        case False
        with collected_unlabelled[OF False c] collected_clause[OF c] m' show ?thesis
          by (simp add: stg_arg_def st model_signs[OF m' iv ov i] put_both_lits[OF i] J_def)
      qed
    qed
  qed
  then show ?thesis unfolding stg_collect_def by (rule rsafe_weaken) (simp add: J_def)
qed

text \<open>
  As soon as the inner model labels an argument whose status is new, other than the query, the stage
  reader calls \<open>sat__get\<close> on a solver that has just been given a clause.
\<close>

lemma collected_contains:
  "i < n \<Longrightarrow> collected n iv ov q v N s i (s', nu, a, clause) \<Longrightarrow> raset__contains nu i \<longleftrightarrow> i \<in> N"
  using raset_is_contains[of n _ nu i] by (auto simp: collected_def)

lemma stg_collect_violation:
  assumes m: "model_is s v" and s: "ready s" and iv: "vars_ok n iv" and ov: "vars_ok n ov"
    and nu: "raset_is n N nu" and a: "raset_is n {} a"
    and new: "j < n" "j \<in> labels iv ov v" "j \<notin> N" "j \<noteq> q"
  shows "stg_collect iv ov n q s nu a = Inl SolverState"
proof -
  define J where "J = (\<lambda>k st. collected n iv ov q v N s k st \<and> model_is (fst st) v \<and>
    (\<forall>i<k. i \<in> labels iv ov v \<longrightarrow> i \<in> N \<or> i = q))"
  have "rsafe {SolverState} (rfold (stg_arg iv ov n q) [0..<n] (s, nu, a, [])) (J n)"
  proof (rule rsafe_for[where I = J])
    show "J 0 (s, nu, a, [])" using collected_init[OF s nu a] m by (simp add: J_def)
  next
    fix i st assume i: "i < n" and "J i st"
    obtain s' nu' a' clause where st: "st = (s', nu', a', clause)" by (cases st)
    then have c: "collected n iv ov q v N s i (s', nu', a', clause)" and m': "model_is s' v"
      and old: "\<forall>k<i. k \<in> labels iv ov v \<longrightarrow> k \<in> N \<or> k = q"
      using \<open>J i st\<close> by (simp_all add: J_def)
    have con: "raset__contains nu' i \<longleftrightarrow> i \<in> N"
      using collected_contains[OF i c] .
    show "rsafe {SolverState} (stg_arg iv ov n q i st) (J (Suc i))"
    proof (cases "i \<in> labels iv ov v")
      case True
      with collected_labelled[OF iv ov i True c] m' vars_pos[OF iv i] old con show ?thesis
        by (cases "q = i") (auto simp: stg_arg_def st model_signs[OF m' iv ov i] sat__get_model[OF m']
            true_set_iff[OF iv i] sat__get_error addClause2_mode J_def less_Suc_eq split: if_splits)
    next
      case False
      with collected_unlabelled[OF False c] collected_clause[OF c] m' old show ?thesis
        by (simp add: stg_arg_def st model_signs[OF m' iv ov i] put_both_lits[OF i] J_def less_Suc_eq)
    qed
  qed
  then have "rsafe {SolverState} (stg_collect iv ov n q s nu a) (\<lambda>_. False)"
    unfolding stg_collect_def by (rule rsafe_weaken) (use new in \<open>auto simp: J_def\<close>)
  then show ?thesis by (cases "stg_collect iv ov n q s nu a") simp_all
qed

section \<open>The loops decide acceptance\<close>

text \<open>What the loops need of the literal, the reader of the inner model and the clause generator.\<close>

definition assumes_lit :: "int list \<Rightarrow> int \<Rightarrow> (nat set \<Rightarrow> bool) \<Rightarrow> bool" where
  "assumes_lit iv lit P \<longleftrightarrow>
     (\<forall>s v. assumed s = [] \<longrightarrow> (assuming v (sat__assume s lit) \<longleftrightarrow> P (true_set v iv)))"

definition collects :: "error set \<Rightarrow> nat \<Rightarrow> int list \<Rightarrow> int list \<Rightarrow> nat \<Rightarrow> collector \<Rightarrow> bool" where
  "collects es n iv ov q collect \<longleftrightarrow> (\<forall>s v nu a N. model_is s v \<longrightarrow> ready s \<longrightarrow> raset_is n N nu \<longrightarrow>
     raset_is n {} a \<longrightarrow> rsafe es (collect s nu a) (collected n iv ov q v N s n))"

definition generates ::
    "(AAF \<Rightarrow> Labeling \<Rightarrow> nat set \<Rightarrow> nat set \<Rightarrow> nat \<Rightarrow> bool) \<Rightarrow> AAF \<Rightarrow> Labeling \<Rightarrow> int list \<Rightarrow> int list \<Rightarrow>
     (ipasir \<Rightarrow> (ipasir \<times> bool) result) \<Rightarrow> bool" where
  "generates cond A g iv ov gen \<longleftrightarrow>
     (\<forall>m. rok (gen (sat__init m)) (\<lambda>(s, b). describes cond A g iv ov (\<lambda>_ _. True) s \<and> assumed s = []))"

lemma assumes_litD: "assumes_lit iv lit P \<Longrightarrow> assumed s = [] \<Longrightarrow> assuming v (sat__assume s lit) \<longleftrightarrow> P (true_set v iv)"
  by (simp add: assumes_lit_def)

lemma collectsD:
  "collects es n iv ov q collect \<Longrightarrow> model_is s v \<Longrightarrow> ready s \<Longrightarrow> raset_is n N nu \<Longrightarrow> raset_is n {} a \<Longrightarrow>
   rsafe es (collect s nu a) (collected n iv ov q v N s n)"
  by (simp add: collects_def)

lemma generatesD:
  "generates cond A g iv ov gen \<Longrightarrow>
   rok (gen (sat__init m)) (\<lambda>(s, b). describes cond A g iv ov (\<lambda>_ _. True) s \<and> assumed s = [])"
  by (simp add: generates_def)

text \<open>The label sets a solver can still produce: the measure of both loops.\<close>

definition label_sets :: "int list \<Rightarrow> int list \<Rightarrow> ipasir \<Rightarrow> nat set set" where
  "label_sets iv ov s = {labels iv ov v |v. holds v s}"

lemma label_sets_bound:
  assumes "vars_ok n iv" "vars_ok n ov"
  shows "finite (label_sets iv ov s)" and "card (label_sets iv ov s) \<le> 2 ^ n"
proof -
  have sub: "label_sets iv ov s \<subseteq> Pow {..<n}"
    using true_set_subset[OF assms(1)] true_set_subset[OF assms(2)] by (auto simp: label_sets_def)
  then show "finite (label_sets iv ov s)" by (rule finite_subset) simp
  show "card (label_sets iv ov s) \<le> 2 ^ n" using card_mono[OF _ sub] by (simp add: card_Pow)
qed

lemma label_sets_less:
  assumes iv: "vars_ok n iv" and ov: "vars_ok n ov" and ad: "adds s s' C" and v: "holds v s"
    and C: "\<And>w. C w \<Longrightarrow> \<not> labels iv ov w \<subseteq> N" and N: "labels iv ov v \<subseteq> N"
  shows "card (label_sets iv ov s') < card (label_sets iv ov s)"
proof (rule psubset_card_mono[OF label_sets_bound(1)[OF iv ov]], rule psubsetI)
  show "label_sets iv ov s' \<subseteq> label_sets iv ov s" using addsD(3)[OF ad] by (auto simp: label_sets_def)
  have "labels iv ov v \<notin> label_sets iv ov s'"
    using addsD(3)[OF ad] C N unfolding label_sets_def by blast
  moreover have "labels iv ov v \<in> label_sets iv ov s" using v by (auto simp: label_sets_def)
  ultimately show "label_sets iv ov s' \<noteq> label_sets iv ov s" by blast
qed

lemma label_sets_clauses: "clauses s' = clauses s \<Longrightarrow> label_sets iv ov s' = label_sets iv ov s"
  using holds_clauses[of s' s] by (simp add: label_sets_def)

lemma add_outside_adds:
  assumes iv: "vars_ok n iv" and ov: "vars_ok n ov" and s: "ready s" and N: "raset_is n N nu"
  shows "adds s (add_outside iv ov n nu s) (\<lambda>w. \<not> labels iv ov w \<subseteq> N)"
proof -
  have "fold (\<lambda>i s. if \<not> raset__contains nu i then sat__add (sat__add s (iv ! i)) (ov ! i) else s) xs s =
      fold (\<lambda>l s. sat__add s l) (concat (map (\<lambda>i. [iv ! i, ov ! i]) (filter (\<lambda>i. i \<notin> N) xs))) s"
    if "set xs \<subseteq> {..<n}" for xs s
    using that by (induction xs arbitrary: s) (auto simp: raset_is_contains[OF N])
  from this[of "[0..<n]" s]
  have "add_outside iv ov n nu s = sat__add (fold (\<lambda>l s. sat__add s l) (both_lits iv ov N n) s) 0"
    by (simp add: add_outside_def both_lits_def atLeast0LessThan)
  also have "\<dots> = sat__addClause s (both_lits iv ov N n) (length (both_lits iv ov N n))"
    by (simp add: sat__addClause_fold)
  finally show ?thesis
    using adds_clause[OF s both_lits_true(1)[OF iv ov] refl] by (simp only: both_lits_true(2)[OF iv ov])
qed

definition query_req :: "nat set \<Rightarrow> nat set set \<Rightarrow> nat set \<Rightarrow> nat set \<Rightarrow> bool" where
  "query_req N \<K> I U \<longleftrightarrow> N \<subseteq> I \<union> U \<and> (\<forall>R\<in>\<K>. \<not> I \<union> U \<subseteq> R)"

text \<open>A set of arguments with its labels, of which \<open>N\<close> must be kept, and the excluded label sets.\<close>

definition current :: "nat set \<Rightarrow> nat set set \<Rightarrow> nat set \<Rightarrow> bool" where
  "current N \<K> R \<longleftrightarrow> N \<subseteq> R \<and> R \<in> \<K> \<and> (\<forall>R'\<in>\<K>. R' \<noteq> R \<longrightarrow> \<not> R \<subseteq> R')"

lemma current_next:
  assumes "current N \<K> R" "query_req N \<K> I U"
  shows "current (N \<union> (I \<union> U - (N \<union> {q}))) (insert (I \<union> U) \<K>) (I \<union> U)"
  using assms unfolding current_def query_req_def by blast

lemma query_req_next:
  "query_req (N \<union> S) (insert R \<K>) I U \<longleftrightarrow> (query_req N \<K> I U \<and> S \<subseteq> I \<union> U) \<and> \<not> I \<union> U \<subseteq> R"
  by (auto simp: query_req_def)

lemma current_max:
  assumes cur: "current N \<K> (I \<union> U)" and I: "sem I" "U \<subseteq> attacked F I"
    and no: "\<And>E. sem E \<Longrightarrow> \<not> query_req N \<K> E (attacked F E)"
  shows "max_range sem F I"
  unfolding max_range_def
proof (intro conjI allI impI I(1))
  fix E assume E: "sem E \<and> range_of F I \<subseteq> range_of F E"
  have IU: "I \<union> U \<subseteq> range_of F I" using I(2) by (auto simp: range_of_def)
  from E IU have sub: "I \<union> U \<subseteq> range_of F E" by (meson order_trans)
  with no[of E] E cur obtain R where R: "R \<in> \<K>" "range_of F E \<subseteq> R"
    unfolding current_def query_req_def range_of_def by blast
  have "I \<union> U \<subseteq> R" using sub R(2) by (rule order_trans)
  with R(1) cur have "R = I \<union> U" unfolding current_def by metis
  with R E IU show "range_of F E = range_of F I" by blast
qed

lemma current_larger:
  "current N \<K> R \<Longrightarrow> query_req N \<K> I U \<Longrightarrow> U \<subseteq> attacked F I \<Longrightarrow> N \<subset> range_of F I"
  unfolding current_def query_req_def range_of_def by blast

context set_encoding
begin

definition inner_inv ::
    "AAF \<Rightarrow> Labeling \<Rightarrow> int list \<Rightarrow> int list \<Rightarrow> (nat set \<Rightarrow> bool) \<Rightarrow> nat set \<Rightarrow> ipasir \<times> RaSet \<times> RaSet \<Rightarrow> bool" where
  "inner_inv A g iv ov P R0 = (\<lambda>(s, nu, a). \<exists>N I U \<K>. raset_is (number_of_arguments A) N nu \<and>
     raset_is (number_of_arguments A) I a \<and> sem (af_of A) I \<and> U \<subseteq> attacked (af_of A) I \<and> P I \<and>
     current N \<K> (I \<union> U) \<and> R0 \<subseteq> N \<and> describes cond A g iv ov (query_req N \<K>) s \<and> assumed s = [])"

definition inner_result :: "AAF \<Rightarrow> (nat set \<Rightarrow> bool) \<Rightarrow> nat set \<Rightarrow> bool \<times> RaSet \<times> RaSet \<Rightarrow> bool" where
  "inner_result A P R0 = (\<lambda>(found, nu, a). \<exists>N I. raset_is (number_of_arguments A) N nu \<and>
     raset_is (number_of_arguments A) I a \<and> R0 \<subseteq> N \<and> P I \<and>
     (if found then max_range (sem (af_of A)) (af_of A) I
      else \<exists>E. sem (af_of A) E \<and> N \<subset> range_of (af_of A) E))"

lemma query_inner_step:
  assumes wf: "wf_aaf A" and g: "grounded_labeling A g" and ips: "oracle_ok ips"
    and iv: "vars_ok (number_of_arguments A) iv" and ov: "vars_ok (number_of_arguments A) ov"
    and dist: "distinct (iv @ ov)"
    and lit: "assumes_lit iv lit P"
    and collect: "collects es (number_of_arguments A) iv ov q collect"
    and inv: "inner_inv A g iv ov P R0 (s, nu, a)"
  shows "rsafe es (query_inner ips collect lit (s, nu, a)) (\<lambda>t. case t of
      Continue (s', nu', a') \<Rightarrow> inner_inv A g iv ov P R0 (s', nu', a') \<and>
        card (label_sets iv ov s') < card (label_sets iv ov s)
    | Break r \<Rightarrow> inner_result A P R0 r)"
proof -
  let ?n = "number_of_arguments A" and ?F = "af_of A"
  obtain N I U \<K> where nu: "raset_is ?n N nu" and a: "raset_is ?n I a" and I: "sem ?F I" "U \<subseteq> attacked ?F I" "P I"
    and cur: "current N \<K> (I \<union> U)" "R0 \<subseteq> N" and s: "describes cond A g iv ov (query_req N \<K>) s" "assumed s = []"
    using inv unfolding inner_inv_def by blast
  define Q where "Q = (\<lambda>t. case t of Continue (s', nu', a') \<Rightarrow> inner_inv A g iv ov P R0 (s', nu', a') \<and>
      card (label_sets iv ov s') < card (label_sets iv ov s) | Break r \<Rightarrow> inner_result A P R0 r)"
  have s1: "describes cond A g iv ov (query_req N \<K>) (sat__assume s lit)" using s(1) by (simp add: describes_def)
  have "rsafe es (query_inner ips collect lit (s, nu, a)) Q"
    unfolding query_inner_def prod.case
  proof (rule rsafe_rok_rbind, rule solve[OF wf g ips iv ov dist s1, where Q = "\<lambda>I _. P I"], goal_cases)
    case (1 v)
    show ?case by (rule assumes_litD[OF lit s(2)])
  next
    case (3 s')
    have "rok (rbind (sat__solve ips s') (\<lambda>(sat, s''). Inr (Break (sat = 20, nu, a)))) Q"
    proof (rule rok_rbind, rule solve[OF wf g ips iv ov dist 3(2), where Q = "\<lambda>_ _. True"], goal_cases)
      case (1 v)
      show ?case using 3(3) by (simp add: assuming_def)
    next
      case (2 s'' v I' U')
      then have "N \<subset> range_of ?F I'" using current_larger[OF cur(1)] by blast
      with 2(3) nu a I(3) cur(2) have "inner_result A P R0 (False, nu, a)"
        unfolding inner_result_def prod.case if_False by blast
      then show ?case by (simp add: Q_def)
    next
      case (3 s'')
      have "max_range (sem ?F) ?F I" using 3(1) by (intro current_max[where sem = "sem ?F", OF cur(1) I(1,2)]) blast
      with nu a I(3) cur(2) have "inner_result A P R0 (True, nu, a)"
        unfolding inner_result_def prod.case if_True by blast
      then show ?case by (simp add: Q_def)
    qed
    then show ?case by (simp add: rok_rsafe)
  next
    case (2 s' v I' U')
    let ?R = "labels iv ov v" and ?cl = "both_lits iv ov (labels iv ov v) ?n"
    have cont: "Q (Continue (sat__addClause s2 clause (length clause), nu2, a2))"
      if c: "collected ?n iv ov q v N s' ?n (s2, nu2, a2, clause)" for s2 nu2 a2 clause
    proof -
      let ?S = "?R - (N \<union> {q})" and ?s3 = "sat__addClause s2 ?cl (length ?cl)"
      have ad: "adds s' s2 (\<lambda>w. ?S \<subseteq> labels iv ov w)" and nu2: "raset_is ?n (N \<union> ?S) nu2"
        and a2: "raset_is ?n (true_set v iv) a2" and cl: "clause = ?cl"
        using c unfolding collected_def prod.case labels_below[OF iv ov] by simp_all
      have ad3: "adds s2 ?s3 (\<lambda>w. \<not> labels iv ov w \<subseteq> ?R)"
        using adds_clause[OF addsD(1)[OF ad] both_lits_true(1)[OF iv ov] refl] by (simp only: both_lits_true(2)[OF iv ov])
      have d: "describes cond A g iv ov (query_req (N \<union> ?S) (insert ?R \<K>)) ?s3"
        by (rule describes_cong[OF describes_adds[OF describes_adds[OF 2(8) ad refl] ad3 refl]])
          (simp only: query_req_next)
      have cur': "current (N \<union> ?S) (insert ?R \<K>) ?R"
        using current_next[OF cur(1), of I' U' q] 2(1,2,5) by simp
      have "inner_inv A g iv ov P R0 (?s3, nu2, a2)"
        unfolding inner_inv_def prod.case
        using nu2 a2 2(1-4,6,9) cur' d cur(2) addsD(2)[OF ad] addsD(2)[OF ad3]
        by (intro exI[of _ "N \<union> ?S"] exI[of _ I'] exI[of _ U'] exI[of _ "insert ?R \<K>"]) auto
      moreover have "card (label_sets iv ov ?s3) < card (label_sets iv ov s)"
      proof -
        have "adds s' ?s3 (\<lambda>w. ?S \<subseteq> labels iv ov w \<and> \<not> labels iv ov w \<subseteq> ?R)"
          by (rule adds_trans[OF ad ad3]) simp
        from label_sets_less[OF iv ov this 2(10), of ?R]
        have "card (label_sets iv ov ?s3) < card (label_sets iv ov s')" by blast
        moreover have "label_sets iv ov s' = label_sets iv ov s"
          using describesD(2)[OF 2(8)] describesD(2)[OF s(1)] by (simp add: label_sets_def)
        ultimately show ?thesis by simp
      qed
      ultimately show ?thesis by (simp add: Q_def cl)
    qed
    have "rsafe es (rbind (collect s' nu (raset__reset a)) (\<lambda>(s2, nu2, a2, clause).
        Inr (Continue (sat__addClause s2 clause (length clause), nu2, a2)))) Q"
      by (rule rsafe_bind[OF collectsD[OF collect 2(7) describesD(1)[OF 2(8)] nu raset_is_reset[OF a]]])
        (auto split: prod.splits intro: cont)
    then show ?case by simp
  qed
  then show ?thesis by (simp only: Q_def)
qed

lemma query_inner_loop:
  assumes wf: "wf_aaf A" and g: "grounded_labeling A g" and ips: "oracle_ok ips"
    and iv: "vars_ok (number_of_arguments A) iv" and ov: "vars_ok (number_of_arguments A) ov"
    and dist: "distinct (iv @ ov)"
    and lit: "assumes_lit iv lit P"
    and collect: "collects es (number_of_arguments A) iv ov q collect"
    and inv: "inner_inv A g iv ov P R0 st" and fuel: "2 ^ number_of_arguments A < fuel"
  shows "rsafe es (rloop fuel (query_inner ips collect lit) st) (inner_result A P R0)"
proof (rule rsafe_rloop[where I = "inner_inv A g iv ov P R0" and \<mu> = "\<lambda>(s, nu, a). card (label_sets iv ov s)"])
  show "inner_inv A g iv ov P R0 st" by (rule inv)
  obtain s nu a where "st = (s, nu, a)" by (cases st)
  then show "(case st of (s, nu, a) \<Rightarrow> card (label_sets iv ov s)) < fuel"
    using label_sets_bound(2)[OF iv ov, of s] fuel by simp
next
  fix st assume I: "inner_inv A g iv ov P R0 st"
  obtain s nu a where st: "st = (s, nu, a)" by (cases st)
  show "rsafe es (query_inner ips collect lit st) (\<lambda>t. case t of
      Continue s' \<Rightarrow> inner_inv A g iv ov P R0 s' \<and> (case s' of (s, nu, a) \<Rightarrow> card (label_sets iv ov s)) <
        (case st of (s, nu, a) \<Rightarrow> card (label_sets iv ov s))
    | Break r \<Rightarrow> inner_result A P R0 r)"
    unfolding st
    by (rule rsafe_weaken[OF query_inner_step[OF wf g ips iv ov dist lit collect I[unfolded st]]])
      (auto split: step.splits prod.splits)
qed

text \<open>The outer loop: the label sets in \<open>\<K>\<close> are below the range of a larger set.\<close>

definition outer_inv :: "AAF \<Rightarrow> Labeling \<Rightarrow> int list \<Rightarrow> int list \<Rightarrow> ipasir \<Rightarrow> bool" where
  "outer_inv A g iv ov s \<longleftrightarrow> (\<exists>\<K>. describes cond A g iv ov (query_req {} \<K>) s \<and> assumed s = [] \<and>
     (\<forall>N\<in>\<K>. \<exists>E. sem (af_of A) E \<and> N \<subset> range_of (af_of A) E))"

definition accepts :: "AAF \<Rightarrow> (nat set \<Rightarrow> bool) \<Rightarrow> RaSet option \<Rightarrow> bool" where
  "accepts A P r = (case r of
     None \<Rightarrow> \<forall>E. max_range (sem (af_of A)) (af_of A) E \<longrightarrow> \<not> P E
   | Some a \<Rightarrow> \<exists>E. raset_is (number_of_arguments A) E a \<and> max_range (sem (af_of A)) (af_of A) E \<and> P E)"

lemma max_range_not_below:
  assumes "max_range (sem F) F E" "sem F E'" "N \<subset> range_of F E'"
  shows "\<not> range_of F E \<subseteq> N"
  using assms unfolding max_range_def by blast

lemma query_outer_step:
  assumes wf: "wf_aaf A" and g: "grounded_labeling A g" and ips: "oracle_ok ips"
    and iv: "vars_ok (number_of_arguments A) iv" and ov: "vars_ok (number_of_arguments A) ov"
    and dist: "distinct (iv @ ov)"
    and lit: "assumes_lit iv lit P"
    and collect: "collects es (number_of_arguments A) iv ov q collect"
    and gen: "generates cond A g iv ov gen"
    and inv: "outer_inv A g iv ov s" and fuel: "2 ^ number_of_arguments A < fuel"
  shows "rsafe es (query_outer fuel ips gen collect iv ov (number_of_arguments A) lit s) (\<lambda>t. case t of
      Continue s' \<Rightarrow> outer_inv A g iv ov s' \<and> card (label_sets iv ov s') < card (label_sets iv ov s)
    | Break r \<Rightarrow> accepts A P r)"
proof -
  let ?n = "number_of_arguments A" and ?F = "af_of A"
  define Q where "Q = (\<lambda>t. case t of Continue s' \<Rightarrow> outer_inv A g iv ov s' \<and>
      card (label_sets iv ov s') < card (label_sets iv ov s) | Break r \<Rightarrow> accepts A P r)"
  obtain \<K> where s: "describes cond A g iv ov (query_req {} \<K>) s" "assumed s = []"
    and K: "\<forall>N\<in>\<K>. \<exists>E. sem ?F E \<and> N \<subset> range_of ?F E" using inv by (auto simp: outer_inv_def)
  have s1: "describes cond A g iv ov (query_req {} \<K>) (sat__assume s lit)" using s(1) by (simp add: describes_def)
  have "rsafe es (query_outer fuel ips gen collect iv ov ?n lit s) Q"
    unfolding query_outer_def
  proof (rule rsafe_rok_rbind, rule solve[OF wf g ips iv ov dist s1, where Q = "\<lambda>I _. P I"], goal_cases)
    case (1 v)
    show ?case by (rule assumes_litD[OF lit s(2)])
  next
    case (3 s')
    have "\<not> P E" if E: "max_range (sem ?F) ?F E" for E
    proof -
      have "query_req {} \<K> E (attacked ?F E)"
        unfolding query_req_def range_of_def[symmetric] using K max_range_not_below[OF E] by blast
      moreover have "sem ?F E" using E by (simp add: max_range_def)
      ultimately show ?thesis using 3(1) by blast
    qed
    then have "accepts A P None" by (simp add: accepts_def)
    then show ?case by (simp add: Q_def)
  next
    case (2 s' v I U)
    let ?R = "labels iv ov v"
    have lab: "label_sets iv ov s' = label_sets iv ov s"
      using describesD(2)[OF 2(8)] describesD(2)[OF s(1)] by (simp add: label_sets_def)
    have fin: "rsafe es (Inr (if found then Break (Some a) else Continue (add_outside iv ov ?n nu s'))) Q"
      if res: "inner_result A P ?R (found, nu, a)" for found nu a
    proof -
      obtain N I where nu: "raset_is ?n N nu" and a: "raset_is ?n I a" and N: "?R \<subseteq> N" and I: "P I"
        and r: "if found then max_range (sem ?F) ?F I else \<exists>E. sem ?F E \<and> N \<subset> range_of ?F E"
        using res unfolding inner_result_def by auto
      show ?thesis
      proof (cases found)
        case True
        with a I r show ?thesis by (auto simp: Q_def accepts_def)
      next
        case False
        note ad = add_outside_adds[OF iv ov describesD(1)[OF 2(8)] nu]
        have "describes cond A g iv ov (query_req {} (insert N \<K>)) (add_outside iv ov ?n nu s')"
          by (rule describes_cong[OF describes_adds[OF 2(8) ad refl]]) (auto simp: query_req_def)
        moreover have "\<forall>N\<in>insert N \<K>. \<exists>E. sem ?F E \<and> N \<subset> range_of ?F E" using r False K by simp
        moreover have "assumed (add_outside iv ov ?n nu s') = []" using addsD(2)[OF ad] 2(9) by simp
        ultimately have "outer_inv A g iv ov (add_outside iv ov ?n nu s')" unfolding outer_inv_def by blast
        moreover have "card (label_sets iv ov (add_outside iv ov ?n nu s')) < card (label_sets iv ov s')"
          by (rule label_sets_less[OF iv ov ad 2(10) _ N])
        ultimately show ?thesis using False by (simp add: Q_def lab)
      qed
    qed
    have inner: "rsafe es (rbind (rloop fuel (query_inner ips collect lit)
          (sat__addClause t (both_lits iv ov ?R ?n) (length (both_lits iv ov ?R ?n)), nu, a))
        (\<lambda>(found, nu, a). Inr (if found then Break (Some a) else Continue (add_outside iv ov ?n nu s')))) Q"
      if nu: "raset_is ?n ?R nu" and a: "raset_is ?n (true_set v iv) a" and t0: "describes cond A g iv ov (\<lambda>_ _. True) t0"
        "assumed t0 = []" and t: "adds t0 t (\<lambda>w. ?R \<subseteq> labels iv ov w)" for t0 t nu a
    proof -
      let ?t = "sat__addClause t (both_lits iv ov ?R ?n) (length (both_lits iv ov ?R ?n))"
      have ad: "adds t ?t (\<lambda>w. \<not> labels iv ov w \<subseteq> ?R)"
        using adds_clause[OF addsD(1)[OF t] both_lits_true(1)[OF iv ov] refl] by (simp only: both_lits_true(2)[OF iv ov])
      have "describes cond A g iv ov (query_req ?R {?R}) ?t"
        by (rule describes_cong[OF describes_adds[OF describes_adds[OF t0(1) t refl] ad refl]])
          (simp add: query_req_def)
      then have "inner_inv A g iv ov P ?R (?t, nu, a)"
        unfolding inner_inv_def prod.case
        using nu a 2(1-4,6) t0(2) addsD(2)[OF t] addsD(2)[OF ad]
        by (intro exI[of _ ?R] exI[of _ I] exI[of _ U] exI[of _ "{?R}"]) (auto simp: current_def)
      note loop = query_inner_loop[OF wf g ips iv ov dist lit collect this fuel]
      show ?thesis by (rule rsafe_bind[OF loop]) (clarify, rule fin)
    qed
    have "rsafe es (rbind (gen (sat__init (2 * ?n))) (\<lambda>(t0, b). rbind (rfold (outer_arg s' iv ov ?n) [0..<?n]
          (raset__init_empty ?n, raset__init_empty ?n, t0, [])) (\<lambda>(nu, a, t, clause).
        rbind (rloop fuel (query_inner ips collect lit) (sat__addClause t clause (length clause), nu, a))
        (\<lambda>(found, nu, a). Inr (if found then Break (Some a) else Continue (add_outside iv ov ?n nu s')))))) Q"
    proof (rule rsafe_rok_bind[OF generatesD[OF gen]], clarify, goal_cases)
      case (1 t0 b)
      show ?case
        by (rule rsafe_rok_bind[OF outer_collect_rok[OF 2(7) iv ov describesD(1)[OF 1(1)]]])
          (clarify, rule inner[OF _ _ 1], assumption+)
    qed
    then show ?case by simp
  qed
  then show ?thesis by (simp only: Q_def)
qed

lemma query_loop:
  assumes wf: "wf_aaf A" and g: "grounded_labeling A g" and ips: "oracle_ok ips"
    and iv: "vars_ok (number_of_arguments A) iv" and ov: "vars_ok (number_of_arguments A) ov"
    and dist: "distinct (iv @ ov)"
    and lit: "assumes_lit iv lit P"
    and collect: "collects es (number_of_arguments A) iv ov q collect"
    and gen: "generates cond A g iv ov gen"
    and s: "describes cond A g iv ov (\<lambda>_ _. True) s" "assumed s = []" and fuel: "2 ^ number_of_arguments A < fuel"
  shows "rsafe es (rloop fuel (query_outer fuel ips gen collect iv ov (number_of_arguments A) lit) s) (accepts A P)"
proof (rule rsafe_rloop[where I = "outer_inv A g iv ov" and \<mu> = "\<lambda>s. card (label_sets iv ov s)"])
  have "describes cond A g iv ov (query_req {} {}) s" using s(1) by (simp add: describes_def query_req_def)
  with s(2) show "outer_inv A g iv ov s" unfolding outer_inv_def by blast
  show "card (label_sets iv ov s) < fuel" using label_sets_bound(2)[OF iv ov, of s] fuel by simp
next
  fix s assume "outer_inv A g iv ov s"
  from query_outer_step[OF wf g ips iv ov dist lit collect gen this fuel]
  show "rsafe es (query_outer fuel ips gen collect iv ov (number_of_arguments A) lit s) (\<lambda>t. case t of
      Continue s' \<Rightarrow> outer_inv A g iv ov s' \<and> card (label_sets iv ov s') < card (label_sets iv ov s)
    | Break r \<Rightarrow> accepts A P r)" .
qed

end

section \<open>Correctness of the acceptance tasks\<close>

text \<open>
  When the grounded extension decides all arguments the labeling is printed after either answer;
  otherwise only a witness follows an answer.
\<close>

definition dc_answer :: "(nat set \<Rightarrow> bool) \<Rightarrow> AAF \<Rightarrow> nat \<Rightarrow> bool \<Rightarrow> bool \<times> string \<Rightarrow> bool" where
  "dc_answer sem A q do_print = (\<lambda>(b, out). b = credulous sem q \<and>
     (if do_print then
        (if b then \<exists>E w. sem E \<and> q \<in> E \<and> prints_ext A E w \<and> out = YES @ w
         else out = NO \<or> (\<exists>w. prints_ext A (grounded_ext (af_of A)) w \<and> out = NO @ w))
      else out = []))"

definition ds_answer :: "(nat set \<Rightarrow> bool) \<Rightarrow> AAF \<Rightarrow> nat \<Rightarrow> bool \<Rightarrow> bool \<times> string \<Rightarrow> bool" where
  "ds_answer sem A q do_print = (\<lambda>(b, out). b = skeptical sem q \<and>
     (if do_print then
        (if b then out = YES \<or> (\<exists>w. prints_ext A (grounded_ext (af_of A)) w \<and> out = YES @ w)
         else \<exists>E w. sem E \<and> q \<notin> E \<and> prints_ext A E w \<and> out = NO @ w)
      else out = []))"

lemma dc_answer_only:
  assumes "\<And>E. sem E \<longleftrightarrow> E = grounded_ext (af_of A)" and "b \<longleftrightarrow> q \<in> grounded_ext (af_of A)"
    and "do_print \<Longrightarrow> prints_ext A (grounded_ext (af_of A)) w"
  shows "dc_answer sem A q do_print (b, if do_print then (if b then YES else NO) @ w else [])"
  using assms by (auto simp: dc_answer_def credulous_def)

lemma ds_answer_only:
  assumes "\<And>E. sem E \<longleftrightarrow> E = grounded_ext (af_of A)" and "b \<longleftrightarrow> q \<in> grounded_ext (af_of A)"
    and "do_print \<Longrightarrow> prints_ext A (grounded_ext (af_of A)) w"
  shows "ds_answer sem A q do_print (b, if do_print then (if b then YES else NO) @ w else [])"
  using assms by (auto simp: ds_answer_def skeptical_def)

lemma dc_answer_loop:
  assumes "rsafe es m (\<lambda>r. case r of None \<Rightarrow> \<forall>E. sem E \<longrightarrow> q \<notin> E
    | Some a \<Rightarrow> \<exists>E. raset_is (number_of_arguments A) E a \<and> sem E \<and> q \<in> E)"
  shows "rsafe es (rbind m (\<lambda>r. case r of None \<Rightarrow> Inr (False, if do_print then NO else [])
      | Some a \<Rightarrow> Inr (True, if do_print then YES @ raset__print_i23 a (ids2arguments A) else [])))
    (dc_answer sem A q do_print)"
proof (rule rsafe_bind[OF assms], goal_cases)
  case (1 r)
  then show ?case
    using raset_is_prints by (cases r; cases do_print) (fastforce simp: dc_answer_def credulous_def)+
qed

lemma ds_answer_loop:
  assumes "rsafe es m (\<lambda>r. case r of None \<Rightarrow> \<forall>E. sem E \<longrightarrow> \<not> q \<notin> E
    | Some a \<Rightarrow> \<exists>E. raset_is (number_of_arguments A) E a \<and> sem E \<and> q \<notin> E)"
  shows "rsafe es (rbind m (\<lambda>r. case r of None \<Rightarrow> Inr (True, if do_print then YES else [])
      | Some a \<Rightarrow> Inr (False, if do_print then NO @ raset__print_i23 a (ids2arguments A) else [])))
    (ds_answer sem A q do_print)"
proof (rule rsafe_bind[OF assms], goal_cases)
  case (1 r)
  then show ?case
    using raset_is_prints by (cases r; cases do_print) (fastforce simp: ds_answer_def skeptical_def)+
qed

lemma lit_in:
  assumes "vars_ok n iv" "q < n"
  shows "assumes_lit iv (iv ! q) (\<lambda>E. q \<in> E)" and "assumes_lit iv (- (iv ! q)) (\<lambda>E. q \<notin> E)"
  using assms by (simp_all add: assumes_lit_def assuming_in assuming_not_in)

lemma collects_sst: "vars_ok n iv \<Longrightarrow> vars_ok n ov \<Longrightarrow> collects {} n iv ov q (sst_collect iv ov n q)"
  by (simp add: collects_def rsafe_total sst_collect_rok)

lemma collects_stg: "vars_ok n iv \<Longrightarrow> vars_ok n ov \<Longrightarrow> collects {SolverState} n iv ov q (stg_collect iv ov n q)"
  by (simp add: collects_def stg_collect_rsafe)

lemma generates_adm:
  "wf_aaf A \<Longrightarrow> alloc_in_out (number_of_arguments A) 1 = (iv, ov, idx) \<Longrightarrow>
   generates adm_cond A g iv ov (\<lambda>s. add_admTestClauses s iv ov A g)"
  unfolding generates_def by (intro allI rok_weaken[OF adm_describes]) auto

lemma generates_cf:
  "wf_aaf A \<Longrightarrow> alloc_in_out (number_of_arguments A) 1 = (iv, ov, idx) \<Longrightarrow>
   generates cf_cond A g iv ov (\<lambda>s. add_cfTestClauses s iv ov A g)"
  unfolding generates_def by (intro allI rok_weaken[OF cf_describes]) auto

lemma semi_stable_max_range:
  assumes wf: "wf_framework F"
  shows "max_range (adm_sem F) F E \<longleftrightarrow> semi_stable F E"
proof
  assume ss: "semi_stable F E"
  then have "adm_sem F E" using semi_stable_grounded[OF ss] by (simp add: adm_sem_def semi_stable_def complete_ext_def)
  with ss show "max_range (adm_sem F) F E"
    unfolding semi_stable_iff_admissible[OF wf] by (auto simp: max_range_def adm_sem_def)
qed (rule max_range_semi_stable[OF wf])

lemma all_decided_only:
  assumes wf: "wf_aaf A" and g: "grounded_labeling A g" and all: "all_decided g (number_of_arguments A)"
  shows "semi_stable (af_of A) E \<longleftrightarrow> E = grounded_ext (af_of A)"
    and "stage (af_of A) E \<longleftrightarrow> E = grounded_ext (af_of A)"
proof -
  let ?F = "af_of A" and ?G = "grounded_ext (af_of A)"
  note wfF = wf_af_of[OF wf]
  note stb = all_decided_stable[OF wf g all]
  have only: "E = ?G" if "admissible ?F E" "?G \<subseteq> E"
    using all_decided_preferred(2)[OF wf g all that(1)] that(2) by blast
  show "semi_stable ?F E \<longleftrightarrow> E = ?G"
  proof
    assume E: "semi_stable ?F E"
    then show "E = ?G" using semi_stable_grounded[OF E] by (intro only) (simp_all add: semi_stable_def complete_ext_def)
  qed (use stable_semi_stable[OF wfF stb] in simp)
  show "stage ?F E \<longleftrightarrow> E = ?G"
  proof
    assume E: "stage ?F E"
    then have "range_of ?F E \<subseteq> range_of ?F ?G"
      using range_of_args[OF wfF, of E] stable_range[OF wfF stb] by (simp add: stage_def conflict_free_def)
    moreover have "conflict_free ?F ?G" using stb by (simp add: stable_def)
    ultimately have "range_of ?F E = args ?F" using E stable_range[OF wfF stb] unfolding stage_def by metis
    then have "stable ?F E" using E unfolding stage_def stable_def range_of_def attacked_def by blast
    then show "E = ?G"
      using stable_preferred[OF wfF] stable_grounded[OF wfF] preferred_admissible by (intro only) blast+
  qed (use stable_stage[OF wfF stb] in simp)
qed

lemma solve_dcsst_rok:
  assumes wf: "wf_aaf A" and g: "grounded_labeling A g" and ips: "oracle_ok ips"
    and names: "names_fit 99 A (grounded_ext (af_of A))" and q: "query task < number_of_arguments A"
    and fuel: "2 ^ number_of_arguments A < fuel"
  shows "rok (solve_dcsst fuel ips task A g do_print) (dc_answer (semi_stable (af_of A)) A (query task) do_print)"
proof -
  let ?n = "number_of_arguments A" and ?q = "query task"
  obtain iv ov idx where al: "alloc_in_out ?n 1 = (iv, ov, idx)" by (cases "alloc_in_out ?n 1") auto
  note a = in_out_alloc(1-3)[OF al]
  show ?thesis
    unfolding solve_dcsst_def al Let_def prod.case
  proof (rule rok_bind[OF adm_describes[OF wf al]], clarify, goal_cases)
    case (1 s b)
    show ?case
    proof (cases "all_decided g ?n")
      case True
      from dc_answer_only[OF all_decided_only(1)[OF wf g True] grounded_labelingD(1)[OF g q], of do_print]
        rok_weaken[OF prints_grounded[OF g names]] True
      show ?thesis by (cases do_print) (auto intro!: rok_rbind)
    next
      case False
      have "rsafe {} (rloop fuel (query_outer fuel ips (\<lambda>s. add_admTestClauses s iv ov A g)
            (sst_collect iv ov ?n ?q) iv ov ?n (iv ! ?q)) s)
          (\<lambda>r. case r of None \<Rightarrow> \<forall>E. semi_stable (af_of A) E \<longrightarrow> ?q \<notin> E
            | Some a \<Rightarrow> \<exists>E. raset_is ?n E a \<and> semi_stable (af_of A) E \<and> ?q \<in> E)"
        using adm.query_loop[OF wf g ips a lit_in(1)[OF a(1) q] collects_sst[OF a(1,2)] generates_adm[OF wf al] 1 fuel]
        unfolding adm.accepts_def[abs_def] semi_stable_max_range[OF wf_af_of[OF wf]] .
      from dc_answer_loop[OF this, of do_print] False show ?thesis by (simp add: rsafe_total)
    qed
  qed
qed

lemma solve_dssst_rok:
  assumes wf: "wf_aaf A" and g: "grounded_labeling A g" and ips: "oracle_ok ips"
    and names: "names_fit 99 A (grounded_ext (af_of A))" and q: "query task < number_of_arguments A"
    and fuel: "2 ^ number_of_arguments A < fuel"
  shows "rok (solve_dssst fuel ips task A g do_print) (ds_answer (semi_stable (af_of A)) A (query task) do_print)"
proof -
  let ?n = "number_of_arguments A" and ?q = "query task"
  obtain iv ov idx where al: "alloc_in_out ?n 1 = (iv, ov, idx)" by (cases "alloc_in_out ?n 1") auto
  note a = in_out_alloc(1-3)[OF al]
  show ?thesis
    unfolding solve_dssst_def al Let_def prod.case
  proof (rule rok_bind[OF adm_describes[OF wf al]], clarify, goal_cases)
    case (1 s b)
    show ?case
    proof (cases "all_decided g ?n")
      case True
      from grounded_labelingD(1)[OF g q] all_decided_only(1)[OF wf g True]
        rok_weaken[OF prints_grounded[OF g names]] True
      show ?thesis by (auto simp: ds_answer_def skeptical_def intro!: rok_rbind elim!: rok_weaken)
    next
      case False
      have "rsafe {} (rloop fuel (query_outer fuel ips (\<lambda>s. add_admTestClauses s iv ov A g)
            (sst_collect iv ov ?n ?q) iv ov ?n (- (iv ! ?q))) s)
          (\<lambda>r. case r of None \<Rightarrow> \<forall>E. semi_stable (af_of A) E \<longrightarrow> \<not> ?q \<notin> E
            | Some a \<Rightarrow> \<exists>E. raset_is ?n E a \<and> semi_stable (af_of A) E \<and> ?q \<notin> E)"
        using adm.query_loop[OF wf g ips a lit_in(2)[OF a(1) q] collects_sst[OF a(1,2)] generates_adm[OF wf al] 1 fuel]
        unfolding adm.accepts_def[abs_def] semi_stable_max_range[OF wf_af_of[OF wf]] .
      from ds_answer_loop[OF this, of do_print] False show ?thesis by (simp add: rsafe_total)
    qed
  qed
qed

lemma solve_dcstg_rok:
  assumes wf: "wf_aaf A" and g: "grounded_labeling A g" and ips: "oracle_ok ips"
    and names: "names_fit 99 A (grounded_ext (af_of A))" and q: "query task < number_of_arguments A"
    and fuel: "2 ^ number_of_arguments A < fuel"
  shows "rsafe {SolverState} (solve_dcstg fuel ips task A g do_print) (dc_answer (stage (af_of A)) A (query task) do_print)"
proof -
  let ?n = "number_of_arguments A" and ?q = "query task"
  obtain iv ov idx where al: "alloc_in_out ?n 1 = (iv, ov, idx)" by (cases "alloc_in_out ?n 1") auto
  note a = in_out_alloc(1-3)[OF al]
  show ?thesis
    unfolding solve_dcstg_def al Let_def prod.case
  proof (rule rsafe_rok_bind[OF cf_describes[OF wf al]], clarify, goal_cases)
    case (1 s b)
    show ?case
    proof (cases "all_decided g ?n")
      case True
      from dc_answer_only[OF all_decided_only(2)[OF wf g True] grounded_labelingD(1)[OF g q], of do_print]
        rok_weaken[OF prints_grounded[OF g names]] True
      show ?thesis by (cases do_print) (auto intro!: rsafe_rok_rbind)
    next
      case False
      have "rsafe {SolverState} (rloop fuel (query_outer fuel ips (\<lambda>s. add_cfTestClauses s iv ov A g)
            (stg_collect iv ov ?n ?q) iv ov ?n (iv ! ?q)) s)
          (\<lambda>r. case r of None \<Rightarrow> \<forall>E. stage (af_of A) E \<longrightarrow> ?q \<notin> E
            | Some a \<Rightarrow> \<exists>E. raset_is ?n E a \<and> stage (af_of A) E \<and> ?q \<in> E)"
        using cf.query_loop[OF wf g ips a lit_in(1)[OF a(1) q] collects_stg[OF a(1,2)] generates_cf[OF wf al] 1 fuel]
        unfolding cf.accepts_def[abs_def] max_range_stage .
      from dc_answer_loop[OF this, of do_print] False show ?thesis by simp
    qed
  qed
qed

lemma solve_dsstg_rok:
  assumes wf: "wf_aaf A" and g: "grounded_labeling A g" and ips: "oracle_ok ips"
    and names: "names_fit 99 A (grounded_ext (af_of A))" and q: "query task < number_of_arguments A"
    and fuel: "2 ^ number_of_arguments A < fuel"
  shows "rsafe {SolverState} (solve_dsstg fuel ips task A g do_print) (ds_answer (stage (af_of A)) A (query task) do_print)"
proof -
  let ?n = "number_of_arguments A" and ?q = "query task"
  obtain iv ov idx where al: "alloc_in_out ?n 1 = (iv, ov, idx)" by (cases "alloc_in_out ?n 1") auto
  note a = in_out_alloc(1-3)[OF al]
  show ?thesis
    unfolding solve_dsstg_def al Let_def prod.case
  proof (rule rsafe_rok_bind[OF cf_describes[OF wf al]], clarify, goal_cases)
    case (1 s b)
    show ?case
    proof (cases "all_decided g ?n")
      case True
      from ds_answer_only[OF all_decided_only(2)[OF wf g True] grounded_labelingD(1)[OF g q], of do_print]
        rok_weaken[OF prints_grounded[OF g names]] True
      show ?thesis by (cases do_print) (auto intro!: rsafe_rok_rbind)
    next
      case False
      have "rsafe {SolverState} (rloop fuel (query_outer fuel ips (\<lambda>s. add_cfTestClauses s iv ov A g)
            (stg_collect iv ov ?n ?q) iv ov ?n (- (iv ! ?q))) s)
          (\<lambda>r. case r of None \<Rightarrow> \<forall>E. stage (af_of A) E \<longrightarrow> \<not> ?q \<notin> E
            | Some a \<Rightarrow> \<exists>E. raset_is ?n E a \<and> stage (af_of A) E \<and> ?q \<notin> E)"
        using cf.query_loop[OF wf g ips a lit_in(2)[OF a(1) q] collects_stg[OF a(1,2)] generates_cf[OF wf al] 1 fuel]
        unfolding cf.accepts_def[abs_def] max_range_stage .
      from ds_answer_loop[OF this, of do_print] False show ?thesis by simp
    qed
  qed
qed

end
