(* ===== verification/EnumAccept.thy ===== *)
theory EnumAccept
  imports Skeptical Ideal
begin

text \<open>
  tasks/task_ea-pr.cpp: all skeptically accepted arguments with respect to preferred semantics.  The
  preferred super-core and the ideal extension are computed as for SE-ID; the remaining candidates
  are the arguments of the core in some admissible set, and each of them is tested by the loop of
  DS-PR, restricted to the sets that contain what is already accepted.
\<close>

section \<open>The solve function\<close>

definition eapr_core ::
    "nat \<Rightarrow> sat_oracle \<Rightarrow> int list \<Rightarrow> int list \<Rightarrow> AAF \<Rightarrow> Labeling \<Rightarrow> (RaSet \<times> bool) result" where
  "eapr_core fuel ips in_vars out_vars aaf grounded =
     rbind (add_admTestClauses (sat__init (2 * number_of_arguments aaf)) in_vars out_vars aaf grounded)
       (\<lambda>(solver_admTest_outer, _).
     rloop fuel (psc_loop ips in_vars aaf) (solver_admTest_outer, psc_init aaf grounded, True))"

definition add_grounded :: "AAF \<Rightarrow> Labeling \<Rightarrow> RaSet \<Rightarrow> RaSet" where
  "add_grounded aaf grounded =
     fold (\<lambda>i psc. if bit_at (lab_in grounded) i then snd (raset__add psc i) else psc) [0..<number_of_arguments aaf]"

definition eapr_ideal :: "nat \<Rightarrow> AAF \<Rightarrow> RaSet \<Rightarrow> RaSet result" where
  "eapr_ideal fuel aaf psc = rloop fuel (prune_round fuel aaf) (psc_unattacked aaf psc)"

text \<open>The core arguments that are not accepted and not yet known to be in an admissible set.\<close>

definition spsc_clause :: "int list \<Rightarrow> RaSet \<Rightarrow> RaSet \<Rightarrow> RaSet \<Rightarrow> ipasir \<Rightarrow> ipasir \<times> bool" where
  "spsc_clause in_vars psc acc spsc solver =
     fold (\<lambda>i (solver, emptyclause).
         if \<not> raset__contains acc (elements_arr psc ! i) \<and> \<not> raset__contains spsc (elements_arr psc ! i)
         then (sat__add solver (in_vars ! (elements_arr psc ! i)), False) else (solver, emptyclause))
       [0..<number_of_elements psc] (solver, True)"

definition spsc_collect :: "int list \<Rightarrow> nat \<Rightarrow> Labeling \<Rightarrow> RaSet \<Rightarrow> RaSet \<Rightarrow> ipasir \<Rightarrow> RaSet \<Rightarrow> RaSet result" where
  "spsc_collect in_vars n grounded psc acc solver =
     rfold (\<lambda>i spsc. if bit_at (lab_in grounded) i \<or> bit_at (lab_out grounded) i then Inr spsc
         else rbind (sat__get solver (in_vars ! i)) (\<lambda>x.
           Inr (if x > 0 \<and> raset__contains psc i \<and> \<not> raset__contains acc i
                then snd (raset__add spsc i) else spsc))) [0..<n]"

definition spsc_loop ::
    "sat_oracle \<Rightarrow> int list \<Rightarrow> nat \<Rightarrow> Labeling \<Rightarrow> RaSet \<Rightarrow> RaSet \<Rightarrow> ipasir \<times> RaSet \<Rightarrow> (ipasir \<times> RaSet, RaSet) step result"
  where
  "spsc_loop ips in_vars n grounded psc acc = (\<lambda>(solver, spsc).
     let (solver, emptyclause) = spsc_clause in_vars psc acc spsc solver
     in if emptyclause then Inr (Break spsc)
        else rbind (sat__solve ips (sat__add solver 0)) (\<lambda>(sat, solver).
          if sat = 20 then Inr (Break spsc)
          else rbind (spsc_collect in_vars n grounded psc acc solver spsc) (\<lambda>spsc.
            Inr (Continue (solver, spsc)))))"

definition eapr_spsc ::
    "nat \<Rightarrow> sat_oracle \<Rightarrow> int list \<Rightarrow> int list \<Rightarrow> AAF \<Rightarrow> Labeling \<Rightarrow> RaSet \<Rightarrow> RaSet \<Rightarrow> RaSet result" where
  "eapr_spsc fuel ips in_vars out_vars aaf grounded psc acc =
     rbind (add_admTestClauses (sat__init (2 * number_of_arguments aaf)) in_vars out_vars aaf grounded)
       (\<lambda>(solver_admTest2, _).
     rloop fuel (spsc_loop ips in_vars (number_of_arguments aaf) grounded psc acc)
       (solver_admTest2, raset__init_empty (number_of_arguments aaf)))"

definition add_accepted :: "int list \<Rightarrow> int list \<Rightarrow> RaSet \<Rightarrow> ipasir \<times> ipasir \<Rightarrow> ipasir \<times> ipasir" where
  "add_accepted in_vars in_attacked_vars acc =
     fold (\<lambda>j (solver_admTest, solver_attAdmTest).
         (sat__addClause1 solver_admTest (in_vars ! (elements_arr acc ! j)),
          sat__addClause1 (sat__addClause1 solver_attAdmTest (in_vars ! (elements_arr acc ! j)))
            (in_attacked_vars ! (elements_arr acc ! j))))
       [0..<number_of_elements acc]"

definition eapr_loop ::
    "sat_oracle \<Rightarrow> int list \<Rightarrow> int list \<Rightarrow> nat \<Rightarrow> nat \<Rightarrow> ipasir \<times> ipasir \<Rightarrow> (ipasir \<times> ipasir, bool) step result" where
  "eapr_loop ips in_vars in_attacked_vars n a = (\<lambda>(solver_admTest, solver_attAdmTest).
     rbind (sat__solve ips (sat__assume solver_attAdmTest (in_attacked_vars ! a))) (\<lambda>(sat, solver_attAdmTest).
     if sat = 20 then Inr (Break True)
     else
       rbind (assume_true_vars solver_attAdmTest (sat__assume solver_admTest (in_vars ! a)) in_vars n)
         (\<lambda>solver_admTest.
       rbind (sat__solve ips solver_admTest) (\<lambda>(sat, solver_admTest).
       if sat = 20 then Inr (Break False)
       else rbind (add_false_vars solver_admTest solver_attAdmTest in_vars n) (\<lambda>solver_attAdmTest.
            Inr (Continue (solver_admTest, solver_attAdmTest)))))))"

definition eapr_test ::
    "nat \<Rightarrow> sat_oracle \<Rightarrow> int list \<Rightarrow> int list \<Rightarrow> int list \<Rightarrow> int list \<Rightarrow> AAF \<Rightarrow> Labeling \<Rightarrow> nat \<Rightarrow> RaSet \<Rightarrow> RaSet result"
  where
  "eapr_test fuel ips in_vars out_vars in_attacked_vars out_attacked_vars aaf grounded a acc =
     (let n = number_of_arguments aaf;
          solver_admTest = sat__init (2 * n);
          solver_attAdmTest = sat__init (4 * n + number_of_attacks aaf)
      in rbind (add_admTestClauses solver_admTest in_vars out_vars aaf grounded) (\<lambda>(solver_admTest, _).
         rbind (add_admTestClauses solver_attAdmTest in_vars out_vars aaf grounded) (\<lambda>(solver_attAdmTest, _).
         rbind (add_admTestClauses solver_attAdmTest in_attacked_vars out_attacked_vars aaf grounded)
           (\<lambda>(solver_attAdmTest, _).
         rbind (add_attackClauses solver_attAdmTest in_vars in_attacked_vars (4 * int n + 1) aaf)
           (\<lambda>solver_attAdmTest.
         rbind (rloop fuel (eapr_loop ips in_vars in_attacked_vars n a)
                  (add_accepted in_vars in_attacked_vars acc (solver_admTest, solver_attAdmTest)))
           (\<lambda>accepted. Inr (if accepted then snd (raset__add acc a) else acc)))))))"

definition solve_eapr ::
    "nat \<Rightarrow> sat_oracle \<Rightarrow> TaskSpecification \<Rightarrow> AAF \<Rightarrow> Labeling \<Rightarrow> string result" where
  "solve_eapr fuel ips task aaf grounded =
     (let n = number_of_arguments aaf;
          (in_vars, out_vars, idx) = alloc_in_out n 1;
          (in_attacked_vars, out_attacked_vars, idx) = alloc_in_out n idx
      in rbind (eapr_core fuel ips in_vars out_vars aaf grounded) (\<lambda>(psc, onerunonly).
         if onerunonly then rbind (taas__lab_print grounded aaf) (\<lambda>out. Inr (out @ newline))
         else
           let psc = add_grounded aaf grounded psc
           in if number_of_elements psc = 0 then Inr (raset__print psc (ids2arguments aaf))
              else
                rbind (eapr_ideal fuel aaf psc) (\<lambda>acc.
                rbind (eapr_spsc fuel ips in_vars out_vars aaf grounded psc acc) (\<lambda>spsc.
                rbind (rfold (\<lambda>i. eapr_test fuel ips in_vars out_vars in_attacked_vars out_attacked_vars aaf grounded
                                   (elements_arr spsc ! i)) [0..<number_of_elements spsc] acc) (\<lambda>acc.
                Inr (raset__print acc (ids2arguments aaf)))))))"

section \<open>Core, ideal extension and accepted arguments\<close>

abbreviation accepted_args :: "framework \<Rightarrow> nat set" where
  "accepted_args F \<equiv> {a. skeptical (preferred F) a}"

lemma accepted_core:
  assumes wf: "wf_framework F"
  shows "accepted_args F \<subseteq> unattacked_core F"
proof clarify
  fix a assume a: "skeptical (preferred F) a"
  have "a \<notin> attacked F E" if adm: "admissible F E" for E
  proof -
    obtain P where P: "preferred F P" "E \<subseteq> P" using preferred_above[OF wf adm] by blast
    then show ?thesis
      using a admissible_cf[OF preferred_admissible[OF P(1)]] unfolding skeptical_def attacked_def by blast
  qed
  moreover have "a \<in> args F"
    using preferred_exists[OF wf] a admissible_subset preferred_admissible unfolding skeptical_def by blast
  ultimately show "a \<in> unattacked_core F" by (simp add: unattacked_core_def)
qed

lemma ideal_accepted: "ideal_ext F E \<Longrightarrow> E \<subseteq> accepted_args F"
  by (auto simp: ideal_ext_def ideal_set_def skeptical_def)

lemma grounded_core: "wf_framework F \<Longrightarrow> grounded_ext F \<subseteq> unattacked_core F"
  using ideal_set_iff[of F "grounded_ext F"] grounded_ideal[of F] by blast

lemma grounded_in_ideal: "ideal_ext F E \<Longrightarrow> grounded_ext F \<subseteq> E"
  using grounded_ideal by (simp add: ideal_ext_def)

lemma core_all_accepted:
  assumes wf: "wf_framework F" and core: "unattacked_core F = args F - attacked F (grounded_ext F)"
  shows "accepted_args F = grounded_ext F"
proof
  obtain P where P: "preferred F P" using preferred_exists[OF wf] by blast
  have "P \<subseteq> grounded_ext F" by (rule core_all_admissible[OF wf core preferred_admissible[OF P]])
  then show "accepted_args F \<subseteq> grounded_ext F" using P by (auto simp: skeptical_def)
  show "grounded_ext F \<subseteq> accepted_args F" using grounded_preferred by (auto simp: skeptical_def)
qed

lemma add_grounded_is:
  assumes wf: "wf_aaf A" and g: "grounded_labeling A g"
    and psc: "raset_is (number_of_arguments A) (unattacked_core (af_of A)) psc"
  shows "raset_is (number_of_arguments A) (unattacked_core (af_of A)) (add_grounded A g psc)"
proof -
  let ?n = "number_of_arguments A"
  have "raset_is ?n (unattacked_core (af_of A) \<union> {i \<in> set [0..<?n]. bit_at (lab_in g) i}) (add_grounded A g psc)"
    using rs.fold_add_if[of psc "[0..<?n]" "\<lambda>i. bit_at (lab_in g) i"] psc
    by (simp add: add_grounded_def raset_is_def)
  moreover have "{i \<in> set [0..<?n]. bit_at (lab_in g) i} \<subseteq> unattacked_core (af_of A)"
    using grounded_core[OF wf_af_of[OF wf]] grounded_labelingD(1)[OF g] by auto
  ultimately show ?thesis by (simp add: Un_absorb2)
qed

lemma eapr_core_rok:
  assumes wf: "wf_aaf A" and g: "grounded_labeling A g" and ips: "oracle_ok ips"
    and al: "alloc_in_out (number_of_arguments A) 1 = (iv, ov, idx)" and fuel: "number_of_arguments A < fuel"
  shows "rok (eapr_core fuel ips iv ov A g) (psc_result A)"
  unfolding eapr_core_def
  by (rule rok_bind[OF adm_models[OF wf g al]])
    (auto intro: psc_loop_rok[OF wf g ips in_out_alloc(1)[OF al] _ _ fuel])

lemma eapr_ideal_rok:
  assumes wf: "wf_aaf A" and psc: "raset_is (number_of_arguments A) (unattacked_core (af_of A)) psc"
    and fuel: "number_of_arguments A < fuel"
  shows "rok (eapr_ideal fuel A psc) (\<lambda>r. \<exists>E. raset_is (number_of_arguments A) E r \<and> ideal_ext (af_of A) E)"
proof -
  from psc_unattacked_is[OF wf psc] obtain E where
    "raset_is (number_of_arguments A) E (psc_unattacked A psc)" "candidate (af_of A) E" by blast
  from prune_rok[OF wf this fuel] show ?thesis by (simp add: eapr_ideal_def)
qed

section \<open>The strong super-core\<close>

lemma spsc_clause_adds:
  assumes iv: "vars_ok n iv" and s: "ready s" and psc: "raset_is n C psc" and acc: "raset_is n D acc"
    and sp: "raset_is n S spsc"
  shows "case spsc_clause iv psc acc spsc s of (s', e) \<Rightarrow>
    adds s (sat__add s' 0) (\<lambda>v. true_set v iv \<inter> (C - D - S) \<noteq> {}) \<and> (e \<longleftrightarrow> C - D - S = {})"
proof -
  let ?P = "\<lambda>c. \<not> raset__contains acc c \<and> \<not> raset__contains spsc c"
  have C: "C \<subseteq> {..<n}" by (rule raset_is_subset[OF psc])
  have P: "?P c \<longleftrightarrow> c \<in> C - D - S" if "c \<in> C" for c
    using that C raset_is_contains[OF acc, of c] raset_is_contains[OF sp, of c] by auto
  have "fold (\<lambda>c (s, e). if ?P c then (sat__add s (iv ! c), False) else (s, e)) cs (s, e) =
      (fold (\<lambda>c s. if ?P c then sat__add s (iv ! c) else s) cs s, e \<and> filter ?P cs = [])" for cs s e
    by (induction cs arbitrary: s e) auto
  then have eq: "spsc_clause iv psc acc spsc s =
      (fold (\<lambda>c s. if ?P c then sat__add s (iv ! c) else s) (raset_list psc) s, filter ?P (raset_list psc) = [])"
    using fold_elements[OF raset_isD(1)[OF psc], of "\<lambda>c (s, e). if ?P c then (sat__add s (iv ! c), False) else (s, e)"]
    by (simp add: spsc_clause_def)
  have "\<forall>x\<in>set (raset_list psc). ?P x \<longrightarrow> iv ! x \<noteq> 0" using iv C raset_is_list[OF psc] by auto
  from adds_lits[OF s this]
  have "adds s (sat__add (fold (\<lambda>c s. if ?P c then sat__add s (iv ! c) else s) (raset_list psc) s) 0)
      (\<lambda>v. true_set v iv \<inter> (C - D - S) \<noteq> {})"
  proof (rule adds_cong)
    fix v
    have "(\<exists>x\<in>C. ?P x \<and> lit_true v (iv ! x)) \<longleftrightarrow> (\<exists>x\<in>C. x \<in> C - D - S \<and> x \<in> true_set v iv)"
      using P C true_set_iff[OF iv] by blast
    then show "(\<exists>x\<in>set (raset_list psc). ?P x \<and> lit_true v (iv ! x)) \<longleftrightarrow> true_set v iv \<inter> (C - D - S) \<noteq> {}"
      unfolding raset_is_list[OF psc] by blast
  qed
  moreover have "filter ?P (raset_list psc) = [] \<longleftrightarrow> C - D - S = {}"
    unfolding filter_empty_conv raset_is_list[OF psc] using P by blast
  ultimately show ?thesis unfolding eq by simp
qed

lemma spsc_collect_rok:
  assumes g: "grounded_labeling A g" and m: "model_is s v" and iv: "vars_ok (number_of_arguments A) iv"
    and psc: "raset_is (number_of_arguments A) C psc" and acc: "raset_is (number_of_arguments A) D acc"
    and sp: "raset_is (number_of_arguments A) S spsc"
    and und: "C - D \<subseteq> {i. i < number_of_arguments A \<and> \<not> bit_at (lab_in g) i \<and> \<not> bit_at (lab_out g) i}"
  shows "rok (spsc_collect iv (number_of_arguments A) g psc acc s spsc)
    (raset_is (number_of_arguments A) (S \<union> (true_set v iv \<inter> (C - D))))"
proof -
  let ?n = "number_of_arguments A"
  let ?N = "\<lambda>k. {i \<in> true_set v iv \<inter> (C - D). i < k}"
  have "rok (spsc_collect iv ?n g psc acc s spsc) (raset_is ?n (S \<union> ?N ?n))"
    unfolding spsc_collect_def
  proof (rule rok_for[where I = "\<lambda>k. raset_is ?n (S \<union> ?N k)"])
    fix i r assume i: "i < ?n" and r: "raset_is ?n (S \<union> ?N i) r"
    have step: "?N (Suc i) = (if i \<in> true_set v iv \<inter> (C - D) then insert i (?N i) else ?N i)"
      by (auto simp: less_Suc_eq)
    show "rok (if bit_at (lab_in g) i \<or> bit_at (lab_out g) i then Inr r
        else rbind (sat__get s (iv ! i)) (\<lambda>x. Inr (if x > 0 \<and> raset__contains psc i \<and> \<not> raset__contains acc i
          then snd (raset__add r i) else r))) (raset_is ?n (S \<union> ?N (Suc i)))"
    proof (cases "i \<in> true_set v iv \<inter> (C - D)")
      case True
      then have "\<not> bit_at (lab_in g) i" "\<not> bit_at (lab_out g) i" using und by auto
      then show ?thesis
        unfolding step using True raset_is_add[OF r i] vars_pos[OF iv i]
        by (simp add: sat__get_model[OF m] true_set_iff[OF iv i] raset_is_contains[OF psc i] raset_is_contains[OF acc i])
    next
      case False
      then show ?thesis
        unfolding step using r vars_pos[OF iv i]
        by (auto simp: sat__get_model[OF m] true_set_iff[OF iv i] raset_is_contains[OF psc i] raset_is_contains[OF acc i])
    qed
  qed (use sp in simp)
  moreover have "?N ?n = true_set v iv \<inter> (C - D)" using true_set_bound[OF iv] by auto
  ultimately show ?thesis by simp
qed

definition spsc_inv :: "AAF \<Rightarrow> int list \<Rightarrow> nat set \<Rightarrow> ipasir \<times> RaSet \<Rightarrow> bool" where
  "spsc_inv A iv M = (\<lambda>(s, spsc). \<exists>S R. raset_is (number_of_arguments A) S spsc \<and> assumed s = [] \<and>
     S \<subseteq> {a \<in> M. \<exists>E. adm_sem (af_of A) E \<and> a \<in> E} \<and> models s iv {E. adm_sem (af_of A) E \<and> R E} \<and>
     (\<forall>E. adm_sem (af_of A) E \<longrightarrow> E \<inter> (M - S) \<noteq> {} \<longrightarrow> R E))"

lemma spsc_step:
  assumes g: "grounded_labeling A g" and ips: "oracle_ok ips" and iv: "vars_ok (number_of_arguments A) iv"
    and psc: "raset_is (number_of_arguments A) C psc" and acc: "raset_is (number_of_arguments A) D acc"
    and und: "C - D \<subseteq> {i. i < number_of_arguments A \<and> \<not> bit_at (lab_in g) i \<and> \<not> bit_at (lab_out g) i}"
    and inv: "spsc_inv A iv (C - D) (s, spsc)"
  shows "rok (spsc_loop ips iv (number_of_arguments A) g psc acc (s, spsc)) (\<lambda>t. case t of
      Continue (s', spsc') \<Rightarrow> spsc_inv A iv (C - D) (s', spsc') \<and>
        card (C - D - raset_set spsc') < card (C - D - raset_set spsc)
    | Break r \<Rightarrow> raset_is (number_of_arguments A) {a \<in> C - D. \<exists>E. adm_sem (af_of A) E \<and> a \<in> E} r)"
proof -
  let ?n = "number_of_arguments A" and ?F = "af_of A"
  obtain S R where sp: "raset_is ?n S spsc" and as: "assumed s = []"
    and S: "S \<subseteq> {a \<in> C - D. \<exists>E. adm_sem ?F E \<and> a \<in> E}" and s: "models s iv {E. adm_sem ?F E \<and> R E}"
    and R: "\<And>E. adm_sem ?F E \<Longrightarrow> E \<inter> (C - D - S) \<noteq> {} \<Longrightarrow> R E" using inv unfolding spsc_inv_def by auto
  define Q where "Q = (\<lambda>t. case t of Continue (s', spsc') \<Rightarrow> spsc_inv A iv (C - D) (s', spsc') \<and>
        card (C - D - raset_set spsc') < card (C - D - raset_set spsc)
    | Break r \<Rightarrow> raset_is ?n {a \<in> C - D. \<exists>E. adm_sem ?F E \<and> a \<in> E} r)"
  obtain s1 e where cl: "spsc_clause iv psc acc spsc s = (s1, e)" by (cases "spsc_clause iv psc acc spsc s")
  have ad: "adds s (sat__add s1 0) (\<lambda>v. true_set v iv \<inter> (C - D - S) \<noteq> {})" and e: "e \<longleftrightarrow> C - D - S = {}"
    using spsc_clause_adds[OF iv models_ready[OF s] psc acc sp] by (simp_all add: cl)
  have stop: "Q (Break spsc)" if no: "\<And>E. adm_sem ?F E \<Longrightarrow> E \<inter> (C - D - S) = {}"
  proof -
    have "S = {a \<in> C - D. \<exists>E. adm_sem ?F E \<and> a \<in> E}" using S no by blast
    with sp show ?thesis by (simp add: Q_def)
  qed
  let ?X = "{E \<in> {E. adm_sem ?F E \<and> R E}. E \<inter> (C - D - S) \<noteq> {}}"
  have m: "models (sat__add s1 0) iv ?X" by (rule models_adds[OF s ad]) simp
  have as1: "assumed (sat__add s1 0) = []" using addsD(2)[OF ad] as by simp
  have solve: "rok (rbind (sat__solve ips (sat__add s1 0)) (\<lambda>(sat, s'). if sat = 20 then Inr (Break spsc)
      else rbind (spsc_collect iv ?n g psc acc s' spsc) (\<lambda>spsc. Inr (Continue (s', spsc))))) Q"
  proof (rule rok_rbind, rule solve_models[OF ips m, where Q = "\<lambda>_. True"], goal_cases)
    case (2 s' v)
    let ?I = "true_set v iv" and ?S = "S \<union> (true_set v iv \<inter> (C - D))"
    have I: "adm_sem ?F ?I" "?I \<inter> (C - D - S) \<noteq> {}" using 2(1) by simp_all
    obtain r where col: "spsc_collect iv ?n g psc acc s' spsc = Inr r" and r: "raset_is ?n ?S r"
      using spsc_collect_rok[OF g 2(3) iv psc acc sp und] by (auto elim: rokE)
    have "?S \<subseteq> {a \<in> C - D. \<exists>E. adm_sem ?F E \<and> a \<in> E}" using S I(1) by blast
    moreover have "models s' iv {E. adm_sem ?F E \<and> R E \<and> E \<inter> (C - D - S) \<noteq> {}}"
      using 2(4) by (rule models_cong) blast
    moreover have "\<forall>E. adm_sem ?F E \<longrightarrow> E \<inter> (C - D - ?S) \<noteq> {} \<longrightarrow> R E \<and> E \<inter> (C - D - S) \<noteq> {}"
      using R by blast
    ultimately have "spsc_inv A iv (C - D) (s', r)"
      unfolding spsc_inv_def prod.case using r 2(5)
      by (intro exI[of _ ?S] exI[of _ "\<lambda>E. R E \<and> E \<inter> (C - D - S) \<noteq> {}"]) simp
    moreover have "card (C - D - ?S) < card (C - D - S)"
      using I(2) finite_subset[OF raset_is_subset[OF psc]] by (intro psubset_card_mono) auto
    ultimately show ?case using raset_isD(3)[OF r] raset_isD(3)[OF sp] by (simp add: col Q_def)
  next
    case (3 s')
    have "E \<inter> (C - D - S) = {}" if "adm_sem ?F E" for E using 3(1)[of E] R[OF that] that by blast
    with stop show ?case by simp
  qed (simp only: assuming_none[OF as1])
  have "rok (spsc_loop ips iv ?n g psc acc (s, spsc)) Q"
  proof (cases e)
    case True
    then have "C - D - S = {}" using e by simp
    then have "Q (Break spsc)" by (intro stop) (simp only: Int_empty_right)
    with True show ?thesis by (simp add: spsc_loop_def cl)
  next
    case False
    with solve show ?thesis by (simp add: spsc_loop_def cl)
  qed
  then show ?thesis by (simp only: Q_def)
qed

lemma eapr_spsc_rok:
  assumes wf: "wf_aaf A" and g: "grounded_labeling A g" and ips: "oracle_ok ips"
    and al: "alloc_in_out (number_of_arguments A) 1 = (iv, ov, idx)" and fuel: "number_of_arguments A < fuel"
    and psc: "raset_is (number_of_arguments A) (unattacked_core (af_of A)) psc"
    and acc: "raset_is (number_of_arguments A) D acc" and D: "ideal_ext (af_of A) D"
  shows "rok (eapr_spsc fuel ips iv ov A g psc acc) (raset_is (number_of_arguments A)
    {a \<in> unattacked_core (af_of A) - D. \<exists>E. adm_sem (af_of A) E \<and> a \<in> E})"
  unfolding eapr_spsc_def
proof (rule rok_bind[OF adm_models[OF wf g al]], clarify, goal_cases)
  case (1 s b)
  let ?n = "number_of_arguments A" and ?C = "unattacked_core (af_of A)"
  note iv = in_out_alloc(1)[OF al]
  have und: "?C - D \<subseteq> {i. i < ?n \<and> \<not> bit_at (lab_in g) i \<and> \<not> bit_at (lab_out g) i}"
  proof clarify
    fix i assume i: "i \<in> ?C" "i \<notin> D"
    then have n: "i < ?n" using raset_is_subset[OF psc] by auto
    have "i \<notin> attacked (af_of A) (grounded_ext (af_of A))"
      using i(1) grounded_admissible by (auto simp: unattacked_core_def)
    with i n grounded_in_ideal[OF D] grounded_labelingD(1,2)[OF g n]
    show "i < ?n \<and> \<not> bit_at (lab_in g) i \<and> \<not> bit_at (lab_out g) i" by blast
  qed
  show ?case
  proof (rule rok_rloop[where I = "spsc_inv A iv (?C - D)" and \<mu> = "\<lambda>(s, r). card (?C - D - raset_set r)"])
    show "spsc_inv A iv (?C - D) (s, raset__init_empty ?n)"
      unfolding spsc_inv_def using 1 raset_is_init by (auto intro!: exI[of _ "{}"] exI[of _ "\<lambda>_. True"])
    have "card (?C - D) \<le> ?n"
      using card_mono[OF _ order_trans[OF Diff_subset raset_is_subset[OF psc]], of D] by simp
    then show "(case (s, raset__init_empty ?n) of (s, r) \<Rightarrow> card (?C - D - raset_set r)) < fuel" using fuel by simp
  next
    fix st assume inv: "spsc_inv A iv (?C - D) st"
    obtain s r where st: "st = (s, r)" by (cases st)
    show "rok (spsc_loop ips iv ?n g psc acc st) (\<lambda>t. case t of
        Continue s' \<Rightarrow> spsc_inv A iv (?C - D) s' \<and> (case s' of (s, r) \<Rightarrow> card (?C - D - raset_set r)) <
          (case st of (s, r) \<Rightarrow> card (?C - D - raset_set r))
      | Break r \<Rightarrow> raset_is ?n {a \<in> ?C - D. \<exists>E. adm_sem (af_of A) E \<and> a \<in> E} r)"
      unfolding st
      by (rule rok_weaken[OF spsc_step[OF g ips iv psc acc und inv[unfolded st]]]) (auto split: step.splits prod.splits)
  qed
qed

section \<open>Testing an argument\<close>

text \<open>
  The query literal of the attacked set is assumed in every round; the invariant speaks of the
  solver with that literal added as a clause.
\<close>

lemma adds_under:
  "adds s s' D \<Longrightarrow> ready s \<Longrightarrow> l \<noteq> 0 \<Longrightarrow> adds (sat__addClause1 s l) (sat__addClause1 s' l) D"
  by (auto simp: adds_def)

lemma solve_under:
  assumes ips: "oracle_ok ips" and t: "ready t" "assumed t = []" and l: "l \<noteq> 0"
    and m: "models (sat__addClause1 t l) iv X"
    and sat: "\<And>t' v. true_set v iv \<in> X \<Longrightarrow> model_is t' v \<Longrightarrow> models (sat__addClause1 t' l) iv X \<Longrightarrow>
      ready t' \<Longrightarrow> assumed t' = [] \<Longrightarrow> P (10, t')"
    and unsat: "\<And>t'. X = {} \<Longrightarrow> P (20, t')"
  shows "rok (sat__solve ips (sat__assume t l)) P"
proof (rule rok_solve[OF ips])
  show "ready (sat__assume t l)" using t(1) by simp
next
  fix t' v
  assume h: "holds v (sat__assume t l)" "assuming v (sat__assume t l)" and r: "ready t'" "assumed t' = []"
    and c: "clauses t' = clauses (sat__assume t l)" and mo: "model_is t' v"
  have "holds v (sat__addClause1 t l)" using h t l by (simp add: assuming_def)
  then have "true_set v iv \<in> X" using m by (simp add: models_def)
  moreover have "holds w (sat__addClause1 t' l) \<longleftrightarrow> holds w (sat__addClause1 t l)" for w
    using holds_clauses[OF c, of w] t(1) r(1) l by simp
  then have "models (sat__addClause1 t' l) iv X" using m r(1) by (simp add: models_def)
  ultimately show "P (10, t')" using mo r by (intro sat)
next
  fix t' assume "\<And>v. holds v (sat__assume t l) \<Longrightarrow> \<not> assuming v (sat__assume t l)"
  then have "\<not> holds v (sat__addClause1 t l)" for v using t l by (simp add: assuming_def)
  then have "X = {}" using m by (auto simp: models_def)
  then show "P (20, t')" by (rule unsat)
qed

lemma no_attackers_accepted:
  assumes wf: "wf_framework F" and C: "C \<subseteq> accepted_args F" and S: "adm_sem F S" "a \<in> S"
    and no: "\<And>E. E \<in> attackers_with F (\<lambda>T. C \<subseteq> T \<and> a \<in> T) \<Longrightarrow> C \<subseteq> E \<Longrightarrow> \<exists>I. adm_sem F I \<and> a \<in> I \<and> E \<subseteq> I"
  shows "skeptical (preferred F) a"
  unfolding skeptical_def
proof (intro allI impI, rule ccontr)
  fix P assume P: "preferred F P" and a: "a \<notin> P"
  have "admissible F S" using S(1) by (simp add: adm_sem_def)
  then obtain T where T: "preferred F T" "S \<subseteq> T" using preferred_above[OF wf] by blast
  have CP: "C \<subseteq> P'" if "preferred F P'" for P' using C that by (auto simp: skeptical_def)
  have "P \<in> attackers_with F (\<lambda>T. C \<subseteq> T \<and> a \<in> T)"
    using preferred_without_attacks[OF P preferred_admissible[OF T(1)] _ a] S(2) T(2) CP[OF T(1)]
      preferred_adm_sem[OF P] preferred_adm_sem[OF T(1)] unfolding attackers_with_def by blast
  then obtain I where "adm_sem F I" "a \<in> I" "P \<subseteq> I" using no CP[OF P] by blast
  then show False using P a unfolding preferred_def adm_sem_def by blast
qed

definition eapr_inv :: "framework \<Rightarrow> int list \<Rightarrow> int \<Rightarrow> nat set \<Rightarrow> nat \<Rightarrow> ipasir \<times> ipasir \<Rightarrow> bool" where
  "eapr_inv F iv l C a = (\<lambda>(s, t). models s iv {E. adm_sem F E \<and> C \<subseteq> E} \<and> assumed s = [] \<and> ready t \<and>
     assumed t = [] \<and> (\<exists>\<B>. models (sat__addClause1 t l) iv
       {E \<in> attackers_with F (\<lambda>T. C \<subseteq> T \<and> a \<in> T). C \<subseteq> E \<and> (\<forall>I\<in>\<B>. \<not> E \<subseteq> I)} \<and>
       (\<forall>I\<in>\<B>. adm_sem F I \<and> a \<in> I)))"

lemma eapr_step:
  assumes wf: "wf_framework F" and ips: "oracle_ok ips" and iv: "vars_ok n iv" and a: "a < n" and l: "iav ! a \<noteq> 0"
    and C: "C \<subseteq> accepted_args F" and S: "adm_sem F S" "a \<in> S"
    and fin: "finite (attackers_with F (\<lambda>T. C \<subseteq> T \<and> a \<in> T))"
    and inv: "eapr_inv F iv (iav ! a) C a (s, t)"
  shows "rok (eapr_loop ips iv iav n a (s, t)) (\<lambda>x. case x of
      Continue (s', t') \<Rightarrow> eapr_inv F iv (iav ! a) C a (s', t') \<and>
        card {true_set v iv |v. holds v (sat__addClause1 t' (iav ! a))} <
        card {true_set v iv |v. holds v (sat__addClause1 t (iav ! a))}
    | Break b \<Rightarrow> b = skeptical (preferred F) a)"
proof -
  let ?l = "iav ! a" and ?A = "attackers_with F (\<lambda>T. C \<subseteq> T \<and> a \<in> T)"
  let ?\<mu> = "\<lambda>t. card {true_set v iv |v. holds v (sat__addClause1 t (iav ! a))}"
  obtain \<B> where s: "models s iv {E. adm_sem F E \<and> C \<subseteq> E}" "assumed s = []" and t: "ready t" "assumed t = []"
    and tm: "models (sat__addClause1 t ?l) iv {E \<in> ?A. C \<subseteq> E \<and> (\<forall>I\<in>\<B>. \<not> E \<subseteq> I)}"
    and B: "\<And>I. I \<in> \<B> \<Longrightarrow> adm_sem F I \<and> a \<in> I" using inv unfolding eapr_inv_def by auto
  let ?X = "{E \<in> ?A. C \<subseteq> E \<and> (\<forall>I\<in>\<B>. \<not> E \<subseteq> I)}"
  define Q where "Q = (\<lambda>x. case x of Continue (s', t') \<Rightarrow> eapr_inv F iv ?l C a (s', t') \<and> ?\<mu> t' < ?\<mu> t
    | Break b \<Rightarrow> b = skeptical (preferred F) a)"
  have "rok (eapr_loop ips iv iav n a (s, t)) Q"
    unfolding eapr_loop_def prod.case
  proof (rule rok_rbind, rule solve_under[OF ips t l tm], goal_cases)
    case (2 t')
    have "skeptical (preferred F) a"
      by (rule no_attackers_accepted[OF wf C S]) (use 2 B in blast)
    then show ?case by (simp add: Q_def)
  next
    case (1 t' v)
    let ?E = "true_set v iv"
    have E: "adm_sem F ?E" "C \<subseteq> ?E" using 1(1) by (auto simp: attackers_with_def)
    have inner: "rok (rbind (sat__solve ips s') (\<lambda>(sat, s''). if sat = 20 then Inr (Break False)
        else rbind (add_false_vars s'' t' iv n) (\<lambda>t''. Inr (Continue (s'', t''))))) Q"
      if s': "models s' iv {E. adm_sem F E \<and> C \<subseteq> E}" "\<And>v. assuming v s' \<longleftrightarrow> insert a ?E \<subseteq> true_set v iv" for s'
    proof (rule rok_rbind, rule solve_models[OF ips s'(1), where Q = "\<lambda>E. insert a ?E \<subseteq> E"], goal_cases)
      case 1 show ?case by (rule s'(2))
    next
      case (3 s'')
      have "refutes F a ?E" by (rule no_extension_refutes[OF E(1)]) (use 3(1) E(2) in blast)
      from refutes_not_skeptical[OF wf this] show ?case by (simp add: Q_def)
    next
      case (2 s'' w)
      let ?I = "true_set w iv"
      have I: "adm_sem F ?I" "a \<in> ?I" "?E \<subseteq> ?I" using 2(1,2) by auto
      obtain t'' where t'': "add_false_vars s'' t' iv n = Inr t''" and ad: "adds t' t'' (\<lambda>w. \<not> true_set w iv \<subseteq> ?I)"
        using add_false_vars_adds[OF 2(3) \<open>ready t'\<close> iv] by (rule rokE)
      have "models (sat__addClause1 t'' ?l) iv {E \<in> ?X. \<not> E \<subseteq> ?I}"
        by (rule models_adds[OF \<open>models (sat__addClause1 t' ?l) iv ?X\<close> adds_under[OF ad \<open>ready t'\<close> l]]) simp
      moreover have eq: "{E \<in> ?X. \<not> E \<subseteq> ?I} = {E \<in> ?A. C \<subseteq> E \<and> (\<forall>J\<in>insert ?I \<B>. \<not> E \<subseteq> J)}" by auto
      ultimately have tm2: "models (sat__addClause1 t'' ?l) iv {E \<in> ?A. C \<subseteq> E \<and> (\<forall>J\<in>insert ?I \<B>. \<not> E \<subseteq> J)}"
        by simp
      have B': "\<forall>J\<in>insert ?I \<B>. adm_sem F J \<and> a \<in> J" using B I by blast
      have as2: "assumed t'' = []" using addsD(2)[OF ad] \<open>assumed t' = []\<close> by simp
      have "eapr_inv F iv ?l C a (s'', t'')"
        unfolding eapr_inv_def prod.case
        by (intro conjI exI[of _ "insert ?I \<B>"] 2(4,5) addsD(1)[OF ad] as2 tm2 B')
      moreover have "card {E \<in> ?X. \<not> E \<subseteq> ?I} < card ?X"
        using fin I(3) \<open>?E \<in> ?X\<close> by (intro psubset_card_mono) auto
      then have "?\<mu> t'' < ?\<mu> t" unfolding models_image[OF tm] models_image[OF tm2] eq .
      ultimately show ?case by (simp add: t'' Q_def)
    qed
    have "rok (rbind (assume_true_vars t' (sat__assume s (iv ! a)) iv n) (\<lambda>s'.
        rbind (sat__solve ips s') (\<lambda>(sat, s''). if sat = 20 then Inr (Break False)
        else rbind (add_false_vars s'' t' iv n) (\<lambda>t''. Inr (Continue (s'', t'')))))) Q"
      by (rule rok_bind[OF assumed_true_vars[OF 1(2) iv s a]], rule inner) simp_all
    then show ?case by simp
  qed
  then show ?thesis by (simp only: Q_def)
qed

lemma finite_attackers_with: "wf_aaf A \<Longrightarrow> finite (attackers_with (af_of A) Q) \<and>
  card (attackers_with (af_of A) Q) \<le> 2 ^ number_of_arguments A"
proof -
  assume "wf_aaf A"
  have sub: "attackers_with (af_of A) Q \<subseteq> Pow {..<number_of_arguments A}"
    using admissible_subset[of "af_of A"] by (auto simp: attackers_with_def adm_sem_def)
  then show ?thesis
    using card_mono[OF _ sub] finite_subset[OF sub] by (simp add: card_Pow)
qed

lemma add_accepted_effect:
  assumes iv: "vars_ok n iv" and iav: "vars_ok n iav" and s: "models s iv X" "assumed s = []" and t: "ready t"
    and acc: "raset_is n C acc"
  shows "case add_accepted iv iav acc (s, t) of (s', t') \<Rightarrow>
    models s' iv {E \<in> X. C \<subseteq> E} \<and> assumed s' = [] \<and>
    adds t t' (\<lambda>v. C \<subseteq> true_set v iv \<and> C \<subseteq> true_set v iav)"
proof -
  let ?f = "\<lambda>x s. sat__addClause1 s (iv ! x)" and ?g = "\<lambda>x t. sat__addClause1 (sat__addClause1 t (iv ! x)) (iav ! x)"
  have split: "fold (\<lambda>x (s, t). (?f x s, ?g x t)) xs (s, t) = (fold ?f xs s, fold ?g xs t)" for xs s t
    by (induction xs arbitrary: s t) auto
  have eq: "add_accepted iv iav acc (s, t) = (fold ?f (raset_list acc) s, fold ?g (raset_list acc) t)"
    using fold_elements[OF raset_isD(1)[OF acc], of "\<lambda>x (s, t). (?f x s, ?g x t)"] split
    by (simp add: add_accepted_def)
  have sub: "set (raset_list acc) \<subseteq> {..<n}" using raset_is_list[OF acc] raset_is_subset[OF acc] by simp
  have "adds t (fold ?g xs t) (\<lambda>v. set xs \<subseteq> true_set v iv \<and> set xs \<subseteq> true_set v iav)"
    if "set xs \<subseteq> {..<n}" "ready t" for xs t
    using that
  proof (induction xs arbitrary: t)
    case (Cons x xs)
    then have x: "x < n" by simp
    have ad: "adds t (?g x t) (\<lambda>v. x \<in> true_set v iv \<and> x \<in> true_set v iav)"
      using Cons.prems(2) x iv iav by (simp add: adds_def true_set_iff)
    from Cons.IH[OF _ addsD(1)[OF ad]] Cons.prems(1) show ?case by (auto intro: adds_trans[OF ad])
  qed (simp add: adds_def)
  from this[OF sub t] models_all_in[OF s iv sub] show ?thesis
    unfolding eq raset_is_list[OF acc] prod.case by simp
qed

lemma eapr_test_rok:
  assumes wf: "wf_aaf A" and ips: "oracle_ok ips" and g: "grounded_labeling A g"
    and al: "alloc_in_out (number_of_arguments A) 1 = (iv, ov, idx)"
      "alloc_in_out (number_of_arguments A) idx = (iav, oav, idx')"
    and a: "a < number_of_arguments A" and S: "adm_sem (af_of A) S" "a \<in> S"
    and acc: "raset_is (number_of_arguments A) C acc" and C: "C \<subseteq> accepted_args (af_of A)"
    and fuel: "2 ^ number_of_arguments A < fuel"
  shows "rok (eapr_test fuel ips iv ov iav oav A g a acc) (raset_is (number_of_arguments A)
    (if skeptical (preferred (af_of A)) a then insert a C else C))"
proof -
  let ?n = "number_of_arguments A" and ?F = "af_of A" and ?Q = "\<lambda>T. C \<subseteq> T \<and> a \<in> T"
  note a1 = in_out_alloc[OF al(1)]
  note a2 = alloc_in_out_ok[OF al(2) a1(6)]
  have off: "idx' \<le> 4 * int ?n + 1" using al by (auto simp: alloc_in_out_eq)
  let ?c1 = "\<lambda>v. \<forall>i<?n. adm_cond A g (true_set v iv) (true_set v ov) i"
  let ?c2 = "\<lambda>v. \<forall>i<?n. adm_cond A g (true_set v iav) (true_set v oav) i"
  let ?c3 = "\<lambda>v. attack_cond v (4 * int ?n + 1) (true_set v iv) (true_set v iav) (attack_list A)"
  let ?c4 = "\<lambda>v. \<exists>k<number_of_attacks A. lit_true v (4 * int ?n + 1 + int k)"
  show ?thesis
    unfolding eapr_test_def Let_def
  proof (rule rok_bind[OF adm_models[OF wf g al(1)]], clarify,
      rule rok_bind[OF add_admTestClauses_rok[OF wf a1(1,2) ready_init(1)]], clarify,
      rule rok_bind[OF add_admTestClauses_rok[OF wf a2(1,2) addsD(1)]], assumption, clarify, goal_cases)
    case outer: (1 s _ t0 _ t1 _)
    show ?case
    proof (rule rok_bind[OF add_attackClauses_rok[OF wf a1(1) a2(1) addsD(1)[OF outer(4)]]], simp, goal_cases)
    case (1 t)
    note 1 = outer 1
    have tA: "assumed t = []" using addsD(2)[OF 1(3)] addsD(2)[OF 1(4)] addsD(2)[OF 1(5)] by simp
    have tH: "holds v t \<longleftrightarrow> ?c1 v \<and> ?c2 v \<and> ?c3 v \<and> ?c4 v" for v
      using addsD(3)[OF 1(5)] addsD(3)[OF 1(4)] addsD(3)[OF 1(3)] by auto
    obtain s' t' where st: "add_accepted iv iav acc (s, t) = (s', t')" by (cases "add_accepted iv iav acc (s, t)")
    have s': "models s' iv {E. adm_sem ?F E \<and> C \<subseteq> E}" "assumed s' = []"
      and ad: "adds t t' (\<lambda>v. C \<subseteq> true_set v iv \<and> C \<subseteq> true_set v iav)"
      using add_accepted_effect[OF a1(1) a2(1) 1(1,2) addsD(1)[OF 1(5)] acc] unfolding st prod.case by auto
    have l: "iav ! a \<noteq> 0" using a2(1) a by simp
    have tm: "models (sat__addClause1 t' (iav ! a)) iv {E \<in> attackers_with ?F ?Q. C \<subseteq> E}"
    proof (rule att_models[OF wf g al off, where R = "\<lambda>E. C \<subseteq> E" and Q = ?Q])
      show "ready (sat__addClause1 t' (iav ! a))" using addsD(1)[OF ad] by simp
      show "holds v (sat__addClause1 t' (iav ! a)) \<longleftrightarrow> ?c1 v \<and> ?c2 v \<and> ?c3 v \<and> ?c4 v \<and> C \<subseteq> true_set v iv \<and>
          C \<subseteq> true_set v iav \<and> a \<in> true_set v iav" for v
        using addsD(1)[OF ad] addsD(3)[OF ad] l tH true_set_iff[OF a2(1) a] by auto
    qed
    note fin = finite_attackers_with[OF wf, of ?Q]
    have "rok (rloop fuel (eapr_loop ips iv iav ?n a) (s', t')) (\<lambda>b. b = skeptical (preferred ?F) a)"
    proof (rule rok_rloop[where I = "eapr_inv ?F iv (iav ! a) C a" and
          \<mu> = "\<lambda>(s, t). card {true_set v iv |v. holds v (sat__addClause1 t (iav ! a))}"])
      have tA': "assumed t' = []" using addsD(2)[OF ad] tA by simp
      have "models (sat__addClause1 t' (iav ! a)) iv
          {E \<in> attackers_with ?F ?Q. C \<subseteq> E \<and> (\<forall>I\<in>{}. \<not> E \<subseteq> I)}" using tm by simp
      then show "eapr_inv ?F iv (iav ! a) C a (s', t')"
        unfolding eapr_inv_def prod.case by (intro conjI exI[of _ "{} :: nat set set"] s' tA' addsD(1)[OF ad]) simp_all
      have "card {E \<in> attackers_with ?F ?Q. C \<subseteq> E} \<le> card (attackers_with ?F ?Q)"
        using fin by (intro card_mono) auto
      then show "(case (s', t') of (s, t) \<Rightarrow> card {true_set v iv |v. holds v (sat__addClause1 t (iav ! a))}) < fuel"
        unfolding prod.case models_image[OF tm] using fin fuel by linarith
    next
      fix st assume inv: "eapr_inv ?F iv (iav ! a) C a st"
      obtain s t where st: "st = (s, t)" by (cases st)
      show "rok (eapr_loop ips iv iav ?n a st) (\<lambda>x. case x of
          Continue s' \<Rightarrow> eapr_inv ?F iv (iav ! a) C a s' \<and>
            (case s' of (s, t) \<Rightarrow> card {true_set v iv |v. holds v (sat__addClause1 t (iav ! a))}) <
            (case st of (s, t) \<Rightarrow> card {true_set v iv |v. holds v (sat__addClause1 t (iav ! a))})
        | Break b \<Rightarrow> b = skeptical (preferred ?F) a)"
        unfolding st
        by (rule rok_weaken[OF eapr_step[OF wf_af_of[OF wf] ips a1(1) a l C S conjunct1[OF fin] inv[unfolded st]]])
          (auto split: step.splits prod.splits)
    qed
    then show ?case
      unfolding st by (rule rok_bind) (use raset_is_add[OF acc a] acc in simp)
    qed
  qed
qed

section \<open>Correctness of EA-PR\<close>

definition prints_list :: "AAF \<Rightarrow> nat set \<Rightarrow> string \<Rightarrow> bool" where
  "prints_list A E out \<longleftrightarrow> (\<exists>xs. distinct xs \<and> set xs = E \<and>
     out = ''['' @ join '','' (map (\<lambda>i. ids2arguments A ! i) xs) @ '']'' @ newline)"

lemma raset_is_prints_list: "raset_is n E r \<Longrightarrow> prints_list A E (raset__print r (ids2arguments A))"
  unfolding prints_list_def
  using raset__print_eq[OF raset_isD(1)[of n E r], of "ids2arguments A"] raset_is_list[of n E r] raset_isD(1)[of n E r]
  by (intro exI[of _ "raset_list r"]) (simp add: raset_inv_def newline_def)

lemma prints_list_grounded:
  assumes g: "grounded_labeling A g" and "names_fit 99 A (grounded_ext (af_of A))"
  shows "rok (taas__lab_print g A) (\<lambda>out. prints_list A (grounded_ext (af_of A)) (out @ newline))"
proof -
  have "wf_bitset (lab_in g)" using grounded_labelingD(3)[OF g] by (simp add: wf_labeling_def)
  then have "rok (taas__lab_print g A)
      (\<lambda>out. out = ''['' @ join '','' (map (\<lambda>i. ids2arguments A ! i) (printed g)) @ '']'')"
    using assms(2) by (intro lab_print_rok) (simp_all add: grounded_bits(1)[OF g])
  moreover have "set (printed g) = grounded_ext (af_of A)" "distinct (printed g)"
    using grounded_args[of _ "af_of A"] by (auto simp: grounded_bits(2)[OF g])
  ultimately show ?thesis
    unfolding prints_list_def by (elim rok_weaken) (intro exI[of _ "printed g"], simp)
qed

lemma eapr_tests_rok:
  assumes wf: "wf_aaf A" and g: "grounded_labeling A g" and ips: "oracle_ok ips"
    and al: "alloc_in_out (number_of_arguments A) 1 = (iv, ov, idx)"
      "alloc_in_out (number_of_arguments A) idx = (iav, oav, idx')"
    and D: "ideal_ext (af_of A) D" and acc: "raset_is (number_of_arguments A) D acc"
    and sp: "raset_is (number_of_arguments A) {a \<in> unattacked_core (af_of A) - D. \<exists>E. adm_sem (af_of A) E \<and> a \<in> E} spsc"
    and fuel: "2 ^ number_of_arguments A < fuel"
  shows "rok (rfold (\<lambda>i. eapr_test fuel ips iv ov iav oav A g (elements_arr spsc ! i)) [0..<number_of_elements spsc] acc)
    (raset_is (number_of_arguments A) (accepted_args (af_of A)))"
proof -
  let ?n = "number_of_arguments A" and ?F = "af_of A" and ?e = "\<lambda>i. elements_arr spsc ! i"
  let ?S = "{a \<in> unattacked_core ?F - D. \<exists>E. adm_sem ?F E \<and> a \<in> E}"
  define J where "J = (\<lambda>k r. \<exists>C. raset_is ?n C r \<and> C \<subseteq> accepted_args ?F \<and> D \<subseteq> C \<and>
    (\<forall>j<k. skeptical (preferred ?F) (?e j) \<longrightarrow> ?e j \<in> C))"
  have "rok (rfold (\<lambda>i. eapr_test fuel ips iv ov iav oav A g (?e i)) [0..<number_of_elements spsc] acc)
      (J (number_of_elements spsc))"
  proof (rule rok_for[where I = J])
    show "J 0 acc" unfolding J_def using acc ideal_accepted[OF D] by auto
  next
    fix i r assume i: "i < number_of_elements spsc" and "J i r"
    then obtain C where C: "raset_is ?n C r" "C \<subseteq> accepted_args ?F" "D \<subseteq> C"
      and old: "\<forall>j<i. skeptical (preferred ?F) (?e j) \<longrightarrow> ?e j \<in> C" by (auto simp: J_def)
    have mem: "?e i \<in> ?S" by (rule raset_is_nth[OF sp i])
    then obtain E where E: "adm_sem ?F E" "?e i \<in> E" by blast
    have en: "?e i < ?n" using mem raset_is_subset[OF sp] by blast
    show "rok (eapr_test fuel ips iv ov iav oav A g (?e i) r) (J (Suc i))"
      by (rule rok_weaken[OF eapr_test_rok[OF wf ips g al en E C(1,2) fuel]])
        (use C old in \<open>auto simp: J_def less_Suc_eq split: if_splits\<close>)
  qed
  then show ?thesis
  proof (rule rok_weaken)
    fix r assume "J (number_of_elements spsc) r"
    then obtain C where C: "raset_is ?n C r" "C \<subseteq> accepted_args ?F" "D \<subseteq> C"
      and all: "\<forall>j<number_of_elements spsc. skeptical (preferred ?F) (?e j) \<longrightarrow> ?e j \<in> C" by (auto simp: J_def)
    have "a \<in> C" if a: "skeptical (preferred ?F) a" for a
    proof (cases "a \<in> D")
      case False
      obtain P where "preferred ?F P" using preferred_exists[OF wf_af_of[OF wf]] by blast
      then have "a \<in> P" "adm_sem ?F P" using a preferred_adm_sem by (auto simp: skeptical_def)
      then have "a \<in> ?S" using accepted_core[OF wf_af_of[OF wf]] a False by blast
      from raset_is_surj[OF sp this] all a show ?thesis by blast
    qed (use C(3) in blast)
    then have "C = accepted_args ?F" using C(2) by blast
    with C(1) show "raset_is ?n (accepted_args ?F) r" by simp
  qed
qed

lemma solve_eapr_rok:
  assumes wf: "wf_aaf A" and g: "grounded_labeling A g" and ips: "oracle_ok ips"
    and names: "names_fit 99 A (grounded_ext (af_of A))" and fuel: "2 ^ number_of_arguments A < fuel"
  shows "rok (solve_eapr fuel ips task A g) (prints_list A (accepted_args (af_of A)))"
proof -
  let ?n = "number_of_arguments A" and ?F = "af_of A"
  note wfF = wf_af_of[OF wf]
  obtain iv ov idx where al: "alloc_in_out ?n 1 = (iv, ov, idx)" by (cases "alloc_in_out ?n 1") auto
  obtain iav oav idx' where al2: "alloc_in_out ?n idx = (iav, oav, idx')" by (cases "alloc_in_out ?n idx") auto
  have nfuel: "?n < fuel" using fuel less_exp[of ?n] by linarith
  show ?thesis
    unfolding solve_eapr_def al al2 Let_def prod.case
  proof (rule rok_bind[OF eapr_core_rok[OF wf g ips al nfuel]], clarify, goal_cases)
    case (1 psc b)
    then have psc: "raset_is ?n (unattacked_core ?F) psc"
      and b: "b \<Longrightarrow> unattacked_core ?F = args ?F - attacked ?F (grounded_ext ?F)" by (simp_all add: psc_result_def)
    let ?psc = "add_grounded A g psc"
    note psc' = add_grounded_is[OF wf g psc]
    show ?case
    proof (cases b)
      case True
      then show ?thesis
        using prints_list_grounded[OF g names] core_all_accepted[OF wfF b] by (auto intro!: rok_rbind elim!: rok_weaken)
    next
      case notb: False
      show ?thesis
      proof (cases "number_of_elements ?psc = 0")
        case True
        have "finite (unattacked_core ?F)" using raset_is_subset[OF psc] finite_subset by blast
        then have e: "unattacked_core ?F = {}" using raset_is_number[OF psc'] True by simp
        then have none: "{} = accepted_args ?F" using accepted_core[OF wfF] by blast
        from raset_is_prints_list[OF psc', of A] notb True show ?thesis by (simp only: e none if_False if_True rok_simps refl)
      next
        case False
        have "rok (rbind (eapr_ideal fuel A ?psc) (\<lambda>acc. rbind (eapr_spsc fuel ips iv ov A g ?psc acc) (\<lambda>spsc.
            rbind (rfold (\<lambda>i. eapr_test fuel ips iv ov iav oav A g (elements_arr spsc ! i))
              [0..<number_of_elements spsc] acc) (\<lambda>acc. Inr (raset__print acc (ids2arguments A))))))
          (prints_list A (accepted_args ?F))"
        proof (rule rok_bind[OF eapr_ideal_rok[OF wf psc' nfuel]], elim exE conjE, goal_cases)
          case (1 acc D)
          show ?case
          proof (rule rok_bind[OF eapr_spsc_rok[OF wf g ips al nfuel psc' 1]], goal_cases)
            case sp: (1 spsc)
            show ?case
              by (rule rok_bind[OF eapr_tests_rok[OF wf g ips al al2 1(2,1) sp fuel]])
                (simp add: raset_is_prints_list)
          qed
        qed
        with notb False show ?thesis by simp
      qed
    qed
  qed
qed

end
