(* ===== verification/Driver.thy ===== *)
theory Driver
  imports Inout Basics Stable Complete Skeptical CountPreferred IdealQuery RangeQuery EnumAccept
begin

text \<open>
  taas-fudge.cpp and \<open>taas__solve\<close> of taas/taas_basics.c: from the command line to the printed answer.
  \<open>solve_switch\<close> selects the procedure of a track, \<open>dispatch\<close> answers the queries that the grounded
  extension decides and hands the others to it, and \<open>main_output\<close> is what \<open>main\<close> prints.
  \<open>track_answer\<close> says what a track demands of the output, and the theorems show that every supported
  track meets it, from the text of the input file on.  For DC-STG and DS-STG the contract of the SAT
  interface may be violated on the way; what these two tracks print without that is right.
\<close>

section \<open>The program\<close>

definition PRINT_WITNESS :: bool where
  "PRINT_WITNESS = True"

text \<open>The procedures for decision tracks print their answer; their result is not used.\<close>

definition answered :: "(bool \<times> string) result \<Rightarrow> string result" where
  "answered m = rbind m (\<lambda>(_, out). Inr out)"

definition print_ideal :: "TaskSpecification \<Rightarrow> AAF \<Rightarrow> RaSet \<Rightarrow> string" where
  "print_ideal task aaf ideal =
     (if raset__contains ideal (query task) then YES else NO) @ raset__print_i23 ideal (ids2arguments aaf)"

definition solve_switch ::
    "nat \<Rightarrow> sat_oracle \<Rightarrow> TaskSpecification \<Rightarrow> AAF \<Rightarrow> Labeling \<Rightarrow> string result" where
  "solve_switch fuel ips task aaf grounded =
     (case track task of None \<Rightarrow> Inl NullPointer | Some t \<Rightarrow>
        if t = ''DS-PR'' then answered (solve_dspr fuel ips task aaf grounded True)
        else if t = ''SE-ID'' then solve_seid fuel ips task aaf grounded
        else if t = ''EA-PR'' then solve_eapr fuel ips task aaf grounded
        else if t = ''DC-CO'' \<or> t = ''DC-PR'' then answered (solve_dcco ips task aaf grounded True)
        else if t = ''SE-ST'' then solve_sest ips task aaf grounded
        else if t = ''DC-ST'' then answered (solve_dcst ips task aaf grounded True)
        else if t = ''DS-ST'' then answered (solve_dsst ips task aaf grounded True)
        else if t = ''DS-ID'' \<or> t = ''DC-ID'' then
          (if PRINT_WITNESS
           then rbind (compute_ideal fuel ips task aaf grounded) (\<lambda>ideal. Inr (print_ideal task aaf ideal))
           else answered (solve_dsid fuel ips task aaf grounded True))
        else if t = ''SE-PR'' then solve_sepr fuel ips task aaf grounded None
        else if t = ''SE-SST'' then solve_sesst fuel ips task aaf grounded
        else if t = ''SE-STG'' then solve_sestg fuel ips task aaf grounded
        else if t = ''DC-SST'' then answered (solve_dcsst fuel ips task aaf grounded True)
        else if t = ''DS-SST'' then answered (solve_dssst fuel ips task aaf grounded True)
        else if t = ''DC-STG'' then answered (solve_dcstg fuel ips task aaf grounded True)
        else if t = ''DS-STG'' then answered (solve_dsstg fuel ips task aaf grounded True)
        else if t = ''CE-ST'' then solve_cest fuel ips task aaf grounded
        else if t = ''CE-CO'' then solve_ceco fuel ips task aaf grounded
        else if t = ''CE-PR'' then solve_cepr fuel ips task aaf grounded
        else Inr '''')"

text \<open>
  The middle part of \<open>taas__solve\<close>, after the grounded extension has been computed.  For a witness the
  track of the task is replaced by the one that computes some extension.
\<close>

definition dispatch ::
    "(TaskSpecification \<Rightarrow> AAF \<Rightarrow> Labeling \<Rightarrow> string result) \<Rightarrow>
     TaskSpecification \<Rightarrow> AAF \<Rightarrow> Labeling \<Rightarrow> string result" where
  "dispatch doSolve task aaf grounded =
     (case track task of None \<Rightarrow> Inl NullPointer | Some t \<Rightarrow>
        if t = ''SE-GR'' \<or> t = ''SE-CO'' then print_labeling grounded aaf
        else if t = ''DC-GR'' \<or> t = ''DS-GR'' \<or> t = ''DS-CO'' then
          rbind (print_labeling grounded aaf)
            (\<lambda>w. Inr ((if bit_at (lab_in grounded) (query task) then YES else NO) @ w))
        else if (t = ''DC-CO'' \<or> t = ''DC-PR'' \<or> t = ''DC-SST'' \<or> t = ''DC-ID'') \<and>
                bit_at (lab_in grounded) (query task) then
          (if PRINT_WITNESS then
             if t = ''DC-CO'' then rbind (print_labeling grounded aaf) (\<lambda>w. Inr (YES @ w))
             else let task = (if t = ''DC-PR'' then task\<lparr>track := Some ''SE-PR''\<rparr>
                              else if t = ''DC-SST'' then task\<lparr>track := Some ''SE-SST''\<rparr>
                              else if t = ''DC-ID'' then task\<lparr>track := Some ''SE-ID''\<rparr> else task)
                  in rbind (doSolve task aaf grounded) (\<lambda>w. Inr (YES @ w))
           else Inr YES)
        else if (t = ''DC-CO'' \<or> t = ''DC-PR'' \<or> t = ''DC-SST'' \<or> t = ''DC-ID'' \<or> t = ''DC-ST'') \<and>
                bit_at (lab_out grounded) (query task) then Inr NO
        else if (t = ''DS-PR'' \<or> t = ''DS-ST'' \<or> t = ''DS-SST'' \<or> t = ''DS-ID'') \<and>
                bit_at (lab_in grounded) (query task) then Inr YES
        else if (t = ''DS-PR'' \<or> t = ''DS-SST'' \<or> t = ''DS-ID'') \<and>
                bit_at (lab_out grounded) (query task) then
          (if PRINT_WITNESS then
             let task = (if t = ''DS-PR'' then task\<lparr>track := Some ''SE-PR''\<rparr>
                         else if t = ''DS-SST'' then task\<lparr>track := Some ''SE-SST''\<rparr>
                         else if t = ''DS-ID'' then task\<lparr>track := Some ''SE-ID''\<rparr> else task)
             in rbind (doSolve task aaf grounded) (\<lambda>w. Inr (NO @ w))
           else Inr NO)
        else doSolve task aaf grounded)"

definition taas__solve ::
    "nat \<Rightarrow> (string \<Rightarrow> string option) \<Rightarrow> string list \<Rightarrow> SolverInformation \<Rightarrow>
     (TaskSpecification \<Rightarrow> AAF \<Rightarrow> Labeling \<Rightarrow> string result) \<Rightarrow> string result" where
  "taas__solve fuel fs argv info doSolve =
     rbind (taas__cmd_handle argv info) (\<lambda>(task, out).
       case task of None \<Rightarrow> Inr out
       | Some task \<Rightarrow>
           rbind (if format task = Some ''tgf'' then taas__readFile_tgf fs (file_name task)
                  else taas__readFile_i23 fs (file_name task)) (\<lambda>aaf.
           rbind (taas__update_arg_param task aaf) (\<lambda>task.
           rbind (taas__compute_grounded fuel aaf (taas__lab_init False)) (\<lambda>(aaf, grounded).
             dispatch doSolve task aaf grounded))))"

text \<open>The strings of \<open>main\<close>.\<close>

definition solver_info :: SolverInformation where
  "solver_info = taas__solverinformation
     (''taas-fudge v3.3.4 (2024-11-29)'' @ newline @
      ''Matthias Thimm (matthias.thimm@fernuni-hagen.de), Federico Cerutti (federico.cerutti@unibs.it), Mauro Vallati (m.vallati@hud.ac.uk)'')
     ''[i23]''
     ''[SE-GR,DC-GR,DS-GR,SE-CO,DC-CO,DS-CO,SE-PR,DC-PR,DS-PR,SE-ST,DC-ST,DS-ST,SE-ID,DC-ID,DS-ID,DC-SST,DS-SST,SE-SST,DC-STG,DS-STG,SE-STG]''"

definition main_output :: "nat \<Rightarrow> sat_oracle \<Rightarrow> (string \<Rightarrow> string option) \<Rightarrow> string list \<Rightarrow> string result" where
  "main_output fuel ips fs argv = taas__solve fuel fs argv solver_info (solve_switch fuel ips)"

section \<open>What a track demands\<close>

definition grounded_sem :: "framework \<Rightarrow> nat set \<Rightarrow> bool" where
  "grounded_sem F E \<longleftrightarrow> E = grounded_ext F"

text \<open>A witness line lists a set by names or by numbers; some answers come without one.\<close>

definition lists_ext :: "AAF \<Rightarrow> nat set \<Rightarrow> string \<Rightarrow> bool" where
  "lists_ext A E w \<longleftrightarrow> prints_ext A E w \<or> lists_set print_number E w"

definition maybe_lists :: "AAF \<Rightarrow> string \<Rightarrow> bool" where
  "maybe_lists A w \<longleftrightarrow> w = '''' \<or> (\<exists>E. lists_ext A E w)"

definition se_answer :: "(nat set \<Rightarrow> bool) \<Rightarrow> AAF \<Rightarrow> string \<Rightarrow> bool" where
  "se_answer sem A out \<longleftrightarrow>
     (\<exists>E. sem E \<and> prints_ext A E out) \<or> (\<forall>E. \<not> sem E) \<and> out = NO"

text \<open>
  Credulous tracks: YES exactly when some extension has the query, with a set \<open>E\<close> of the semantics
  \<open>wit\<close> that has it.  Skeptical tracks: NO exactly when some extension lacks the query, with one.
\<close>

definition dc_track :: "(nat set \<Rightarrow> bool) \<Rightarrow> (nat set \<Rightarrow> bool) \<Rightarrow> AAF \<Rightarrow> nat \<Rightarrow> string \<Rightarrow> bool" where
  "dc_track sem wit A q out \<longleftrightarrow>
     (if credulous sem q then \<exists>E w. wit E \<and> q \<in> E \<and> lists_ext A E w \<and> out = YES @ w
      else \<exists>w. maybe_lists A w \<and> out = NO @ w)"

definition ds_track :: "(nat set \<Rightarrow> bool) \<Rightarrow> AAF \<Rightarrow> nat \<Rightarrow> string \<Rightarrow> bool" where
  "ds_track sem A q out \<longleftrightarrow>
     (if skeptical sem q then \<exists>w. maybe_lists A w \<and> out = YES @ w
      else \<exists>E w. sem E \<and> q \<notin> E \<and> lists_ext A E w \<and> out = NO @ w)"

definition count_answer :: "(nat set \<Rightarrow> bool) \<Rightarrow> string \<Rightarrow> bool" where
  "count_answer sem out \<longleftrightarrow> out = show_nat (card {E. sem E}) @ newline"

text \<open>The tracks and their demands; DC-PR is witnessed by a complete extension with the query.\<close>

definition track_answer :: "string \<Rightarrow> AAF \<Rightarrow> nat \<Rightarrow> string \<Rightarrow> bool" where
  "track_answer t A q out =
     (let F = af_of A in
      if t = ''SE-GR'' then se_answer (grounded_sem F) A out
      else if t = ''SE-CO'' then se_answer (complete_ext F) A out
      else if t = ''SE-PR'' then se_answer (preferred F) A out
      else if t = ''SE-ST'' then se_answer (stable F) A out
      else if t = ''SE-SST'' then se_answer (semi_stable F) A out
      else if t = ''SE-STG'' then se_answer (stage F) A out
      else if t = ''SE-ID'' then se_answer (ideal_ext F) A out
      else if t = ''DC-GR'' then dc_track (grounded_sem F) (grounded_sem F) A q out
      else if t = ''DC-CO'' then dc_track (complete_ext F) (complete_ext F) A q out
      else if t = ''DC-PR'' then dc_track (preferred F) (complete_ext F) A q out
      else if t = ''DC-ST'' then dc_track (stable F) (stable F) A q out
      else if t = ''DC-SST'' then dc_track (semi_stable F) (semi_stable F) A q out
      else if t = ''DC-STG'' then dc_track (stage F) (stage F) A q out
      else if t = ''DC-ID'' then dc_track (ideal_ext F) (ideal_ext F) A q out
      else if t = ''DS-GR'' then ds_track (grounded_sem F) A q out
      else if t = ''DS-CO'' then ds_track (complete_ext F) A q out
      else if t = ''DS-PR'' then ds_track (preferred F) A q out
      else if t = ''DS-ST'' then ds_track (stable F) A q out
      else if t = ''DS-SST'' then ds_track (semi_stable F) A q out
      else if t = ''DS-STG'' then ds_track (stage F) A q out
      else if t = ''DS-ID'' then ds_track (ideal_ext F) A q out
      else if t = ''CE-CO'' then count_answer (complete_ext F) out
      else if t = ''CE-PR'' then count_answer (preferred F) out
      else if t = ''CE-ST'' then count_answer (stable F) out
      else if t = ''EA-PR'' then prints_list A (accepted_args F) out
      else False)"

lemma track_answer_simps:
  "track_answer ''SE-GR'' A q = se_answer (grounded_sem (af_of A)) A"
  "track_answer ''SE-CO'' A q = se_answer (complete_ext (af_of A)) A"
  "track_answer ''SE-PR'' A q = se_answer (preferred (af_of A)) A"
  "track_answer ''SE-ST'' A q = se_answer (stable (af_of A)) A"
  "track_answer ''SE-SST'' A q = se_answer (semi_stable (af_of A)) A"
  "track_answer ''SE-STG'' A q = se_answer (stage (af_of A)) A"
  "track_answer ''SE-ID'' A q = se_answer (ideal_ext (af_of A)) A"
  "track_answer ''DC-GR'' A q = dc_track (grounded_sem (af_of A)) (grounded_sem (af_of A)) A q"
  "track_answer ''DC-CO'' A q = dc_track (complete_ext (af_of A)) (complete_ext (af_of A)) A q"
  "track_answer ''DC-PR'' A q = dc_track (preferred (af_of A)) (complete_ext (af_of A)) A q"
  "track_answer ''DC-ST'' A q = dc_track (stable (af_of A)) (stable (af_of A)) A q"
  "track_answer ''DC-SST'' A q = dc_track (semi_stable (af_of A)) (semi_stable (af_of A)) A q"
  "track_answer ''DC-STG'' A q = dc_track (stage (af_of A)) (stage (af_of A)) A q"
  "track_answer ''DC-ID'' A q = dc_track (ideal_ext (af_of A)) (ideal_ext (af_of A)) A q"
  "track_answer ''DS-GR'' A q = ds_track (grounded_sem (af_of A)) A q"
  "track_answer ''DS-CO'' A q = ds_track (complete_ext (af_of A)) A q"
  "track_answer ''DS-PR'' A q = ds_track (preferred (af_of A)) A q"
  "track_answer ''DS-ST'' A q = ds_track (stable (af_of A)) A q"
  "track_answer ''DS-SST'' A q = ds_track (semi_stable (af_of A)) A q"
  "track_answer ''DS-STG'' A q = ds_track (stage (af_of A)) A q"
  "track_answer ''DS-ID'' A q = ds_track (ideal_ext (af_of A)) A q"
  "track_answer ''CE-CO'' A q = count_answer (complete_ext (af_of A))"
  "track_answer ''CE-PR'' A q = count_answer (preferred (af_of A))"
  "track_answer ''CE-ST'' A q = count_answer (stable (af_of A))"
  "track_answer ''EA-PR'' A q = prints_list A (accepted_args (af_of A))"
  by (intro ext, simp add: track_answer_def Let_def)+

definition grounded_tracks :: "string list" where
  "grounded_tracks = [''SE-GR'', ''SE-CO'', ''DC-GR'', ''DS-GR'', ''DS-CO'']"

definition stage_tracks :: "string list" where
  "stage_tracks = [''DC-STG'', ''DS-STG'']"

definition solver_tracks :: "string list" where
  "solver_tracks =
     [''DS-PR'', ''SE-ID'', ''EA-PR'', ''DC-CO'', ''DC-PR'', ''SE-ST'', ''DC-ST'', ''DS-ST'', ''DS-ID'', ''DC-ID'',
      ''SE-PR'', ''SE-SST'', ''SE-STG'', ''DC-SST'', ''DS-SST'', ''CE-ST'', ''CE-CO'', ''CE-PR'']"

section \<open>The procedures meet their tracks\<close>

text \<open>The hypotheses under which the procedures run.\<close>

definition setting :: "nat \<Rightarrow> sat_oracle \<Rightarrow> AAF \<Rightarrow> Labeling \<Rightarrow> bool" where
  "setting fuel ips A g \<longleftrightarrow> wf_aaf A \<and> grounded_labeling A g \<and> oracle_ok ips \<and>
     names_fit 99 A (grounded_ext (af_of A)) \<and> 2 ^ number_of_arguments A < fuel"

lemma settingD:
  assumes "setting fuel ips A g"
  shows "wf_aaf A" "grounded_labeling A g" "oracle_ok ips" "names_fit 99 A (grounded_ext (af_of A))"
    "2 ^ number_of_arguments A < fuel" "number_of_arguments A < fuel" "wf_framework (af_of A)"
proof -
  show "wf_aaf A" "grounded_labeling A g" "oracle_ok ips" "names_fit 99 A (grounded_ext (af_of A))"
    "2 ^ number_of_arguments A < fuel" using assms by (simp_all add: setting_def)
  then show "number_of_arguments A < fuel" using less_exp[of "number_of_arguments A"] by linarith
  show "wf_framework (af_of A)" using \<open>wf_aaf A\<close> by (rule wf_af_of)
qed

lemma card_extensions:
  assumes "\<And>E. sem E \<Longrightarrow> E \<subseteq> {..<n}" and "2 ^ n < fuel"
  shows "card {E :: nat set. sem E} < fuel"
proof -
  have "card {E. sem E} \<le> card (Pow {..<n})"
    by (rule card_mono) (use assms(1) in auto)
  also have "\<dots> = 2 ^ n" by (simp add: card_Pow)
  finally show ?thesis using assms(2) by simp
qed

lemma answered_rok: "rok m (\<lambda>(b, out). Q out) \<Longrightarrow> rok (answered m) Q"
  unfolding answered_def by (rule rok_rbind) (auto elim!: rok_weaken)

lemma answered_rsafe: "rsafe es m (\<lambda>(b, out). Q out) \<Longrightarrow> rsafe es (answered m) Q"
  unfolding answered_def by (cases m) auto

lemma lists_none [simp]: "maybe_lists A ''''"
  by (simp add: maybe_lists_def)

lemma maybe_listsI: "lists_ext A E w \<Longrightarrow> maybe_lists A w"
  by (auto simp: maybe_lists_def)

lemma listsI: "prints_ext A E w \<Longrightarrow> lists_ext A E w" "lists_set print_number E w \<Longrightarrow> lists_ext A E w"
  by (simp_all add: lists_ext_def)

lemma dc_trackI:
  assumes "b = credulous sem q"
    and "b \<Longrightarrow> \<exists>E w. wit E \<and> q \<in> E \<and> lists_ext A E w \<and> out = YES @ w"
    and "\<not> b \<Longrightarrow> \<exists>w. maybe_lists A w \<and> out = NO @ w"
  shows "dc_track sem wit A q out"
  using assms by (auto simp: dc_track_def)

lemma ds_trackI:
  assumes "b = skeptical sem q"
    and "b \<Longrightarrow> \<exists>w. maybe_lists A w \<and> out = YES @ w"
    and "\<not> b \<Longrightarrow> \<exists>E w. sem E \<and> q \<notin> E \<and> lists_ext A E w \<and> out = NO @ w"
  shows "ds_track sem A q out"
  using assms by (auto simp: ds_track_def)

lemma optional_list:
  "out = x \<or> (\<exists>w. prints_ext A E w \<and> out = x @ w) \<Longrightarrow> \<exists>w. maybe_lists A w \<and> out = x @ w"
proof (elim disjE exE conjE)
  assume "out = x"
  then show ?thesis by (intro exI[of _ "[]"]) simp
next
  fix w assume "prints_ext A E w" "out = x @ w"
  then show ?thesis by (intro exI[of _ w]) (auto intro: maybe_listsI listsI)
qed

lemma dc_answer_track: "dc_answer sem A q True (b, out) \<Longrightarrow> dc_track sem sem A q out"
proof (rule dc_trackI[of b])
  assume d: "dc_answer sem A q True (b, out)"
  then show "b = credulous sem q" by (simp add: dc_answer_def)
  show "\<exists>E w. sem E \<and> q \<in> E \<and> lists_ext A E w \<and> out = YES @ w" if b
    using d that listsI(1) unfolding dc_answer_def by (simp, blast)
  show "\<exists>w. maybe_lists A w \<and> out = NO @ w" if "\<not> b"
    using d that by (intro optional_list[where E = "grounded_ext (af_of A)"]) (simp add: dc_answer_def)
qed

lemma ds_answer_track: "ds_answer sem A q True (b, out) \<Longrightarrow> ds_track sem A q out"
proof (rule ds_trackI[of b])
  assume d: "ds_answer sem A q True (b, out)"
  then show "b = skeptical sem q" by (simp add: ds_answer_def)
  show "\<exists>w. maybe_lists A w \<and> out = YES @ w" if b
    using d that by (intro optional_list[where E = "grounded_ext (af_of A)"]) (simp add: ds_answer_def)
  show "\<exists>E w. sem E \<and> q \<notin> E \<and> lists_ext A E w \<and> out = NO @ w" if "\<not> b"
    using d that listsI(1) unfolding ds_answer_def by (simp, blast)
qed

text \<open>Every track that \<open>solve_switch\<close> handles, apart from the two with partial correctness.\<close>

lemma switch_se:
  assumes s: "setting fuel ips A g"
  shows "rok (solve_switch fuel ips (task\<lparr>track := Some ''SE-PR''\<rparr>) A g) (se_answer (preferred (af_of A)) A)"
    and "rok (solve_switch fuel ips (task\<lparr>track := Some ''SE-ST''\<rparr>) A g) (se_answer (stable (af_of A)) A)"
    and "rok (solve_switch fuel ips (task\<lparr>track := Some ''SE-SST''\<rparr>) A g) (se_answer (semi_stable (af_of A)) A)"
    and "rok (solve_switch fuel ips (task\<lparr>track := Some ''SE-STG''\<rparr>) A g) (se_answer (stage (af_of A)) A)"
    and "rok (solve_switch fuel ips (task\<lparr>track := Some ''SE-ID''\<rparr>) A g) (se_answer (ideal_ext (af_of A)) A)"
proof -
  note S = settingD[OF s]
  have init: "initial_ok A {} None" by (simp add: initial_ok_def)
  show "rok (solve_switch fuel ips (task\<lparr>track := Some ''SE-PR''\<rparr>) A g) (se_answer (preferred (af_of A)) A)"
    by (simp add: solve_switch_def)
      (rule rok_weaken[OF solve_sepr_rok[OF S(1-4) init S(6)]], auto simp: se_answer_def)
  show "rok (solve_switch fuel ips (task\<lparr>track := Some ''SE-ST''\<rparr>) A g) (se_answer (stable (af_of A)) A)"
    by (simp add: solve_switch_def) (rule rok_weaken[OF solve_sest_rok[OF S(1-3)]], auto simp: se_answer_def)
  show "rok (solve_switch fuel ips (task\<lparr>track := Some ''SE-SST''\<rparr>) A g) (se_answer (semi_stable (af_of A)) A)"
    by (simp add: solve_switch_def) (rule rok_weaken[OF solve_sesst_rok[OF S(1-4,6)]], auto simp: se_answer_def)
  show "rok (solve_switch fuel ips (task\<lparr>track := Some ''SE-STG''\<rparr>) A g) (se_answer (stage (af_of A)) A)"
    by (simp add: solve_switch_def) (rule rok_weaken[OF solve_sestg_rok[OF S(1-4,6)]], auto simp: se_answer_def)
  show "rok (solve_switch fuel ips (task\<lparr>track := Some ''SE-ID''\<rparr>) A g) (se_answer (ideal_ext (af_of A)) A)"
    by (simp add: solve_switch_def) (rule rok_weaken[OF solve_seid_rok[OF S(1-3,6)]], auto simp: se_answer_def)
qed

lemma switch_count:
  assumes s: "setting fuel ips A g"
  shows "rok (solve_switch fuel ips (task\<lparr>track := Some ''CE-CO''\<rparr>) A g) (count_answer (complete_ext (af_of A)))"
    and "rok (solve_switch fuel ips (task\<lparr>track := Some ''CE-PR''\<rparr>) A g) (count_answer (preferred (af_of A)))"
    and "rok (solve_switch fuel ips (task\<lparr>track := Some ''CE-ST''\<rparr>) A g) (count_answer (stable (af_of A)))"
    and "rok (solve_switch fuel ips (task\<lparr>track := Some ''EA-PR''\<rparr>) A g)
      (prints_list A (accepted_args (af_of A)))"
proof -
  note S = settingD[OF s]
  have bound: "E \<subseteq> {..<number_of_arguments A}" if "admissible (af_of A) E" for E
    using admissible_subset[OF that] by simp
  have st: "admissible (af_of A) E" if "stable (af_of A) E" for E
    using that S(7) by (simp add: preferred_admissible stable_preferred)
  note card = card_extensions[OF _ S(5)]
  show "rok (solve_switch fuel ips (task\<lparr>track := Some ''CE-CO''\<rparr>) A g) (count_answer (complete_ext (af_of A)))"
    by (simp add: solve_switch_def)
      (rule rok_weaken[OF solve_ceco_rok[OF S(1-3) card[OF bound]]],
        auto simp: count_answer_def complete_ext_def)
  show "rok (solve_switch fuel ips (task\<lparr>track := Some ''CE-PR''\<rparr>) A g) (count_answer (preferred (af_of A)))"
    by (simp add: solve_switch_def)
      (rule rok_weaken[OF solve_cepr_rok[OF S(1-3,6) card[OF bound[OF preferred_admissible]]]],
        auto simp: count_answer_def)
  show "rok (solve_switch fuel ips (task\<lparr>track := Some ''CE-ST''\<rparr>) A g) (count_answer (stable (af_of A)))"
    by (simp add: solve_switch_def)
      (rule rok_weaken[OF solve_cest_rok[OF S(1-3) card[OF bound[OF st]]]], auto simp: count_answer_def)
  show "rok (solve_switch fuel ips (task\<lparr>track := Some ''EA-PR''\<rparr>) A g)
      (prints_list A (accepted_args (af_of A)))"
    using solve_eapr_rok[OF S(1-5)] by (simp add: solve_switch_def)
qed

lemma dc_number_answer:
  assumes "b = credulous sem q"
    and "if b then \<exists>E w. wit E \<and> q \<in> E \<and> lists_set print_number E w \<and> out = YES @ w else out = NO"
  shows "dc_track sem wit A q out"
proof (rule dc_trackI[OF assms(1)])
  show "\<exists>E w. wit E \<and> q \<in> E \<and> lists_ext A E w \<and> out = YES @ w" if b
    using assms(2) that listsI(2) by (simp, blast)
  show "\<exists>w. maybe_lists A w \<and> out = NO @ w" if "\<not> b"
    using assms(2) that by (intro exI[of _ "[]"]) simp
qed

lemma ds_witness_answer:
  assumes L: "\<And>E w. L E w \<Longrightarrow> lists_ext A E w" and b: "b = skeptical sem q"
    and out: "if b then out = YES else \<exists>E w. sem E \<and> q \<notin> E \<and> L E w \<and> out = NO @ w"
  shows "ds_track sem A q out"
proof (rule ds_trackI[OF b])
  show "\<exists>w. maybe_lists A w \<and> out = YES @ w" if b
    using out that by (intro exI[of _ "[]"]) simp
  show "\<exists>E w. sem E \<and> q \<notin> E \<and> lists_ext A E w \<and> out = NO @ w" if "\<not> b"
    using out L that by (simp, blast)
qed

lemma credulous_complete_preferred:
  assumes "wf_framework F"
  shows "credulous (preferred F) q \<longleftrightarrow> credulous (complete_ext F) q"
proof
  assume "credulous (preferred F) q"
  then show "credulous (complete_ext F) q"
    using preferred_complete by (auto simp: credulous_def)
next
  assume "credulous (complete_ext F) q"
  then obtain E where "admissible F E" "q \<in> E" by (auto simp: credulous_def complete_ext_def)
  then show "credulous (preferred F) q"
    using preferred_above[OF assms] unfolding credulous_def by blast
qed

lemma dc_preferred:
  "wf_framework F \<Longrightarrow> dc_track (preferred F) wit A q = dc_track (complete_ext F) wit A q"
  by (rule ext) (simp add: dc_track_def credulous_complete_preferred)

lemma dspr_answer_track:
  assumes d: "dspr_spec A q True (b, out)"
  shows "ds_track (preferred (af_of A)) A q out"
  by (rule ds_witness_answer[OF listsI(1), where b = b]) (use d in \<open>cases b; simp add: dspr_spec_def\<close>)+

lemma switch_dc:
  assumes s: "setting fuel ips A g" and q: "query task < number_of_arguments A"
  shows "track task = Some ''DC-CO'' \<Longrightarrow>
      rok (solve_switch fuel ips task A g) (dc_track (complete_ext (af_of A)) (complete_ext (af_of A)) A (query task))"
    and "track task = Some ''DC-PR'' \<Longrightarrow>
      rok (solve_switch fuel ips task A g) (dc_track (preferred (af_of A)) (complete_ext (af_of A)) A (query task))"
    and "track task = Some ''DC-ST'' \<Longrightarrow>
      rok (solve_switch fuel ips task A g) (dc_track (stable (af_of A)) (stable (af_of A)) A (query task))"
    and "track task = Some ''DC-SST'' \<Longrightarrow>
      rok (solve_switch fuel ips task A g) (dc_track (semi_stable (af_of A)) (semi_stable (af_of A)) A (query task))"
proof -
  note S = settingD[OF s]
  have co: "rok (answered (solve_dcco ips task A g True))
      (dc_track (complete_ext (af_of A)) (complete_ext (af_of A)) A (query task))"
    by (rule answered_rok, rule rok_weaken[OF solve_dcco_rok[OF S(1-3) q]], clarify, rule dc_number_answer) simp_all
  then show "rok (solve_switch fuel ips task A g) (dc_track (complete_ext (af_of A)) (complete_ext (af_of A)) A (query task))"
    if "track task = Some ''DC-CO''" using that by (simp add: solve_switch_def)
  show "rok (solve_switch fuel ips task A g) (dc_track (preferred (af_of A)) (complete_ext (af_of A)) A (query task))"
    if "track task = Some ''DC-PR''"
    using co that by (simp add: solve_switch_def dc_preferred[OF S(7)])
  have "rok (answered (solve_dcst ips task A g True))
      (dc_track (stable (af_of A)) (stable (af_of A)) A (query task))"
    by (rule answered_rok, rule rok_weaken[OF solve_dcst_rok[OF S(1-3) q]], clarify, rule dc_number_answer) simp_all
  then show "rok (solve_switch fuel ips task A g) (dc_track (stable (af_of A)) (stable (af_of A)) A (query task))"
    if "track task = Some ''DC-ST''" using that by (simp add: solve_switch_def)
  have "rok (answered (solve_dcsst fuel ips task A g True))
      (dc_track (semi_stable (af_of A)) (semi_stable (af_of A)) A (query task))"
    by (rule answered_rok, rule rok_weaken[OF solve_dcsst_rok[OF S(1-4) q S(5)]]) (auto intro: dc_answer_track)
  then show "rok (solve_switch fuel ips task A g) (dc_track (semi_stable (af_of A)) (semi_stable (af_of A)) A (query task))"
    if "track task = Some ''DC-SST''" using that by (simp add: solve_switch_def)
qed

lemma switch_ds:
  assumes s: "setting fuel ips A g" and q: "query task < number_of_arguments A"
  shows "track task = Some ''DS-PR'' \<Longrightarrow>
      rok (solve_switch fuel ips task A g) (ds_track (preferred (af_of A)) A (query task))"
    and "track task = Some ''DS-ST'' \<Longrightarrow>
      rok (solve_switch fuel ips task A g) (ds_track (stable (af_of A)) A (query task))"
    and "track task = Some ''DS-SST'' \<Longrightarrow>
      rok (solve_switch fuel ips task A g) (ds_track (semi_stable (af_of A)) A (query task))"
proof -
  note S = settingD[OF s]
  have "rok (answered (solve_dspr fuel ips task A g True)) (ds_track (preferred (af_of A)) A (query task))"
    by (rule answered_rok, rule rok_weaken[OF solve_dspr_rok[OF S(1-4) q S(5)]])
      (auto intro: dspr_answer_track)
  then show "rok (solve_switch fuel ips task A g) (ds_track (preferred (af_of A)) A (query task))"
    if "track task = Some ''DS-PR''" using that by (simp add: solve_switch_def)
  have "rok (answered (solve_dsst ips task A g True)) (ds_track (stable (af_of A)) A (query task))"
    by (rule answered_rok, rule rok_weaken[OF solve_dsst_rok[OF S(1-3) q]], clarify,
        rule ds_witness_answer[OF listsI(2)]) simp_all
  then show "rok (solve_switch fuel ips task A g) (ds_track (stable (af_of A)) A (query task))"
    if "track task = Some ''DS-ST''" using that by (simp add: solve_switch_def)
  have "rok (answered (solve_dssst fuel ips task A g True)) (ds_track (semi_stable (af_of A)) A (query task))"
    by (rule answered_rok, rule rok_weaken[OF solve_dssst_rok[OF S(1-4) q S(5)]]) (auto intro: ds_answer_track)
  then show "rok (solve_switch fuel ips task A g) (ds_track (semi_stable (af_of A)) A (query task))"
    if "track task = Some ''DS-SST''" using that by (simp add: solve_switch_def)
qed

text \<open>There is one ideal extension, so that both kinds of query ask for membership in it.\<close>

lemma ideal_query:
  assumes "ideal_ext F E"
  shows "credulous (ideal_ext F) q \<longleftrightarrow> q \<in> E" "skeptical (ideal_ext F) q \<longleftrightarrow> q \<in> E"
proof -
  have "ideal_ext F E' \<longleftrightarrow> E' = E" for E' using assms ideal_ext_unique by blast
  then show "credulous (ideal_ext F) q \<longleftrightarrow> q \<in> E" "skeptical (ideal_ext F) q \<longleftrightarrow> q \<in> E"
    by (simp_all add: credulous_def skeptical_def)
qed

lemma switch_ideal:
  assumes s: "setting fuel ips A g" and q: "query task < number_of_arguments A"
    and t: "track task = Some ''DC-ID'' \<or> track task = Some ''DS-ID''"
  shows "rok (solve_switch fuel ips task A g) (\<lambda>out.
    dc_track (ideal_ext (af_of A)) (ideal_ext (af_of A)) A (query task) out \<and>
    ds_track (ideal_ext (af_of A)) A (query task) out)"
proof -
  note S = settingD[OF s]
  have "solve_switch fuel ips task A g =
      rbind (compute_ideal fuel ips task A g) (\<lambda>ideal. Inr (print_ideal task A ideal))"
    using t by (auto simp: solve_switch_def PRINT_WITNESS_def)
  moreover have "rok \<dots> (\<lambda>out. dc_track (ideal_ext (af_of A)) (ideal_ext (af_of A)) A (query task) out \<and>
    ds_track (ideal_ext (af_of A)) A (query task) out)"
  proof (rule rok_bind[OF compute_ideal_rok[OF S(1-3,6)]], clarify, goal_cases)
    case (1 r E)
    define b w where "b \<longleftrightarrow> query task \<in> E" and "w = raset__print_i23 r (ids2arguments A)"
    have w: "lists_ext A E w" using raset_is_prints[OF 1(1)] by (simp add: listsI w_def)
    have out: "print_ideal task A r = (if b then YES else NO) @ w"
      using raset_is_contains[OF 1(1) q] by (simp add: print_ideal_def b_def w_def)
    have "dc_track (ideal_ext (af_of A)) (ideal_ext (af_of A)) A (query task) (print_ideal task A r)"
      by (rule dc_trackI[of b])
        (use w 1(2) maybe_listsI[OF w] in \<open>auto simp: ideal_query[OF 1(2)] b_def out\<close>)
    moreover have "ds_track (ideal_ext (af_of A)) A (query task) (print_ideal task A r)"
      by (rule ds_trackI[of b])
        (use w 1(2) maybe_listsI[OF w] in \<open>auto simp: ideal_query[OF 1(2)] b_def out\<close>)
    ultimately show ?case by simp
  qed
  ultimately show ?thesis by simp
qed

lemma switch_stage:
  assumes s: "setting fuel ips A g" and q: "query task < number_of_arguments A"
  shows "track task = Some ''DC-STG'' \<Longrightarrow>
      rsafe {SolverState} (solve_switch fuel ips task A g) (dc_track (stage (af_of A)) (stage (af_of A)) A (query task))"
    and "track task = Some ''DS-STG'' \<Longrightarrow>
      rsafe {SolverState} (solve_switch fuel ips task A g) (ds_track (stage (af_of A)) A (query task))"
proof -
  note S = settingD[OF s]
  have "rsafe {SolverState} (answered (solve_dcstg fuel ips task A g True))
      (dc_track (stage (af_of A)) (stage (af_of A)) A (query task))"
    by (rule answered_rsafe, rule rsafe_weaken[OF solve_dcstg_rok[OF S(1-4) q S(5)]]) (auto intro: dc_answer_track)
  then show "rsafe {SolverState} (solve_switch fuel ips task A g) (dc_track (stage (af_of A)) (stage (af_of A)) A (query task))"
    if "track task = Some ''DC-STG''" using that by (simp add: solve_switch_def)
  have "rsafe {SolverState} (answered (solve_dsstg fuel ips task A g True))
      (ds_track (stage (af_of A)) A (query task))"
    by (rule answered_rsafe, rule rsafe_weaken[OF solve_dsstg_rok[OF S(1-4) q S(5)]]) (auto intro: ds_answer_track)
  then show "rsafe {SolverState} (solve_switch fuel ips task A g) (ds_track (stage (af_of A)) A (query task))"
    if "track task = Some ''DS-STG''" using that by (simp add: solve_switch_def)
qed

section \<open>The dispatcher\<close>

text \<open>Tracks that always go to \<open>doSolve\<close>, and those that the grounded extension may decide.\<close>

definition direct_tracks :: "string list" where
  "direct_tracks = [''EA-PR'', ''SE-PR'', ''SE-ST'', ''SE-SST'', ''SE-STG'', ''SE-ID'',
     ''CE-CO'', ''CE-PR'', ''CE-ST'', ''DC-STG'', ''DS-STG'']"

definition dc_tracks :: "string list" where
  "dc_tracks = [''DC-CO'', ''DC-PR'', ''DC-SST'', ''DC-ID'', ''DC-ST'']"

definition ds_tracks :: "string list" where
  "ds_tracks = [''DS-PR'', ''DS-ST'', ''DS-SST'', ''DS-ID'']"

lemmas track_groups = direct_tracks_def dc_tracks_def ds_tracks_def

text \<open>Semantics whose extensions are admissible and extend the grounded extension.\<close>

definition above :: "framework \<Rightarrow> (nat set \<Rightarrow> bool) \<Rightarrow> bool" where
  "above F sem \<longleftrightarrow> (\<forall>E. sem E \<longrightarrow> admissible F E \<and> grounded_ext F \<subseteq> E)"

text \<open>A set above the grounded extension has what the grounded extension has, and nothing it attacks.\<close>


lemma above_sems:
  assumes wfF: "wf_framework F"
  shows
  "above F (complete_ext F)" "above F (preferred F)" "above F (stable F)"
  "above F (semi_stable F)" "above F (ideal_ext F)"
proof -
  show "above F (complete_ext F)" "above F (preferred F)"
    using grounded_least grounded_preferred preferred_admissible
    by (auto simp: above_def complete_ext_def[of _ E for E])
  show "above F (stable F)"
    using stable_grounded[OF wfF] preferred_admissible[OF stable_preferred[OF wfF]] by (simp add: above_def)
  show "above F (semi_stable F)"
    using semi_stable_grounded semi_stable_iff_admissible[OF wfF] by (simp add: above_def)
  show "above F (ideal_ext F)"
    using grounded_ideal[of F] by (auto simp: above_def ideal_ext_def ideal_set_def)
qed

lemma above_query:
  assumes "above F sem" "sem E"
  shows "q \<in> grounded_ext F \<Longrightarrow> q \<in> E" and "q \<in> attacked F (grounded_ext F) \<Longrightarrow> q \<notin> E"
proof -
  from assms have "admissible F E" "grounded_ext F \<subseteq> E" by (simp_all add: above_def)
  then show "q \<in> grounded_ext F \<Longrightarrow> q \<in> E" "q \<in> attacked F (grounded_ext F) \<Longrightarrow> q \<notin> E"
    using admissible_cf[of F E] by (auto simp: attacked_def)
qed

lemma se_answer_witness:
  assumes "\<exists>E. sem E" "se_answer sem A w"
  shows "\<exists>E. sem E \<and> lists_ext A E w"
  using assms listsI(1) unfolding se_answer_def by blast

lemma yes_witness:
  assumes run: "rok m (se_answer sem A)" and ex: "\<exists>E. sem E" and ab: "above (af_of A) sem"
    and wit: "\<And>E. sem E \<Longrightarrow> wit E" and q: "q \<in> grounded_ext (af_of A)"
  shows "rok (rbind m (\<lambda>w. Inr (YES @ w))) (dc_track sem wit A q)"
proof (rule rok_bind[OF run])
  fix w assume "se_answer sem A w"
  then obtain E where E: "sem E" "lists_ext A E w" using se_answer_witness[OF ex] by blast
  with above_query(1)[OF ab E(1) q] have "credulous sem q" "wit E" "q \<in> E"
    using wit by (auto simp: credulous_def)
  with E show "rok (Inr (YES @ w)) (dc_track sem wit A q)" by (auto simp: dc_track_def)
qed

lemma no_witness:
  assumes run: "rok m (se_answer sem A)" and ex: "\<exists>E. sem E" and ab: "above (af_of A) sem"
    and q: "q \<in> attacked (af_of A) (grounded_ext (af_of A))"
  shows "rok (rbind m (\<lambda>w. Inr (NO @ w))) (ds_track sem A q)"
proof (rule rok_bind[OF run])
  fix w assume "se_answer sem A w"
  then obtain E where E: "sem E" "lists_ext A E w" using se_answer_witness[OF ex] by blast
  with above_query(2)[OF ab E(1) q] have "\<not> skeptical sem q" "q \<notin> E"
    by (auto simp: skeptical_def)
  with E show "rok (Inr (NO @ w)) (ds_track sem A q)" by (auto simp: ds_track_def)
qed

lemma plain_no:
  "above (af_of A) sem \<Longrightarrow> q \<in> attacked (af_of A) (grounded_ext (af_of A)) \<Longrightarrow> dc_track sem wit A q NO"
  using above_query(2) by (auto simp: dc_track_def credulous_def intro!: exI[of _ "[]"])

lemma plain_yes: "above (af_of A) sem \<Longrightarrow> q \<in> grounded_ext (af_of A) \<Longrightarrow> ds_track sem A q YES"
  using above_query(1) by (auto simp: ds_track_def skeptical_def intro!: exI[of _ "[]"])

lemma some_extension:
  assumes wfF: "wf_framework F"
  shows
  "\<exists>E. preferred F E" "\<exists>E. semi_stable F E" "\<exists>E. ideal_ext F E"
proof -
  show "\<exists>E. preferred F E" "\<exists>E. semi_stable F E"
    using preferred_exists semi_stable_exists wfF by blast+
  show "\<exists>E. ideal_ext F E"
  proof -
    let ?E = "\<Union>{E. ideal_set F E}"
    have fin: "finite {E. ideal_set F E}"
      by (rule finite_subset[of _ "Pow (args F)"])
        (use wfF admissible_subset in \<open>auto simp: ideal_set_def wf_framework_def\<close>)
    have "finite I \<Longrightarrow> I \<subseteq> {E. ideal_set F E} \<Longrightarrow> ideal_set F (\<Union>I)" for I
    proof (induction I rule: finite_induct)
      case empty
      show ?case by (simp add: ideal_set_def)
    next
      case (insert E I)
      then show ?case using ideal_set_union[OF wfF] by simp
    qed
    from this[OF fin order_refl] show ?thesis
      by (intro exI[of _ ?E]) (auto simp: ideal_ext_def)
  qed
qed

text \<open>
  A dispatcher only needs to know that its procedures are right on the tracks it hands over: the
  interface between \<open>taas__solve\<close> and the function pointer \<open>doSolve\<close>.
\<close>

locale track_solver =
  fixes doSolve :: "TaskSpecification \<Rightarrow> AAF \<Rightarrow> Labeling \<Rightarrow> string result"
    and ready_for :: "AAF \<Rightarrow> Labeling \<Rightarrow> bool"
  assumes wf: "ready_for A g \<Longrightarrow> wf_aaf A" and grounded: "ready_for A g \<Longrightarrow> grounded_labeling A g"
    and names: "ready_for A g \<Longrightarrow> names_fit 99 A (grounded_ext (af_of A))"
    and solves: "ready_for A g \<Longrightarrow> track task = Some t \<Longrightarrow> t \<in> set solver_tracks \<Longrightarrow>
      query task < number_of_arguments A \<Longrightarrow> rok (doSolve task A g) (track_answer t A (query task))"
    and solves_safe: "ready_for A g \<Longrightarrow> track task = Some t \<Longrightarrow> t \<in> set stage_tracks \<Longrightarrow>
      query task < number_of_arguments A \<Longrightarrow>
      rsafe {SolverState} (doSolve task A g) (track_answer t A (query task))"
begin

lemma in_iff:
  assumes "ready_for A g" "i < number_of_arguments A"
  shows "bit_at (lab_in g) i \<longleftrightarrow> i \<in> grounded_ext (af_of A)"
    and "bit_at (lab_out g) i \<longleftrightarrow> i \<in> attacked (af_of A) (grounded_ext (af_of A))"
  using grounded_labelingD[OF grounded[OF assms(1)]] assms(2) by simp_all

lemma print: "ready_for A g \<Longrightarrow> rok (print_labeling g A) (prints_ext A (grounded_ext (af_of A)))"
  by (rule prints_grounded[OF grounded names])

lemma dispatch_grounded:
  assumes r: "ready_for A g" and t: "track task = Some t" "t \<in> set grounded_tracks" and q: "query task < number_of_arguments A"
  shows "rok (dispatch doSolve task A g) (track_answer t A (query task))"
proof -
  let ?F = "af_of A" and ?q = "query task"
  have co: "complete_ext ?F (grounded_ext ?F)" by (rule grounded_complete)
  have sk: "skeptical (complete_ext ?F) ?q \<longleftrightarrow> ?q \<in> grounded_ext ?F"
    using co grounded_least by (auto simp: skeptical_def)
  have gr: "credulous (grounded_sem ?F) ?q \<longleftrightarrow> ?q \<in> grounded_ext ?F"
      "skeptical (grounded_sem ?F) ?q \<longleftrightarrow> ?q \<in> grounded_ext ?F"
    by (simp_all add: credulous_def skeptical_def grounded_sem_def)
  have se: "rok (print_labeling g A) (se_answer (grounded_sem ?F) A)"
      "rok (print_labeling g A) (se_answer (complete_ext ?F) A)"
    by (rule rok_weaken[OF print[OF r]], use co in \<open>auto simp: se_answer_def grounded_sem_def\<close>)+
  have yn: "rok (rbind (print_labeling g A)
        (\<lambda>w. Inr ((if bit_at (lab_in g) (query task) then YES else NO) @ w))) Q"
    if "\<And>w. lists_ext A (grounded_ext ?F) w \<Longrightarrow>
          Q ((if ?q \<in> grounded_ext ?F then YES else NO) @ w)" for Q
    by (rule rok_bind[OF print[OF r]]) (use that listsI(1) in \<open>simp add: in_iff[OF r q]\<close>)
  have dc: "rok (rbind (print_labeling g A)
        (\<lambda>w. Inr ((if bit_at (lab_in g) (query task) then YES else NO) @ w)))
      (dc_track (grounded_sem ?F) (grounded_sem ?F) A ?q)"
    by (rule yn, rule dc_trackI[OF gr(1)[symmetric]]) (auto simp: grounded_sem_def intro: maybe_listsI)
  have ds: "rok (rbind (print_labeling g A)
        (\<lambda>w. Inr ((if bit_at (lab_in g) (query task) then YES else NO) @ w)))
      (ds_track (grounded_sem ?F) A ?q)"
    by (rule yn, rule ds_trackI[OF gr(2)[symmetric]]) (auto simp: grounded_sem_def intro: maybe_listsI)
  have dsco: "rok (rbind (print_labeling g A)
        (\<lambda>w. Inr ((if bit_at (lab_in g) (query task) then YES else NO) @ w)))
      (ds_track (complete_ext ?F) A ?q)"
    by (rule yn, rule ds_trackI[OF sk[symmetric]]) (use co in \<open>auto intro: maybe_listsI\<close>)
  from t(2) consider "t = ''SE-GR''" | "t = ''SE-CO''" | "t = ''DC-GR''" | "t = ''DS-GR''" | "t = ''DS-CO''"
    by (auto simp: grounded_tracks_def)
  then show ?thesis
    by cases (use t(1) se dc ds dsco in \<open>simp_all add: dispatch_def track_answer_simps split del: if_split\<close>)
qed

lemma dispatch_decided:
  assumes r: "ready_for A g" and q: "query task < number_of_arguments A"
  shows "track task = Some ''DC-CO'' \<Longrightarrow> query task \<in> grounded_ext (af_of A) \<Longrightarrow>
      rok (dispatch doSolve task A g) (track_answer ''DC-CO'' A (query task))"
    and "track task = Some ''DC-PR'' \<Longrightarrow> query task \<in> grounded_ext (af_of A) \<Longrightarrow>
      rok (dispatch doSolve task A g) (track_answer ''DC-PR'' A (query task))"
    and "track task = Some ''DC-SST'' \<Longrightarrow> query task \<in> grounded_ext (af_of A) \<Longrightarrow>
      rok (dispatch doSolve task A g) (track_answer ''DC-SST'' A (query task))"
    and "track task = Some ''DC-ID'' \<Longrightarrow> query task \<in> grounded_ext (af_of A) \<Longrightarrow>
      rok (dispatch doSolve task A g) (track_answer ''DC-ID'' A (query task))"
    and "track task = Some ''DS-PR'' \<Longrightarrow> query task \<in> attacked (af_of A) (grounded_ext (af_of A)) \<Longrightarrow>
      rok (dispatch doSolve task A g) (track_answer ''DS-PR'' A (query task))"
    and "track task = Some ''DS-SST'' \<Longrightarrow> query task \<in> attacked (af_of A) (grounded_ext (af_of A)) \<Longrightarrow>
      rok (dispatch doSolve task A g) (track_answer ''DS-SST'' A (query task))"
    and "track task = Some ''DS-ID'' \<Longrightarrow> query task \<in> attacked (af_of A) (grounded_ext (af_of A)) \<Longrightarrow>
      rok (dispatch doSolve task A g) (track_answer ''DS-ID'' A (query task))"
proof -
  have wfF: "wf_framework (af_of A)" by (rule wf_af_of[OF wf[OF r]])
  have se: "rok (doSolve (task\<lparr>track := Some t\<rparr>) A g) (track_answer t A (query task))"
    if "t \<in> set solver_tracks" for t
    using solves[OF r, of "task\<lparr>track := Some t\<rparr>" t] q that by (simp add: query_def)
  have pr: "rok (doSolve (task\<lparr>track := Some ''SE-PR''\<rparr>) A g) (se_answer (preferred (af_of A)) A)"
    using se[of "''SE-PR''"] by (simp add: solver_tracks_def track_answer_simps)
  have sst: "rok (doSolve (task\<lparr>track := Some ''SE-SST''\<rparr>) A g) (se_answer (semi_stable (af_of A)) A)"
    using se[of "''SE-SST''"] by (simp add: solver_tracks_def track_answer_simps)
  have idl: "rok (doSolve (task\<lparr>track := Some ''SE-ID''\<rparr>) A g) (se_answer (ideal_ext (af_of A)) A)"
    using se[of "''SE-ID''"] by (simp add: solver_tracks_def track_answer_simps)
  have notin: "query task \<notin> grounded_ext (af_of A)" if "query task \<in> attacked (af_of A) (grounded_ext (af_of A))"
    using that grounded_conflict_free by (auto simp: attacked_def)
  show "rok (dispatch doSolve task A g) (track_answer ''DC-CO'' A (query task))"
    if t: "track task = Some ''DC-CO''" and G: "query task \<in> grounded_ext (af_of A)"
  proof -
    have "rok (print_labeling g A) (se_answer (complete_ext (af_of A)) A)"
      by (rule rok_weaken[OF print[OF r]]) (use grounded_complete in \<open>auto simp: se_answer_def\<close>)
    from yes_witness[OF this _ above_sems(1)[OF wfF] _ G, of "complete_ext (af_of A)"] show ?thesis
      using t G grounded_complete
      by (auto simp: dispatch_def track_answer_simps in_iff[OF r q] PRINT_WITNESS_def)
  qed
  show "rok (dispatch doSolve task A g) (track_answer ''DC-PR'' A (query task))"
    if t: "track task = Some ''DC-PR''" and G: "query task \<in> grounded_ext (af_of A)"
    using yes_witness[OF pr some_extension(1)[OF wfF] above_sems(2)[OF wfF] preferred_complete G] t G
    by (simp add: dispatch_def track_answer_simps in_iff[OF r q] PRINT_WITNESS_def Let_def)
  show "rok (dispatch doSolve task A g) (track_answer ''DC-SST'' A (query task))"
    if t: "track task = Some ''DC-SST''" and G: "query task \<in> grounded_ext (af_of A)"
    using yes_witness[OF sst some_extension(2)[OF wfF] above_sems(4)[OF wfF] _ G] t G
    by (simp add: dispatch_def track_answer_simps in_iff[OF r q] PRINT_WITNESS_def Let_def)
  show "rok (dispatch doSolve task A g) (track_answer ''DC-ID'' A (query task))"
    if t: "track task = Some ''DC-ID''" and G: "query task \<in> grounded_ext (af_of A)"
    using yes_witness[OF idl some_extension(3)[OF wfF] above_sems(5)[OF wfF] _ G] t G
    by (simp add: dispatch_def track_answer_simps in_iff[OF r q] PRINT_WITNESS_def Let_def)
  show "rok (dispatch doSolve task A g) (track_answer ''DS-PR'' A (query task))"
    if t: "track task = Some ''DS-PR''" and O: "query task \<in> attacked (af_of A) (grounded_ext (af_of A))"
    using no_witness[OF pr some_extension(1)[OF wfF] above_sems(2)[OF wfF] O] t O notin[OF O]
    by (simp add: dispatch_def track_answer_simps in_iff[OF r q] PRINT_WITNESS_def Let_def)
  show "rok (dispatch doSolve task A g) (track_answer ''DS-SST'' A (query task))"
    if t: "track task = Some ''DS-SST''" and O: "query task \<in> attacked (af_of A) (grounded_ext (af_of A))"
    using no_witness[OF sst some_extension(2)[OF wfF] above_sems(4)[OF wfF] O] t O notin[OF O]
    by (simp add: dispatch_def track_answer_simps in_iff[OF r q] PRINT_WITNESS_def Let_def)
  show "rok (dispatch doSolve task A g) (track_answer ''DS-ID'' A (query task))"
    if t: "track task = Some ''DS-ID''" and O: "query task \<in> attacked (af_of A) (grounded_ext (af_of A))"
    using no_witness[OF idl some_extension(3)[OF wfF] above_sems(5)[OF wfF] O] t O notin[OF O]
    by (simp add: dispatch_def track_answer_simps in_iff[OF r q] PRINT_WITNESS_def Let_def)
qed

lemma dispatch_branches:
  "track task = Some t \<Longrightarrow> t \<in> set direct_tracks \<Longrightarrow>
   dispatch doSolve task A g = doSolve task A g"
  "track task = Some t \<Longrightarrow> t \<in> set dc_tracks \<Longrightarrow>
   t = ''DC-ST'' \<or> \<not> bit_at (lab_in g) (query task) \<Longrightarrow>
   dispatch doSolve task A g =
     (if bit_at (lab_out g) (query task) then Inr NO else doSolve task A g)"
  "track task = Some t \<Longrightarrow> t \<in> set ds_tracks \<Longrightarrow>
   t = ''DS-ST'' \<or> \<not> bit_at (lab_out g) (query task) \<or> bit_at (lab_in g) (query task) \<Longrightarrow>
   dispatch doSolve task A g =
     (if bit_at (lab_in g) (query task) then Inr YES else doSolve task A g)"
  unfolding track_groups list.set insert_iff empty_iff by (elim disjE; simp add: dispatch_def)+

lemma dispatch_solver:
  assumes r: "ready_for A g" and t: "track task = Some t" "t \<in> set solver_tracks" and q: "query task < number_of_arguments A"
  shows "rok (dispatch doSolve task A g) (track_answer t A (query task))"
proof -
  have wfF: "wf_framework (af_of A)" by (rule wf_af_of[OF wf[OF r]])
  let ?in = "query task \<in> grounded_ext (af_of A)"
  let ?out = "query task \<in> attacked (af_of A) (grounded_ext (af_of A))"
  note direct = solves[OF r t q]
  have no: "t \<in> set dc_tracks \<Longrightarrow> ?out \<Longrightarrow> track_answer t A (query task) NO"
    unfolding track_groups list.set insert_iff empty_iff by (elim disjE; simp add: track_answer_simps plain_no above_sems wfF)
  have yes: "t \<in> set ds_tracks \<Longrightarrow> ?in \<Longrightarrow> track_answer t A (query task) YES"
    unfolding track_groups list.set insert_iff empty_iff by (elim disjE; simp add: track_answer_simps plain_yes above_sems wfF)
  have "\<forall>t\<in>set solver_tracks. t \<in> set direct_tracks \<or> t \<in> set dc_tracks \<or> t \<in> set ds_tracks"
    by (simp add: solver_tracks_def track_groups)
  with t(2) consider (plain) "t \<in> set direct_tracks" | (dc) "t \<in> set dc_tracks" | (ds) "t \<in> set ds_tracks"
    by blast
  then show ?thesis
  proof cases
    case plain
    then show ?thesis using direct dispatch_branches(1)[OF t(1)] by simp
  next
    case dc
    show ?thesis
    proof (cases "t = ''DC-ST'' \<or> \<not> ?in")
      case True
      then show ?thesis
        using dispatch_branches(2)[OF t(1) dc] direct no[OF dc] by (simp add: in_iff[OF r q])
    next
      case False
      then show ?thesis using dc dispatch_decided(1-4)[OF r q] t(1) by (auto simp: track_groups)
    qed
  next
    case ds
    show ?thesis
    proof (cases "t = ''DS-ST'' \<or> \<not> ?out \<or> ?in")
      case True
      then show ?thesis
        using dispatch_branches(3)[OF t(1) ds] direct yes[OF ds] by (simp add: in_iff[OF r q])
    next
      case False
      then show ?thesis using ds dispatch_decided(5-7)[OF r q] t(1) by (auto simp: track_groups)
    qed
  qed
qed

lemma dispatch_stage:
  assumes r: "ready_for A g" and t: "track task = Some t" "t \<in> set stage_tracks" and q: "query task < number_of_arguments A"
  shows "rsafe {SolverState} (dispatch doSolve task A g) (track_answer t A (query task))"
proof -
  have "dispatch doSolve task A g = doSolve task A g"
    by (rule dispatch_branches(1)[OF t(1)]) (use t(2) in \<open>auto simp: stage_tracks_def track_groups\<close>)
  then show ?thesis using solves_safe[OF r t q] by simp
qed

end

section \<open>The program meets its tracks\<close>

lemma with_track: "track task = Some t \<Longrightarrow> task\<lparr>track := Some t\<rparr> = task"
  by simp

lemma switch_solver:
  assumes s: "setting fuel ips A g" and t: "track task = Some t" "t \<in> set solver_tracks"
    and q: "query task < number_of_arguments A"
  shows "rok (solve_switch fuel ips task A g) (track_answer t A (query task))"
proof -
  note se = switch_se[OF s, of task] and count = switch_count[OF s, of task]
    and dc = switch_dc[OF s q] and ds = switch_ds[OF s q]
  have idl: "rok (solve_switch fuel ips task A g) (track_answer t A (query task))"
    if "t \<in> {''DC-ID'', ''DS-ID''}"
    using switch_ideal[OF s q] t(1) that
    by (auto simp: track_answer_simps elim: rok_weaken)
  show ?thesis
    using t(2) unfolding solver_tracks_def list.set insert_iff empty_iff
    by (elim disjE FalseE)
      (use t(1) idl se count dc ds in \<open>simp_all add: track_answer_simps with_track\<close>)
qed

lemma switch_solver_stage:
  assumes s: "setting fuel ips A g" and t: "track task = Some t" "t \<in> set stage_tracks"
    and q: "query task < number_of_arguments A"
  shows "rsafe {SolverState} (solve_switch fuel ips task A g) (track_answer t A (query task))"
  using switch_stage[OF s q] t by (auto simp: stage_tracks_def track_answer_simps)

interpretation fudge: track_solver "solve_switch fuel ips" "setting fuel ips" for fuel ips
proof
  show "setting fuel ips A g \<Longrightarrow> wf_aaf A" "setting fuel ips A g \<Longrightarrow> grounded_labeling A g"
    "setting fuel ips A g \<Longrightarrow> names_fit 99 A (grounded_ext (af_of A))" for A g
    by (simp_all add: settingD)
qed (auto intro: switch_solver switch_solver_stage)

text \<open>The counters change while the grounded extension is computed; nothing later depends on them.\<close>

lemma counters_irrelevant [simp]:
  "wf_aaf (A\<lparr>number_of_attackers := c\<rparr>) \<longleftrightarrow> wf_aaf A"
  "af_of (A\<lparr>number_of_attackers := c\<rparr>) = af_of A"
  "grounded_labeling (A\<lparr>number_of_attackers := c\<rparr>) g \<longleftrightarrow> grounded_labeling A g"
  "names_fit m (A\<lparr>number_of_attackers := c\<rparr>) I \<longleftrightarrow> names_fit m A I"
  "prints_ext (A\<lparr>number_of_attackers := c\<rparr>) = prints_ext A"
  "prints_list (A\<lparr>number_of_attackers := c\<rparr>) = prints_list A"
  by (auto simp: wf_aaf_def af_of_def grounded_labeling_def names_fit_def Let_def
      prints_ext_def[abs_def] prints_list_def[abs_def] print_name_def[abs_def])

lemma track_answer_counters: "track_answer t (A\<lparr>number_of_attackers := c\<rparr>) = track_answer t A"
  by (intro ext) (simp add: track_answer_def se_answer_def dc_track_def ds_track_def lists_ext_def
      maybe_lists_def cong: if_cong)

lemma grounded_setting:
  assumes "wf_aaf A" "fresh_aaf A" "oracle_ok ips" "names_fit 99 A (grounded_ext (af_of A))"
    and fuel: "2 ^ number_of_arguments A < fuel"
  shows "rok (taas__compute_grounded fuel A (taas__lab_init False)) (\<lambda>(A', g).
    setting fuel ips A' g \<and> (\<exists>c. A' = A\<lparr>number_of_attackers := c\<rparr>))"
proof -
  have n: "number_of_arguments A < fuel"
    using fuel less_exp[of "number_of_arguments A"] by linarith
  have "\<not> twoValued (taas__lab_init False)" by (simp add: taas__lab_init_def Let_def)
  from compute_grounded_rok[OF assms(1,2) this n] show ?thesis
  proof (rule rok_weaken, clarify)
    fix A' g assume g: "grounded_labeling A g" and A': "A' = A\<lparr>number_of_attackers := number_of_attackers A'\<rparr>"
    then obtain c where c: "A' = A\<lparr>number_of_attackers := c\<rparr>" by blast
    show "setting fuel ips A' g \<and> (\<exists>c. A' = A\<lparr>number_of_attackers := c\<rparr>)"
      using assms g unfolding c setting_def by auto
  qed
qed

text \<open>
  From the command line and a readable file to the answer: \<open>read_task\<close> says that the task and the
  framework are in place.
\<close>

definition read_task ::
    "(string \<Rightarrow> string option) \<Rightarrow> string list \<Rightarrow> TaskSpecification \<Rightarrow> AAF \<Rightarrow> bool" where
  "read_task fs argv task A \<longleftrightarrow> (\<exists>task0.
     taas__cmd_handle argv solver_info = Inr (Some task0, '''') \<and>
     (if format task0 = Some ''tgf'' then taas__readFile_tgf fs (file_name task0)
      else taas__readFile_i23 fs (file_name task0)) = Inr A \<and>
     taas__update_arg_param task0 A = Inr task)"

lemma main_output_read:
  assumes "read_task fs argv task A"
  shows "main_output fuel ips fs argv =
    rbind (taas__compute_grounded fuel A (taas__lab_init False))
      (\<lambda>(A, g). dispatch (solve_switch fuel ips) task A g)"
  using assms by (auto simp: read_task_def main_output_def taas__solve_def)

lemma main_output_rok:
  assumes rd: "read_task fs argv task A" and A: "wf_aaf A" "fresh_aaf A"
    and env: "oracle_ok ips" "names_fit 99 A (grounded_ext (af_of A))" "2 ^ number_of_arguments A < fuel"
    and t: "track task = Some t" "t \<in> set (grounded_tracks @ solver_tracks)"
    and q: "query task < number_of_arguments A"
  shows "rok (main_output fuel ips fs argv) (track_answer t A (query task))"
  unfolding main_output_read[OF rd]
proof (rule rok_bind[OF grounded_setting[OF A env]], clarify)
  fix g c assume s: "setting fuel ips (A\<lparr>number_of_attackers := c\<rparr>) g"
  have "rok (dispatch (solve_switch fuel ips) task (A\<lparr>number_of_attackers := c\<rparr>) g)
      (track_answer t (A\<lparr>number_of_attackers := c\<rparr>) (query task))"
    using t(2) fudge.dispatch_grounded[OF s t(1)] fudge.dispatch_solver[OF s t(1)] q by auto
  then show "rok (dispatch (solve_switch fuel ips) task (A\<lparr>number_of_attackers := c\<rparr>) g)
      (track_answer t A (query task))"
    by (simp only: track_answer_counters)
qed

lemma main_output_stage:
  assumes rd: "read_task fs argv task A" and A: "wf_aaf A" "fresh_aaf A"
    and env: "oracle_ok ips" "names_fit 99 A (grounded_ext (af_of A))" "2 ^ number_of_arguments A < fuel"
    and t: "track task = Some t" "t \<in> set stage_tracks" and q: "query task < number_of_arguments A"
  shows "rsafe {SolverState} (main_output fuel ips fs argv) (track_answer t A (query task))"
  unfolding main_output_read[OF rd]
proof (rule rsafe_rok_bind[OF grounded_setting[OF A env]], clarify)
  fix g c assume s: "setting fuel ips (A\<lparr>number_of_attackers := c\<rparr>) g"
  have "rsafe {SolverState} (dispatch (solve_switch fuel ips) task (A\<lparr>number_of_attackers := c\<rparr>) g)
      (track_answer t (A\<lparr>number_of_attackers := c\<rparr>) (query task))"
    using fudge.dispatch_stage[OF s t] q by auto
  then show "rsafe {SolverState} (dispatch (solve_switch fuel ips) task (A\<lparr>number_of_attackers := c\<rparr>) g)
      (track_answer t A (query task))"
    by (simp only: track_answer_counters)
qed

text \<open>Without a task, the program prints information about itself.\<close>

lemma main_output_info:
  "main_output fuel ips fs [prog, ''--problems''] = Inr (problems solver_info @ newline)"
  "main_output fuel ips fs [prog, ''--formats''] = Inr (''[i23]'' @ newline)"
  "main_output fuel ips fs [prog] = Inr (description solver_info @ newline)"
  by (simp_all add: main_output_def taas__solve_def taas__cmd_handle_def empty_task_def
      solver_info_def taas__solverinformation_def)

section \<open>From the text of the input file to the answer\<close>

lemma length_show_nat: "0 < k \<Longrightarrow> n < 10 ^ k \<Longrightarrow> length (show_nat n) \<le> k"
proof (induction k arbitrary: n)
  case (Suc k)
  show ?case
  proof (cases "n < 10")
    case True
    then show ?thesis by (simp add: show_nat.simps)
  next
    case False
    then have k: "0 < k" using Suc.prems by (cases k) auto
    have "n div 10 < 10 ^ k" using Suc.prems by (simp add: less_mult_imp_div_less mult.commute)
    then show ?thesis using Suc.IH[OF k] False by (subst show_nat.simps) simp
  qed
qed simp

text \<open>A command line for a query in an ICCMA 2023 file; the tracks without a query ignore it.\<close>

definition query_argv :: "string \<Rightarrow> string \<Rightarrow> string \<Rightarrow> nat \<Rightarrow> string list" where
  "query_argv prog t file_arg q = [prog, ''-p'', t, ''-f'', file_arg, ''-a'', show_nat (q + 1)]"

definition is_query :: "string \<Rightarrow> bool" where
  "is_query t \<longleftrightarrow> take 2 t = ''DS'' \<or> take 2 t = ''DC''"

lemma clean_show_nat: "clean (show_nat n)"
  using show_nat_facts[of n] by (simp add: clean_def)

lemma read_task_i23:
  assumes fs: "fs p = Some (i23_text comments n items)" and n: "n < 2 ^ 31"
    and ok: "\<forall>c\<in>set comments. item_ok n (Comment c)" "\<forall>i\<in>set items. item_ok n i"
    and d: "distinct (item_list_attacks items)" and q: "q < n" and t: "t \<noteq> ''''"
  shows "\<exists>A task. read_task fs (query_argv prog t p q) task A \<and> wf_aaf A \<and> fresh_aaf A \<and>
    af_of A = \<lparr>args = {..<n}, attacks = set (item_list_attacks items)\<rparr> \<and>
    ids2arguments A = map (\<lambda>i. show_nat (i + 1)) [0..<n] \<and>
    track task = Some t \<and> query task < n \<and> (is_query t \<longrightarrow> query task = q)"
proof -
  let ?names = "map (\<lambda>i. show_nat (i + 1)) [0..<n]"
  obtain A where A: "taas__readFile_i23 fs (Some p) = Inr A" "reads n ?names (item_list_attacks items) A"
      "arguments2ids A = ids_of ?names"
    using readFile_i23_text[where fs = fs and p = p, OF fs n ok] by (auto elim: rokE)
  define task0 where "task0 = \<lparr>track = Some t, problem = take 2 t, file_name = Some p, format = None,
    arg = -1, argAsString = Some (show_nat (q + 1)), additional_keys = [], additional_values = []\<rparr>"
  have cmd: "taas__cmd_handle (query_argv prog t p q) solver_info = Inr (Some task0, '''')"
    using t by (simp add: query_argv_def taas__cmd_handle_def empty_task_def next_arg_def task0_def)
  have dn: "distinct ?names" by (simp add: distinct_map inj_on_def show_nat_inj)
  have qn: "?names ! q = show_nat (q + 1)" using q by simp
  define task where "task = (if is_query t then task0\<lparr>arg := int q\<rparr> else task0)"
  have upd: "taas__update_arg_param task0 A = Inr task"
  proof (cases "is_query t")
    case True
    then show ?thesis
      using update_arg_param_query[of task0 ?names q A] A(3) dn q clean_show_nat[of "q + 1"] qn
      by (auto simp: task_def is_query_def task0_def)
  next
    case False
    then show ?thesis by (auto simp: taas__update_arg_param_def task_def is_query_def task0_def)
  qed
  have "read_task fs (query_argv prog t p q) task A"
    unfolding read_task_def using cmd upd A(1) by (intro exI[of _ task0]) (simp add: task0_def)
  moreover have "ids2arguments A = ?names" using A(2) by (simp add: reads_def)
  moreover have "track task = Some t" "query task < n" "is_query t \<longrightarrow> query task = q"
    using q by (auto simp: task_def task0_def query_def)
  ultimately show ?thesis using reads_wf[OF A(2) d] by blast
qed

lemma i23_names_fit:
  assumes "ids2arguments A = map (\<lambda>i. show_nat (i + 1)) [0..<n]" "n < 2 ^ 31" "I \<subseteq> {..<n}"
  shows "names_fit 99 A I"
proof -
  have "length (show_nat (i + 1)) \<le> 10" if "i < n" for i
    by (rule length_show_nat) (use that assms(2) in simp_all)
  then show ?thesis using assms unfolding names_fit_def by force
qed

text \<open>The end to end statement, for the numbers of arguments the fuel covers.\<close>

lemma main_output_i23:
  assumes fs: "fs p = Some (i23_text comments n items)" and n: "n < 2 ^ 31"
    and ok: "\<forall>c\<in>set comments. item_ok n (Comment c)" "\<forall>i\<in>set items. item_ok n i"
    and d: "distinct (item_list_attacks items)" and q: "q < n"
    and t: "t \<in> set (grounded_tracks @ solver_tracks)" and ips: "oracle_ok ips" and fuel: "2 ^ n < fuel"
  shows "\<exists>A out q'. main_output fuel ips fs (query_argv prog t p q) = Inr out \<and>
    af_of A = \<lparr>args = {..<n}, attacks = set (item_list_attacks items)\<rparr> \<and>
    ids2arguments A = map (\<lambda>i. show_nat (i + 1)) [0..<n] \<and> (is_query t \<longrightarrow> q' = q) \<and>
    track_answer t A q' out"
proof -
  have "t \<noteq> ''''" using t by (auto simp: grounded_tracks_def solver_tracks_def)
  from read_task_i23[where fs = fs and p = p, OF fs n ok d q this, of prog] obtain A task where
    A: "read_task fs (query_argv prog t p q) task A" "wf_aaf A" "fresh_aaf A"
      "af_of A = \<lparr>args = {..<n}, attacks = set (item_list_attacks items)\<rparr>"
      "ids2arguments A = map (\<lambda>i. show_nat (i + 1)) [0..<n]"
      "track task = Some t" "query task < n" "is_query t \<longrightarrow> query task = q" by blast
  have num: "number_of_arguments A = n"
    using A(4) args_af_of[of A] by simp
  have "names_fit 99 A (grounded_ext (af_of A))"
    using i23_names_fit[OF A(5) n] grounded_args[of _ "af_of A"] A(4) by auto
  then have "rok (main_output fuel ips fs (query_argv prog t p q)) (track_answer t A (query task))"
    using main_output_rok[OF A(1-3) ips _ _ A(6) t] fuel A(7) num by simp
  with A show ?thesis by (auto elim!: rokE)
qed

end
