(* ===== verification/Example.thy ===== *)
theory Example
  imports Driver
begin

text \<open>
  A framework on which the theorems of the development are instantiated: \<open>a\<close> and \<open>b\<close> attack each
  other, both attack \<open>c\<close>, and \<open>c\<close> attacks \<open>d\<close>.  No argument is unattacked, so that the grounded
  extension is empty; the preferred extensions are \<open>{a, d}\<close> and \<open>{b, d}\<close>.
\<close>

definition ex_names :: "string list" where
  "ex_names = [''a'', ''b'', ''c'', ''d'']"

definition ex_attacks :: "(nat \<times> nat) list" where
  "ex_attacks = [(0, 1), (1, 0), (0, 2), (1, 2), (2, 3)]"

definition ex_aaf :: AAF where
  "ex_aaf = \<lparr>ids2arguments = ex_names, arguments2ids = ids_of ex_names, number_of_arguments = 4,
     number_of_attacks = 5, children = [[2, 1], [2, 0], [3], []], parents = [[1], [0], [1, 0], [2]],
     number_of_attackers = [1, 1, 2, 1], initial = bitset__unsetAll (bitset__init 4),
     loops = bitset__unsetAll (bitset__init 4)\<rparr>"

definition ex_labeling :: Labeling where
  "ex_labeling = \<lparr>lab_in = bitset__unsetAll (bitset__init 4),
     lab_out = bitset__unsetAll (bitset__init 4), twoValued = False\<rparr>"

definition ex_task :: "string \<Rightarrow> nat \<Rightarrow> TaskSpecification" where
  "ex_task t q = empty_task\<lparr>track := Some t, problem := take 2 t, arg := int q\<rparr>"

lemma bits_none: "bits (bitset__unsetAll (bitset__init n)) = {}" "bit_length (bitset__unsetAll (bitset__init n)) = n"
    "wf_bitset (bitset__unsetAll (bitset__init n))"
proof -
  show "bit_length (bitset__unsetAll (bitset__init n)) = n"
    by (simp add: bitset__unsetAll_def bitset__init_def Let_def)
qed simp_all

lemma ex_reads: "reads 4 ex_names ex_attacks ex_aaf"
proof -
  have "[0..<4] = [0, 1, 2, 3 :: nat]" by (simp add: upt_conv_Cons)
  then show ?thesis
    by (auto simp: reads_def ex_aaf_def ex_names_def ex_attacks_def targets_def sources_def bits_none)
qed

lemma ex_distinct: "distinct ex_attacks"
  by (simp add: ex_attacks_def)

lemmas ex_wf = reads_wf(1)[OF ex_reads ex_distinct]
lemmas ex_fresh = reads_wf(2)[OF ex_reads ex_distinct]
lemmas ex_af = reads_wf(3)[OF ex_reads ex_distinct]

lemma ex_number [simp]: "number_of_arguments ex_aaf = 4"
  by (simp add: ex_aaf_def)

lemma ex_query [simp]: "query (ex_task t q) = q"
  by (simp add: ex_task_def query_def)

lemma ex_grounded: "grounded_ext (af_of ex_aaf) = {}"
proof -
  have att: "\<exists>b. (b, a) \<in> attacks (af_of ex_aaf)" if "a \<in> args (af_of ex_aaf)" for a
    using that by (auto simp: ex_af ex_attacks_def lessThan_def less_Suc_eq numeral_eq_Suc)
  have "\<not> a \<in> grounded_ext (af_of ex_aaf)" for a
  proof
    assume "a \<in> grounded_ext (af_of ex_aaf)"
    then show False by (induction rule: grounded_ext.induct) (use att in blast)
  qed
  then show ?thesis by blast
qed

lemma ex_labels: "grounded_labeling ex_aaf ex_labeling"
proof -
  have "\<not> bit_at (bitset__unsetAll (bitset__init 4)) i" if "i < 4" for i
    using that by (simp add: bit_at_bits bits_none)
  then show ?thesis
    by (simp add: grounded_labeling_def ex_labeling_def wf_labeling_def bits_none ex_grounded attacked_def)
qed

lemma ex_names_fit: "names_fit 99 ex_aaf (grounded_ext (af_of ex_aaf))"
  by (simp add: names_fit_def ex_grounded)

lemma ex_fuel: "2 ^ number_of_arguments ex_aaf < (17 :: nat)" "number_of_arguments ex_aaf < (17 :: nat)"
  by simp_all

lemmas ex_setup = ex_wf ex_labels brute_force_ok

lemma ex_card:
  assumes "\<And>E. sem E \<Longrightarrow> admissible (af_of ex_aaf) E"
  shows "card {E. sem E} < 17"
proof (rule card_extensions[where n = 4])
  show "sem E \<Longrightarrow> E \<subseteq> {..<4}" for E using assms[of E] admissible_subset[of "af_of ex_aaf" E] by simp
qed simp


section \<open>A labeling on which the two local checks differ\<close>

text \<open>\<open>0\<close> attacks itself and \<open>1\<close>; everything is undecided.\<close>

definition loop_aaf :: AAF where
  "loop_aaf = \<lparr>ids2arguments = [''a'', ''b''], arguments2ids = ids_of [''a'', ''b''], number_of_arguments = 2,
     number_of_attacks = 2, children = [[1, 0], []], parents = [[0], [0]],
     number_of_attackers = [1, 1], initial = bitset__unsetAll (bitset__init 2),
     loops = bitset__set (bitset__unsetAll (bitset__init 2)) 0\<rparr>"

definition loop_labeling :: Labeling where
  "loop_labeling = \<lparr>lab_in = bitset__unsetAll (bitset__init 2),
     lab_out = bitset__unsetAll (bitset__init 2), twoValued = False\<rparr>"

end
