(* ===== verification/Memory.thy ===== *)
theory Memory
  imports Driver "HOL-Library.Multiset"
begin

text \<open>
  Who owns which heap block: the functions that release a data structure, and the allocations that
  they have to undo (util/bitset.c, util/raset.c, taas_aaf.c, taas_labeling.c, taas_inout.c, taas_basics.c
  and sat/ipasir_solver.cpp).  A memory is the list of all blocks ever allocated; a structure is the record
  of the pointers it holds.  What the blocks contain is modelled in the other theories: the functions here
  carry those contents along, so that they take the same branches, and add the blocks.

  \<open>main_blocks\<close> is a whole run of the program on a file in the i23 format.  The function pointer \<open>doSolve\<close>
  of \<open>taas__solve\<close> is an argument; the tracks of the grounded extension never call it.  Blocks that GLib's
  hash table and libc's FILE allocate inside are not counted.
\<close>

section \<open>Blocks and pointers\<close>

datatype block = Malloc | Object   \<comment> \<open>from \<open>malloc\<close>, or from a C++ \<open>new\<close>\<close>

datatype pointer = Null | Ref nat | Garbage   \<comment> \<open>\<open>Garbage\<close> is a pointer that was never written\<close>

type_synonym memory = "block option list"

definition allocate :: "block \<Rightarrow> memory \<Rightarrow> pointer \<times> memory" where
  "allocate b m = (Ref (length m), m @ [Some b])"

definition free_block :: "pointer \<Rightarrow> memory \<Rightarrow> memory result" where
  "free_block p m =
     (case p of Null \<Rightarrow> Inr m
      | Garbage \<Rightarrow> Inl Uninitialised
      | Ref a \<Rightarrow> if a < length m \<and> m ! a = Some Malloc then Inr (m[a := None]) else Inl InvalidFree)"

definition live :: "memory \<Rightarrow> nat set" where
  "live m = {a. a < length m \<and> m ! a \<noteq> None}"

section \<open>The structures and their destructors\<close>

record BitSetBlocks =
  bitset_block :: pointer
  data_block :: pointer

definition bitset__destroy :: "BitSetBlocks \<Rightarrow> memory \<Rightarrow> memory result" where
  "bitset__destroy bs m = rbind (free_block (data_block bs) m) (free_block (bitset_block bs))"

record RaSetBlocks =
  raset_block :: pointer
  elements_blocks :: BitSetBlocks
  arr_block :: pointer
  inverted_block :: pointer

definition raset__destroy :: "RaSetBlocks \<Rightarrow> memory \<Rightarrow> memory result" where
  "raset__destroy s m =
     rbind (bitset__destroy (elements_blocks s) m) (\<lambda>m.
     rbind (free_block (arr_block s) m) (\<lambda>m.
     rbind (free_block (inverted_block s) m) (free_block (raset_block s))))"

record LabelingBlocks =
  labeling_block :: pointer
  in_blocks :: BitSetBlocks
  out_blocks :: BitSetBlocks
  two_valued :: bool

definition taas__lab_destroy :: "LabelingBlocks \<Rightarrow> memory \<Rightarrow> memory result" where
  "taas__lab_destroy lab m =
     rbind (bitset__destroy (in_blocks lab) m) (\<lambda>m.
     rbind (if \<not> two_valued lab then bitset__destroy (out_blocks lab) m
            else free_block (bitset_block (out_blocks lab)) m)
       (free_block (labeling_block lab)))"

text \<open>
  A list per argument holds the cells of its GSList.  \<open>id_blocks\<close> are the integers that hash table and
  lists point to, after the line buffer that getline has allocated; the framework has no pointer of
  its own to them.
\<close>

record AAFBlocks =
  aaf_block :: pointer
  names_block :: pointer
  name_blocks :: "pointer list"
  table_block :: pointer
  children_block :: pointer
  children_cells :: "pointer list list"
  parents_block :: pointer
  parents_cells :: "pointer list list"
  attackers_block :: pointer
  initial_blocks :: BitSetBlocks
  loops_blocks :: BitSetBlocks
  id_blocks :: "pointer list"

definition taas__aaf_destroy :: "nat \<Rightarrow> AAFBlocks \<Rightarrow> memory \<Rightarrow> memory result" where
  "taas__aaf_destroy n aaf m =
     rbind (rfold (\<lambda>i m.
         rbind (free_block (name_blocks aaf ! i) m) (\<lambda>m.
         rbind (rfold free_block (children_cells aaf ! i) m)
           (rfold free_block (parents_cells aaf ! i)))) [0..<n] m) (\<lambda>m.
     rbind (free_block (names_block aaf) m) (\<lambda>m.
     rbind (free_block (children_block aaf) m) (\<lambda>m.
     rbind (free_block (parents_block aaf) m) (\<lambda>m.
     rbind (free_block (table_block aaf) m) (free_block (aaf_block aaf))))))"

definition taas__solverinformation_destroy :: "pointer \<Rightarrow> memory \<Rightarrow> memory result" where
  "taas__solverinformation_destroy info = free_block info"

definition taas__cmd_destroy :: "pointer \<Rightarrow> memory \<Rightarrow> memory result" where
  "taas__cmd_destroy task = free_block task"

text \<open>A solver is a C++ object behind a pointer; the member initialiser has already created one.\<close>

definition IpasirSolver_create :: "memory \<Rightarrow> pointer \<times> memory" where
  "IpasirSolver_create m = allocate Object m"

definition sat__init_blocks :: "pointer \<Rightarrow> memory \<Rightarrow> pointer \<times> memory" where
  "sat__init_blocks theSolver m = allocate Object m"

definition sat__free :: "pointer \<Rightarrow> memory \<Rightarrow> memory result" where
  "sat__free theSolver m = free_block theSolver m"

section \<open>Allocation\<close>

definition bitset_alloc :: "memory \<Rightarrow> BitSetBlocks \<times> memory" where
  "bitset_alloc m =
     (let (p, m) = allocate Malloc m; (d, m) = allocate Malloc m
      in (\<lparr>bitset_block = p, data_block = d\<rparr>, m))"

definition raset_alloc :: "memory \<Rightarrow> RaSetBlocks \<times> memory" where
  "raset_alloc m =
     (let (p, m) = allocate Malloc m; (e, m) = bitset_alloc m;
          (a, m) = allocate Malloc m; (i, m) = allocate Malloc m
      in (\<lparr>raset_block = p, elements_blocks = e, arr_block = a, inverted_block = i\<rparr>, m))"

text \<open>\<open>taas__lab_init\<close> allocates the bit sets without their data.\<close>

definition lab_alloc :: "bool \<Rightarrow> memory \<Rightarrow> LabelingBlocks \<times> memory" where
  "lab_alloc tv m =
     (let (p, m) = allocate Malloc m; (i, m) = allocate Malloc m; (u, m) = allocate Malloc m
      in (\<lparr>labeling_block = p, in_blocks = \<lparr>bitset_block = i, data_block = Garbage\<rparr>,
           out_blocks = \<lparr>bitset_block = u, data_block = Garbage\<rparr>, two_valued = tv\<rparr>, m))"

text \<open>\<open>realloc\<close> releases the old block and returns a new one.\<close>

definition realloc_block :: "pointer \<Rightarrow> memory \<Rightarrow> (pointer \<times> memory) result" where
  "realloc_block p m = rbind (free_block p m) (\<lambda>m. Inr (allocate Malloc m))"

section \<open>The command line\<close>

record TaskBlocks =
  task_block :: pointer
  keys_block :: pointer
  values_block :: pointer
  problem_block :: pointer

definition solverinformation_block :: "memory \<Rightarrow> pointer \<times> memory" where
  "solverinformation_block m = allocate Malloc m"

text \<open>The loop over the parameters: every additional argument reallocates two arrays.\<close>

fun cmd_blocks :: "string list \<Rightarrow> TaskBlocks \<times> memory \<Rightarrow> (TaskBlocks \<times> memory) result" where
  "cmd_blocks [] tm = Inr tm"
| "cmd_blocks (a # rest) tm =
     (if a = ''-p'' \<or> a = ''-f'' \<or> a = ''-a'' \<or> a = ''-fo'' then cmd_blocks (tl rest) tm
      else if a = ''--formats'' \<or> a = ''--problems'' then Inr tm
      else case tm of (task, m) \<Rightarrow>
        rbind (realloc_block (keys_block task) m) (\<lambda>(k, m).
        rbind (realloc_block (values_block task) m) (\<lambda>(v, m).
        cmd_blocks (tl rest) (task\<lparr>keys_block := k, values_block := v\<rparr>, m))))"

text \<open>The pointer \<open>problem\<close> is written at the end only; \<open>None\<close> stands for the NULL result.\<close>

definition cmd_handle_blocks ::
    "string list \<Rightarrow> SolverInformation \<Rightarrow> memory \<Rightarrow> ((TaskSpecification \<times> TaskBlocks) option \<times> memory) result" where
  "cmd_handle_blocks argv info m =
     (let (t, m) = allocate Malloc m; (k, m) = allocate Malloc m; (v, m) = allocate Malloc m
      in rbind (cmd_blocks (tl argv) (\<lparr>task_block = t, keys_block = k, values_block = v, problem_block = Garbage\<rparr>, m)) (\<lambda>(tb, m).
         rbind (taas__cmd_handle argv info) (\<lambda>(task, out).
         case task of None \<Rightarrow> Inr (None, m)
         | Some task \<Rightarrow> let (p, m) = allocate Malloc m in Inr (Some (task, tb\<lparr>problem_block := p\<rparr>), m))))"

section \<open>Reading a framework\<close>

text \<open>The allocations of \<open>taas__readFile_i23\<close> before the loops; \<open>row\<close> is the buffer of getline.\<close>

definition aaf_alloc :: "pointer \<Rightarrow> memory \<Rightarrow> AAFBlocks \<times> memory" where
  "aaf_alloc a m =
     (let (row, m) = allocate Malloc m; (ns, m) = allocate Malloc m; (c, m) = allocate Malloc m;
          (p, m) = allocate Malloc m; (t, m) = allocate Malloc m; (k, m) = allocate Malloc m;
          (ini, m) = bitset_alloc m; (lo, m) = bitset_alloc m
      in (\<lparr>aaf_block = a, names_block = ns, name_blocks = [], table_block = t, children_block = c,
           children_cells = [], parents_block = p, parents_cells = [], attackers_block = k,
           initial_blocks = ini, loops_blocks = lo, id_blocks = [row]\<rparr>, m))"

definition arg_alloc :: "AAFBlocks \<times> memory \<Rightarrow> AAFBlocks \<times> memory" where
  "arg_alloc = (\<lambda>(aaf, m).
     let (arg1, m) = allocate Malloc m; (sidx, m) = allocate Malloc m
     in (aaf\<lparr>name_blocks := name_blocks aaf @ [arg1], id_blocks := id_blocks aaf @ [sidx],
             children_cells := children_cells aaf @ [[]], parents_cells := parents_cells aaf @ [[]]\<rparr>, m))"

definition attack_alloc :: "nat \<Rightarrow> nat \<Rightarrow> AAFBlocks \<times> memory \<Rightarrow> AAFBlocks \<times> memory" where
  "attack_alloc i j = (\<lambda>(aaf, m).
     let (idx1, m) = allocate Malloc m; (idx2, m) = allocate Malloc m;
         (c, m) = allocate Malloc m; (p, m) = allocate Malloc m
     in (aaf\<lparr>id_blocks := id_blocks aaf @ [idx1, idx2],
             children_cells := (children_cells aaf)[i := c # children_cells aaf ! i],
             parents_cells := (parents_cells aaf)[j := p # parents_cells aaf ! j]\<rparr>, m))"

definition i23_line_blocks ::
    "string \<Rightarrow> (AAF \<times> string) \<times> AAFBlocks \<times> memory \<Rightarrow> ((AAF \<times> string) \<times> AAFBlocks \<times> memory) result" where
  "i23_line_blocks line = (\<lambda>((aaf, row), bl).
     let (t, row) = trimmed (getline row line)
     in if t = '''' then Inr ((aaf, row), bl)
        else if take 1 t = ''#'' then Inr ((aaf, row), bl)
        else
          rbind (find_space row) (\<lambda>idx.
          let row = row[idx := NUL]
          in rbind (atoi (cstr row)) (\<lambda>a. rbind (atoi (cstr (drop (idx + 1) row))) (\<lambda>b.
               if a - 1 < 0 \<or> b - 1 < 0 then Inl OutOfBounds
               else rbind (add_attack (nat (a - 1)) (nat (b - 1))
                            (aaf\<lparr>number_of_attacks := number_of_attacks aaf + 1\<rparr>))
                      (\<lambda>aaf. Inr ((aaf, row), attack_alloc (nat (a - 1)) (nat (b - 1)) bl))))))"

definition readFile_i23_blocks ::
    "(string \<Rightarrow> string option) \<Rightarrow> string option \<Rightarrow> pointer \<Rightarrow> memory \<Rightarrow> (AAF \<times> AAFBlocks \<times> memory) result" where
  "readFile_i23_blocks fs path a m =
     (case Option.bind path fs of
        None \<Rightarrow> Inl NullPointer
      | Some content \<Rightarrow>
          rbind (i23_header (file_lines content) []) (\<lambda>(n, rest, row).
            if n < 0 then Inl OutOfBounds
            else rbind (rfold i23_line_blocks rest ((i23_arguments (nat n), row), (arg_alloc ^^ nat n) (aaf_alloc a m)))
                   (\<lambda>((aaf, _), bl). Inr (aaf, bl))))"

section \<open>The grounded extension\<close>

text \<open>
  \<open>taas__compute_grounded\<close> allocates the data of both bit sets, by \<open>bitset__clone\<close> and \<open>bitset__init\<close>, and
  a block for \<open>stack\<close> whose address is overwritten by NULL.  An element of the stack is a list cell and
  the integer it points to; taking an element off the stack releases the integer and not the cell.
\<close>

type_synonym stack = "(pointer \<times> pointer) list"

definition stack_push :: "stack \<times> memory \<Rightarrow> stack \<times> memory" where
  "stack_push = (\<lambda>(stack, m).
     let (sidx, m) = allocate Malloc m; (cell, m) = allocate Malloc m in ((cell, sidx) # stack, m))"

type_synonym worklist = "(AAF \<times> Labeling \<times> nat list) \<times> stack \<times> memory"

definition dec_attackers_blocks :: "nat \<Rightarrow> worklist \<Rightarrow> worklist" where
  "dec_attackers_blocks j = (\<lambda>((aaf, grounded, stack), bl).
     if number_of_attackers aaf ! j > 0 then
       let aaf = aaf\<lparr>number_of_attackers :=
                   (number_of_attackers aaf)[j := number_of_attackers aaf ! j - 1]\<rparr>
       in if number_of_attackers aaf ! j = 0
          then ((aaf, grounded\<lparr>lab_in := bitset__set (lab_in grounded) j\<rparr>, j # stack), stack_push bl)
          else ((aaf, grounded, stack), bl)
     else ((aaf, grounded, stack), bl))"

definition set_out_blocks :: "nat \<Rightarrow> worklist \<Rightarrow> worklist" where
  "set_out_blocks c = (\<lambda>((aaf, grounded, stack), bl).
     if bit_at (lab_out grounded) c then ((aaf, grounded, stack), bl)
     else fold dec_attackers_blocks (children aaf ! c)
            ((aaf, grounded\<lparr>lab_out := bitset__set (lab_out grounded) c\<rparr>, stack), bl))"

definition grounded_blocks_loop :: "worklist \<Rightarrow> (worklist, (AAF \<times> Labeling) \<times> memory) step result" where
  "grounded_blocks_loop = (\<lambda>((aaf, grounded, stack), (cells, m)).
     case (stack, cells) of
       ([], _) \<Rightarrow> Inr (Break ((aaf, grounded), m))
     | (_, []) \<Rightarrow> Inl NullPointer
     | (a # stack, (cell, argp) # cells) \<Rightarrow>
         let (st, (cells, m)) = fold set_out_blocks (children aaf ! a) ((aaf, grounded, stack), (cells, m))
         in rbind (free_block argp m) (\<lambda>m. Inr (Continue (st, (cells, m)))))"

definition push_blocks :: "nat \<Rightarrow> nat list \<times> stack \<times> memory \<Rightarrow> nat list \<times> stack \<times> memory" where
  "push_blocks a = (\<lambda>(stack, bl). (a # stack, stack_push bl))"

definition compute_grounded_blocks ::
    "nat \<Rightarrow> AAF \<Rightarrow> Labeling \<Rightarrow> LabelingBlocks \<Rightarrow> memory \<Rightarrow> ((AAF \<times> Labeling) \<times> LabelingBlocks \<times> memory) result" where
  "compute_grounded_blocks fuel aaf grounded lab m =
     (let (i, m) = allocate Malloc m; (u, m) = allocate Malloc m; (lost, m) = allocate Malloc m;
          lab = lab\<lparr>in_blocks := (in_blocks lab)\<lparr>data_block := i\<rparr>, out_blocks := (out_blocks lab)\<lparr>data_block := u\<rparr>\<rparr>;
          grounded = grounded\<lparr>lab_in := bitset__clone (initial aaf),
                              lab_out := bitset__unsetAll (bitset__init (number_of_arguments aaf))\<rparr>;
          (stack, bl) = fold push_blocks (bitset_members (lab_in grounded)) ([], ([], m))
      in rbind (rloop fuel grounded_blocks_loop ((aaf, grounded, stack), bl)) (\<lambda>(res, m). Inr (res, lab, m)))"

section \<open>Printing a labeling\<close>

definition print_arg_blocks ::
    "char \<Rightarrow> Labeling \<Rightarrow> AAF \<Rightarrow> nat \<Rightarrow> (bool \<times> nat \<times> string) \<times> pointer \<times> memory \<Rightarrow>
     ((bool \<times> nat \<times> string) \<times> pointer \<times> memory) result" where
  "print_arg_blocks sep lab aaf idx = (\<lambda>((isFirst, len, buf), p, m).
     rbind (print_arg sep lab aaf idx (isFirst, len, buf)) (\<lambda>(isFirst, len', buf).
     rbind (if len' \<noteq> len then realloc_block p m else Inr (p, m)) (\<lambda>(p, m). Inr ((isFirst, len', buf), p, m))))"

definition lab_print_i23_blocks :: "Labeling \<Rightarrow> AAF \<Rightarrow> memory \<Rightarrow> (pointer \<times> memory) result" where
  "lab_print_i23_blocks lab aaf m =
     (let (str, m) = allocate Malloc m
      in rbind (rfold (print_arg_blocks (CHR '' '') lab aaf) (bitset_members (lab_in lab)) ((True, 100, ''w ''), str, m))
           (\<lambda>((_, len, buf), str, m). rbind (put_end len buf) (\<lambda>_. Inr (str, m))))"

section \<open>A run of the program\<close>

text \<open>Nothing keeps the string that has been printed.\<close>

definition print_labeling_blocks :: "Labeling \<Rightarrow> AAF \<Rightarrow> memory \<Rightarrow> memory result" where
  "print_labeling_blocks lab aaf m = rbind (lab_print_i23_blocks lab aaf m) (\<lambda>(str, m). Inr m)"

type_synonym solver_function = "TaskSpecification \<Rightarrow> AAF \<Rightarrow> Labeling \<Rightarrow> memory \<Rightarrow> memory result"

definition dispatch_blocks :: "solver_function \<Rightarrow> TaskSpecification \<Rightarrow> AAF \<Rightarrow> Labeling \<Rightarrow> memory \<Rightarrow> memory result" where
  "dispatch_blocks doSolve task aaf grounded m =
     (case track task of None \<Rightarrow> Inl NullPointer | Some t \<Rightarrow>
        if t = ''SE-GR'' \<or> t = ''SE-CO'' then print_labeling_blocks grounded aaf m
        else if t = ''DC-GR'' \<or> t = ''DS-GR'' \<or> t = ''DS-CO'' then print_labeling_blocks grounded aaf m
        else if (t = ''DC-CO'' \<or> t = ''DC-PR'' \<or> t = ''DC-SST'' \<or> t = ''DC-ID'') \<and>
                bit_at (lab_in grounded) (query task) then
          (if PRINT_WITNESS then
             if t = ''DC-CO'' then print_labeling_blocks grounded aaf m
             else doSolve (if t = ''DC-PR'' then task\<lparr>track := Some ''SE-PR''\<rparr>
                           else if t = ''DC-SST'' then task\<lparr>track := Some ''SE-SST''\<rparr>
                           else if t = ''DC-ID'' then task\<lparr>track := Some ''SE-ID''\<rparr> else task) aaf grounded m
           else Inr m)
        else if (t = ''DC-CO'' \<or> t = ''DC-PR'' \<or> t = ''DC-SST'' \<or> t = ''DC-ID'' \<or> t = ''DC-ST'') \<and>
                bit_at (lab_out grounded) (query task) then Inr m
        else if (t = ''DS-PR'' \<or> t = ''DS-ST'' \<or> t = ''DS-SST'' \<or> t = ''DS-ID'') \<and>
                bit_at (lab_in grounded) (query task) then Inr m
        else if (t = ''DS-PR'' \<or> t = ''DS-SST'' \<or> t = ''DS-ID'') \<and>
                bit_at (lab_out grounded) (query task) then
          (if PRINT_WITNESS then
             doSolve (if t = ''DS-PR'' then task\<lparr>track := Some ''SE-PR''\<rparr>
                      else if t = ''DS-SST'' then task\<lparr>track := Some ''SE-SST''\<rparr>
                      else if t = ''DS-ID'' then task\<lparr>track := Some ''SE-ID''\<rparr> else task) aaf grounded m
           else Inr m)
        else doSolve task aaf grounded m)"

text \<open>\<open>taas__solve\<close> for files that are not in the TGF format; \<open>infop\<close> is the block of the solver information.\<close>

definition solve_blocks ::
    "nat \<Rightarrow> (string \<Rightarrow> string option) \<Rightarrow> string list \<Rightarrow> SolverInformation \<Rightarrow> pointer \<Rightarrow> solver_function \<Rightarrow> memory \<Rightarrow> memory result" where
  "solve_blocks fuel fs argv info infop doSolve m =
     rbind (cmd_handle_blocks argv info m) (\<lambda>(task, m).
     case task of
       None \<Rightarrow> rbind (taas__solverinformation_destroy infop m) (taas__cmd_destroy Null)
     | Some (task, tb) \<Rightarrow>
         let (a, m) = allocate Malloc m
         in rbind (readFile_i23_blocks fs (file_name task) a m) (\<lambda>(aaf, aafb, m).
            rbind (taas__update_arg_param task aaf) (\<lambda>task.
            let (lab, m) = lab_alloc False m
            in rbind (compute_grounded_blocks fuel aaf (taas__lab_init False) lab m) (\<lambda>((aaf, grounded), lab, m).
               rbind (dispatch_blocks doSolve task aaf grounded m) (\<lambda>m.
               rbind (taas__lab_destroy lab m) (\<lambda>m.
               rbind (taas__aaf_destroy (number_of_arguments aaf) aafb m) (\<lambda>m.
               rbind (taas__solverinformation_destroy infop m)
                 (taas__cmd_destroy (task_block tb)))))))))"

definition main_blocks :: "nat \<Rightarrow> (string \<Rightarrow> string option) \<Rightarrow> string list \<Rightarrow> solver_function \<Rightarrow> memory \<Rightarrow> memory result" where
  "main_blocks fuel fs argv doSolve m =
     (let (infop, m) = solverinformation_block m in solve_blocks fuel fs argv solver_info infop doSolve m)"

section \<open>Releasing a list of blocks\<close>

lemma live_allocate [simp]: "live (snd (allocate b m)) = insert (length m) (live m)"
  by (auto simp: live_def allocate_def nth_append)

text \<open>
  \<open>holds_new P m0 m\<close> says that \<open>P\<close> are the pointers to the live blocks that \<open>m\<close> has beyond those of \<open>m0\<close>.
\<close>

definition holds_new :: "pointer multiset \<Rightarrow> memory \<Rightarrow> memory \<Rightarrow> bool" where
  "holds_new P m0 m \<longleftrightarrow> (\<exists>S. finite S \<and> S \<subseteq> {length m0..<length m} \<and> live m = live m0 \<union> S \<and>
     (\<forall>a\<in>S. m ! a = Some Malloc) \<and> length m0 \<le> length m \<and> P = image_mset Ref (mset_set S))"

lemma holds_new_refl: "holds_new {#} m m"
  unfolding holds_new_def by (rule exI[of _ "{}"]) simp

lemma holds_new_allocate:
  assumes "holds_new P m0 m" "allocate Malloc m = (p, m')"
  shows "holds_new (add_mset p P) m0 m'"
proof -
  obtain S where S: "finite S" "S \<subseteq> {length m0..<length m}" "live m = live m0 \<union> S"
      "\<forall>a\<in>S. m ! a = Some Malloc" "length m0 \<le> length m" "P = image_mset Ref (mset_set S)"
    using assms(1) unfolding holds_new_def by blast
  have m': "m' = m @ [Some Malloc]" "p = Ref (length m)" using assms(2) by (auto simp: allocate_def)
  have "live m' = live m0 \<union> insert (length m) S"
    using live_allocate[of Malloc m] assms(2) S(3) by simp
  moreover have "\<forall>a\<in>insert (length m) S. m' ! a = Some Malloc"
    using S(2,4) by (auto simp: m' nth_append)
  moreover have "insert (length m) S \<subseteq> {length m0..<length m'}" using S(2,5) by (auto simp: m')
  moreover have "add_mset p P = image_mset Ref (mset_set (insert (length m) S))"
    using S by (subst mset_set.insert) (auto simp: m')
  ultimately show ?thesis
    unfolding holds_new_def using S(1,5) by (intro exI[of _ "insert (length m) S"]) (simp add: m')
qed

lemma holds_new_free:
  assumes "holds_new P m0 m" "p \<in># P"
  shows "rok (free_block p m) (holds_new (P - {#p#}) m0)"
proof -
  obtain S where S: "finite S" "S \<subseteq> {length m0..<length m}" "live m = live m0 \<union> S"
      "\<forall>a\<in>S. m ! a = Some Malloc" "length m0 \<le> length m" "P = image_mset Ref (mset_set S)"
    using assms(1) unfolding holds_new_def by blast
  obtain a where a: "p = Ref a" "a \<in> S" using assms(2) S(1,6) by auto
  have l: "live (m[a := None]) = live m - {a}"
  proof (rule set_eqI)
    fix x show "x \<in> live (m[a := None]) \<longleftrightarrow> x \<in> live m - {a}" by (cases "x = a") (auto simp: live_def)
  qed
  have "a \<notin> live m0" using a(2) S(2) by (auto simp: live_def)
  then have "live (m[a := None]) = live m0 \<union> (S - {a})" using l S(3) by auto
  moreover have "P - {#p#} = image_mset Ref (mset_set (S - {a}))"
    using S(1,6) a by (simp add: mset_set_Diff image_mset_Diff)
  ultimately have "holds_new (P - {#p#}) m0 (m[a := None])"
    unfolding holds_new_def using S by (intro exI[of _ "S - {a}"]) auto
  moreover have "a < length m" using a(2) S(2) by auto
  ultimately show ?thesis using a S(4) by (simp add: free_block_def)
qed

lemma release_new:
  assumes "holds_new P m0 m" "mset ps \<subseteq># P"
  shows "rok (rfold free_block ps m) (holds_new (P - mset ps) m0)"
  using assms
proof (induction ps arbitrary: P m)
  case (Cons p ps)
  have p: "p \<in># P" using Cons.prems(2) by (auto dest: mset_subset_eqD)
  have sub: "mset ps \<subseteq># P - {#p#}" using Cons.prems(2) by (simp add: insert_subset_eq_iff)
  show ?case
    by (simp, rule rok_bind[OF holds_new_free[OF Cons.prems(1) p]])
      (use Cons.IH[OF _ sub] in simp)
qed simp

text \<open>\<open>leaks k m m'\<close>: beyond the live blocks of \<open>m\<close>, \<open>m'\<close> has exactly \<open>k\<close> others.\<close>

definition leaks :: "nat \<Rightarrow> memory \<Rightarrow> memory \<Rightarrow> bool" where
  "leaks k m m' \<longleftrightarrow> live m \<subseteq> live m' \<and> finite (live m' - live m) \<and> card (live m' - live m) = k"

lemma holds_new_leaks:
  assumes "holds_new P m0 m"
  shows "leaks (size P) m0 m"
proof -
  obtain S where S: "finite S" "S \<subseteq> {length m0..<length m}" "live m = live m0 \<union> S"
      "P = image_mset Ref (mset_set S)"
    using assms unfolding holds_new_def by blast
  have "live m - live m0 = S" using S(2,3) by (auto simp: live_def)
  then show ?thesis using S by (simp add: leaks_def)
qed

section \<open>What the destructors release\<close>

text \<open>Every destructor releases the blocks of its structure one after the other.\<close>

definition aaf_owned :: "nat \<Rightarrow> AAFBlocks \<Rightarrow> pointer list" where
  "aaf_owned n aaf =
     concat (map (\<lambda>i. name_blocks aaf ! i # children_cells aaf ! i @ parents_cells aaf ! i) [0..<n]) @
     [names_block aaf, children_block aaf, parents_block aaf, table_block aaf, aaf_block aaf]"

definition aaf_kept :: "AAFBlocks \<Rightarrow> pointer list" where
  "aaf_kept aaf = id_blocks aaf @ [attackers_block aaf, bitset_block (initial_blocks aaf),
     data_block (initial_blocks aaf), bitset_block (loops_blocks aaf), data_block (loops_blocks aaf)]"

lemma destroy_eq:
  "bitset__destroy bs m = rfold free_block [data_block bs, bitset_block bs] m"
  "raset__destroy s m = rfold free_block [data_block (elements_blocks s), bitset_block (elements_blocks s),
     arr_block s, inverted_block s, raset_block s] m"
  "\<not> two_valued lab \<Longrightarrow> taas__lab_destroy lab m =
     rfold free_block [data_block (in_blocks lab), bitset_block (in_blocks lab),
       data_block (out_blocks lab), bitset_block (out_blocks lab), labeling_block lab] m"
  by (simp_all add: bitset__destroy_def raset__destroy_def taas__lab_destroy_def rbind_assoc rfold_fun)

lemma aaf_destroy_eq: "taas__aaf_destroy n aaf m = rfold free_block (aaf_owned n aaf) m"
proof -
  have "rfold (\<lambda>i m. rbind (free_block (name_blocks aaf ! i) m) (\<lambda>m.
         rbind (rfold free_block (children_cells aaf ! i) m) (rfold free_block (parents_cells aaf ! i)))) [0..<n] m =
      rfold free_block
        (concat (map (\<lambda>i. name_blocks aaf ! i # children_cells aaf ! i @ parents_cells aaf ! i) [0..<n])) m"
    unfolding rfold_concat rfold_map by (rule rfold_cong) (simp add: rfold_fun)
  then show ?thesis
    unfolding taas__aaf_destroy_def aaf_owned_def by (simp add: rfold_fun)
qed

section \<open>What remains after a structure has been released\<close>

lemma bitset_alloc_new:
  assumes "holds_new P m0 m" "bitset_alloc m = (bs, m')"
  shows "holds_new (add_mset (data_block bs) (add_mset (bitset_block bs) P)) m0 m'"
proof -
  obtain p m1 d m2 where a: "allocate Malloc m = (p, m1)" "allocate Malloc m1 = (d, m2)" by fastforce
  with assms(2) have "bs = \<lparr>bitset_block = p, data_block = d\<rparr>" "m' = m2" by (simp_all add: bitset_alloc_def)
  with holds_new_allocate[OF holds_new_allocate[OF assms(1) a(1)] a(2)] show ?thesis by simp
qed

lemma raset_balanced:
  "rok (case raset_alloc m of (s, m') \<Rightarrow> raset__destroy s m') (\<lambda>m'. live m' = live m)"
proof -
  obtain p m1 e m2 a m3 i m4 where al: "allocate Malloc m = (p, m1)" "bitset_alloc m1 = (e, m2)"
      "allocate Malloc m2 = (a, m3)" "allocate Malloc m3 = (i, m4)"
    by (metis surj_pair)
  note new = holds_new_allocate[OF holds_new_allocate[OF bitset_alloc_new[OF holds_new_allocate[OF
          holds_new_refl al(1)] al(2)] al(3)] al(4)]
  have "rok (rfold free_block [data_block e, bitset_block e, a, i, p] m4) (\<lambda>m'. live m' = live m)"
    by (rule rok_weaken[OF release_new[OF new]]) (auto simp: ac_simps leaks_def dest!: holds_new_leaks)
  then show ?thesis by (simp add: raset_alloc_def al destroy_eq)
qed

text \<open>
  The framework: what \<open>taas__aaf_destroy\<close> releases and what it keeps are all blocks of the reader.
\<close>

definition aaf_cells :: "nat \<Rightarrow> AAFBlocks \<Rightarrow> bool" where
  "aaf_cells n aaf \<longleftrightarrow> length (name_blocks aaf) = n \<and> length (children_cells aaf) = n \<and>
     length (parents_cells aaf) = n"

lemma mset_aaf_owned:
  assumes "aaf_cells n aaf"
  shows "mset (aaf_owned n aaf) = mset (name_blocks aaf) + mset (concat (children_cells aaf)) +
    mset (concat (parents_cells aaf)) +
    {#names_block aaf, children_block aaf, parents_block aaf, table_block aaf, aaf_block aaf#}"
proof -
  have "mset (concat (map (\<lambda>i. xs ! i # cs ! i @ ps ! i) [0..<k])) =
      mset (take k xs) + mset (concat (take k cs)) + mset (concat (take k ps))"
    if "k \<le> length xs" "length cs = length xs" "length ps = length xs" for k and xs :: "pointer list" and cs ps
    using that by (induction k) (auto simp: take_Suc_conv_app_nth)
  from this[of n "name_blocks aaf" "children_cells aaf" "parents_cells aaf"] show ?thesis
    using assms by (simp add: aaf_owned_def aaf_cells_def)
qed

lemma mset_concat_cons:
  "i < length xss \<Longrightarrow> mset (concat (xss[i := c # xss ! i])) = add_mset c (mset (concat xss))"
  by (induction xss arbitrary: i) (auto split: nat.split)

text \<open>
  Invariant of the reader: \<open>P\<close> are the blocks of the caller, \<open>c\<close> counts the blocks of the framework that
  its destructor keeps.
\<close>

definition aaf_inv :: "pointer multiset \<Rightarrow> nat \<Rightarrow> nat \<Rightarrow> memory \<Rightarrow> AAFBlocks \<times> memory \<Rightarrow> bool" where
  "aaf_inv P n c m0 = (\<lambda>(aaf, m). aaf_cells n aaf \<and> length (aaf_kept aaf) = c \<and>
     holds_new (P + mset (aaf_owned n aaf) + mset (aaf_kept aaf)) m0 m)"

lemma arg_alloc_inv:
  assumes "aaf_inv P n c m0 (aaf, m)"
  shows "aaf_inv P (Suc n) (Suc c) m0 (arg_alloc (aaf, m))"
proof -
  obtain x m1 y m2 where al: "allocate Malloc m = (x, m1)" "allocate Malloc m1 = (y, m2)" by fastforce
  let ?a = "aaf\<lparr>name_blocks := name_blocks aaf @ [x], id_blocks := id_blocks aaf @ [y],
             children_cells := children_cells aaf @ [[]], parents_cells := parents_cells aaf @ [[]]\<rparr>"
  have cells: "aaf_cells n aaf" and c: "length (aaf_kept aaf) = c"
    and new: "holds_new (P + mset (aaf_owned n aaf) + mset (aaf_kept aaf)) m0 m"
    using assms by (simp_all add: aaf_inv_def)
  have cells': "aaf_cells (Suc n) ?a" using cells by (simp add: aaf_cells_def)
  have "P + mset (aaf_owned (Suc n) ?a) + mset (aaf_kept ?a) =
      add_mset y (add_mset x (P + mset (aaf_owned n aaf) + mset (aaf_kept aaf)))"
    unfolding mset_aaf_owned[OF cells] mset_aaf_owned[OF cells'] by (simp add: aaf_kept_def)
  with holds_new_allocate[OF holds_new_allocate[OF new al(1)] al(2)] cells' c show ?thesis
    by (simp add: aaf_inv_def arg_alloc_def al) (simp add: aaf_kept_def add_mset_commute)
qed

lemma attack_alloc_inv:
  assumes "aaf_inv P n c m0 (aaf, m)" "i < n" "j < n"
  shows "aaf_inv P n (c + 2) m0 (attack_alloc i j (aaf, m))"
proof -
  obtain x m1 y m2 u m3 w m4 where al: "allocate Malloc m = (x, m1)" "allocate Malloc m1 = (y, m2)"
      "allocate Malloc m2 = (u, m3)" "allocate Malloc m3 = (w, m4)" by (metis surj_pair)
  let ?a = "aaf\<lparr>id_blocks := id_blocks aaf @ [x, y],
             children_cells := (children_cells aaf)[i := u # children_cells aaf ! i],
             parents_cells := (parents_cells aaf)[j := w # parents_cells aaf ! j]\<rparr>"
  have cells: "aaf_cells n aaf" and c: "length (aaf_kept aaf) = c"
    and new: "holds_new (P + mset (aaf_owned n aaf) + mset (aaf_kept aaf)) m0 m"
    using assms(1) by (simp_all add: aaf_inv_def)
  have len: "i < length (children_cells aaf)" "j < length (parents_cells aaf)"
    using cells assms(2,3) by (simp_all add: aaf_cells_def)
  have cells': "aaf_cells n ?a" using cells by (simp add: aaf_cells_def)
  have "P + mset (aaf_owned n ?a) + mset (aaf_kept ?a) =
      add_mset w (add_mset u (add_mset y (add_mset x (P + mset (aaf_owned n aaf) + mset (aaf_kept aaf)))))"
    unfolding mset_aaf_owned[OF cells] mset_aaf_owned[OF cells']
    by (simp add: aaf_kept_def mset_concat_cons[OF len(1)] mset_concat_cons[OF len(2)])
  with holds_new_allocate[OF holds_new_allocate[OF holds_new_allocate[OF holds_new_allocate[OF new
          al(1)] al(2)] al(3)] al(4)] cells' c show ?thesis
    by (simp add: aaf_inv_def attack_alloc_def al) (simp add: aaf_kept_def add_mset_commute)
qed

lemma args_alloc_inv:
  assumes "holds_new (add_mset a P) m0 m"
  shows "aaf_inv P n (6 + n) m0 ((arg_alloc ^^ n) (aaf_alloc a m))"
proof -
  obtain row m1 ns m2 c m3 p m4 t m5 k m6 ini m7 lo m8 where al: "allocate Malloc m = (row, m1)"
      "allocate Malloc m1 = (ns, m2)" "allocate Malloc m2 = (c, m3)" "allocate Malloc m3 = (p, m4)"
      "allocate Malloc m4 = (t, m5)" "allocate Malloc m5 = (k, m6)" "bitset_alloc m6 = (ini, m7)"
      "bitset_alloc m7 = (lo, m8)" by (metis surj_pair)
  let ?a0 = "\<lparr>aaf_block = a, names_block = ns, name_blocks = [], table_block = t, children_block = c,
              children_cells = [], parents_block = p, parents_cells = [], attackers_block = k,
              initial_blocks = ini, loops_blocks = lo, id_blocks = [row]\<rparr>"
  note new = bitset_alloc_new[OF bitset_alloc_new[OF holds_new_allocate[OF holds_new_allocate[OF
    holds_new_allocate[OF holds_new_allocate[OF holds_new_allocate[OF holds_new_allocate[OF
    assms al(1)] al(2)] al(3)] al(4)] al(5)] al(6)] al(7)] al(8)]
  have "P + mset (aaf_owned 0 ?a0) + mset (aaf_kept ?a0) = add_mset (data_block lo) (add_mset (bitset_block lo)
      (add_mset (data_block ini) (add_mset (bitset_block ini) (add_mset k (add_mset t (add_mset p (add_mset c
      (add_mset ns (add_mset row (add_mset a P))))))))))" by (simp add: aaf_owned_def aaf_kept_def)
  then have "aaf_inv P 0 6 m0 (aaf_alloc a m)"
    using new by (simp add: aaf_inv_def aaf_cells_def aaf_alloc_def al) (simp add: aaf_kept_def add_mset_commute)
  then show ?thesis
  proof (induction n)
    case (Suc n)
    then show ?case using arg_alloc_inv[of P n "6 + n" m0] by (cases "(arg_alloc ^^ n) (aaf_alloc a m)") simp
  qed simp
qed

text \<open>The reader with blocks reads the same framework; every attack allocates four blocks, two of which stay.\<close>

lemma i23_line_blocks_rok:
  assumes run: "i23_line line (aaf, row) = Inr (aaf', row')"
    and len: "length (children aaf) = n" "length (parents aaf) = n"
    and inv: "aaf_inv P n (6 + n + 2 * number_of_attacks aaf) m0 bl"
  shows "rok (i23_line_blocks line ((aaf, row), bl)) (\<lambda>(st, bl'). st = (aaf', row') \<and>
    aaf_inv P n (6 + n + 2 * number_of_attacks aaf') m0 bl') \<and> length (children aaf') = n \<and> length (parents aaf') = n"
proof -
  obtain t row1 where t: "trimmed (getline row line) = (t, row1)" by fastforce
  show ?thesis
  proof (cases "t = '''' \<or> take 1 t = ''#''")
    case True
    then have "i23_line line (aaf, row) = Inr (aaf, row1)" "i23_line_blocks line ((aaf, row), bl) = Inr ((aaf, row1), bl)"
      unfolding i23_line_def i23_line_blocks_def prod.case t by auto
    then show ?thesis using run len inv by simp
  next
    case False
    then obtain idx a b where ab: "find_space row1 = Inr idx" "atoi (cstr (row1[idx := NUL])) = Inr a"
        "atoi (cstr (drop (idx + 1) (row1[idx := NUL]))) = Inr b" "\<not> (a - 1 < 0 \<or> b - 1 < 0)"
        "add_attack (nat (a - 1)) (nat (b - 1)) (aaf\<lparr>number_of_attacks := number_of_attacks aaf + 1\<rparr>) = Inr aaf'"
        "row' = row1[idx := NUL]"
      using run unfolding i23_line_def i23_attack_def prod.case t Let_def if_not_P[OF False[unfolded de_Morgan_disj, THEN conjunct1]]
        if_not_P[OF False[unfolded de_Morgan_disj, THEN conjunct2]] by (auto simp: rbind_Inr split: if_splits)
    then have ij: "nat (a - 1) < n" "nat (b - 1) < n" "number_of_attacks aaf' = number_of_attacks aaf + 1"
      and "length (children aaf') = n" "length (parents aaf') = n"
      using len by (auto simp: add_attack_def split: if_splits)
    moreover have "aaf_inv P n (6 + n + 2 * number_of_attacks aaf') m0 (attack_alloc (nat (a - 1)) (nat (b - 1)) bl)"
    proof -
      have "6 + n + 2 * number_of_attacks aaf' = (6 + n + 2 * number_of_attacks aaf) + 2" using ij(3) by simp
      then show ?thesis using attack_alloc_inv[OF _ ij(1,2), of P _ m0 "fst bl" "snd bl"] inv by (simp only: prod.collapse)
    qed
    ultimately show ?thesis using ab unfolding i23_line_blocks_def prod.case t Let_def if_not_P[OF False[unfolded de_Morgan_disj, THEN conjunct1]]
        if_not_P[OF False[unfolded de_Morgan_disj, THEN conjunct2]] by simp
  qed
qed

lemma i23_lines_blocks_rok:
  assumes "rfold i23_line lines (aaf, row) = Inr (aaf', row')"
    and "length (children aaf) = n" "length (parents aaf) = n"
    and "aaf_inv P n (6 + n + 2 * number_of_attacks aaf) m0 bl"
  shows "rok (rfold i23_line_blocks lines ((aaf, row), bl)) (\<lambda>(st, bl'). st = (aaf', row') \<and>
    aaf_inv P n (6 + n + 2 * number_of_attacks aaf') m0 bl')"
  using assms
proof (induction lines arbitrary: aaf row bl)
  case (Cons line lines)
  then obtain aaf1 row1 where 1: "i23_line line (aaf, row) = Inr (aaf1, row1)"
      "rfold i23_line lines (aaf1, row1) = Inr (aaf', row')" by (auto simp: rbind_Inr)
  note l = i23_line_blocks_rok[OF 1(1) Cons.prems(2-4)]
  then obtain bl1 where "i23_line_blocks line ((aaf, row), bl) = Inr ((aaf1, row1), bl1)"
      "aaf_inv P n (6 + n + 2 * number_of_attacks aaf1) m0 bl1" by (auto elim!: rokE)
  then show ?case using Cons.IH[OF 1(2)] l by simp
qed simp

lemma readFile_i23_blocks_rok:
  assumes run: "taas__readFile_i23 fs path = Inr aaf" and new: "holds_new (add_mset a P) m0 m"
  shows "rok (readFile_i23_blocks fs path a m) (\<lambda>(aaf', bl). aaf' = aaf \<and>
    aaf_inv P (number_of_arguments aaf) (6 + number_of_arguments aaf + 2 * number_of_attacks aaf) m0 bl)"
proof -
  obtain content k rest row row' where c: "Option.bind path fs = Some content"
      "i23_header (file_lines content) [] = Inr (k, rest, row)" "\<not> k < 0"
      "rfold i23_line rest (i23_arguments (nat k), row) = Inr (aaf, row')"
    using run by (auto simp: taas__readFile_i23_def rbind_Inr split: option.splits if_splits)
  note r = i23_arguments_reads(1)[of "nat k", unfolded reads_def]
  have "number_of_arguments aaf = nat k"
    using i23_lines_reads[OF i23_arguments_reads(1) c(4)] by (auto simp: reads_def)
  moreover have "rok (rfold i23_line_blocks rest ((i23_arguments (nat k), row), (arg_alloc ^^ nat k) (aaf_alloc a m)))
      (\<lambda>(st, bl'). st = (aaf, row') \<and> aaf_inv P (nat k) (6 + nat k + 2 * number_of_attacks aaf) m0 bl')"
    by (rule i23_lines_blocks_rok[OF c(4)]) (use r args_alloc_inv[OF new, of "nat k"] in simp_all)
  ultimately show ?thesis using c(1-3) by (auto simp: readFile_i23_blocks_def elim!: rokE)
qed

text \<open>Two blocks for every pushed argument; the cell stays when the argument has left the worklist.\<close>

definition cells_inv :: "pointer multiset \<Rightarrow> memory \<Rightarrow> nat \<Rightarrow> worklist \<Rightarrow> bool" where
  "cells_inv P m0 d = (\<lambda>((aaf, g, stack), (cells, m)). length cells = length stack \<and>
     (\<exists>C. size C = d + length stack \<and> holds_new (P + C + mset (map snd cells)) m0 m))"

lemma stack_push_inv:
  assumes "cells_inv P m0 d ((aaf, g, stack), bl)"
  shows "cells_inv P m0 d ((aaf', g', x # stack), stack_push bl)"
proof -
  obtain cells m where bl: "bl = (cells, m)" by fastforce
  obtain i m1 l m2 where al: "allocate Malloc m = (i, m1)" "allocate Malloc m1 = (l, m2)" by fastforce
  obtain C where C: "length cells = length stack" "size C = d + length stack" "holds_new (P + C + mset (map snd cells)) m0 m"
    using assms by (auto simp: cells_inv_def bl)
  have "holds_new (P + add_mset l C + mset (map snd ((l, i) # cells))) m0 m2"
    using holds_new_allocate[OF holds_new_allocate[OF C(3) al(1)] al(2)] by (simp add: add_mset_commute)
  moreover have "size (add_mset l C) = d + length (x # stack)" using C(2) by simp
  moreover have "length ((l, i) # cells) = length (x # stack)" using C(1) by simp
  ultimately show ?thesis unfolding cells_inv_def bl stack_push_def prod.case al Let_def by blast
qed

lemma cells_inv_frame: "cells_inv P m0 d ((aaf, g, stack), bl) = cells_inv P m0 d ((aaf', g', stack), bl)"
  by (simp add: cells_inv_def)

lemma dec_attackers_blocks_inv:
  assumes "cells_inv P m0 d (st, bl)"
  shows "fst (dec_attackers_blocks j (st, bl)) = dec_attackers j st \<and> cells_inv P m0 d (dec_attackers_blocks j (st, bl))"
proof -
  obtain aaf g stack where st: "st = (aaf, g, stack)" by (cases st)
  show ?thesis
    using assms stack_push_inv[of P m0 d aaf g stack bl] cells_inv_frame[of P m0 d aaf g stack bl]
    unfolding st dec_attackers_blocks_def dec_attackers_def Let_def prod.case by simp
qed

lemma fold_blocks_inv:
  assumes "\<And>x st bl. cells_inv P m0 d (st, bl) \<Longrightarrow> fst (f x (st, bl)) = g x st \<and> cells_inv P m0 d (f x (st, bl))"
    and "cells_inv P m0 d (st, bl)"
  shows "fst (fold f xs (st, bl)) = fold g xs st \<and> cells_inv P m0 d (fold f xs (st, bl))"
  using assms(2)
proof (induction xs arbitrary: st bl)
  case (Cons x xs)
  obtain st' bl' where f: "f x (st, bl) = (st', bl')" by (cases "f x (st, bl)")
  note h = assms(1)[OF Cons.prems, of x, unfolded f fst_conv]
  have "g x st = st'" "cells_inv P m0 d (st', bl')" by (rule conjunct1[OF h, symmetric], rule conjunct2[OF h])
  then show ?case using Cons.IH by (simp add: f)
qed simp

lemma set_out_blocks_inv:
  assumes "cells_inv P m0 d (st, bl)"
  shows "fst (set_out_blocks c (st, bl)) = set_out c st \<and> cells_inv P m0 d (set_out_blocks c (st, bl))"
proof -
  obtain aaf g stack where st: "st = (aaf, g, stack)" by (cases st)
  show ?thesis
    using assms fold_blocks_inv[where f = dec_attackers_blocks and g = dec_attackers, OF dec_attackers_blocks_inv,
        of P m0 d "(aaf, g\<lparr>lab_out := bitset__set (lab_out g) c\<rparr>, stack)" bl "children aaf ! c"]
      cells_inv_frame[of P m0 d aaf g stack bl aaf "g\<lparr>lab_out := bitset__set (lab_out g) c\<rparr>"]
    by (simp add: set_out_blocks_def set_out_def st)
qed

text \<open>The invariant of the loop: what has been pushed are the arguments that are in.\<close>

definition blocks_inv :: "pointer multiset \<Rightarrow> memory \<Rightarrow> AAF \<Rightarrow> worklist \<Rightarrow> bool" where
  "blocks_inv P m0 A = (\<lambda>((aaf, g, stack), bl). worklist_inv A (aaf, g, stack) \<and>
     (\<exists>d. d + length stack = card (bits (lab_in g)) \<and> cells_inv P m0 d ((aaf, g, stack), bl)))"

lemma worklist_pushed:
  assumes wf: "wf_aaf A" and inv: "worklist_inv A (aaf, g, a # stack)"
  shows "pushed (aaf, g, stack) (fold set_out (children aaf ! a) (aaf, g, stack))"
proof -
  let ?U = "attacked (af_of A) (bits (lab_in g) - set (a # stack))"
  have c: "counts A ?U (aaf, g, a # stack)" and a: "a \<in> bits (lab_in g)" "bits (lab_in g) \<subseteq> grounded_ext (af_of A)"
    using inv by (simp_all add: worklist_inv_def)
  have "a < number_of_arguments A" using a grounded_args[of a "af_of A"] by auto
  moreover have "counts A ?U (aaf, g, stack)" using c unfolding counts_def prod.case .
  ultimately show ?thesis using fold_set_out[OF wf _ wf_aafD(4)[OF wf]] counts_frame(1)[OF c] by simp
qed

lemma grounded_blocks_step:
  assumes wf: "wf_aaf A" and inv: "blocks_inv P m0 A s"
  shows "rok (grounded_blocks_loop s) (\<lambda>r. case r of
      Continue s' \<Rightarrow> blocks_inv P m0 A s' \<and> worklist_measure A (fst s') < worklist_measure A (fst s)
    | Break ((A', g), m) \<Rightarrow> grounded_labeling A g \<and> A' = A\<lparr>number_of_attackers := number_of_attackers A'\<rparr> \<and>
        (\<exists>C. size C = card (grounded_ext (af_of A)) \<and> holds_new (P + C) m0 m))"
proof -
  obtain aaf g stack cells m where s: "s = ((aaf, g, stack), (cells, m))" by (metis surj_pair)
  obtain d where w: "worklist_inv A (aaf, g, stack)" and d: "d + length stack = card (bits (lab_in g))"
      "cells_inv P m0 d ((aaf, g, stack), (cells, m))" using inv by (auto simp: blocks_inv_def s)
  show ?thesis
  proof (cases stack)
    case Nil
    note e = worklist_end[OF w[unfolded Nil]]
    show ?thesis using e d by (simp add: grounded_blocks_loop_def s Nil) (auto simp: cells_inv_def)
  next
    case (Cons a stack')
    obtain C where C: "size C = d + length stack" "holds_new (P + C + mset (map snd cells)) m0 m" "length cells = length stack"
      using d(2) by (auto simp: cells_inv_def)
    then obtain cell argp cells' where cells: "cells = (cell, argp) # cells'" using Cons by (cases cells) auto
    have "cells_inv (add_mset argp P) m0 (Suc d) ((aaf, g, stack'), (cells', m))"
      using C by (auto simp: cells_inv_def cells Cons intro!: exI[of _ C])
    from fold_blocks_inv[where f = set_out_blocks and g = set_out, OF set_out_blocks_inv this, of "children aaf ! a"]
    obtain aaf1 g1 stack1 cells1 m1 where f: "fold set_out_blocks (children aaf ! a) ((aaf, g, stack'), (cells', m)) =
          ((aaf1, g1, stack1), (cells1, m1))" "fold set_out (children aaf ! a) (aaf, g, stack') = (aaf1, g1, stack1)"
        "cells_inv (add_mset argp P) m0 (Suc d) ((aaf1, g1, stack1), (cells1, m1))"
      by (metis fst_conv surj_pair)
    obtain C1 where C1: "size C1 = Suc d + length stack1" "length cells1 = length stack1"
        "holds_new (add_mset argp P + C1 + mset (map snd cells1)) m0 m1" using f(3) by (auto simp: cells_inv_def)
    have "rok (free_block argp m1) (holds_new (P + C1 + mset (map snd cells1)) m0)"
      using holds_new_free[OF C1(3), of argp] by simp
    then obtain m2 where m2: "free_block argp m1 = Inr m2" "holds_new (P + C1 + mset (map snd cells1)) m0 m2"
      by (auto elim: rokE)
    note step = worklist_step[OF wf w[unfolded Cons], unfolded f(2)]
    obtain new where new: "stack1 = new @ stack'" "distinct new" "bits (lab_in g1) = bits (lab_in g) \<union> set new"
        "bits (lab_in g) \<inter> set new = {}"
      using worklist_pushed[OF wf w[unfolded Cons]] by (auto simp: pushed_def f(2))
    have "card (bits (lab_in g1)) = card (bits (lab_in g)) + length new"
      using new by (simp add: card_Un_disjoint distinct_card)
    then have "Suc d + length stack1 = card (bits (lab_in g1))" using d(1) new(1) Cons by simp
    moreover have "cells_inv P m0 (Suc d) ((aaf1, g1, stack1), (cells1, m2))"
      using C1 m2(2) by (auto simp: cells_inv_def)
    ultimately have "blocks_inv P m0 A ((aaf1, g1, stack1), (cells1, m2))" using step(1) unfolding blocks_inv_def prod.case by blast
    then show ?thesis using step(2) by (simp add: grounded_blocks_loop_def s Cons cells f(1) m2(1))
  qed
qed

lemma fold_push_blocks:
  assumes "cells_inv P m0 d ((aaf, g, stack), bl)"
  shows "\<exists>bl'. fold push_blocks xs (stack, bl) = (fold (\<lambda>a stack. a # stack) xs stack, bl') \<and>
    cells_inv P m0 d ((aaf, g, fold (\<lambda>a stack. a # stack) xs stack), bl')"
  using assms
proof (induction xs arbitrary: stack bl)
  case (Cons x xs)
  then show ?case using stack_push_inv by (simp add: push_blocks_def)
qed simp

lemma compute_grounded_blocks_rok:
  assumes wf: "wf_aaf A" and fr: "fresh_aaf A" and fuel: "number_of_arguments A < fuel" and new: "holds_new P m0 m"
  shows "rok (compute_grounded_blocks fuel A (taas__lab_init False) lab m) (\<lambda>((A', g), lab', m').
    grounded_labeling A g \<and> A' = A\<lparr>number_of_attackers := number_of_attackers A'\<rparr> \<and>
    (\<exists>i u lost C. size C = card (grounded_ext (af_of A)) \<and> holds_new ({#i, u, lost#} + P + C) m0 m' \<and>
       lab' = lab\<lparr>in_blocks := (in_blocks lab)\<lparr>data_block := i\<rparr>, out_blocks := (out_blocks lab)\<lparr>data_block := u\<rparr>\<rparr>))"
proof -
  obtain i m1 u m2 lost m3 where al: "allocate Malloc m = (i, m1)" "allocate Malloc m1 = (u, m2)"
      "allocate Malloc m2 = (lost, m3)" by (metis surj_pair)
  let ?P = "{#i, u, lost#} + P"
  define g where "g = (taas__lab_init False)\<lparr>lab_in := bitset__clone (initial A),
      lab_out := bitset__unsetAll (bitset__init (number_of_arguments A))\<rparr>"
  let ?st = "fold (\<lambda>a stack. a # stack) (bitset_members (lab_in g)) []"
  have "\<not> twoValued (taas__lab_init False)" by (simp add: taas__lab_init_def Let_def)
  note w = worklist_init[OF wf fr this g_def]
  have "holds_new ?P m0 m3"
    using holds_new_allocate[OF holds_new_allocate[OF holds_new_allocate[OF new al(1)] al(2)] al(3)]
    by (simp add: add_mset_commute)
  then have "cells_inv ?P m0 0 ((A, g, []), ([], m3))" by (simp add: cells_inv_def)
  from fold_push_blocks[OF this] obtain bl where bl: "fold push_blocks (bitset_members (lab_in g)) ([], ([], m3)) = (?st, bl)"
      "cells_inv ?P m0 0 ((A, g, ?st), bl)" by blast
  have "wf_labeling (number_of_arguments A) g" using w by (simp add: worklist_inv_def counts_def)
  moreover have "?st = rev (bitset_members (lab_in g))" by (metis append_Nil2 fold_Cons_rev)
  ultimately have "set ?st = bits (lab_in g)"
    by (auto simp: wf_labeling_def bitset_members_eq) (auto simp: bits_def)
  moreover have "distinct ?st" using w by (simp add: worklist_inv_def)
  ultimately have "length ?st = card (bits (lab_in g))" using distinct_card[of ?st] by simp
  then have "blocks_inv ?P m0 A ((A, g, ?st), bl)" using w bl(2) by (auto simp: blocks_inv_def)
  moreover have "worklist_measure A (fst ((A, g, ?st), bl)) < fuel" using worklist_measure_start[OF w] fuel by simp
  ultimately have "rok (rloop fuel grounded_blocks_loop ((A, g, ?st), bl)) (\<lambda>((A', g), m).
      grounded_labeling A g \<and> A' = A\<lparr>number_of_attackers := number_of_attackers A'\<rparr> \<and>
        (\<exists>C. size C = card (grounded_ext (af_of A)) \<and> holds_new (?P + C) m0 m))"
    by (rule rok_rloop[where \<mu> = "\<lambda>s. worklist_measure A (fst s)"]) (erule rok_weaken[OF grounded_blocks_step[OF wf]], auto split: step.splits)
  then show ?thesis
    unfolding compute_grounded_blocks_def al Let_def prod.case g_def[symmetric] bl(1)
    by (rule rok_bind) (clarsimp, intro exI conjI, assumption, assumption, simp)
qed

section \<open>The blocks of the command line and of the output\<close>

lemma realloc_new:
  assumes "holds_new (add_mset p P) m0 m"
  shows "rok (realloc_block p m) (\<lambda>(p', m'). holds_new (add_mset p' P) m0 m')"
proof -
  have "rok (free_block p m) (holds_new P m0)" using holds_new_free[OF assms, of p] by simp
  then show ?thesis unfolding realloc_block_def
    by (rule rok_bind) (auto intro: holds_new_allocate)
qed

definition task_owned :: "TaskBlocks \<Rightarrow> pointer multiset" where
  "task_owned tb = {#task_block tb, keys_block tb, values_block tb#}"

lemma cmd_blocks_rok:
  assumes "holds_new (task_owned tb + P) m0 m"
  shows "rok (cmd_blocks xs (tb, m)) (\<lambda>(tb', m'). holds_new (task_owned tb' + P) m0 m')"
  using assms
proof (induction xs arbitrary: tb m rule: measure_induct_rule[of length])
  case (less xs)
  show ?case
  proof (cases xs)
    case (Cons a rest)
    have IH: "rok (cmd_blocks (tl rest) (tb1, m1)) (\<lambda>(tb', m'). holds_new (task_owned tb' + P) m0 m')"
      if "holds_new (task_owned tb1 + P) m0 m1" for tb1 m1
      using less.IH[OF _ that, of "tl rest"] by (simp add: Cons)
    from realloc_new[of "keys_block tb" "{#task_block tb, values_block tb#} + P" m0 m] less.prems obtain k m1 where
      k: "realloc_block (keys_block tb) m = Inr (k, m1)" "holds_new (add_mset k ({#task_block tb, values_block tb#} + P)) m0 m1"
      by (auto simp: task_owned_def add_mset_commute elim!: rokE)
    from realloc_new[of "values_block tb" "{#task_block tb, k#} + P" m0 m1] k(2) obtain v m2 where
      v: "realloc_block (values_block tb) m1 = Inr (v, m2)" "holds_new (add_mset v ({#task_block tb, k#} + P)) m0 m2"
      by (auto simp: add_mset_commute elim!: rokE)
    have "holds_new (task_owned (tb\<lparr>keys_block := k, values_block := v\<rparr>) + P) m0 m2"
      using v(2) by (simp add: task_owned_def add_mset_commute)
    then show ?thesis using IH less.prems by (simp add: Cons k(1) v(1))
  qed (use less.prems in simp)
qed

lemma print_args_blocks_rok:
  assumes "rfold (print_arg sep lab aaf) xs st = Inr st'" "holds_new (add_mset p P) m0 m"
  shows "rok (rfold (print_arg_blocks sep lab aaf) xs (st, p, m)) (\<lambda>(st'', p', m'). st'' = st' \<and> holds_new (add_mset p' P) m0 m')"
  using assms
proof (induction xs arbitrary: st p m)
  case (Cons x xs)
  obtain isFirst len buf where st: "st = (isFirst, len, buf)" by (cases st)
  obtain st1 where st1: "print_arg sep lab aaf x st = Inr st1" "rfold (print_arg sep lab aaf) xs st1 = Inr st'"
    using Cons.prems(1) by (auto simp: rbind_Inr)
  obtain isFirst1 len1 buf1 where st1_eq: "st1 = (isFirst1, len1, buf1)" by (cases st1)
  have "rok (if len1 \<noteq> len then realloc_block p m else Inr (p, m)) (\<lambda>(p', m'). holds_new (add_mset p' P) m0 m')"
    using realloc_new[OF Cons.prems(2)] Cons.prems(2) by simp
  then obtain p1 m1 where r: "(if len1 \<noteq> len then realloc_block p m else Inr (p, m)) = Inr (p1, m1)" "holds_new (add_mset p1 P) m0 m1"
    by (auto elim!: rokE)
  have "print_arg_blocks sep lab aaf x (st, p, m) = Inr (st1, p1, m1)"
    using st1(1) r(1) unfolding print_arg_blocks_def st prod.case by (simp add: st1_eq)
  then show ?case using Cons.IH[OF st1(2) r(2)] by simp
qed simp

lemma print_labeling_blocks_rok:
  assumes out: "print_labeling lab aaf = Inr out" and new: "holds_new P m0 m"
  shows "rok (print_labeling_blocks lab aaf m) (\<lambda>m'. \<exists>str. holds_new (add_mset str P) m0 m')"
proof -
  obtain str m1 where al: "allocate Malloc m = (str, m1)" by fastforce
  obtain isFirst len buf x where r: "rfold (print_arg (CHR '' '') lab aaf) (bitset_members (lab_in lab)) (True, 100, ''w '') = Inr (isFirst, len, buf)"
      "put_end len buf = Inr x"
    using out by (auto simp: print_labeling_def taas__lab_print_i23_def rbind_Inr)
  from print_args_blocks_rok[OF r(1) holds_new_allocate[OF new al]] r(2) show ?thesis
    by (auto simp: print_labeling_blocks_def lab_print_i23_blocks_def al elim!: rokE)
qed

lemma cmd_handle_blocks_rok:
  assumes run: "taas__cmd_handle argv info = Inr (task, out)" and new: "holds_new P m0 m"
  shows "rok (cmd_handle_blocks argv info m) (\<lambda>(res, m'). case task of
      None \<Rightarrow> res = None \<and> (\<exists>tb. holds_new (task_owned tb + P) m0 m')
    | Some task \<Rightarrow> \<exists>tb p. res = Some (task, tb) \<and> holds_new (add_mset p (task_owned tb + P)) m0 m')"
proof -
  obtain t m1 k m2 v m3 where al: "allocate Malloc m = (t, m1)" "allocate Malloc m1 = (k, m2)" "allocate Malloc m2 = (v, m3)"
    by (metis surj_pair)
  let ?tb = "\<lparr>task_block = t, keys_block = k, values_block = v, problem_block = Garbage\<rparr>"
  have "holds_new (task_owned ?tb + P) m0 m3"
    using holds_new_allocate[OF holds_new_allocate[OF holds_new_allocate[OF new al(1)] al(2)] al(3)]
    by (simp add: task_owned_def add_mset_commute)
  from rok_pairE[OF cmd_blocks_rok[OF this, of "tl argv"]] obtain tb m4 where tb: "cmd_blocks (tl argv) (?tb, m3) = Inr (tb, m4)"
      "holds_new (task_owned tb + P) m0 m4" by blast
  obtain p m5 where p: "allocate Malloc m4 = (p, m5)" by fastforce
  have "holds_new (add_mset p (task_owned (tb\<lparr>problem_block := p\<rparr>) + P)) m0 m5"
    using holds_new_allocate[OF tb(2) p] by (simp add: task_owned_def)
  then show ?thesis using tb(2) unfolding cmd_handle_blocks_def al Let_def prod.case tb(1) rbind_simps run
    by (cases task) (auto simp: p)
qed

section \<open>What a run of the program releases and what it leaks\<close>

text \<open>
  Nothing is released twice.  What stays: the task's two arrays and its problem string, the printed line, the
  attack counters and both bit sets of the framework, the integers, the line buffer, the lost block of the
  stack and a cell for every argument of the grounded extension.
\<close>

lemma dispatch_blocks_grounded:
  assumes "track task = Some t" "t \<in> set grounded_tracks"
  shows "dispatch_blocks doSolve task aaf g m = print_labeling_blocks g aaf m"
proof -
  have "t = ''SE-GR'' \<or> t = ''SE-CO'' \<or> t = ''DC-GR'' \<or> t = ''DS-GR'' \<or> t = ''DS-CO''"
    using assms(2) by (simp add: grounded_tracks_def)
  then have "(t = ''SE-GR'' \<or> t = ''SE-CO'') \<or> (t = ''DC-GR'' \<or> t = ''DS-GR'' \<or> t = ''DS-CO'')" by blast
  then show ?thesis unfolding dispatch_blocks_def assms(1) option.case by (elim disjE[of "t = ''SE-GR'' \<or> _"]) simp_all
qed

lemma main_blocks_rok:
  assumes cmd: "taas__cmd_handle argv solver_info = Inr (Some task0, '''')"
    and read: "taas__readFile_i23 fs (file_name task0) = Inr A" "taas__update_arg_param task0 A = Inr task"
    and A: "wf_aaf A" "fresh_aaf A" "number_of_arguments A < fuel" "names_fit 99 A (grounded_ext (af_of A))"
    and t: "track task = Some t" "t \<in> set grounded_tracks"
  shows "rok (main_blocks fuel fs argv doSolve m)
    (leaks (11 + number_of_arguments A + 2 * number_of_attacks A + card (grounded_ext (af_of A))) m)"
proof -
  let ?n = "number_of_arguments A" and ?G = "grounded_ext (af_of A)"
  obtain infop m1 where i: "solverinformation_block m = (infop, m1)" by fastforce
  have "holds_new {#infop#} m m1" using holds_new_allocate[OF holds_new_refl i[unfolded solverinformation_block_def]] .
  from cmd_handle_blocks_rok[OF cmd this] obtain tb p m2 where
    tb: "cmd_handle_blocks argv solver_info m1 = Inr (Some (task0, tb), m2)"
      "holds_new (add_mset p (task_owned tb + {#infop#})) m m2" by (elim rok_pairE) auto
  let ?P = "add_mset p (task_owned tb + {#infop#})"
  obtain a m3 where a: "allocate Malloc m2 = (a, m3)" by fastforce
  from rok_pairE[OF readFile_i23_blocks_rok[OF read(1) holds_new_allocate[OF tb(2) a]]] obtain aafb m4 where
    aafb: "readFile_i23_blocks fs (file_name task0) a m3 = Inr (A, aafb, m4)"
      "aaf_inv ?P ?n (6 + ?n + 2 * number_of_attacks A) m (aafb, m4)" by (metis surj_pair)
  obtain l m5 x m6 y m7 where al: "allocate Malloc m4 = (l, m5)" "allocate Malloc m5 = (x, m6)" "allocate Malloc m6 = (y, m7)"
    by (metis surj_pair)
  let ?lab = "\<lparr>labeling_block = l, in_blocks = \<lparr>bitset_block = x, data_block = Garbage\<rparr>,
      out_blocks = \<lparr>bitset_block = y, data_block = Garbage\<rparr>, two_valued = False\<rparr>"
  have lab: "lab_alloc False m4 = (?lab, m7)" by (simp add: lab_alloc_def al)
  have "holds_new (?P + mset (aaf_owned ?n aafb) + mset (aaf_kept aafb)) m m4" using aafb(2) by (simp add: aaf_inv_def)
  note new = holds_new_allocate[OF holds_new_allocate[OF holds_new_allocate[OF this al(1)] al(2)] al(3)]
  from compute_grounded_blocks_rok[OF A(1-3) new, of ?lab] obtain A' g di du lost C m8 where
    g: "compute_grounded_blocks fuel A (taas__lab_init False) ?lab m7 = Inr ((A', g),
          ?lab\<lparr>in_blocks := (in_blocks ?lab)\<lparr>data_block := di\<rparr>, out_blocks := (out_blocks ?lab)\<lparr>data_block := du\<rparr>\<rparr>, m8)"
      "grounded_labeling A g" "A' = A\<lparr>number_of_attackers := number_of_attackers A'\<rparr>" "size C = card ?G"
      "holds_new ({#di, du, lost#} + add_mset y (add_mset x (add_mset l
        (?P + mset (aaf_owned ?n aafb) + mset (aaf_kept aafb)))) + C) m m8" (is "holds_new ?Q m m8")
    by (auto elim!: rokE)
  obtain c where c: "A' = A\<lparr>number_of_attackers := c\<rparr>" using g(3) by blast
  have "rok (print_labeling g A') (prints_ext A' (grounded_ext (af_of A')))"
    using prints_grounded[of A' g] g(2) A(4) unfolding c by simp
  then obtain out where "print_labeling g A' = Inr out" by (auto elim: rokE)
  from print_labeling_blocks_rok[OF this g(5)] obtain str m9 where
    str: "print_labeling_blocks g A' m8 = Inr m9" "holds_new (add_mset str ?Q) m m9" by (auto elim: rokE)
  have d: "dispatch_blocks doSolve task A' g m8 = Inr m9"
    using dispatch_blocks_grounded[OF t] str(1) by simp
  let ?ps = "[di, x, du, y, l] @ aaf_owned ?n aafb @ [infop, task_block tb]"
  have Q: "add_mset str ?Q = mset ?ps + ({#str, p, keys_block tb, values_block tb, lost#} + mset (aaf_kept aafb) + C)"
    by (simp add: task_owned_def ac_simps)
  have "rok (rfold free_block ?ps m9) (leaks (11 + ?n + 2 * number_of_attacks A + card ?G) m)"
  proof (rule rok_weaken[OF release_new[OF str(2)]])
    show "mset ?ps \<subseteq># add_mset str ?Q" unfolding Q by simp
    have "size (add_mset str ?Q - mset ?ps) = 11 + ?n + 2 * number_of_attacks A + card ?G"
      unfolding Q using aafb(2) g(4) by (simp add: aaf_inv_def)
    then show "leaks (11 + ?n + 2 * number_of_attacks A + card ?G) m m'" if "holds_new (add_mset str ?Q - mset ?ps) m m'" for m'
      using holds_new_leaks[OF that] by simp
  qed
  then show ?thesis
    unfolding main_blocks_def i Let_def prod.case solve_blocks_def tb(1) rbind_simps option.case a aafb(1) read(2) lab g(1) d
    by (simp add: destroy_eq(3) aaf_destroy_eq rfold_fun taas__solverinformation_destroy_def taas__cmd_destroy_def c rbind_assoc)
qed

text \<open>A run that only prints information releases the solver information and leaks the task with its two arrays.\<close>

lemma main_blocks_info:
  assumes cmd: "taas__cmd_handle argv solver_info = Inr (None, out)"
  shows "rok (main_blocks fuel fs argv doSolve m) (leaks 3 m)"
proof -
  obtain infop m1 where i: "solverinformation_block m = (infop, m1)" by fastforce
  have "holds_new {#infop#} m m1" using holds_new_allocate[OF holds_new_refl i[unfolded solverinformation_block_def]] .
  from cmd_handle_blocks_rok[OF cmd this] obtain tb m2 where
    tb: "cmd_handle_blocks argv solver_info m1 = Inr (None, m2)" "holds_new (task_owned tb + {#infop#}) m m2" by (elim rok_pairE) auto
  have "rok (free_block infop m2) (leaks 3 m)"
    by (rule rok_weaken[OF holds_new_free[OF tb(2)]]) (auto dest!: holds_new_leaks simp: task_owned_def numeral_eq_Suc)
  then show ?thesis
    by (auto simp: main_blocks_def i solve_blocks_def tb(1) taas__solverinformation_destroy_def taas__cmd_destroy_def
        free_block_def[of Null] elim!: rokE)
qed

lemma main_blocks_i23:
  assumes fs: "fs p = Some (i23_text comments n items)" and n: "n < 2 ^ 31"
    and ok: "\<forall>c\<in>set comments. item_ok n (Comment c)" "\<forall>i\<in>set items. item_ok n i"
    and d: "distinct (item_list_attacks items)" and q: "q < n" and t: "t \<in> set grounded_tracks" and fuel: "n < fuel"
  shows "rok (main_blocks fuel fs (query_argv prog t p q) doSolve m)
    (leaks (11 + n + 2 * length (item_list_attacks items) +
      card (grounded_ext \<lparr>args = {..<n}, attacks = set (item_list_attacks items)\<rparr>)) m)"
proof -
  let ?names = "map (\<lambda>i. show_nat (i + 1)) [0..<n]"
  have t0: "t \<noteq> ''''" using t by (auto simp: grounded_tracks_def)
  from read_task_i23[where fs = fs and p = p, OF fs n ok d q t0, of prog] obtain A task where
    A: "read_task fs (query_argv prog t p q) task A" "wf_aaf A" "fresh_aaf A"
      "af_of A = \<lparr>args = {..<n}, attacks = set (item_list_attacks items)\<rparr>" "ids2arguments A = ?names" "track task = Some t" by blast
  define task0 where "task0 = \<lparr>track = Some t, problem = take 2 t, file_name = Some p, format = None,
    arg = -1, argAsString = Some (show_nat (q + 1)), additional_keys = [], additional_values = []\<rparr>"
  have cmd: "taas__cmd_handle (query_argv prog t p q) solver_info = Inr (Some task0, '''')"
    using t0 by (simp add: query_argv_def taas__cmd_handle_def empty_task_def next_arg_def task0_def)
  then have r: "taas__readFile_i23 fs (file_name task0) = Inr A" "taas__update_arg_param task0 A = Inr task"
    using A(1) by (auto simp: read_task_def task0_def)
  have "number_of_attacks A = length (item_list_attacks items)"
    using readFile_i23_text[where fs = fs and p = p, OF fs n ok] r(1) by (auto simp: task0_def reads_def)
  moreover have num: "number_of_arguments A = n" using A(4) args_af_of[of A] by simp
  moreover have "names_fit 99 A (grounded_ext (af_of A))"
    using i23_names_fit[OF A(5) n] grounded_args[of _ "af_of A"] A(4) by auto
  ultimately show ?thesis using main_blocks_rok[OF cmd r A(2,3) _ _ A(6) t, of fuel doSolve m] fuel A(4) by simp
qed

text \<open>A solver made by \<open>new\<close> is given to \<open>free\<close>; the first of the two solvers is lost before that.\<close>

lemma sat_free_wrong:
  assumes "IpasirSolver_create m = (p, m1)" "sat__init_blocks p m1 = (q, m2)"
  shows "sat__free q m2 = Inl InvalidFree" and "live m2 = live m \<union> {length m, Suc (length m)}"
    and "q = Ref (Suc (length m))"
proof -
  show "q = Ref (Suc (length m))" "sat__free q m2 = Inl InvalidFree" "live m2 = live m \<union> {length m, Suc (length m)}"
    using assms
    by (auto simp: IpasirSolver_create_def sat__init_blocks_def allocate_def sat__free_def free_block_def
        nth_append live_def split: if_splits)
qed

text \<open>A labeling is released before the grounded extension has been computed.\<close>

lemma lab_destroy_early: "lab_alloc tv m = (lab, m') \<Longrightarrow> taas__lab_destroy lab m' = Inl Uninitialised"
  by (auto simp: lab_alloc_def taas__lab_destroy_def bitset__destroy_def free_block_def split: prod.splits)

end
