(* ===== verification/CadicalApi.thy ===== *)
theory CadicalApi
  imports Ipasir
begin

text \<open>
  The shell of the vendored SAT solver that taas-fudge talks to: lib/cadical-2.1.0/src/ipasir.cpp,
  ccadical.cpp, the class Solver with its API states and contracts (solver.cpp, contract.hpp,
  cadical.hpp) and what External keeps of the calls (external.cpp, external.hpp).  The internal solver
  behind External is a parameter \<open>core\<close>: an answer to \<open>solve\<close> and an assignment after \<open>extend\<close>, both
  functions of the calls that External has passed on.  The configuration is the one of taas-fudge: no
  proof tracer, no external propagator and the options at their defaults.

  A violated contract aborts the process; it is the error \<open>SolverState\<close> when the state is wrong and
  \<open>IntOverflow\<close> when the literal is.  The main result is a refinement: around a core that is right about the
  clauses and assumptions that it has been told, the shell shows a client the behaviour of ipasir.h, as the
  theory Ipasir models it, with an oracle that satisfies the contract of the interface; calls of \<open>val\<close> may
  stand anywhere between the others.
\<close>

section \<open>API states and contracts\<close>

datatype State = INITIALIZING | CONFIGURING | STEADY | ADDING | SOLVING | SATISFIED | UNSATISFIED | DELETING

definition READY :: "State set" where
  "READY = {CONFIGURING, STEADY, SATISFIED, UNSATISFIED}"

definition VALID :: "State set" where
  "VALID = READY \<union> {ADDING}"

definition INT_MIN :: int where
  "INT_MIN = - (2 ^ 31)"

text \<open>What the internal solver is told.\<close>

datatype internal_call =
    Internal_add int | Internal_assume int | Internal_constrain int | Internal_solve
  | Internal_reset_assumptions | Internal_reset_concluded | Internal_reset_constraint | Internal_reset_limits

record External =
  max_var :: int
  vals :: "bool list"
  assumptions :: "int list"
  constraint :: "int list"
  extended :: bool
  concluded :: bool
  internal :: "internal_call list"

record Solver =
  api_state :: State
  adding_clause :: bool
  adding_constraint :: bool
  external :: External

record core =
  answer :: "internal_call list \<Rightarrow> int"
  extension :: "internal_call list \<Rightarrow> bool list"

definition REQUIRE :: "bool \<Rightarrow> error \<Rightarrow> 'a result \<Rightarrow> 'a result" where
  "REQUIRE cond e r = (if cond then r else Inl e)"

definition REQUIRE_VALID_STATE :: "Solver \<Rightarrow> 'a result \<Rightarrow> 'a result" where
  "REQUIRE_VALID_STATE s r = REQUIRE (api_state s \<in> VALID) SolverState r"

definition REQUIRE_READY_STATE :: "Solver \<Rightarrow> 'a result \<Rightarrow> 'a result" where
  "REQUIRE_READY_STATE s r = REQUIRE_VALID_STATE s (REQUIRE (api_state s \<noteq> ADDING) SolverState r)"

definition REQUIRE_VALID_LIT :: "int \<Rightarrow> 'a result \<Rightarrow> 'a result" where
  "REQUIRE_VALID_LIT lit r = REQUIRE (lit \<noteq> 0 \<and> lit \<noteq> INT_MIN) IntOverflow r"

section \<open>External\<close>

definition External_init :: External where
  "External_init = \<lparr>max_var = 0, vals = [], assumptions = [], constraint = [], extended = False,
     concluded = False, internal = []\<rparr>"

definition tell :: "internal_call \<Rightarrow> External \<Rightarrow> External" where
  "tell c e = e\<lparr>internal := internal e @ [c]\<rparr>"

definition External_reset_assumptions :: "External \<Rightarrow> External" where
  "External_reset_assumptions e = tell Internal_reset_assumptions (e\<lparr>assumptions := []\<rparr>)"

definition External_reset_concluded :: "External \<Rightarrow> External" where
  "External_reset_concluded e = tell Internal_reset_concluded (e\<lparr>concluded := False\<rparr>)"

definition External_reset_constraint :: "External \<Rightarrow> External" where
  "External_reset_constraint e = tell Internal_reset_constraint (e\<lparr>constraint := []\<rparr>)"

definition External_reset_extended :: "External \<Rightarrow> External" where
  "External_reset_extended e = e\<lparr>extended := False\<rparr>"

text \<open>Of \<open>internalize\<close> only the growth of the variable range is kept, not the renumbering.\<close>

definition internalize :: "int \<Rightarrow> External \<Rightarrow> External" where
  "internalize elit e = (if elit \<noteq> 0 \<and> \<bar>elit\<bar> > max_var e then e\<lparr>max_var := \<bar>elit\<bar>\<rparr> else e)"

definition External_add :: "int \<Rightarrow> External \<Rightarrow> External" where
  "External_add elit e = tell (Internal_add elit) (internalize elit (External_reset_extended e))"

definition External_assume :: "int \<Rightarrow> External \<Rightarrow> External" where
  "External_assume elit e =
     (let e = External_reset_extended e; e = e\<lparr>assumptions := assumptions e @ [elit]\<rparr>
      in tell (Internal_assume elit) (internalize elit e))"

definition External_constrain :: "int \<Rightarrow> External \<Rightarrow> External" where
  "External_constrain elit e =
     (let e = (if constraint e \<noteq> [] \<and> last (constraint e) = 0 then External_reset_constraint e else e);
          e = internalize elit (External_reset_extended e)
      in tell (Internal_constrain elit) (e\<lparr>constraint := constraint e @ [elit]\<rparr>))"

definition External_solve :: "core \<Rightarrow> External \<Rightarrow> int \<times> External" where
  "External_solve core e =
     (let e = tell Internal_solve (External_reset_extended e); res = answer core (internal e)
      in (res, tell Internal_reset_limits e))"

definition External_extend :: "core \<Rightarrow> External \<Rightarrow> External" where
  "External_extend core e = e\<lparr>vals := extension core (internal e), extended := True\<rparr>"

definition ival :: "External \<Rightarrow> int \<Rightarrow> int" where
  "ival e elit =
     (let eidx = \<bar>elit\<bar>;
          val = (if eidx \<le> max_var e \<and> nat eidx < length (vals e) then vals e ! nat eidx else False);
          val = (if elit < 0 then \<not> val else val)
      in if val then elit else - elit)"

section \<open>Solver\<close>

definition Solver_init :: Solver where
  "Solver_init = \<lparr>api_state = CONFIGURING, adding_clause = False, adding_constraint = False,
     external = External_init\<rparr>"

definition transition_to_steady_state :: "Solver \<Rightarrow> Solver" where
  "transition_to_steady_state s =
     (let s = (if api_state s = SATISFIED \<or> api_state s = UNSATISFIED
               then s\<lparr>external := External_reset_constraint (External_reset_concluded
                        (External_reset_assumptions (external s)))\<rparr>
               else s)
      in if api_state s \<noteq> STEADY then s\<lparr>api_state := STEADY\<rparr> else s)"

definition Solver_add :: "int \<Rightarrow> Solver \<Rightarrow> Solver result" where
  "Solver_add lit s =
     REQUIRE_VALID_STATE s ((if lit \<noteq> 0 then REQUIRE_VALID_LIT lit else id) (
       let s = transition_to_steady_state s;
           s = s\<lparr>external := External_add lit (external s), adding_clause := (lit \<noteq> 0)\<rparr>
       in Inr (if adding_clause s then s\<lparr>api_state := ADDING\<rparr>
               else if \<not> adding_constraint s then s\<lparr>api_state := STEADY\<rparr> else s)))"

definition Solver_constrain :: "int \<Rightarrow> Solver \<Rightarrow> Solver result" where
  "Solver_constrain lit s =
     REQUIRE_VALID_STATE s ((if lit \<noteq> 0 then REQUIRE_VALID_LIT lit else id) (
       let s = transition_to_steady_state s;
           s = s\<lparr>external := External_constrain lit (external s), adding_constraint := (lit \<noteq> 0)\<rparr>
       in Inr (if adding_constraint s then s\<lparr>api_state := ADDING\<rparr>
               else if \<not> adding_clause s then s\<lparr>api_state := STEADY\<rparr> else s)))"

definition Solver_assume :: "int \<Rightarrow> Solver \<Rightarrow> Solver result" where
  "Solver_assume lit s =
     REQUIRE_VALID_STATE s (REQUIRE_VALID_LIT lit (
       let s = transition_to_steady_state s
       in Inr (s\<lparr>external := External_assume lit (external s)\<rparr>)))"

definition Solver_reset_assumptions :: "Solver \<Rightarrow> Solver result" where
  "Solver_reset_assumptions s =
     REQUIRE_VALID_STATE s (
       let s = transition_to_steady_state s
       in Inr (s\<lparr>external := External_reset_concluded (External_reset_assumptions (external s))\<rparr>))"

definition Solver_reset_constraint :: "Solver \<Rightarrow> Solver result" where
  "Solver_reset_constraint s =
     REQUIRE_VALID_STATE s (
       let s = transition_to_steady_state s
       in Inr (s\<lparr>external := External_reset_concluded (External_reset_constraint (external s))\<rparr>))"

definition call_external_solve_and_check_results :: "core \<Rightarrow> Solver \<Rightarrow> int \<times> Solver" where
  "call_external_solve_and_check_results core s =
     (let s = (transition_to_steady_state s)\<lparr>api_state := SOLVING\<rparr>;
          (res, e) = External_solve core (external s);
          s = s\<lparr>external := e, api_state := (if res = 10 then SATISFIED else if res = 20 then UNSATISFIED else STEADY)\<rparr>
      in (res, if res = 0
               then s\<lparr>external := External_reset_concluded (External_reset_constraint
                        (External_reset_assumptions (external s)))\<rparr>
               else s))"

definition Solver_solve :: "core \<Rightarrow> Solver \<Rightarrow> (int \<times> Solver) result" where
  "Solver_solve core s = REQUIRE_READY_STATE s (Inr (call_external_solve_and_check_results core s))"

text \<open>Without a proof tracer \<open>conclude_sat\<close> returns at once.\<close>

definition Solver_val :: "core \<Rightarrow> int \<Rightarrow> Solver \<Rightarrow> (int \<times> Solver) result" where
  "Solver_val core lit s =
     REQUIRE_VALID_STATE s (REQUIRE_VALID_LIT lit (REQUIRE (api_state s = SATISFIED) SolverState (
       let s = (if \<not> extended (external s) then s\<lparr>external := External_extend core (external s)\<rparr> else s)
       in Inr (ival (external s) lit, s))))"

text \<open>The C interface.\<close>

definition ccadical_add :: "int \<Rightarrow> Solver \<Rightarrow> Solver result" where
  "ccadical_add lit s = Solver_add lit s"

definition ccadical_assume :: "int \<Rightarrow> Solver \<Rightarrow> Solver result" where
  "ccadical_assume lit s = Solver_assume lit s"

definition ccadical_solve :: "core \<Rightarrow> Solver \<Rightarrow> (int \<times> Solver) result" where
  "ccadical_solve core s = Solver_solve core s"

definition ccadical_val :: "core \<Rightarrow> int \<Rightarrow> Solver \<Rightarrow> (int \<times> Solver) result" where
  "ccadical_val core lit s = Solver_val core lit s"

section \<open>Clients\<close>

text \<open>
  A client makes calls one after the other and collects the numbers that \<open>solve\<close> and \<open>val\<close> return: once
  with the functions of the shell, once with the interface as it is documented.
\<close>

datatype api_call = Tell call | Val int

definition cadical_call :: "core \<Rightarrow> api_call \<Rightarrow> Solver \<times> int list \<Rightarrow> (Solver \<times> int list) result" where
  "cadical_call core c = (\<lambda>(s, outs).
     case c of Tell (Add lit) \<Rightarrow> rbind (ccadical_add lit s) (\<lambda>s. Inr (s, outs))
      | Tell (Assume lit) \<Rightarrow> rbind (ccadical_assume lit s) (\<lambda>s. Inr (s, outs))
      | Tell Solve \<Rightarrow> rbind (ccadical_solve core s) (\<lambda>(res, s). Inr (s, outs @ [res]))
      | Val lit \<Rightarrow> rbind (ccadical_val core lit s) (\<lambda>(x, s). Inr (s, outs @ [x])))"

definition cadical_outputs :: "core \<Rightarrow> api_call list \<Rightarrow> int list result" where
  "cadical_outputs core calls = rbind (rfold (cadical_call core) calls (Solver_init, [])) (\<lambda>(_, outs). Inr outs)"

definition ipasir_call :: "sat_oracle \<Rightarrow> api_call \<Rightarrow> ipasir \<times> int list \<Rightarrow> (ipasir \<times> int list) result" where
  "ipasir_call ips c = (\<lambda>(s, outs).
     case c of Tell (Add lit) \<Rightarrow> Inr (ipasir_add s lit, outs)
      | Tell (Assume lit) \<Rightarrow> Inr (ipasir_assume s lit, outs)
      | Tell Solve \<Rightarrow> rbind (ipasir_solve ips s) (\<lambda>(res, s). Inr (s, outs @ [res]))
      | Val lit \<Rightarrow> rbind (ipasir_val s lit) (\<lambda>x. Inr (s, outs @ [x])))"

definition ipasir_outputs :: "sat_oracle \<Rightarrow> api_call list \<Rightarrow> int list result" where
  "ipasir_outputs ips calls = rbind (rfold (ipasir_call ips) calls (ipasir_init, [])) (\<lambda>(_, outs). Inr outs)"

text \<open>What a client may pass: valid literals, and no call of \<open>solve\<close> inside a clause.\<close>

definition valid_lit :: "int \<Rightarrow> bool" where
  "valid_lit lit \<longleftrightarrow> lit \<noteq> 0 \<and> lit \<noteq> INT_MIN"

fun valid_calls :: "bool \<Rightarrow> api_call list \<Rightarrow> bool" where
  "valid_calls inside [] \<longleftrightarrow> True"
| "valid_calls inside (Tell (Add lit) # cs) \<longleftrightarrow> lit \<noteq> INT_MIN \<and> valid_calls (lit \<noteq> 0) cs"
| "valid_calls inside (Tell (Assume lit) # cs) \<longleftrightarrow> valid_lit lit \<and> valid_calls inside cs"
| "valid_calls inside (Tell Solve # cs) \<longleftrightarrow> \<not> inside \<and> valid_calls False cs"
| "valid_calls inside (Val lit # cs) \<longleftrightarrow> valid_lit lit \<and> valid_calls inside cs"

section \<open>What the core is told\<close>

text \<open>Clauses, the literals of an unfinished clause, and assumptions, as the core receives them.\<close>

fun told_call :: "internal_call \<Rightarrow> int list list \<times> int list \<times> int list \<Rightarrow> int list list \<times> int list \<times> int list" where
  "told_call (Internal_add lit) (F, c, A) = (if lit = 0 then (F @ [c], [], A) else (F, c @ [lit], A))"
| "told_call (Internal_assume lit) (F, c, A) = (F, c, A @ [lit])"
| "told_call Internal_reset_assumptions (F, c, A) = (F, c, [])"
| "told_call _ (F, c, A) = (F, c, A)"

definition told :: "internal_call list \<Rightarrow> int list list \<times> int list \<times> int list" where
  "told cs = fold told_call cs ([], [], [])"

text \<open>The core that IPASIR reaches has no constraint and no limit, so it answers 10 or 20, and rightly so.\<close>

definition bits_of :: "bool list \<Rightarrow> nat \<Rightarrow> bool" where
  "bits_of bs i \<longleftrightarrow> i < length bs \<and> bs ! i"

definition satisfied_by :: "int list list \<Rightarrow> int list \<Rightarrow> (nat \<Rightarrow> bool) \<Rightarrow> bool" where
  "satisfied_by F A v \<longleftrightarrow> (\<forall>c\<in>set F. \<exists>l\<in>set c. lit_true v l) \<and> (\<forall>l\<in>set A. lit_true v l)"

definition unconstrained :: "internal_call list \<Rightarrow> bool" where
  "unconstrained cs \<longleftrightarrow> (\<forall>lit. Internal_constrain lit \<notin> set cs)"

definition core_sound :: "core \<Rightarrow> bool" where
  "core_sound core \<longleftrightarrow> (\<forall>cs F A. unconstrained cs \<and> told cs = (F, [], A) \<longrightarrow>
     (let cs' = cs @ [Internal_solve] in
      answer core cs' = 10 \<and> satisfied_by F A (bits_of (extension core (cs' @ [Internal_reset_limits]))) \<or>
      answer core cs' = 20 \<and> (\<forall>v. \<not> satisfied_by F A v)))"

section \<open>The oracle of the interface\<close>

text \<open>
  The calls that reach the core, from the history of the interface (newest call first): leaving the state
  after \<open>solve\<close> drops the assumptions.  \<open>recorded\<close> is the state that the history leads to.
\<close>

definition leaving :: "call list \<Rightarrow> internal_call list" where
  "leaving h = (case h of Solve # _ \<Rightarrow> [Internal_reset_assumptions, Internal_reset_concluded, Internal_reset_constraint] | _ \<Rightarrow> [])"

fun core_calls :: "call list \<Rightarrow> internal_call list" where
  "core_calls [] = []"
| "core_calls (c # h) = core_calls h @ leaving h @ (case c of Add lit \<Rightarrow> [Internal_add lit]
     | Assume lit \<Rightarrow> [Internal_assume lit] | Solve \<Rightarrow> [Internal_solve, Internal_reset_limits])"

fun recorded :: "call list \<Rightarrow> (int list list \<times> int list \<times> int list) option" where
  "recorded [] = Some ([], [], [])"
| "recorded (c # h) = (case recorded h of None \<Rightarrow> None | Some (F, p, A) \<Rightarrow>
     (case c of Add lit \<Rightarrow> if lit = INT_MIN then None else Some (if lit = 0 then (F @ [p], [], A) else (F, p @ [lit], A))
      | Assume lit \<Rightarrow> if valid_lit lit then Some (F, p, A @ [lit]) else None
      | Solve \<Rightarrow> if p = [] then Some (F, [], []) else None))"

fun largest_var :: "internal_call list \<Rightarrow> int" where
  "largest_var [] = 0"
| "largest_var (Internal_add lit # cs) = max \<bar>lit\<bar> (largest_var cs)"
| "largest_var (Internal_assume lit # cs) = max \<bar>lit\<bar> (largest_var cs)"
| "largest_var (_ # cs) = largest_var cs"

definition core_model :: "core \<Rightarrow> internal_call list \<Rightarrow> nat \<Rightarrow> bool" where
  "core_model core cs i \<longleftrightarrow> int i \<le> largest_var cs \<and> bits_of (extension core cs) i"

text \<open>In a state of the interface that no calls lead to, the oracle is the reference oracle.\<close>

definition cadical_oracle :: "core \<Rightarrow> sat_oracle" where
  "cadical_oracle core s =
     (if recorded (history s) = Some (clauses s, pending s, assumed s)
      then (answer core (core_calls (history s) @ leaving (history s) @ [Internal_solve]),
            val_of (core_model core (core_calls (Solve # history s))))
      else brute_force s)"

lemma leaving_simps [simp]:
  "leaving [] = []" "leaving (Add lit # h) = []" "leaving (Assume lit # h) = []"
  "leaving (Solve # h) = [Internal_reset_assumptions, Internal_reset_concluded, Internal_reset_constraint]"
  by (simp_all add: leaving_def)

lemma told_append: "told (cs @ ds) = fold told_call ds (told cs)"
  by (simp add: told_def)

lemma largest_var_nonneg: "0 \<le> largest_var cs"
  by (induction cs rule: largest_var.induct) auto

lemma max_largest_var [simp]: "max (largest_var cs) 0 = largest_var cs"
  using largest_var_nonneg[of cs] by simp

lemma largest_var_append: "largest_var (cs @ ds) = max (largest_var cs) (largest_var ds)"
  by (induction cs rule: largest_var.induct) (auto simp: largest_var_nonneg)

lemma told_largest_var:
  assumes "told cs = (F, p, A)" "l \<in> set (concat F) \<union> set p \<union> set A"
  shows "\<bar>l\<bar> \<le> largest_var cs"
  using assms
proof (induction cs arbitrary: F p A rule: rev_induct)
  case (snoc c cs)
  obtain F' p' A' where t: "told cs = (F', p', A')" by (cases "told cs")
  have "l \<in> set (concat F') \<union> set p' \<union> set A' \<or> c = Internal_add l \<or> c = Internal_assume l"
    using snoc.prems by (cases c) (auto simp: told_append t split: if_splits)
  then show ?case using snoc.IH[OF t] by (auto simp: largest_var_append le_max_iff_disj)
qed (simp add: told_def)

text \<open>The core has been told exactly what the interface has recorded.\<close>

lemma told_recorded:
  assumes "recorded h = Some (F, p, A)"
  shows "told (core_calls h @ leaving h) = (F, p, A) \<and> unconstrained (core_calls h @ leaving h)"
  using assms
proof (induction h arbitrary: F p A)
  case (Cons c h)
  then obtain F' p' A' where r: "recorded h = Some (F', p', A')" by (auto split: option.splits)
  have t: "fold told_call (leaving h) (told (core_calls h)) = (F', p', A')" "unconstrained (core_calls h @ leaving h)"
    using Cons.IH[OF r] by (simp_all add: told_append)
  have "recorded (c # h) = Some (F, p, A)" by (rule Cons.prems)
  then show ?case using t
    by (cases c) (auto simp: r told_append unconstrained_def split: if_splits)
qed (simp add: told_def unconstrained_def)

lemma core_model_satisfies:
  assumes "told cs = (F, p, A)"
  shows "satisfied_by F A (core_model core (cs @ ds)) \<longleftrightarrow> satisfied_by F A (bits_of (extension core (cs @ ds)))"
proof -
  have "lit_true (core_model core (cs @ ds)) l \<longleftrightarrow> lit_true (bits_of (extension core (cs @ ds))) l"
    if "l \<in> set (concat F) \<union> set A" for l
  proof (rule lit_true_cong)
    have "\<bar>l\<bar> \<le> largest_var (cs @ ds)" using told_largest_var[OF assms, of l] that by (auto simp: largest_var_append le_max_iff_disj)
    then show "core_model core (cs @ ds) (nat \<bar>l\<bar>) \<longleftrightarrow> bits_of (extension core (cs @ ds)) (nat \<bar>l\<bar>)"
      by (simp add: core_model_def)
  qed
  then show ?thesis by (fastforce simp: satisfied_by_def)
qed

lemma holds_assuming: "holds v s \<and> assuming v s \<longleftrightarrow> satisfied_by (clauses s) (assumed s) v"
  by (simp add: holds_def assuming_def satisfied_by_def)

lemma oracle_answers:
  assumes core: "core_sound core" and r: "recorded (history s) = Some (clauses s, [], assumed s)"
  defines "cs \<equiv> core_calls (history s) @ leaving (history s) @ [Internal_solve]"
  shows "answer core cs = 10 \<and> satisfied_by (clauses s) (assumed s) (core_model core (core_calls (Solve # history s))) \<or>
    answer core cs = 20 \<and> (\<forall>v. \<not> satisfied_by (clauses s) (assumed s) v)"
proof -
  let ?cs = "core_calls (history s) @ leaving (history s)"
  have t: "told ?cs = (clauses s, [], assumed s)" "unconstrained ?cs" using told_recorded[OF r] by simp_all
  have e: "core_calls (Solve # history s) = ?cs @ [Internal_solve, Internal_reset_limits]" by simp
  show ?thesis using core[unfolded core_sound_def, rule_format, OF conjI[OF t(2,1)]]
    unfolding e core_model_satisfies[OF t(1)] cs_def by (simp add: Let_def)
qed

lemma cadical_oracle_ok:
  assumes core: "core_sound core"
  shows "oracle_ok (cadical_oracle core)"
  unfolding oracle_ok_def
proof (intro allI impI)
  fix s :: ipasir assume p: "pending s = []"
  show "(fst (cadical_oracle core s) = 10 \<and> (\<exists>v. holds v s \<and> assuming v s \<and>
      (\<forall>l. l \<noteq> 0 \<longrightarrow> snd (cadical_oracle core s) l = val_of v l))) \<or>
    (fst (cadical_oracle core s) = 20 \<and> (\<forall>v. holds v s \<longrightarrow> \<not> assuming v s))"
  proof (cases "recorded (history s) = Some (clauses s, [], assumed s)")
    case True
    then show ?thesis using oracle_answers[OF core True] holds_assuming[of _ s] p
      unfolding cadical_oracle_def by (auto simp del: core_calls.simps)
  next
    case False
    then have "cadical_oracle core s = brute_force s" using p by (simp add: cadical_oracle_def)
    then show ?thesis using brute_force_ok p by (simp add: oracle_ok_def)
  qed
qed

section \<open>The shell shows the behaviour of the interface\<close>

text \<open>\<open>vals\<close> are those of the current assignment whenever the flag \<open>extended\<close> says so.\<close>

definition mode_matches :: "core \<Rightarrow> ipasir \<Rightarrow> Solver \<Rightarrow> bool" where
  "mode_matches core s c = (case mode s of
     INPUT \<Rightarrow> api_state c \<in> {CONFIGURING, STEADY, ADDING} \<and> leaving (history s) = []
   | SAT val \<Rightarrow> api_state c = SATISFIED \<and> leaving (history s) \<noteq> [] \<and> val = val_of (core_model core (core_calls (history s)))
   | UNSAT \<Rightarrow> api_state c = UNSATISFIED \<and> leaving (history s) \<noteq> [])"

definition represents :: "core \<Rightarrow> ipasir \<Rightarrow> Solver \<Rightarrow> bool" where
  "represents core s c \<longleftrightarrow>
     internal (external c) = core_calls (history s) \<and>
     recorded (history s) = Some (clauses s, pending s, assumed s) \<and>
     max_var (external c) = largest_var (internal (external c)) \<and> \<not> adding_constraint c \<and>
     (pending s = [] \<longrightarrow> api_state c \<noteq> ADDING) \<and> mode_matches core s c \<and>
     (extended (external c) \<longrightarrow> api_state c = SATISFIED \<and> vals (external c) = extension core (internal (external c)))"


lemmas external_defs = External_reset_assumptions_def External_reset_concluded_def
  External_reset_constraint_def External_reset_extended_def External_assume_def External_add_def
  External_solve_def internalize_def tell_def Let_def

lemma external_simps [simp]:
  "internal (External_reset_assumptions e) = internal e @ [Internal_reset_assumptions]"
  "internal (External_reset_concluded e) = internal e @ [Internal_reset_concluded]"
  "internal (External_reset_constraint e) = internal e @ [Internal_reset_constraint]"
  "internal (External_add lit e) = internal e @ [Internal_add lit]"
  "internal (External_assume lit e) = internal e @ [Internal_assume lit]"
  "max_var (External_reset_assumptions e) = max_var e" "max_var (External_reset_concluded e) = max_var e"
  "max_var (External_reset_constraint e) = max_var e"
  "0 \<le> max_var e \<Longrightarrow> max_var (External_add lit e) = max (max_var e) \<bar>lit\<bar>"
  "lit \<noteq> 0 \<Longrightarrow> max_var (External_assume lit e) = max (max_var e) \<bar>lit\<bar>"
  "\<not> extended (External_add lit e)" "\<not> extended (External_assume lit e)"
  by (auto simp: external_defs)

lemma transition [simp]:
  "api_state (transition_to_steady_state c) = STEADY"
  "adding_constraint (transition_to_steady_state c) = adding_constraint c"
  "max_var (external (transition_to_steady_state c)) = max_var (external c)"
  by (simp_all add: transition_to_steady_state_def Let_def)

lemma represents_transition:
  assumes "represents core s c"
  shows "internal (external (transition_to_steady_state c)) = core_calls (history s) @ leaving (history s)"
    "max_var (external c) = largest_var (core_calls (history s) @ leaving (history s))" "0 \<le> max_var (external c)"
    "api_state c \<in> VALID" "\<not> adding_constraint c" "recorded (history s) = Some (clauses s, pending s, assumed s)"
proof -
  have l: "leaving (history s) \<noteq> [] \<longleftrightarrow> api_state c \<in> {SATISFIED, UNSATISFIED}"
    using assms by (auto simp: represents_def mode_matches_def split: sat_mode.splits)
  have v: "largest_var (leaving (history s)) = 0" by (simp add: leaving_def split: list.split call.split)
  have e: "leaving (history s) = (if api_state c \<in> {SATISFIED, UNSATISFIED}
      then [Internal_reset_assumptions, Internal_reset_concluded, Internal_reset_constraint] else [])"
    using l by (auto simp: leaving_def split: list.splits call.splits)
  show "internal (external (transition_to_steady_state c)) = core_calls (history s) @ leaving (history s)"
    using assms by (simp add: represents_def e transition_to_steady_state_def Let_def)
  show "max_var (external c) = largest_var (core_calls (history s) @ leaving (history s))" "0 \<le> max_var (external c)"
    using assms by (simp_all add: represents_def largest_var_append v largest_var_nonneg)
  show "api_state c \<in> VALID"
    using assms by (auto simp: represents_def mode_matches_def VALID_def READY_def split: sat_mode.splits)
  show "\<not> adding_constraint c" "recorded (history s) = Some (clauses s, pending s, assumed s)"
    using assms by (simp_all add: represents_def)
qed

lemmas contract_defs = REQUIRE_READY_STATE_def REQUIRE_VALID_STATE_def REQUIRE_VALID_LIT_def REQUIRE_def valid_lit_def

lemma add_sim:
  assumes R: "represents core s c" and lit: "lit \<noteq> INT_MIN"
  shows "rok (ccadical_add lit c) (represents core (ipasir_add s lit))"
proof -
  note t = represents_transition[OF R]
  obtain c' where c': "ccadical_add lit c = Inr c'" "api_state c' = (if lit = 0 then STEADY else ADDING)"
      "external c' = External_add lit (external (transition_to_steady_state c))" "\<not> adding_constraint c'"
    using t(4,5) lit by (cases "lit = 0") (auto simp: ccadical_add_def Solver_add_def contract_defs Let_def)
  show ?thesis
    using t lit c' by (simp add: represents_def mode_matches_def ipasir_add_def largest_var_append max.assoc)
qed

lemma assume_sim:
  assumes R: "represents core s c" and lit: "valid_lit lit"
  shows "rok (ccadical_assume lit c) (represents core (ipasir_assume s lit))"
proof -
  note t = represents_transition[OF R]
  obtain c' where c': "ccadical_assume lit c = Inr c'" "api_state c' = STEADY"
      "external c' = External_assume lit (external (transition_to_steady_state c))" "\<not> adding_constraint c'"
    using t lit by (auto simp: ccadical_assume_def Solver_assume_def contract_defs Let_def)
  have "lit \<noteq> 0" using lit by (simp add: valid_lit_def)
  then show ?thesis
    using t lit c' by (simp add: represents_def mode_matches_def ipasir_assume_def largest_var_append max.assoc)
qed

lemma solve_sim:
  assumes core: "core_sound core" and R: "represents core s c" and p: "pending s = []"
  shows "\<exists>r s' c'. ipasir_solve (cadical_oracle core) s = Inr (r, s') \<and> ccadical_solve core c = Inr (r, c') \<and>
    represents core s' c'"
proof -
  note t = represents_transition[OF R]
  let ?cs = "core_calls (history s) @ leaving (history s) @ [Internal_solve]"
  let ?val = "val_of (core_model core (core_calls (Solve # history s)))"
  define r where "r = answer core ?cs"
  have r: "r = 10 \<or> r = 20" using oracle_answers[OF core] t(6) p by (auto simp: r_def)
  have "api_state c \<noteq> ADDING" using R p by (simp add: represents_def)
  then obtain c' where c': "ccadical_solve core c = Inr (r, c')" "api_state c' = (if r = 10 then SATISFIED else UNSATISFIED)"
      "internal (external c') = ?cs @ [Internal_reset_limits]" "max_var (external c') = max_var (external c)"
      "\<not> extended (external c')" "\<not> adding_constraint c'"
    using t r unfolding r_def ccadical_solve_def Solver_solve_def contract_defs call_external_solve_and_check_results_def
    by (auto simp: Let_def External_solve_def tell_def External_reset_extended_def)
  let ?s = "s\<lparr>assumed := [], history := Solve # history s, mode := (if r = 10 then SAT ?val else UNSAT)\<rparr>"
  have "cadical_oracle core s = (r, ?val)" using t(6) by (simp add: cadical_oracle_def r_def)
  then have "ipasir_solve (cadical_oracle core) s = Inr (r, ?s)" using p r by (auto simp: ipasir_solve_def)
  moreover have "represents core ?s c'"
    using c'(2-6) t(2,6) p by (simp add: represents_def mode_matches_def largest_var_append)
  ultimately show ?thesis using c'(1) by blast
qed

text \<open>Every value that is read is the literal or its negation, consistently with one assignment.\<close>

lemma ival_val_of: "lit \<noteq> 0 \<Longrightarrow> ival e lit = val_of (\<lambda>i. int i \<le> max_var e \<and> i < length (vals e) \<and> vals e ! i) lit"
  by (auto simp: ival_def val_of_def lit_true_def Let_def)

lemma val_sim:
  assumes R: "represents core s c" and lit: "valid_lit lit"
  shows "case ipasir_val s lit of Inl e \<Rightarrow> ccadical_val core lit c = Inl e
    | Inr x \<Rightarrow> \<exists>c'. ccadical_val core lit c = Inr (x, c') \<and> represents core s c'"
proof (cases "mode s")
  case (SAT val)
  let ?c = "if \<not> extended (external c) then c\<lparr>external := External_extend core (external c)\<rparr> else c"
  have v: "ccadical_val core lit c = Inr (ival (external ?c) lit, ?c)"
    using SAT R lit represents_transition(4)[OF R]
    by (auto simp: represents_def mode_matches_def ccadical_val_def Solver_val_def contract_defs Let_def)
  have e: "vals (external ?c) = extension core (core_calls (history s))" "max_var (external ?c) = largest_var (core_calls (history s))"
    using R by (auto simp: represents_def External_extend_def)
  have "lit \<noteq> 0" using lit by (simp add: valid_lit_def)
  from ival_val_of[OF this, of "external ?c"] have "ival (external ?c) lit = val_of (core_model core (core_calls (history s))) lit"
    unfolding e by (simp add: core_model_def[abs_def] bits_of_def)
  moreover have "val = val_of (core_model core (core_calls (history s)))"
    using R SAT by (simp add: represents_def mode_matches_def)
  moreover have "represents core s ?c"
    using R SAT by (auto simp: represents_def mode_matches_def External_extend_def)
  ultimately show ?thesis using SAT v by (simp add: ipasir_val_def)
qed (use R lit represents_transition(4)[OF R] in
    \<open>auto simp: ipasir_val_def represents_def mode_matches_def ccadical_val_def Solver_val_def contract_defs Let_def\<close>)

lemma run_sim:
  assumes core: "core_sound core"
  shows "represents core s c \<Longrightarrow> valid_calls (pending s \<noteq> []) calls \<Longrightarrow>
    rbind (rfold (cadical_call core) calls (c, outs)) (\<lambda>(_, outs). Inr outs) =
    rbind (rfold (ipasir_call (cadical_oracle core)) calls (s, outs)) (\<lambda>(_, outs). Inr outs)"
proof (induction calls arbitrary: s c outs)
  case (Cons x calls)
  note R = Cons.prems(1)
  show ?case
  proof (cases x)
    case (Tell y)
    show ?thesis
    proof (cases y)
      case (Add lit)
      then have lit: "lit \<noteq> INT_MIN" using Cons.prems(2) Tell by simp
      from add_sim[OF R this] obtain c' where c': "ccadical_add lit c = Inr c'" "represents core (ipasir_add s lit) c'"
        by (elim rokE)
      have "(pending (ipasir_add s lit) \<noteq> []) = (lit \<noteq> 0)" by (simp add: ipasir_add_def)
      then show ?thesis using Cons.IH[OF c'(2), of outs] Cons.prems(2) Tell Add c'(1)
        by (simp add: cadical_call_def ipasir_call_def)
    next
      case (Assume lit)
      then have "valid_lit lit" using Cons.prems(2) Tell by simp
      from assume_sim[OF R this] obtain c' where c': "ccadical_assume lit c = Inr c'" "represents core (ipasir_assume s lit) c'"
        by (elim rokE)
      have "pending (ipasir_assume s lit) = pending s" by (simp add: ipasir_assume_def)
      then show ?thesis using Cons.IH[OF c'(2), of outs] Cons.prems(2) Tell Assume c'(1)
        by (simp add: cadical_call_def ipasir_call_def)
    next
      case Solve
      then have p: "pending s = []" using Cons.prems(2) Tell by simp
      from solve_sim[OF core R this] obtain r s' c' where s': "ipasir_solve (cadical_oracle core) s = Inr (r, s')"
          "ccadical_solve core c = Inr (r, c')" "represents core s' c'" by blast
      have "pending s' = []" using s'(1) p by (auto simp: ipasir_solve_def split: prod.splits)
      then show ?thesis using Cons.IH[OF s'(3), of "outs @ [r]"] Cons.prems(2) Tell Solve s'(1,2) p
        by (simp add: cadical_call_def ipasir_call_def)
    qed
  next
    case (Val lit)
    then have "valid_lit lit" using Cons.prems(2) by simp
    from val_sim[OF R this] Cons.IH Cons.prems(2) Val show ?thesis
      by (cases "ipasir_val s lit") (auto simp: cadical_call_def ipasir_call_def)
  qed
qed simp

lemma represents_init: "represents core ipasir_init Solver_init"
  by (simp add: represents_def mode_matches_def ipasir_init_def Solver_init_def External_init_def)

lemma cadical_refines:
  "core_sound core \<Longrightarrow> valid_calls False calls \<Longrightarrow> cadical_outputs core calls = ipasir_outputs (cadical_oracle core) calls"
  using run_sim[OF _ represents_init] by (simp add: cadical_outputs_def ipasir_outputs_def ipasir_init_def)

text \<open>The stage loops of taas-fudge add a clause and then read a value: CaDiCaL aborts.\<close>

lemma add_then_val_aborts:
  assumes "ccadical_add 0 c = Inr c'" "valid_lit lit"
  shows "ccadical_val core lit c' = Inl SolverState"
  using assms by (auto simp: ccadical_add_def ccadical_val_def Solver_add_def Solver_val_def contract_defs Let_def split: if_splits)

section \<open>A reference core\<close>

text \<open>A core that searches for an assignment satisfies the hypothesis on the core.\<close>

definition told_state :: "internal_call list \<Rightarrow> ipasir" where
  "told_state cs = (case told cs of (F, p, A) \<Rightarrow> \<lparr>clauses = F, pending = [], assumed = A, mode = INPUT, history = []\<rparr>)"

definition reference_core :: core where
  "reference_core = \<lparr>answer = \<lambda>cs. fst (brute_force (told_state cs)),
     extension = \<lambda>cs. map (\<lambda>i. 0 < snd (brute_force (told_state cs)) (int i)) [0..<nat (largest_var cs) + 1]\<rparr>"

lemma brute_force_zero: "snd (brute_force s) 0 = 0"
  by (simp add: brute_force_def search_oracle_def val_of_def split: option.split)

lemma reference_core_sound: "core_sound reference_core"
  unfolding core_sound_def
proof (intro allI impI)
  fix cs F A assume asm: "unconstrained cs \<and> told cs = (F, [], A)"
  let ?s = "\<lparr>clauses = F, pending = [], assumed = A, mode = INPUT, history = []\<rparr>"
  let ?cs = "cs @ [Internal_solve]"
  have t: "told ?cs = (F, [], A)" "told (?cs @ [Internal_reset_limits]) = (F, [], A)"
    using asm by (simp_all add: told_append)
  have ans: "answer reference_core ?cs = fst (brute_force ?s)" by (simp add: reference_core_def told_state_def t)
  have ext: "bits_of (extension reference_core (?cs @ [Internal_reset_limits])) i \<longleftrightarrow>
      int i \<le> largest_var (?cs @ [Internal_reset_limits]) \<and> 0 < snd (brute_force ?s) (int i)" for i
    using largest_var_nonneg[of "?cs @ [Internal_reset_limits]"]
    unfolding reference_core_def told_state_def core.select_convs t prod.case
    by (auto simp: bits_of_def nat_less_iff simp del: largest_var_append upt_Suc)
  have sat: "satisfied_by F A v \<longleftrightarrow> holds v ?s \<and> assuming v ?s" for v by (simp add: holds_assuming)
  have "(fst (brute_force ?s) = 10 \<and> (\<exists>v. satisfied_by F A v \<and> (\<forall>l. l \<noteq> 0 \<longrightarrow> snd (brute_force ?s) l = val_of v l))) \<or>
      (fst (brute_force ?s) = 20 \<and> (\<forall>v. \<not> satisfied_by F A v))"
    using brute_force_ok[unfolded oracle_ok_def, rule_format, of ?s] unfolding sat by simp
  moreover have "satisfied_by F A (bits_of (extension reference_core (?cs @ [Internal_reset_limits])))"
    if v: "satisfied_by F A v" "\<forall>l. l \<noteq> 0 \<longrightarrow> snd (brute_force ?s) l = val_of v l" for v
  proof -
    have "lit_true (bits_of (extension reference_core (?cs @ [Internal_reset_limits]))) l"
      if l: "l \<in> set (concat F) \<union> set A" "lit_true v l" for l
    proof (cases "l = 0")
      case True
      have "\<not> 0 < snd (brute_force ?s) 0" by (simp add: brute_force_zero)
      then show ?thesis using ext[of 0] True by (simp add: lit_true_def)
    next
      case False
      have "\<bar>l\<bar> \<le> largest_var (?cs @ [Internal_reset_limits])" using told_largest_var[OF t(2), of l] l(1) by auto
      moreover have "0 < snd (brute_force ?s) \<bar>l\<bar> \<longleftrightarrow> v (nat \<bar>l\<bar>)" using v(2) False by (simp add: lit_true_def)
      ultimately have "bits_of (extension reference_core (?cs @ [Internal_reset_limits])) (nat \<bar>l\<bar>) \<longleftrightarrow> v (nat \<bar>l\<bar>)"
        unfolding ext by simp
      then show ?thesis using l(2) lit_true_cong by blast
    qed
    then show ?thesis using v(1) unfolding satisfied_by_def by fastforce
  qed
  ultimately show "let cs' = cs @ [Internal_solve] in
      answer reference_core cs' = 10 \<and> satisfied_by F A (bits_of (extension reference_core (cs' @ [Internal_reset_limits]))) \<or>
      answer reference_core cs' = 20 \<and> (\<forall>v. \<not> satisfied_by F A v)"
    unfolding Let_def ans by blast
qed

end
