(* ===== verification/PriorityHeap.thy ===== *)
theory PriorityHeap
  imports Prelude
begin

text \<open>
  The priority queue from which the SAT solver picks its decisions: the binary heap with updates of
  lib/cadical-2.1.0/src/heap.hpp, the comparison of variables by score (internal.hpp), the filling of
  the heap (score.cpp) and the choice of the next decision variable (decide.cpp).  The scores, which
  are doubles in the source, are elements of a linear order; the comparison is an argument of the
  operations, as it is a template parameter in the source.

  \<open>heap_inv\<close> says that \<open>array\<close> and \<open>pos\<close> are inverse to each other and that no child is larger than its
  parent.  The loops have the number of elements as a bound.
\<close>

section \<open>The heap\<close>

definition invalid_heap_position :: nat where
  "invalid_heap_position = 2 ^ 32 - 1"

record heap =
  array :: "nat list"
  pos :: "nat list"

text \<open>\<open>index\<close> enlarges the position table on demand; \<open>grow_pos\<close> is that part of it.\<close>

definition grow_pos :: "nat \<Rightarrow> heap \<Rightarrow> heap" where
  "grow_pos e h =
     (if length (pos h) \<le> e then h\<lparr>pos := pos h @ replicate (1 + e - length (pos h)) invalid_heap_position\<rparr>
      else h)"

definition index :: "nat \<Rightarrow> heap \<Rightarrow> nat" where
  "index e h = pos (grow_pos e h) ! e"

definition heap_size :: "heap \<Rightarrow> nat" where
  "heap_size h = length (array h)"

definition heap_empty :: "heap \<Rightarrow> bool" where
  "heap_empty h \<longleftrightarrow> array h = []"

definition contains :: "nat \<Rightarrow> heap \<Rightarrow> bool" where
  "contains e h = (if length (pos h) \<le> e then False else pos h ! e \<noteq> invalid_heap_position)"

definition has_parent :: "nat \<Rightarrow> heap \<Rightarrow> bool" where
  "has_parent e h \<longleftrightarrow> index e h > 0"

definition has_left :: "nat \<Rightarrow> heap \<Rightarrow> bool" where
  "has_left e h \<longleftrightarrow> 2 * index e h + 1 < heap_size h"

definition has_right :: "nat \<Rightarrow> heap \<Rightarrow> bool" where
  "has_right e h \<longleftrightarrow> 2 * index e h + 2 < heap_size h"

definition parent :: "nat \<Rightarrow> heap \<Rightarrow> nat" where
  "parent e h = array h ! ((index e h - 1) div 2)"

definition left :: "nat \<Rightarrow> heap \<Rightarrow> nat" where
  "left e h = array h ! (2 * index e h + 1)"

definition right :: "nat \<Rightarrow> heap \<Rightarrow> nat" where
  "right e h = array h ! (2 * index e h + 2)"

definition exchange :: "nat \<Rightarrow> nat \<Rightarrow> heap \<Rightarrow> heap" where
  "exchange a b h =
     (let i = index a h; j = index b h; x = array h ! i
      in h\<lparr>array := (array h)[i := array h ! j, j := x], pos := (pos h)[a := j, b := i]\<rparr>)"

definition up_step :: "(nat \<Rightarrow> nat \<Rightarrow> bool) \<Rightarrow> nat \<Rightarrow> heap \<Rightarrow> (heap, heap) step result" where
  "up_step lt e h =
     Inr (if has_parent e h \<and> lt (parent e h) e then Continue (exchange (parent e h) e h) else Break h)"

definition up :: "(nat \<Rightarrow> nat \<Rightarrow> bool) \<Rightarrow> nat \<Rightarrow> heap \<Rightarrow> heap result" where
  "up lt e h = rloop (heap_size h + 1) (up_step lt e) h"

definition down_step :: "(nat \<Rightarrow> nat \<Rightarrow> bool) \<Rightarrow> nat \<Rightarrow> heap \<Rightarrow> (heap, heap) step result" where
  "down_step lt e h =
     Inr (if has_left e h then
            let c = left e h;
                c = (if has_right e h then let r = right e h in if lt c r then r else c else c)
            in if \<not> lt e c then Break h else Continue (exchange e c h)
          else Break h)"

definition down :: "(nat \<Rightarrow> nat \<Rightarrow> bool) \<Rightarrow> nat \<Rightarrow> heap \<Rightarrow> heap result" where
  "down lt e h = rloop (heap_size h + 1) (down_step lt e) h"

text \<open>The assertions of the source are errors; a release build does not check them.\<close>

definition push_back :: "(nat \<Rightarrow> nat \<Rightarrow> bool) \<Rightarrow> nat \<Rightarrow> heap \<Rightarrow> heap result" where
  "push_back lt e h =
     (if contains e h \<or> invalid_heap_position \<le> heap_size h then Inl OutOfBounds
      else
        let i = heap_size h; h = grow_pos e (h\<lparr>array := array h @ [e]\<rparr>); h = h\<lparr>pos := (pos h)[e := i]\<rparr>
        in rbind (up lt e h) (down lt e))"

definition front :: "heap \<Rightarrow> nat result" where
  "front h = (if heap_empty h then Inl OutOfBounds else Inr (array h ! 0))"

definition pop_front :: "(nat \<Rightarrow> nat \<Rightarrow> bool) \<Rightarrow> heap \<Rightarrow> (nat \<times> heap) result" where
  "pop_front lt h =
     (if heap_empty h then Inl OutOfBounds
      else
        let res = array h ! 0; l = last (array h);
            h = (if heap_size h > 1 then exchange res l h else h);
            h = h\<lparr>pos := (pos h)[res := invalid_heap_position], array := butlast (array h)\<rparr>
        in rbind (if heap_size h > 1 then down lt l h else Inr h) (\<lambda>h. Inr (res, h)))"

definition update :: "(nat \<Rightarrow> nat \<Rightarrow> bool) \<Rightarrow> nat \<Rightarrow> heap \<Rightarrow> heap result" where
  "update lt e h = (if \<not> contains e h then Inl OutOfBounds else rbind (up lt e h) (down lt e))"

definition clear :: "heap \<Rightarrow> heap" where
  "clear h = \<lparr>array = [], pos = []\<rparr>"

section \<open>Scores and decisions\<close>

definition score_smaller :: "(nat \<Rightarrow> 'a::linorder) \<Rightarrow> nat \<Rightarrow> nat \<Rightarrow> bool" where
  "score_smaller stab a b =
     (let s = stab a; t = stab b in if s < t then True else if s > t then False else a > b)"

definition init_scores :: "(nat \<Rightarrow> 'a::linorder) \<Rightarrow> nat \<Rightarrow> nat \<Rightarrow> heap \<Rightarrow> heap result" where
  "init_scores stab old_max_var new_max_var =
     rfold (\<lambda>i. push_back (score_smaller stab) (i + 1)) [old_max_var..<new_max_var]"

text \<open>\<open>val\<close> tells whether a variable is assigned; assigned variables leave the heap.\<close>

definition best_score_step ::
    "(nat \<Rightarrow> 'a::linorder) \<Rightarrow> (nat \<Rightarrow> bool) \<Rightarrow> heap \<Rightarrow> (heap, nat \<times> heap) step result" where
  "best_score_step stab val scores =
     rbind (front scores) (\<lambda>res.
     if \<not> val res then Inr (Break (res, scores))
     else rbind (pop_front (score_smaller stab) scores) (\<lambda>(_, scores). Inr (Continue scores)))"

definition next_decision_variable_with_best_score ::
    "(nat \<Rightarrow> 'a::linorder) \<Rightarrow> (nat \<Rightarrow> bool) \<Rightarrow> heap \<Rightarrow> (nat \<times> heap) result" where
  "next_decision_variable_with_best_score stab val scores =
     rloop (heap_size scores + 1) (best_score_step stab val) scores"


section \<open>Array and positions\<close>

definition wf_heap :: "heap \<Rightarrow> bool" where
  "wf_heap h \<longleftrightarrow> length (array h) \<le> invalid_heap_position \<and>
     (\<forall>i<length (array h). array h ! i < length (pos h) \<and> pos h ! (array h ! i) = i) \<and>
     (\<forall>e<length (pos h). pos h ! e \<noteq> invalid_heap_position \<longrightarrow>
        pos h ! e < length (array h) \<and> array h ! (pos h ! e) = e)"

lemma index_pos: "e < length (pos h) \<Longrightarrow> index e h = pos h ! e"
  by (simp add: index_def grow_pos_def)

lemma wf_heapD:
  assumes "wf_heap h"
  shows "i < length (array h) \<Longrightarrow> array h ! i < length (pos h)"
    and "i < length (array h) \<Longrightarrow> index (array h ! i) h = i"
    and "distinct (array h)"
    and "contains e h \<longleftrightarrow> e \<in> set (array h)"
    and "e \<in> set (array h) \<Longrightarrow> index e h < length (array h) \<and> array h ! index e h = e"
proof -
  show i: "array h ! i < length (pos h)" if "i < length (array h)" for i
    using assms that by (simp add: wf_heap_def)
  show ix: "index (array h ! i) h = i" if "i < length (array h)" for i
    using assms that i[OF that] by (simp add: wf_heap_def index_pos)
  then show "distinct (array h)" unfolding distinct_conv_nth by metis
  show c: "index e h < length (array h) \<and> array h ! index e h = e" if "e \<in> set (array h)" for e
    using that ix by (auto simp: in_set_conv_nth)
  show "contains e h \<longleftrightarrow> e \<in> set (array h)"
  proof
    assume "contains e h"
    then have "e < length (pos h)" "pos h ! e \<noteq> invalid_heap_position"
      by (auto simp: contains_def split: if_splits)
    with assms have "pos h ! e < length (array h)" "array h ! (pos h ! e) = e" by (simp_all add: wf_heap_def)
    then show "e \<in> set (array h)" by (metis nth_mem)
  next
    assume e: "e \<in> set (array h)"
    then obtain i where "i < length (array h)" "array h ! i = e" by (auto simp: in_set_conv_nth)
    with assms i[of i] show "contains e h" by (auto simp: contains_def wf_heap_def)
  qed
qed

lemma wf_index_inj:
  "wf_heap h \<Longrightarrow> a \<in> set (array h) \<Longrightarrow> b \<in> set (array h) \<Longrightarrow> index a h = index b h \<Longrightarrow> a = b"
  by (metis wf_heapD(5))

lemma exchange_wf:
  assumes wf: "wf_heap h" and a: "a \<in> set (array h)" and b: "b \<in> set (array h)"
  shows "wf_heap (exchange a b h)"
    and "length (array (exchange a b h)) = length (array h)"
    and "set (array (exchange a b h)) = set (array h)"
    and "array (exchange a b h) ! k =
      (if k = index b h then a else if k = index a h then b else array h ! k)"
    and "index a (exchange a b h) = index b h" and "index b (exchange a b h) = index a h"
proof -
  let ?i = "index a h" and ?j = "index b h"
  have ij: "?i < length (array h)" "?j < length (array h)" "array h ! ?i = a" "array h ! ?j = b"
    using wf_heapD(5)[OF wf a] wf_heapD(5)[OF wf b] by simp_all
  have ab: "a < length (pos h)" "b < length (pos h)" using wf_heapD(1)[OF wf ij(1)] wf_heapD(1)[OF wf ij(2)] ij by simp_all
  have pos: "pos h ! a = ?i" "pos h ! b = ?j" using ab by (simp_all add: index_pos)
  have ar: "array (exchange a b h) = (array h)[?i := b, ?j := a]"
    and ps: "pos (exchange a b h) = (pos h)[a := ?j, b := ?i]"
    using ij by (simp_all add: exchange_def Let_def)
  show len: "length (array (exchange a b h)) = length (array h)" by (simp add: ar)
  show nth: "array (exchange a b h) ! k = (if k = ?j then a else if k = ?i then b else array h ! k)" for k
    using ij by (simp add: ar nth_list_update)
  show "set (array (exchange a b h)) = set (array h)"
    using set_swap[of ?i "array h" ?j] ij by (simp add: ar)
  show ia: "index a (exchange a b h) = ?j" and ib: "index b (exchange a b h) = ?i"
  proof -
    have "(pos h)[a := ?j, b := ?i] ! a = ?j" using ab(1) by (cases "a = b") simp_all
    moreover have "(pos h)[a := ?j, b := ?i] ! b = ?i" using ab(2) by simp
    moreover have "index x (exchange a b h) = (pos h)[a := ?j, b := ?i] ! x" if "x < length (pos h)" for x
      using that by (simp add: index_def[of x "exchange a b h"] grow_pos_def[of x "exchange a b h"] ps)
    ultimately show "index a (exchange a b h) = ?j" "index b (exchange a b h) = ?i" using ab by simp_all
  qed
  have inj: "a = b" if "?i = ?j" using wf_index_inj[OF wf a b that] .
  have 1: "\<forall>i<length (array h). array (exchange a b h) ! i < length (pos h) \<and>
      pos (exchange a b h) ! (array (exchange a b h) ! i) = i"
  proof (intro allI impI)
    fix i assume i: "i < length (array h)"
    have o: "array h ! i < length (pos h)" "pos h ! (array h ! i) = i" using wf i by (simp_all add: wf_heap_def)
    show "array (exchange a b h) ! i < length (pos h) \<and> pos (exchange a b h) ! (array (exchange a b h) ! i) = i"
      using o ab inj pos ij unfolding nth by (auto simp: ps nth_list_update)
  qed
  have 2: "pos (exchange a b h) ! e < length (array h) \<and> array (exchange a b h) ! (pos (exchange a b h) ! e) = e"
    if "e < length (pos h)" "pos (exchange a b h) ! e \<noteq> invalid_heap_position" for e
  proof (cases "e = a \<or> e = b")
    case True
    then show ?thesis using ab inj ij unfolding nth by (auto simp: ps nth_list_update)
  next
    case False
    then have e: "pos (exchange a b h) ! e = pos h ! e" by (auto simp: ps)
    with that wf have o: "pos h ! e < length (array h)" "array h ! (pos h ! e) = e" by (simp_all add: wf_heap_def)
    moreover have "pos h ! e \<noteq> ?i" "pos h ! e \<noteq> ?j" using o False ij by auto
    ultimately show ?thesis unfolding nth e by simp
  qed
  show "wf_heap (exchange a b h)"
    unfolding wf_heap_def len using 1 2 wf by (simp add: ps wf_heap_def)
qed


section \<open>Order\<close>

definition up_of :: "nat \<Rightarrow> nat" where
  "up_of q = (q - 1) div 2"

definition heap_inv :: "(nat \<Rightarrow> nat \<Rightarrow> bool) \<Rightarrow> heap \<Rightarrow> bool" where
  "heap_inv lt h \<longleftrightarrow> wf_heap h \<and>
     (\<forall>q. 0 < q \<longrightarrow> q < length (array h) \<longrightarrow> \<not> lt (array h ! up_of q) (array h ! q))"

text \<open>
  The heap is ordered but for the element at position \<open>p\<close>, which may be too large for its parent or too
  small for its children; leaving it out, the order is still right.
\<close>

definition almost :: "(nat \<Rightarrow> nat \<Rightarrow> bool) \<Rightarrow> heap \<Rightarrow> nat \<Rightarrow> bool" where
  "almost lt h p \<longleftrightarrow>
     (\<forall>q. 0 < q \<longrightarrow> q < length (array h) \<longrightarrow> q \<noteq> p \<longrightarrow> up_of q \<noteq> p \<longrightarrow>
        \<not> lt (array h ! up_of q) (array h ! q)) \<and>
     (\<forall>q. 0 < q \<longrightarrow> q < length (array h) \<longrightarrow> up_of q = p \<longrightarrow> 0 < p \<longrightarrow>
        \<not> lt (array h ! up_of p) (array h ! q))"

lemma up_of_less: "0 < q \<Longrightarrow> up_of q < q"
  by (simp add: up_of_def)

lemma parent_up_of: "parent e h = array h ! up_of (index e h)"
  by (simp add: parent_def up_of_def)

lemma almostD:
  assumes "almost lt h p"
  shows "0 < q \<Longrightarrow> q < length (array h) \<Longrightarrow> q \<noteq> p \<Longrightarrow> up_of q \<noteq> p \<Longrightarrow> \<not> lt (array h ! up_of q) (array h ! q)"
    and "0 < q \<Longrightarrow> q < length (array h) \<Longrightarrow> up_of q = p \<Longrightarrow> 0 < p \<Longrightarrow> \<not> lt (array h ! up_of p) (array h ! q)"
  using assms by (simp_all add: almost_def)

text \<open>The interface of the comparison: a strict weak order.\<close>

locale weak_order =
  fixes lt :: "nat \<Rightarrow> nat \<Rightarrow> bool"
  assumes asym: "lt x y \<Longrightarrow> \<not> lt y x"
    and negtrans: "lt x z \<Longrightarrow> lt x y \<or> lt y z"
begin

lemma not_lt_trans: "\<not> lt x y \<Longrightarrow> \<not> lt y z \<Longrightarrow> \<not> lt x z"
  using negtrans by blast

lemma up_almost:
  assumes wf: "wf_heap h" and e: "e \<in> set (array h)" and p: "0 < index e h"
    and al: "almost lt h (index e h)" and x: "x = array h ! up_of (index e h)" and "lt x e"
  shows "almost lt (exchange x e h) (up_of (index e h))"
    and "index e (exchange x e h) = up_of (index e h)" and "x \<in> set (array h)"
proof -
  let ?p = "index e h" and ?pp = "up_of (index e h)" and ?f = "array h"
  have pl: "?p < length ?f" using wf_heapD(5)[OF wf e] by simp
  have pp: "?pp < ?p" using up_of_less[OF p] .
  with pl have ppl: "?pp < length ?f" by simp
  then show xs: "x \<in> set (array h)" using x by simp
  have fx: "?f ! ?pp = x" using x by simp
  have ix: "index x h = ?pp" using wf_heapD(2)[OF wf ppl] unfolding fx .
  note ex = exchange_wf[OF wf xs e]
  show "index e (exchange x e h) = ?pp" using ex(6) ix by simp
  have f': "array (exchange x e h) ! k = (if k = ?p then x else if k = ?pp then e else ?f ! k)" for k
    using ex(4) ix by simp
  show "almost lt (exchange x e h) ?pp"
    unfolding almost_def ex(2)
  proof (intro conjI allI impI)
    fix q assume q: "0 < q" "q < length ?f" "q \<noteq> ?pp" "up_of q \<noteq> ?pp"
    then have qp: "q \<noteq> ?p" by blast
    show "\<not> lt (array (exchange x e h) ! up_of q) (array (exchange x e h) ! q)"
    proof (cases "up_of q = ?p")
      case True
      then show ?thesis using almostD(2)[OF al q(1,2) True p] q qp unfolding fx f' True by simp
    next
      case False
      then show ?thesis using almostD(1)[OF al q(1,2) qp] q qp by (simp add: f')
    qed
  next
    fix q assume q: "0 < q" "q < length ?f" "up_of q = ?pp" "0 < ?pp"
    have pp2: "up_of ?pp < ?pp" using up_of_less[OF q(4)] .
    have o: "\<not> lt (?f ! up_of ?pp) x"
      using almostD(1)[OF al q(4) ppl] pp pp2 unfolding fx by simp
    show "\<not> lt (array (exchange x e h) ! up_of ?pp) (array (exchange x e h) ! q)"
    proof (cases "q = ?p")
      case True
      then show ?thesis using o pp pp2 by (simp add: f')
    next
      case False
      have "\<not> lt x (?f ! q)" using almostD(1)[OF al q(1,2) False] pp unfolding q(3) fx by simp
      moreover have "q \<noteq> ?pp" using up_of_less[OF q(1)] q(3) by simp
      ultimately show ?thesis using not_lt_trans[OF o] pp pp2 False by (simp add: f')
    qed
  qed
qed

lemma up_rok:
  assumes "wf_heap h" "e \<in> set (array h)" "almost lt h (index e h)"
  shows "rok (up lt e h) (\<lambda>h'. wf_heap h' \<and> set (array h') = set (array h) \<and> length (array h') = length (array h) \<and>
    almost lt h' (index e h') \<and> (0 < index e h' \<longrightarrow> \<not> lt (array h' ! up_of (index e h')) e))"
  unfolding up_def
proof (rule rok_rloop[where \<mu> = "index e" and I = "\<lambda>h'. wf_heap h' \<and> set (array h') = set (array h) \<and>
      length (array h') = length (array h) \<and> almost lt h' (index e h')"])
  show "index e h < heap_size h + 1" using wf_heapD(5)[OF assms(1,2)] by (simp add: heap_size_def)
next
  fix s assume s: "wf_heap s \<and> set (array s) = set (array h) \<and> length (array s) = length (array h) \<and>
    almost lt s (index e s)"
  then have e: "e \<in> set (array s)" using assms(2) by simp
  show "rok (up_step lt e s) (\<lambda>t. case t of
      Continue s' \<Rightarrow> (wf_heap s' \<and> set (array s') = set (array h) \<and> length (array s') = length (array h) \<and>
        almost lt s' (index e s')) \<and> index e s' < index e s
    | Break h' \<Rightarrow> wf_heap h' \<and> set (array h') = set (array h) \<and> length (array h') = length (array h) \<and>
        almost lt h' (index e h') \<and> (0 < index e h' \<longrightarrow> \<not> lt (array h' ! up_of (index e h')) e))"
  proof (cases "has_parent e s \<and> lt (parent e s) e")
    case True
    then have p: "0 < index e s" "lt (parent e s) e" by (simp_all add: has_parent_def)
    note u = up_almost[OF _ e p(1) _ _ p(2)]
    have "parent e s = array s ! up_of (index e s)" by (rule parent_up_of)
    with u s have u: "almost lt (exchange (parent e s) e s) (up_of (index e s))"
      "index e (exchange (parent e s) e s) = up_of (index e s)" "parent e s \<in> set (array s)" by blast+
    have "up_step lt e s = Inr (Continue (exchange (parent e s) e s))" using True by (simp add: up_step_def)
    moreover have "wf_heap s" "set (array s) = set (array h)" "length (array s) = length (array h)" using s by simp_all
    note exchange_wf(1-3)[OF this(1) u(3) e, unfolded this(2,3)]
    ultimately show ?thesis using u(1) up_of_less[OF p(1)] unfolding u(2)[symmetric] by simp
  next
    case False
    then have "up_step lt e s = Inr (Break s)" by (simp only: up_step_def if_False)
    moreover have "0 < index e s \<longrightarrow> \<not> lt (array s ! up_of (index e s)) e"
      using False by (simp only: has_parent_def parent_up_of) blast
    ultimately show ?thesis using s by simp
  qed
qed (use assms in simp)

end


section \<open>Moving down, and the operations\<close>

text \<open>The larger child, as \<open>down\<close> determines it.\<close>

definition larger_child :: "(nat \<Rightarrow> nat \<Rightarrow> bool) \<Rightarrow> nat \<Rightarrow> heap \<Rightarrow> nat" where
  "larger_child lt e h =
     (let c = left e h in if has_right e h then let r = right e h in if lt c r then r else c else c)"

lemma down_step_eq:
  "down_step lt e h = Inr (if has_left e h \<and> lt e (larger_child lt e h)
     then Continue (exchange e (larger_child lt e h) h) else Break h)"
  by (auto simp: down_step_def larger_child_def Let_def)

lemma up_of_eq: "0 < q \<Longrightarrow> up_of q = p \<longleftrightarrow> q = 2 * p + 1 \<or> q = 2 * p + 2"
  unfolding up_of_def by presburger

definition parent_ok :: "(nat \<Rightarrow> nat \<Rightarrow> bool) \<Rightarrow> heap \<Rightarrow> nat \<Rightarrow> bool" where
  "parent_ok lt h e \<longleftrightarrow> (0 < index e h \<longrightarrow> \<not> lt (array h ! up_of (index e h)) e)"

context weak_order
begin

lemma larger_child:
  assumes "has_left e h"
  obtains k where "0 < k" "k < length (array h)" "up_of k = index e h" "array h ! k = larger_child lt e h"
    "\<And>q. 0 < q \<Longrightarrow> q < length (array h) \<Longrightarrow> up_of q = index e h \<Longrightarrow> \<not> lt (larger_child lt e h) (array h ! q)"
proof -
  let ?p = "index e h" and ?f = "array h"
  have l: "2 * ?p + 1 < length ?f" using assms by (simp add: has_left_def heap_size_def)
  have irr: "\<not> lt x x" for x using asym by blast
  define k where "k = (if has_right e h \<and> lt (?f ! (2 * ?p + 1)) (?f ! (2 * ?p + 2)) then 2 * ?p + 2 else 2 * ?p + 1)"
  show thesis
  proof (rule that[of k])
    show "0 < k" "k < length ?f" using l by (auto simp: k_def has_right_def heap_size_def)
    show "up_of k = ?p" by (simp add: k_def up_of_def)
    show c: "?f ! k = larger_child lt e h"
      by (simp add: k_def larger_child_def left_def right_def Let_def)
    fix q assume q: "0 < q" "q < length ?f" "up_of q = ?p"
    then have "q = 2 * ?p + 1 \<or> q = 2 * ?p + 2" using up_of_eq by simp
    then show "\<not> lt (larger_child lt e h) (?f ! q)"
      unfolding c[symmetric] using q(2) asym irr by (auto simp: k_def has_right_def heap_size_def)
  qed
qed

lemma down_almost:
  assumes wf: "wf_heap h" and e: "e \<in> set (array h)" and al: "almost lt h (index e h)"
    and par: "parent_ok lt h e"
    and k: "0 < k" "k < length (array h)" "up_of k = index e h" "array h ! k = c"
      "\<And>q. 0 < q \<Longrightarrow> q < length (array h) \<Longrightarrow> up_of q = index e h \<Longrightarrow> \<not> lt c (array h ! q)"
    and lt: "lt e c"
  shows "almost lt (exchange e c h) k" and "index e (exchange e c h) = k" and "parent_ok lt (exchange e c h) e"
    and "c \<in> set (array h)"
proof -
  let ?p = "index e h" and ?f = "array h"
  have pk: "?p < k" using up_of_less[OF k(1)] k(3) by simp
  show cs: "c \<in> set (array h)" using k(2,4) by (metis nth_mem)
  have ix: "index c h = k" using wf_heapD(2)[OF wf k(2)] unfolding k(4) .
  have fe: "?f ! ?p = e" using wf_heapD(5)[OF wf e] by simp
  note ex = exchange_wf[OF wf e cs]
  show ie: "index e (exchange e c h) = k" using ex(5) ix by simp
  have f': "array (exchange e c h) ! q = (if q = k then e else if q = ?p then c else ?f ! q)" for q
    using ex(4) ix by simp
  show "parent_ok lt (exchange e c h) e"
    using asym[OF lt] pk unfolding parent_ok_def ie k(3) by (simp add: f')
  show "almost lt (exchange e c h) k"
    unfolding almost_def ex(2)
  proof (intro conjI allI impI)
    fix q assume q: "0 < q" "q < length ?f" "q \<noteq> k" "up_of q \<noteq> k"
    show "\<not> lt (array (exchange e c h) ! up_of q) (array (exchange e c h) ! q)"
    proof (cases "q = ?p")
      case True
      then have "up_of ?p < ?p" "up_of ?p \<noteq> k" using up_of_less q by blast+
      moreover have "\<not> lt (?f ! up_of ?p) c" using almostD(2)[OF al k(1,2,3)] q(1) True k(4) by simp
      ultimately show ?thesis using True pk by (simp add: f')
    next
      case qp: False
      show ?thesis
      proof (cases "up_of q = ?p")
        case True
        with k(5)[OF q(1,2)] qp q(3) pk show ?thesis by (simp add: f')
      next
        case False
        with almostD(1)[OF al q(1,2) qp False] qp q(3,4) show ?thesis by (simp add: f')
      qed
    qed
  next
    fix q assume q: "0 < q" "q < length ?f" "up_of q = k" "0 < k"
    have "k < q" using up_of_less[OF q(1)] q(3) by simp
    moreover have "\<not> lt c (?f ! q)"
      using almostD(1)[OF al q(1,2)] pk calculation unfolding q(3) k(4) by simp
    ultimately show "\<not> lt (array (exchange e c h) ! up_of k) (array (exchange e c h) ! q)"
      using pk k(3) by (simp add: f')
  qed
qed

lemma down_exit:
  assumes wf: "wf_heap h" and e: "e \<in> set (array h)" and al: "almost lt h (index e h)"
    and par: "parent_ok lt h e" and stop: "\<not> (has_left e h \<and> lt e (larger_child lt e h))"
  shows "heap_inv lt h"
  unfolding heap_inv_def
proof (intro conjI allI impI)
  fix q assume q: "0 < q" "q < length (array h)"
  have fe: "array h ! index e h = e" using wf_heapD(5)[OF wf e] by simp
  show "\<not> lt (array h ! up_of q) (array h ! q)"
  proof (cases "q = index e h")
    case True
    then show ?thesis using par q(1) fe by (simp add: parent_ok_def)
  next
    case qp: False
    show ?thesis
    proof (cases "up_of q = index e h")
      case True
      then have "q = 2 * index e h + 1 \<or> q = 2 * index e h + 2" using up_of_eq[OF q(1)] by simp
      then have l: "has_left e h" using q(2) by (auto simp: has_left_def heap_size_def)
      with stop have "\<not> lt e (larger_child lt e h)" by simp
      moreover have "\<not> lt (larger_child lt e h) (array h ! q)"
        using larger_child[OF l] q True by metis
      ultimately show ?thesis unfolding True fe using not_lt_trans by blast
    qed (use almostD(1)[OF al q qp] in blast)
  qed
qed (rule wf)

lemma down_rok:
  assumes "wf_heap h" "e \<in> set (array h)" "almost lt h (index e h)" "parent_ok lt h e"
  shows "rok (down lt e h) (\<lambda>h'. heap_inv lt h' \<and> set (array h') = set (array h) \<and> length (array h') = length (array h))"
  unfolding down_def
proof (rule rok_rloop[where \<mu> = "\<lambda>h'. length (array h) - index e h'" and I = "\<lambda>h'. wf_heap h' \<and>
      set (array h') = set (array h) \<and> length (array h') = length (array h) \<and> almost lt h' (index e h') \<and>
      parent_ok lt h' e"])
  show "length (array h) - index e h < heap_size h + 1" by (simp add: heap_size_def)
next
  fix s assume s: "wf_heap s \<and> set (array s) = set (array h) \<and> length (array s) = length (array h) \<and>
    almost lt s (index e s) \<and> parent_ok lt s e"
  then have e: "e \<in> set (array s)" and wf: "wf_heap s" and al: "almost lt s (index e s)" and par: "parent_ok lt s e"
    and eq: "set (array s) = set (array h)" "length (array s) = length (array h)" using assms(2) by simp_all
  show "rok (down_step lt e s) (\<lambda>t. case t of
      Continue s' \<Rightarrow> (wf_heap s' \<and> set (array s') = set (array h) \<and> length (array s') = length (array h) \<and>
        almost lt s' (index e s') \<and> parent_ok lt s' e) \<and>
        length (array h) - index e s' < length (array h) - index e s
    | Break h' \<Rightarrow> heap_inv lt h' \<and> set (array h') = set (array h) \<and> length (array h') = length (array h))"
  proof (cases "has_left e s \<and> lt e (larger_child lt e s)")
    case True
    let ?c = "larger_child lt e s"
    from True have l: "has_left e s" and le: "lt e ?c" by simp_all
    obtain k where k: "0 < k" "k < length (array s)" "up_of k = index e s" "array s ! k = ?c"
        "\<And>q. 0 < q \<Longrightarrow> q < length (array s) \<Longrightarrow> up_of q = index e s \<Longrightarrow> \<not> lt ?c (array s ! q)"
      using larger_child[OF l] by blast
    have d: "almost lt (exchange e ?c s) k" "index e (exchange e ?c s) = k" "parent_ok lt (exchange e ?c s) e"
        "?c \<in> set (array s)"
      using down_almost[OF wf e al par k(1-4) _ le] k(5) by blast+
    note x = exchange_wf(1-3)[OF wf e d(4), unfolded eq]
    have step: "down_step lt e s = Inr (Continue (exchange e ?c s))" using True
      by (simp only: down_step_eq simp_thms if_True)
    have "index e s < k" using up_of_less[OF k(1)] k(3) by simp
    then have "length (array h) - index e (exchange e ?c s) < length (array h) - index e s"
      using k(2) unfolding d(2) eq by simp
    moreover have "almost lt (exchange e ?c s) (index e (exchange e ?c s))" unfolding d(2) by (rule d(1))
    ultimately show ?thesis unfolding step rok_simps step.case using x d(3) by blast
  next
    case False
    then have step: "down_step lt e s = Inr (Break s)" by (simp only: down_step_eq if_False)
    show ?thesis using down_exit[OF wf e al par False] eq unfolding step by simp
  qed
qed (use assms in simp)

end


lemma heap_invD:
  "heap_inv lt h \<Longrightarrow> wf_heap h"
  "heap_inv lt h \<Longrightarrow> 0 < q \<Longrightarrow> q < length (array h) \<Longrightarrow> \<not> lt (array h ! up_of q) (array h ! q)"
  by (simp_all add: heap_inv_def)

text \<open>Adding an element behind the others.\<close>

definition appended :: "nat \<Rightarrow> heap \<Rightarrow> heap" where
  "appended e h =
     (let g = grow_pos e (h\<lparr>array := array h @ [e]\<rparr>) in g\<lparr>pos := (pos g)[e := heap_size h]\<rparr>)"

lemma appended_wf:
  assumes wf: "wf_heap h" and e: "e \<notin> set (array h)" and n: "length (array h) < invalid_heap_position"
  shows "array (appended e h) = array h @ [e]" "wf_heap (appended e h)" "index e (appended e h) = length (array h)"
proof -
  let ?n = "length (array h)" and ?h = "appended e h"
  define ps where "ps = pos h @ replicate (Suc e - length (pos h)) invalid_heap_position"
  show ar: "array ?h = array h @ [e]" by (simp add: appended_def grow_pos_def Let_def)
  have ps: "pos ?h = ps[e := ?n]"
    by (cases "length (pos h) \<le> e") (simp_all add: appended_def grow_pos_def Let_def ps_def heap_size_def)
  have el: "e < length ps" by (simp add: ps_def)
  then show "index e ?h = ?n" by (simp add: index_pos ps)
  have old: "ps ! x = pos h ! x" if "x < length (pos h)" for x using that by (simp add: ps_def nth_append)
  have new: "ps ! x = invalid_heap_position" if "\<not> x < length (pos h)" "x < length ps" for x
    using that by (auto simp: ps_def nth_append)
  have 1: "array ?h ! i < length (pos ?h) \<and> pos ?h ! (array ?h ! i) = i" if i: "i < length (array ?h)" for i
  proof (cases "i = ?n")
    case True
    then show ?thesis using el by (simp add: ar ps)
  next
    case False
    with i have i: "i < ?n" by (simp add: ar)
    then have a: "array h ! i < length (pos h)" "pos h ! (array h ! i) = i" "array h ! i \<noteq> e"
      using wf e nth_mem[OF i] by (auto simp: wf_heap_def)
    then have "array h ! i < length ps" by (simp add: ps_def)
    with a i old show ?thesis by (simp add: ar ps nth_append)
  qed
  have 2: "pos ?h ! x < length (array ?h) \<and> array ?h ! (pos ?h ! x) = x"
    if x: "x < length (pos ?h)" "pos ?h ! x \<noteq> invalid_heap_position" for x
  proof (cases "x = e")
    case True
    then show ?thesis using el by (simp add: ar ps)
  next
    case False
    then have px: "pos ?h ! x = ps ! x" "x < length ps" using x(1) by (simp_all add: ps)
    then have "x < length (pos h)" using x(2) new[of x] by metis
    with px x(2) old have "x < length (pos h)" "pos h ! x \<noteq> invalid_heap_position" "pos ?h ! x = pos h ! x"
      by simp_all
    with wf show ?thesis by (simp add: ar nth_append wf_heap_def less_SucI)
  qed
  show "wf_heap ?h" unfolding wf_heap_def using 1 2 n by (simp add: ar)
qed

text \<open>Removing the last element.\<close>

definition removed_last :: "heap \<Rightarrow> heap" where
  "removed_last h = h\<lparr>pos := (pos h)[last (array h) := invalid_heap_position], array := butlast (array h)\<rparr>"

lemma removed_last_wf:
  assumes wf: "wf_heap h" and ne: "array h \<noteq> []"
  shows "wf_heap (removed_last h)" "set (array (removed_last h)) = set (array h) - {last (array h)}"
    and "e \<in> set (array (removed_last h)) \<Longrightarrow> index e (removed_last h) = index e h"
proof -
  let ?h = "removed_last h" and ?x = "last (array h)"
  obtain xs x where xs: "array h = xs @ [x]" using ne by (metis append_butlast_last_id)
  have dist: "distinct (xs @ [x])" using wf_heapD(3)[OF wf] by (simp add: xs)
  have xl: "x < length (pos h)" using wf_heapD(1)[OF wf, of "length xs"] by (simp add: xs)
  have "\<forall>i<length (array h). pos h ! (array h ! i) = i" using wf by (simp add: wf_heap_def)
  from this[rule_format, of "length xs"] have px: "pos h ! x = length xs" by (simp add: xs)
  have ar: "array ?h = xs" and ps: "pos ?h = (pos h)[x := invalid_heap_position]"
    by (simp_all add: removed_last_def xs)
  show "set (array ?h) = set (array h) - {?x}" using dist by (auto simp: ar xs)
  show "index e ?h = index e h" if "e \<in> set (array ?h)"
  proof -
    from that obtain i where i: "i < length xs" "xs ! i = e" by (auto simp: ar in_set_conv_nth)
    then have "e < length (pos h)" using wf_heapD(1)[OF wf, of i] by (simp add: xs nth_append)
    moreover have "e \<noteq> x" using that dist by (auto simp: ar)
    ultimately show ?thesis by (simp add: index_pos ps)
  qed
  have 1: "xs ! i < length (pos h) \<and> pos ?h ! (xs ! i) = i" if i: "i < length xs" for i
  proof -
    have "xs ! i \<noteq> x" using dist nth_mem[OF i] by auto
    moreover have "xs ! i < length (pos h)" "pos h ! (xs ! i) = i"
      using wf i by (simp_all add: wf_heap_def xs nth_append less_SucI split: if_splits) 
    ultimately show ?thesis by (simp add: ps)
  qed
  have 2: "pos ?h ! e < length xs \<and> xs ! (pos ?h ! e) = e"
    if e: "e < length (pos h)" "pos ?h ! e \<noteq> invalid_heap_position" for e
  proof -
    have ex1: "e \<noteq> x" using e xl by (auto simp: ps)
    then have ex: "e \<noteq> x" "pos ?h ! e = pos h ! e" by (simp_all add: ps)
    with e have o: "pos h ! e < length (array h)" "array h ! (pos h ! e) = e"
      using wf by (simp_all add: wf_heap_def)
    moreover from o ex(1) have "pos h ! e \<noteq> length xs" by (auto simp: xs)
    ultimately show ?thesis by (simp add: ex(2) xs nth_append split: if_splits)
  qed
  show "wf_heap ?h" unfolding wf_heap_def ar using 1 2 wf by (simp add: ps wf_heap_def xs)
qed

context weak_order
begin

lemma up_down_rok:
  assumes "wf_heap h" "e \<in> set (array h)" "almost lt h (index e h)"
  shows "rok (rbind (up lt e h) (down lt e)) (\<lambda>h'. heap_inv lt h' \<and> set (array h') = set (array h) \<and>
    length (array h') = length (array h))"
  by (rule rok_bind[OF up_rok[OF assms]], rule rok_weaken[OF down_rok])
    (use assms in \<open>auto simp: parent_ok_def\<close>)

lemma push_back_rok:
  assumes inv: "heap_inv lt h" and e: "e \<notin> set (array h)" and n: "length (array h) < invalid_heap_position"
  shows "rok (push_back lt e h) (\<lambda>h'. heap_inv lt h' \<and> set (array h') = insert e (set (array h)) \<and>
    length (array h') = Suc (length (array h)))"
proof -
  have wf: "wf_heap h" using inv by (rule heap_invD)
  note a = appended_wf[OF wf e n]
  have "almost lt (appended e h) (length (array h))"
    unfolding almost_def a(1)
  proof (intro conjI allI impI)
    fix q assume q: "0 < q" "q < length (array h @ [e])" "q \<noteq> length (array h)"
    then have "q < length (array h)" by simp
    with heap_invD(2)[OF inv q(1) this] up_of_less[OF q(1)]
    show "\<not> lt ((array h @ [e]) ! up_of q) ((array h @ [e]) ! q)" by (simp add: nth_append)
  next
    fix q assume "0 < q" "q < length (array h @ [e])" "up_of q = length (array h)"
    then have False using up_of_less[of q] by simp
    then show "\<not> lt ((array h @ [e]) ! up_of (length (array h))) ((array h @ [e]) ! q)" ..
  qed
  with up_down_rok[OF a(2)] a(1,3) have
    "rok (rbind (up lt e (appended e h)) (down lt e)) (\<lambda>h'. heap_inv lt h' \<and> set (array h') = insert e (set (array h)) \<and>
      length (array h') = Suc (length (array h)))" by simp
  then show ?thesis
    using e n wf_heapD(4)[OF wf] by (simp add: push_back_def appended_def heap_size_def Let_def)
qed

lemma front_max:
  assumes "heap_inv lt h" "k < length (array h)"
  shows "\<not> lt (array h ! 0) (array h ! k)"
  using assms(2)
proof (induction k rule: less_induct)
  case (less k)
  show ?case
  proof (cases "k = 0")
    case True
    then show ?thesis using asym by blast
  next
    case False
    then have k: "0 < k" "up_of k < k" using up_of_less by auto
    with less have "\<not> lt (array h ! 0) (array h ! up_of k)" by simp
    with heap_invD(2)[OF assms(1) k(1) less.prems] show ?thesis using not_lt_trans by blast
  qed
qed

lemma pop_front_rok:
  assumes inv: "heap_inv lt h" and ne: "array h \<noteq> []"
  shows "rok (pop_front lt h) (\<lambda>(x, h'). x = array h ! 0 \<and> heap_inv lt h' \<and>
    set (array h') = set (array h) - {x})"
proof -
  let ?f = "array h" and ?n = "length (array h)"
  have wf: "wf_heap h" using inv by (rule heap_invD)
  let ?x = "?f ! 0" and ?l = "last ?f"
  have l: "?l = ?f ! (?n - 1)" using ne by (simp add: last_conv_nth)
  show ?thesis
  proof (cases "1 < ?n")
    case False
    then have "?n = 1" using ne by (cases ?f) auto
    then obtain x where x: "?f = [x]" by (metis One_nat_def length_0_conv length_Suc_conv)
    have "wf_heap (removed_last h)" using removed_last_wf(1)[OF wf ne] .
    then have "heap_inv lt (removed_last h)" by (simp add: heap_inv_def removed_last_def x)
    moreover have "pop_front lt h = Inr (x, removed_last h)"
      by (simp add: pop_front_def heap_empty_def heap_size_def x removed_last_def)
    ultimately show ?thesis by (simp add: x) (simp add: removed_last_def x)
  next
    case True
    have xl: "?x \<in> set ?f" "?l \<in> set ?f" using ne by simp_all
    have ix: "index ?x h = 0" "index ?l h = ?n - 1" using wf_heapD(2)[OF wf] ne True unfolding l by simp_all
    let ?h = "exchange ?x ?l h"
    note ex = exchange_wf[OF wf xl]
    have f': "array ?h ! q = (if q = ?n - 1 then ?x else if q = 0 then ?l else ?f ! q)" for q
      using ex(4) ix by simp
    have ne': "array ?h \<noteq> []" using ex(2) ne by auto
    have last: "last (array ?h) = ?x" using ne' by (simp add: last_conv_nth ex(2) f')
    note rm = removed_last_wf[OF ex(1) ne']
    have len: "length (array (removed_last ?h)) = ?n - 1" by (simp add: removed_last_def ex(2))
    have g: "array (removed_last ?h) ! q = (if q = 0 then ?l else ?f ! q)" if "q < ?n - 1" for q
      using that f' ex(2) by (simp add: removed_last_def nth_butlast)
    have xnl: "?x \<noteq> ?l" using ix True by force
    then have lin: "?l \<in> set (array (removed_last ?h))" using rm(2) ex(3) xl(2) last by auto
    have il: "index ?l (removed_last ?h) = 0" using rm(3)[OF lin] ex(6) ix by simp
    have "almost lt (removed_last ?h) 0"
      unfolding almost_def len
    proof (intro conjI allI impI)
      fix q assume q: "0 < q" "q < ?n - 1" "q \<noteq> 0" "up_of q \<noteq> 0"
      with heap_invD(2)[OF inv q(1)] up_of_less[OF q(1)]
      show "\<not> lt (array (removed_last ?h) ! up_of q) (array (removed_last ?h) ! q)" by (simp add: g)
    qed simp
    then have "rok (down lt ?l (removed_last ?h)) (\<lambda>h'. heap_inv lt h' \<and> set (array h') = set (array (removed_last ?h)))"
      by (intro rok_weaken[OF down_rok[OF rm(1) lin]]) (simp_all add: il parent_ok_def)
    then have A: "rok (down lt ?l (removed_last ?h)) (\<lambda>h'. heap_inv lt h' \<and> set (array h') = set ?f - {?x})"
      by (simp add: rm(2) ex(3) last)
    have B: "down lt ?l (removed_last ?h) =
        (if 1 < ?n - 1 then down lt ?l (removed_last ?h) else Inr (removed_last ?h))"
    proof (cases "1 < ?n - 1")
      case False
      then have "\<not> has_left ?l (removed_last ?h)" by (simp add: has_left_def il heap_size_def len)
      with False show ?thesis by (simp add: down_def down_step_def)
    qed simp
    have C: "pop_front lt h =
        rbind (if 1 < ?n - 1 then down lt ?l (removed_last ?h) else Inr (removed_last ?h)) (\<lambda>h. Inr (?x, h))"
      using True ne unfolding pop_front_def heap_empty_def heap_size_def Let_def removed_last_def last
      by (simp add: ex(2))
    from A show ?thesis unfolding C B[symmetric] by (rule rok_bind) simp
  qed
qed

end


section \<open>A changed priority, and the scores of variables\<close>

lemma changed_almost:
  assumes wo: "weak_order lt0" and inv: "heap_inv lt0 h" and e: "e \<in> set (array h)"
    and same: "\<And>x y. x \<noteq> e \<Longrightarrow> y \<noteq> e \<Longrightarrow> lt x y = lt0 x y"
  shows "almost lt h (index e h)"
proof -
  let ?p = "index e h" and ?f = "array h"
  have wf: "wf_heap h" using inv by (rule heap_invD)
  have ne: "?f ! q \<noteq> e" if "q < length ?f" "q \<noteq> ?p" for q
    using wf_heapD(2)[OF wf that(1)] that(2) by metis
  have pl: "?p < length ?f" using wf_heapD(5)[OF wf e] by simp
  show ?thesis
    unfolding almost_def
  proof (intro conjI allI impI)
    fix q assume q: "0 < q" "q < length ?f" "q \<noteq> ?p" "up_of q \<noteq> ?p"
    have "up_of q < length ?f" using up_of_less[OF q(1)] q(2) by simp
    from same[OF ne[OF this q(4)] ne[OF q(2,3)]] heap_invD(2)[OF inv q(1,2)]
    show "\<not> lt (?f ! up_of q) (?f ! q)" by blast
  next
    fix q assume q: "0 < q" "q < length ?f" "up_of q = ?p" "0 < ?p"
    have u: "up_of ?p < ?p" "?p < q" using up_of_less[OF q(4)] up_of_less[OF q(1)] q(3) by simp_all
    have "\<not> lt0 (?f ! up_of ?p) (?f ! ?p)" "\<not> lt0 (?f ! ?p) (?f ! q)"
      using heap_invD(2)[OF inv q(4) pl] heap_invD(2)[OF inv q(1,2)] q(3) by simp_all
    then have "\<not> lt0 (?f ! up_of ?p) (?f ! q)" using weak_order.not_lt_trans[OF wo] by blast
    moreover have "?f ! up_of ?p \<noteq> e" "?f ! q \<noteq> e" using ne u q(2) pl by simp_all
    ultimately show "\<not> lt (?f ! up_of ?p) (?f ! q)" using same by blast
  qed
qed

context weak_order
begin

lemma update_rok:
  assumes "weak_order lt0" "heap_inv lt0 h" "e \<in> set (array h)"
    and "\<And>x y. x \<noteq> e \<Longrightarrow> y \<noteq> e \<Longrightarrow> lt x y = lt0 x y"
  shows "rok (update lt e h) (\<lambda>h'. heap_inv lt h' \<and> set (array h') = set (array h) \<and>
    length (array h') = length (array h))"
proof -
  have wf: "wf_heap h" using assms(2) by (rule heap_invD)
  show ?thesis
    using up_down_rok[OF wf assms(3) changed_almost[OF assms]] wf_heapD(4)[OF wf] assms(3)
    by (simp add: update_def)
qed

end

text \<open>The comparison of the solver is such an order, and total.\<close>

interpretation score: weak_order "score_smaller stab" for stab :: "nat \<Rightarrow> 'a::linorder"
  by unfold_locales (auto simp: score_smaller_def Let_def split: if_splits)

lemma score_total: "\<not> score_smaller stab x y \<Longrightarrow> \<not> score_smaller stab y x \<Longrightarrow> x = y"
  by (auto simp: score_smaller_def Let_def split: if_splits)

definition best :: "(nat \<Rightarrow> 'a::linorder) \<Rightarrow> nat set \<Rightarrow> nat \<Rightarrow> bool" where
  "best stab X x \<longleftrightarrow> x \<in> X \<and> (\<forall>y\<in>X. y \<noteq> x \<longrightarrow> stab y < stab x \<or> stab y = stab x \<and> x < y)"

lemma front_best:
  assumes inv: "heap_inv (score_smaller stab) h" and ne: "array h \<noteq> []"
  shows "best stab (set (array h)) (array h ! 0)"
  unfolding best_def
proof (intro conjI ballI impI)
  show "array h ! 0 \<in> set (array h)" using ne by simp
  fix y assume "y \<in> set (array h)" "y \<noteq> array h ! 0"
  then obtain k where "k < length (array h)" "array h ! k = y" by (auto simp: in_set_conv_nth)
  with score.front_max[OF inv] have "\<not> score_smaller stab (array h ! 0) y" by blast
  with \<open>y \<noteq> array h ! 0\<close> show "stab y < stab (array h ! 0) \<or> stab y = stab (array h ! 0) \<and> array h ! 0 < y"
    by (auto simp: score_smaller_def Let_def split: if_splits)
qed

lemma init_scores_rok:
  assumes "heap_inv (score_smaller stab) h" "\<forall>v\<in>set (array h). v \<le> old_max_var"
    and "length (array h) + (new_max_var - old_max_var) \<le> invalid_heap_position"
    and "old_max_var \<le> new_max_var"
  shows "rok (init_scores stab old_max_var new_max_var h) (\<lambda>h'. heap_inv (score_smaller stab) h' \<and>
    set (array h') = set (array h) \<union> {old_max_var<..new_max_var})"
proof -
  have "rok (init_scores stab old_max_var new_max_var h) ((\<lambda>ys h'. heap_inv (score_smaller stab) h' \<and>
      set (array h') = set (array h) \<union> Suc ` set ys \<and> length (array h') = length (array h) + length ys)
      [old_max_var..<new_max_var])"
    unfolding init_scores_def
  proof (rule rok_rfold)
    fix ys x zs s
    assume ys: "[old_max_var..<new_max_var] = ys @ x # zs"
      and s: "heap_inv (score_smaller stab) s \<and> set (array s) = set (array h) \<union> Suc ` set ys \<and>
        length (array s) = length (array h) + length ys"
    have "distinct (ys @ x # zs)" "set (ys @ x # zs) = {old_max_var..<new_max_var}"
      "length (ys @ x # zs) = new_max_var - old_max_var" unfolding ys[symmetric] by simp_all
    then have "x \<notin> set ys" "old_max_var \<le> x" "length ys < new_max_var - old_max_var" by auto
    with s assms(2,3) have "x + 1 \<notin> set (array s)" "length (array s) < invalid_heap_position" by auto
    with score.push_back_rok[of stab s "x + 1"] s
    show "rok (push_back (score_smaller stab) (x + 1) s) (\<lambda>h'. heap_inv (score_smaller stab) h' \<and>
        set (array h') = set (array h) \<union> Suc ` set (ys @ [x]) \<and>
        length (array h') = length (array h) + length (ys @ [x]))"
      by (auto elim!: rok_weaken)
  qed (use assms in simp)
  then show ?thesis
    by (rule rok_weaken) (auto simp: image_Suc_atLeastLessThan)
qed

text \<open>
  The decision: assigned variables are dropped until the best variable is unassigned.  It is the best
  of all unassigned variables on the heap.
\<close>

lemma next_decision_rok:
  assumes inv: "heap_inv (score_smaller stab) h" and ex: "\<exists>v\<in>set (array h). \<not> val v"
  shows "rok (next_decision_variable_with_best_score stab val h) (\<lambda>(res, h').
    best stab {v \<in> set (array h). \<not> val v} res \<and> heap_inv (score_smaller stab) h' \<and>
    {v \<in> set (array h'). \<not> val v} = {v \<in> set (array h). \<not> val v} \<and> set (array h') \<subseteq> set (array h))"
  unfolding next_decision_variable_with_best_score_def
proof (rule rok_rloop[where \<mu> = "\<lambda>h. card (set (array h))" and I = "\<lambda>h'. heap_inv (score_smaller stab) h' \<and>
      {v \<in> set (array h'). \<not> val v} = {v \<in> set (array h). \<not> val v} \<and> set (array h') \<subseteq> set (array h)"])
  show "card (set (array h)) < heap_size h + 1"
    using card_length[of "array h"] by (simp add: heap_size_def)
next
  fix s assume s: "heap_inv (score_smaller stab) s \<and> {v \<in> set (array s). \<not> val v} = {v \<in> set (array h). \<not> val v} \<and>
      set (array s) \<subseteq> set (array h)"
  then have ne: "array s \<noteq> []" using ex by force
  let ?x = "array s ! 0"
  have b: "best stab (set (array s)) ?x" using front_best s ne by blast
  have fr: "front s = Inr ?x" using ne by (simp add: front_def heap_empty_def)
  show "rok (best_score_step stab val s) (\<lambda>t. case t of
      Continue s' \<Rightarrow> (heap_inv (score_smaller stab) s' \<and> {v \<in> set (array s'). \<not> val v} = {v \<in> set (array h). \<not> val v} \<and>
          set (array s') \<subseteq> set (array h)) \<and>
        card (set (array s')) < card (set (array s))
    | Break r \<Rightarrow> (case r of (res, h') \<Rightarrow> best stab {v \<in> set (array h). \<not> val v} res \<and>
        heap_inv (score_smaller stab) h' \<and> {v \<in> set (array h'). \<not> val v} = {v \<in> set (array h). \<not> val v} \<and>
        set (array h') \<subseteq> set (array h)))"
  proof (cases "val ?x")
    case False
    have "best stab {v \<in> set (array s). \<not> val v} ?x" using b False by (auto simp: best_def)
    with s False show ?thesis by (simp add: best_score_step_def fr)
  next
    case True
    have "rok (pop_front (score_smaller stab) s) (\<lambda>(x, h'). x = ?x \<and> heap_inv (score_smaller stab) h' \<and>
        set (array h') = set (array s) - {x})"
      using score.pop_front_rok[of stab s] s ne by blast
    then obtain h' where h': "pop_front (score_smaller stab) s = Inr (?x, h')" "heap_inv (score_smaller stab) h'"
        "set (array h') = set (array s) - {?x}" by (auto elim!: rokE)
    have "card (set (array s) - {?x}) < card (set (array s))" using ne by (intro card_Diff1_less) simp_all
    moreover have "{v \<in> set (array s) - {?x}. \<not> val v} = {v \<in> set (array h). \<not> val v}" using s True by blast
    moreover have "set (array s) - {?x} \<subseteq> set (array h)" using s by blast
    ultimately show ?thesis using True h' by (simp add: best_score_step_def fr)
  qed
qed (use inv in simp)


text \<open>A variable whose score has changed.\<close>

lemma rescored_rok:
  assumes "heap_inv (score_smaller stab) h" "e \<in> set (array h)" "\<forall>x. x \<noteq> e \<longrightarrow> stab' x = stab x"
  shows "rok (update (score_smaller stab') e h) (\<lambda>h'. heap_inv (score_smaller stab') h' \<and>
    set (array h') = set (array h) \<and> rok (front h') (best stab' (set (array h))))"
proof -
  have "score_smaller stab' x y = score_smaller stab x y" if "x \<noteq> e" "y \<noteq> e" for x y
    using assms(3) that by (simp add: score_smaller_def)
  from score.update_rok[OF score.weak_order_axioms assms(1,2) this]
  show ?thesis
  proof (rule rok_weaken)
    fix h' assume h': "heap_inv (score_smaller stab') h' \<and> set (array h') = set (array h) \<and>
      length (array h') = length (array h)"
    then have ne: "array h' \<noteq> []" using assms(2) by auto
    with front_best[of stab' h'] h' have "rok (front h') (best stab' (set (array h)))"
      by (simp add: front_def heap_empty_def)
    with h' show "heap_inv (score_smaller stab') h' \<and> set (array h') = set (array h) \<and>
      rok (front h') (best stab' (set (array h)))" by blast
  qed
qed

end
