(* ===== verification/RadixSort.thy ===== *)
theory RadixSort
  imports Prelude "HOL-Library.Word" "HOL-Library.Multiset"
begin

text \<open>
  The radix sort of the SAT solver, the template \<open>rsort\<close> of lib/cadical-2.1.0/src/radix.hpp, which sorts
  the variables to be bumped by time stamp.  Ranks are words of any width that is a multiple of 8; the
  bytes are processed from the least significant one.  The source skips a byte on which all ranks
  agree, which it knows from the conjunction and the disjunction of all ranks, skips one on which the
  array is sorted already, and clears and sums only the buckets between the smallest and the largest
  possible digit.  The theorem is that the result is the stable sort \<open>sort_key\<close> of the library.
\<close>

unbundle bit_operations_syntax

section \<open>The algorithm\<close>

text \<open>
  \<open>cur\<close> is the array \<open>c\<close>, \<open>other\<close> the one of \<open>a\<close> and \<open>b\<close> that \<open>c\<close> does not point to; \<open>buckets\<close> is \<open>count\<close>.
\<close>

record ('a, 'w) radix =
  cur :: "'a list"
  other :: "'a list"
  buckets :: "nat list"
  lower :: "'w"
  upper :: "'w"
  bounded :: bool
  masked_lower :: nat
  masked_upper :: nat

definition mask8 :: "'w::len word" where
  "mask8 = 255"

definition digit :: "nat \<Rightarrow> 'w::len word \<Rightarrow> nat" where
  "digit i r = unat (drop_bit i r AND mask8)"

definition shifted :: "nat \<Rightarrow> 'w::len word" where
  "shifted i = push_bit i mask8"

text \<open>\<open>memset\<close> on the buckets from \<open>masked_lower\<close> to \<open>masked_upper\<close>.\<close>

definition clear_buckets :: "nat \<Rightarrow> nat \<Rightarrow> nat list \<Rightarrow> nat list" where
  "clear_buckets lo hi cnt = fold (\<lambda>j cnt. cnt[j := 0]) [lo..<Suc hi] cnt"

text \<open>The counting loop; \<open>prev\<close> is the variable \<open>last\<close> of the source.\<close>

definition count_step ::
    "('a \<Rightarrow> 'w::len word) \<Rightarrow> nat \<Rightarrow> bool \<Rightarrow> 'a \<Rightarrow> bool \<times> nat \<times> 'w word \<times> 'w word \<times> nat list \<Rightarrow>
     bool \<times> nat \<times> 'w word \<times> 'w word \<times> nat list" where
  "count_step rank i bnd x = (\<lambda>(sorted, prev, lower, upper, cnt).
     let r = rank x;
         (lower, upper) = (if \<not> bnd then (lower AND r, upper OR r) else (lower, upper));
         m = digit i r;
         (sorted, prev) = (if sorted \<and> prev > m then (False, prev) else (sorted, m))
     in (sorted, prev, lower, upper, cnt[m := cnt ! m + 1]))"

definition prefix_sums :: "nat \<Rightarrow> nat \<Rightarrow> nat list \<Rightarrow> nat list" where
  "prefix_sums lo hi cnt =
     snd (fold (\<lambda>j (pos, cnt). (pos + cnt ! j, cnt[j := pos])) [lo..<Suc hi] (0, cnt))"

definition scatter_step :: "('a \<Rightarrow> 'w::len word) \<Rightarrow> nat \<Rightarrow> 'a \<Rightarrow> 'a list \<times> nat list \<Rightarrow> 'a list \<times> nat list" where
  "scatter_step rank i x = (\<lambda>(d, cnt).
     let m = digit i (rank x) in (d[cnt ! m := x], cnt[m := cnt ! m + 1]))"

definition radix_round :: "('a \<Rightarrow> 'w::len word) \<Rightarrow> nat \<Rightarrow> ('a, 'w word) radix \<Rightarrow> ('a, 'w word) radix" where
  "radix_round rank i s =
     (if bounded s \<and> lower s AND shifted i = upper s AND shifted i then s
      else
        let cleared = clear_buckets (masked_lower s) (masked_upper s) (buckets s);
            (sorted, _, lo, up, cnt) =
              fold (count_step rank i (bounded s)) (cur s) (True, 0, lower s, upper s, cleared);
            first = \<not> bounded s;
            s = s\<lparr>buckets := cnt, lower := lo, upper := up, bounded := True,
                  masked_lower := digit i lo, masked_upper := digit i up\<rparr>
        in if first \<and> lo AND shifted i = up AND shifted i then s
           else if sorted then s
           else
             let (d, cnt) = fold (scatter_step rank i) (cur s)
                   (other s, prefix_sums (masked_lower s) (masked_upper s) (buckets s))
             in s\<lparr>cur := d, other := cur s, buckets := cnt\<rparr>)"

text \<open>
  \<open>fill\<close> is the value with which \<open>v.resize(n)\<close> initialises the second array, \<open>junk\<close> the buckets on the
  stack before the first \<open>memset\<close>.
\<close>

definition rsort :: "'a \<Rightarrow> nat list \<Rightarrow> ('a \<Rightarrow> 'w::len word) \<Rightarrow> 'a list \<Rightarrow> 'a list" where
  "rsort fill junk rank xs =
     (if length xs \<le> 1 then xs
      else cur (fold (\<lambda>k. radix_round rank (8 * k)) [0..<LENGTH('w) div 8]
        \<lparr>cur = xs, other = replicate (length xs) fill, buckets = junk, lower = NOT 0, upper = 0,
         bounded = False, masked_lower = 0, masked_upper = 255\<rparr>))"


section \<open>Digits\<close>

lemma mask8_eq: "(mask8 :: 'w::len word) = mask 8"
  by (simp add: mask8_def mask_eq_exp_minus_1)

lemma digit_eq: "digit i (r :: 'w::len word) = unat r div 2 ^ i mod 256"
proof -
  have "digit i r = unat (take_bit 8 (drop_bit i r))" by (simp add: digit_def mask8_eq take_bit_eq_mask)
  also have "\<dots> = take_bit 8 (drop_bit i (unat r))" by (simp only: unsigned_take_bit_eq unat_drop_bit_eq)
  finally show ?thesis by (simp add: take_bit_eq_mod drop_bit_eq_div)
qed

lemma digit_less [simp]: "digit i r < 256"
  by (simp add: digit_eq)

lemma digit_mono:
  assumes "lo AND r = (lo :: 'w::len word)"
  shows "digit i lo \<le> digit i r"
proof -
  have "drop_bit i lo AND mask8 = (drop_bit i r AND mask8) AND (drop_bit i lo AND mask8)"
  proof (rule bit_word_eqI)
    fix n
    have "bit lo (i + n) \<Longrightarrow> bit r (i + n)" using arg_cong[OF assms, of "\<lambda>w. bit w (i + n)"] by (simp add: bit_simps)
    then show "bit (drop_bit i lo AND mask8) n = bit ((drop_bit i r AND mask8) AND (drop_bit i lo AND mask8)) n"
      by (auto simp: bit_simps)
  qed
  then have "drop_bit i lo AND mask8 \<le> drop_bit i r AND mask8" by (metis word_and_le1 and.commute)
  then show ?thesis by (simp add: digit_def word_le_nat_alt)
qed

lemma digits_agree:
  assumes "lo AND shifted i = up AND (shifted i :: 'w::len word)"
  shows "digit i lo = digit i up"
proof -
  have "bit (drop_bit i lo AND mask8) n = bit (drop_bit i up AND (mask8 :: 'w word)) n" for n
    using arg_cong[OF assms, of "\<lambda>w. bit w (i + n)"] by (auto simp: shifted_def bit_simps dest: bit_imp_le_length)
  then have "drop_bit i lo AND mask8 = drop_bit i up AND mask8" by (intro bit_word_eqI) blast
  then show ?thesis by (simp add: digit_def)
qed

section \<open>Counting\<close>

abbreviation tally :: "('a \<Rightarrow> nat) \<Rightarrow> 'a list \<Rightarrow> nat list \<Rightarrow> nat list" where
  "tally d \<equiv> fold (\<lambda>x cnt. cnt[d x := Suc (cnt ! d x)])"

lemma count_loop:
  "\<exists>prev'. fold (count_step rank i bnd) xs (srt, prev, lo, up, cnt) =
     (srt \<and> sorted (prev # map (\<lambda>x. digit i (rank x)) xs), prev',
      if bnd then lo else fold (\<lambda>x lo. lo AND rank x) xs lo,
      if bnd then up else fold (\<lambda>x up. up OR rank x) xs up,
      tally (\<lambda>x. digit i (rank x)) xs cnt)"
proof (induction xs arbitrary: srt prev lo up cnt)
  case (Cons x xs)
  let ?m = "digit i (rank x)"
  have "count_step rank i bnd x (srt, prev, lo, up, cnt) =
      (srt \<and> prev \<le> ?m, if srt \<and> prev > ?m then prev else ?m, if bnd then lo else lo AND rank x,
       if bnd then up else up OR rank x, cnt[?m := Suc (cnt ! ?m)])"
    by (auto simp: count_step_def Let_def)
  then show ?case
    using Cons.IH[of "srt \<and> prev \<le> ?m" "if srt \<and> prev > ?m then prev else ?m"
        "if bnd then lo else lo AND rank x" "if bnd then up else up OR rank x" "cnt[?m := Suc (cnt ! ?m)]"]
    by (auto split: if_splits)
qed simp

lemma fold_and:
  "fold (\<lambda>x lo. lo AND rank x) xs lo AND lo = fold (\<lambda>x lo. lo AND rank x) xs (lo :: 'w::len word)"
  "x \<in> set xs \<Longrightarrow> fold (\<lambda>x lo. lo AND rank x) xs lo AND rank x = fold (\<lambda>x lo. lo AND rank x) xs lo"
proof -
  show 1: "fold (\<lambda>x lo. lo AND rank x) xs lo AND lo = fold (\<lambda>x lo. lo AND rank x) xs lo" for xs lo
  proof (induction xs arbitrary: lo)
    case (Cons x xs)
    have "fold (\<lambda>x lo. lo AND rank x) (x # xs) lo AND lo =
        (fold (\<lambda>x lo. lo AND rank x) xs (lo AND rank x) AND (lo AND rank x)) AND lo"
      by (simp add: Cons.IH)
    also have "\<dots> = fold (\<lambda>x lo. lo AND rank x) xs (lo AND rank x) AND (lo AND rank x)"
      by (rule bit_word_eqI) (auto simp: bit_simps)
    finally show ?case by (simp add: Cons.IH)
  qed simp
  show "x \<in> set xs \<Longrightarrow> fold (\<lambda>x lo. lo AND rank x) xs lo AND rank x = fold (\<lambda>x lo. lo AND rank x) xs lo"
  proof (induction xs arbitrary: lo)
    case (Cons y ys)
    show ?case
    proof (cases "x = y")
      case True
      have "fold (\<lambda>x lo. lo AND rank x) (x # ys) lo AND rank x =
          (fold (\<lambda>x lo. lo AND rank x) ys (lo AND rank x) AND (lo AND rank x)) AND rank x" by (simp add: 1)
      also have "\<dots> = fold (\<lambda>x lo. lo AND rank x) ys (lo AND rank x) AND (lo AND rank x)"
        by (rule bit_word_eqI) (auto simp: bit_simps)
      finally show ?thesis using True by (simp add: 1)
    qed (use Cons in simp)
  qed simp
qed

lemma fold_or:
  assumes "x \<in> set xs"
  shows "rank x AND fold (\<lambda>x up. up OR rank x) xs up = (rank x :: 'w::len word)"
proof -
  have keep: "bit up n \<Longrightarrow> bit (fold (\<lambda>x up. up OR rank x) xs up) n" for xs up n
    by (induction xs arbitrary: up) (auto simp: bit_simps)
  have "bit (rank x) n \<Longrightarrow> bit (fold (\<lambda>x up. up OR rank x) xs up) n" for n
    using assms by (induction xs arbitrary: up) (auto simp: bit_simps keep)
  then show ?thesis by (intro bit_word_eqI) (auto simp: bit_simps)
qed

lemma tally_nth:
  assumes "j < length cnt"
  shows "length (tally d xs cnt) = length cnt"
    and "tally d xs cnt ! j = cnt ! j + length (filter (\<lambda>x. d x = j) xs)"
proof -
  show l: "length (tally d xs cnt) = length cnt" for cnt by (induction xs arbitrary: cnt) auto
  show "tally d xs cnt ! j = cnt ! j + length (filter (\<lambda>x. d x = j) xs)"
    using assms by (induction xs arbitrary: cnt) (auto simp: nth_list_update)
qed

lemma clear_nth:
  "length (clear_buckets lo hi cnt) = length cnt"
  "j < length cnt \<Longrightarrow> clear_buckets lo hi cnt ! j = (if lo \<le> j \<and> j \<le> hi then 0 else cnt ! j)"
proof -
  have "length (fold (\<lambda>j cnt. cnt[j := 0]) js cnt) = length cnt \<and>
      (j < length cnt \<longrightarrow> fold (\<lambda>j cnt. cnt[j := 0]) js cnt ! j = (if j \<in> set js then 0 else cnt ! j))" for js
    by (induction js arbitrary: cnt) (auto simp: nth_list_update)
  from this[of "[lo..<Suc hi]"] show "length (clear_buckets lo hi cnt) = length cnt"
    "j < length cnt \<Longrightarrow> clear_buckets lo hi cnt ! j = (if lo \<le> j \<and> j \<le> hi then 0 else cnt ! j)"
    by (auto simp: clear_buckets_def)
qed

lemma prefix_nth:
  assumes "hi < length cnt"
  shows "length (prefix_sums lo hi cnt) = length cnt"
    and "lo \<le> j \<Longrightarrow> j \<le> hi \<Longrightarrow> prefix_sums lo hi cnt ! j = (\<Sum>k\<leftarrow>[lo..<j]. cnt ! k)"
    and "\<not> (lo \<le> j \<and> j \<le> hi) \<Longrightarrow> prefix_sums lo hi cnt ! j = cnt ! j"
proof -
  define F where "F = (\<lambda>j (pos, cnt). (pos + cnt ! j, cnt[j := pos :: nat]))"
  have inv: "length (snd (fold F [lo..<e] (0, cnt))) = length cnt \<and>
      fst (fold F [lo..<e] (0, cnt)) = (\<Sum>k\<leftarrow>[lo..<e]. cnt ! k) \<and>
      (\<forall>j. snd (fold F [lo..<e] (0, cnt)) ! j =
        (if lo \<le> j \<and> j < e then (\<Sum>k\<leftarrow>[lo..<j]. cnt ! k) else cnt ! j))" if "e \<le> length cnt" for e
    using that
  proof (induction e)
    case (Suc e)
    then show ?case
      by (cases "lo \<le> e") (auto simp: F_def split_beta nth_list_update le_less_Suc_eq less_Suc_eq)
  qed simp
  from inv[of "Suc hi"] assms show "length (prefix_sums lo hi cnt) = length cnt"
    "lo \<le> j \<Longrightarrow> j \<le> hi \<Longrightarrow> prefix_sums lo hi cnt ! j = (\<Sum>k\<leftarrow>[lo..<j]. cnt ! k)"
    "\<not> (lo \<le> j \<and> j \<le> hi) \<Longrightarrow> prefix_sums lo hi cnt ! j = cnt ! j"
    by (auto simp: prefix_sums_def F_def)
qed


section \<open>Buckets\<close>

definition start :: "('a \<Rightarrow> nat) \<Rightarrow> 'a list \<Rightarrow> nat \<Rightarrow> nat" where
  "start d xs j = length (filter (\<lambda>x. d x < j) xs)"

lemma start_Suc: "start d xs (Suc j) = start d xs j + length (filter (\<lambda>x. d x = j) xs)"
  unfolding start_def by (induction xs) (auto simp: less_Suc_eq)

lemma start_mono: "i \<le> j \<Longrightarrow> start d xs i \<le> start d xs j"
  by (induction rule: dec_induct) (simp_all add: start_Suc)

lemma start_sum:
  assumes "\<forall>x\<in>set xs. lo \<le> d x" and "\<And>k. lo \<le> k \<Longrightarrow> k < j \<Longrightarrow> c k = length (filter (\<lambda>x. d x = k) xs)" and "lo \<le> j"
  shows "(\<Sum>k\<leftarrow>[lo..<j]. c k) = start d xs j"
  using assms(3,2)
proof (induction rule: dec_induct)
  case base
  have "filter (\<lambda>x. d x < lo) xs = []" using assms(1) by (auto simp: filter_empty_conv)
  then show ?case by (simp add: start_def)
next
  case (step j)
  then show ?case by (simp add: start_Suc)
qed

definition bucket_sorted :: "('a \<Rightarrow> nat) \<Rightarrow> 'a list \<Rightarrow> nat \<Rightarrow> 'a list" where
  "bucket_sorted d xs N = concat (map (\<lambda>j. filter (\<lambda>x. d x = j) xs) [0..<N])"

lemma bucket_sorted_sort_key:
  assumes "\<forall>x\<in>set xs. d x < N"
  shows "bucket_sorted d xs N = sort_key d xs"
proof (rule properties_for_sort_key[symmetric])
  have "mset (bucket_sorted d xs n) = mset (filter (\<lambda>x. d x < n) xs)" for n
  proof (induction n)
    case (Suc n)
    have "mset (filter (\<lambda>x. d x < Suc n) xs) = mset (filter (\<lambda>x. d x < n) xs) + mset (filter (\<lambda>x. d x = n) xs)"
      by (induction xs) (auto simp: less_Suc_eq)
    with Suc show ?case by (simp add: bucket_sorted_def)
  qed (simp add: bucket_sorted_def)
  from this[of N] show "mset (bucket_sorted d xs N) = mset xs" using assms by (simp add: filter_id_conv[THEN iffD2])
  show "filter (\<lambda>x. d k = d x) (bucket_sorted d xs N) = filter (\<lambda>x. d k = d x) xs" if "k \<in> set (bucket_sorted d xs N)" for k
  proof -
    have kN: "d k < N" using that by (auto simp: bucket_sorted_def)
    have "filter (\<lambda>x. d k = d x) (bucket_sorted d xs n) = (if d k < n then filter (\<lambda>x. d k = d x) xs else [])" for n
      by (induction n) (auto simp: bucket_sorted_def less_Suc_eq filter_empty_conv intro!: filter_cong)
    from this[of N] kN show ?thesis by simp
  qed
  have "sorted (map d (filter (\<lambda>x. d x = n) xs))" for n by (induction xs) auto
  then have "sorted (map d (bucket_sorted d xs n))" for n
    by (induction n) (auto simp: bucket_sorted_def sorted_append)
  then show "sorted (map d (bucket_sorted d xs N))" .
qed

section \<open>Scattering\<close>

text \<open>The blocks of the target array that have been filled after \<open>pre\<close> has been processed.\<close>

definition filled :: "('a \<Rightarrow> nat) \<Rightarrow> 'a list \<Rightarrow> nat \<Rightarrow> nat \<Rightarrow> 'a list \<Rightarrow> 'a list \<times> nat list \<Rightarrow> bool" where
  "filled d xs lo hi pre = (\<lambda>(ys, cnt). length ys = length xs \<and> length cnt = 256 \<and>
     (\<forall>j. lo \<le> j \<longrightarrow> j \<le> hi \<longrightarrow>
        cnt ! j = start d xs j + length (filter (\<lambda>x. d x = j) pre) \<and>
        take (length (filter (\<lambda>x. d x = j) pre)) (drop (start d xs j) ys) = filter (\<lambda>x. d x = j) pre))"

lemma filled_step:
  assumes inv: "filled (\<lambda>x. digit i (rank x)) xs lo hi pre (ys, cnt)" and xs: "xs = pre @ x # post"
    and m: "lo \<le> digit i (rank x)" "digit i (rank x) \<le> hi"
  shows "filled (\<lambda>x. digit i (rank x)) xs lo hi (pre @ [x]) (scatter_step rank i x (ys, cnt))"
proof -
  let ?d = "\<lambda>x. digit i (rank x)"
  let ?m = "?d x"
  define l where "l j = length (filter (\<lambda>x. ?d x = j) pre)" for j
  let ?p = "cnt ! ?m"
  have len: "length ys = length xs" "length cnt = 256" using inv by (simp_all add: filled_def)
  have J: "cnt ! j = start ?d xs j + l j" "take (l j) (drop (start ?d xs j) ys) = filter (\<lambda>x. ?d x = j) pre"
    if "lo \<le> j" "j \<le> hi" for j using inv that by (simp_all add: filled_def l_def)
  have p: "?p = start ?d xs ?m + l ?m" using J(1) m by simp
  have total: "start ?d xs (Suc j) \<ge> start ?d xs j + l j" "j = ?m \<Longrightarrow> start ?d xs (Suc j) > start ?d xs j + l j" for j
    unfolding start_Suc by (simp_all add: xs l_def)
  have "start ?d xs 256 \<le> length xs" by (simp add: start_def)
  moreover have "start ?d xs (Suc ?m) \<le> start ?d xs 256" by (rule start_mono) (metis Suc_leI digit_less)
  ultimately have pl: "?p < length ys" using total(2)[of ?m] p len by simp
  have step: "scatter_step rank i x (ys, cnt) = (ys[?p := x], cnt[?m := cnt ! ?m + 1])"
    by (simp add: scatter_step_def Let_def)
  show ?thesis
    unfolding filled_def step prod.case
  proof (intro conjI allI impI)
    fix j assume j: "lo \<le> j" "j \<le> hi"
    show "cnt[?m := cnt ! ?m + 1] ! j = start ?d xs j + length (filter (\<lambda>x. ?d x = j) (pre @ [x]))"
      using J(1)[OF j] len by (cases "j = ?m") (simp_all add: l_def)
    show "take (length (filter (\<lambda>x. ?d x = j) (pre @ [x]))) (drop (start ?d xs j) (ys[?p := x])) =
        filter (\<lambda>x. ?d x = j) (pre @ [x])"
    proof (cases "j = ?m")
      case True
      have "take (Suc (l j)) ((drop (start ?d xs j) ys)[l j := x]) = take (l j) (drop (start ?d xs j) ys) @ [x]"
        using pl p True by (simp add: take_Suc_conv_app_nth take_update_cancel)
      moreover have "drop (start ?d xs j) (ys[?p := x]) = (drop (start ?d xs j) ys)[l j := x]"
        using p True by (simp add: drop_update_swap)
      ultimately show ?thesis using J(2)[OF j] True by (simp add: l_def)
    next
      case False
      have "take (l j) (drop (start ?d xs j) (ys[?p := x])) = take (l j) (drop (start ?d xs j) ys)"
      proof (cases "j < ?m")
        case True
        have "start ?d xs j + l j \<le> ?p" using total(1)[of j] start_mono[of "Suc j" ?m ?d xs] True p by simp
        then show ?thesis
          by (cases "start ?d xs j \<le> ?p") (simp_all add: drop_update_swap take_update_cancel)
      next
        case F: False
        with False have "Suc ?m \<le> j" by simp
        from start_mono[OF this, of ?d xs] total(2)[of ?m] p have "?p < start ?d xs j" by simp
        then show ?thesis by (simp add: drop_update_cancel)
      qed
      with J(2)[OF j] False show ?thesis by (simp add: l_def)
    qed
  qed (simp_all add: len)
qed

lemma scatter_sorts:
  assumes "length ys = length xs" "length cnt = 256" "hi < 256"
    and d: "\<forall>x\<in>set xs. lo \<le> digit i (rank x) \<and> digit i (rank x) \<le> hi"
    and c: "\<And>j. lo \<le> j \<Longrightarrow> j \<le> hi \<Longrightarrow> cnt ! j = start (\<lambda>x. digit i (rank x)) xs j"
  shows "fst (fold (scatter_step rank i) xs (ys, cnt)) = sort_key (\<lambda>x. digit i (rank x)) xs"
    and "length (snd (fold (scatter_step rank i) xs (ys, cnt))) = 256"
    and "j < lo \<or> hi < j \<Longrightarrow> snd (fold (scatter_step rank i) xs (ys, cnt)) ! j = cnt ! j"
proof -
  let ?d = "\<lambda>x. digit i (rank x)"
  have inv: "filled ?d xs lo hi xs (fold (scatter_step rank i) xs (ys, cnt))"
  proof (rule fold_prefix[where I = "filled ?d xs lo hi"])
    show "filled ?d xs lo hi [] (ys, cnt)" using assms by (simp add: filled_def)
  next
    fix pre x post s assume "xs = pre @ x # post" "filled ?d xs lo hi pre s"
    then show "filled ?d xs lo hi (pre @ [x]) (scatter_step rank i x s)"
      using filled_step[of i rank xs lo hi pre "fst s" "snd s" x post] d by simp
  qed
  obtain zs cnt' where z: "fold (scatter_step rank i) xs (ys, cnt) = (zs, cnt')" by fastforce
  from inv have len: "length zs = length xs" "length cnt' = 256"
    and blk: "\<And>j. lo \<le> j \<Longrightarrow> j \<le> hi \<Longrightarrow>
      take (length (filter (\<lambda>x. ?d x = j) xs)) (drop (start ?d xs j) zs) = filter (\<lambda>x. ?d x = j) xs"
    by (simp_all add: z filled_def)
  have blk: "take (length (filter (\<lambda>x. ?d x = j) xs)) (drop (start ?d xs j) zs) = filter (\<lambda>x. ?d x = j) xs" for j
  proof (cases "lo \<le> j \<and> j \<le> hi")
    case False
    then have "filter (\<lambda>x. ?d x = j) xs = []" using d by (auto simp: filter_empty_conv)
    then show ?thesis by simp
  qed (use blk in simp)
  have "bucket_sorted ?d xs n = take (start ?d xs n) zs" for n
  proof (induction n)
    case 0
    then show ?case by (simp add: bucket_sorted_def start_def)
  next
    case (Suc n)
    then show ?case using blk[of n] by (simp add: start_Suc take_add bucket_sorted_def)
  qed
  from this[of 256] have "bucket_sorted ?d xs 256 = zs" using len by (simp add: start_def)
  then show "fst (fold (scatter_step rank i) xs (ys, cnt)) = sort_key ?d xs"
    using bucket_sorted_sort_key[of xs ?d 256] by (simp add: z)
  show "length (snd (fold (scatter_step rank i) xs (ys, cnt))) = 256" by (simp add: z len)
  have "snd (fold (scatter_step rank i) as s) ! j = snd s ! j"
    if "j < lo \<or> hi < j" "\<forall>x\<in>set as. lo \<le> ?d x \<and> ?d x \<le> hi" for as s
    using that by (induction as arbitrary: s) (auto simp: scatter_step_def Let_def split_beta)
  from this[of xs "(ys, cnt)"] d show "j < lo \<or> hi < j \<Longrightarrow> snd (fold (scatter_step rank i) xs (ys, cnt)) ! j = cnt ! j"
    by simp
qed

section \<open>Sorting by one more byte\<close>

lemma sorted_lex:
  fixes f g h :: "'a \<Rightarrow> nat"
  assumes "sorted (map f ys)" and "\<And>k. sorted (map g (filter (\<lambda>x. f x = k) ys))"
    and "\<And>x y. f x < f y \<Longrightarrow> h x \<le> h y" "\<And>x y. f x = f y \<Longrightarrow> g x \<le> g y \<Longrightarrow> h x \<le> h y"
  shows "sorted (map h ys)"
  using assms(1,2)
proof (induction ys)
  case (Cons y ys)
  have "sorted (map g (filter (\<lambda>x. f x = k) ys))" for k
    using Cons.prems(2)[of k] by (auto split: if_splits)
  with Cons have "sorted (map h ys)" by simp
  moreover have "h y \<le> h z" if z: "z \<in> set ys" for z
  proof (cases "f y = f z")
    case True
    then have "g y \<le> g z" using Cons.prems(2)[of "f y"] z by auto
    with True show ?thesis by (rule assms(4))
  next
    case False
    then show ?thesis using Cons.prems(1) z by (intro assms(3)) (auto simp: order.strict_iff_order)
  qed
  ultimately show ?case by auto
qed simp

lemma sort_key_lex:
  fixes f g h :: "'a \<Rightarrow> nat"
  assumes "\<And>x y. f x < f y \<Longrightarrow> h x \<le> h y" "\<And>x y. f x = f y \<Longrightarrow> g x \<le> g y \<Longrightarrow> h x \<le> h y"
    and "\<And>x y. h x = h y \<longleftrightarrow> f x = f y \<and> g x = g y"
  shows "sort_key f (sort_key g xs) = sort_key h xs"
proof (rule properties_for_sort_key[symmetric])
  let ?ys = "sort_key f (sort_key g xs)"
  show "mset ?ys = mset xs" by simp
  have st: "filter (\<lambda>x. f x = k) ?ys = filter (\<lambda>x. f x = k) (sort_key g xs)" for k by (rule sort_key_stable)
  show "filter (\<lambda>x. h k = h x) ?ys = filter (\<lambda>x. h k = h x) xs" for k
  proof -
    have "filter (\<lambda>x. h k = h x) ?ys = filter (\<lambda>x. g x = g k) (filter (\<lambda>x. f x = f k) ?ys)"
      by (auto simp: assms(3) intro!: filter_cong)
    also have "\<dots> = filter (\<lambda>x. f x = f k) (filter (\<lambda>x. g x = g k) (sort_key g xs))"
      unfolding st by (auto intro!: filter_cong)
    also have "\<dots> = filter (\<lambda>x. f x = f k) (filter (\<lambda>x. g x = g k) xs)" by (simp only: sort_key_stable)
    also have "\<dots> = filter (\<lambda>x. h k = h x) xs" by (auto simp: assms(3) intro!: filter_cong)
    finally show ?thesis .
  qed
  show "sorted (map h ?ys)"
  proof (rule sorted_lex[where f = f and g = g])
    show "sorted (map f ?ys)" by simp
    show "sorted (map g (filter (\<lambda>x. f x = k) ?ys))" for k unfolding st by (rule sorted_filter) simp
  qed (use assms in blast)+
qed

definition low :: "('a \<Rightarrow> 'w::len word) \<Rightarrow> nat \<Rightarrow> 'a \<Rightarrow> nat" where
  "low rank i x = unat (rank x) mod 2 ^ i"

lemma low_digit: "low rank (i + 8) x = digit i (rank x) * 2 ^ i + low rank i x"
proof -
  have "n mod (2 ^ i * 256) = 2 ^ i * (n div 2 ^ i mod 256) + n mod 2 ^ i" for n :: nat
    by (simp add: mod_mult2_eq)
  then show ?thesis by (simp add: low_def digit_eq power_add mult.commute)
qed

lemma sort_byte: "sort_key (\<lambda>x. digit i (rank x)) (sort_key (low rank i) xs) = sort_key (low rank (i + 8)) xs"
proof (rule sort_key_lex)
  have l: "low rank i x < 2 ^ i" for x by (simp add: low_def)
  show "low rank (i + 8) x \<le> low rank (i + 8) y" if "digit i (rank x) < digit i (rank y)" for x y
  proof -
    have "low rank (i + 8) x < Suc (digit i (rank x)) * 2 ^ i" using l[of x] by (simp add: low_digit)
    also have "\<dots> \<le> digit i (rank y) * 2 ^ i" using that by (intro mult_le_mono1) simp
    also have "\<dots> \<le> low rank (i + 8) y" by (simp add: low_digit)
    finally show ?thesis by simp
  qed
  show "low rank (i + 8) x \<le> low rank (i + 8) y"
    if "digit i (rank x) = digit i (rank y)" "low rank i x \<le> low rank i y" for x y
    using that by (simp add: low_digit)
  show "low rank (i + 8) x = low rank (i + 8) y \<longleftrightarrow> digit i (rank x) = digit i (rank y) \<and> low rank i x = low rank i y"
    for x y
  proof
    assume "low rank (i + 8) x = low rank (i + 8) y"
    then have *: "digit i (rank x) * 2 ^ i + low rank i x = digit i (rank y) * 2 ^ i + low rank i y"
      by (simp add: low_digit)
    have "(d * 2 ^ i + low rank i x) div 2 ^ i = d" "(d * 2 ^ i + low rank i x) mod 2 ^ i = low rank i x" for d x
      using l[of x] by simp_all
    with arg_cong[OF *, of "\<lambda>n. n div 2 ^ i"] arg_cong[OF *, of "\<lambda>n. n mod 2 ^ i"]
    show "digit i (rank x) = digit i (rank y) \<and> low rank i x = low rank i y" by metis
  qed (simp add: low_digit)
qed


section \<open>The rounds\<close>

definition round_inv :: "('a \<Rightarrow> 'w::len word) \<Rightarrow> 'a list \<Rightarrow> nat \<Rightarrow> ('a, 'w word) radix \<Rightarrow> bool" where
  "round_inv rank xs i s \<longleftrightarrow>
     cur s = sort_key (low rank i) xs \<and> length (other s) = length xs \<and> length (buckets s) = 256 \<and>
     (\<forall>j<256. \<not> (masked_lower s \<le> j \<and> j \<le> masked_upper s) \<longrightarrow> buckets s ! j = 0) \<and>
     (if bounded s then \<forall>x\<in>set xs. lower s AND rank x = lower s \<and> rank x AND upper s = rank x
      else lower s = NOT 0 \<and> upper s = 0)"

lemma sorted_digits:
  assumes "cur s = sort_key (low rank i) xs" "sorted (map (\<lambda>x. digit i (rank x)) (cur s))"
  shows "cur s = sort_key (low rank (i + 8)) xs"
  using sort_byte[of i rank xs] sort_key_id_if_sorted[OF assms(2)] unfolding assms(1) by simp

lemma agreeing_digits:
  assumes b: "\<forall>x\<in>set xs. lo AND rank x = lo \<and> rank x AND up = (rank x :: 'w::len word)"
    and ag: "lo AND shifted i = up AND shifted i" and ys: "set ys \<subseteq> set xs"
  shows "sorted (map (\<lambda>x. digit i (rank x)) ys)"
proof -
  have "digit i (rank x) = digit i up" if "x \<in> set ys" for x
    using digit_mono[of lo "rank x" i] digit_mono[of "rank x" up i] digits_agree[OF ag] b ys that by fastforce
  then have "map (\<lambda>x. digit i (rank x)) ys = replicate (length ys) (digit i up)"
    by (simp add: list_eq_iff_nth_eq)
  then show ?thesis by simp
qed

text \<open>What the counting loop leaves behind.\<close>

lemma counted:
  assumes inv: "round_inv rank xs i s"
    and f: "fold (count_step rank i (bounded s)) (cur s)
      (True, 0, lower s, upper s, clear_buckets (masked_lower s) (masked_upper s) (buckets s)) = (srt, prev, lo, up, cnt)"
  shows "srt \<longleftrightarrow> sorted (map (\<lambda>x. digit i (rank x)) (cur s))"
    and "\<forall>x\<in>set xs. lo AND rank x = lo \<and> rank x AND up = rank x"
    and "length cnt = 256" and "\<And>j. j < 256 \<Longrightarrow> cnt ! j = length (filter (\<lambda>x. digit i (rank x) = j) (cur s))"
    and "\<And>j. \<not> (digit i lo \<le> j \<and> j \<le> digit i up) \<Longrightarrow> filter (\<lambda>x. digit i (rank x) = j) (cur s) = []"
proof -
  let ?clr = "clear_buckets (masked_lower s) (masked_upper s) (buckets s)"
  have len: "length (buckets s) = 256" and set: "set (cur s) = set xs" using inv by (simp_all add: round_inv_def)
  have z: "?clr ! j = 0" if "j < 256" for j
    using clear_nth(2)[of j "buckets s"] inv that len by (auto simp: round_inv_def)
  have l: "length ?clr = 256" using clear_nth(1) len by metis
  obtain p where p: "(srt, prev, lo, up, cnt) = (True \<and> sorted (0 # map (\<lambda>x. digit i (rank x)) (cur s)), p,
      if bounded s then lower s else fold (\<lambda>x lo. lo AND rank x) (cur s) (lower s),
      if bounded s then upper s else fold (\<lambda>x up. up OR rank x) (cur s) (upper s),
      tally (\<lambda>x. digit i (rank x)) (cur s) ?clr)"
    using count_loop[of rank i "bounded s" "cur s" True 0 "lower s" "upper s" ?clr] f by auto
  then show "srt \<longleftrightarrow> sorted (map (\<lambda>x. digit i (rank x)) (cur s))" by simp
  show b: "\<forall>x\<in>set xs. lo AND rank x = lo \<and> rank x AND up = rank x"
  proof (cases "bounded s")
    case True
    then have "lo = lower s" "up = upper s" using p by simp_all
    then show ?thesis using inv True by (simp add: round_inv_def)
  next
    case False
    then have lu: "lo = fold (\<lambda>x lo. lo AND rank x) (cur s) (lower s)"
        "up = fold (\<lambda>x up. up OR rank x) (cur s) (upper s)"
      using p by simp_all
    show ?thesis unfolding lu set[symmetric] by (intro ballI conjI fold_and(2) fold_or)
  qed
  have cnt: "cnt = tally (\<lambda>x. digit i (rank x)) (cur s) ?clr" using p by simp
  show "length cnt = 256" using tally_nth(1)[of 0 ?clr] l unfolding cnt by simp
  show "cnt ! j = length (filter (\<lambda>x. digit i (rank x) = j) (cur s))" if "j < 256" for j
    using tally_nth(2)[of j ?clr] l z[OF that] that unfolding cnt by simp
  show "filter (\<lambda>x. digit i (rank x) = j) (cur s) = []" if "\<not> (digit i lo \<le> j \<and> j \<le> digit i up)" for j
    using that b digit_mono[of lo _ i] digit_mono[of _ up i] by (auto simp: filter_empty_conv set)
qed

lemma radix_round_inv:
  assumes inv: "round_inv rank xs i s"
  shows "round_inv rank xs (i + 8) (radix_round rank i s)"
proof (cases "bounded s \<and> lower s AND shifted i = upper s AND shifted i")
  case True
  then have b: "\<forall>x\<in>set xs. lower s AND rank x = lower s \<and> rank x AND upper s = rank x"
    using inv by (simp add: round_inv_def)
  have "set (cur s) \<subseteq> set xs" using inv by (simp add: round_inv_def)
  from agreeing_digits[OF b _ this] True inv have "cur s = sort_key (low rank (i + 8)) xs"
    by (intro sorted_digits) (simp_all add: round_inv_def)
  moreover have "radix_round rank i s = s" using True by (simp add: radix_round_def)
  ultimately show ?thesis using inv by (simp add: round_inv_def)
next
  case skip: False
  let ?d = "\<lambda>x. digit i (rank x)"
  obtain srt prev lo up cnt where f: "fold (count_step rank i (bounded s)) (cur s)
      (True, 0, lower s, upper s, clear_buckets (masked_lower s) (masked_upper s) (buckets s)) = (srt, prev, lo, up, cnt)"
    by (metis prod_cases5)
  note c = counted[OF inv f]
  define s' where "s' = s\<lparr>buckets := cnt, lower := lo, upper := up, bounded := True,
      masked_lower := digit i lo, masked_upper := digit i up\<rparr>"
  define r where "r = fold (scatter_step rank i) (cur s) (other s, prefix_sums (digit i lo) (digit i up) cnt)"
  have cur: "cur s = sort_key (low rank i) xs" "set (cur s) = set xs" "length (cur s) = length xs"
      "length (other s) = length xs"
    using inv by (simp_all add: round_inv_def)
  have res: "radix_round rank i s =
      (if \<not> bounded s \<and> lo AND shifted i = up AND shifted i then s' else if srt then s'
       else s'\<lparr>cur := fst r, other := cur s, buckets := snd r\<rparr>)"
    unfolding radix_round_def if_not_P[OF skip] Let_def f prod.case s'_def r_def by (simp add: split_beta)
  have zero: "cnt ! j = 0" if "j < 256" "\<not> (digit i lo \<le> j \<and> j \<le> digit i up)" for j
    using c(4)[OF that(1)] c(5)[OF that(2)] by simp
  have stay: "round_inv rank xs (i + 8) s'" if "sorted (map ?d (cur s))"
    using sorted_digits[OF cur(1) that] cur(4) c(2,3) zero by (simp add: round_inv_def s'_def)
  show ?thesis
  proof (cases "srt \<or> \<not> bounded s \<and> lo AND shifted i = up AND shifted i")
    case True
    then have "sorted (map ?d (cur s))" using c(1) agreeing_digits[OF c(2), of i "cur s"] cur(2) by auto
    from stay[OF this] show ?thesis using True unfolding res by (auto split: if_splits)
  next
    case False
    have ds: "\<forall>x\<in>set (cur s). digit i lo \<le> ?d x \<and> ?d x \<le> digit i up"
      using c(5) by (fastforce simp: filter_empty_conv)
    have pre: "prefix_sums (digit i lo) (digit i up) cnt ! j = start ?d (cur s) j"
      if j: "digit i lo \<le> j" "j \<le> digit i up" for j
    proof -
      have "prefix_sums (digit i lo) (digit i up) cnt ! j = (\<Sum>k\<leftarrow>[digit i lo..<j]. cnt ! k)"
        using prefix_nth(2)[of "digit i up" cnt "digit i lo" j] c(3) j by simp
      also have "\<dots> = start ?d (cur s) j"
      proof (rule start_sum)
        show "\<forall>x\<in>set (cur s). digit i lo \<le> ?d x" using ds by blast
        show "cnt ! k = length (filter (\<lambda>x. ?d x = k) (cur s))" if "digit i lo \<le> k" "k < j" for k
          using c(4)[of k] that j digit_less[of i up] by linarith
      qed (rule j)
      finally show ?thesis .
    qed
    have plen: "length (prefix_sums (digit i lo) (digit i up) cnt) = 256"
      using prefix_nth(1)[of "digit i up" cnt "digit i lo"] c(3) by simp
    have olen: "length (other s) = length (cur s)" using cur by simp
    note sc = scatter_sorts[OF olen plen digit_less ds pre]
    have "fst r = sort_key (low rank (i + 8)) xs"
      using sc(1) sort_byte[of i rank xs] unfolding r_def cur(1)[symmetric] by simp
    moreover have "length (snd r) = 256" using sc(2) by (simp add: r_def)
    moreover have "snd r ! j = 0" if j: "j < 256" "\<not> (digit i lo \<le> j \<and> j \<le> digit i up)" for j
      using sc(3)[of j] prefix_nth(3)[of "digit i up" cnt "digit i lo" j] c(3) zero[OF j] j(2)
      by (auto simp: r_def)
    moreover have "radix_round rank i s = s'\<lparr>cur := fst r, other := cur s, buckets := snd r\<rparr>"
      using False unfolding res by auto
    ultimately show ?thesis using c(2) cur(3) by (simp add: round_inv_def s'_def)
  qed
qed

lemma rsort_correct:
  fixes rank :: "'a \<Rightarrow> 'w::len word"
  assumes "8 dvd LENGTH('w)" and "length junk = 256"
  shows "rsort fill junk rank xs = sort_key rank xs"
proof (cases "length xs \<le> 1")
  case True
  then have "xs = [] \<or> (\<exists>x. xs = [x])" by (cases xs) auto
  then show ?thesis using True by (auto simp: rsort_def)
next
  case False
  let ?s0 = "\<lparr>cur = xs, other = replicate (length xs) fill, buckets = junk, lower = NOT 0, upper = 0,
         bounded = False, masked_lower = 0, masked_upper = 255\<rparr> :: ('a, 'w word) radix"
  have "sort_key (low rank 0) xs = xs" by (rule sort_key_id_if_sorted) (simp add: low_def sorted_iff_nth_mono)
  then have "round_inv rank xs 0 ?s0" using assms(2) by (auto simp: round_inv_def)
  then have inv: "round_inv rank xs (8 * n) (fold (\<lambda>k. radix_round rank (8 * k)) [0..<n] ?s0)" for n
  proof (induction n)
    case (Suc n)
    from radix_round_inv[OF Suc.IH[OF Suc.prems]] show ?case by (simp add: algebra_simps)
  qed simp
  have "low rank LENGTH('w) = (\<lambda>x. unat (rank x))" by (simp add: low_def fun_eq_iff)
  with inv[of "LENGTH('w) div 8"] assms(1) have
    "rsort fill junk rank xs = sort_key (\<lambda>x. unat (rank x)) xs"
    using False by (simp add: rsort_def round_inv_def)
  also have "\<dots> = sort_key rank xs"
  proof (rule properties_for_sort_key[symmetric])
    let ?ys = "sort_key (\<lambda>x. unat (rank x)) xs"
    show "filter (\<lambda>x. rank k = rank x) ?ys = filter (\<lambda>x. rank k = rank x) xs" for k
    proof -
      have "(\<lambda>x. rank k = rank x) = (\<lambda>x. unat (rank x) = unat (rank k))" by (auto simp: word_unat_eq_iff)
      then show ?thesis by (simp only: sort_key_stable)
    qed
    have "sorted (map (\<lambda>x. unat (rank x)) ?ys)" by simp
    then show "sorted (map rank ?ys)" by (simp add: sorted_iff_nth_mono word_le_nat_alt)
  qed simp
  finally show ?thesis .
qed

end
