(* ===== verification/VmtfQueue.thy ===== *)
theory VmtfQueue
  imports PriorityHeap RadixSort
begin

text \<open>
  The other source of decisions of the SAT solver, the queue of variables that are moved to the front
  when they are bumped (lib/cadical-2.1.0/src/queue.hpp, queue.cpp, analyze.cpp, backtrack.cpp and
  decide.cpp).  It is a doubly linked list through an array of links, ordered by time stamps, with a
  pointer behind which every variable is assigned.  \<open>unassign\<close> and \<open>next_decision_variable\<close> serve the
  queue and the heap of scores of PriorityHeap together.

  Variable indices are natural numbers, 0 stands for no variable; the tables are functions, since the
  solver enlarges its vectors to the number of variables before it uses them.  \<open>queue_inv\<close> says what
  the list is and what the pointer promises.
\<close>

section \<open>Links and queue\<close>

record Link =
  prev_of :: nat
  next_of :: nat

text \<open>\<open>assigned idx\<close> says that the value of the variable is not 0; its sign plays no role here.\<close>

record Internal =
  links :: "nat \<Rightarrow> Link"
  btab :: "nat \<Rightarrow> int"
  queue_first :: nat
  queue_last :: nat
  queue_unassigned :: nat
  queue_bumped :: int
  stats_bumped :: int
  assigned :: "nat \<Rightarrow> bool"
  scores :: heap

definition vidx :: "int \<Rightarrow> nat" where
  "vidx lit = nat \<bar>lit\<bar>"

definition dequeue :: "nat \<Rightarrow> Internal \<Rightarrow> Internal" where
  "dequeue idx s =
     (let l = links s idx;
          s = (if prev_of l \<noteq> 0
               then s\<lparr>links := (links s)(prev_of l := (links s (prev_of l))\<lparr>next_of := next_of l\<rparr>)\<rparr>
               else s\<lparr>queue_first := next_of l\<rparr>)
      in if next_of l \<noteq> 0
         then s\<lparr>links := (links s)(next_of l := (links s (next_of l))\<lparr>prev_of := prev_of l\<rparr>)\<rparr>
         else s\<lparr>queue_last := prev_of l\<rparr>)"

definition enqueue :: "nat \<Rightarrow> Internal \<Rightarrow> Internal" where
  "enqueue idx s =
     (let s = s\<lparr>links := (links s)(idx := (links s idx)\<lparr>prev_of := queue_last s\<rparr>)\<rparr>;
          s = (if queue_last s \<noteq> 0
               then s\<lparr>links := (links s)(queue_last s := (links s (queue_last s))\<lparr>next_of := idx\<rparr>)\<rparr>
               else s\<lparr>queue_first := idx\<rparr>);
          s = s\<lparr>queue_last := idx\<rparr>
      in s\<lparr>links := (links s)(idx := (links s idx)\<lparr>next_of := 0\<rparr>)\<rparr>)"

definition update_queue_unassigned :: "nat \<Rightarrow> Internal \<Rightarrow> Internal" where
  "update_queue_unassigned idx s = s\<lparr>queue_unassigned := idx, queue_bumped := btab s idx\<rparr>"

text \<open>\<open>reverse\<close> is the option of that name, off by default.\<close>

definition init_enqueue :: "bool \<Rightarrow> nat \<Rightarrow> Internal \<Rightarrow> Internal" where
  "init_enqueue reverse idx s =
     (if reverse then
        let s = s\<lparr>links := (links s)(idx := (links s idx)\<lparr>prev_of := 0\<rparr>)\<rparr>;
            s = (if queue_first s \<noteq> 0 then
                   s\<lparr>links := (links s)(queue_first s := (links s (queue_first s))\<lparr>prev_of := idx\<rparr>),
                     btab := (btab s)(idx := btab s (queue_first s) - 1)\<rparr>
                 else s\<lparr>queue_last := idx, btab := (btab s)(idx := 0)\<rparr>);
            s = s\<lparr>links := (links s)(idx := (links s idx)\<lparr>next_of := queue_first s\<rparr>)\<rparr>;
            s = s\<lparr>queue_first := idx\<rparr>
        in if queue_unassigned s = 0 then update_queue_unassigned (queue_last s) s else s
      else
        let s = s\<lparr>links := (links s)(idx := (links s idx)\<lparr>next_of := 0\<rparr>)\<rparr>;
            s = (if queue_last s \<noteq> 0
                 then s\<lparr>links := (links s)(queue_last s := (links s (queue_last s))\<lparr>next_of := idx\<rparr>)\<rparr>
                 else s\<lparr>queue_first := idx\<rparr>);
            s = s\<lparr>stats_bumped := stats_bumped s + 1\<rparr>;
            s = s\<lparr>btab := (btab s)(idx := stats_bumped s)\<rparr>;
            s = s\<lparr>links := (links s)(idx := (links s idx)\<lparr>prev_of := queue_last s\<rparr>)\<rparr>;
            s = s\<lparr>queue_last := idx\<rparr>
        in update_queue_unassigned (queue_last s) s)"

definition init_queue :: "bool \<Rightarrow> nat \<Rightarrow> nat \<Rightarrow> Internal \<Rightarrow> Internal" where
  "init_queue reverse old_max_var new_max_var =
     fold (\<lambda>idx. init_enqueue reverse (idx + 1)) [old_max_var..<new_max_var]"

section \<open>Bumping, unassigning, deciding\<close>

definition bump_queue :: "int \<Rightarrow> Internal \<Rightarrow> Internal" where
  "bump_queue lit s =
     (let idx = vidx lit
      in if next_of (links s idx) = 0 then s
         else
           let s = enqueue idx (dequeue idx s);
               s = s\<lparr>stats_bumped := stats_bumped s + 1\<rparr>;
               s = s\<lparr>btab := (btab s)(idx := stats_bumped s)\<rparr>
           in if \<not> assigned s idx then update_queue_unassigned idx s else s)"

text \<open>The time stamp as an unsigned 64-bit number, the rank by which \<open>bump_variables\<close> sorts.\<close>

definition analyze_bumped_rank :: "Internal \<Rightarrow> int \<Rightarrow> 64 word" where
  "analyze_bumped_rank s a = word_of_int (btab s (vidx a))"

text \<open>
  \<open>MSORT\<close>: \<open>std::sort\<close> for few elements; its result is only determined when no two elements are
  equivalent, which holds for time stamps.
\<close>

definition MSORT :: "nat \<Rightarrow> 'a \<Rightarrow> nat list \<Rightarrow> ('a \<Rightarrow> 64 word) \<Rightarrow> 'a list \<Rightarrow> 'a list" where
  "MSORT limit fill junk rank xs = (if length xs \<le> limit then sort_key rank xs else rsort fill junk rank xs)"

text \<open>\<open>bump_variables\<close> when the scores are not in use; \<open>analyzed\<close> already has the literals of reasons.\<close>

definition bump_variables :: "nat \<Rightarrow> nat list \<Rightarrow> int list \<Rightarrow> Internal \<Rightarrow> Internal" where
  "bump_variables radixsortlim junk analyzed s =
     fold bump_queue (MSORT radixsortlim 0 junk (analyze_bumped_rank s) analyzed) s"

definition unassign :: "(nat \<Rightarrow> 'a::linorder) \<Rightarrow> int \<Rightarrow> Internal \<Rightarrow> Internal result" where
  "unassign stab lit s =
     (let idx = vidx lit
      in if \<not> assigned s idx then Inl OutOfBounds
         else
           let s = s\<lparr>assigned := (assigned s)(idx := False)\<rparr>
           in rbind (if \<not> contains idx (scores s)
                then rbind (push_back (score_smaller stab) idx (scores s)) (\<lambda>h. Inr (s\<lparr>scores := h\<rparr>))
                else Inr s) (\<lambda>s.
              Inr (if queue_bumped s < btab s idx then update_queue_unassigned idx s else s)))"

definition next_decision_variable_on_queue :: "nat \<Rightarrow> Internal \<Rightarrow> (nat \<times> Internal) result" where
  "next_decision_variable_on_queue max_var s =
     rbind (rloop (max_var + 1) (\<lambda>(res, searched).
         Inr (if assigned s res then Continue (prev_of (links s res), searched + (1::nat))
              else Break (res, searched))) (queue_unassigned s, 0)) (\<lambda>(res, searched).
     Inr (res, if searched \<noteq> 0 then update_queue_unassigned res s else s))"

definition next_decision_variable ::
    "bool \<Rightarrow> (nat \<Rightarrow> 'a::linorder) \<Rightarrow> nat \<Rightarrow> Internal \<Rightarrow> (nat \<times> Internal) result" where
  "next_decision_variable use_scores stab max_var s =
     (if use_scores
      then rbind (next_decision_variable_with_best_score stab (assigned s) (scores s)) (\<lambda>(res, h).
             Inr (res, s\<lparr>scores := h\<rparr>))
      else next_decision_variable_on_queue max_var s)"


section \<open>Doubly linked lists\<close>

definition first_of :: "'a list \<Rightarrow> 'a \<Rightarrow> 'a" where
  "first_of xs n = (case xs of [] \<Rightarrow> n | y # _ \<Rightarrow> y)"

definition last_of :: "'a \<Rightarrow> 'a list \<Rightarrow> 'a" where
  "last_of p xs = (if xs = [] then p else last xs)"

lemma first_last_simps [simp]:
  "first_of [] n = n" "first_of (y # ys) n = y" "last_of p [] = p" "last_of p (xs @ [a]) = a"
  "last_of p (x # xs) = last_of x xs"
  by (simp_all add: first_of_def last_of_def)

lemma first_of_append [simp]: "first_of (xs @ ys) n = first_of xs (first_of ys n)"
  by (simp add: first_of_def split: list.split)

lemma last_of_append [simp]: "last_of p (xs @ ys) = last_of (last_of p xs) ys"
  by (simp add: last_of_def)

text \<open>A segment of the list, between the neighbours \<open>p\<close> and \<open>n\<close>.\<close>

fun dll :: "(nat \<Rightarrow> Link) \<Rightarrow> nat \<Rightarrow> nat list \<Rightarrow> nat \<Rightarrow> bool" where
  "dll L p [] n \<longleftrightarrow> True"
| "dll L p (x # xs) n \<longleftrightarrow> prev_of (L x) = p \<and> next_of (L x) = first_of xs n \<and> dll L x xs n"

lemma dll_append [simp]: "dll L p (xs @ ys) n \<longleftrightarrow> dll L p xs (first_of ys n) \<and> dll L (last_of p xs) ys n"
  by (induction xs arbitrary: p) auto

lemma dll_other [simp]: "x \<notin> set xs \<Longrightarrow> dll (L(x := l)) p xs n \<longleftrightarrow> dll L p xs n"
  by (induction xs arbitrary: p) auto

lemma dll_set_next:
  assumes "dll L p xs n" "distinct xs" "xs \<noteq> []"
  shows "dll (L(last xs := (L (last xs))\<lparr>next_of := m\<rparr>)) p xs m"
  using assms by (cases xs rule: rev_cases) auto

lemma dll_set_prev:
  assumes "dll L p (y # ys) n" "distinct (y # ys)"
  shows "dll (L(y := (L y)\<lparr>prev_of := q\<rparr>)) q (y # ys) n"
  using assms by auto

definition is_queue :: "Internal \<Rightarrow> nat list \<Rightarrow> bool" where
  "is_queue s xs \<longleftrightarrow> dll (links s) 0 xs 0 \<and> distinct xs \<and> 0 \<notin> set xs \<and>
     queue_first s = first_of xs 0 \<and> queue_last s = last_of 0 xs"

lemma dequeue_queue:
  assumes "is_queue s (as @ x # bs)"
  shows "is_queue (dequeue x s) (as @ bs)"
proof -
  let ?L = "links s"
  have d: "dll ?L 0 as x" "prev_of (?L x) = last_of 0 as" "next_of (?L x) = first_of bs 0" "dll ?L x bs 0"
      "distinct (as @ x # bs)" "0 \<notin> set (as @ x # bs)"
    and a: "queue_first s = first_of as x" "queue_last s = last_of x bs"
    using assms by (auto simp: is_queue_def)
  show ?thesis
  proof (cases as rule: rev_cases)
    case Nil
    show ?thesis
    proof (cases bs)
      case Nil
      with \<open>as = []\<close> show ?thesis using d a by (simp add: is_queue_def dequeue_def)
    next
      case (Cons b bs')
      with \<open>as = []\<close> show ?thesis using d a by (auto simp: is_queue_def dequeue_def)
    qed
  next
    case (snoc as' p)
    have next': "dll (?L(p := (?L p)\<lparr>next_of := m\<rparr>)) 0 (as' @ [p]) m" for m
      using dll_set_next[OF d(1), of m] d(5) snoc by simp
    show ?thesis
    proof (cases bs)
      case Nil
      with snoc next'[of 0] show ?thesis using d a by (simp add: is_queue_def dequeue_def)
    next
      case (Cons b bs')
      have "b \<noteq> p" "b \<notin> set as'" "p \<notin> set bs'" "b \<notin> set bs'" "p \<notin> set as'" using d(5) snoc Cons by auto
      with snoc Cons next'[of b] show ?thesis using d a by (auto simp: is_queue_def dequeue_def)
    qed
  qed
qed

lemma enqueue_queue:
  assumes "is_queue s xs" "x \<notin> set xs" "x \<noteq> 0"
  shows "is_queue (enqueue x s) (xs @ [x])"
proof (cases xs rule: rev_cases)
  case Nil
  with assms show ?thesis by (simp add: is_queue_def enqueue_def Let_def)
next
  case (snoc ys p)
  with assms show ?thesis by (auto simp: is_queue_def enqueue_def Let_def)
qed

lemma queue_frame [simp]:
  "btab (dequeue x s) = btab s" "btab (enqueue x s) = btab s"
  "assigned (dequeue x s) = assigned s" "assigned (enqueue x s) = assigned s"
  "scores (dequeue x s) = scores s" "scores (enqueue x s) = scores s"
  "stats_bumped (dequeue x s) = stats_bumped s" "stats_bumped (enqueue x s) = stats_bumped s"
  "queue_unassigned (dequeue x s) = queue_unassigned s" "queue_unassigned (enqueue x s) = queue_unassigned s"
  "queue_bumped (dequeue x s) = queue_bumped s" "queue_bumped (enqueue x s) = queue_bumped s"
  by (simp_all add: dequeue_def enqueue_def Let_def)

lemma is_queue_cong:
  "links s' = links s \<Longrightarrow> queue_first s' = queue_first s \<Longrightarrow> queue_last s' = queue_last s \<Longrightarrow>
     is_queue s' xs = is_queue s xs"
  by (simp add: is_queue_def)


section \<open>The order of the queue and its pointer\<close>

text \<open>
  \<open>queue_bumped\<close> may be older than the stamp of the variable at the pointer, when that variable is
  bumped while it is assigned.
\<close>

definition queue_inv :: "Internal \<Rightarrow> nat list \<Rightarrow> bool" where
  "queue_inv s xs \<longleftrightarrow> is_queue s xs \<and> sorted_wrt (<) (map (btab s) xs) \<and> 0 \<le> stats_bumped s \<and>
     (\<forall>x\<in>set xs. btab s x \<le> stats_bumped s) \<and>
     (if xs = [] then queue_unassigned s = 0
      else queue_unassigned s \<in> set xs \<and> queue_bumped s \<le> btab s (queue_unassigned s)) \<and>
     (\<forall>x\<in>set xs. queue_bumped s < btab s x \<longrightarrow> assigned s x)"

lemma queue_invD:
  assumes "queue_inv s xs"
  shows "is_queue s xs" "distinct xs" "0 \<notin> set xs" "sorted_wrt (<) (map (btab s) xs)" "0 \<le> stats_bumped s"
    "x \<in> set xs \<Longrightarrow> btab s x \<le> stats_bumped s" "x \<in> set xs \<Longrightarrow> queue_bumped s < btab s x \<Longrightarrow> assigned s x"
    "xs \<noteq> [] \<Longrightarrow> queue_unassigned s \<in> set xs" "xs \<noteq> [] \<Longrightarrow> queue_bumped s \<le> btab s (queue_unassigned s)"
  using assms by (auto simp: queue_inv_def is_queue_def split: if_splits)

text \<open>Moving the pointer to a variable behind which all are assigned.\<close>

lemma update_unassigned_inv:
  assumes "is_queue s xs" "sorted_wrt (<) (map (btab s) xs)" "0 \<le> stats_bumped s"
    and "\<forall>x\<in>set xs. btab s x \<le> stats_bumped s" "idx \<in> set xs"
    and "\<forall>x\<in>set xs. btab s idx < btab s x \<longrightarrow> assigned s x"
  shows "queue_inv (update_queue_unassigned idx s) xs"
proof -
  have "is_queue (update_queue_unassigned idx s) xs"
    using assms(1) by (subst is_queue_cong[of _ s]) (simp_all add: update_queue_unassigned_def)
  then show ?thesis using assms by (auto simp: queue_inv_def update_queue_unassigned_def)
qed


section \<open>Initialisation\<close>

lemma sorted_append_max:
  "sorted_wrt (<) (map f (xs @ [x])) \<longleftrightarrow> sorted_wrt (<) (map f xs) \<and> (\<forall>y\<in>set xs. f y < (f x :: int))"
  by (simp add: sorted_wrt_append)

lemma link_simps:
  "l\<lparr>next_of := a, prev_of := b\<rparr> = \<lparr>prev_of = b, next_of = a\<rparr>"
  "l\<lparr>prev_of := b, next_of := a\<rparr> = \<lparr>prev_of = b, next_of = a\<rparr>"
  by (cases l; simp)+

lemma init_enqueue_back:
  assumes inv: "queue_inv s xs" and x: "x \<notin> set xs" "x \<noteq> 0"
  shows "queue_inv (init_enqueue False x s) (xs @ [x])"
proof -
  note q = queue_invD[OF inv]
  define s' where "s' = (enqueue x s)\<lparr>stats_bumped := stats_bumped s + 1, btab := (btab s)(x := stats_bumped s + 1)\<rparr>"
  have "queue_last s \<noteq> x" using q(1) x by (auto simp: is_queue_def last_of_def split: if_splits)
  then have eq: "init_enqueue False x s = update_queue_unassigned x s'"
    by (auto simp: init_enqueue_def s'_def enqueue_def Let_def update_queue_unassigned_def fun_upd_twist link_simps
        intro!: Internal.equality)
  have iq: "is_queue s' (xs @ [x])"
    using enqueue_queue[OF q(1) x] by (subst is_queue_cong[of _ "enqueue x s"]) (simp_all add: s'_def)
  have b: "btab s' y = btab s y" if "y \<in> set xs" for y using that x(1) by (auto simp: s'_def)
  have m: "map (btab s') xs = map (btab s) xs" using b by simp
  have bx: "btab s' x = stats_bumped s + 1" "stats_bumped s' = stats_bumped s + 1" by (simp_all add: s'_def)
  have so: "sorted_wrt (<) (map (btab s') (xs @ [x]))"
    unfolding sorted_append_max m using q(4) bx by (auto simp: b dest: q(6))
  show ?thesis
    unfolding eq using q(5,6) b bx
    by (intro update_unassigned_inv iq so) fastforce+
qed

text \<open>
  In reverse order a new variable may only be added when \<open>queue_bumped\<close> is up to date; then its stamp
  is not larger.
\<close>

lemma init_enqueue_front:
  assumes inv: "queue_inv s xs" and x: "x \<notin> set xs" "x \<noteq> 0"
    and fresh: "xs \<noteq> [] \<Longrightarrow> queue_bumped s = btab s (queue_unassigned s)"
  shows "queue_inv (init_enqueue True x s) (x # xs)"
    and "queue_bumped (init_enqueue True x s) = btab (init_enqueue True x s) (queue_unassigned (init_enqueue True x s))"
proof -
  let ?s0 = "s\<lparr>links := (links s)(x := \<lparr>prev_of = 0, next_of = 0\<rparr>),
      queue_first := x, queue_last := x, btab := (btab s)(x := 0)\<rparr>"
  have *: "queue_inv (init_enqueue True x s) (x # xs) \<and>
      queue_bumped (init_enqueue True x s) = btab (init_enqueue True x s) (queue_unassigned (init_enqueue True x s))"
  proof (cases xs)
    case Nil
    have "queue_inv (update_queue_unassigned x ?s0) [x]"
      using queue_invD(5)[OF inv] x(2) by (intro update_unassigned_inv) (simp_all add: is_queue_def)
    moreover have "queue_first s = 0" "queue_unassigned s = 0" using inv by (simp_all add: queue_inv_def is_queue_def Nil)
    then have "init_enqueue True x s = update_queue_unassigned x ?s0"
      by (auto simp: init_enqueue_def update_queue_unassigned_def link_simps intro!: Internal.equality)
    ultimately show ?thesis using Nil by (simp add: update_queue_unassigned_def)
  next
    case (Cons y ys)
    note q = queue_invD[OF inv]
    have y: "queue_first s = y" "y \<noteq> 0" "y \<noteq> x" using q(1,3) x by (auto simp: is_queue_def Cons)
    have us: "queue_unassigned s \<in> set xs" using q(8) by (simp add: Cons)
    then have u: "queue_unassigned s \<noteq> 0" "queue_unassigned s \<in> set xs" "queue_unassigned s \<noteq> x"
      using q(3) x(1) by metis+
    have eq: "init_enqueue True x s = s\<lparr>
        links := (links s)(x := \<lparr>prev_of = 0, next_of = y\<rparr>, y := (links s y)\<lparr>prev_of := x\<rparr>),
        btab := (btab s)(x := btab s y - 1), queue_first := x\<rparr>" (is "_ = ?s")
      using y u by (auto simp: init_enqueue_def fun_upd_twist link_simps intro!: Internal.equality)
    have "dll (links s) 0 (y # ys) 0" "distinct (x # y # ys)" using q(1,2) x by (simp_all add: is_queue_def Cons)
    then have iq: "is_queue ?s (x # xs)" using q(1) x y by (auto simp: is_queue_def Cons)
    have m: "map (btab ?s) xs = map (btab s) xs" using x(1) by simp
    have le: "\<forall>z\<in>set xs. btab s y \<le> btab s z" using q(4) by (auto simp: Cons)
    have fr: "queue_bumped s = btab s (queue_unassigned s)" using fresh by (simp add: Cons)
    have so: "sorted_wrt (<) (map (btab ?s) (x # xs))"
      unfolding list.map m sorted_wrt.simps using q(4) le by fastforce
    have "\<forall>z\<in>set (x # xs). btab ?s z \<le> stats_bumped ?s" using q(6) order.trans[OF _ q(6)[of y], of "btab s y - 1"] x(1)
      by (auto simp: Cons)
    moreover have "\<forall>z\<in>set (x # xs). queue_bumped ?s < btab ?s z \<longrightarrow> assigned ?s z"
    proof (intro ballI impI)
      fix z assume z: "z \<in> set (x # xs)" "queue_bumped ?s < btab ?s z"
      have "btab s y \<le> queue_bumped s" using le u(2) fr by simp
      then have "z \<noteq> x" using z(2) by auto
      then show "assigned ?s z" using q(7)[of z] z by simp
    qed
    ultimately have "queue_inv ?s (x # xs)"
      using iq so q(5) u fr unfolding queue_inv_def by simp
    then show ?thesis using u fr unfolding eq by simp
  qed
  then show "queue_inv (init_enqueue True x s) (x # xs)"
    and "queue_bumped (init_enqueue True x s) = btab (init_enqueue True x s) (queue_unassigned (init_enqueue True x s))"
    by blast+
qed

lemma init_queue_inv:
  assumes "queue_inv s xs" "\<forall>x\<in>set xs. x \<le> old_max_var"
    and "reverse \<Longrightarrow> xs = [] \<or> queue_bumped s = btab s (queue_unassigned s)"
  shows "queue_inv (init_queue reverse old_max_var (old_max_var + n) s)
    (if reverse then rev [old_max_var + 1..<old_max_var + n + 1] @ xs else xs @ [old_max_var + 1..<old_max_var + n + 1])"
proof -
  let ?s = "\<lambda>n. init_queue reverse old_max_var (old_max_var + n) s"
  let ?xs = "\<lambda>n. if reverse then rev [old_max_var + 1..<old_max_var + n + 1] @ xs
      else xs @ [old_max_var + 1..<old_max_var + n + 1]"
  have "queue_inv (?s n) (?xs n) \<and>
      (reverse \<longrightarrow> ?xs n \<noteq> [] \<longrightarrow> queue_bumped (?s n) = btab (?s n) (queue_unassigned (?s n)))"
  proof (induction n)
    case 0
    then show ?case using assms by (auto simp: init_queue_def)
  next
    case (Suc n)
    have st: "?s (Suc n) = init_enqueue reverse (old_max_var + n + 1) (?s n)" by (simp add: init_queue_def)
    have new: "old_max_var + n + 1 \<notin> set (?xs n)" "old_max_var + n + 1 \<noteq> 0"
      using assms(2)[rule_format, of "old_max_var + n + 1"] by auto
    show ?case
    proof (cases reverse)
      case True
      with init_enqueue_front[OF _ new] Suc show ?thesis unfolding st by simp
    next
      case False
      with init_enqueue_back[OF _ new] Suc show ?thesis unfolding st by simp
    qed
  qed
  then show ?thesis by blast
qed


section \<open>Bumping\<close>

lemma bump_queue_inv:
  assumes inv: "queue_inv s xs" and x: "vidx lit \<in> set xs"
  shows "queue_inv (bump_queue lit s) (filter (\<lambda>y. y \<noteq> vidx lit) xs @ [vidx lit])"
    and "assigned (bump_queue lit s) = assigned s" "scores (bump_queue lit s) = scores s"
proof -
  let ?x = "vidx lit"
  note q = queue_invD[OF inv]
  obtain as bs where xs: "xs = as @ ?x # bs" using x by (auto dest: split_list)
  have rest: "filter (\<lambda>y. y \<noteq> ?x) xs = as @ bs"
  proof -
    have "filter (\<lambda>y. y \<noteq> ?x) as = as" "filter (\<lambda>y. y \<noteq> ?x) bs = bs"
      using q(2) by (auto simp: xs intro!: filter_True)
    then show ?thesis by (simp add: xs)
  qed
  have nx: "next_of (links s ?x) = first_of bs 0" using q(1) by (simp add: is_queue_def xs)
  show "queue_inv (bump_queue lit s) (filter (\<lambda>y. y \<noteq> ?x) xs @ [?x])"
  proof (cases bs)
    case Nil
    then have "bump_queue lit s = s" using nx by (simp add: bump_queue_def)
    then show ?thesis using inv by (simp only: rest) (simp add: xs Nil)
  next
    case (Cons b bs')
    then have b: "next_of (links s ?x) \<noteq> 0" using nx q(3) by (simp add: xs)
    define s1 where "s1 = enqueue ?x (dequeue ?x s)"
    define s2 where "s2 = s1\<lparr>stats_bumped := stats_bumped s + 1, btab := (btab s)(?x := stats_bumped s + 1)\<rparr>"
    have eq: "bump_queue lit s = (if \<not> assigned s ?x then update_queue_unassigned ?x s2 else s2)"
      using b by (simp add: bump_queue_def s1_def s2_def Let_def)
    have "is_queue (dequeue ?x s) (as @ bs)" using dequeue_queue q(1) unfolding xs by blast
    moreover have "?x \<notin> set (as @ bs)" "?x \<noteq> 0" using q(2,3) by (auto simp: xs)
    ultimately have "is_queue s1 ((as @ bs) @ [?x])" unfolding s1_def by (rule enqueue_queue)
    then have iq: "is_queue s2 ((as @ bs) @ [?x])" by (subst is_queue_cong[of _ s1]) (simp_all add: s2_def)
    have old: "btab s2 y = btab s y" if "y \<in> set (as @ bs)" for y
      using that \<open>?x \<notin> set (as @ bs)\<close> by (auto simp: s2_def)
    have bx: "btab s2 ?x = stats_bumped s + 1" "stats_bumped s2 = stats_bumped s + 1" by (simp_all add: s2_def)
    have m: "map (btab s2) (as @ bs) = map (btab s) (as @ bs)" using old by simp
    have le: "btab s y \<le> stats_bumped s" if "y \<in> set (as @ bs)" for y using q(6) that by (auto simp: xs)
    have so: "sorted_wrt (<) (map (btab s2) ((as @ bs) @ [?x]))"
      unfolding sorted_append_max m using q(4) old le bx by (fastforce simp: xs sorted_wrt_append)
    have le2: "\<forall>y\<in>set ((as @ bs) @ [?x]). btab s2 y \<le> stats_bumped s2" using old le bx by fastforce
    have fr: "assigned s2 = assigned s" "queue_unassigned s2 = queue_unassigned s" "queue_bumped s2 = queue_bumped s"
      by (simp_all add: s2_def s1_def)
    show ?thesis
    proof (cases "assigned s ?x")
      case False
      have "queue_inv (update_queue_unassigned ?x s2) ((as @ bs) @ [?x])"
      proof (rule update_unassigned_inv[OF iq so])
        show "\<forall>y\<in>set ((as @ bs) @ [?x]). btab s2 ?x < btab s2 y \<longrightarrow> assigned s2 y"
          using le2 unfolding bx by fastforce
      qed (use q(5) bx le2 in simp_all)
      with False show ?thesis unfolding eq rest by simp
    next
      case True
      have u: "queue_unassigned s \<in> set xs" "queue_bumped s \<le> btab s (queue_unassigned s)"
        using q(8,9) by (simp_all add: xs)
      have "queue_bumped s \<le> btab s2 (queue_unassigned s)"
        using u q(6)[OF u(1)] by (auto simp: s2_def)
      moreover have se: "set ((as @ bs) @ [?x]) = set xs" by (auto simp: xs)
      moreover have "\<forall>y\<in>set xs. queue_bumped s < btab s2 y \<longrightarrow> assigned s y"
        unfolding se[symmetric] using q(7) old True by (auto simp: xs)
      ultimately have "queue_inv s2 ((as @ bs) @ [?x])"
        using iq so le2 q(5) bx u(1) unfolding queue_inv_def fr se by simp
      with True show ?thesis unfolding eq rest by simp
    qed
  qed
  show "assigned (bump_queue lit s) = assigned s" "scores (bump_queue lit s) = scores s"
    by (simp_all add: bump_queue_def update_queue_unassigned_def Let_def)
qed

lemma bump_all_inv:
  assumes "queue_inv s xs" "distinct (map vidx lits)" "vidx ` set lits \<subseteq> set xs"
  shows "queue_inv (fold bump_queue lits s) (filter (\<lambda>y. y \<notin> vidx ` set lits) xs @ map vidx lits)"
    and "assigned (fold bump_queue lits s) = assigned s" "scores (fold bump_queue lits s) = scores s"
proof -
  have "queue_inv (fold bump_queue lits s) (filter (\<lambda>y. y \<notin> vidx ` set lits) xs @ map vidx lits) \<and>
      assigned (fold bump_queue lits s) = assigned s \<and> scores (fold bump_queue lits s) = scores s"
    using assms
  proof (induction lits arbitrary: s xs)
    case (Cons l lits)
    let ?x = "vidx l"
    have l: "?x \<in> set xs" using Cons.prems(3) by simp
    note b = bump_queue_inv[OF Cons.prems(1) l]
    have "distinct (map vidx lits)" "vidx ` set lits \<subseteq> set (filter (\<lambda>y. y \<noteq> ?x) xs @ [?x])"
      using Cons.prems(2,3) by auto
    note IH = Cons.IH[OF b(1) this]
    have "filter (\<lambda>y. y \<notin> vidx ` set lits) (filter (\<lambda>y. y \<noteq> ?x) xs @ [?x]) @ map vidx lits =
        filter (\<lambda>y. y \<notin> vidx ` set (l # lits)) xs @ map vidx (l # lits)"
      using Cons.prems(2) by (auto intro!: filter_cong)
    then show ?case using IH b(2,3) by simp
  qed simp
  then show "queue_inv (fold bump_queue lits s) (filter (\<lambda>y. y \<notin> vidx ` set lits) xs @ map vidx lits)"
    "assigned (fold bump_queue lits s) = assigned s" "scores (fold bump_queue lits s) = scores s" by blast+
qed

text \<open>
  The analysed variables move to the end and keep their order among each other, since both sorting
  routines sort them by time stamp.
\<close>

lemma bump_variables_inv:
  assumes inv: "queue_inv s xs" and an: "distinct (map vidx analyzed)" "vidx ` set analyzed \<subseteq> set xs"
    and stamps: "\<forall>x\<in>set xs. 0 \<le> btab s x" "stats_bumped s < 2 ^ 63" and junk: "length junk = 256"
  shows "queue_inv (bump_variables limit junk analyzed s)
    (filter (\<lambda>x. x \<notin> vidx ` set analyzed) xs @ filter (\<lambda>x. x \<in> vidx ` set analyzed) xs)"
    and "assigned (bump_variables limit junk analyzed s) = assigned s"
    and "scores (bump_variables limit junk analyzed s) = scores s"
proof -
  note q = queue_invD[OF inv]
  let ?rank = "analyze_bumped_rank s"
  define zs where "zs = MSORT limit 0 junk ?rank analyzed"
  have "8 dvd LENGTH(64)" by simp
  then have zs: "zs = sort_key ?rank analyzed" using rsort_correct[OF _ junk, of 0 ?rank] by (simp add: zs_def MSORT_def)
  have set: "set zs = set analyzed" and dist: "distinct (map vidx zs)"
    using an(1) by (simp_all add: zs distinct_map distinct_sort)
  have rank: "uint (?rank a) = btab s (vidx a)" if "a \<in> set analyzed" for a
  proof -
    have "vidx a \<in> set xs" using an(2) that by blast
    then have "0 \<le> btab s (vidx a)" "btab s (vidx a) < 2 ^ 64" using stamps q(6)[of "vidx a"] by auto
    then show ?thesis by (simp add: analyze_bumped_rank_def uint_word_of_int)
  qed
  have "sorted (map ?rank zs)" by (simp add: zs)
  then have "sorted (map uint (map ?rank zs))"
    unfolding sorted_iff_nth_mono by (simp add: word_le_def)
  also have "map uint (map ?rank zs) = map (btab s) (map vidx zs)" using rank set by simp
  finally have so: "sorted (map (btab s) (map vidx zs))" .
  let ?ws = "filter (\<lambda>x. x \<in> vidx ` set analyzed) xs"
  have ws: "set ?ws = set (map vidx zs)" using an(2) set by auto
  have inj: "inj_on (btab s) (set xs)"
    using q(4) by (auto simp: strict_sorted_iff distinct_map)
  have "sorted_wrt (<) (map (btab s) ?ws)"
    using q(4) by (simp add: sorted_wrt_map sorted_wrt_filter)
  moreover have "sorted_wrt (<) (map (btab s) (map vidx zs))"
    using so dist inj_on_subset[OF inj, of "set (map vidx zs)"] an(2) set
    by (simp add: strict_sorted_iff distinct_map comp_inj_on image_comp[symmetric])
  moreover have "set (map (btab s) ?ws) = set (map (btab s) (map vidx zs))" using ws by (metis set_map)
  ultimately have "map (btab s) ?ws = map (btab s) (map vidx zs)" by (intro strict_sorted_equal) simp_all
  moreover have "inj_on (btab s) (set ?ws \<union> set (map vidx zs))"
    using inj an(2) set by (auto intro: inj_on_subset)
  ultimately have "?ws = map vidx zs" by (rule map_inj_on)
  then have eq: "map vidx zs = ?ws" ..
  have "bump_variables limit junk analyzed s = fold bump_queue zs s" by (simp add: bump_variables_def zs_def)
  with bump_all_inv[OF inv dist] set an(2) eq
  show "queue_inv (bump_variables limit junk analyzed s)
    (filter (\<lambda>x. x \<notin> vidx ` set analyzed) xs @ filter (\<lambda>x. x \<in> vidx ` set analyzed) xs)"
    and "assigned (bump_variables limit junk analyzed s) = assigned s"
    and "scores (bump_variables limit junk analyzed s) = scores s" by simp_all
qed


section \<open>Unassigning and deciding\<close>

text \<open>Every unassigned variable of the queue is on the heap.\<close>

definition scores_inv :: "(nat \<Rightarrow> 'a::linorder) \<Rightarrow> Internal \<Rightarrow> nat list \<Rightarrow> bool" where
  "scores_inv stab s xs \<longleftrightarrow> heap_inv (score_smaller stab) (scores s) \<and> set (array (scores s)) \<subseteq> set xs \<and>
     (\<forall>x\<in>set xs. \<not> assigned s x \<longrightarrow> x \<in> set (array (scores s)))"

lemma heap_length:
  assumes "heap_inv lt h"
  shows "length (array h) = card (set (array h))"
  using wf_heapD(3)[of h] assms by (simp add: heap_inv_def distinct_card)

lemma unassign_rok:
  assumes inv: "queue_inv s xs" "scores_inv stab s xs" and x: "vidx lit \<in> set xs" "assigned s (vidx lit)"
    and n: "length xs < invalid_heap_position"
  shows "rok (unassign stab lit s) (\<lambda>s'. queue_inv s' xs \<and> scores_inv stab s' xs \<and>
    assigned s' = (assigned s)(vidx lit := False))"
proof -
  let ?x = "vidx lit" and ?s = "s\<lparr>assigned := (assigned s)(vidx lit := False)\<rparr>"
  let ?final = "\<lambda>hp. if queue_bumped s < btab s ?x then update_queue_unassigned ?x (?s\<lparr>scores := hp\<rparr>)
      else ?s\<lparr>scores := hp\<rparr>"
  note q = queue_invD[OF inv(1)]
  have h: "heap_inv (score_smaller stab) (scores s)" "set (array (scores s)) \<subseteq> set xs"
      "\<forall>y\<in>set xs. \<not> assigned s y \<longrightarrow> y \<in> set (array (scores s))"
    using inv(2) by (simp_all add: scores_inv_def)
  have queue: "queue_inv (if queue_bumped s < btab s ?x then update_queue_unassigned ?x (?s\<lparr>scores := hp\<rparr>)
      else ?s\<lparr>scores := hp\<rparr>) xs" for hp
  proof -
    have iq: "is_queue (?s\<lparr>scores := hp\<rparr>) xs" using q(1) by (simp add: is_queue_def)
    show ?thesis
    proof (cases "queue_bumped s < btab s ?x")
      case True
      have "queue_inv (update_queue_unassigned ?x (?s\<lparr>scores := hp\<rparr>)) xs"
      proof (rule update_unassigned_inv[OF iq])
        show "\<forall>y\<in>set xs. btab (?s\<lparr>scores := hp\<rparr>) ?x < btab (?s\<lparr>scores := hp\<rparr>) y \<longrightarrow> assigned (?s\<lparr>scores := hp\<rparr>) y"
          using q(7) True by auto
      qed (use q x in auto)
      with True show ?thesis by simp
    next
      case False
      with inv(1) iq show ?thesis by (auto simp: queue_inv_def)
    qed
  qed
  have fin: "scores_inv stab (if c then update_queue_unassigned ?x (?s\<lparr>scores := hp\<rparr>) else ?s\<lparr>scores := hp\<rparr>) xs"
    if "heap_inv (score_smaller stab) hp" "set (array hp) = insert ?x (set (array (scores s)))" for hp c
    using that h x(1) by (auto simp: scores_inv_def update_queue_unassigned_def)
  show ?thesis
  proof (cases "contains ?x (scores s)")
    case True
    then have "set (array (scores s)) = insert ?x (set (array (scores s)))"
      using wf_heapD(4)[of "scores s" ?x] h(1) by (auto simp: heap_inv_def)
    note f = fin[OF h(1) this]
    have "unassign stab lit s = Inr (?final (scores s))" using True x(2) by (simp add: unassign_def Let_def)
    with f queue[of "scores s"] show ?thesis by (simp add: update_queue_unassigned_def)
  next
    case False
    then have "?x \<notin> set (array (scores s))" using wf_heapD(4)[of "scores s" ?x] h(1) by (auto simp: heap_inv_def)
    moreover have "length (array (scores s)) \<le> length xs"
      using heap_length[OF h(1)] card_mono[OF _ h(2)] card_length[of xs] by simp
    ultimately have "rok (push_back (score_smaller stab) ?x (scores s)) (\<lambda>hp. heap_inv (score_smaller stab) hp \<and>
        set (array hp) = insert ?x (set (array (scores s))) \<and> length (array hp) = Suc (length (array (scores s))))"
      using n by (intro score.push_back_rok[OF h(1)]) simp_all
    then obtain hp where hp: "push_back (score_smaller stab) ?x (scores s) = Inr hp"
        "heap_inv (score_smaller stab) hp" "set (array hp) = insert ?x (set (array (scores s)))"
      by (auto elim: rokE)
    have "unassign stab lit s = Inr (?final hp)" using False x(2) by (simp add: unassign_def Let_def hp(1))
    with fin[OF hp(2,3)] queue[of hp] show ?thesis by (simp add: update_queue_unassigned_def)
  qed
qed

text \<open>The unassigned variable with the largest time stamp.\<close>

definition last_bumped :: "Internal \<Rightarrow> nat list \<Rightarrow> nat \<Rightarrow> bool" where
  "last_bumped s xs x \<longleftrightarrow> x \<in> set xs \<and> \<not> assigned s x \<and>
     (\<forall>y\<in>set xs. \<not> assigned s y \<longrightarrow> y \<noteq> x \<longrightarrow> btab s y < btab s x)"

lemma queue_stamps_inj:
  assumes "queue_inv s xs" "x \<in> set xs" "y \<in> set xs" "btab s x = btab s y"
  shows "x = y"
  using queue_invD(4)[OF assms(1)] assms(2-) by (auto simp: strict_sorted_iff distinct_map dest: inj_onD)

lemma queue_predecessor:
  assumes inv: "queue_inv s xs" and r: "r \<in> set xs" and y: "y \<in> set xs" "btab s y < btab s r"
  shows "prev_of (links s r) \<in> set xs" "btab s (prev_of (links s r)) < btab s r"
    "\<And>z. z \<in> set xs \<Longrightarrow> btab s (prev_of (links s r)) < btab s z \<Longrightarrow> btab s r \<le> btab s z"
proof -
  note q = queue_invD[OF inv]
  obtain as bs where xs: "xs = as @ r # bs" using r by (auto dest: split_list)
  have so: "\<forall>a\<in>set as. btab s a < btab s r" "\<forall>b\<in>set bs. btab s r < btab s b" "sorted_wrt (<) (map (btab s) as)"
    using q(4) by (auto simp: xs sorted_wrt_append)
  have "as \<noteq> []" using y so(2) by (auto simp: xs)
  then obtain as' p where as: "as = as' @ [p]" by (metis rev_exhaust)
  have p: "prev_of (links s r) = p" using q(1) by (simp add: is_queue_def xs as)
  show "prev_of (links s r) \<in> set xs" "btab s (prev_of (links s r)) < btab s r"
    using so by (simp_all add: p xs as)
  show "btab s r \<le> btab s z" if "z \<in> set xs" "btab s (prev_of (links s r)) < btab s z" for z
    using that so unfolding p by (auto simp: xs as sorted_wrt_append less_imp_le)
qed

lemma next_on_queue_rok:
  assumes inv: "queue_inv s xs" and ex: "\<exists>x\<in>set xs. \<not> assigned s x" and n: "set xs \<subseteq> {1..max_var}"
  shows "rok (next_decision_variable_on_queue max_var s) (\<lambda>(res, s'). last_bumped s xs res \<and>
    queue_inv s' xs \<and> assigned s' = assigned s \<and> btab s' = btab s \<and> scores s' = scores s)"
  unfolding next_decision_variable_on_queue_def
proof (rule rok_bind)
  note q = queue_invD[OF inv]
  obtain x where x: "x \<in> set xs" "\<not> assigned s x" using ex by blast
  let ?behind = "\<lambda>r. r \<in> set xs \<and> (\<forall>y\<in>set xs. btab s r < btab s y \<longrightarrow> assigned s y)"
  show "rok (rloop (max_var + 1) (\<lambda>(res, searched).
         Inr (if assigned s res then Continue (prev_of (links s res), searched + (1::nat))
              else Break (res, searched))) (queue_unassigned s, 0))
      (\<lambda>(r, k). ?behind r \<and> \<not> assigned s r \<and> (k = 0 \<longrightarrow> r = queue_unassigned s))"
  proof (rule rok_rloop[where \<mu> = "\<lambda>(r, k). card {y \<in> set xs. btab s y < btab s r}"
        and I = "\<lambda>(r, k). ?behind r \<and> (k = 0 \<longrightarrow> r = queue_unassigned s)"])
    have "queue_unassigned s \<in> set xs" "queue_bumped s \<le> btab s (queue_unassigned s)"
      using q(8,9) x(1) by force+
    then show "case (queue_unassigned s, 0::nat) of (r, k) \<Rightarrow> ?behind r \<and> (k = 0 \<longrightarrow> r = queue_unassigned s)"
      using q(7) by force
    have "card {y \<in> set xs. btab s y < btab s (queue_unassigned s)} \<le> card {1..max_var}"
      using n by (intro card_mono) auto
    then show "(case (queue_unassigned s, 0::nat) of (r, k) \<Rightarrow> card {y \<in> set xs. btab s y < btab s r}) < max_var + 1"
      by simp
  next
    fix st :: "nat \<times> nat" assume I: "case st of (r, k) \<Rightarrow> ?behind r \<and> (k = 0 \<longrightarrow> r = queue_unassigned s)"
    obtain r k where st: "st = (r, k)" by fastforce
    with I have r: "r \<in> set xs" "\<forall>y\<in>set xs. btab s r < btab s y \<longrightarrow> assigned s y" "k = 0 \<longrightarrow> r = queue_unassigned s"
      by auto
    let ?p = "prev_of (links s r)"
    have step: "?behind ?p \<and> card {y \<in> set xs. btab s y < btab s ?p} < card {y \<in> set xs. btab s y < btab s r}"
      if as: "assigned s r"
    proof -
      have "x \<noteq> r" "\<not> btab s r < btab s x" using x as r(2) by auto
      then have "btab s x < btab s r" using queue_stamps_inj[OF inv x(1) r(1)] by linarith
      note p = queue_predecessor[OF inv r(1) x(1) this]
      have "assigned s y" if "y \<in> set xs" "btab s ?p < btab s y" for y
        using p(3)[OF that] r(2) that queue_stamps_inj[OF inv r(1), of y] as by (cases "y = r") force+
      moreover have "{y \<in> set xs. btab s y < btab s ?p} \<subset> {y \<in> set xs. btab s y < btab s r}" using p(1,2) by auto
      ultimately show ?thesis using p(1) psubset_card_mono[of "{y \<in> set xs. btab s y < btab s r}"] by simp
    qed
    show "rok ((\<lambda>(res, searched). Inr (if assigned s res then Continue (prev_of (links s res), searched + (1::nat))
          else Break (res, searched))) st) (\<lambda>t. case t of
        Continue st' \<Rightarrow> (case st' of (r, k) \<Rightarrow> ?behind r \<and> (k = 0 \<longrightarrow> r = queue_unassigned s)) \<and>
          (case st' of (r, k) \<Rightarrow> card {y \<in> set xs. btab s y < btab s r}) <
          (case st of (r, k) \<Rightarrow> card {y \<in> set xs. btab s y < btab s r})
      | Break b \<Rightarrow> (case b of (r, k) \<Rightarrow> ?behind r \<and> \<not> assigned s r \<and> (k = 0 \<longrightarrow> r = queue_unassigned s)))"
      using r step by (simp add: st)
  qed
next
  fix t :: "nat \<times> nat" assume t: "case t of (r, k) \<Rightarrow> (r \<in> set xs \<and> (\<forall>y\<in>set xs. btab s r < btab s y \<longrightarrow> assigned s y)) \<and>
    \<not> assigned s r \<and> (k = 0 \<longrightarrow> r = queue_unassigned s)"
  obtain r k where tk: "t = (r, k)" by fastforce
  with t have r: "r \<in> set xs" "\<forall>y\<in>set xs. btab s r < btab s y \<longrightarrow> assigned s y" "\<not> assigned s r" by auto
  have "btab s y < btab s r" if "y \<in> set xs" "\<not> assigned s y" "y \<noteq> r" for y
    using r(2) that queue_stamps_inj[OF inv that(1) r(1)] by (meson linorder_neqE)
  then have lb: "last_bumped s xs r" using r by (auto simp: last_bumped_def)
  have "queue_inv (if k \<noteq> 0 then update_queue_unassigned r s else s) xs"
    using queue_invD[OF inv] inv update_unassigned_inv[of s xs r] r by auto
  with lb show "rok (case t of (res, searched) \<Rightarrow> Inr (res, if searched \<noteq> 0 then update_queue_unassigned res s else s))
      (\<lambda>(res, s'). last_bumped s xs res \<and> queue_inv s' xs \<and> assigned s' = assigned s \<and> btab s' = btab s \<and>
        scores s' = scores s)"
    by (simp add: tk) (simp add: update_queue_unassigned_def)
qed


text \<open>A decision is always possible, and picks the best variable in either mode.\<close>

lemma decision_rok:
  assumes inv: "queue_inv s xs" "scores_inv stab s xs" and ex: "\<exists>x\<in>set xs. \<not> assigned s x"
    and n: "set xs \<subseteq> {1..max_var}"
  shows "rok (next_decision_variable use_scores stab max_var s) (\<lambda>(res, s').
    (if use_scores then best stab {x \<in> set xs. \<not> assigned s x} res else last_bumped s xs res) \<and>
    queue_inv s' xs \<and> scores_inv stab s' xs \<and> assigned s' = assigned s)"
proof (cases use_scores)
  case False
  show ?thesis
    unfolding next_decision_variable_def if_not_P[OF False]
    by (rule rok_weaken[OF next_on_queue_rok[OF inv(1) ex n]]) (use inv(2) in \<open>auto simp: scores_inv_def\<close>)
next
  case True
  let ?h = "scores s"
  have h: "heap_inv (score_smaller stab) ?h" "set (array ?h) \<subseteq> set xs"
      "{x \<in> set (array ?h). \<not> assigned s x} = {x \<in> set xs. \<not> assigned s x}"
    using inv(2) by (auto simp: scores_inv_def)
  have e: "\<exists>v\<in>set (array ?h). \<not> assigned s v" using ex h(3) by auto
  have "rok (next_decision_variable_with_best_score stab (assigned s) ?h) (\<lambda>(res, h').
      best stab {x \<in> set xs. \<not> assigned s x} res \<and> heap_inv (score_smaller stab) h' \<and>
      {x \<in> set (array h'). \<not> assigned s x} = {x \<in> set xs. \<not> assigned s x} \<and> set (array h') \<subseteq> set xs)"
    by (rule rok_weaken[OF next_decision_rok[OF h(1) e]]) (use h(2,3) in auto)
  then obtain res h' where h': "next_decision_variable_with_best_score stab (assigned s) ?h = Inr (res, h')"
      "best stab {x \<in> set xs. \<not> assigned s x} res" "heap_inv (score_smaller stab) h'"
      "{x \<in> set (array h'). \<not> assigned s x} = {x \<in> set xs. \<not> assigned s x}" "set (array h') \<subseteq> set xs"
    by (auto elim!: rokE)
  have "queue_inv (s\<lparr>scores := h'\<rparr>) xs" using inv(1) by (simp add: queue_inv_def is_queue_def)
  moreover have "scores_inv stab (s\<lparr>scores := h'\<rparr>) xs" using h'(3-5) by (auto simp: scores_inv_def)
  ultimately show ?thesis using True h'(2) by (simp add: next_decision_variable_def h'(1))
qed

end
