(* ===== verification/Decisions.thy ===== *)
theory Decisions
  imports VmtfQueue
begin

text \<open>
  How the search of the SAT solver keeps its two sources of decisions up to date: new variables
  (internal.cpp), bumping by score with rescaling and bumping in the queue (analyze.cpp),
  assignments, their removal, and decisions.  The scores are elements of a linearly ordered field:
  the rounding of the doubles of the source is not modelled.  The assertions on the range of scores
  are the error \<open>IntOverflow\<close>.

  What the search does between these operations is left open: \<open>search_step\<close> lets them follow each
  other in any order.  In every reachable state both invariants hold, so that no operation fails and
  every decision is the best one.
\<close>

section \<open>State and operations\<close>

record 'a search =
  n_vars :: nat
  stabs :: "nat \<Rightarrow> 'a"
  score_inc :: 'a
  internals :: Internal

text \<open>\<open>n_vars\<close> is \<open>max_var\<close>, and \<open>internals\<close> has links, time stamps, assignment and heap.\<close>

definition init_vars :: "nat \<Rightarrow> 'a::linorder search \<Rightarrow> 'a search result" where
  "init_vars new_max_var s =
     (if new_max_var \<le> n_vars s then Inr s
      else
        let old_max_var = n_vars s;
            s = s\<lparr>n_vars := new_max_var\<rparr>;
            i = init_queue False old_max_var new_max_var (internals s)
        in rbind (init_scores (stabs s) old_max_var new_max_var (scores i)) (\<lambda>h.
           Inr (s\<lparr>internals := i\<lparr>scores := h\<rparr>\<rparr>)))"

definition evsids_limit_hit :: "'a::linordered_field \<Rightarrow> bool" where
  "evsids_limit_hit score \<longleftrightarrow> score > 10 ^ 150"

definition rescale_variable_scores :: "'a::linordered_field search \<Rightarrow> 'a search" where
  "rescale_variable_scores s =
     (let divider = fold (\<lambda>idx divider. let tmp = stabs s idx in if tmp > divider then tmp else divider)
            [1..<n_vars s + 1] (score_inc s);
          factor = 1 / divider
      in s\<lparr>stabs := (\<lambda>idx. if 1 \<le> idx \<and> idx \<le> n_vars s then stabs s idx * factor else stabs s idx),
           score_inc := score_inc s * factor\<rparr>)"

definition bump_variable_score :: "int \<Rightarrow> 'a::linordered_field search \<Rightarrow> 'a search result" where
  "bump_variable_score lit s =
     (let idx = vidx lit; old_score = stabs s idx
      in if evsids_limit_hit old_score then Inl IntOverflow
         else
           let new_score = old_score + score_inc s;
               (s, new_score) =
                 (if evsids_limit_hit new_score then
                    let s = rescale_variable_scores s in (s, stabs s idx + score_inc s)
                  else (s, new_score))
           in if evsids_limit_hit new_score then Inl IntOverflow
              else
                let s = s\<lparr>stabs := (stabs s)(idx := new_score)\<rparr>
                in if contains idx (scores (internals s))
                   then rbind (update (score_smaller (stabs s)) idx (scores (internals s))) (\<lambda>h.
                          Inr (s\<lparr>internals := (internals s)\<lparr>scores := h\<rparr>\<rparr>))
                   else Inr s)"

definition bump_variable :: "bool \<Rightarrow> int \<Rightarrow> 'a::linordered_field search \<Rightarrow> 'a search result" where
  "bump_variable use_scores lit s =
     (if use_scores then bump_variable_score lit s
      else Inr (s\<lparr>internals := bump_queue lit (internals s)\<rparr>))"

text \<open>\<open>scorefactor\<close> is an option between 500 and 1000.\<close>

definition bump_variable_score_inc :: "nat \<Rightarrow> 'a::linordered_field search \<Rightarrow> 'a search result" where
  "bump_variable_score_inc scorefactor s =
     (if evsids_limit_hit (score_inc s) then Inl IntOverflow
      else
        let f = 1000 / of_nat scorefactor;
            new_score_inc = score_inc s * f;
            (s, new_score_inc) =
              (if evsids_limit_hit new_score_inc then
                 let s = rescale_variable_scores s in (s, score_inc s * f)
               else (s, new_score_inc))
        in if evsids_limit_hit new_score_inc then Inl IntOverflow
           else Inr (s\<lparr>score_inc := new_score_inc\<rparr>))"

text \<open>\<open>analyzed\<close> already has the literals that \<open>bump_also_all_reason_literals\<close> adds.\<close>

definition Internal_bump_variables ::
    "bool \<Rightarrow> nat \<Rightarrow> nat \<Rightarrow> nat list \<Rightarrow> int list \<Rightarrow> 'a::linordered_field search \<Rightarrow> 'a search result" where
  "Internal_bump_variables use_scores scorefactor radixsortlim junk analyzed s =
     (let analyzed = (if \<not> use_scores
            then MSORT radixsortlim 0 junk (analyze_bumped_rank (internals s)) analyzed else analyzed)
      in rbind (rfold (bump_variable use_scores) analyzed s) (\<lambda>s.
         if use_scores then bump_variable_score_inc scorefactor s else Inr s))"

section \<open>Steps of the search\<close>

definition search_init :: "'a::linordered_field search" where
  "search_init = \<lparr>n_vars = 0, stabs = \<lambda>_. 0, score_inc = 1,
     internals = \<lparr>links = \<lambda>_. \<lparr>prev_of = 0, next_of = 0\<rparr>, btab = \<lambda>_. 0, queue_first = 0, queue_last = 0,
       queue_unassigned = 0, queue_bumped = 0, stats_bumped = 0, assigned = \<lambda>_. False,
       scores = \<lparr>array = [], pos = []\<rparr>\<rparr>\<rparr>"

definition set_assigned :: "nat \<Rightarrow> 'a search \<Rightarrow> 'a search" where
  "set_assigned idx s = s\<lparr>internals := (internals s)\<lparr>assigned := (assigned (internals s))(idx := True)\<rparr>\<rparr>"

definition analyzed_ok :: "int list \<Rightarrow> nat \<Rightarrow> nat list \<Rightarrow> 'a search \<Rightarrow> bool" where
  "analyzed_ok analyzed scorefactor junk s \<longleftrightarrow> distinct (map vidx analyzed) \<and>
     vidx ` set analyzed \<subseteq> {1..n_vars s} \<and> 500 \<le> scorefactor \<and> scorefactor \<le> 1000 \<and>
     length junk = 256 \<and> stats_bumped (internals s) < 2 ^ 63"

inductive search_step :: "'a::linordered_field search \<Rightarrow> 'a search \<Rightarrow> bool" where
  New: "m < 2 ^ 31 \<Longrightarrow> init_vars m s = Inr s' \<Longrightarrow> search_step s s'"
| Assign: "search_step s (set_assigned idx s)"
| Unassign: "vidx lit \<in> {1..n_vars s} \<Longrightarrow> unassign (stabs s) lit (internals s) = Inr i \<Longrightarrow>
    search_step s (s\<lparr>internals := i\<rparr>)"
| Bump: "analyzed_ok analyzed scorefactor junk s \<Longrightarrow>
    Internal_bump_variables use_scores scorefactor limit junk analyzed s = Inr s' \<Longrightarrow> search_step s s'"
| Decide: "next_decision_variable use_scores (stabs s) (n_vars s) (internals s) = Inr (res, i) \<Longrightarrow>
    \<exists>x\<in>{1..n_vars s}. \<not> assigned (internals s) x \<Longrightarrow> search_step s (s\<lparr>internals := i\<rparr>)"

inductive reachable :: "'a::linordered_field search \<Rightarrow> bool" where
  Init: "reachable search_init"
| Step: "reachable s \<Longrightarrow> search_step s s' \<Longrightarrow> reachable s'"


section \<open>Scores\<close>

lemma heap_inv_cong:
  assumes "heap_inv lt h" "\<And>x y. x \<in> set (array h) \<Longrightarrow> y \<in> set (array h) \<Longrightarrow> lt' x y = lt x y"
  shows "heap_inv lt' h"
proof -
  have "\<not> lt' (array h ! up_of q) (array h ! q)" if "0 < q" "q < length (array h)" for q
  proof -
    have "up_of q < length (array h)" using up_of_less[OF that(1)] that(2) by simp
    then show ?thesis using heap_invD(2)[OF assms(1) that] assms(2) that(2) by simp
  qed
  then show ?thesis using heap_invD(1)[OF assms(1)] by (simp add: heap_inv_def)
qed

lemma fold_max:
  fixes f :: "nat \<Rightarrow> 'a::linorder"
  shows "d \<le> fold (\<lambda>i d. let tmp = f i in if tmp > d then tmp else d) xs d"
    and "x \<in> set xs \<Longrightarrow> f x \<le> fold (\<lambda>i d. let tmp = f i in if tmp > d then tmp else d) xs d"
proof -
  let ?g = "\<lambda>i d. let tmp = f i in if tmp > d then tmp else d"
  show le: "d \<le> fold ?g xs d" for xs d
  proof (induction xs arbitrary: d)
    case (Cons x xs)
    have "d \<le> ?g x d" by (auto simp: Let_def)
    also have "\<dots> \<le> fold ?g xs (?g x d)" by (rule Cons.IH)
    finally show ?case by simp
  qed simp
  show "x \<in> set xs \<Longrightarrow> f x \<le> fold ?g xs d"
  proof (induction xs arbitrary: d)
    case (Cons y ys)
    have "f y \<le> ?g y d" by (auto simp: Let_def)
    with le[of "?g y d" ys] Cons show ?case by auto
  qed simp
qed

text \<open>Scores and increment are in range.\<close>

definition in_range :: "'a::linordered_field search \<Rightarrow> bool" where
  "in_range s \<longleftrightarrow> 0 < score_inc s \<and> \<not> evsids_limit_hit (score_inc s) \<and>
     (\<forall>idx. \<not> evsids_limit_hit (stabs s idx))"

lemma small_not_limit: "x \<le> 2 \<Longrightarrow> \<not> evsids_limit_hit (x :: 'a::linordered_field)"
proof -
  assume "x \<le> 2"
  also have "(2 :: 'a) \<le> 10 ^ 1" by simp
  also have "(10 :: 'a) ^ 1 \<le> 10 ^ 150" by (intro power_increasing) simp_all
  finally show ?thesis by (simp add: evsids_limit_hit_def)
qed

text \<open>Rescaling divides by the largest number, and keeps the order.\<close>

lemma rescaled:
  assumes "in_range s"
  shows "in_range (rescale_variable_scores s)" "score_inc (rescale_variable_scores s) \<le> 1"
    and "idx \<in> {1..n_vars s} \<Longrightarrow> stabs (rescale_variable_scores s) idx \<le> 1"
    and "x \<in> {1..n_vars s} \<Longrightarrow> y \<in> {1..n_vars s} \<Longrightarrow>
      score_smaller (stabs (rescale_variable_scores s)) x y = score_smaller (stabs s) x y"
    and "internals (rescale_variable_scores s) = internals s" "n_vars (rescale_variable_scores s) = n_vars s"
proof -
  define d where "d = fold (\<lambda>idx divider. let tmp = stabs s idx in if tmp > divider then tmp else divider)
            [1..<n_vars s + 1] (score_inc s)"
  have d: "score_inc s \<le> d" "\<And>x. x \<in> {1..n_vars s} \<Longrightarrow> stabs s x \<le> d"
    unfolding d_def by (rule fold_max(1)) (rule fold_max(2), auto)
  have pos: "0 < d" using d(1) assms by (auto simp: in_range_def)
  have r: "rescale_variable_scores s = s\<lparr>stabs := (\<lambda>idx. if 1 \<le> idx \<and> idx \<le> n_vars s then stabs s idx * (1 / d) else stabs s idx),
           score_inc := score_inc s * (1 / d)\<rparr>"
    unfolding rescale_variable_scores_def d_def Let_def ..
  show i1: "score_inc (rescale_variable_scores s) \<le> 1" using d(1) pos by (simp add: r)
  show s1: "idx \<in> {1..n_vars s} \<Longrightarrow> stabs (rescale_variable_scores s) idx \<le> 1" for idx
    using d(2)[of idx] pos by (simp add: r)
  show "x \<in> {1..n_vars s} \<Longrightarrow> y \<in> {1..n_vars s} \<Longrightarrow>
      score_smaller (stabs (rescale_variable_scores s)) x y = score_smaller (stabs s) x y"
    using pos by (simp add: r score_smaller_def Let_def divide_strict_right_mono divide_less_cancel)
  have "\<not> evsids_limit_hit (stabs (rescale_variable_scores s) idx)" for idx
  proof (cases "idx \<in> {1..n_vars s}")
    case True
    then show ?thesis using s1[OF True] order.trans[of _ 1 2] by (intro small_not_limit) simp
  next
    case False
    then show ?thesis using assms by (auto simp: r in_range_def)
  qed
  moreover have "\<not> evsids_limit_hit (score_inc (rescale_variable_scores s))"
    using i1 order.trans[of _ 1 2] by (intro small_not_limit) simp
  moreover have "0 < score_inc (rescale_variable_scores s)" using pos assms by (simp add: r in_range_def)
  ultimately show "in_range (rescale_variable_scores s)" by (simp add: in_range_def)
  show "internals (rescale_variable_scores s) = internals s" "n_vars (rescale_variable_scores s) = n_vars s"
    by (simp_all add: r)
qed

section \<open>The invariant of the search\<close>

definition search_inv :: "'a::linordered_field search \<Rightarrow> nat list \<Rightarrow> bool" where
  "search_inv s xs \<longleftrightarrow> queue_inv (internals s) xs \<and> scores_inv (stabs s) (internals s) xs \<and>
     set xs = {1..n_vars s} \<and> n_vars s < 2 ^ 31 \<and> in_range s \<and> (\<forall>x. 0 \<le> btab (internals s) x)"

lemma search_init_inv: "search_inv search_init []"
  using small_not_limit[of 0] small_not_limit[of 1]
  by (simp add: search_inv_def search_init_def queue_inv_def is_queue_def scores_inv_def heap_inv_def wf_heap_def
      in_range_def)

lemma scores_inv_cong:
  assumes "scores_inv stab s xs" "\<And>x y. x \<in> set xs \<Longrightarrow> y \<in> set xs \<Longrightarrow> score_smaller stab' x y = score_smaller stab x y"
  shows "scores_inv stab' s xs"
  using assms heap_inv_cong[of "score_smaller stab" "scores s" "score_smaller stab'"]
  by (auto simp: scores_inv_def subset_iff)

lemma rescale_inv: "search_inv s xs \<Longrightarrow> search_inv (rescale_variable_scores s) xs"
  using rescaled[of s] scores_inv_cong[of "stabs s" "internals s" xs "stabs (rescale_variable_scores s)"]
  by (auto simp: search_inv_def)


section \<open>No operation fails\<close>

lemma bump_variable_score_rok:
  assumes inv: "search_inv s xs" and x: "vidx lit \<in> set xs"
  shows "rok (bump_variable_score lit s) (\<lambda>s'. search_inv s' xs \<and> n_vars s' = n_vars s \<and>
    assigned (internals s') = assigned (internals s) \<and> score_inc s' \<le> score_inc s + 1)"
proof -
  let ?x = "vidx lit"
  define new where "new = stabs s ?x + score_inc s"
  define s1 where "s1 = (if evsids_limit_hit new then rescale_variable_scores s else s)"
  define new1 where "new1 = (if evsids_limit_hit new then stabs s1 ?x + score_inc s1 else new)"
  have inv1: "search_inv s1 xs" and fr: "internals s1 = internals s" "n_vars s1 = n_vars s"
    using rescale_inv[OF inv] inv rescaled(5,6)[of s] by (auto simp: s1_def search_inv_def)
  have r: "in_range s" and xn: "?x \<in> {1..n_vars s}" using inv x by (auto simp: search_inv_def)
  have "\<not> evsids_limit_hit new1"
  proof (cases "evsids_limit_hit new")
    case True
    then have "new1 \<le> 1 + 1" using rescaled(2)[OF r] rescaled(3)[OF r xn] by (auto simp: new1_def s1_def intro: add_mono)
    then show ?thesis by (intro small_not_limit) simp
  qed (simp add: new1_def)
  note nl = this
  let ?stab = "(stabs s1)(?x := new1)"
  have eq: "bump_variable_score lit s =
      (if contains ?x (scores (internals s))
       then rbind (update (score_smaller ?stab) ?x (scores (internals s))) (\<lambda>h.
              Inr (s1\<lparr>stabs := ?stab, internals := (internals s)\<lparr>scores := h\<rparr>\<rparr>))
       else Inr (s1\<lparr>stabs := ?stab\<rparr>))"
  proof -
    have "\<not> evsids_limit_hit (stabs s ?x)" using r by (simp add: in_range_def)
    then show ?thesis
      using nl by (cases "evsids_limit_hit new")
        (simp_all add: bump_variable_score_def Let_def new_def[symmetric] s1_def new1_def rescaled(5)[OF r])
  qed
  have h: "heap_inv (score_smaller (stabs s1)) (scores (internals s))" "set (array (scores (internals s))) \<subseteq> set xs"
      "\<forall>y\<in>set xs. \<not> assigned (internals s) y \<longrightarrow> y \<in> set (array (scores (internals s)))"
    and q: "queue_inv (internals s) xs" and rg: "in_range s1"
    using inv1 unfolding fr search_inv_def scores_inv_def by blast+
  have range: "in_range (s1\<lparr>stabs := ?stab\<rparr>)" using rg nl by (simp add: in_range_def)
  have inc: "score_inc s1 \<le> score_inc s + 1"
    using rescaled(2)[OF r] r by (simp add: s1_def in_range_def add_increasing)
  have wf: "wf_heap (scores (internals s))" using h(1) by (rule heap_invD)
  have fin: "search_inv (s1\<lparr>stabs := ?stab, internals := (internals s)\<lparr>scores := hp\<rparr>\<rparr>) xs"
    if "heap_inv (score_smaller ?stab) hp" "set (array hp) = set (array (scores (internals s)))" for hp
    using that h q range inv1
    by (auto simp: search_inv_def fr scores_inv_def queue_inv_def is_queue_def in_range_def)
  show ?thesis
  proof (cases "contains ?x (scores (internals s))")
    case True
    then have e: "?x \<in> set (array (scores (internals s)))" using wf_heapD(4)[OF wf] by simp
    have "rok (update (score_smaller ?stab) ?x (scores (internals s))) (\<lambda>h'. heap_inv (score_smaller ?stab) h' \<and>
        set (array h') = set (array (scores (internals s))) \<and> rok (front h') (best ?stab (set (array (scores (internals s))))))"
      by (rule rescored_rok[OF h(1) e]) simp
    then obtain hp where hp: "update (score_smaller ?stab) ?x (scores (internals s)) = Inr hp"
        "heap_inv (score_smaller ?stab) hp" "set (array hp) = set (array (scores (internals s)))"
      by (auto elim!: rokE)
    show ?thesis using True fin[OF hp(2,3)] inc by (simp add: eq hp(1) fr)
  next
    case False
    then have "?x \<notin> set (array (scores (internals s)))" using wf_heapD(4)[OF wf] by simp
    then have "heap_inv (score_smaller ?stab) (scores (internals s))"
      by (intro heap_inv_cong[OF h(1)]) (auto simp: score_smaller_def)
    from fin[OF this refl] inc False show ?thesis by (simp add: eq fr) (simp add: fr(1)[symmetric])
  qed
qed

lemma bump_variable_score_inc_rok:
  assumes inv: "search_inv s xs" and f: "500 \<le> scorefactor" "scorefactor \<le> 1000"
  shows "rok (bump_variable_score_inc scorefactor s) (\<lambda>s'. search_inv s' xs \<and> n_vars s' = n_vars s \<and>
    assigned (internals s') = assigned (internals s))"
proof -
  define c :: 'a where "c = 1000 / of_nat scorefactor"
  have "(500 :: 'a) \<le> of_nat scorefactor" using of_nat_mono[OF f(1), where 'a = 'a] by simp
  moreover have "of_nat scorefactor \<le> (1000 :: 'a)" using of_nat_mono[OF f(2), where 'a = 'a] by simp
  ultimately have c: "0 < c" "c \<le> 2" by (simp_all add: c_def field_simps)
  have r: "in_range s" using inv by (simp add: search_inv_def)
  define s1 where "s1 = (if evsids_limit_hit (score_inc s * c) then rescale_variable_scores s else s)"
  have inv1: "search_inv s1 xs" and fr: "internals s1 = internals s" "n_vars s1 = n_vars s"
    using rescale_inv[OF inv] inv rescaled(5,6)[OF r] by (auto simp: s1_def)
  have nl: "\<not> evsids_limit_hit (score_inc s1 * c)"
  proof (cases "evsids_limit_hit (score_inc s * c)")
    case True
    then have "score_inc s1 * c \<le> 1 * 2" using rescaled(2)[OF r] c by (intro mult_mono) (simp_all add: s1_def)
    then show ?thesis by (intro small_not_limit) simp
  qed (simp add: s1_def)
  have "bump_variable_score_inc scorefactor s = Inr (s1\<lparr>score_inc := score_inc s1 * c\<rparr>)"
    using r nl by (auto simp: bump_variable_score_inc_def Let_def c_def[symmetric] s1_def in_range_def)
  moreover have "search_inv (s1\<lparr>score_inc := score_inc s1 * c\<rparr>) xs"
    using inv1 nl c(1) by (simp add: search_inv_def in_range_def)
  ultimately show ?thesis by (simp add: fr)
qed


text \<open>Time stamps are never negative without the option \<open>reverse\<close>.\<close>

lemma stamps_bump:
  "\<forall>x. 0 \<le> btab s x \<Longrightarrow> 0 \<le> stats_bumped s \<Longrightarrow>
     (\<forall>x. 0 \<le> btab (bump_queue lit s) x) \<and> 0 \<le> stats_bumped (bump_queue lit s)"
  by (simp add: bump_queue_def update_queue_unassigned_def Let_def)

lemma stamps_bump_all:
  "\<forall>x. 0 \<le> btab s x \<Longrightarrow> 0 \<le> stats_bumped s \<Longrightarrow> \<forall>x. 0 \<le> btab (fold bump_queue lits s) x"
  by (induction lits arbitrary: s) (use stamps_bump in auto)

lemma stamps_init:
  "\<forall>x. 0 \<le> btab s x \<Longrightarrow> 0 \<le> stats_bumped s \<Longrightarrow>
     (\<forall>x. 0 \<le> btab (init_queue False k m s) x) \<and> assigned (init_queue False k m s) = assigned s \<and>
     scores (init_queue False k m s) = scores s"
proof -
  have step: "(\<forall>x. 0 \<le> btab (init_enqueue False i s) x) \<and> 0 \<le> stats_bumped (init_enqueue False i s) \<and>
      assigned (init_enqueue False i s) = assigned s \<and> scores (init_enqueue False i s) = scores s"
    if "\<forall>x. 0 \<le> btab s x" "0 \<le> stats_bumped s" for i s
    using that by (simp add: init_enqueue_def update_queue_unassigned_def Let_def)
  have "(\<forall>x. 0 \<le> btab (fold (\<lambda>idx. init_enqueue False (idx + 1)) is s) x) \<and>
      assigned (fold (\<lambda>idx. init_enqueue False (idx + 1)) is s) = assigned s \<and>
      scores (fold (\<lambda>idx. init_enqueue False (idx + 1)) is s) = scores s"
    if "\<forall>x. 0 \<le> btab s x" "0 \<le> stats_bumped s" for "is" s
    using that by (induction "is" arbitrary: s) (use step in auto)
  then show "\<forall>x. 0 \<le> btab s x \<Longrightarrow> 0 \<le> stats_bumped s \<Longrightarrow>
     (\<forall>x. 0 \<le> btab (init_queue False k m s) x) \<and> assigned (init_queue False k m s) = assigned s \<and>
     scores (init_queue False k m s) = scores s"
    by (simp add: init_queue_def)
qed

lemma queue_inv_scores [simp]: "queue_inv (s\<lparr>scores := h\<rparr>) xs = queue_inv s xs"
  by (simp add: queue_inv_def is_queue_def)

lemma init_vars_rok:
  assumes inv: "search_inv s xs" and m: "m < 2 ^ 31"
  shows "rok (init_vars m s) (\<lambda>s'. (\<exists>ys. search_inv s' ys) \<and> n_vars s' = max m (n_vars s) \<and>
    assigned (internals s') = assigned (internals s))"
proof (cases "m \<le> n_vars s")
  case True
  then show ?thesis using inv by (auto simp: init_vars_def)
next
  case False
  let ?o = "n_vars s"
  let ?i = "init_queue False ?o m (internals s)"
  have q: "queue_inv (internals s) xs" "set xs = {1..?o}" "\<forall>x. 0 \<le> btab (internals s) x"
    and h: "heap_inv (score_smaller (stabs s)) (scores (internals s))" "set (array (scores (internals s))) \<subseteq> set xs"
      "\<forall>y\<in>set xs. \<not> assigned (internals s) y \<longrightarrow> y \<in> set (array (scores (internals s)))"
    and rg: "in_range s" using inv unfolding search_inv_def scores_inv_def by blast+
  have "0 \<le> stats_bumped (internals s)" using queue_invD(5)[OF q(1)] .
  note st = stamps_init[OF q(3) this, of ?o m]
  have "queue_inv ?i (xs @ [?o + 1..<m + 1])" using init_queue_inv[OF q(1), of ?o False "m - ?o"] q(2) False by simp
  moreover have "set (xs @ [?o + 1..<m + 1]) = {1..m}"
    unfolding set_append set_upt q(2) set_eq_iff Un_iff atLeastAtMost_iff atLeastLessThan_iff using False by arith
  ultimately obtain ys where qi: "queue_inv ?i ys" and ys: "set ys = {1..m}" by blast
  have "length (array (scores (internals s))) = card (set (array (scores (internals s))))"
    by (rule heap_length[OF h(1)])
  also have "\<dots> \<le> card {1..?o}" using h(2) q(2) by (intro card_mono) auto
  finally have "length (array (scores (internals s))) + (m - ?o) \<le> invalid_heap_position"
    using m False by (simp add: invalid_heap_position_def)
  then have "rok (init_scores (stabs s) ?o m (scores (internals s))) (\<lambda>h'. heap_inv (score_smaller (stabs s)) h' \<and>
      set (array h') = set (array (scores (internals s))) \<union> {?o<..m})"
    using h(2) q(2) False by (intro init_scores_rok[OF h(1)]) auto
  then obtain hp where hp: "init_scores (stabs s) ?o m (scores (internals s)) = Inr hp"
      "heap_inv (score_smaller (stabs s)) hp" "set (array hp) = set (array (scores (internals s))) \<union> {?o<..m}"
    by (auto elim!: rokE)
  let ?s = "s\<lparr>n_vars := m, internals := ?i\<lparr>scores := hp\<rparr>\<rparr>"
  have "queue_inv (?i\<lparr>scores := hp\<rparr>) ys" using qi by simp
  moreover have "scores_inv (stabs s) (?i\<lparr>scores := hp\<rparr>) ys"
    unfolding scores_inv_def ys using hp(2,3) h(2,3) q(2) st False by auto
  moreover have "in_range ?s" using rg by (simp add: in_range_def)
  ultimately have "search_inv ?s ys" using ys m st by (simp add: search_inv_def)
  moreover have "init_vars m s = Inr ?s" using False st by (simp add: init_vars_def Let_def hp(1))
  ultimately show ?thesis using False st by auto
qed

lemma bump_queue_all:
  "rfold (bump_variable False) lits s = Inr (s\<lparr>internals := fold bump_queue lits (internals s)\<rparr>)"
  by (induction lits arbitrary: s) (simp_all add: bump_variable_def)

lemma bump_variables_rok:
  assumes inv: "search_inv s xs" and an: "analyzed_ok analyzed scorefactor junk s"
  shows "rok (Internal_bump_variables use_scores scorefactor limit junk analyzed s) (\<lambda>s'.
    (\<exists>ys. search_inv s' ys) \<and> n_vars s' = n_vars s \<and> assigned (internals s') = assigned (internals s))"
proof -
  have sub: "vidx ` set analyzed \<subseteq> set xs" using inv an by (simp add: search_inv_def analyzed_ok_def)
  show ?thesis
  proof (cases use_scores)
    case True
    have "rok (rfold (bump_variable True) analyzed s) ((\<lambda>ys s'. search_inv s' xs \<and> n_vars s' = n_vars s \<and>
        assigned (internals s') = assigned (internals s)) analyzed)"
    proof (rule rok_rfold)
      fix ys x zs s' assume "analyzed = ys @ x # zs" and s': "search_inv s' xs \<and> n_vars s' = n_vars s \<and>
        assigned (internals s') = assigned (internals s)"
      then have "vidx x \<in> set xs" using sub by auto
      from bump_variable_score_rok[OF _ this, of s'] s'
      show "rok (bump_variable True x s') (\<lambda>s'. search_inv s' xs \<and> n_vars s' = n_vars s \<and>
        assigned (internals s') = assigned (internals s))"
        by (auto simp: bump_variable_def elim!: rok_weaken)
    qed (use inv in simp)
    then obtain s1 where s1: "rfold (bump_variable True) analyzed s = Inr s1" "search_inv s1 xs"
        "n_vars s1 = n_vars s" "assigned (internals s1) = assigned (internals s)" by (auto elim!: rokE)
    from bump_variable_score_inc_rok[OF s1(2), of scorefactor] an
    have "rok (bump_variable_score_inc scorefactor s1) (\<lambda>s'. search_inv s' xs \<and> n_vars s' = n_vars s \<and>
        assigned (internals s') = assigned (internals s))" by (simp add: analyzed_ok_def s1)
    then show ?thesis using True s1(1)
      by (auto simp: Internal_bump_variables_def elim!: rok_weaken)
  next
    case False
    let ?i = "internals s" and ?a = "vidx ` set analyzed"
    let ?ys = "filter (\<lambda>x. x \<notin> ?a) xs @ filter (\<lambda>x. x \<in> ?a) xs"
    have q: "queue_inv ?i xs" "scores_inv (stabs s) ?i xs" "\<forall>x. 0 \<le> btab ?i x" using inv by (simp_all add: search_inv_def)
    have "distinct (map vidx analyzed)" "stats_bumped ?i < 2 ^ 63" "length junk = 256" "\<forall>x\<in>set xs. 0 \<le> btab ?i x"
      using an q(3) by (simp_all add: analyzed_ok_def)
    note b = bump_variables_inv[OF q(1) this(1) sub this(4) this(2,3), of limit]
    have ys: "set ?ys = set xs" by auto
    have nn: "\<forall>x. 0 \<le> btab (bump_variables limit junk analyzed ?i) x"
      using stamps_bump_all[OF q(3) queue_invD(5)[OF q(1)]] by (simp add: bump_variables_def)
    have "Internal_bump_variables use_scores scorefactor limit junk analyzed s =
        Inr (s\<lparr>internals := bump_variables limit junk analyzed ?i\<rparr>)"
      using False by (simp add: Internal_bump_variables_def bump_queue_all bump_variables_def)
    moreover have "scores_inv (stabs s) (bump_variables limit junk analyzed ?i) ?ys"
      unfolding scores_inv_def ys b(2,3) using q(2) by (simp add: scores_inv_def)
    then have "search_inv (s\<lparr>internals := bump_variables limit junk analyzed ?i\<rparr>) ?ys"
      using b(1) nn ys inv by (simp add: search_inv_def in_range_def del: set_append)
    ultimately show ?thesis using b(2) by auto
  qed
qed


section \<open>Reachable states\<close>

lemma btab_unassign: "unassign stab lit s = Inr s' \<Longrightarrow> btab s' = btab s"
  by (auto simp: unassign_def Let_def rbind_def update_queue_unassigned_def split: if_splits sum.splits)

lemma btab_decide: "next_decision_variable use_scores stab n s = Inr (res, s') \<Longrightarrow> btab s' = btab s"
  by (auto simp: next_decision_variable_def next_decision_variable_on_queue_def rbind_def update_queue_unassigned_def
      split: if_splits sum.splits prod.splits)

lemma assign_inv:
  assumes "search_inv s xs"
  shows "search_inv (set_assigned idx s) xs"
  using assms by (auto simp: set_assigned_def search_inv_def queue_inv_def is_queue_def scores_inv_def in_range_def)

lemma search_inv_length: "search_inv s xs \<Longrightarrow> length xs < invalid_heap_position"
  using queue_invD(2)[of "internals s" xs] distinct_card[of xs]
  by (simp add: search_inv_def invalid_heap_position_def)

lemma search_unassign_rok:
  assumes inv: "search_inv s xs" and lit: "vidx lit \<in> {1..n_vars s}" "assigned (internals s) (vidx lit)"
  shows "rok (unassign (stabs s) lit (internals s)) (\<lambda>i. search_inv (s\<lparr>internals := i\<rparr>) xs)"
proof -
  have q: "queue_inv (internals s) xs" "scores_inv (stabs s) (internals s) xs" "vidx lit \<in> set xs"
    using inv lit(1) by (simp_all add: search_inv_def)
  from unassign_rok[OF q lit(2) search_inv_length[OF inv]]
  obtain i where i: "unassign (stabs s) lit (internals s) = Inr i" "queue_inv i xs" "scores_inv (stabs s) i xs"
    by (auto elim!: rokE)
  then show ?thesis using inv btab_unassign[OF i(1)] by (simp add: search_inv_def in_range_def)
qed

lemma search_decide_rok:
  assumes inv: "search_inv s xs" and ex: "\<exists>x\<in>{1..n_vars s}. \<not> assigned (internals s) x"
  shows "rok (next_decision_variable use_scores (stabs s) (n_vars s) (internals s)) (\<lambda>(res, i).
    (if use_scores then best (stabs s) {x \<in> {1..n_vars s}. \<not> assigned (internals s) x} res
     else last_bumped (internals s) xs res) \<and> search_inv (s\<lparr>internals := i\<rparr>) xs)"
proof -
  have q: "queue_inv (internals s) xs" "scores_inv (stabs s) (internals s) xs" "set xs = {1..n_vars s}"
    using inv by (simp_all add: search_inv_def)
  have "\<exists>x\<in>set xs. \<not> assigned (internals s) x" "set xs \<subseteq> {1..n_vars s}" using ex q(3) by simp_all
  from decision_rok[OF q(1,2) this, of use_scores] obtain res i where
    i: "next_decision_variable use_scores (stabs s) (n_vars s) (internals s) = Inr (res, i)"
      "if use_scores then best (stabs s) {x \<in> set xs. \<not> assigned (internals s) x} res
       else last_bumped (internals s) xs res"
      "queue_inv i xs" "scores_inv (stabs s) i xs"
    by (auto elim!: rokE)
  then have "search_inv (s\<lparr>internals := i\<rparr>) xs"
    using inv q(3) btab_decide[OF i(1)] by (simp add: search_inv_def in_range_def)
  then show ?thesis using i(2) unfolding i(1) q(3) by simp
qed

lemma step_inv:
  assumes "search_step s s'" "search_inv s xs"
  shows "\<exists>ys. search_inv s' ys"
  using assms
proof (cases rule: search_step.cases)
  case (New m)
  with init_vars_rok[OF assms(2), of m] show ?thesis by simp
next
  case (Assign idx)
  with assign_inv[OF assms(2)] show ?thesis by blast
next
  case (Unassign lit i)
  then have "assigned (internals s) (vidx lit)" by (auto simp: unassign_def Let_def split: if_splits)
  with search_unassign_rok[OF assms(2) Unassign(2)] Unassign show ?thesis by auto
next
  case (Bump analyzed scorefactor junk use_scores limit)
  with bump_variables_rok[OF assms(2) Bump(1), of use_scores limit] show ?thesis by simp
next
  case (Decide use_scores res i)
  with search_decide_rok[OF assms(2) Decide(3), of use_scores] show ?thesis by auto
qed

lemma reachable_inv: "reachable s \<Longrightarrow> \<exists>xs. search_inv s xs"
  by (induction rule: reachable.induct) (use search_init_inv step_inv in blast)+

text \<open>The largest time stamp, without the list of variables.\<close>

lemma last_bumped_max:
  assumes "search_inv s xs" "last_bumped (internals s) xs res"
  shows "res \<in> {1..n_vars s} \<and> \<not> assigned (internals s) res \<and> (\<forall>y\<in>{1..n_vars s}. \<not> assigned (internals s) y \<longrightarrow>
    y \<noteq> res \<longrightarrow> btab (internals s) y < btab (internals s) res)"
  using assms by (simp add: search_inv_def last_bumped_def)

lemma reachable_decides:
  assumes "reachable s" "\<exists>x\<in>{1..n_vars s}. \<not> assigned (internals s) x"
  shows "rok (next_decision_variable use_scores (stabs s) (n_vars s) (internals s)) (\<lambda>(res, i).
    res \<in> {1..n_vars s} \<and> \<not> assigned (internals s) res \<and>
    (\<forall>y\<in>{1..n_vars s}. \<not> assigned (internals s) y \<longrightarrow> y \<noteq> res \<longrightarrow>
       (if use_scores then stabs s y < stabs s res \<or> stabs s y = stabs s res \<and> res < y
        else btab (internals s) y < btab (internals s) res)))"
proof -
  obtain xs where inv: "search_inv s xs" using reachable_inv[OF assms(1)] by blast
  show ?thesis
    by (rule rok_weaken[OF search_decide_rok[OF inv assms(2)]])
      (use last_bumped_max[OF inv] in \<open>auto simp: best_def split: if_splits\<close>)
qed

lemma rok_Inr: "rok m (\<lambda>_. True) \<Longrightarrow> (\<And>x. m = Inr x \<Longrightarrow> Q x) \<Longrightarrow> rok m Q"
  by (auto elim!: rokE)

text \<open>No operation fails, whatever happened before, and the search goes on from a reachable state.\<close>

lemma reachable_no_failure:
  assumes "reachable s"
  shows "\<exists>xs. queue_inv (internals s) xs \<and> scores_inv (stabs s) (internals s) xs \<and> set xs = {1..n_vars s}"
    and "m < 2 ^ 31 \<Longrightarrow> rok (init_vars m s) reachable"
    and "vidx lit \<in> {1..n_vars s} \<Longrightarrow> assigned (internals s) (vidx lit) \<Longrightarrow>
      rok (unassign (stabs s) lit (internals s)) (\<lambda>i. reachable (s\<lparr>internals := i\<rparr>))"
    and "analyzed_ok analyzed scorefactor junk s \<Longrightarrow>
      rok (Internal_bump_variables use_scores scorefactor limit junk analyzed s) reachable"
proof -
  obtain xs where inv: "search_inv s xs" using reachable_inv[OF assms] by blast
  then show "\<exists>xs. queue_inv (internals s) xs \<and> scores_inv (stabs s) (internals s) xs \<and> set xs = {1..n_vars s}"
    by (auto simp: search_inv_def)
  show "rok (init_vars m s) reachable" if m: "m < 2 ^ 31"
  proof (rule rok_Inr)
    show "rok (init_vars m s) (\<lambda>_. True)" by (rule rok_weaken[OF init_vars_rok[OF inv m]]) simp
  qed (rule reachable.Step[OF assms search_step.New[OF m]])
  show "rok (unassign (stabs s) lit (internals s)) (\<lambda>i. reachable (s\<lparr>internals := i\<rparr>))"
    if lit: "vidx lit \<in> {1..n_vars s}" "assigned (internals s) (vidx lit)"
  proof (rule rok_Inr)
    show "rok (unassign (stabs s) lit (internals s)) (\<lambda>_. True)"
      by (rule rok_weaken[OF search_unassign_rok[OF inv lit]]) simp
  qed (rule reachable.Step[OF assms search_step.Unassign[OF lit(1)]])
  show "rok (Internal_bump_variables use_scores scorefactor limit junk analyzed s) reachable"
    if an: "analyzed_ok analyzed scorefactor junk s"
  proof (rule rok_Inr)
    show "rok (Internal_bump_variables use_scores scorefactor limit junk analyzed s) (\<lambda>_. True)"
      by (rule rok_weaken[OF bump_variables_rok[OF inv an]]) simp
  qed (rule reachable.Step[OF assms search_step.Bump[OF an]])
qed

end
