(* ===== verification/Reluctant.thy ===== *)
theory Reluctant
  imports Prelude "HOL-Library.Word"
begin

text \<open>
  When the SAT solver restarts in its stable mode: the class Reluctant of
  lib/cadical-2.1.0/src/reluctant.hpp, Knuth's two-word form of the Luby sequence.  The words are 64
  bits wide, as in the source.  \<open>luby_block\<close> is the definition of the sequence in the literature; the
  first theorem says that without a limit the restart signals have these distances, the second that
  with a limit a signal always comes.
\<close>

unbundle bit_operations_syntax

section \<open>The class\<close>

record Reluctant =
  doubling_u :: "64 word"
  doubling_v :: "64 word"
  upper_limit :: "64 word"
  period :: "64 word"
  countdown :: "64 word"
  trigger :: bool
  limited :: bool

definition reluctant_init :: "Reluctant \<Rightarrow> Reluctant" where
  "reluctant_init r = r\<lparr>period := 0, trigger := False\<rparr>"

text \<open>The assertion \<open>0 < p\<close> is a hypothesis of the theorems.\<close>

definition reluctant_enable :: "nat \<Rightarrow> int \<Rightarrow> Reluctant \<Rightarrow> Reluctant" where
  "reluctant_enable p l r =
     (let r = r\<lparr>doubling_u := 1, doubling_v := 1, period := of_nat p, countdown := of_nat p, trigger := False\<rparr>
      in if l \<le> 0 then r\<lparr>limited := False\<rparr> else r\<lparr>limited := True, upper_limit := of_int l\<rparr>)"

definition reluctant_disable :: "Reluctant \<Rightarrow> Reluctant" where
  "reluctant_disable r = r\<lparr>period := 0, trigger := False\<rparr>"

definition tick :: "Reluctant \<Rightarrow> Reluctant" where
  "tick r =
     (if period r = 0 then r
      else if trigger r then r
      else
        let r = r\<lparr>countdown := countdown r - 1\<rparr>
        in if countdown r \<noteq> 0 then r
           else
             let r = (if (doubling_u r AND - doubling_u r) = doubling_v r
                      then r\<lparr>doubling_u := doubling_u r + 1, doubling_v := 1\<rparr>
                      else r\<lparr>doubling_v := 2 * doubling_v r\<rparr>);
                 r = (if limited r \<and> doubling_v r \<ge> upper_limit r
                      then r\<lparr>doubling_u := 1, doubling_v := 1\<rparr> else r)
             in r\<lparr>countdown := doubling_v r * period r, trigger := True\<rparr>)"

text \<open>\<open>operator bool\<close>: the signal is delivered once.\<close>

definition signal :: "Reluctant \<Rightarrow> bool \<times> Reluctant" where
  "signal r = (if \<not> trigger r then (False, r) else (True, r\<lparr>trigger := False\<rparr>))"

text \<open>One conflict after the other, each followed by a query.\<close>

fun poll_run :: "nat \<Rightarrow> Reluctant \<Rightarrow> bool list \<times> Reluctant" where
  "poll_run 0 r = ([], r)"
| "poll_run (Suc n) r =
     (let (b, r) = signal (tick r); (bs, r) = poll_run n r in (b # bs, r))"

section \<open>The Luby sequence\<close>

primrec luby_block :: "nat \<Rightarrow> nat list" where
  "luby_block 0 = []"
| "luby_block (Suc k) = luby_block k @ luby_block k @ [2 ^ k]"

text \<open>The exponent of 2 in a number.\<close>

fun low :: "nat \<Rightarrow> nat" where
  "low n = (if n = 0 \<or> odd n then 0 else Suc (low (n div 2)))"

declare low.simps [simp del]

lemma low_unique: "low (2 ^ k * (2 * m + 1)) = k"
proof (induction k)
  case (Suc k)
  have "2 ^ Suc k * (2 * m + 1) = 2 * (2 ^ k * (2 * m + 1))" by simp
  then have "low (2 ^ Suc k * (2 * m + 1)) = Suc (low (2 ^ k * (2 * m + 1)))"
    by (subst low.simps) (simp del: mult_Suc_right add: mult.assoc)
  then show ?case unfolding Suc.IH .
qed (simp add: low.simps)

lemma low_split:
  assumes "0 < n"
  obtains m where "n = 2 ^ low n * (2 * m + 1)"
proof -
  have "\<exists>m. n = 2 ^ low n * (2 * m + 1)"
    using assms
  proof (induction n rule: low.induct)
    case (1 n)
    show ?case
    proof (cases "odd n")
      case True
      then show ?thesis by (auto simp: low.simps[of n] elim: oddE)
    next
      case False
      then have "\<not> (n = 0 \<or> odd n)" "0 < n div 2" using 1(2) by auto
      from 1(1)[OF this] obtain m where m: "n div 2 = 2 ^ low (n div 2) * (2 * m + 1)" ..
      have "n = 2 * (n div 2)" using False by simp
      also have "\<dots> = 2 * (2 ^ low (n div 2) * (2 * m + 1))" using m by (rule arg_cong)
      also have "\<dots> = 2 ^ Suc (low (n div 2)) * (2 * m + 1)" by simp
      also have "Suc (low (n div 2)) = low n" using 1(2) False by (simp add: low.simps[of n])
      finally show ?thesis ..
    qed
  qed
  then show thesis using that by blast
qed

lemma low_le: "0 < n \<Longrightarrow> 2 ^ low n \<le> n"
  by (rule low_split[of n]) (assumption, metis le_add2 mult_le_mono2 nat_mult_1_right)

lemma low_power [simp]: "low (2 ^ k) = k"
  using low_unique[of k 0] by simp

lemma low_add:
  assumes "0 < n" "n < 2 ^ k"
  shows "low (2 ^ k + n) = low n"
proof -
  obtain m where m: "n = 2 ^ low n * (2 * m + 1)" by (rule low_split[OF assms(1)])
  have "(2::nat) ^ low n < 2 ^ k" using low_le[OF assms(1)] assms(2) by linarith
  then have "low n < k" by simp
  then have "(2::nat) ^ k = 2 ^ low n * (2 * 2 ^ (k - low n - 1))"
    by (simp add: power_add[symmetric] power_Suc[symmetric] del: power_Suc)
  then have "2 ^ k + n = 2 ^ low n * (2 * (2 ^ (k - low n - 1) + m) + 1)"
    using m by (metis add.assoc distrib_left)
  then show ?thesis using low_unique[of "low n"] by metis
qed

text \<open>The sequence as the two words run through it: for each \<open>u\<close> the powers up to its lowest bit.\<close>

definition powers :: "nat \<Rightarrow> nat list" where
  "powers u = map (\<lambda>i. 2 ^ i) [0..<Suc (low u)]"

lemma luby_powers: "luby_block (Suc k) = concat (map powers [1..<2 ^ k + 1])"
proof (induction k)
  case 0
  have "low 1 = 0" by (simp add: low.simps)
  then show ?case by (simp add: powers_def)
next
  case (Suc k)
  let ?n = "2 ^ k :: nat"
  have "[1..<2 ^ Suc k + 1] = [1..<?n + 1] @ [?n + 1..<?n + ?n] @ [?n + ?n]"
  proof -
    have n: "1 \<le> ?n" by simp
    then have "1 \<le> ?n + ?n" by linarith
    then have "[1..<?n + ?n + 1] = [1..<?n + ?n] @ [?n + ?n]" by simp
    also have "[1..<?n + ?n] = [1..<?n + 1] @ [?n + 1..<?n + ?n]"
      using upt_add_eq_append[of 1 "?n + 1" "?n - 1"] n by simp
    finally show ?thesis by (simp add: mult_2)
  qed
  moreover have "map powers [?n + 1..<?n + ?n] = map powers [1..<?n]"
  proof -
    have "[?n + 1..<?n + ?n] = map (\<lambda>i. i + ?n) [1..<?n]" by (rule nth_equalityI) auto
    moreover have "low (i + ?n) = low i" if "i \<in> set [1..<?n]" for i
      using that low_add[of i k] by (simp add: add.commute)
    ultimately show ?thesis by (simp add: powers_def)
  qed
  moreover have "powers (?n + ?n) = powers ?n @ [2 ^ Suc k]"
    using low_power[of "Suc k"] by (simp add: powers_def mult_2)
  moreover have "[1..<?n + 1] = [1..<?n] @ [?n]" by simp
  ultimately show ?case using Suc by (simp add: mult_2)
qed


section \<open>The lowest bit of a word\<close>

lemma odd_and_minus: "(2 * a + 1) AND - (2 * a + 1) = (1 :: 'a::len word)"
proof -
  have "- (2 * a + 1) = NOT (2 * a)" by (simp add: minus_eq_not_minus_1)
  moreover have "bit ((2 * a + 1) AND NOT (2 * a)) n \<longleftrightarrow> bit (1 :: 'a word) n" if "n < LENGTH('a)" for n
    using that even_bit_succ_iff[of "2 * a" n] by (auto simp: bit_simps add.commute)
  ultimately show ?thesis by (metis bit_word_eqI)
qed

lemma lowest_bit:
  assumes "0 < u"
  shows "(of_nat u :: 'a::len word) AND - of_nat u = of_nat (2 ^ low u)"
proof -
  obtain m where m: "u = 2 ^ low u * (2 * m + 1)" by (rule low_split[OF assms])
  let ?w = "2 * of_nat m + 1 :: 'a word"
  have "(of_nat u :: 'a word) = of_nat (2 ^ low u * (2 * m + 1))" using m by (rule arg_cong)
  also have "\<dots> = push_bit (low u) ?w" by (simp add: push_bit_eq_mult algebra_simps)
  finally have u: "(of_nat u :: 'a word) = push_bit (low u) ?w" .
  have "- push_bit (low u) ?w = push_bit (low u) (- ?w)" by (simp only: push_bit_eq_mult mult_minus_left)
  then have "(of_nat u :: 'a word) AND - of_nat u = push_bit (low u) (?w AND - ?w)"
    unfolding u by (simp only: push_bit_and)
  also have "\<dots> = push_bit (low u) 1" by (simp only: odd_and_minus)
  finally show ?thesis by (simp add: push_bit_eq_mult)
qed

section \<open>The signals follow the Luby sequence\<close>

text \<open>Between two signals, at the element \<open>v\<close> for \<open>u\<close>; \<open>c\<close> conflicts are missing.\<close>

definition waiting :: "nat \<Rightarrow> nat \<Rightarrow> nat \<Rightarrow> nat \<Rightarrow> Reluctant \<Rightarrow> bool" where
  "waiting p u v c r \<longleftrightarrow> doubling_u r = of_nat u \<and> doubling_v r = of_nat v \<and> period r = of_nat p \<and>
     countdown r = of_nat c \<and> \<not> trigger r \<and> \<not> limited r"

definition intervals :: "nat \<Rightarrow> nat list \<Rightarrow> bool list" where
  "intervals p vs = concat (map (\<lambda>v. replicate (p * v - 1) False @ [True]) vs)"

lemma poll_run_add:
  "poll_run (m + n) r = (let (bs, r) = poll_run m r; (cs, r) = poll_run n r in (bs @ cs, r))"
  by (induction m arbitrary: r) (simp_all add: split_beta Let_def)

lemma of_nat_zero_iff: "c < 2 ^ 64 \<Longrightarrow> (of_nat c :: 64 word) = 0 \<longleftrightarrow> c = 0"
  by (simp add: word_of_nat_eq_0_iff dvd_eq_mod_eq_0)

lemma waiting_tick:
  assumes "waiting p u v (Suc c) r" "0 < p" "p < 2 ^ 64" "0 < c" "c < 2 ^ 64"
  shows "waiting p u v c (tick r)" "\<not> trigger (tick r)"
  using assms of_nat_zero_iff[of p] of_nat_zero_iff[of c] by (simp_all add: waiting_def tick_def Let_def)

lemma interval:
  assumes "waiting p u v (Suc c) r" "0 < p" "p < 2 ^ 64" "c < 2 ^ 64" "0 < u"
  shows "\<exists>r'. poll_run (Suc c) r = (replicate c False @ [True], r') \<and>
    (if of_nat (2 ^ low u) = (of_nat v :: 64 word) then waiting p (u + 1) 1 p r' else waiting p u (2 * v) (p * (2 * v)) r')"
  using assms
proof (induction c arbitrary: r)
  case 0
  let ?last = "of_nat (2 ^ low u) = (of_nat v :: 64 word)"
  let ?r = "if ?last then r\<lparr>doubling_u := doubling_u r + 1, doubling_v := 1, countdown := period r\<rparr>
    else r\<lparr>doubling_v := 2 * doubling_v r, countdown := 2 * doubling_v r * period r\<rparr>"
  have w: "doubling_u r = of_nat u" "doubling_v r = of_nat v" "period r = of_nat p" "countdown r = 1"
      "\<not> trigger r" "\<not> limited r" using 0(1) by (simp_all add: waiting_def)
  have "period r \<noteq> 0" using of_nat_zero_iff[OF 0(3)] 0(2) w(3) by simp
  then have "tick r = ?r\<lparr>trigger := True\<rparr>"
    using w(4-6) lowest_bit[OF 0(5), where 'a = 64] unfolding tick_def Let_def w(1,2)[symmetric]
    by (simp split del: if_split) (simp split: if_split)
  then have "signal (tick r) = (True, ?r\<lparr>trigger := False\<rparr>)" by (simp add: signal_def)
  also have "?r\<lparr>trigger := False\<rparr> = ?r" using w(5) by simp
  finally have "poll_run (Suc 0) r = ([True], ?r)" by simp
  moreover have "if ?last then waiting p (u + 1) 1 p ?r else waiting p u (2 * v) (p * (2 * v)) ?r"
    using w by (simp add: waiting_def mult.commute)
  ultimately show ?case by auto
next
  case (Suc c)
  note t = waiting_tick[OF Suc.prems(1-3) _ Suc.prems(4)]
  from Suc.IH[OF t(1)] Suc.prems obtain r' where "poll_run (Suc c) (tick r) = (replicate c False @ [True], r')"
      "if of_nat (2 ^ low u) = (of_nat v :: 64 word) then waiting p (u + 1) 1 p r' else waiting p u (2 * v) (p * (2 * v)) r'"
    by auto
  moreover have "signal (tick r) = (False, tick r)" using t(2) by (simp add: signal_def)
  ultimately show ?case by (subst poll_run.simps) simp
qed

text \<open>\<open>traverses p u v vs u' v'\<close>: from one element to another, with the distances \<open>p * v\<close> for \<open>v\<close> in \<open>vs\<close>.\<close>

definition traverses :: "nat \<Rightarrow> nat \<Rightarrow> nat \<Rightarrow> nat list \<Rightarrow> nat \<Rightarrow> nat \<Rightarrow> bool" where
  "traverses p u v vs u' v' \<longleftrightarrow> (\<forall>r. waiting p u v (p * v) r \<longrightarrow>
     (\<exists>r'. poll_run (p * sum_list vs) r = (intervals p vs, r') \<and> waiting p u' v' (p * v') r'))"

lemma traverses_refl: "traverses p u v [] u v"
  by (simp add: traverses_def intervals_def)

lemma traverses_append:
  assumes "traverses p u v vs u' v'" "traverses p u' v' ws u'' v''"
  shows "traverses p u v (vs @ ws) u'' v''"
  unfolding traverses_def
proof (intro allI impI)
  fix r assume "waiting p u v (p * v) r"
  with assms obtain r1 r2 where "poll_run (p * sum_list vs) r = (intervals p vs, r1)"
      "poll_run (p * sum_list ws) r1 = (intervals p ws, r2)" "waiting p u'' v'' (p * v'') r2"
    unfolding traverses_def by blast
  then show "\<exists>r'. poll_run (p * sum_list (vs @ ws)) r = (intervals p (vs @ ws), r') \<and> waiting p u'' v'' (p * v'') r'"
    by (simp add: distrib_left poll_run_add intervals_def)
qed

lemma traverses_step:
  assumes "0 < p" "0 < v" "p * v < 2 ^ 64" "0 < u" "low u < 64"
  shows "traverses p u v [v] (if v = 2 ^ low u then u + 1 else u) (if v = 2 ^ low u then 1 else 2 * v)"
  unfolding traverses_def
proof (intro allI impI)
  fix r assume w: "waiting p u v (p * v) r"
  have pv: "p * v = Suc (p * v - 1)" using assms(1,2) by simp
  have p: "p < 2 ^ 64" "v < 2 ^ 64"
    using assms(1-3) by (auto elim!: le_less_trans[rotated])
  have "(2::nat) ^ low u < 2 ^ 64" by (rule power_strict_increasing[OF assms(5)]) simp
  then have iff: "of_nat (2 ^ low u) = (of_nat v :: 64 word) \<longleftrightarrow> v = 2 ^ low u"
    using p(2) by (auto simp: word_of_nat_eq_iff take_bit_eq_mod simp del: of_nat_power)
  have w1: "waiting p u v (Suc (p * v - 1)) r" using w pv by simp
  have "p * v - 1 < 2 ^ 64" using assms(3) by linarith
  from interval[OF w1 assms(1) p(1) this assms(4)] obtain r' where
    "poll_run (p * v) r = (replicate (p * v - 1) False @ [True], r')"
    "if v = 2 ^ low u then waiting p (u + 1) 1 p r' else waiting p u (2 * v) (p * (2 * v)) r'"
    unfolding iff pv[symmetric] by blast
  then show "\<exists>r'. poll_run (p * sum_list [v]) r = (intervals p [v], r') \<and>
      waiting p (if v = 2 ^ low u then u + 1 else u) (if v = 2 ^ low u then 1 else 2 * v)
        (p * (if v = 2 ^ low u then 1 else 2 * v)) r'"
    by (auto simp: intervals_def)
qed


lemma traverses_powers:
  assumes "0 < p" "0 < u" "p * u < 2 ^ 64"
  shows "traverses p u 1 (powers u) (u + 1) 1"
proof -
  have fit: "p * 2 ^ i < 2 ^ 64" "i < 64" if "i \<le> low u" for i
  proof -
    have "(2::nat) ^ i \<le> 2 ^ low u" by (rule power_increasing[OF that]) simp
    with low_le[OF assms(2)] have "(2::nat) ^ i \<le> u" by linarith
    then show f: "p * 2 ^ i < 2 ^ 64" using mult_le_mono2[of "2 ^ i" u p] assms(3) by linarith
    have "(2::nat) ^ i \<le> p * 2 ^ i" using assms(1) by simp
    with f have "(2::nat) ^ i < 2 ^ 64" by linarith
    then show "i < 64" using power_less_imp_less_exp[of "2::nat" i 64] by simp
  qed
  have "traverses p u 1 (map (\<lambda>i. 2 ^ i) [0..<i]) u (2 ^ i)" if "i \<le> low u" for i
    using that
  proof (induction i)
    case 0
    then show ?case by (simp add: traverses_refl)
  next
    case (Suc i)
    then have "traverses p u (2 ^ i) [2 ^ i] u (2 ^ Suc i)"
      using traverses_step[of p "2 ^ i" u] assms fit[of i] fit[of "low u"] by simp
    with Suc traverses_append show ?case by fastforce
  qed
  from this[of "low u"] traverses_step[of p "2 ^ low u" u] assms fit[of "low u"]
  have "traverses p u 1 (map (\<lambda>i. 2 ^ i) [0..<low u]) u (2 ^ low u)"
    "traverses p u (2 ^ low u) [2 ^ low u] (u + 1) 1" by simp_all
  from traverses_append[OF this] show ?thesis by (simp add: powers_def)
qed

lemma traverses_block:
  assumes "0 < p" "p * n < 2 ^ 64"
  shows "traverses p 1 1 (concat (map powers [1..<n + 1])) (n + 1) 1"
  using assms(2)
proof (induction n)
  case (Suc n)
  from Suc.prems have "p * n < 2 ^ 64" by simp
  from Suc.IH[OF this] traverses_powers[OF assms(1) _ Suc.prems]
  have "traverses p 1 1 (concat (map powers [1..<n + 1])) (Suc n) 1" "traverses p (Suc n) 1 (powers (Suc n)) (Suc n + 1) 1"
    by simp_all
  from traverses_append[OF this] show ?case by simp
qed (simp add: traverses_refl)

lemma schedule:
  assumes "0 < p" "p * 2 ^ k < 2 ^ 64" "l \<le> 0"
  shows "fst (poll_run (p * sum_list (luby_block (Suc k))) (reluctant_enable p l r)) = intervals p (luby_block (Suc k))"
proof -
  have "waiting p 1 1 (p * 1) (reluctant_enable p l r)"
    using assms(3) by (simp add: waiting_def reluctant_enable_def)
  with traverses_block[OF assms(1,2)] show ?thesis
    unfolding traverses_def luby_powers[symmetric] by fastforce
qed

section \<open>A signal always comes\<close>

text \<open>What happens to an enabled sequence with a limit.\<close>

inductive enabled :: "nat \<Rightarrow> nat \<Rightarrow> Reluctant \<Rightarrow> bool" for p l where
  Enable: "enabled p l (reluctant_enable p (int l) r)"
| Tick: "enabled p l r \<Longrightarrow> enabled p l (tick r)"
| Signal: "enabled p l r \<Longrightarrow> enabled p l (snd (signal r))"

definition enabled_inv :: "nat \<Rightarrow> nat \<Rightarrow> Reluctant \<Rightarrow> bool" where
  "enabled_inv p l r \<longleftrightarrow> period r = of_nat p \<and> limited r \<and> upper_limit r = of_nat l \<and>
     1 \<le> unat (doubling_v r) \<and> (unat (doubling_v r) = 1 \<or> unat (doubling_v r) < l) \<and>
     0 < unat (countdown r) \<and> unat (countdown r) \<le> p * l"

lemma countdown_product:
  assumes "0 < p" "p * l < 2 ^ 64" "1 \<le> unat v" "unat v \<le> l" "0 < l"
  shows "0 < unat (v * of_nat p :: 64 word) \<and> unat (v * of_nat p :: 64 word) \<le> p * l"
proof -
  have "unat v * p \<le> p * l" using assms(4) by (simp add: mult.commute)
  then have "unat v * p < 2 ^ 64" using assms(2) by linarith
  moreover have "p < 2 ^ 64" using assms(2,5) by (auto elim!: le_less_trans[rotated])
  ultimately have "unat (v * of_nat p :: 64 word) = unat v * p"
    by (simp add: unat_word_ariths unat_of_nat)
  then show ?thesis using \<open>unat v * p \<le> p * l\<close> assms(1,3) by simp
qed

lemma tick_inv:
  assumes pl: "0 < p" "0 < l" "p * l < 2 ^ 64" "l < 2 ^ 63" and inv: "enabled_inv p l r"
  shows "enabled_inv p l (tick r)"
    and "\<not> trigger r \<Longrightarrow> \<not> trigger (tick r) \<Longrightarrow> unat (countdown (tick r)) < unat (countdown r)"
proof -
  have r: "period r = of_nat p" "limited r" "upper_limit r = of_nat l" "1 \<le> unat (doubling_v r)"
      "unat (doubling_v r) = 1 \<or> unat (doubling_v r) < l" "0 < unat (countdown r)" "unat (countdown r) \<le> p * l"
    using inv by (simp_all add: enabled_inv_def)
  have p0: "period r \<noteq> 0"
  proof -
    have "p < 2 ^ 64" using pl(2,3) by (auto elim!: le_less_trans[rotated])
    then show ?thesis using of_nat_zero_iff[of p] pl(1) r(1) by simp
  qed
  have c: "unat (countdown r - 1) = unat (countdown r) - 1"
    using r(6) by (metis unat_minus_one unat_gt_0)
  define v where "v = (if (doubling_u r AND - doubling_u r) = doubling_v r then 1 else 2 * doubling_v r)"
  define v' where "v' = (if v \<ge> upper_limit r then 1 else v)"
  have l: "unat (upper_limit r) = l" using pl(4) r(3) by (simp add: unat_of_nat)
  have "unat (doubling_v r) < 2 ^ 63" using r(5) pl(4) by auto
  then have "unat (2 * doubling_v r) = 2 * unat (doubling_v r)" by (simp add: unat_word_ariths)
  then have "1 \<le> unat v" using r(4) by (simp add: v_def)
  then have v': "1 \<le> unat v'" "unat v' = 1 \<or> unat v' < l"
    using l by (auto simp: v'_def word_le_nat_alt)
  have "unat v' \<le> l" using v' pl(2) by auto
  note cd = countdown_product[OF pl(1,3) v'(1) this pl(2)]
  show "enabled_inv p l (tick r)"
  proof (cases "trigger r \<or> countdown r - 1 \<noteq> 0")
    case True
    moreover have "countdown r - 1 \<noteq> 0 \<Longrightarrow> 0 < unat (countdown r - 1)" by (simp add: unat_gt_0)
    ultimately show ?thesis using r p0 c by (auto simp: tick_def enabled_inv_def Let_def)
  next
    case False
    then have "doubling_v (tick r) = v'" "countdown (tick r) = v' * of_nat p" "period (tick r) = of_nat p"
        "limited (tick r)" "upper_limit (tick r) = of_nat l"
      using p0 r by (simp_all add: tick_def Let_def v'_def v_def)
    then show ?thesis using v' cd by (simp add: enabled_inv_def)
  qed
  show "\<not> trigger r \<Longrightarrow> \<not> trigger (tick r) \<Longrightarrow> unat (countdown (tick r)) < unat (countdown r)"
    using p0 c r(6) by (auto simp: tick_def Let_def split: if_splits)
qed

lemma enabled_enabled_inv:
  assumes "enabled p l r" "0 < p" "0 < l" "p * l < 2 ^ 64" "l < 2 ^ 63"
  shows "enabled_inv p l r"
  using assms(1)
proof induction
  case (Enable r)
  have "p < 2 ^ 64" using assms(3,4) by (auto elim!: le_less_trans[rotated])
  moreover have "p \<le> p * l" using assms(3) by simp
  ultimately show ?case using assms(2,3) by (simp add: reluctant_enable_def enabled_inv_def Let_def unat_of_nat)
next
  case (Tick r)
  then show ?case using tick_inv(1) assms by blast
next
  case (Signal r)
  then show ?case by (simp add: signal_def enabled_inv_def)
qed

lemma signal_comes:
  assumes "enabled p l r" and pl: "0 < p" "0 < l" "p * l < 2 ^ 64" "l < 2 ^ 63"
  shows "\<exists>n\<le>p * l. trigger ((tick ^^ n) r)"
proof -
  have "\<exists>n\<le>unat (countdown r). trigger ((tick ^^ n) r)" if "enabled_inv p l r" for r
    using that
  proof (induction "unat (countdown r)" arbitrary: r rule: less_induct)
    case less
    show ?case
    proof (cases "trigger r \<or> trigger (tick r)")
      case True
      then show ?thesis
      proof
        assume "trigger r"
        then show ?thesis by (intro exI[of _ 0]) simp
      next
        assume "trigger (tick r)"
        moreover have "1 \<le> unat (countdown r)" using less.prems by (simp add: enabled_inv_def)
        ultimately show ?thesis by (intro exI[of _ 1]) simp
      qed
    next
      case False
      with tick_inv[OF pl less.prems] less.hyps[of "tick r"] obtain n where
        n: "n \<le> unat (countdown (tick r))" "trigger ((tick ^^ n) (tick r))"
          "unat (countdown (tick r)) < unat (countdown r)" by auto
      then show ?thesis by (intro exI[of _ "Suc n"]) (simp add: funpow_swap1)
    qed
  qed
  from this[OF enabled_enabled_inv[OF assms]] enabled_enabled_inv[OF assms]
  show ?thesis by (meson enabled_inv_def le_trans)
qed

end
