(* ===== verification/SolverExample.thy ===== *)
theory SolverExample
  imports Complex_Main Memory CadicalApi Decisions Reluctant
begin

text \<open>
  Concrete values for the theorems about the SAT solver and about memory: the calls of a
  client, the grounded extension of two arguments, and the decision queue and heap for three variables,
  also as a state that the search reaches.
\<close>

text \<open>A client that reads values between its calls of solve; the second model differs from the first.\<close>

definition ex_calls :: "api_call list" where
  "ex_calls = [Tell (Add 1), Tell (Add 2), Tell (Add 0), Tell (Assume 1), Tell Solve, Val 1,
     Tell (Assume (- 1)), Tell Solve, Val 1, Tell (Add (- 2)), Tell (Add 0), Tell (Assume (- 1)), Tell Solve]"

lemma ex_calls_valid: "valid_calls False ex_calls"
  by (simp add: ex_calls_def valid_lit_def INT_MIN_def)

lemma ex_calls_outputs: "cadical_outputs reference_core ex_calls = Inr [10, 1, 10, -1, 20]"
  by code_simp

text \<open>One attack between two arguments.\<close>

lemma ex_two_grounded: "grounded_ext \<lparr>args = {..<2}, attacks = {(0, Suc 0)}\<rparr> = {0}"
proof -
  let ?F = "\<lparr>args = {..<2}, attacks = {(0 :: nat, Suc 0)}\<rparr>"
  have "0 \<in> grounded_ext ?F" by (rule grounded_ext.intros) auto
  moreover have "a = 0" if "a \<in> grounded_ext ?F" for a
    using that
  proof (cases rule: grounded_ext.cases)
    case groundedI
    then show ?thesis by (cases "a = Suc 0") (auto elim: grounded_ext.cases)
  qed
  ultimately show ?thesis by blast
qed

text \<open>Three variables; \<open>a\<close> tells which are assigned, the heap is \<open>h\<close>.\<close>

definition ex_internal :: "(nat \<Rightarrow> bool) \<Rightarrow> heap \<Rightarrow> Internal" where
  "ex_internal a h = init_queue False 0 3 \<lparr>links = \<lambda>_. \<lparr>prev_of = 0, next_of = 0\<rparr>, btab = \<lambda>_. 0,
     queue_first = 0, queue_last = 0, queue_unassigned = 0, queue_bumped = 0, stats_bumped = 0,
     assigned = a, scores = h\<rparr>"

lemma ex_queue_inv: "queue_inv (ex_internal a h) [1, 2, 3]"
proof -
  have "queue_inv \<lparr>links = \<lambda>_. \<lparr>prev_of = 0, next_of = 0\<rparr>, btab = \<lambda>_. 0,
     queue_first = 0, queue_last = 0, queue_unassigned = 0, queue_bumped = 0, stats_bumped = 0,
     assigned = a, scores = h\<rparr> []" by (simp add: queue_inv_def is_queue_def)
  from init_queue_inv[OF this, of 0 False 3] show ?thesis by (simp add: ex_internal_def numeral_eq_Suc)
qed

lemma ex_internal_simps [simp]:
  "assigned (ex_internal a h) = a" "scores (ex_internal a h) = h" "stats_bumped (ex_internal a h) = 3"
  "btab (ex_internal a h) = (\<lambda>_. 0)(1 := 1, 2 := 2, 3 := 3)"
  by (simp_all add: ex_internal_def init_queue_def init_enqueue_def update_queue_unassigned_def numeral_eq_Suc)

definition ex_heap :: heap where
  "ex_heap = \<lparr>array = [2], pos = [invalid_heap_position, invalid_heap_position, 0]\<rparr>"

lemma ex_heap_inv: "heap_inv lt ex_heap"
proof -
  have "1 \<le> invalid_heap_position" by (simp add: invalid_heap_position_def)
  moreover have "pos ex_heap ! e < 1 \<and> array ex_heap ! (pos ex_heap ! e) = e"
    if "e < 3" "pos ex_heap ! e \<noteq> invalid_heap_position" for e
  proof -
    have "e = 0 \<or> e = 1 \<or> e = 2" using that(1) by linarith
    then show ?thesis using that(2) by (auto simp: ex_heap_def)
  qed
  ultimately have "wf_heap ex_heap" unfolding wf_heap_def by (simp add: ex_heap_def)
  then show ?thesis by (simp add: heap_inv_def ex_heap_def)
qed

lemma ex_empty_heap: "heap_inv lt \<lparr>array = [], pos = []\<rparr>"
  by (simp add: heap_inv_def wf_heap_def)

text \<open>A reachable state with three variables, the second of which is assigned.\<close>

lemma ex_reachable:
  "\<exists>s :: rat search. reachable s \<and> n_vars s = 3 \<and> assigned (internals s) = (\<lambda>_. False)(2 := True) \<and>
     stats_bumped (internals s) = 3"
proof -
  have "rok (init_vars 3 (search_init :: rat search)) (\<lambda>s. n_vars s = 3 \<and> assigned (internals s) = (\<lambda>_. False))"
    by (rule rok_weaken[OF init_vars_rok[OF search_init_inv]]) (auto simp: search_init_def)
  then obtain s :: "rat search" where s: "init_vars 3 search_init = Inr s" "n_vars s = 3"
      "assigned (internals s) = (\<lambda>_. False)" by (auto elim!: rokE)
  then have "stats_bumped (internals s) = 3"
    by (auto simp: init_vars_def search_init_def rbind_def init_queue_def init_enqueue_def update_queue_unassigned_def
        numeral_eq_Suc Let_def split: sum.splits)
  moreover have "reachable (set_assigned 2 s)"
    by (rule reachable.Step[OF reachable.Step[OF reachable.Init search_step.New[OF _ s(1)]] search_step.Assign]) simp
  ultimately show ?thesis using s(2,3) by (intro exI[of _ "set_assigned 2 s"]) (auto simp: set_assigned_def)
qed

definition ex_reluctant :: Reluctant where
  "ex_reluctant = \<lparr>doubling_u = 0, doubling_v = 0, upper_limit = 0, period = 0, countdown = 0,
     trigger = False, limited = False\<rparr>"

end
