(* ===== verification/Trail.thy ===== *)
theory Trail
  imports Decisions Ipasir
begin

text \<open>
  The trail of the SAT solver: assigning literals with their assignment levels (propagate.cpp), decision
  levels, decisions on assumptions, on the constraint and on variables (decide.cpp), and chronological
  backtracking, which keeps literals of lower levels on the trail (backtrack.cpp).  The configuration
  is the one that taas-fudge uses: no external propagator, no proofs, no incremental lazy
  backtracking, not searching for lucky phases.

  Which clauses propagate is left open here: a step may assign any literal by any clause that the formula
  implies and that is unit; the propagation loop is in Propagate.  The main theorem is that the answer 20 of \<open>decide\<close> is right: then the formula
  has no model that satisfies assumptions and constraint.
\<close>

section \<open>State\<close>

datatype reason = No_reason | Decision_reason | Reason_clause "int list"

record Var =
  vlevel :: nat
  vtrail :: nat
  vreason :: reason

record Level =
  decision :: int
  start :: nat

text \<open>
  \<open>var_value\<close> is the array \<open>vals\<close> at the positive literals; \<open>assigned\<close> in \<open>base\<close> is the same information
  without the sign, and both are changed together.  \<open>rephased\<close> is 0 when no reset is pending.
\<close>

record 'a cdcl =
  base :: "'a search"
  var_value :: "nat \<Rightarrow> int"
  vtab :: "nat \<Rightarrow> Var"
  trail :: "int list"
  control :: "Level list"
  level :: nat
  num_assigned :: nat
  assumed_lits :: "int list"
  constraint_lits :: "int list"
  propagated :: nat
  propagated2 :: nat
  no_conflict_until :: nat
  phases_saved :: "nat \<Rightarrow> int"
  phases_forced :: "nat \<Rightarrow> int"
  phases_target :: "nat \<Rightarrow> int"
  phases_best :: "nat \<Rightarrow> int"
  target_assigned :: nat
  best_assigned :: nat
  rephased :: char
  conflicts :: nat
  last_rephase_conflicts :: nat
  lim_restart :: nat
  force_saved_phase :: bool
  stable_mode :: bool
  unsat_constraint :: bool
  marked_failed :: bool

record options =
  opt_chrono :: nat
  opt_phase :: bool
  opt_forcephase :: bool
  opt_target :: nat
  opt_score :: bool
  opt_restartreusetrail :: bool
  opt_restartint :: nat

definition lit_value :: "'a cdcl \<Rightarrow> int \<Rightarrow> int" where
  "lit_value t lit = (if lit < 0 then - var_value t (vidx lit) else var_value t (vidx lit))"

definition set_value :: "nat \<Rightarrow> int \<Rightarrow> 'a cdcl \<Rightarrow> 'a cdcl" where
  "set_value idx v t = t\<lparr>var_value := (var_value t)(idx := v),
     base := (base t)\<lparr>internals := (internals (base t))\<lparr>assigned := (assigned (internals (base t)))(idx := v \<noteq> 0)\<rparr>\<rparr>\<rparr>"

section \<open>Assigning\<close>

text \<open>Assertions are the error \<open>OutOfBounds\<close> here and below.\<close>

definition assignment_level :: "int \<Rightarrow> int list \<Rightarrow> 'a cdcl \<Rightarrow> nat result" where
  "assignment_level lit reason t =
     rfold (\<lambda>other res.
       if other = lit then Inr res
       else if lit_value t other = 0 then Inl OutOfBounds
       else let tmp = vlevel (vtab t (vidx other)) in Inr (if tmp > res then tmp else res)) reason 0"

definition search_assign :: "options \<Rightarrow> int \<Rightarrow> reason \<Rightarrow> 'a cdcl \<Rightarrow> 'a cdcl result" where
  "search_assign opts lit reason t =
     (let idx = vidx lit
      in if var_value t idx \<noteq> 0 then Inl OutOfBounds
         else
           rbind (case reason of
               No_reason \<Rightarrow> Inr 0
             | Decision_reason \<Rightarrow> Inr (level t)
             | Reason_clause c \<Rightarrow> if 0 < opt_chrono opts then assignment_level lit c t else Inr (level t)) (\<lambda>lit_level.
           let reason = (if reason = Decision_reason then No_reason else reason);
               reason = (if lit_level = 0 then No_reason else reason);
               t = t\<lparr>vtab := (vtab t)(idx := \<lparr>vlevel = lit_level, vtrail = length (trail t), vreason = reason\<rparr>)\<rparr>
           in if n_vars (base t) \<le> num_assigned t \<or> num_assigned t \<noteq> length (trail t) then Inl OutOfBounds
              else
                let t = t\<lparr>num_assigned := num_assigned t + 1\<rparr>;
                    t = set_value idx (sgn lit) t;
                    t = t\<lparr>phases_saved := (phases_saved t)(idx := sgn lit)\<rparr>
                in Inr (t\<lparr>trail := trail t @ [lit]\<rparr>)))"

definition assign_unit :: "options \<Rightarrow> int \<Rightarrow> 'a cdcl \<Rightarrow> 'a cdcl result" where
  "assign_unit opts lit t = (if level t \<noteq> 0 then Inl OutOfBounds else search_assign opts lit No_reason t)"

definition new_trail_level :: "int \<Rightarrow> 'a cdcl \<Rightarrow> 'a cdcl" where
  "new_trail_level lit t =
     t\<lparr>level := level t + 1, control := control t @ [\<lparr>decision = lit, start = length (trail t)\<rparr>]\<rparr>"

definition search_assume_decision :: "options \<Rightarrow> int \<Rightarrow> 'a cdcl \<Rightarrow> 'a cdcl result" where
  "search_assume_decision opts lit t =
     (if propagated t \<noteq> length (trail t) then Inl OutOfBounds
      else search_assign opts lit Decision_reason (new_trail_level lit t))"

definition search_assign_driving :: "options \<Rightarrow> int \<Rightarrow> reason \<Rightarrow> 'a cdcl \<Rightarrow> 'a cdcl result" where
  "search_assign_driving opts lit c t = search_assign opts lit c t"

section \<open>Deciding\<close>

definition decide_phase :: "options \<Rightarrow> nat \<Rightarrow> bool \<Rightarrow> 'a cdcl \<Rightarrow> int" where
  "decide_phase opts idx target t =
     (let initial_phase = (if opt_phase opts then 1 else - 1);
          phase = 0;
          phase = (if force_saved_phase t then phases_saved t idx else phase);
          phase = (if phase = 0 then phases_forced t idx else phase);
          phase = (if phase = 0 \<and> opt_forcephase opts then initial_phase else phase);
          phase = (if phase = 0 \<and> target then phases_target t idx else phase);
          phase = (if phase = 0 then phases_saved t idx else phase);
          phase = (if phase = 0 then initial_phase else phase)
      in phase * int idx)"

definition satisfied :: "'a cdcl \<Rightarrow> bool" where
  "satisfied t =
     (if level t < length (assumed_lits t) + (if constraint_lits t \<noteq> [] then 1 else 0) then False
      else if num_assigned t < n_vars (base t) then False
      else if propagated t < length (trail t) then False
      else num_assigned t = n_vars (base t))"

definition better_decision :: "'a::linorder cdcl \<Rightarrow> int \<Rightarrow> int \<Rightarrow> bool" where
  "better_decision t lit other_lit =
     (if stable_mode t then stabs (base t) (vidx lit) > stabs (base t) (vidx other_lit)
      else btab (internals (base t)) (vidx lit) > btab (internals (base t)) (vidx other_lit))"

text \<open>The result has the constraint, the previous literal, an unassigned and a satisfied literal.\<close>

fun constraint_loop :: "'a::linorder cdcl \<Rightarrow> nat list \<Rightarrow> int list \<Rightarrow> int \<Rightarrow> int \<Rightarrow> int list \<times> int \<times> int \<times> int" where
  "constraint_loop t [] cs previous_lit unassigned_lit = (cs, previous_lit, unassigned_lit, 0)"
| "constraint_loop t (i # is) cs previous_lit unassigned_lit =
     (let lit = cs ! i; cs = cs[i := previous_lit]; previous_lit = lit; tmp = lit_value t lit
      in if tmp < 0 then constraint_loop t is cs previous_lit unassigned_lit
         else if tmp > 0 then (cs, previous_lit, unassigned_lit, lit)
         else constraint_loop t is cs previous_lit
           (if unassigned_lit = 0 \<or> better_decision t lit unassigned_lit then lit else unassigned_lit))"

definition move_back :: "int list \<Rightarrow> int \<Rightarrow> int list" where
  "move_back cs previous_lit =
     (let cs = fold (\<lambda>i cs. cs[i := cs ! (i + 1)]) [0..<length cs - 1] cs in cs[length cs - 1 := previous_lit])"

definition decide_constraint :: "options \<Rightarrow> 'a::linorder cdcl \<Rightarrow> (int \<times> 'a cdcl) result" where
  "decide_constraint opts t =
     (let (cs, previous_lit, unassigned_lit, satisfied_lit) =
            constraint_loop t [0..<length (constraint_lits t)] (constraint_lits t) 0 0
      in if satisfied_lit \<noteq> 0 then Inr (0, new_trail_level 0 (t\<lparr>constraint_lits := cs[0 := satisfied_lit]\<rparr>))
         else
           let t = t\<lparr>constraint_lits := move_back cs previous_lit\<rparr>
           in if unassigned_lit \<noteq> 0
              then rbind (search_assume_decision opts unassigned_lit t) (\<lambda>t. Inr (0, t))
              else Inr (20, t\<lparr>unsat_constraint := True\<rparr>))"

definition decide :: "options \<Rightarrow> 'a::linorder cdcl \<Rightarrow> (int \<times> 'a cdcl) result" where
  "decide opts t =
     (if satisfied t then Inl OutOfBounds
      else
        rbind
          (if level t < length (assumed_lits t) then
             let lit = assumed_lits t ! level t; tmp = lit_value t lit
             in if tmp < 0 then Inr (20, t)
                else if tmp > 0 then Inr (0, new_trail_level 0 t)
                else rbind (search_assume_decision opts lit t) (\<lambda>t. Inr (0, t))
           else if level t = length (assumed_lits t) \<and> constraint_lits t \<noteq> [] then decide_constraint opts t
           else
             rbind (next_decision_variable (opt_score opts \<and> stable_mode t) (stabs (base t)) (n_vars (base t))
                 (internals (base t))) (\<lambda>(idx, i).
             let t = t\<lparr>base := (base t)\<lparr>internals := i\<rparr>\<rparr>;
                 target = (opt_target opts > 1 \<or> stable_mode t \<and> opt_target opts \<noteq> 0)
             in rbind (search_assume_decision opts (decide_phase opts idx target t) t) (\<lambda>t. Inr (0, t))))
          (\<lambda>(res, t). Inr (res, if res \<noteq> 0 then t\<lparr>marked_failed := False\<rparr> else t)))"

section \<open>Backtracking\<close>

definition copy_phases :: "'a cdcl \<Rightarrow> (nat \<Rightarrow> int) \<Rightarrow> nat \<Rightarrow> int" where
  "copy_phases t dst = (\<lambda>i. if 1 \<le> i \<and> i \<le> n_vars (base t) then phases_saved t i else dst i)"

definition update_target_and_best :: "'a cdcl \<Rightarrow> 'a cdcl" where
  "update_target_and_best t =
     (let reset = rephased t \<noteq> CHR 0x00 \<and> conflicts t > last_rephase_conflicts t;
          t = (if reset then
                 let t = t\<lparr>target_assigned := 0\<rparr>
                 in if rephased t = CHR ''B'' then t\<lparr>best_assigned := 0\<rparr> else t
               else t);
          t = (if no_conflict_until t > target_assigned t
               then t\<lparr>phases_target := copy_phases t (phases_target t), target_assigned := no_conflict_until t\<rparr>
               else t);
          t = (if no_conflict_until t > best_assigned t
               then t\<lparr>phases_best := copy_phases t (phases_best t), best_assigned := no_conflict_until t\<rparr>
               else t)
      in if reset then t\<lparr>rephased := CHR 0x00\<rparr> else t)"

definition trail_unassign :: "int \<Rightarrow> 'a::linorder cdcl \<Rightarrow> 'a cdcl result" where
  "trail_unassign lit t =
     (if lit_value t lit \<le> 0 then Inl OutOfBounds
      else rbind (unassign (stabs (base t)) lit (internals (base t))) (\<lambda>i.
        Inr (t\<lparr>var_value := (var_value t)(vidx lit := 0), base := (base t)\<lparr>internals := i\<rparr>,
               num_assigned := num_assigned t - 1\<rparr>)))"

text \<open>\<open>i\<close> reads the trail, \<open>j\<close> writes it.\<close>

definition backtrack_step :: "options \<Rightarrow> nat \<Rightarrow> nat \<Rightarrow> 'a::linorder cdcl \<times> nat \<Rightarrow> ('a cdcl \<times> nat) result" where
  "backtrack_step opts new_level i = (\<lambda>(t, j).
     let lit = trail t ! i; v = vtab t (vidx lit)
     in if vlevel v > new_level then rbind (trail_unassign lit t) (\<lambda>t. Inr (t, j))
        else if opt_chrono opts = 0 then Inl OutOfBounds
        else Inr (t\<lparr>trail := (trail t)[j := lit], vtab := (vtab t)(vidx lit := v\<lparr>vtrail := j\<rparr>)\<rparr>, j + 1))"

definition backtrack :: "options \<Rightarrow> nat \<Rightarrow> 'a::linorder cdcl \<Rightarrow> 'a cdcl result" where
  "backtrack opts new_level t =
     (if level t < new_level then Inl OutOfBounds
      else if new_level = level t then Inr t
      else
        let t = update_target_and_best t
        in if num_assigned t \<noteq> length (trail t) then Inl OutOfBounds
           else
             let first = start (control t ! (new_level + 1)); end_of_trail = length (trail t)
             in rbind (rfold (backtrack_step opts new_level) [first..<end_of_trail] (t, first)) (\<lambda>(t, j).
                let t = t\<lparr>trail := take j (trail t)\<rparr>;
                    t = (if propagated t > first then t\<lparr>propagated := first\<rparr> else t);
                    t = (if propagated2 t > first then t\<lparr>propagated2 := first\<rparr> else t);
                    t = (if no_conflict_until t > first then t\<lparr>no_conflict_until := first\<rparr> else t);
                    t = t\<lparr>control := take (new_level + 1) (control t), level := new_level\<rparr>
                in if num_assigned t \<noteq> length (trail t) then Inl OutOfBounds else Inr t))"

section \<open>Restarting\<close>

text \<open>The decisions that would be made again are kept.  The number of restarts is not modelled.\<close>

definition reuse_step :: "options \<Rightarrow> 'a::linorder cdcl \<Rightarrow> nat \<Rightarrow> nat \<Rightarrow> (nat, nat) step result" where
  "reuse_step opts t next_decision res =
     (if \<not> res < level t then Inr (Break res)
      else
        let decision = decision (control t ! (res + 1))
        in Inr (if decision \<noteq> 0 \<and>
              (if opt_score opts \<and> stable_mode t
               then score_smaller (stabs (base t)) (vidx decision) next_decision
               else btab (internals (base t)) (vidx decision) < btab (internals (base t)) next_decision)
            then Break res else Continue (res + 1)))"

definition reuse_trail :: "options \<Rightarrow> 'a::linorder cdcl \<Rightarrow> (nat \<times> 'a cdcl) result" where
  "reuse_trail opts t =
     (if length (control t) \<le> length (assumed_lits t) + 1 then Inl OutOfBounds
      else
        let trivial_decisions = length (assumed_lits t)
              + (if decision (control t ! (length (assumed_lits t) + 1)) = 0 then 1 else 0)
        in if \<not> opt_restartreusetrail opts then Inr (trivial_decisions, t)
           else
             rbind (next_decision_variable (opt_score opts \<and> stable_mode t) (stabs (base t)) (n_vars (base t))
                 (internals (base t))) (\<lambda>(next_decision, i).
             let t = t\<lparr>base := (base t)\<lparr>internals := i\<rparr>\<rparr>
             in if next_decision = 0 then Inl OutOfBounds
                else
                  rbind (rloop (level t + 1) (reuse_step opts t next_decision) trivial_decisions)
                    (\<lambda>res. Inr (res, t))))"

definition restart :: "options \<Rightarrow> 'a::linorder cdcl \<Rightarrow> 'a cdcl result" where
  "restart opts t =
     rbind (reuse_trail opts t) (\<lambda>(res, t).
     rbind (backtrack opts res t) (\<lambda>t.
     Inr (t\<lparr>lim_restart := conflicts t + opt_restartint opts\<rparr>)))"


section \<open>Meaning and invariants\<close>

text \<open>\<open>F\<close> are the clauses of the formula.  \<open>follows\<close>: every model of \<open>F\<close> and the literals \<open>D\<close> satisfies \<open>lit\<close>.\<close>

definition sat :: "(nat \<Rightarrow> bool) \<Rightarrow> int list list \<Rightarrow> bool" where
  "sat v F \<longleftrightarrow> (\<forall>c\<in>set F. \<exists>l\<in>set c. lit_true v l)"

definition implied :: "int list list \<Rightarrow> int list \<Rightarrow> bool" where
  "implied F c \<longleftrightarrow> (\<forall>v. sat v F \<longrightarrow> (\<exists>l\<in>set c. lit_true v l))"

definition follows :: "int list list \<Rightarrow> int set \<Rightarrow> int \<Rightarrow> bool" where
  "follows F D lit \<longleftrightarrow> (\<forall>v. sat v F \<longrightarrow> (\<forall>d\<in>D. lit_true v d) \<longrightarrow> lit_true v lit)"

abbreviation lit_level :: "'a cdcl \<Rightarrow> int \<Rightarrow> nat" where
  "lit_level t lit \<equiv> vlevel (vtab t (vidx lit))"

definition decisions_upto :: "'a cdcl \<Rightarrow> nat \<Rightarrow> int set" where
  "decisions_upto t k = {d. d \<noteq> 0 \<and> (\<exists>l\<in>{1..k}. d = decision (control t ! l))}"

text \<open>A literal that the solver can assign.\<close>

abbreviation ok_lit :: "'a cdcl \<Rightarrow> int \<Rightarrow> bool" where
  "ok_lit t lit \<equiv> lit \<noteq> 0 \<and> vidx lit \<in> {1..n_vars (base t)}"

text \<open>The trail holds exactly the assigned literals, each at its position.\<close>

definition base_inv :: "'a::linordered_field cdcl \<Rightarrow> bool" where
  "base_inv t \<longleftrightarrow> (\<exists>xs. search_inv (base t) xs) \<and> assigned (internals (base t)) = (\<lambda>i. var_value t i \<noteq> 0)"

definition trail_inv :: "'a cdcl \<Rightarrow> bool" where
  "trail_inv t \<longleftrightarrow> distinct (map vidx (trail t)) \<and>
     (\<forall>lit\<in>set (trail t). ok_lit t lit \<and> var_value t (vidx lit) = sgn lit) \<and>
     (\<forall>i. var_value t i \<noteq> 0 \<longrightarrow> i \<in> vidx ` set (trail t)) \<and>
     num_assigned t = length (trail t) \<and> propagated t \<le> length (trail t) \<and>
     (\<forall>i<length (trail t). vtrail (vtab t (vidx (trail t ! i))) = i)"

text \<open>
  Levels start in the order of their numbers, and before the start of a level are only literals of lower levels;
  the converse holds without chronological backtracking.
\<close>

definition levels_inv :: "options \<Rightarrow> 'a cdcl \<Rightarrow> bool" where
  "levels_inv opts t \<longleftrightarrow> length (control t) = level t + 1 \<and> (\<forall>lit\<in>set (trail t). lit_level t lit \<le> level t) \<and>
     (\<forall>l\<in>{1..level t}. start (control t ! l) \<le> length (trail t) \<and>
        (\<forall>m\<in>{1..l}. start (control t ! m) \<le> start (control t ! l)) \<and>
        (\<forall>i < start (control t ! l). lit_level t (trail t ! i) < l) \<and>
        (opt_chrono opts = 0 \<longrightarrow> (\<forall>i<length (trail t). start (control t ! l) \<le> i \<longrightarrow> l \<le> lit_level t (trail t ! i))))"

text \<open>Every literal follows from the decisions up to its level.\<close>

definition justified :: "int list list \<Rightarrow> 'a cdcl \<Rightarrow> bool" where
  "justified F t \<longleftrightarrow> (\<forall>lit\<in>set (trail t). follows F (decisions_upto t (lit_level t lit)) lit)"

text \<open>The first levels belong to the assumptions, the next one to the constraint.\<close>

definition holds_at :: "'a cdcl \<Rightarrow> int \<Rightarrow> nat \<Rightarrow> bool" where
  "holds_at t lit k \<longleftrightarrow> lit \<in> set (trail t) \<and> lit_level t lit \<le> k"

definition served :: "'a cdcl \<Rightarrow> bool" where
  "served t \<longleftrightarrow>
     (\<forall>l<min (level t) (length (assumed_lits t)).
        decision (control t ! Suc l) \<in> {0, assumed_lits t ! l} \<and> holds_at t (assumed_lits t ! l) (Suc l)) \<and>
     (length (assumed_lits t) < level t \<and> constraint_lits t \<noteq> [] \<longrightarrow>
        (\<exists>c\<in>set (constraint_lits t). holds_at t c (Suc (length (assumed_lits t)))))"

definition phases_inv :: "'a cdcl \<Rightarrow> bool" where
  "phases_inv t \<longleftrightarrow> (\<forall>i. \<bar>phases_saved t i\<bar> \<le> 1 \<and> \<bar>phases_forced t i\<bar> \<le> 1 \<and> \<bar>phases_target t i\<bar> \<le> 1)"

definition lits_inv :: "'a cdcl \<Rightarrow> bool" where
  "lits_inv t \<longleftrightarrow> (\<forall>lit\<in>set (assumed_lits t) \<union> set (constraint_lits t). ok_lit t lit)"

definition cdcl_inv :: "options \<Rightarrow> int list list \<Rightarrow> 'a::linordered_field cdcl \<Rightarrow> bool" where
  "cdcl_inv opts F t \<longleftrightarrow> base_inv t \<and> trail_inv t \<and> levels_inv opts t \<and> justified F t \<and> served t \<and>
     phases_inv t \<and> lits_inv t"

section \<open>Assigning keeps the invariants\<close>

lemma vidx_simps [simp]: "vidx (- x) = vidx x" "vidx x = 0 \<longleftrightarrow> x = 0" "vidx (int i) = i" "vidx (- int i) = i"
  by (auto simp: vidx_def)

lemma lit_of_vidx: "sgn x = sgn y \<Longrightarrow> vidx x = vidx y \<Longrightarrow> x = y"
  by (auto simp: vidx_def sgn_if split: if_splits)

lemma trail_invD:
  assumes "trail_inv t"
  shows "distinct (map vidx (trail t))" "lit \<in> set (trail t) \<Longrightarrow> ok_lit t lit"
    "lit \<in> set (trail t) \<Longrightarrow> var_value t (vidx lit) = sgn lit"
    "var_value t i \<noteq> 0 \<Longrightarrow> i \<in> vidx ` set (trail t)"
    "num_assigned t = length (trail t)" "propagated t \<le> length (trail t)"
    "i < length (trail t) \<Longrightarrow> vtrail (vtab t (vidx (trail t ! i))) = i"
  using assms unfolding trail_inv_def by blast+

text \<open>The value of a literal tells whether it or its negation is on the trail.\<close>

lemma lit_value_trail:
  assumes "trail_inv t" "lit \<noteq> 0"
  shows "lit_value t lit > 0 \<longleftrightarrow> lit \<in> set (trail t)" "lit_value t lit < 0 \<longleftrightarrow> - lit \<in> set (trail t)"
    "lit_value t lit = 0 \<longleftrightarrow> var_value t (vidx lit) = 0"
proof -
  have on: "x \<in> set (trail t)" if "x \<noteq> 0" "var_value t (vidx x) = sgn x" for x
  proof -
    have "var_value t (vidx x) \<noteq> 0" using that by (simp add: sgn_0_0)
    then obtain y where y: "y \<in> set (trail t)" "vidx x = vidx y" using trail_invD(4)[OF assms(1)] by blast
    have "sgn x = sgn y" using that(2) trail_invD(3)[OF assms(1) y(1)] unfolding y(2) by (rule trans[OF sym])
    from lit_of_vidx[OF this y(2)] y(1) show ?thesis by simp
  qed
  have sgns: "var_value t (vidx lit) \<in> {0, 1, - 1}"
  proof (cases "var_value t (vidx lit) = 0")
    case False
    then obtain y where y: "y \<in> set (trail t)" "vidx lit = vidx y" using trail_invD(4)[OF assms(1)] by blast
    then show ?thesis using trail_invD(3)[OF assms(1) y(1)] by (auto simp: sgn_if)
  qed simp
  have sub: "lit \<in> set (trail t) \<Longrightarrow> var_value t (vidx lit) = sgn lit"
    "- lit \<in> set (trail t) \<Longrightarrow> var_value t (vidx lit) = - sgn lit"
    using trail_invD(3)[OF assms(1), of lit] trail_invD(3)[OF assms(1), of "- lit"] by (simp_all add: sgn_minus)
  have sup: "var_value t (vidx lit) = sgn lit \<Longrightarrow> lit \<in> set (trail t)"
    "var_value t (vidx lit) = - sgn lit \<Longrightarrow> - lit \<in> set (trail t)"
    using on[of lit] on[of "- lit"] assms(2) by (simp_all add: sgn_minus)
  have lv: "lit_value t lit = sgn lit * var_value t (vidx lit)"
    using assms(2) by (simp add: lit_value_def sgn_if)
  have s: "sgn lit = 1 \<or> sgn lit = - 1" using assms(2) by (simp add: sgn_if)
  show "lit_value t lit > 0 \<longleftrightarrow> lit \<in> set (trail t)"
    unfolding lv using sgns s sub(1) sup(1) by (elim disjE insertE) auto
  show "lit_value t lit < 0 \<longleftrightarrow> - lit \<in> set (trail t)"
    unfolding lv using sgns s sub(2) sup(2) by (elim disjE insertE) auto
  show "lit_value t lit = 0 \<longleftrightarrow> var_value t (vidx lit) = 0" by (simp add: lit_value_def)
qed

lemma trail_room:
  assumes "trail_inv t" "x \<in> {1..n_vars (base t)}" "var_value t x = 0"
  shows "length (trail t) < n_vars (base t)"
proof -
  have "vidx ` set (trail t) \<subset> {1..n_vars (base t)}"
  proof
    show "vidx ` set (trail t) \<subseteq> {1..n_vars (base t)}" using trail_invD(2)[OF assms(1)] by blast
    have "x \<notin> vidx ` set (trail t)"
    proof
      assume "x \<in> vidx ` set (trail t)"
      then obtain y where "y \<in> set (trail t)" "x = vidx y" by blast
      then show False using trail_invD(2,3)[OF assms(1), of y] assms(3) by (simp add: sgn_0_0)
    qed
    then show "vidx ` set (trail t) \<noteq> {1..n_vars (base t)}" using assms(2) by blast
  qed
  then have "card (vidx ` set (trail t)) < card {1..n_vars (base t)}" by (rule psubset_card_mono[OF finite_atLeastAtMost])
  then show ?thesis using distinct_card[OF trail_invD(1)[OF assms(1)]] by simp
qed

lemma trail_full:
  assumes "trail_inv t"
  shows "length (trail t) \<le> n_vars (base t)"
    and "length (trail t) = n_vars (base t) \<Longrightarrow> x \<in> {1..n_vars (base t)} \<Longrightarrow> var_value t x \<noteq> 0"
proof -
  have "vidx ` set (trail t) \<subseteq> {1..n_vars (base t)}" using trail_invD(2)[OF assms] by blast
  then have "card (vidx ` set (trail t)) \<le> card {1..n_vars (base t)}" by (rule card_mono[OF finite_atLeastAtMost])
  then show "length (trail t) \<le> n_vars (base t)" using distinct_card[OF trail_invD(1)[OF assms]] by simp
  show "length (trail t) = n_vars (base t) \<Longrightarrow> x \<in> {1..n_vars (base t)} \<Longrightarrow> var_value t x \<noteq> 0"
    using trail_room[OF assms] by fastforce
qed

lemma assignment_level_rok:
  assumes "\<forall>x\<in>set c. x \<noteq> lit \<longrightarrow> lit_value t x \<noteq> 0 \<and> lit_level t x \<le> k"
  shows "rok (assignment_level lit c t) (\<lambda>r. r \<le> k \<and> (\<forall>x\<in>set c. x \<noteq> lit \<longrightarrow> lit_level t x \<le> r) \<and>
    (r = 0 \<or> (\<exists>x\<in>set c. x \<noteq> lit \<and> lit_level t x = r)))"
proof -
  have "rok (assignment_level lit c t) ((\<lambda>ys r. r \<le> k \<and> (\<forall>x\<in>set ys. x \<noteq> lit \<longrightarrow> lit_level t x \<le> r) \<and>
    (r = 0 \<or> (\<exists>x\<in>set ys. x \<noteq> lit \<and> lit_level t x = r))) c)"
    unfolding assignment_level_def
  proof (rule rok_rfold)
    fix ys x zs r assume "c = ys @ x # zs" and I: "r \<le> k \<and> (\<forall>x\<in>set ys. x \<noteq> lit \<longrightarrow> lit_level t x \<le> r) \<and>
      (r = 0 \<or> (\<exists>x\<in>set ys. x \<noteq> lit \<and> lit_level t x = r))"
    then have x: "x \<noteq> lit \<Longrightarrow> lit_value t x \<noteq> 0 \<and> lit_level t x \<le> k" using assms by simp
    show "rok (if x = lit then Inr r else if lit_value t x = 0 then Inl OutOfBounds
       else let tmp = lit_level t x in Inr (if r < tmp then tmp else r))
      (\<lambda>r. r \<le> k \<and> (\<forall>x\<in>set (ys @ [x]). x \<noteq> lit \<longrightarrow> lit_level t x \<le> r) \<and>
        (r = 0 \<or> (\<exists>x\<in>set (ys @ [x]). x \<noteq> lit \<and> lit_level t x = r)))"
      using x I by (cases "x = lit") (auto simp: Let_def)
  qed simp
  then show ?thesis by simp
qed

text \<open>What assigning \<open>lit\<close> at level \<open>lv\<close> changes.\<close>

definition assign_at :: "int \<Rightarrow> nat \<Rightarrow> reason \<Rightarrow> 'a cdcl \<Rightarrow> 'a cdcl" where
  "assign_at lit lv r t = (set_value (vidx lit) (sgn lit)
       (t\<lparr>vtab := (vtab t)(vidx lit := \<lparr>vlevel = lv, vtrail = length (trail t), vreason = r\<rparr>),
          num_assigned := num_assigned t + 1\<rparr>))
     \<lparr>phases_saved := (phases_saved t)(vidx lit := sgn lit), trail := trail t @ [lit]\<rparr>"

lemma assign_at_simps [simp]:
  "trail (assign_at lit lv r t) = trail t @ [lit]" "level (assign_at lit lv r t) = level t"
  "control (assign_at lit lv r t) = control t" "assumed_lits (assign_at lit lv r t) = assumed_lits t"
  "constraint_lits (assign_at lit lv r t) = constraint_lits t" "propagated (assign_at lit lv r t) = propagated t"
  "num_assigned (assign_at lit lv r t) = num_assigned t + 1"
  "var_value (assign_at lit lv r t) = (var_value t)(vidx lit := sgn lit)"
  "vtab (assign_at lit lv r t) = (vtab t)(vidx lit := \<lparr>vlevel = lv, vtrail = length (trail t), vreason = r\<rparr>)"
  "n_vars (base (assign_at lit lv r t)) = n_vars (base t)"
  "phases_saved (assign_at lit lv r t) = (phases_saved t)(vidx lit := sgn lit)"
  "phases_forced (assign_at lit lv r t) = phases_forced t" "phases_target (assign_at lit lv r t) = phases_target t"
  "decisions_upto (assign_at lit lv r t) k = decisions_upto t k"
  by (simp_all add: assign_at_def set_value_def decisions_upto_def)

lemma search_inv_assigned:
  "search_inv s xs \<Longrightarrow> search_inv (s\<lparr>internals := (internals s)\<lparr>assigned := (assigned (internals s))(idx := True)\<rparr>\<rparr>) xs"
  using assign_inv[of s xs idx] by (simp add: set_assigned_def)

lemma assign_at_inv:
  assumes "base_inv t" "trail_inv t" "ok_lit t lit" "var_value t (vidx lit) = 0"
  shows "base_inv (assign_at lit lv r t)" "trail_inv (assign_at lit lv r t)"
    "phases_inv t \<Longrightarrow> phases_inv (assign_at lit lv r t)" "lits_inv t \<Longrightarrow> lits_inv (assign_at lit lv r t)"
proof -
  note d = trail_invD[OF assms(2)]
  have new: "vidx lit \<notin> vidx ` set (trail t)"
  proof
    assume "vidx lit \<in> vidx ` set (trail t)"
    then obtain y where "y \<in> set (trail t)" "vidx lit = vidx y" by blast
    then show False using d(2,3)[of y] assms(4) by (simp add: sgn_0_0)
  qed
  show "base_inv (assign_at lit lv r t)"
    using assms(1,3) search_inv_assigned[of "base t" _ "vidx lit"]
    by (auto simp: base_inv_def assign_at_def set_value_def sgn_0_0 fun_eq_iff)
  have new': "x \<in> set (trail t) \<Longrightarrow> vidx x \<noteq> vidx lit" for x using new by (metis image_eqI)
  have "vtrail (vtab (assign_at lit lv r t) (vidx (trail (assign_at lit lv r t) ! i))) = i"
    if "i < Suc (length (trail t))" for i
    using that d(7)[of i] new'[OF nth_mem, of i] by (cases "i < length (trail t)") (simp_all add: nth_append less_Suc_eq)
  moreover have "distinct (map vidx (trail t @ [lit]))" using d(1) new by simp
  moreover have "ok_lit t x \<and> ((var_value t)(vidx lit := sgn lit)) (vidx x) = sgn x" if "x \<in> set (trail t @ [lit])" for x
    using that assms(3) d(2,3)[of x] new'[of x] by auto
  moreover have "i \<in> vidx ` set (trail t @ [lit])" if "((var_value t)(vidx lit := sgn lit)) i \<noteq> 0" for i
    using that d(4)[of i] by (cases "i = vidx lit") auto
  ultimately show "trail_inv (assign_at lit lv r t)" using d(5,6) unfolding trail_inv_def by simp
  show "phases_inv t \<Longrightarrow> phases_inv (assign_at lit lv r t)" by (auto simp: phases_inv_def sgn_if)
  show "lits_inv t \<Longrightarrow> lits_inv (assign_at lit lv r t)" by (simp add: lits_inv_def)
qed

lemma trail_new:
  assumes "trail_inv t" "var_value t (vidx lit) = 0" "x \<in> set (trail t)"
  shows "vidx x \<noteq> vidx lit"
  using trail_invD(2,3)[OF assms(1,3)] assms(2) by (metis sgn_0_0)

lemma levels_invD:
  assumes "levels_inv opts t"
  shows "length (control t) = Suc (level t)" "lit \<in> set (trail t) \<Longrightarrow> lit_level t lit \<le> level t"
    "l \<in> {1..level t} \<Longrightarrow> start (control t ! l) \<le> length (trail t)"
    "l \<in> {1..level t} \<Longrightarrow> m \<in> {1..l} \<Longrightarrow> start (control t ! m) \<le> start (control t ! l)"
    "l \<in> {1..level t} \<Longrightarrow> i < start (control t ! l) \<Longrightarrow> lit_level t (trail t ! i) < l"
    "opt_chrono opts = 0 \<Longrightarrow> l \<in> {1..level t} \<Longrightarrow> i < length (trail t) \<Longrightarrow> start (control t ! l) \<le> i \<Longrightarrow>
      l \<le> lit_level t (trail t ! i)"
proof -
  show "length (control t) = Suc (level t)" using assms by (simp add: levels_inv_def)
qed (use assms[unfolded levels_inv_def] in blast)+

lemma levels_assign:
  assumes "trail_inv t" "var_value t (vidx lit) = 0" "levels_inv opts t" "lv \<le> level t"
    and "opt_chrono opts = 0 \<Longrightarrow> lv = level t"
  shows "levels_inv opts (assign_at lit lv r t)"
proof -
  note d = levels_invD[OF assms(3)]
  have old: "lit_level (assign_at lit lv r t) x = lit_level t x" if "x \<in> set (trail t)" for x
    using trail_new[OF assms(1,2) that] by simp
  have pos: "lit_level (assign_at lit lv r t) (trail (assign_at lit lv r t) ! i) =
      (if i < length (trail t) then lit_level t (trail t ! i) else lv)" if "i < Suc (length (trail t))" for i
    using that old[OF nth_mem, of i] by (auto simp: nth_append less_Suc_eq)
  have "\<forall>x\<in>set (trail (assign_at lit lv r t)). lit_level (assign_at lit lv r t) x \<le> level t"
    using d(2) old assms(4) by simp
  moreover have "start (control t ! l) \<le> Suc (length (trail t)) \<and> (\<forall>m\<in>{1..l}. start (control t ! m) \<le> start (control t ! l)) \<and>
      (\<forall>i < start (control t ! l). lit_level (assign_at lit lv r t) (trail (assign_at lit lv r t) ! i) < l) \<and>
      (opt_chrono opts = 0 \<longrightarrow> (\<forall>i<Suc (length (trail t)). start (control t ! l) \<le> i \<longrightarrow>
         l \<le> lit_level (assign_at lit lv r t) (trail (assign_at lit lv r t) ! i)))" if l: "l \<in> {1..level t}" for l
  proof (intro conjI allI ballI impI)
    show "start (control t ! l) \<le> Suc (length (trail t))" using d(3)[OF l] by simp
    show "start (control t ! m) \<le> start (control t ! l)" if "m \<in> {1..l}" for m using d(4)[OF l that] .
    show "lit_level (assign_at lit lv r t) (trail (assign_at lit lv r t) ! i) < l" if "i < start (control t ! l)" for i
      using pos[of i] that d(3,5)[OF l] by (simp add: less_le_trans)
    show "l \<le> lit_level (assign_at lit lv r t) (trail (assign_at lit lv r t) ! i)"
      if "opt_chrono opts = 0" "i < Suc (length (trail t))" "start (control t ! l) \<le> i" for i
      unfolding pos[OF that(2)] using d(6)[OF that(1) l _ that(3)] assms(5)[OF that(1)] l by simp
  qed
  ultimately show ?thesis using d(1) unfolding levels_inv_def by simp
qed

lemma justified_assign:
  assumes "trail_inv t" "var_value t (vidx lit) = 0" "justified F t" "follows F (decisions_upto t lv) lit"
  shows "justified F (assign_at lit lv r t)"
  using assms(3,4) trail_new[OF assms(1,2)] unfolding justified_def by simp

lemma served_assign:
  assumes "trail_inv t" "var_value t (vidx lit) = 0" "served t"
  shows "served (assign_at lit lv r t)"
proof -
  have "holds_at (assign_at lit lv r t) x k" if "holds_at t x k" for x k
    using that trail_new[OF assms(1,2), of x] by (simp add: holds_at_def)
  then show ?thesis using assms(3) unfolding served_def by (simp del: assign_at_simps(1,9)) blast
qed

text \<open>A new level, with decision 0 where the assumption or the constraint holds already.\<close>

lemma new_trail_level_simps [simp]:
  "trail (new_trail_level d t) = trail t" "level (new_trail_level d t) = Suc (level t)"
  "control (new_trail_level d t) = control t @ [\<lparr>decision = d, start = length (trail t)\<rparr>]"
  "assumed_lits (new_trail_level d t) = assumed_lits t" "constraint_lits (new_trail_level d t) = constraint_lits t"
  "vtab (new_trail_level d t) = vtab t" "var_value (new_trail_level d t) = var_value t"
  "base (new_trail_level d t) = base t" "num_assigned (new_trail_level d t) = num_assigned t"
  "propagated (new_trail_level d t) = propagated t" "phases_saved (new_trail_level d t) = phases_saved t"
  "phases_forced (new_trail_level d t) = phases_forced t" "phases_target (new_trail_level d t) = phases_target t"
  by (simp_all add: new_trail_level_def)

lemma new_level_decisions:
  assumes "length (control t) = Suc (level t)"
  shows "k \<le> level t \<Longrightarrow> decisions_upto (new_trail_level d t) k = decisions_upto t k"
    and "d \<noteq> 0 \<Longrightarrow> d \<in> decisions_upto (new_trail_level d t) (Suc (level t))"
  using assms by (auto simp: decisions_upto_def nth_append intro!: bexI[of _ "Suc (level t)"])

lemma new_level_inv:
  assumes "levels_inv opts t"
  shows "base_inv (new_trail_level d t) \<longleftrightarrow> base_inv t" "trail_inv (new_trail_level d t) \<longleftrightarrow> trail_inv t"
    "phases_inv (new_trail_level d t) \<longleftrightarrow> phases_inv t" "lits_inv (new_trail_level d t) \<longleftrightarrow> lits_inv t"
    "levels_inv opts (new_trail_level d t)" "justified F t \<Longrightarrow> justified F (new_trail_level d t)"
proof -
  note d = levels_invD[OF assms]
  show "base_inv (new_trail_level d t) \<longleftrightarrow> base_inv t" "trail_inv (new_trail_level d t) \<longleftrightarrow> trail_inv t"
    "phases_inv (new_trail_level d t) \<longleftrightarrow> phases_inv t" "lits_inv (new_trail_level d t) \<longleftrightarrow> lits_inv t"
    by (simp_all add: base_inv_def trail_inv_def phases_inv_def lits_inv_def)
  show "justified F t \<Longrightarrow> justified F (new_trail_level d t)"
    using d(2) new_level_decisions(1)[OF d(1)] by (simp add: justified_def)
  let ?c = "control t @ [\<lparr>decision = d, start = length (trail t)\<rparr>]"
  have start: "start (?c ! l) = (if l \<le> level t then start (control t ! l) else length (trail t))"
    if "l \<le> Suc (level t)" for l
    using that d(1) by (auto simp: nth_append less_Suc_eq_le)
  have "start (?c ! l) \<le> length (trail t) \<and> (\<forall>m\<in>{1..l}. start (?c ! m) \<le> start (?c ! l)) \<and>
      (\<forall>i < start (?c ! l). lit_level t (trail t ! i) < l) \<and>
      (opt_chrono opts = 0 \<longrightarrow> (\<forall>i<length (trail t). start (?c ! l) \<le> i \<longrightarrow> l \<le> lit_level t (trail t ! i)))"
    if l: "l \<in> {1..Suc (level t)}" for l
  proof (cases "l \<le> level t")
    case True
    then have l: "l \<in> {1..level t}" using l by simp
    have s: "m \<in> {1..l} \<Longrightarrow> start (?c ! m) = start (control t ! m)" for m using True start[of m] by simp
    have sl: "start (?c ! l) = start (control t ! l)" using True start[of l] by simp
    have "\<forall>m\<in>{1..l}. start (?c ! m) \<le> start (control t ! l)"
    proof
      fix m assume m: "m \<in> {1..l}"
      show "start (?c ! m) \<le> start (control t ! l)" unfolding s[OF m] by (rule d(4)[OF l m])
    qed
    then show ?thesis unfolding sl using d(3,5)[OF l] d(6)[OF _ l] by blast
  next
    case False
    then have "l = Suc (level t)" using l by simp
    then have sl: "start (?c ! l) = length (trail t)" using start[of l] by simp
    have "start (?c ! m) \<le> length (trail t)" if "m \<in> {1..l}" for m
      using that l start[of m] d(3)[of m] by (cases "m \<le> level t") auto
    moreover have "\<forall>i<length (trail t). lit_level t (trail t ! i) < l"
      using d(2)[OF nth_mem] False by (auto intro: le_less_trans simp: not_le)
    ultimately show ?thesis unfolding sl by simp
  qed
  then show "levels_inv opts (new_trail_level d t)" using d(1,2) unfolding levels_inv_def by (simp add: le_SucI)
qed

section \<open>Assigning succeeds\<close>

text \<open>The level that \<open>lit\<close> gets from the clause \<open>c\<close>.\<close>

definition clause_level :: "options \<Rightarrow> 'a cdcl \<Rightarrow> int list \<Rightarrow> int \<Rightarrow> nat \<Rightarrow> bool" where
  "clause_level opts t c lit lv \<longleftrightarrow> (\<forall>x\<in>set c. x \<noteq> lit \<longrightarrow> lit_level t x \<le> lv) \<and>
     (if 0 < opt_chrono opts then lv = 0 \<or> (\<exists>x\<in>set c. x \<noteq> lit \<and> lit_level t x = lv) else lv = level t)"

lemma search_assign_rok:
  assumes inv: "trail_inv t" "ok_lit t lit" "var_value t (vidx lit) = 0"
    and reason: "\<And>c. reason = Reason_clause c \<Longrightarrow> \<forall>x\<in>set c. x \<noteq> lit \<longrightarrow> lit_value t x \<noteq> 0 \<and> lit_level t x \<le> level t"
  shows "rok (search_assign opts lit reason t) (\<lambda>t'. \<exists>lv r. t' = assign_at lit lv r t \<and> lv \<le> level t \<and>
    (case reason of No_reason \<Rightarrow> lv = 0 | Decision_reason \<Rightarrow> lv = level t
     | Reason_clause c \<Rightarrow> clause_level opts t c lit lv))"
proof -
  let ?lv = "case reason of No_reason \<Rightarrow> Inr 0 | Decision_reason \<Rightarrow> Inr (level t)
     | Reason_clause c \<Rightarrow> if 0 < opt_chrono opts then assignment_level lit c t else Inr (level t)"
  have "rok ?lv (\<lambda>lv. lv \<le> level t \<and> (case reason of No_reason \<Rightarrow> lv = 0 | Decision_reason \<Rightarrow> lv = level t
     | Reason_clause c \<Rightarrow> clause_level opts t c lit lv))"
  proof (cases reason)
    case (Reason_clause c)
    then show ?thesis using assignment_level_rok[OF reason[OF Reason_clause]] reason[OF Reason_clause]
      by (cases "0 < opt_chrono opts") (auto simp: clause_level_def elim!: rok_weaken)
  qed simp_all
  then obtain lv where lv: "?lv = Inr lv" "lv \<le> level t" "case reason of No_reason \<Rightarrow> lv = 0 | Decision_reason \<Rightarrow> lv = level t
     | Reason_clause c \<Rightarrow> clause_level opts t c lit lv"
    by (elim rokE) blast
  have "length (trail t) < n_vars (base t)" by (rule trail_room[OF inv(1) _ inv(3)]) (use inv(2) in blast)
  then have "search_assign opts lit reason t = Inr (assign_at lit lv
      (if reason = Decision_reason \<or> lv = 0 then No_reason else reason) t)"
    using inv(3) trail_invD(5)[OF inv(1)] unfolding search_assign_def lv(1)
    by (simp add: Let_def assign_at_def set_value_def)
  then show ?thesis using lv(2,3) by auto
qed

text \<open>Units and propagated literals.\<close>

lemma cdcl_invD:
  assumes "cdcl_inv opts F t"
  shows "base_inv t" "trail_inv t" "levels_inv opts t" "justified F t" "served t" "phases_inv t" "lits_inv t"
  using assms by (simp_all add: cdcl_inv_def)

lemma assign_at_cdcl_inv:
  assumes "cdcl_inv opts F t" "ok_lit t lit" "var_value t (vidx lit) = 0" "lv \<le> level t"
    and "opt_chrono opts = 0 \<Longrightarrow> lv = level t" "follows F (decisions_upto t lv) lit"
  shows "cdcl_inv opts F (assign_at lit lv r t)"
proof -
  note d = cdcl_invD[OF assms(1)]
  show ?thesis
    unfolding cdcl_inv_def
    using assign_at_inv[OF d(1,2) assms(2,3)] d(6,7) levels_assign[OF d(2) assms(3) d(3) assms(4,5)]
      justified_assign[OF d(2) assms(3) d(4) assms(6)] served_assign[OF d(2) assms(3) d(5)] by blast
qed

lemma decisions_mono: "k \<le> l \<Longrightarrow> decisions_upto t k \<subseteq> decisions_upto t l"
  by (auto simp: decisions_upto_def)

lemma follows_mono: "follows F D lit \<Longrightarrow> D \<subseteq> E \<Longrightarrow> follows F E lit"
  by (auto simp: follows_def)

lemma follows_clause:
  assumes "implied F c" "\<And>x. x \<in> set c \<Longrightarrow> x \<noteq> lit \<Longrightarrow> x \<noteq> 0 \<and> follows F D (- x)"
  shows "follows F D lit"
  unfolding follows_def
proof (intro allI impI)
  fix v assume v: "sat v F" "\<forall>d\<in>D. lit_true v d"
  then obtain x where x: "x \<in> set c" "lit_true v x" using assms(1) by (auto simp: implied_def)
  show "lit_true v lit"
  proof (rule ccontr)
    assume "\<not> lit_true v lit"
    then have "x \<noteq> lit" using x(2) by blast
    from assms(2)[OF x(1) this] v have "x \<noteq> 0" "lit_true v (- x)" unfolding follows_def by blast+
    with x(2) show False by simp
  qed
qed

lemma unit_rok:
  assumes inv: "cdcl_inv opts F t" and lit: "ok_lit t lit" "lit_value t lit = 0" and F: "implied F [lit]"
    and chrono: "0 < opt_chrono opts \<or> level t = 0"
  shows "rok (search_assign opts lit No_reason t) (\<lambda>t'. cdcl_inv opts F t' \<and> (\<exists>r. t' = assign_at lit 0 r t))"
proof -
  note d = cdcl_invD[OF inv]
  have z: "var_value t (vidx lit) = 0" using lit_value_trail(3)[OF d(2), of lit] lit by simp
  have "follows F (decisions_upto t 0) lit" by (rule follows_clause[OF F]) simp
  then have "cdcl_inv opts F (assign_at lit 0 r t)" for r
    using chrono by (intro assign_at_cdcl_inv[OF inv lit(1) z]) auto
  then show ?thesis by (intro rok_weaken[OF search_assign_rok[OF d(2) lit(1) z]]) auto
qed

text \<open>\<open>c\<close> is unit: all literals but \<open>lit\<close> are false.\<close>

definition unit_for :: "'a cdcl \<Rightarrow> int list \<Rightarrow> int \<Rightarrow> bool" where
  "unit_for t c lit \<longleftrightarrow> lit \<in> set c \<and> lit_value t lit = 0 \<and> (\<forall>x\<in>set c. ok_lit t x \<and> (x \<noteq> lit \<longrightarrow> lit_value t x < 0))"

lemma propagate_rok:
  assumes inv: "cdcl_inv opts F t" and u: "unit_for t c lit" and F: "implied F c"
  shows "rok (search_assign opts lit (Reason_clause c) t)
    (\<lambda>t'. cdcl_inv opts F t' \<and> (\<exists>lv r. t' = assign_at lit lv r t \<and> clause_level opts t c lit lv))"
proof -
  note d = cdcl_invD[OF inv]
  have lit: "ok_lit t lit" using u by (simp add: unit_for_def)
  have z: "var_value t (vidx lit) = 0" using lit_value_trail(3)[OF d(2), of lit] u lit by (simp add: unit_for_def)
  have false: "x \<noteq> 0 \<and> lit_value t x \<noteq> 0 \<and> - x \<in> set (trail t)" if "x \<in> set c" "x \<noteq> lit" for x
    using u that lit_value_trail(2)[OF d(2), of x] by (force simp: unit_for_def)
  then have "\<forall>x\<in>set c. x \<noteq> lit \<longrightarrow> lit_value t x \<noteq> 0 \<and> lit_level t x \<le> level t"
    using levels_invD(2)[OF d(3)] vidx_simps(1) by metis
  from search_assign_rok[OF d(2) lit z, of "Reason_clause c" opts] this
  have r: "rok (search_assign opts lit (Reason_clause c) t) (\<lambda>t'. \<exists>lv r. t' = assign_at lit lv r t \<and> lv \<le> level t \<and>
      clause_level opts t c lit lv)" by simp
  have "cdcl_inv opts F (assign_at lit lv r t)" if lv: "lv \<le> level t" "clause_level opts t c lit lv" for lv r
  proof (rule assign_at_cdcl_inv[OF inv lit z lv(1)])
    show "follows F (decisions_upto t lv) lit"
    proof (rule follows_clause[OF F])
      fix x assume x: "x \<in> set c" "x \<noteq> lit"
      have "follows F (decisions_upto t (lit_level t (- x))) (- x)" using d(4) false[OF x] by (simp only: justified_def)
      moreover have "lit_level t (- x) \<le> lv" using lv(2) x by (simp add: clause_level_def)
      ultimately show "x \<noteq> 0 \<and> follows F (decisions_upto t lv) (- x)"
        using false[OF x] follows_mono decisions_mono by blast
    qed
  qed (use lv(2) in \<open>simp add: clause_level_def\<close>)
  then show ?thesis by (intro rok_weaken[OF r]) blast
qed

section \<open>Decisions\<close>

text \<open>The decision that the next level needs.\<close>

definition serves :: "'a cdcl \<Rightarrow> int \<Rightarrow> bool" where
  "serves t lit \<longleftrightarrow> (level t < length (assumed_lits t) \<longrightarrow> lit = assumed_lits t ! level t) \<and>
     (level t = length (assumed_lits t) \<and> constraint_lits t \<noteq> [] \<longrightarrow> lit \<in> set (constraint_lits t))"

lemma served_new:
  assumes "served t" "length (control t) = Suc (level t)" "\<And>x k. holds_at t x k \<Longrightarrow> holds_at t' x k"
    and "assumed_lits t' = assumed_lits t" "constraint_lits t' = constraint_lits t" "level t' = Suc (level t)"
    and "control t' = control t @ [\<lparr>decision = d, start = length (trail t)\<rparr>]"
    and "serves t lit" "d \<in> {0, lit}" "holds_at t' lit (Suc (level t))"
  shows "served t'"
proof -
  have "decision (control t' ! Suc l) \<in> {0, assumed_lits t ! l} \<and> holds_at t' (assumed_lits t ! l) (Suc l)"
    if l: "l < min (Suc (level t)) (length (assumed_lits t))" for l
  proof (cases "l < level t")
    case True
    then show ?thesis using assms(1-3,7) l by (simp add: served_def nth_append)
  next
    case False
    then have "l = level t" using l by simp
    then show ?thesis using assms(2,7-10) l by (simp add: serves_def nth_append)
  qed
  moreover have "\<exists>c\<in>set (constraint_lits t). holds_at t' c (Suc (length (assumed_lits t)))"
    if "length (assumed_lits t) < Suc (level t)" "constraint_lits t \<noteq> []"
  proof (cases "length (assumed_lits t) < level t")
    case True
    then show ?thesis using assms(1,3) that(2) unfolding served_def by blast
  next
    case False
    then have "level t = length (assumed_lits t)" using that(1) by simp
    then show ?thesis using assms(8,10) that(2) unfolding serves_def by auto
  qed
  ultimately show ?thesis unfolding served_def using assms(4-6) by simp
qed

lemma pseudo_level_inv:
  assumes "cdcl_inv opts F t" "serves t lit" "lit \<in> set (trail t)"
  shows "cdcl_inv opts F (new_trail_level 0 t)"
proof -
  note d = cdcl_invD[OF assms(1)] and n = new_level_inv[OF cdcl_invD(3)[OF assms(1)], where d = 0]
  have "served (new_trail_level 0 t)"
  proof (rule served_new[OF d(5) levels_invD(1)[OF d(3)] _ _ _ _ _ assms(2), where d = 0])
    show "holds_at (new_trail_level 0 t) lit (Suc (level t))"
      using assms(3) levels_invD(2)[OF d(3) assms(3)] by (simp add: holds_at_def)
  qed (simp_all add: holds_at_def)
  with d n show ?thesis by (simp add: cdcl_inv_def)
qed

lemma decision_level_inv:
  assumes inv: "cdcl_inv opts F t" and lit: "ok_lit t lit" "var_value t (vidx lit) = 0" and s: "serves t lit"
  shows "cdcl_inv opts F (assign_at lit (Suc (level t)) r (new_trail_level lit t))" (is "cdcl_inv _ _ ?t")
proof -
  note d = cdcl_invD[OF inv] and n = new_level_inv[OF cdcl_invD(3)[OF inv], where d = lit]
  let ?n = "new_trail_level lit t"
  have z: "ok_lit ?n lit" "var_value ?n (vidx lit) = 0" using lit by simp_all
  have b: "base_inv ?n" "trail_inv ?n" "phases_inv ?n" "lits_inv ?n" "justified F ?n" using n d by simp_all
  have "lit \<in> decisions_upto ?n (Suc (level t))" using new_level_decisions(2)[OF levels_invD(1)[OF d(3)]] lit by blast
  then have "follows F (decisions_upto ?n (Suc (level t))) lit" by (simp add: follows_def)
  moreover have "served ?t"
  proof (rule served_new[OF d(5) levels_invD(1)[OF d(3)] _ _ _ _ _ s, where d = lit])
    fix x k assume "holds_at t x k"
    then show "holds_at ?t x k" using trail_new[OF b(2) z(2), of x] by (simp add: holds_at_def)
  qed (simp_all add: holds_at_def)
  ultimately show ?thesis
    using assign_at_inv[OF b(1,2) z] b(3-5) levels_assign[OF b(2) z(2) n(5), of "Suc (level t)"]
      justified_assign[OF b(2) z(2) b(5)]
    by (simp add: cdcl_inv_def)
qed

lemma assume_decision_rok:
  assumes inv: "cdcl_inv opts F t" and lit: "ok_lit t lit" "var_value t (vidx lit) = 0" and s: "serves t lit"
    and p: "propagated t = length (trail t)"
  shows "rok (search_assume_decision opts lit t)
    (\<lambda>t'. cdcl_inv opts F t' \<and> (\<exists>r. t' = assign_at lit (Suc (level t)) r (new_trail_level lit t)))"
proof -
  note d = cdcl_invD[OF inv] and n = new_level_inv[OF cdcl_invD(3)[OF inv], where d = lit]
  have "trail_inv (new_trail_level lit t)" "ok_lit (new_trail_level lit t) lit"
    "var_value (new_trail_level lit t) (vidx lit) = 0" using n d lit by simp_all
  note r = search_assign_rok[OF this, of Decision_reason opts]
  show ?thesis unfolding search_assume_decision_def using p
    by (auto intro!: rok_weaken[OF r] decision_level_inv[OF inv lit s])
qed

text \<open>The loop over the constraint, with the shifted prefix.\<close>

lemma constraint_loop_result:
  fixes C :: "int list"
  assumes "0 \<notin> set C" "k \<le> length C" "constraint_loop t [k..<length C] (take k (0 # C) @ drop k C) ((0 # C) ! k) un = (cs, p, u, s)"
  shows "if s \<noteq> 0 then \<exists>i<length C. s = C ! i \<and> lit_value t s > 0 \<and> cs = take (Suc i) (0 # C) @ drop (Suc i) C
    else (\<forall>i\<in>{k..<length C}. lit_value t (C ! i) \<le> 0) \<and> cs = take (length C) (0 # C) \<and> p = (0 # C) ! length C \<and>
      (u = un \<or> u \<in> set C \<and> lit_value t u = 0) \<and>
      (u = 0 \<longrightarrow> un = 0 \<and> (\<forall>i\<in>{k..<length C}. lit_value t (C ! i) < 0))"
  using assms(2,3)
proof (induction "length C - k" arbitrary: k un)
  case 0
  then show ?case by auto
next
  case (Suc n)
  then have k: "k < length C" "[k..<length C] = k # [Suc k..<length C]" by (simp_all add: upt_rec)
  let ?cs = "take k (0 # C) @ drop k C"
  have lit: "?cs ! k = C ! k" using k(1) by (simp add: nth_append)
  have upd: "?cs[k := (0 # C) ! k] = take (Suc k) (0 # C) @ drop (Suc k) C"
    using k(1) by (simp add: list_update_append take_Suc_conv_app_nth upd_conv_take_nth_drop Cons_nth_drop_Suc[symmetric]
        del: take_Suc_Cons)
  have next': "(0 # C) ! Suc k = C ! k" by simp
  have ran: "{k..<length C} = insert k {Suc k..<length C}" using k(1) by auto
  define v where "v = lit_value t (C ! k)"
  let ?un = "if un = 0 \<or> better_decision t (C ! k) un then C ! k else un"
  have eq: "constraint_loop t [k..<length C] ?cs ((0 # C) ! k) un =
      (if v < 0 then constraint_loop t [Suc k..<length C] (take (Suc k) (0 # C) @ drop (Suc k) C) ((0 # C) ! Suc k) un
       else if v > 0 then (take (Suc k) (0 # C) @ drop (Suc k) C, C ! k, un, C ! k)
       else constraint_loop t [Suc k..<length C] (take (Suc k) (0 # C) @ drop (Suc k) C) ((0 # C) ! Suc k) ?un)"
    unfolding k(2) constraint_loop.simps Let_def lit upd next' v_def ..
  note IH = Suc.hyps(1)[of "Suc k"]
  consider "v < 0" | "v > 0" | "v = 0" by linarith
  then show ?case
  proof cases
    case 1
    then show ?thesis using IH[of un] Suc.prems(2) k(1) Suc.hyps(2) unfolding eq ran v_def by (auto split: if_splits)
  next
    case 2
    then have r: "cs = take (Suc k) (0 # C) @ drop (Suc k) C" "s = C ! k" using Suc.prems(2) unfolding eq by simp_all
    moreover have "C ! k \<noteq> 0" using assms(1) nth_mem[OF k(1)] by metis
    ultimately show ?thesis using 2 k(1) by (auto simp: v_def)
  next
    case 3
    have un: "?un = un \<or> ?un \<in> set C \<and> lit_value t ?un = 0" "?un \<noteq> 0"
      using 3 assms(1) nth_mem[OF k(1)] by (auto simp: v_def)
    have "n = length C - Suc k" "Suc k \<le> length C" using Suc.hyps(2) k(1) by simp_all
    with IH[of ?un] Suc.prems(2) 3
    have r: "if s \<noteq> 0 then \<exists>i<length C. s = C ! i \<and> lit_value t s > 0 \<and> cs = take (Suc i) (0 # C) @ drop (Suc i) C
      else (\<forall>i\<in>{Suc k..<length C}. lit_value t (C ! i) \<le> 0) \<and> cs = take (length C) (0 # C) \<and> p = (0 # C) ! length C \<and>
        (u = ?un \<or> u \<in> set C \<and> lit_value t u = 0) \<and> u \<noteq> 0"
      unfolding eq using un(2) by (auto split: if_splits)
    show ?thesis
    proof (cases "s = 0")
      case True
      with r 3 un(1) show ?thesis unfolding ran by (auto simp: v_def)
    next
      case False
      with r show ?thesis by simp
    qed
  qed
qed

lemma shift_left:
  "m < length cs \<Longrightarrow> fold (\<lambda>i cs. cs[i := cs ! (i + 1)]) [0..<m] cs = take m (tl cs) @ drop m cs"
proof (induction m)
  case (Suc m)
  let ?ys = "take m (tl cs) @ drop m cs"
  have len: "length (take m (tl cs)) = m" using Suc.prems by simp
  have d: "drop m cs = cs ! m # cs ! Suc m # drop (Suc (Suc m)) cs"
    using Suc.prems by (simp add: Cons_nth_drop_Suc)
  have "?ys ! Suc m = cs ! Suc m" using len by (simp add: nth_append d)
  moreover have "take (Suc m) (tl cs) = take m (tl cs) @ [cs ! Suc m]"
    using Suc.prems by (simp add: take_Suc_conv_app_nth nth_tl)
  moreover have "drop (Suc m) cs = cs ! Suc m # drop (Suc (Suc m)) cs"
    using Suc.prems by (simp add: Cons_nth_drop_Suc)
  ultimately show ?case using Suc len by (simp add: d list_update_append)
qed simp

lemma move_back_shifted: "C \<noteq> [] \<Longrightarrow> move_back (take (length C) (0 # C)) ((0 # C) ! length C) = C"
proof -
  assume C: "C \<noteq> []"
  let ?cs = "take (length C) (0 # C)" and ?m = "length C - 1"
  have m: "?m < length ?cs" "length ?cs = length C" "length C = Suc ?m" using C by simp_all
  have tl: "tl ?cs = take ?m C" using m(3) by (metis list.sel(3) take_Suc_Cons)
  have "fold (\<lambda>i cs. cs[i := cs ! (i + 1)]) [0..<?m] ?cs = take ?m C @ drop ?m ?cs"
    unfolding shift_left[OF m(1)] tl by simp
  moreover obtain x where "drop ?m ?cs = [x]" using m by (cases "drop ?m ?cs") (auto dest!: arg_cong[of _ _ length])
  ultimately have "move_back ?cs ((0 # C) ! length C) = take ?m C @ [(0 # C) ! length C]"
    using m(2) by (simp add: move_back_def Let_def list_update_append)
  moreover have "(0 # C) ! length C = C ! ?m" using C by (simp add: nth_Cons')
  moreover have "take ?m C @ [C ! ?m] = C" using m(3) take_Suc_conv_app_nth[of ?m C] C by simp
  ultimately show ?thesis by simp
qed

lemma cdcl_inv_cong:
  assumes "set cs = set (constraint_lits t)"
  shows "cdcl_inv opts F (t\<lparr>constraint_lits := cs\<rparr>) \<longleftrightarrow> cdcl_inv opts F t"
proof -
  have "cs = [] \<longleftrightarrow> constraint_lits t = []" using assms by (metis set_empty)
  then show ?thesis using assms
    by (simp add: cdcl_inv_def base_inv_def trail_inv_def levels_inv_def justified_def served_def holds_at_def
        phases_inv_def lits_inv_def decisions_upto_def)
qed

lemma cdcl_inv_flags [simp]:
  "cdcl_inv opts F (t\<lparr>unsat_constraint := b\<rparr>) \<longleftrightarrow> cdcl_inv opts F t"
  "cdcl_inv opts F (t\<lparr>marked_failed := b\<rparr>) \<longleftrightarrow> cdcl_inv opts F t"
  by (simp_all add: cdcl_inv_def base_inv_def trail_inv_def levels_inv_def justified_def served_def holds_at_def
        phases_inv_def lits_inv_def decisions_upto_def)

text \<open>No model of the formula satisfies the assumptions and, if there is one, the constraint.\<close>

definition refuted :: "int list list \<Rightarrow> 'a cdcl \<Rightarrow> bool" where
  "refuted F t \<longleftrightarrow> (\<nexists>v. sat v F \<and> (\<forall>a\<in>set (assumed_lits t). lit_true v a) \<and>
     (constraint_lits t \<noteq> [] \<longrightarrow> (\<exists>c\<in>set (constraint_lits t). lit_true v c)))"

text \<open>While only assumptions are decided, the trail follows from the assumptions.\<close>

lemma trail_from_assumptions:
  assumes inv: "cdcl_inv opts F t" and l: "level t \<le> length (assumed_lits t)"
    and v: "sat v F" "\<forall>a\<in>set (assumed_lits t). lit_true v a" and x: "x \<in> set (trail t)"
  shows "lit_true v x"
proof -
  note d = cdcl_invD[OF inv]
  have "decisions_upto t (lit_level t x) \<subseteq> set (assumed_lits t)"
  proof
    fix a assume "a \<in> decisions_upto t (lit_level t x)"
    then obtain k where k: "k \<in> {1..lit_level t x}" "a = decision (control t ! k)" "a \<noteq> 0"
      by (auto simp: decisions_upto_def)
    then obtain k' where k': "k = Suc k'" by (cases k) simp_all
    then have "k' < min (level t) (length (assumed_lits t))" using k(1) levels_invD(2)[OF d(3) x] l by simp
    with d(5) have "decision (control t ! Suc k') \<in> {0, assumed_lits t ! k'}" "k' < length (assumed_lits t)"
      unfolding served_def by simp_all
    then show "a \<in> set (assumed_lits t)" using k(2,3) k' by auto
  qed
  moreover have "follows F (decisions_upto t (lit_level t x)) x" using d(4) x by (simp only: justified_def)
  ultimately show ?thesis using v unfolding follows_def by blast
qed

definition decide_post :: "options \<Rightarrow> int list list \<Rightarrow> 'a::linordered_field cdcl \<Rightarrow> int \<times> 'a cdcl \<Rightarrow> bool" where
  "decide_post opts F t = (\<lambda>(res, t'). cdcl_inv opts F t' \<and> assumed_lits t' = assumed_lits t \<and>
     mset (constraint_lits t') = mset (constraint_lits t) \<and> n_vars (base t') = n_vars (base t) \<and>
     length (trail t') \<le> Suc (length (trail t)) \<and>
     (res = 0 \<and> level t' = Suc (level t) \<or> res = 20 \<and> level t' = level t \<and> trail t' = trail t \<and> refuted F t))"

lemma moved_front: "i < length C \<Longrightarrow> mset (C ! i # take i C @ drop (Suc i) C) = mset C"
  by (metis id_take_nth_drop mset_append mset.simps(2) union_mset_add_mset_right)

lemma assume_post:
  assumes "cdcl_inv opts F t" "ok_lit t lit" "var_value t (vidx lit) = 0" "serves t lit" "propagated t = length (trail t)"
  shows "rok (rbind (search_assume_decision opts lit t) (\<lambda>t. Inr (0, t))) (decide_post opts F t)"
  by (intro rok_bind[OF assume_decision_rok[OF assms]]) (auto simp: decide_post_def)

lemma decide_constraint_rok:
  assumes inv: "cdcl_inv opts F t" and p: "propagated t = length (trail t)"
    and l: "level t = length (assumed_lits t)" and C: "constraint_lits t \<noteq> []"
  shows "rok (decide_constraint opts t) (decide_post opts F t)"
proof -
  note d = cdcl_invD[OF inv]
  let ?C = "constraint_lits t"
  have ok: "ok_lit t c" if "c \<in> set ?C" for c using d(7) that unfolding lits_inv_def by blast
  have ns: "serves t c" if "c \<in> set ?C" for c using that l by (simp add: serves_def)
  obtain cs p' u s where loop: "constraint_loop t [0..<length ?C] ?C 0 0 = (cs, p', u, s)" by (cases "constraint_loop t [0..<length ?C] ?C 0 0") blast
  have "0 \<notin> set ?C" using ok by blast
  from constraint_loop_result[OF this, of 0 t 0 cs p' u s] loop
  have r: "if s \<noteq> 0 then \<exists>i<length ?C. s = ?C ! i \<and> lit_value t s > 0 \<and> cs = take (Suc i) (0 # ?C) @ drop (Suc i) ?C
    else (\<forall>i\<in>{0..<length ?C}. lit_value t (?C ! i) \<le> 0) \<and> cs = take (length ?C) (0 # ?C) \<and> p' = (0 # ?C) ! length ?C \<and>
      (u = 0 \<or> u \<in> set ?C \<and> lit_value t u = 0) \<and> (u = 0 \<longrightarrow> (\<forall>i\<in>{0..<length ?C}. lit_value t (?C ! i) < 0))"
    by (cases "s = 0") simp_all
  consider (sat) "s \<noteq> 0" | (unassigned) "s = 0" "u \<noteq> 0" | (failed) "s = 0" "u = 0" by blast
  then show ?thesis
  proof cases
    case sat
    then obtain i where i: "i < length ?C" "s = ?C ! i" "lit_value t s > 0" "cs = take (Suc i) (0 # ?C) @ drop (Suc i) ?C"
      using r by auto
    let ?cs = "s # take i ?C @ drop (Suc i) ?C" and ?t = "t\<lparr>constraint_lits := cs[0 := s]\<rparr>"
    have cs: "cs[0 := s] = ?cs" using i(4) by simp
    have m: "mset ?cs = mset ?C" using moved_front[OF i(1)] i(2) by simp
    have "cdcl_inv opts F ?t" unfolding cs using inv cdcl_inv_cong[of ?cs t] mset_eq_setD[OF m] by blast
    moreover have "s \<in> set ?C" "s \<in> set (trail t)" using i nth_mem[OF i(1)] lit_value_trail(1)[OF d(2)] ok by auto
    then have "serves ?t s" "s \<in> set (trail ?t)" using ns[of s] l cs by (simp_all add: serves_def)
    ultimately have "cdcl_inv opts F (new_trail_level 0 ?t)" by (rule pseudo_level_inv)
    then show ?thesis using sat m cs by (simp add: decide_constraint_def loop decide_post_def)
  next
    case unassigned
    then have u: "cs = take (length ?C) (0 # ?C)" "p' = (0 # ?C) ! length ?C" "u \<in> set ?C" "lit_value t u = 0" using r by simp_all
    have "var_value t (vidx u) = 0" using lit_value_trail(3)[OF d(2)] ok[OF u(3)] u(4) by blast
    from assume_post[OF inv ok[OF u(3)] this ns[OF u(3)] p] show ?thesis
      using unassigned u(1,2) move_back_shifted[OF C] by (simp add: decide_constraint_def loop)
  next
    case failed
    then have f: "cs = take (length ?C) (0 # ?C)" "p' = (0 # ?C) ! length ?C"
      "\<forall>i\<in>{0..<length ?C}. lit_value t (?C ! i) < 0" using r by simp_all
    have "refuted F t" unfolding refuted_def
    proof (rule notI, elim exE conjE)
      fix v assume v: "sat v F" "\<forall>a\<in>set (assumed_lits t). lit_true v a"
        "?C \<noteq> [] \<longrightarrow> (\<exists>c\<in>set ?C. lit_true v c)"
      then obtain c where c: "c \<in> set ?C" "lit_true v c" using C by blast
      have "lit_value t c < 0" using f(3) c(1) by (auto simp: in_set_conv_nth)
      then have "- c \<in> set (trail t)" using lit_value_trail(2)[OF d(2)] ok[OF c(1)] by blast
      from trail_from_assumptions[OF inv _ v(1,2) this] l c(2) ok[OF c(1)] show False by simp
    qed
    then show ?thesis using failed f(1,2) move_back_shifted[OF C] inv
      by (simp add: decide_constraint_def loop decide_post_def)
  qed
qed

lemma cdcl_inv_base:
  assumes "cdcl_inv opts F t" "\<exists>xs. search_inv b xs" "assigned (internals b) = assigned (internals (base t))"
    and "n_vars b = n_vars (base t)"
  shows "cdcl_inv opts F (t\<lparr>base := b\<rparr>)"
  using assms by (simp add: cdcl_inv_def base_inv_def trail_inv_def levels_inv_def justified_def served_def holds_at_def
        phases_inv_def lits_inv_def decisions_upto_def)

lemma assigned_decide: "next_decision_variable use_scores stab n s = Inr (res, s') \<Longrightarrow> assigned s' = assigned s"
  by (auto simp: next_decision_variable_def next_decision_variable_on_queue_def rbind_def update_queue_unassigned_def
      split: if_splits sum.splits prod.splits)

text \<open>The next decision variable, in a state of the search.\<close>

lemma trail_next_decision_rok:
  assumes inv: "cdcl_inv opts F t" and ex: "\<exists>x\<in>{1..n_vars (base t)}. var_value t x = 0"
  shows "rok (next_decision_variable use_scores (stabs (base t)) (n_vars (base t)) (internals (base t))) (\<lambda>(res, i).
    res \<in> {1..n_vars (base t)} \<and> var_value t res = 0 \<and> btab i = btab (internals (base t)) \<and>
    cdcl_inv opts F (t\<lparr>base := (base t)\<lparr>internals := i\<rparr>\<rparr>))"
proof -
  obtain xs where s: "search_inv (base t) xs" and a: "assigned (internals (base t)) = (\<lambda>i. var_value t i \<noteq> 0)"
    using cdcl_invD(1)[OF inv] by (auto simp: base_inv_def)
  have "\<exists>x\<in>{1..n_vars (base t)}. \<not> assigned (internals (base t)) x" using ex a by simp
  from search_decide_rok[OF s this, of use_scores] obtain res i where
    i: "next_decision_variable use_scores (stabs (base t)) (n_vars (base t)) (internals (base t)) = Inr (res, i)"
      "if use_scores then best (stabs (base t)) {x \<in> {1..n_vars (base t)}. \<not> assigned (internals (base t)) x} res
       else last_bumped (internals (base t)) xs res"
      "search_inv ((base t)\<lparr>internals := i\<rparr>) xs" by (auto elim!: rokE)
  have "res \<in> {1..n_vars (base t)} \<and> \<not> assigned (internals (base t)) res"
  proof (cases use_scores)
    case True
    then have "best (stabs (base t)) {x \<in> {1..n_vars (base t)}. \<not> assigned (internals (base t)) x} res" using i(2) by simp
    then show ?thesis by (simp add: best_def)
  next
    case False
    then have "last_bumped (internals (base t)) xs res" using i(2) by simp
    from last_bumped_max[OF s this] show ?thesis by blast
  qed
  moreover have "cdcl_inv opts F (t\<lparr>base := (base t)\<lparr>internals := i\<rparr>\<rparr>)"
    using i(3) assigned_decide[OF i(1)] by (intro cdcl_inv_base[OF inv]) auto
  ultimately show ?thesis using a btab_decide[OF i(1)] unfolding i(1) by simp
qed

lemma decide_phase_lit:
  assumes "phases_inv t" "0 < idx"
  shows "vidx (decide_phase opts idx target t) = idx" "decide_phase opts idx target t \<noteq> 0"
proof -
  have abs1: "x = - 1 \<or> x = 0 \<or> x = 1" if "\<bar>x\<bar> \<le> 1" for x :: int using that by linarith
  have "decide_phase opts idx target t = int idx \<or> decide_phase opts idx target t = - int idx"
    using abs1[of "phases_saved t idx"] abs1[of "phases_forced t idx"] abs1[of "phases_target t idx"] assms(1)
    by (auto simp: phases_inv_def decide_phase_def Let_def)
  then show "vidx (decide_phase opts idx target t) = idx" "decide_phase opts idx target t \<noteq> 0"
    using assms(2) by auto
qed

text \<open>After the assumptions and the constraint, an unassigned variable exists while \<open>satisfied\<close> fails.\<close>

lemma unassigned_exists:
  assumes inv: "trail_inv t" and p: "propagated t = length (trail t)" and ns: "\<not> satisfied t"
    and l: "length (assumed_lits t) + (if constraint_lits t \<noteq> [] then 1 else 0) \<le> level t"
  shows "\<exists>x\<in>{1..n_vars (base t)}. var_value t x = 0"
proof (rule ccontr)
  assume "\<not> (\<exists>x\<in>{1..n_vars (base t)}. var_value t x = 0)"
  then have "{1..n_vars (base t)} \<subseteq> vidx ` set (trail t)" using trail_invD(4)[OF inv] by blast
  then have "card {1..n_vars (base t)} \<le> card (vidx ` set (trail t))" by (rule card_mono[OF finite_imageI[OF finite_set]])
  then have "n_vars (base t) \<le> length (trail t)" using distinct_card[OF trail_invD(1)[OF inv]] by simp
  then have "n_vars (base t) = num_assigned t" using trail_full(1)[OF inv] trail_invD(5)[OF inv] by simp
  then show False using ns l p by (simp add: satisfied_def not_less split: if_splits)
qed

lemma decide_rok:
  assumes inv: "cdcl_inv opts F t" and p: "propagated t = length (trail t)" and ns: "\<not> satisfied t"
  shows "rok (decide opts t) (decide_post opts F t)"
proof -
  note d = cdcl_invD[OF inv]
  let ?A = "assumed_lits t" and ?C = "constraint_lits t"
  define m where "m = (if level t < length ?A then
             let lit = ?A ! level t; tmp = lit_value t lit
             in if tmp < 0 then Inr (20, t)
                else if tmp > 0 then Inr (0, new_trail_level 0 t)
                else rbind (search_assume_decision opts lit t) (\<lambda>t. Inr (0, t))
           else if level t = length ?A \<and> ?C \<noteq> [] then decide_constraint opts t
           else
             rbind (next_decision_variable (opt_score opts \<and> stable_mode t) (stabs (base t)) (n_vars (base t))
                 (internals (base t))) (\<lambda>(idx, i).
             let t = t\<lparr>base := (base t)\<lparr>internals := i\<rparr>\<rparr>;
                 target = (opt_target opts > 1 \<or> stable_mode t \<and> opt_target opts \<noteq> 0)
             in rbind (search_assume_decision opts (decide_phase opts idx target t) t) (\<lambda>t. Inr (0, t))))"
  have "rok m (decide_post opts F t)"
  proof (cases "level t < length ?A")
    case True
    define lit where "lit = ?A ! level t"
    have ok: "ok_lit t lit" using d(7) True unfolding lits_inv_def lit_def by auto
    have s: "serves t lit" using True by (simp add: serves_def lit_def)
    consider (false) "lit_value t lit < 0" | (true) "lit_value t lit > 0" | (unassigned) "lit_value t lit = 0" by linarith
    then show ?thesis
    proof cases
      case false
      then have "- lit \<in> set (trail t)" using lit_value_trail(2)[OF d(2)] ok by blast
      have "refuted F t" unfolding refuted_def
      proof (rule notI, elim exE conjE)
        fix v assume v: "sat v F" "\<forall>a\<in>set ?A. lit_true v a"
        have "lit_true v (- lit)" using trail_from_assumptions[OF inv less_imp_le[OF True] v] \<open>- lit \<in> set (trail t)\<close> .
        moreover have "lit_true v lit" using v(2) nth_mem[OF True] by (simp add: lit_def)
        ultimately show False using ok by simp
      qed
      then show ?thesis using false True inv by (simp add: m_def lit_def decide_post_def)
    next
      case true
      then have "lit \<in> set (trail t)" using lit_value_trail(1)[OF d(2)] ok by blast
      from pseudo_level_inv[OF inv s this] show ?thesis
        using true True by (simp add: m_def lit_def decide_post_def)
    next
      case unassigned
      then have "var_value t (vidx lit) = 0" using lit_value_trail(3)[OF d(2)] ok by blast
      from assume_post[OF inv ok this s p] show ?thesis using unassigned True by (simp add: m_def lit_def)
    qed
  next
    case False
    show ?thesis
    proof (cases "level t = length ?A \<and> ?C \<noteq> []")
      case True
      then show ?thesis using decide_constraint_rok[OF inv p] by (simp add: m_def)
    next
      case C: False
      then have "length ?A + (if ?C \<noteq> [] then 1 else 0) \<le> level t" using False by auto
      from trail_next_decision_rok[OF inv unassigned_exists[OF d(2) p ns this], of "opt_score opts \<and> stable_mode t"]
      obtain idx i where i: "next_decision_variable (opt_score opts \<and> stable_mode t) (stabs (base t)) (n_vars (base t))
            (internals (base t)) = Inr (idx, i)" "idx \<in> {1..n_vars (base t)}" "var_value t idx = 0"
          "cdcl_inv opts F (t\<lparr>base := (base t)\<lparr>internals := i\<rparr>\<rparr>)" by (auto elim!: rokE)
      let ?t = "t\<lparr>base := (base t)\<lparr>internals := i\<rparr>\<rparr>"
      let ?lit = "decide_phase opts idx (opt_target opts > 1 \<or> stable_mode t \<and> opt_target opts \<noteq> 0) ?t"
      have v: "vidx ?lit = idx" "?lit \<noteq> 0" using decide_phase_lit[OF cdcl_invD(6)[OF i(4)]] i(2) by simp_all
      have "serves ?t ?lit" using False C by (auto simp: serves_def)
      from assume_post[OF i(4) _ _ this] v i(2,3) p
      have "rok (rbind (search_assume_decision opts ?lit ?t) (\<lambda>t. Inr (0, t))) (decide_post opts F ?t)" by simp
      moreover have "decide_post opts F ?t = decide_post opts F t" by (simp add: decide_post_def refuted_def fun_eq_iff)
      ultimately show ?thesis using False C i(1) by (auto simp: m_def Let_def)
    qed
  qed
  then obtain res t' where r: "m = Inr (res, t')" "decide_post opts F t (res, t')" by (auto elim!: rokE)
  have "decide opts t = Inr (res, if res \<noteq> 0 then t'\<lparr>marked_failed := False\<rparr> else t')"
    using ns r(1) unfolding decide_def m_def[symmetric] by simp
  then show ?thesis using r(2) by (auto simp: decide_post_def)
qed

text \<open>When \<open>satisfied\<close> holds, the values form an assignment that the query accepts.\<close>

definition values_of :: "'a cdcl \<Rightarrow> nat \<Rightarrow> bool" where
  "values_of t = (\<lambda>i. var_value t i > 0)"

lemma values_of_lit:
  assumes "trail_inv t" "lit \<in> set (trail t)"
  shows "lit_true (values_of t) lit"
proof -
  have l: "lit \<noteq> 0" "var_value t (vidx lit) = sgn lit" using trail_invD(2,3)[OF assms] by simp_all
  show ?thesis
  proof (cases "0 < lit")
    case True
    then show ?thesis using l(2) by (simp add: lit_true_def values_of_def vidx_def)
  next
    case False
    then show ?thesis using l by (simp add: lit_true_def values_of_def vidx_def)
  qed
qed

lemma satisfied_model:
  assumes inv: "cdcl_inv opts F t" and s: "satisfied t"
  shows "\<forall>i\<in>{1..n_vars (base t)}. var_value t i \<noteq> 0"
    and "a \<in> set (assumed_lits t) \<Longrightarrow> lit_true (values_of t) a"
    and "constraint_lits t \<noteq> [] \<Longrightarrow> \<exists>c\<in>set (constraint_lits t). lit_true (values_of t) c"
    and "(\<And>c. c \<in> set F \<Longrightarrow> \<exists>x\<in>set c. ok_lit t x \<and> lit_value t x \<ge> 0) \<Longrightarrow> sat (values_of t) F"
proof -
  note d = cdcl_invD[OF inv]
  have l: "length (assumed_lits t) + (if constraint_lits t \<noteq> [] then 1 else 0) \<le> level t" "num_assigned t = n_vars (base t)"
    using s by (simp_all add: satisfied_def split: if_splits)
  show all: "\<forall>i\<in>{1..n_vars (base t)}. var_value t i \<noteq> 0"
    using trail_full(2)[OF d(2)] l(2) trail_invD(5)[OF d(2)] by simp
  have h: "holds_at t x k \<Longrightarrow> lit_true (values_of t) x" for x k
    using values_of_lit[OF d(2)] by (simp add: holds_at_def)
  show "lit_true (values_of t) a" if a: "a \<in> set (assumed_lits t)"
  proof -
    obtain k where "k < length (assumed_lits t)" "a = assumed_lits t ! k"
      using a by (metis in_set_conv_nth)
    moreover from this have "k < min (level t) (length (assumed_lits t))" using l(1) by (simp split: if_splits)
    ultimately show ?thesis using d(5) h unfolding served_def by blast
  qed
  show "\<exists>c\<in>set (constraint_lits t). lit_true (values_of t) c" if "constraint_lits t \<noteq> []"
    using d(5) h that l(1) unfolding served_def by (metis Suc_le_eq add.commute plus_1_eq_Suc)
  show "sat (values_of t) F" if F: "\<And>c. c \<in> set F \<Longrightarrow> \<exists>x\<in>set c. ok_lit t x \<and> lit_value t x \<ge> 0"
    unfolding sat_def
  proof
    fix c assume "c \<in> set F"
    then obtain x where x: "x \<in> set c" "ok_lit t x" "lit_value t x \<ge> 0" using F by blast
    moreover have "lit_value t x \<noteq> 0" using lit_value_trail(3)[OF d(2)] all x(2) by blast
    ultimately have "x \<in> set (trail t)" using lit_value_trail(1)[OF d(2), of x] by simp
    then show "\<exists>x\<in>set c. lit_true (values_of t) x" using values_of_lit[OF d(2)] x(1) by blast
  qed
qed

end
