(* ===== verification/Chrono.thy ===== *)
theory Chrono
  imports Trail
begin

text \<open>
  Chronological backtracking and restarts keep the invariants of the trail, the step relation of
  the search on the trail, and what its reachable states guarantee.
\<close>

section \<open>Unassigning\<close>

lemma assigned_unassign: "unassign stab lit s = Inr s' \<Longrightarrow> assigned s' = (assigned s)(vidx lit := False)"
  by (auto simp: unassign_def Let_def rbind_def update_queue_unassigned_def split: if_splits sum.splits)

lemma trail_unassign_rok:
  assumes inv: "base_inv t" and lit: "ok_lit t lit" "lit_value t lit > 0"
  shows "rok (trail_unassign lit t) (\<lambda>t'. base_inv t' \<and> n_vars (base t') = n_vars (base t) \<and>
    t' = t\<lparr>var_value := (var_value t)(vidx lit := 0), base := base t', num_assigned := num_assigned t - 1\<rparr>)"
proof -
  obtain xs where s: "search_inv (base t) xs" and a: "assigned (internals (base t)) = (\<lambda>i. var_value t i \<noteq> 0)"
    using inv by (auto simp: base_inv_def)
  have "assigned (internals (base t)) (vidx lit)" using lit(2) a by (auto simp: lit_value_def split: if_splits)
  from search_unassign_rok[OF s _ this] lit(1) obtain i where
    i: "unassign (stabs (base t)) lit (internals (base t)) = Inr i" "search_inv ((base t)\<lparr>internals := i\<rparr>) xs"
    by (auto elim!: rokE)
  have "assigned i = (\<lambda>x. ((var_value t)(vidx lit := 0)) x \<noteq> 0)" using assigned_unassign[OF i(1)] a by auto
  then show ?thesis using i lit(2) by (auto simp: trail_unassign_def base_inv_def)
qed

section \<open>The loop\<close>

text \<open>Moving the kept literals forward over the removed ones.\<close>

abbreviation kept_of :: "nat \<Rightarrow> (nat \<Rightarrow> Var) \<Rightarrow> int list \<Rightarrow> int list" where
  "kept_of k vt xs \<equiv> filter (\<lambda>l. vlevel (vt (vidx l)) \<le> k) xs"

abbreviation removed_of :: "nat \<Rightarrow> (nat \<Rightarrow> Var) \<Rightarrow> int list \<Rightarrow> int list" where
  "removed_of k vt xs \<equiv> filter (\<lambda>l. \<not> vlevel (vt (vidx l)) \<le> k) xs"

text \<open>The loop changes these fields only.\<close>

definition frame :: "'a cdcl \<Rightarrow> 'a cdcl \<Rightarrow> bool" where
  "frame t0 t \<longleftrightarrow> t = t0\<lparr>trail := trail t, vtab := vtab t, var_value := var_value t, base := base t,
     num_assigned := num_assigned t\<rparr>"

lemma frame_iff: "frame t0 t \<longleftrightarrow>
    (\<exists>xs vt vv b n. t = t0\<lparr>trail := xs, vtab := vt, var_value := vv, base := b, num_assigned := n\<rparr>)"
  unfolding frame_def by (rule iffI, blast) (elim exE, simp)

lemma frame_simps [simp]:
  "frame t t" "frame t0 t \<Longrightarrow> frame t0 (t\<lparr>trail := xs, vtab := vt\<rparr>)"
  "frame t0 t \<Longrightarrow> frame t0 (t\<lparr>var_value := vv, base := b, num_assigned := n\<rparr>)"
proof -
  show "frame t t" by (simp add: frame_def)
qed (unfold frame_iff[of t0 t], auto simp: frame_def)

text \<open>The state after \<open>i\<close> rounds, for the state \<open>t0\<close> before the loop and the start \<open>first\<close>.\<close>

definition loop_inv :: "'a::linordered_field cdcl \<Rightarrow> nat \<Rightarrow> nat \<Rightarrow> nat \<Rightarrow> 'a cdcl \<times> nat \<Rightarrow> bool" where
  "loop_inv t0 k first i = (\<lambda>(t, j).
     let seen = take i (drop first (trail t0)); kept = kept_of k (vtab t0) seen
     in j = first + length kept \<and> base_inv t \<and> n_vars (base t) = n_vars (base t0) \<and>
        frame t0 t \<and>
        trail t = take first (trail t0) @ kept @ drop j (trail t0) \<and>
        (\<forall>x. vlevel (vtab t x) = vlevel (vtab t0 x)) \<and>
        (\<forall>p<j. vtrail (vtab t (vidx ((take first (trail t0) @ kept) ! p))) = p) \<and>
        var_value t = (\<lambda>x. if x \<in> vidx ` set (removed_of k (vtab t0) seen) then 0 else var_value t0 x) \<and>
        num_assigned t + length (removed_of k (vtab t0) seen) = num_assigned t0)"

lemma loop_inv_iff:
  assumes "take i (drop first (trail t0)) = seen" "kept_of k (vtab t0) seen = kept" "removed_of k (vtab t0) seen = removed"
  shows "loop_inv t0 k first i (t, j) \<longleftrightarrow>
    j = first + length kept \<and> base_inv t \<and> n_vars (base t) = n_vars (base t0) \<and> frame t0 t \<and>
    trail t = take first (trail t0) @ kept @ drop j (trail t0) \<and>
    (\<forall>x. vlevel (vtab t x) = vlevel (vtab t0 x)) \<and>
    (\<forall>p<j. vtrail (vtab t (vidx ((take first (trail t0) @ kept) ! p))) = p) \<and>
    var_value t = (\<lambda>x. if x \<in> vidx ` set removed then 0 else var_value t0 x) \<and>
    num_assigned t + length removed = num_assigned t0"
  unfolding loop_inv_def prod.case Let_def assms ..

lemma loop_step:
  assumes inv: "trail_inv t0" and f: "first + i < length (trail t0)" and I: "loop_inv t0 k first i s"
    and chrono: "0 < opt_chrono opts \<or> k < lit_level t0 (trail t0 ! (first + i))"
  shows "rok (backtrack_step opts k (first + i) s) (loop_inv t0 k first (Suc i))"
proof -
  obtain t j where s: "s = (t, j)" by (cases s)
  let ?T = "trail t0"
  define seen where "seen = take i (drop first ?T)"
  define kept where "kept = kept_of k (vtab t0) seen"
  define removed where "removed = removed_of k (vtab t0) seen"
  define lit where "lit = ?T ! (first + i)"
  note d = trail_invD[OF inv]
  have j: "j = first + length kept" and b: "base_inv t" "n_vars (base t) = n_vars (base t0)"
    and t: "frame t0 t"
    and tr: "trail t = take first ?T @ kept @ drop j ?T"
    and lv: "\<And>x. vlevel (vtab t x) = vlevel (vtab t0 x)"
    and pos: "\<And>p. p < j \<Longrightarrow> vtrail (vtab t (vidx ((take first ?T @ kept) ! p))) = p"
    and val: "var_value t = (\<lambda>x. if x \<in> vidx ` set removed then 0 else var_value t0 x)"
    and num: "num_assigned t + length removed = num_assigned t0"
    using I unfolding s loop_inv_iff[OF seen_def[symmetric] kept_def[symmetric] removed_def[symmetric]] by blast+
  have seen': "take (Suc i) (drop first ?T) = seen @ [lit]"
    using f by (simp add: seen_def lit_def take_Suc_conv_app_nth)
  have split: "?T = take first ?T @ (seen @ [lit]) @ drop (Suc i) (drop first ?T)"
    by (simp only: seen'[symmetric] append_take_drop_id)
  have len: "length kept \<le> i"
    unfolding kept_def seen_def by (rule order.trans[OF length_filter_le]) simp
  have lit_in: "lit \<in> set ?T" using f by (simp add: lit_def)
  have dist: "distinct (map vidx (take first ?T @ seen @ [lit]))"
  proof -
    have "distinct (map vidx ((take first ?T @ seen @ [lit]) @ drop (Suc i) (drop first ?T)))"
      using d(1) split by (simp only: append_assoc)
    then show ?thesis unfolding map_append[of _ "take first ?T @ seen @ [lit]"] distinct_append by blast
  qed
  have new: "vidx x \<noteq> vidx lit" if "x \<in> set (take first ?T) \<union> set seen" for x
  proof -
    have "vidx lit \<notin> vidx ` (set (take first ?T) \<union> set seen)" using dist by auto
    with that show ?thesis by (metis image_eqI)
  qed
  have here: "trail t ! (first + i) = lit"
    using f len j by (simp add: tr nth_append lit_def)
  have step: "backtrack_step opts k (first + i) (t, j) =
      (if vlevel (vtab t0 (vidx lit)) > k then rbind (trail_unassign lit t) (\<lambda>t. Inr (t, j))
       else if opt_chrono opts = 0 then Inl OutOfBounds
       else Inr (t\<lparr>trail := (trail t)[j := lit], vtab := (vtab t)(vidx lit := (vtab t (vidx lit))\<lparr>vtrail := j\<rparr>)\<rparr>, j + 1))"
    by (simp add: backtrack_step_def Let_def here lv)
  show ?thesis
  proof (cases "vlevel (vtab t0 (vidx lit)) > k")
    case True
    have k: "kept_of k (vtab t0) (seen @ [lit]) = kept" "removed_of k (vtab t0) (seen @ [lit]) = removed @ [lit]"
      using True by (simp_all add: kept_def removed_def)
    have "vidx lit \<notin> vidx ` set removed" using dist by (auto simp: removed_def)
    then have "var_value t (vidx lit) = sgn lit" using d(3)[OF lit_in] val by simp
    moreover have ok: "ok_lit t lit" using d(2)[OF lit_in] b by simp
    ultimately have "lit_value t lit > 0" by (auto simp: lit_value_def sgn_if split: if_splits)
    note u = trail_unassign_rok[OF b(1) ok this]
    have "loop_inv t0 k first (Suc i) (t', j)" if "base_inv t'" "n_vars (base t') = n_vars (base t)"
        "t' = t\<lparr>var_value := (var_value t)(vidx lit := 0), base := base t', num_assigned := num_assigned t - 1\<rparr>" for t'
    proof -
      have n: "num_assigned t > 0"
      proof -
        have "length (removed @ [lit]) \<le> length (seen @ [lit])" unfolding k(2)[symmetric] by (rule length_filter_le)
        also have "\<dots> \<le> length ?T" by (subst split) simp
        finally show ?thesis using num d(5) by simp
      qed
      have "frame t0 t'" by (subst that(3), rule frame_simps(3)[OF t])
      moreover have "trail t' = trail t" "vtab t' = vtab t" "var_value t' = (var_value t)(vidx lit := 0)"
        "num_assigned t' = num_assigned t - 1" by (subst that(3), simp)+
      ultimately show ?thesis
        unfolding loop_inv_iff[OF seen' k] using that(1,2) b(2) j tr lv pos val num n by (simp add: fun_eq_iff)
    qed
    then show ?thesis using True by (auto simp: s step intro!: rok_bind[OF u])
  next
    case False
    then have c: "0 < opt_chrono opts" using chrono by (simp add: lit_def)
    have jl: "j < length ?T" using len j f by simp
    have kept': "kept_of k (vtab t0) (seen @ [lit]) = kept @ [lit]" "removed_of k (vtab t0) (seen @ [lit]) = removed"
      using False by (simp_all add: kept_def removed_def)
    have lf: "length (take first ?T) = first" using f by simp
    have "(trail t)[j := lit] = take first ?T @ (kept @ [lit]) @ drop (Suc j) ?T"
      using j lf jl Cons_nth_drop_Suc[OF jl, symmetric] by (simp add: tr list_update_append)
    moreover have "vtrail (((vtab t)(vidx lit := (vtab t (vidx lit))\<lparr>vtrail := j\<rparr>)) (vidx ((take first ?T @ kept @ [lit]) ! p))) = p"
      if p: "p < Suc j" for p
    proof (cases "p = j")
      case True
      then show ?thesis using j lf by (simp add: nth_append)
    next
      case False
      then have p: "p < j" using p by simp
      have e: "(take first ?T @ kept @ [lit]) ! p = (take first ?T @ kept) ! p"
      proof -
        have "p < length (take first ?T @ kept)" using p j lf by simp
        then have "((take first ?T @ kept) @ [lit]) ! p = (take first ?T @ kept) ! p" by (rule nth_append_left)
        then show ?thesis by (simp only: append_assoc)
      qed
      have "(take first ?T @ kept) ! p \<in> set (take first ?T @ kept)" using p j lf by (intro nth_mem) simp
      then have "vidx ((take first ?T @ kept) ! p) \<noteq> vidx lit" by (intro new) (auto simp: kept_def)
      then show ?thesis using pos[OF p] by (simp add: e)
    qed
    moreover have "base_inv (t\<lparr>trail := xs, vtab := f\<rparr>)" for xs f using b(1) by (simp add: base_inv_def)
    ultimately have "loop_inv t0 k first (Suc i) (t\<lparr>trail := (trail t)[j := lit], vtab := (vtab t)(vidx lit := (vtab t (vidx lit))\<lparr>vtrail := j\<rparr>)\<rparr>, j + 1)"
      unfolding loop_inv_iff[OF seen' kept'] using b t val num j lv by simp
    then show ?thesis using False c by (simp add: s step)
  qed
qed

section \<open>Backtracking\<close>

lemma update_target_and_best_simps [simp]:
  "trail (update_target_and_best t) = trail t" "level (update_target_and_best t) = level t"
  "control (update_target_and_best t) = control t" "assumed_lits (update_target_and_best t) = assumed_lits t"
  "constraint_lits (update_target_and_best t) = constraint_lits t" "propagated (update_target_and_best t) = propagated t"
  "num_assigned (update_target_and_best t) = num_assigned t" "var_value (update_target_and_best t) = var_value t"
  "vtab (update_target_and_best t) = vtab t" "base (update_target_and_best t) = base t"
  "phases_saved (update_target_and_best t) = phases_saved t" "phases_forced (update_target_and_best t) = phases_forced t"
  "conflicts (update_target_and_best t) = conflicts t"
  by (simp_all add: update_target_and_best_def Let_def)

lemma update_target_and_best_inv:
  assumes "cdcl_inv opts F t"
  shows "cdcl_inv opts F (update_target_and_best t)"
proof -
  have p: "phases_target (update_target_and_best t) i \<in> {phases_target t i, phases_saved t i}" for i
    by (simp add: update_target_and_best_def Let_def copy_phases_def)
  have "\<bar>phases_target (update_target_and_best t) i\<bar> \<le> 1" for i
    using p[of i] cdcl_invD(6)[OF assms] by (auto simp: phases_inv_def)
  then show ?thesis using assms
    by (simp add: cdcl_inv_def base_inv_def trail_inv_def levels_inv_def justified_def served_def holds_at_def
        phases_inv_def lits_inv_def decisions_upto_def)
qed

text \<open>The invariants of a state whose trail lost the literals above level \<open>k\<close>.\<close>

lemma shrink_inv:
  assumes inv: "cdcl_inv opts F t0" and k: "k < level t0" and first: "first = start (control t0 ! Suc k)"
    and b: "base_inv t" "n_vars (base t) = n_vars (base t0)"
    and tr: "trail t = take first (trail t0) @ kept_of k (vtab t0) (drop first (trail t0))"
    and lv: "\<And>x. vlevel (vtab t x) = vlevel (vtab t0 x)"
    and pos: "\<And>p. p < length (trail t) \<Longrightarrow> vtrail (vtab t (vidx (trail t ! p))) = p"
    and val: "var_value t = (\<lambda>x. if x \<in> vidx ` set (removed_of k (vtab t0) (drop first (trail t0))) then 0 else var_value t0 x)"
    and num: "num_assigned t = length (trail t)" "propagated t \<le> first" "propagated t \<le> propagated t0"
    and ctl: "control t = take (Suc k) (control t0)" "level t = k"
    and same: "assumed_lits t = assumed_lits t0" "constraint_lits t = constraint_lits t0"
      "phases_saved t = phases_saved t0" "phases_forced t = phases_forced t0" "phases_target t = phases_target t0"
  shows "cdcl_inv opts F t \<and> trail t = kept_of k (vtab t0) (trail t0)"
proof -
  let ?T = "trail t0"
  note d = cdcl_invD[OF inv] and td = trail_invD[OF cdcl_invD(2)[OF inv]] and l = levels_invD[OF cdcl_invD(3)[OF inv]]
  have k': "Suc k \<in> {1..level t0}" using k by simp
  have f: "first \<le> length ?T" using l(3)[OF k'] first by simp
  have low: "lit_level t0 x \<le> k" if "x \<in> set (take first ?T)" for x
    using that l(5)[OF k'] f unfolding first[symmetric] by (auto simp: in_set_conv_nth less_Suc_eq_le)
  have "kept_of k (vtab t0) (take first ?T) = take first ?T" using low by (simp add: filter_id_conv)
  then have trf: "trail t = kept_of k (vtab t0) ?T"
    unfolding tr by (metis append_take_drop_id filter_append)
  have "removed_of k (vtab t0) (take first ?T) = []" using low by (simp add: filter_empty_conv)
  then have "removed_of k (vtab t0) ?T = removed_of k (vtab t0) (drop first ?T)"
    by (metis append_take_drop_id filter_append append_Nil)
  then have val': "var_value t = (\<lambda>x. if x \<in> vidx ` {x \<in> set ?T. \<not> lit_level t0 x \<le> k} then 0 else var_value t0 x)"
    using val by (metis set_filter)
  have prefix: "trail t ! i = ?T ! i" if "i < first" for i using that f by (simp add: tr nth_append)
  have "ok_lit t x \<and> var_value t (vidx x) = sgn x" if "x \<in> set (trail t)" for x
  proof -
    have x: "x \<in> set ?T" "lit_level t0 x \<le> k" using that by (simp_all add: trf)
    then have "vidx x \<notin> vidx ` {x \<in> set ?T. \<not> lit_level t0 x \<le> k}" by auto
    then show ?thesis using td(2,3)[OF x(1)] b(2) by (simp add: val')
  qed
  moreover have "i \<in> vidx ` set (trail t)" if "var_value t i \<noteq> 0" for i
  proof -
    have i: "i \<notin> vidx ` {x \<in> set ?T. \<not> lit_level t0 x \<le> k}" "i \<in> vidx ` set ?T"
      using that td(4)[of i] by (auto simp: val' split: if_splits)
    then show ?thesis by (auto simp: trf)
  qed
  moreover have "distinct (map vidx (trail t))" unfolding trf using td(1) by (rule distinct_map_filter)
  moreover have "propagated t \<le> length (trail t)" using num(2) f by (simp add: tr)
  ultimately have "trail_inv t" using num(1) pos unfolding trail_inv_def by blast
  moreover have "levels_inv opts t"
  proof -
    have st: "start (control t ! m) = start (control t0 ! m)" if "m \<le> k" for m using that by (simp add: ctl)
    have "start (control t ! m) \<le> length (trail t) \<and> (\<forall>n\<in>{1..m}. start (control t ! n) \<le> start (control t ! m)) \<and>
        (\<forall>i < start (control t ! m). lit_level t (trail t ! i) < m) \<and>
        (opt_chrono opts = 0 \<longrightarrow> (\<forall>i<length (trail t). start (control t ! m) \<le> i \<longrightarrow> m \<le> lit_level t (trail t ! i)))"
      if m: "m \<in> {1..k}" for m
    proof -
      have m': "m \<in> {1..level t0}" "m \<in> {1..Suc k}" using m k by simp_all
      have sf: "start (control t0 ! m) \<le> first" unfolding first by (rule l(4)[OF k' m'(2)])
      have "\<forall>n\<in>{1..m}. start (control t ! n) \<le> start (control t0 ! m)" using l(4)[OF m'(1)] st m by simp
      moreover have "\<forall>i < start (control t0 ! m). lit_level t (trail t ! i) < m"
        using l(5)[OF m'(1)] prefix sf lv by simp
      moreover have "m \<le> lit_level t (trail t ! i)" if "opt_chrono opts = 0" "i < length (trail t)" "start (control t0 ! m) \<le> i" for i
      proof -
        have "\<forall>x\<in>set (drop first ?T). k < lit_level t0 x"
          using l(6)[OF that(1) k', unfolded first[symmetric]] by (auto simp: in_set_conv_nth Suc_le_eq)
        then have "trail t = take first ?T" unfolding tr by (simp add: filter_empty_conv not_le)
        then have "i < first" "i < length ?T" using that(2) by simp_all
        then show ?thesis using l(6)[OF that(1) m'(1) _ that(3)] prefix lv by simp
      qed
      ultimately show ?thesis using sf f m st[of m] by (simp add: tr)
    qed
    moreover have "length (control t) = Suc k" using l(1) k by (simp add: ctl)
    moreover have "\<forall>x\<in>set (trail t). lit_level t x \<le> k" by (simp add: trf lv)
    ultimately show ?thesis unfolding levels_inv_def ctl(2) by simp
  qed
  moreover have dec: "decisions_upto t m = decisions_upto t0 m" if "m \<le> k" for m
    using that by (auto simp: decisions_upto_def ctl intro!: bexI)
  have "justified F t" using d(4) dec unfolding justified_def by (simp add: trf lv)
  moreover have "served t"
  proof -
    have h: "holds_at t x (Suc m)" if "holds_at t0 x (Suc m)" "m < k" for x m
      using that by (simp add: holds_at_def trf lv)
    show ?thesis using d(5) k h unfolding served_def ctl same by (auto simp: not_le intro: h)
  qed
  ultimately show ?thesis
    using trf b d(6,7) same unfolding cdcl_inv_def by (simp add: phases_inv_def lits_inv_def)
qed

definition backtrack_post :: "options \<Rightarrow> int list list \<Rightarrow> nat \<Rightarrow> 'a::linordered_field cdcl \<Rightarrow> 'a cdcl \<Rightarrow> bool" where
  "backtrack_post opts F k t t' \<longleftrightarrow> cdcl_inv opts F t' \<and> level t' = k \<and>
     trail t' = filter (\<lambda>lit. lit_level t lit \<le> k) (trail t) \<and> control t' = take (Suc k) (control t) \<and>
     (\<forall>x. vlevel (vtab t' x) = vlevel (vtab t x)) \<and> n_vars (base t') = n_vars (base t) \<and>
     assumed_lits t' = assumed_lits t \<and> constraint_lits t' = constraint_lits t \<and>
     propagated t' = (if k < level t then min (propagated t) (start (control t ! Suc k)) else propagated t)"

lemma backtrack_rok:
  assumes inv: "cdcl_inv opts F t" and k: "k \<le> level t"
  shows "rok (backtrack opts k t) (backtrack_post opts F k t)"
proof (cases "k = level t")
  case True
  have "filter (\<lambda>lit. lit_level t lit \<le> k) (trail t) = trail t"
    using levels_invD(2)[OF cdcl_invD(3)[OF inv]] True by (simp add: filter_id_conv)
  then show ?thesis using True inv levels_invD(1)[OF cdcl_invD(3)[OF inv]]
    by (simp add: backtrack_def backtrack_post_def)
next
  case False
  then have k: "k < level t" using k by simp
  define t0 where "t0 = update_target_and_best t"
  have inv0: "cdcl_inv opts F t0" unfolding t0_def by (rule update_target_and_best_inv[OF inv])
  note d = cdcl_invD[OF inv0] and td = trail_invD[OF cdcl_invD(2)[OF inv0]] and l = levels_invD[OF cdcl_invD(3)[OF inv0]]
  let ?T = "trail t0"
  define first where "first = start (control t0 ! Suc k)"
  have k0: "k < level t0" using k by (simp add: t0_def)
  then have k': "Suc k \<in> {1..level t0}" by simp
  have f: "first \<le> length ?T" using l(3)[OF k'] by (simp add: first_def)
  let ?n = "length ?T - first"
  have drop: "[first..<length ?T] = map ((+) first) [0..<?n]" by (rule nth_equalityI) (use f in simp_all)
  have "rok (rfold (\<lambda>i. backtrack_step opts k (first + i)) [0..<?n] (t0, first)) (loop_inv t0 k first ?n)"
  proof (rule rok_for)
    show "loop_inv t0 k first 0 (t0, first)"
      using d(1) f td(5,7) by (simp add: loop_inv_def Let_def)
    fix i s assume "i < ?n" "loop_inv t0 k first i s"
    moreover from this(1) have i: "first + i < length ?T" by simp
    moreover have "0 < opt_chrono opts \<or> k < lit_level t0 (?T ! (first + i))"
      using l(6)[OF _ k' i] by (cases "0 < opt_chrono opts") (auto simp: first_def)
    ultimately show "rok (backtrack_step opts k (first + i) s) (loop_inv t0 k first (Suc i))"
      by (intro loop_step[OF d(2)])
  qed
  then obtain t1 j where loop: "rfold (backtrack_step opts k) [first..<length ?T] (t0, first) = Inr (t1, j)"
      "loop_inv t0 k first ?n (t1, j)"
    unfolding drop rfold_map by (auto elim!: rokE)
  define kp where "kp = kept_of k (vtab t0) (drop first ?T)"
  define rm where "rm = removed_of k (vtab t0) (drop first ?T)"
  have j: "j = first + length kp" and b: "base_inv t1" "n_vars (base t1) = n_vars (base t0)" and fr: "frame t0 t1"
    and tr: "trail t1 = take first ?T @ kp @ drop j ?T" and lv: "\<And>x. vlevel (vtab t1 x) = vlevel (vtab t0 x)"
    and pos: "\<And>p. p < j \<Longrightarrow> vtrail (vtab t1 (vidx ((take first ?T @ kp) ! p))) = p"
    and val: "var_value t1 = (\<lambda>x. if x \<in> vidx ` set rm then 0 else var_value t0 x)"
    and num: "num_assigned t1 + length rm = num_assigned t0"
  proof -
    have "take ?n (drop first ?T) = drop first ?T" by simp
    from loop(2)[unfolded loop_inv_iff[OF this kp_def[symmetric] rm_def[symmetric]]]
    show "j = first + length kp" "base_inv t1" "n_vars (base t1) = n_vars (base t0)" "frame t0 t1"
      "trail t1 = take first ?T @ kp @ drop j ?T" "\<And>x. vlevel (vtab t1 x) = vlevel (vtab t0 x)"
      "\<And>p. p < j \<Longrightarrow> vtrail (vtab t1 (vidx ((take first ?T @ kp) ! p))) = p"
      "var_value t1 = (\<lambda>x. if x \<in> vidx ` set rm then 0 else var_value t0 x)"
      "num_assigned t1 + length rm = num_assigned t0" by blast+
  qed
  have same: "control t1 = control t0" "assumed_lits t1 = assumed_lits t0" "constraint_lits t1 = constraint_lits t0"
    "phases_saved t1 = phases_saved t0" "phases_forced t1 = phases_forced t0" "phases_target t1 = phases_target t0"
    "propagated t1 = propagated t0"
    using fr unfolding frame_iff by auto
  have take_j: "take j (trail t1) = take first ?T @ kp" using f by (simp add: tr j)
  have "length kp + length rm = length (drop first ?T)" unfolding kp_def rm_def by (rule sum_length_filter_compl)
  then have n: "num_assigned t1 = j" using num td(5) f j by simp
  define tF where "tF = (let t = t1\<lparr>trail := take j (trail t1)\<rparr>;
                    t = (if propagated t > first then t\<lparr>propagated := first\<rparr> else t);
                    t = (if propagated2 t > first then t\<lparr>propagated2 := first\<rparr> else t);
                    t = (if no_conflict_until t > first then t\<lparr>no_conflict_until := first\<rparr> else t)
      in t\<lparr>control := take (k + 1) (control t), level := k\<rparr>)"
  have F: "trail tF = take first ?T @ kp" "control tF = take (Suc k) (control t0)" "level tF = k" "vtab tF = vtab t1"
    "var_value tF = var_value t1" "base tF = base t1" "num_assigned tF = j" "assumed_lits tF = assumed_lits t0"
    "constraint_lits tF = constraint_lits t0" "phases_saved tF = phases_saved t0"
    "phases_forced tF = phases_forced t0" "phases_target tF = phases_target t0"
    "propagated tF = min (propagated t0) first"
    by (simp_all add: tF_def Let_def take_j same n)
  have inv': "cdcl_inv opts F tF \<and> trail tF = kept_of k (vtab t0) ?T"
  proof (rule shrink_inv[OF inv0 k0 first_def, of tF])
    show "base_inv tF" using b(1) by (simp add: base_inv_def F)
    show "\<And>p. p < length (trail tF) \<Longrightarrow> vtrail (vtab tF (vidx (trail tF ! p))) = p"
      using pos f j by (simp add: F)
  qed (use b lv val f j in \<open>simp_all add: F kp_def rm_def\<close>)
  have "backtrack opts k t = Inr tF"
  proof -
    have "num_assigned tF = length (trail tF)" using f j by (simp add: F)
    then show ?thesis
      using k loop(1) td(5)
      by (simp add: backtrack_def Let_def t0_def[symmetric] first_def[symmetric] tF_def[unfolded Let_def])
  qed
  then show ?thesis using inv' lv F k unfolding backtrack_post_def by (simp add: t0_def b first_def)
qed

section \<open>Restarting\<close>

definition worse :: "options \<Rightarrow> 'a::linordered_field cdcl \<Rightarrow> int \<Rightarrow> nat \<Rightarrow> bool" where
  "worse opts t lit next_var \<longleftrightarrow>
     (if opt_score opts \<and> stable_mode t then score_smaller (stabs (base t)) (vidx lit) next_var
      else btab (internals (base t)) (vidx lit) < btab (internals (base t)) next_var)"

definition trivial_levels :: "'a cdcl \<Rightarrow> nat" where
  "trivial_levels t = length (assumed_lits t)
     + (if decision (control t ! (length (assumed_lits t) + 1)) = 0 then 1 else 0)"

text \<open>Levels between the trivial ones and \<open>k\<close>: no decision there is worse than an unassigned variable.\<close>

definition reused_upto :: "options \<Rightarrow> 'a::linordered_field cdcl \<Rightarrow> nat \<Rightarrow> bool" where
  "reused_upto opts t k \<longleftrightarrow> k = trivial_levels t \<or>
     (\<exists>x\<in>{1..n_vars (base t)}. var_value t x = 0 \<and>
        (\<forall>l\<in>{Suc (trivial_levels t)..k}. decision (control t ! l) \<noteq> 0 \<longrightarrow> \<not> worse opts t (decision (control t ! l)) x))"

lemma reuse_trail_rok:
  assumes inv: "cdcl_inv opts F t" and ex: "\<exists>x\<in>{1..n_vars (base t)}. var_value t x = 0"
    and lv: "length (assumed_lits t) + 2 \<le> level t"
  shows "rok (reuse_trail opts t) (\<lambda>(k, t'). trivial_levels t \<le> k \<and> k \<le> level t \<and> reused_upto opts t k \<and>
    cdcl_inv opts F t' \<and> t' = t\<lparr>base := base t'\<rparr> \<and> n_vars (base t') = n_vars (base t))"
proof (cases "opt_restartreusetrail opts")
  case False
  then show ?thesis using inv lv levels_invD(1)[OF cdcl_invD(3)[OF inv]]
    by (simp add: reuse_trail_def reused_upto_def trivial_levels_def)
next
  case True
  from trail_next_decision_rok[OF inv ex, of "opt_score opts \<and> stable_mode t"]
  obtain x i where i: "next_decision_variable (opt_score opts \<and> stable_mode t) (stabs (base t)) (n_vars (base t))
        (internals (base t)) = Inr (x, i)" "x \<in> {1..n_vars (base t)}" "var_value t x = 0"
      "btab i = btab (internals (base t))" "cdcl_inv opts F (t\<lparr>base := (base t)\<lparr>internals := i\<rparr>\<rparr>)" by (auto elim!: rokE)
  let ?t = "t\<lparr>base := (base t)\<lparr>internals := i\<rparr>\<rparr>"
  let ?I = "\<lambda>res. trivial_levels t \<le> res \<and> res \<le> level t \<and>
    (\<forall>l\<in>{Suc (trivial_levels t)..res}. decision (control t ! l) \<noteq> 0 \<longrightarrow> \<not> worse opts t (decision (control t ! l)) x)"
  define body where "body = (\<lambda>res. if \<not> res < level t then Inr (Break res)
     else Inr (if decision (control t ! (res + 1)) \<noteq> 0 \<and> worse opts t (decision (control t ! (res + 1))) x
               then Break res else Continue (res + 1)) :: (nat, nat) step result)"
  have "rok (rloop (level t + 1) body (trivial_levels t)) ?I"
  proof (rule rok_rloop[where I = ?I and \<mu> = "\<lambda>res. level t - res"])
    show "?I (trivial_levels t)" using lv by (simp add: trivial_levels_def)
    fix res assume I: "?I res"
    have ran: "{Suc (trivial_levels t)..Suc res} = insert (Suc res) {Suc (trivial_levels t)..res}" using I by auto
    show "rok (body res) (\<lambda>s. case s of Continue s' \<Rightarrow> ?I s' \<and> level t - s' < level t - res | Break r \<Rightarrow> ?I r)"
      using I unfolding body_def by (auto simp: ran)
  qed simp
  then obtain k where k: "rloop (level t + 1) body (trivial_levels t) = Inr k" "?I k" by (elim rokE) blast
  have "reuse_step opts ?t x = body"
    by (rule ext) (simp add: reuse_step_def body_def worse_def Let_def i(4))
  then have "reuse_trail opts t = Inr (k, ?t)"
    using True lv levels_invD(1)[OF cdcl_invD(3)[OF inv]] i(1,2,4) k(1)
    by (simp add: reuse_trail_def trivial_levels_def Let_def del: rloop.simps)
  then show ?thesis using k(2) i(2,3,5) by (auto simp: reused_upto_def)
qed

lemma cdcl_inv_lim [simp]: "cdcl_inv opts F (t\<lparr>lim_restart := n\<rparr>) \<longleftrightarrow> cdcl_inv opts F t"
  by (simp add: cdcl_inv_def base_inv_def trail_inv_def levels_inv_def justified_def served_def holds_at_def
        phases_inv_def lits_inv_def decisions_upto_def)

lemma restart_rok:
  assumes inv: "cdcl_inv opts F t" and p: "propagated t = length (trail t)" and ns: "\<not> satisfied t"
    and lv: "length (assumed_lits t) + 2 \<le> level t"
  shows "rok (restart opts t) (\<lambda>t'. trivial_levels t \<le> level t' \<and> level t' \<le> level t \<and> reused_upto opts t (level t') \<and>
    backtrack_post opts F (level t') t t')"
proof -
  have "length (assumed_lits t) + (if constraint_lits t \<noteq> [] then 1 else 0) \<le> level t" using lv by simp
  from reuse_trail_rok[OF inv unassigned_exists[OF cdcl_invD(2)[OF inv] p ns this] lv]
  obtain k t1 where k: "reuse_trail opts t = Inr (k, t1)" "trivial_levels t \<le> k" "k \<le> level t" "reused_upto opts t k"
      "cdcl_inv opts F t1" and t1: "t1 = t\<lparr>base := base t1\<rparr>" "n_vars (base t1) = n_vars (base t)" by (auto elim!: rokE)
  have f: "level t1 = level t" "trail t1 = trail t" "vtab t1 = vtab t" "control t1 = control t"
    "assumed_lits t1 = assumed_lits t" "constraint_lits t1 = constraint_lits t" "propagated t1 = propagated t"
    by (subst t1(1), simp)+
  have "k \<le> level t1" using k(3) f by simp
  from backtrack_rok[OF k(5) this] obtain t2 where t2: "backtrack opts k t1 = Inr t2" "backtrack_post opts F k t1 t2"
    by (elim rokE)
  have "restart opts t = Inr (t2\<lparr>lim_restart := conflicts t2 + opt_restartint opts\<rparr>)"
    by (simp add: restart_def k(1) t2(1))
  then show ?thesis using k(2-4) t2(2) f t1(2) by (simp add: backtrack_post_def)
qed

section \<open>The search on the trail\<close>

text \<open>
  A fresh solver for the assumptions \<open>A\<close> and the constraint \<open>C\<close>, and the steps of the search: decisions
  after complete propagation, learned units, propagation and driving clauses that the formula \<open>F\<close> implies, the progress
  of the propagation, backtracking, restarts, bumping, and changes of counters, mode and saved phases.
\<close>

definition fresh :: "int list \<Rightarrow> int list \<Rightarrow> 'a::linordered_field cdcl \<Rightarrow> bool" where
  "fresh A C t \<longleftrightarrow> (\<exists>xs. search_inv (base t) xs) \<and> assigned (internals (base t)) = (\<lambda>_. False) \<and>
     var_value t = (\<lambda>_. 0) \<and> trail t = [] \<and> control t = [\<lparr>decision = 0, start = 0\<rparr>] \<and> level t = 0 \<and>
     num_assigned t = 0 \<and> propagated t = 0 \<and> assumed_lits t = A \<and> constraint_lits t = C \<and>
     phases_inv t \<and> lits_inv t"

inductive cdcl_step :: "options \<Rightarrow> int list list \<Rightarrow> 'a::linordered_field cdcl \<Rightarrow> 'a cdcl \<Rightarrow> bool"
  for opts :: options and F :: "int list list" where
  Decide: "propagated t = length (trail t) \<Longrightarrow> \<not> satisfied t \<Longrightarrow> decide opts t = Inr (res, t') \<Longrightarrow> cdcl_step opts F t t'"
| Unit: "ok_lit t lit \<Longrightarrow> lit_value t lit = 0 \<Longrightarrow> implied F [lit] \<Longrightarrow> 0 < opt_chrono opts \<or> level t = 0 \<Longrightarrow>
    search_assign_driving opts lit No_reason t = Inr t' \<Longrightarrow> cdcl_step opts F t t'"
| Propagate: "unit_for t c lit \<Longrightarrow> implied F c \<Longrightarrow>
    search_assign_driving opts lit (Reason_clause c) t = Inr t' \<Longrightarrow> cdcl_step opts F t t'"
| Propagated: "p \<le> length (trail t) \<Longrightarrow> cdcl_step opts F t (t\<lparr>propagated := p\<rparr>)"
| Backtrack: "k \<le> level t \<Longrightarrow> backtrack opts k t = Inr t' \<Longrightarrow> cdcl_step opts F t t'"
| Restart: "propagated t = length (trail t) \<Longrightarrow> \<not> satisfied t \<Longrightarrow> length (assumed_lits t) + 2 \<le> level t \<Longrightarrow>
    restart opts t = Inr t' \<Longrightarrow> cdcl_step opts F t t'"
| Bump: "analyzed_ok analyzed scorefactor junk (base t) \<Longrightarrow>
    Internal_bump_variables use_scores scorefactor limit junk analyzed (base t) = Inr b \<Longrightarrow>
    cdcl_step opts F t (t\<lparr>base := b\<rparr>)"
| Counters: "cdcl_step opts F t (t\<lparr>propagated2 := p, no_conflict_until := n, conflicts := c, rephased := r,
    last_rephase_conflicts := l, stable_mode := st, marked_failed := mf\<rparr>)"
| Rephase: "\<forall>i. \<bar>ph i\<bar> \<le> 1 \<Longrightarrow> cdcl_step opts F t (t\<lparr>phases_saved := ph\<rparr>)"

inductive cdcl_reachable :: "options \<Rightarrow> int list list \<Rightarrow> int list \<Rightarrow> int list \<Rightarrow> 'a::linordered_field cdcl \<Rightarrow> bool"
  for opts :: options and F :: "int list list" and A C :: "int list" where
  Start: "fresh A C t \<Longrightarrow> cdcl_reachable opts F A C t"
| Step: "cdcl_reachable opts F A C t \<Longrightarrow> cdcl_step opts F t t' \<Longrightarrow> cdcl_reachable opts F A C t'"

text \<open>The invariant, with the query; the constraint is permuted only.\<close>

definition query_inv :: "options \<Rightarrow> int list list \<Rightarrow> int list \<Rightarrow> int list \<Rightarrow> 'a::linordered_field cdcl \<Rightarrow> bool" where
  "query_inv opts F A C t \<longleftrightarrow> cdcl_inv opts F t \<and> assumed_lits t = A \<and> mset (constraint_lits t) = mset C"

lemma fresh_inv: "fresh A C t \<Longrightarrow> query_inv opts F A C t"
  by (auto simp: fresh_def query_inv_def cdcl_inv_def base_inv_def trail_inv_def levels_inv_def justified_def served_def)

lemma cdcl_inv_other:
  assumes "cdcl_inv opts F t"
  shows "p \<le> length (trail t) \<Longrightarrow> cdcl_inv opts F (t\<lparr>propagated := p\<rparr>)"
    and "cdcl_inv opts F (t\<lparr>propagated2 := p, no_conflict_until := n, conflicts := c, rephased := r,
      last_rephase_conflicts := l, stable_mode := st, marked_failed := mf\<rparr>)"
    and "\<forall>i. \<bar>ph i\<bar> \<le> 1 \<Longrightarrow> cdcl_inv opts F (t\<lparr>phases_saved := ph\<rparr>)"
  using assms
  by (simp_all add: cdcl_inv_def base_inv_def trail_inv_def levels_inv_def justified_def served_def holds_at_def
        phases_inv_def lits_inv_def decisions_upto_def)

lemma cdcl_step_inv:
  assumes "cdcl_step opts F t t'" "query_inv opts F A C t"
  shows "query_inv opts F A C t'"
proof -
  have inv: "cdcl_inv opts F t" and q: "assumed_lits t = A" "mset (constraint_lits t) = mset C"
    using assms(2) by (simp_all add: query_inv_def)
  show ?thesis using assms(1)
  proof (cases rule: cdcl_step.cases)
    case (Decide res)
    then show ?thesis using decide_rok[OF inv Decide(1,2)] q by (simp add: decide_post_def query_inv_def)
  next
    case (Unit lit)
    then show ?thesis using unit_rok[OF inv Unit(1-4)] q by (auto simp: search_assign_driving_def query_inv_def)
  next
    case (Propagate c lit)
    then show ?thesis using propagate_rok[OF inv Propagate(1,2)] q by (auto simp: search_assign_driving_def query_inv_def)
  next
    case (Backtrack k)
    then show ?thesis using backtrack_rok[OF inv Backtrack(1)] q by (simp add: backtrack_post_def query_inv_def)
  next
    case Restart
    then show ?thesis using restart_rok[OF inv Restart(1-3)] q by (simp add: backtrack_post_def query_inv_def)
  next
    case (Bump analyzed scorefactor junk use_scores limit b)
    obtain xs where "search_inv (base t) xs" using cdcl_invD(1)[OF inv] by (auto simp: base_inv_def)
    from bump_variables_rok[OF this Bump(2), of use_scores limit] Bump(3)
    show ?thesis using cdcl_inv_base[OF inv, of b] q by (simp add: Bump(1) query_inv_def)
  qed (use cdcl_inv_other[OF inv] q in \<open>simp_all add: query_inv_def\<close>)
qed

lemma cdcl_reachable_inv: "cdcl_reachable opts F A C t \<Longrightarrow> query_inv opts F A C t"
  by (induction rule: cdcl_reachable.induct) (use fresh_inv cdcl_step_inv in blast)+

lemma same_elements: "mset xs = mset ys \<Longrightarrow> (xs = [] \<longleftrightarrow> ys = []) \<and> set xs = set ys"
  using mset_eq_setD by auto

text \<open>What follows for the operations in reachable states: none fails, and each leads to a reachable state.\<close>

lemma reachable_decide:
  assumes t: "cdcl_reachable opts F A C t" and p: "propagated t = length (trail t)" and ns: "\<not> satisfied t"
  shows "rok (decide opts t) (\<lambda>(res, t'). cdcl_reachable opts F A C t' \<and>
    length (trail t') \<le> Suc (length (trail t)) \<and> n_vars (base t') = n_vars (base t) \<and>
    (res = 0 \<and> level t' = Suc (level t) \<or>
     res = 20 \<and> (\<nexists>v. sat v F \<and> (\<forall>a\<in>set A. lit_true v a) \<and> (C \<noteq> [] \<longrightarrow> (\<exists>c\<in>set C. lit_true v c)))))"
proof -
  have q: "query_inv opts F A C t" by (rule cdcl_reachable_inv[OF t])
  then have inv: "cdcl_inv opts F t" and A: "assumed_lits t = A" and m: "mset (constraint_lits t) = mset C"
    by (simp_all add: query_inv_def)
  have C: "constraint_lits t = [] \<longleftrightarrow> C = []" "set (constraint_lits t) = set C"
    using same_elements[OF m] by blast+
  from decide_rok[OF inv p ns] obtain res t' where r: "decide opts t = Inr (res, t')" "decide_post opts F t (res, t')"
    by (auto elim!: rokE)
  have "cdcl_reachable opts F A C t'" by (rule cdcl_reachable.Step[OF t cdcl_step.Decide[OF p ns r(1)]])
  moreover have "refuted F t \<longleftrightarrow> (\<nexists>v. sat v F \<and> (\<forall>a\<in>set A. lit_true v a) \<and> (C \<noteq> [] \<longrightarrow> (\<exists>c\<in>set C. lit_true v c)))"
    unfolding refuted_def A C ..
  ultimately show ?thesis using r by (auto simp: decide_post_def)
qed

lemma reachable_satisfied:
  assumes t: "cdcl_reachable opts F A C t" and s: "satisfied t"
    and F: "\<forall>c\<in>set F. \<exists>x\<in>set c. ok_lit t x \<and> lit_value t x \<ge> 0"
  shows "sat (values_of t) F \<and> (\<forall>a\<in>set A. lit_true (values_of t) a) \<and> (C \<noteq> [] \<longrightarrow> (\<exists>c\<in>set C. lit_true (values_of t) c))"
proof -
  have inv: "cdcl_inv opts F t" and A: "assumed_lits t = A" and m: "mset (constraint_lits t) = mset C"
    using cdcl_reachable_inv[OF t] by (simp_all add: query_inv_def)
  have C: "constraint_lits t = [] \<longleftrightarrow> C = []" "set (constraint_lits t) = set C"
    using same_elements[OF m] by blast+
  show ?thesis using satisfied_model(2-4)[OF inv s] F unfolding A C by blast
qed

lemma reachable_backtrack:
  assumes t: "cdcl_reachable opts F A C t" and k: "k \<le> level t"
  shows "rok (backtrack opts k t) (\<lambda>t'. cdcl_reachable opts F A C t' \<and> level t' = k \<and>
    trail t' = filter (\<lambda>lit. lit_level t lit \<le> k) (trail t) \<and>
    (\<forall>i<length (trail t'). vtrail (vtab t' (vidx (trail t' ! i))) = i) \<and>
    (\<forall>x. var_value t' x \<noteq> 0 \<longleftrightarrow> x \<in> vidx ` set (trail t')))"
proof -
  have inv: "cdcl_inv opts F t" using cdcl_reachable_inv[OF t] by (simp add: query_inv_def)
  from backtrack_rok[OF inv k] obtain t' where r: "backtrack opts k t = Inr t'" "backtrack_post opts F k t t'" by (elim rokE)
  have inv': "trail_inv t'" using r(2) cdcl_invD(2) by (auto simp: backtrack_post_def)
  have "var_value t' x \<noteq> 0" if "x \<in> vidx ` set (trail t')" for x
    using that trail_invD(2,3)[OF inv'] by (auto simp: sgn_0_0)
  then have "\<forall>x. var_value t' x \<noteq> 0 \<longleftrightarrow> x \<in> vidx ` set (trail t')" using trail_invD(4)[OF inv'] by blast
  moreover have "cdcl_reachable opts F A C t'" by (rule cdcl_reachable.Step[OF t cdcl_step.Backtrack[OF k r(1)]])
  ultimately show ?thesis using r trail_invD(7)[OF inv'] by (simp add: backtrack_post_def)
qed

lemma reachable_restart:
  assumes t: "cdcl_reachable opts F A C t" and p: "propagated t = length (trail t)" and ns: "\<not> satisfied t"
    and lv: "length A + 2 \<le> level t"
  shows "rok (restart opts t) (\<lambda>t'. cdcl_reachable opts F A C t' \<and> length A \<le> level t' \<and> level t' \<le> level t \<and>
    reused_upto opts t (level t') \<and> trail t' = filter (\<lambda>lit. lit_level t lit \<le> level t') (trail t) \<and>
    (\<forall>a\<in>set A. a \<in> set (trail t')))"
proof -
  have inv: "cdcl_inv opts F t" and A: "assumed_lits t = A"
    using cdcl_reachable_inv[OF t] by (simp_all add: query_inv_def)
  have lv': "length (assumed_lits t) + 2 \<le> level t" using lv A by simp
  from restart_rok[OF inv p ns lv'] obtain t' where r: "restart opts t = Inr t'" "trivial_levels t \<le> level t'"
      "level t' \<le> level t" "reused_upto opts t (level t')" "backtrack_post opts F (level t') t t'" by (elim rokE) blast
  have lA: "length A \<le> level t'" using r(2) A by (simp add: trivial_levels_def)
  have "a \<in> set (trail t')" if a: "a \<in> set A" for a
  proof -
    obtain k where k: "k < length A" "a = A ! k" using a by (metis in_set_conv_nth)
    then have "k < min (level t') (length (assumed_lits t'))" "assumed_lits t' = A"
      using lA A r(5) by (simp_all add: backtrack_post_def)
    moreover have "served t'" using r(5) cdcl_invD(5) by (auto simp: backtrack_post_def)
    ultimately show ?thesis using k(2) unfolding served_def holds_at_def by auto
  qed
  moreover have "cdcl_reachable opts F A C t'" by (rule cdcl_reachable.Step[OF t cdcl_step.Restart[OF p ns lv' r(1)]])
  ultimately show ?thesis using r lA by (simp add: backtrack_post_def)
qed

lemma reachable_assign:
  assumes t: "cdcl_reachable opts F A C t"
  shows "unit_for t c lit \<Longrightarrow> implied F c \<Longrightarrow> rok (search_assign_driving opts lit (Reason_clause c) t)
      (\<lambda>t'. cdcl_reachable opts F A C t' \<and> trail t' = trail t @ [lit])"
    and "ok_lit t lit \<Longrightarrow> lit_value t lit = 0 \<Longrightarrow> implied F [lit] \<Longrightarrow> level t = 0 \<Longrightarrow>
      rok (assign_unit opts lit t) (\<lambda>t'. cdcl_reachable opts F A C t' \<and> trail t' = trail t @ [lit])"
proof -
  have inv: "cdcl_inv opts F t" using cdcl_reachable_inv[OF t] by (simp add: query_inv_def)
  show "rok (search_assign_driving opts lit (Reason_clause c) t)
      (\<lambda>t'. cdcl_reachable opts F A C t' \<and> trail t' = trail t @ [lit])" if u: "unit_for t c lit" "implied F c"
  proof (rule rok_Inr)
    show "rok (search_assign_driving opts lit (Reason_clause c) t) (\<lambda>_. True)"
      using propagate_rok[OF inv u] by (auto simp: search_assign_driving_def elim: rok_weaken)
    fix t' assume r: "search_assign_driving opts lit (Reason_clause c) t = Inr t'"
    have "trail t' = trail t @ [lit]" using propagate_rok[OF inv u] r by (auto simp: search_assign_driving_def)
    then show "cdcl_reachable opts F A C t' \<and> trail t' = trail t @ [lit]"
      using cdcl_reachable.Step[OF t cdcl_step.Propagate[OF u r]] by blast
  qed
  show "rok (assign_unit opts lit t) (\<lambda>t'. cdcl_reachable opts F A C t' \<and> trail t' = trail t @ [lit])"
    if u: "ok_lit t lit" "lit_value t lit = 0" "implied F [lit]" "level t = 0"
  proof -
    from unit_rok[OF inv u(1-3) disjI2[OF u(4)]] obtain t' where
      r: "search_assign opts lit No_reason t = Inr t'" "trail t' = trail t @ [lit]" by (auto elim!: rokE)
    then have "search_assign_driving opts lit No_reason t = Inr t'" by (simp add: search_assign_driving_def)
    from cdcl_reachable.Step[OF t cdcl_step.Unit[OF u(1-3) disjI2[OF u(4)] this]] r u(4)
    show ?thesis by (simp add: assign_unit_def)
  qed
qed

declare vidx_simps [simp del]

end
