(* ===== verification/Propagate.thy ===== *)
theory Propagate
  imports Chrono
begin

text \<open>
  The propagation loop of the SAT solver with two watched literals and blocking literals
  (propagate.cpp, watch.hpp, clause.hpp).  Clauses are entries of an arena, a pointer to a clause is
  its index.  The list of watches that is being visited is rewritten in place by the source; here it
  is a list of the entries kept so far and a list of those to come.  Pushing to the list that is being
  visited is the error \<open>BufferOverflow\<close>, reading a clause beyond its size \<open>OutOfBounds\<close>.

  The lemmas show that propagation only assigns literals of unit clauses, that a conflict is a
  falsified clause, and that otherwise, when the whole trail is propagated, no clause is falsified,
  although chronological backtracking leaves literals on the trail.
\<close>

unbundle bit_operations_syntax

section \<open>Clauses and watches\<close>

record Clause =
  literals :: "int list"
  cpos :: nat
  garbage :: bool

record Watch =
  wclause :: nat
  blit :: int
  wsize :: nat

definition binary :: "Watch \<Rightarrow> bool" where
  "binary w \<longleftrightarrow> wsize w = 2"

record 'a csolver =
  cdcl_part :: "'a cdcl"
  wtab :: "int \<Rightarrow> Watch list"
  arena :: "nat \<Rightarrow> Clause"
  clause_ids :: "nat list"
  conflict :: "nat option"

definition watch_literal :: "int \<Rightarrow> int \<Rightarrow> nat \<Rightarrow> 'a csolver \<Rightarrow> 'a csolver result" where
  "watch_literal lit blocking c s =
     (if lit = blocking then Inl OutOfBounds
      else Inr (s\<lparr>wtab := (wtab s)(lit := wtab s lit @
             [\<lparr>wclause = c, blit = blocking, wsize = length (literals (arena s c))\<rparr>])\<rparr>))"

section \<open>One watch\<close>

text \<open>\<open>find_watch\<close>: the first position of the list whose literal is not false, otherwise \<open>e\<close>.\<close>

fun find_watch :: "'a cdcl \<Rightarrow> int list \<Rightarrow> nat list \<Rightarrow> nat \<Rightarrow> nat" where
  "find_watch t lits [] e = e"
| "find_watch t lits (k # ks) e = (if lit_value t (lits ! k) < 0 then find_watch t lits ks e else k)"

text \<open>Position and value of a replacement: first after the saved position, then before it.\<close>

definition replacement :: "'a cdcl \<Rightarrow> int list \<Rightarrow> nat \<Rightarrow> nat \<times> int" where
  "replacement t lits middle =
     (let size = length lits; k = find_watch t lits [middle..<size] size
      in if k < size then (k, lit_value t (lits ! k))
         else
           let k = find_watch t lits [2..<middle] middle
           in (k, if k < middle then lit_value t (lits ! k) else - 1))"

datatype visited = Keep Watch | Drop | Stop

definition assign_in :: "options \<Rightarrow> int \<Rightarrow> int list \<Rightarrow> 'a csolver \<Rightarrow> 'a csolver result" where
  "assign_in opts lit c s =
     rbind (search_assign opts lit (Reason_clause c) (cdcl_part s)) (\<lambda>t. Inr (s\<lparr>cdcl_part := t\<rparr>))"

definition set_literals :: "nat \<Rightarrow> int list \<Rightarrow> 'a csolver \<Rightarrow> 'a csolver" where
  "set_literals c lits s = s\<lparr>arena := (arena s)(c := (arena s c)\<lparr>literals := lits\<rparr>)\<rparr>"

definition set_cpos :: "nat \<Rightarrow> nat \<Rightarrow> 'a csolver \<Rightarrow> 'a csolver" where
  "set_cpos c k s = s\<lparr>arena := (arena s)(c := (arena s c)\<lparr>cpos := k\<rparr>)\<rparr>"

text \<open>The option chrono larger than 1: watch a literal of the level of the propagated literal.\<close>

definition watch_level :: "int \<Rightarrow> int \<Rightarrow> Watch \<Rightarrow> 'a csolver \<Rightarrow> (visited \<times> 'a csolver) result" where
  "watch_level lit other_lit w s =
     (let t = cdcl_part s; c = wclause w; lits = literals (arena s c);
          other_level = vlevel (vtab t (vidx other_lit))
      in if other_level > vlevel (vtab t (vidx lit)) then
           case filter (\<lambda>p. vlevel (vtab t (vidx (lits ! p))) = other_level) [2..<length lits] of
             [] \<Rightarrow> Inl OutOfBounds
           | p # _ \<Rightarrow>
               let r = lits ! p
               in if r = lit then Inl BufferOverflow
                  else rbind (watch_literal r other_lit c (set_literals c ((lits[p := lit])[0 := other_lit, 1 := r]) s))
                    (\<lambda>s. Inr (Drop, s))
         else Inr (Keep w, s))"

definition visit_long :: "options \<Rightarrow> int \<Rightarrow> Watch \<Rightarrow> 'a csolver \<Rightarrow> (visited \<times> 'a csolver) result" where
  "visit_long opts lit w s =
     (let t = cdcl_part s; c = wclause w; lits = literals (arena s c); middle = cpos (arena s c)
      in if length lits < 2 \<or> length lits < middle then Inl OutOfBounds
         else
           let other = lits ! 0 XOR lits ! 1 XOR lit; u = lit_value t other
           in if u > 0 then Inr (Keep (w\<lparr>blit := other\<rparr>), s)
              else
                let (k, v) = replacement t lits middle;
                    s = set_cpos c k s
                in if v > 0 then Inr (Keep (w\<lparr>blit := lits ! k\<rparr>), s)
                   else if v = 0 then
                     let r = lits ! k
                     in if r = lit then Inl BufferOverflow
                        else rbind (watch_literal r lit c (set_literals c (lits[0 := other, 1 := r, k := lit]) s))
                          (\<lambda>s. Inr (Drop, s))
                   else if u = 0 then
                     rbind (assign_in opts other lits s) (\<lambda>s.
                       if opt_chrono opts > 1 then watch_level lit other w s else Inr (Keep w, s))
                   else Inr (Stop, s\<lparr>conflict := Some c\<rparr>))"

definition visit_watch :: "options \<Rightarrow> int \<Rightarrow> Watch \<Rightarrow> 'a csolver \<Rightarrow> (visited \<times> 'a csolver) result" where
  "visit_watch opts lit w s =
     (let b = lit_value (cdcl_part s) (blit w)
      in if b > 0 then Inr (Keep w, s)
         else if binary w then
           if b < 0 then Inr (Keep w, s\<lparr>conflict := Some (wclause w)\<rparr>)
           else rbind (assign_in opts (blit w) (literals (arena s (wclause w))) s) (\<lambda>s. Inr (Keep w, s))
         else if conflict s \<noteq> None then Inr (Stop, s)
         else if garbage (arena s (wclause w)) then Inr (Drop, s)
         else visit_long opts lit w s)"

section \<open>All watches of a literal, and the whole trail\<close>

fun watch_loop :: "options \<Rightarrow> int \<Rightarrow> Watch list \<Rightarrow> Watch list \<Rightarrow> 'a csolver \<Rightarrow> 'a csolver result" where
  "watch_loop opts lit kept [] s = Inr (s\<lparr>wtab := (wtab s)(lit := kept)\<rparr>)"
| "watch_loop opts lit kept (w # ws) s =
     rbind (visit_watch opts lit w s) (\<lambda>(r, s).
       case r of Keep w \<Rightarrow> watch_loop opts lit (kept @ [w]) ws s
       | Drop \<Rightarrow> watch_loop opts lit kept ws s
       | Stop \<Rightarrow> Inr (s\<lparr>wtab := (wtab s)(lit := kept @ w # ws)\<rparr>))"

definition propagate_step :: "options \<Rightarrow> 'a csolver \<Rightarrow> ('a csolver, 'a csolver) step result" where
  "propagate_step opts s =
     (let t = cdcl_part s
      in if conflict s \<noteq> None \<or> propagated t = length (trail t) then Inr (Break s)
         else if length (trail t) < propagated t then Inl OutOfBounds
         else
           let lit = - (trail t ! propagated t); s = s\<lparr>cdcl_part := t\<lparr>propagated := propagated t + 1\<rparr>\<rparr>
           in rbind (watch_loop opts lit [] (wtab s lit) s) (\<lambda>s. Inr (Continue s)))"

definition propagate :: "options \<Rightarrow> 'a csolver \<Rightarrow> (bool \<times> 'a csolver) result" where
  "propagate opts s =
     rbind (rloop (n_vars (base (cdcl_part s)) + 2) (propagate_step opts) s) (\<lambda>s.
       let t = cdcl_part s
       in Inr (conflict s = None, s\<lparr>cdcl_part :=
            (if conflict s = None then t\<lparr>no_conflict_until := propagated t\<rparr>
             else t\<lparr>conflicts := conflicts t + 1, no_conflict_until := start (control t ! level t)\<rparr>)\<rparr>))"

section \<open>Invariants\<close>

text \<open>
  Every watch is for a literal of its clause, and every clause that is not garbage is watched by its first two
  literals.
\<close>

definition clause_ok :: "int list list \<Rightarrow> 'a cdcl \<Rightarrow> Clause \<Rightarrow> bool" where
  "clause_ok F t C \<longleftrightarrow> distinct (literals C) \<and> 2 \<le> length (literals C) \<and> (\<forall>x\<in>set (literals C). ok_lit t x) \<and>
     2 \<le> cpos C \<and> cpos C \<le> length (literals C) \<and> implied F (literals C)"

definition entry_ok :: "int list list \<Rightarrow> 'a csolver \<Rightarrow> int \<Rightarrow> Watch \<Rightarrow> bool" where
  "entry_ok F s lit w \<longleftrightarrow> (let C = arena s (wclause w) in clause_ok F (cdcl_part s) C \<and> lit \<in> set (literals C) \<and>
     blit w \<in> set (literals C) \<and> blit w \<noteq> lit \<and> (binary w \<longleftrightarrow> length (literals C) = 2) \<and>
     (\<not> garbage C \<longrightarrow> lit \<in> {literals C ! 0, literals C ! 1}))"

definition watch_inv :: "int list list \<Rightarrow> 'a csolver \<Rightarrow> bool" where
  "watch_inv F s \<longleftrightarrow> (\<forall>lit. \<forall>w\<in>set (wtab s lit). entry_ok F s lit w) \<and> (\<forall>lit. distinct (map wclause (wtab s lit))) \<and>
     (\<forall>c\<in>set (clause_ids s). \<not> garbage (arena s c) \<longrightarrow> clause_ok F (cdcl_part s) (arena s c) \<and>
        (\<forall>k<2. c \<in> wclause ` set (wtab s (literals (arena s c) ! k))))"

text \<open>
  A false literal is guarded by a true one that stays on the trail as long as the false literal keeps its
  position: its level is below every level that starts after that position.
\<close>

definition guarded :: "'a cdcl \<Rightarrow> int \<Rightarrow> int \<Rightarrow> bool" where
  "guarded t lit x \<longleftrightarrow> x \<in> set (trail t) \<and>
     (\<forall>l\<in>{1..level t}. vtrail (vtab t (vidx lit)) < start (control t ! l) \<longrightarrow> lit_level t x < l)"

definition entry_guarded :: "'a csolver \<Rightarrow> int \<Rightarrow> Watch \<Rightarrow> bool" where
  "entry_guarded s lit w \<longleftrightarrow> (let ls = literals (arena s (wclause w)) in
     garbage (arena s (wclause w)) \<and> \<not> binary w \<or> guarded (cdcl_part s) lit (blit w) \<or>
     (\<exists>x\<in>{ls ! 0, ls ! 1}. x \<noteq> lit \<and> guarded (cdcl_part s) lit x))"

definition guards :: "nat \<Rightarrow> 'a csolver \<Rightarrow> bool" where
  "guards q s \<longleftrightarrow> (\<forall>lit. \<forall>w\<in>set (wtab s lit). - lit \<in> set (trail (cdcl_part s)) \<longrightarrow>
     vtrail (vtab (cdcl_part s) (vidx lit)) < q \<longrightarrow> entry_guarded s lit w)"

text \<open>Assigning extends the trail.\<close>

definition extends :: "'a cdcl \<Rightarrow> 'a cdcl \<Rightarrow> bool" where
  "extends t t' \<longleftrightarrow> level t' = level t \<and> control t' = control t \<and> n_vars (base t') = n_vars (base t) \<and>
     propagated t' = propagated t \<and> trail_inv t' \<and>
     (\<exists>ys. trail t' = trail t @ ys) \<and> (\<forall>x\<in>set (trail t). vtab t' (vidx x) = vtab t (vidx x))"

lemma extends_refl: "trail_inv t \<Longrightarrow> extends t t"
  by (simp add: extends_def)

lemma extends_assign:
  assumes "trail_inv t" "var_value t (vidx lit) = 0" "trail_inv (assign_at lit lv r t)"
  shows "extends t (assign_at lit lv r t)"
  using trail_new[OF assms(1,2)] assms(3) by (simp add: extends_def)

lemma extends_guarded:
  assumes "extends t t'" "guarded t lit x" "- lit \<in> set (trail t)"
  shows "guarded t' lit x"
proof -
  have "x \<in> set (trail t)" using assms(2) by (simp add: guarded_def)
  moreover have "vtab t' (vidx lit) = vtab t (vidx lit)"
    using assms(1,3) unfolding extends_def by (metis vidx_simps(1))
  ultimately show ?thesis using assms(1,2) unfolding extends_def guarded_def by auto
qed

lemma extends_old:
  assumes "extends t t'" "- lit \<in> set (trail t')" "vtrail (vtab t' (vidx lit)) < length (trail t)"
  shows "- lit \<in> set (trail t)" "vtab t' (vidx lit) = vtab t (vidx lit)"
proof -
  obtain ys where ys: "trail t' = trail t @ ys" using assms(1) by (auto simp: extends_def)
  obtain i where i: "i < length (trail t')" "trail t' ! i = - lit" using assms(2) by (auto simp: in_set_conv_nth)
  have "trail_inv t'" using assms(1) by (simp add: extends_def)
  from trail_invD(7)[OF this i(1)] have "vtrail (vtab t' (vidx lit)) = i" by (simp add: i(2) vidx_simps)
  then have "i < length (trail t)" using assms(3) by simp
  then show "- lit \<in> set (trail t)" using i(2) ys nth_mem[of i "trail t"] by (simp add: nth_append)
  then show "vtab t' (vidx lit) = vtab t (vidx lit)" using assms(1) unfolding extends_def by (metis vidx_simps(1))
qed

lemma extends_entry_guarded:
  assumes "extends (cdcl_part s) t'" "entry_guarded s lit w" "- lit \<in> set (trail (cdcl_part s))"
  shows "entry_guarded (s\<lparr>cdcl_part := t'\<rparr>) lit w"
  using assms(2) extends_guarded[OF assms(1) _ assms(3)] unfolding entry_guarded_def Let_def by auto

lemma extends_guards:
  assumes "extends (cdcl_part s) t'" "guards q s" "q \<le> length (trail (cdcl_part s))"
  shows "guards q (s\<lparr>cdcl_part := t'\<rparr>)"
  unfolding guards_def
proof (intro allI ballI impI)
  fix lit w
  assume w: "w \<in> set (wtab (s\<lparr>cdcl_part := t'\<rparr>) lit)" "- lit \<in> set (trail (cdcl_part (s\<lparr>cdcl_part := t'\<rparr>)))"
    "vtrail (vtab (cdcl_part (s\<lparr>cdcl_part := t'\<rparr>)) (vidx lit)) < q"
  have "vtrail (vtab t' (vidx lit)) < length (trail (cdcl_part s))" using w(3) assms(3) by simp
  from extends_old[OF assms(1) _ this] w assms(2)
  have "- lit \<in> set (trail (cdcl_part s))" "entry_guarded s lit w" by (simp_all add: guards_def)
  from extends_entry_guarded[OF assms(1) this(2,1)] show "entry_guarded (s\<lparr>cdcl_part := t'\<rparr>) lit w" .
qed

lemma extends_watch_inv:
  assumes "n_vars (base t') = n_vars (base (cdcl_part s))" "watch_inv F s"
  shows "watch_inv F (s\<lparr>cdcl_part := t'\<rparr>)"
  using assms unfolding watch_inv_def entry_ok_def clause_ok_def Let_def by simp

section \<open>The parts of one visit\<close>

lemma other_watch:
  fixes ls :: "int list"
  assumes "distinct ls" "2 \<le> length ls" "lit \<in> {ls ! 0, ls ! 1}"
  shows "{ls ! 0, ls ! 1} = {lit, ls ! 0 XOR ls ! 1 XOR lit}" "ls ! 0 XOR ls ! 1 XOR lit \<noteq> lit"
proof -
  have len: "0 < length ls" "1 < length ls" using assms(2) by linarith+
  have ne: "ls ! 0 \<noteq> ls ! 1" unfolding nth_eq_iff_index_eq[OF assms(1) len] by simp
  have x: "a XOR b XOR a = b" "a XOR b XOR b = a" for a b :: int
    by (simp_all add: xor.left_commute[of a b] xor.commute[of b a])
  show "{ls ! 0, ls ! 1} = {lit, ls ! 0 XOR ls ! 1 XOR lit}" "ls ! 0 XOR ls ! 1 XOR lit \<noteq> lit"
    using assms(3) ne by (auto simp: x)
qed

lemma find_watch_result:
  "(\<exists>k\<in>set ks. find_watch t ls ks e = k \<and> lit_value t (ls ! k) \<ge> 0) \<or>
   find_watch t ls ks e = e \<and> (\<forall>k\<in>set ks. lit_value t (ls ! k) < 0)"
  by (induction t ls ks e rule: find_watch.induct) auto

lemma replacement_result:
  assumes "replacement t ls middle = (k, v)" "2 \<le> middle" "middle \<le> length ls"
  shows "2 \<le> k" "k \<le> length ls"
    "if v < 0 then \<forall>k\<in>{2..<length ls}. lit_value t (ls ! k) < 0 else k < length ls \<and> v = lit_value t (ls ! k)"
proof -
  define k1 where "k1 = find_watch t ls [middle..<length ls] (length ls)"
  define k2 where "k2 = find_watch t ls [2..<middle] middle"
  have r1: "(k1 \<in> {middle..<length ls} \<and> lit_value t (ls ! k1) \<ge> 0) \<or>
      (k1 = length ls \<and> (\<forall>k\<in>{middle..<length ls}. lit_value t (ls ! k) < 0))"
    using find_watch_result[of "[middle..<length ls]" t ls "length ls"] unfolding k1_def by force
  have r2: "(k2 \<in> {2..<middle} \<and> lit_value t (ls ! k2) \<ge> 0) \<or>
      (k2 = middle \<and> (\<forall>k\<in>{2..<middle}. lit_value t (ls ! k) < 0))"
    using find_watch_result[of "[2..<middle]" t ls middle] unfolding k2_def by force
  have eq: "(k, v) = (if k1 < length ls then (k1, lit_value t (ls ! k1))
      else (k2, if k2 < middle then lit_value t (ls ! k2) else - 1))"
    using assms(1) unfolding replacement_def Let_def k1_def k2_def by simp
  have "{2..<length ls} = {2..<middle} \<union> {middle..<length ls}" using assms(2,3) by auto
  then show "2 \<le> k" "k \<le> length ls"
    "if v < 0 then \<forall>k\<in>{2..<length ls}. lit_value t (ls ! k) < 0 else k < length ls \<and> v = lit_value t (ls ! k)"
    using eq r1 r2 assms(2,3) by (auto split: if_splits)
qed

text \<open>Moving the replacement to the second place.\<close>

lemma swap_watch:
  assumes "distinct ls" "2 \<le> k" "k < length ls" "{ls ! 0, ls ! 1} = {lit, other_lit}"
  shows "mset (ls[0 := other_lit, 1 := ls ! k, k := lit]) = mset ls"
    "ls[0 := other_lit, 1 := ls ! k, k := lit] ! 0 = other_lit" "ls[0 := other_lit, 1 := ls ! k, k := lit] ! 1 = ls ! k"
    "ls[k := lit, 0 := other_lit, 1 := ls ! k] = ls[0 := other_lit, 1 := ls ! k, k := lit]"
proof -
  obtain a b rest where ls: "ls = a # b # rest" using assms(2,3) by (cases ls; cases "tl ls") auto
  define m where "m = k - 2"
  have k: "k = Suc (Suc m)" "m < length rest" using assms(2,3) ls by (simp_all add: m_def)
  have ab: "{a, b} = {lit, other_lit}" using assms(4) ls by simp
  have u: "ls[0 := other_lit, 1 := ls ! k, k := lit] = other_lit # (rest ! m) # rest[m := lit]" by (simp add: ls k)
  have "mset (rest[m := lit]) = add_mset lit (mset rest - {#rest ! m#})" by (rule mset_update[OF k(2)])
  moreover have "rest ! m \<in># mset rest" using k(2) by simp
  moreover have "{#a, b#} = {#lit, other_lit#}"
    using ab by (auto simp: doubleton_eq_iff)
  ultimately show "mset (ls[0 := other_lit, 1 := ls ! k, k := lit]) = mset ls"
    unfolding u by (auto simp: ls add_mset_commute)
  show "ls[0 := other_lit, 1 := ls ! k, k := lit] ! 0 = other_lit" "ls[0 := other_lit, 1 := ls ! k, k := lit] ! 1 = ls ! k"
    "ls[k := lit, 0 := other_lit, 1 := ls ! k] = ls[0 := other_lit, 1 := ls ! k, k := lit]"
    by (simp_all add: ls k)
qed

text \<open>A false literal in the trail.\<close>

lemma assign_in_rok:
  assumes t: "cdcl_reachable opts F A C (cdcl_part s)" and u: "unit_for (cdcl_part s) c x" and F: "implied F c"
  shows "rok (assign_in opts x c s) (\<lambda>s'. \<exists>t'. s' = s\<lparr>cdcl_part := t'\<rparr> \<and> extends (cdcl_part s) t' \<and>
    cdcl_reachable opts F A C t' \<and> x \<in> set (trail t') \<and>
    (0 < opt_chrono opts \<longrightarrow> lit_level t' x = 0 \<or> (\<exists>y\<in>set c. y \<noteq> x \<and> lit_level t' y = lit_level t' x)))"
proof -
  have inv: "cdcl_inv opts F (cdcl_part s)" using cdcl_reachable_inv[OF t] by (simp add: query_inv_def)
  from propagate_rok[OF inv u F] obtain t' lv r where r: "search_assign opts x (Reason_clause c) (cdcl_part s) = Inr t'"
      "cdcl_inv opts F t'" "t' = assign_at x lv r (cdcl_part s)" "clause_level opts (cdcl_part s) c x lv" by (auto elim!: rokE)
  have z: "var_value (cdcl_part s) (vidx x) = 0"
    using lit_value_trail(3)[OF cdcl_invD(2)[OF inv], of x] u by (auto simp: unit_for_def)
  have "cdcl_reachable opts F A C t'"
    by (rule cdcl_reachable.Step[OF t cdcl_step.Propagate[OF u F]]) (simp add: search_assign_driving_def r(1))
  moreover have "extends (cdcl_part s) t'"
    using extends_assign[OF cdcl_invD(2)[OF inv] z] cdcl_invD(2)[OF r(2)] unfolding r(3) by blast
  moreover have "lit_level t' y = lit_level (cdcl_part s) y" if "y \<in> set c" "y \<noteq> x" for y
  proof -
    have "- y \<in> set (trail (cdcl_part s))"
      using u that lit_value_trail(2)[OF cdcl_invD(2)[OF inv], of y] by (auto simp: unit_for_def)
    from trail_new[OF cdcl_invD(2)[OF inv] z this] show ?thesis by (simp add: r(3) vidx_simps)
  qed
  then have "0 < opt_chrono opts \<longrightarrow> lit_level t' x = 0 \<or> (\<exists>y\<in>set c. y \<noteq> x \<and> lit_level t' y = lit_level t' x)"
    using r(3,4) by (auto simp: clause_level_def)
  moreover have "x \<in> set (trail t')" by (simp add: r(3))
  moreover have run: "assign_in opts x c s = Inr (s\<lparr>cdcl_part := t'\<rparr>)" by (simp add: assign_in_def r(1))
  ultimately show ?thesis unfolding run rok_simps by (intro exI[of _ t'] conjI refl)
qed

section \<open>The invariant of the loop over the watches of a literal\<close>

definition falsified :: "'a csolver \<Rightarrow> nat \<Rightarrow> bool" where
  "falsified s c \<longleftrightarrow> (\<forall>x\<in>set (literals (arena s c)). - x \<in> set (trail (cdcl_part s)))"

definition with_watches :: "int \<Rightarrow> Watch list \<Rightarrow> 'a csolver \<Rightarrow> 'a csolver" where
  "with_watches lit ws s = s\<lparr>wtab := (wtab s)(lit := ws)\<rparr>"

definition visit_ok :: "options \<Rightarrow> int list list \<Rightarrow> int list \<Rightarrow> int list \<Rightarrow> nat \<Rightarrow> int \<Rightarrow> Watch list \<Rightarrow> Watch list
    \<Rightarrow> 'a::linordered_field csolver \<Rightarrow> bool" where
  "visit_ok opts F A C p lit kept ws s \<longleftrightarrow> cdcl_reachable opts F A C (cdcl_part s) \<and>
     watch_inv F (with_watches lit (kept @ ws) s) \<and> guards p (with_watches lit (kept @ ws) s) \<and>
     p < length (trail (cdcl_part s)) \<and> trail (cdcl_part s) ! p = - lit \<and> propagated (cdcl_part s) = Suc p \<and>
     (\<forall>l\<in>{1..level (cdcl_part s)}. start (control (cdcl_part s) ! l) \<le> p) \<and>
     (conflict s = None \<longrightarrow> (\<forall>w\<in>set kept. entry_guarded s lit w)) \<and> (\<forall>c. conflict s = Some c \<longrightarrow> falsified s c)"

lemma with_watches_simps [simp]:
  "cdcl_part (with_watches lit ws s) = cdcl_part s" "arena (with_watches lit ws s) = arena s"
  "clause_ids (with_watches lit ws s) = clause_ids s" "conflict (with_watches lit ws s) = conflict s"
  "wtab (with_watches lit ws s) = (wtab s)(lit := ws)"
  "(with_watches lit ws s)\<lparr>cdcl_part := t\<rparr> = with_watches lit ws (s\<lparr>cdcl_part := t\<rparr>)"
  "entry_ok F (with_watches lit ws s) = entry_ok F s" "entry_guarded (with_watches lit ws s) = entry_guarded s"
  by (simp_all add: with_watches_def entry_ok_def entry_guarded_def fun_eq_iff)

lemma entry_fields [simp]:
  "entry_ok F (s\<lparr>wtab := wt\<rparr>) = entry_ok F s" "entry_guarded (s\<lparr>wtab := wt\<rparr>) = entry_guarded s"
  "entry_ok F (s\<lparr>conflict := x\<rparr>) = entry_ok F s" "entry_guarded (s\<lparr>conflict := x\<rparr>) = entry_guarded s"
  by (simp_all add: entry_ok_def entry_guarded_def fun_eq_iff)

lemma visit_okD:
  assumes "visit_ok opts F A C p lit kept ws s"
  shows "cdcl_reachable opts F A C (cdcl_part s)" "w \<in> set (kept @ ws) \<Longrightarrow> entry_ok F s lit w"
    "- lit \<in> set (trail (cdcl_part s))" "vtrail (vtab (cdcl_part s) (vidx lit)) = p" "trail_inv (cdcl_part s)"
    "levels_inv opts (cdcl_part s)"
    "x \<in> set (trail (cdcl_part s)) \<Longrightarrow> guarded (cdcl_part s) lit x"
proof -
  show r: "cdcl_reachable opts F A C (cdcl_part s)" using assms by (simp add: visit_ok_def)
  have inv: "cdcl_inv opts F (cdcl_part s)" using cdcl_reachable_inv[OF r] by (simp add: query_inv_def)
  show t: "trail_inv (cdcl_part s)" "levels_inv opts (cdcl_part s)" using cdcl_invD(2,3)[OF inv] by blast+
  show "w \<in> set (kept @ ws) \<Longrightarrow> entry_ok F s lit w"
    using assms unfolding visit_ok_def watch_inv_def by (simp add: fun_upd_def)
  have p: "p < length (trail (cdcl_part s))" "trail (cdcl_part s) ! p = - lit" using assms by (simp_all add: visit_ok_def)
  then show "- lit \<in> set (trail (cdcl_part s))" using nth_mem[OF p(1)] by simp
  show v: "vtrail (vtab (cdcl_part s) (vidx lit)) = p" using trail_invD(7)[OF t(1) p(1)] by (simp add: p(2) vidx_simps)
  show "x \<in> set (trail (cdcl_part s)) \<Longrightarrow> guarded (cdcl_part s) lit x"
    using assms unfolding guarded_def v by (auto simp: visit_ok_def not_less)
qed

lemma visit_extends:
  assumes v: "visit_ok opts F A C p lit kept ws s" and e: "extends (cdcl_part s) t'" and r: "cdcl_reachable opts F A C t'"
  shows "visit_ok opts F A C p lit kept ws (s\<lparr>cdcl_part := t'\<rparr>)"
proof -
  note d = visit_okD[OF v]
  have p: "p < length (trail (cdcl_part s))" "trail (cdcl_part s) ! p = - lit" "propagated (cdcl_part s) = Suc p"
      "guards p (with_watches lit (kept @ ws) s)" "watch_inv F (with_watches lit (kept @ ws) s)"
    using v by (simp_all add: visit_ok_def)
  obtain ys where ys: "trail t' = trail (cdcl_part s) @ ys" using e by (auto simp: extends_def)
  have e': "extends (cdcl_part (with_watches lit (kept @ ws) s)) t'" using e by simp
  have "guards p (with_watches lit (kept @ ws) (s\<lparr>cdcl_part := t'\<rparr>))"
    using extends_guards[OF e' p(4)] p(1) by simp
  moreover have "watch_inv F (with_watches lit (kept @ ws) (s\<lparr>cdcl_part := t'\<rparr>))"
    using extends_watch_inv[OF _ p(5), of t'] e by (simp add: extends_def)
  moreover have "entry_guarded (s\<lparr>cdcl_part := t'\<rparr>) lit w" if "entry_guarded s lit w" for w
    by (rule extends_entry_guarded[OF e that d(3)])
  ultimately show ?thesis
    using v e r p ys unfolding visit_ok_def by (auto simp: extends_def nth_append falsified_def)
qed

text \<open>The entry stays, possibly with another blocking literal.\<close>

lemma visit_keep:
  assumes v: "visit_ok opts F A C p lit kept (w # ws) s" and w': "wclause w' = wclause w" "entry_ok F s lit w'"
    and g: "conflict s = None \<Longrightarrow> entry_guarded s lit w'"
  shows "visit_ok opts F A C p lit (kept @ [w']) ws s"
proof -
  note d = visit_okD[OF v]
  let ?old = "with_watches lit (kept @ w # ws) s" and ?new = "with_watches lit ((kept @ [w']) @ ws) s"
  have inv: "watch_inv F ?old" "guards p ?old" using v unfolding visit_ok_def by blast+
  have m: "map wclause ((kept @ [w']) @ ws) = map wclause (kept @ w # ws)" using w'(1) by simp
  then have im: "wclause ` set (wtab ?new l) = wclause ` set (wtab ?old l)" for l
    by (metis fun_upd_apply list.set_map with_watches_simps(5))
  have e: "entry_ok F s l x" if "x \<in> set (wtab ?new l)" for l x
  proof (cases "l = lit")
    case True
    then have "x \<in> set (kept @ w # ws) \<or> x = w'" using that by auto
    then show ?thesis using d(2) w'(2) True by blast
  next
    case False
    then have "x \<in> set (wtab ?old l)" using that by simp
    then show ?thesis using inv(1) unfolding watch_inv_def with_watches_simps(7) by blast
  qed
  have "map wclause (wtab ?new l) = map wclause (wtab ?old l)" for l using m by simp
  then have di: "distinct (map wclause (wtab ?new l))" for l
    using inv(1) unfolding watch_inv_def by metis
  have "watch_inv F ?new"
    using inv(1) e di unfolding watch_inv_def im with_watches_simps(1-4,7) by blast
  moreover have "guards p ?new"
    unfolding guards_def
  proof (intro allI ballI impI)
    fix l x assume x: "x \<in> set (wtab ?new l)" "- l \<in> set (trail (cdcl_part ?new))"
      "vtrail (vtab (cdcl_part ?new) (vidx l)) < p"
    have "l \<noteq> lit" using x(3) d(4) by auto
    then show "entry_guarded ?new l x" using inv(2) x by (simp add: guards_def)
  qed
  ultimately show ?thesis using v g unfolding visit_ok_def by simp
qed

lemma set_cpos_simps [simp]:
  "cdcl_part (set_cpos c k s) = cdcl_part s" "wtab (set_cpos c k s) = wtab s" "clause_ids (set_cpos c k s) = clause_ids s"
  "conflict (set_cpos c k s) = conflict s" "literals (arena (set_cpos c k s) x) = literals (arena s x)"
  "garbage (arena (set_cpos c k s) x) = garbage (arena s x)"
  "with_watches lit ws (set_cpos c k s) = set_cpos c k (with_watches lit ws s)"
  "falsified (set_cpos c k s) x \<longleftrightarrow> falsified s x" "entry_guarded (set_cpos c k s) = entry_guarded s"
  by (simp_all add: set_cpos_def with_watches_def falsified_def entry_guarded_def fun_eq_iff)

lemma set_cpos_ok:
  assumes "2 \<le> k" "k \<le> length (literals (arena s c))"
  shows "clause_ok F t (arena s x) \<Longrightarrow> clause_ok F t (arena (set_cpos c k s) x)"
    and "entry_ok F s l w \<Longrightarrow> entry_ok F (set_cpos c k s) l w"
proof -
  show ok: "clause_ok F t (arena s x) \<Longrightarrow> clause_ok F t (arena (set_cpos c k s) x)" for t x
    using assms by (auto simp: clause_ok_def set_cpos_def)
  show "entry_ok F s l w \<Longrightarrow> entry_ok F (set_cpos c k s) l w"
    unfolding entry_ok_def Let_def set_cpos_simps using ok by blast
qed

lemma visit_cpos:
  assumes v: "visit_ok opts F A C p lit kept ws s" and k: "2 \<le> k" "k \<le> length (literals (arena s c))"
  shows "visit_ok opts F A C p lit kept ws (set_cpos c k s)"
proof -
  have "2 \<le> k" "k \<le> length (literals (arena (with_watches lit (kept @ ws) s) c))" using k by simp_all
  note ok = set_cpos_ok[OF this]
  have "watch_inv F (with_watches lit (kept @ ws) s)" using v unfolding visit_ok_def by blast
  then have "watch_inv F (with_watches lit (kept @ ws) (set_cpos c k s))"
    unfolding watch_inv_def set_cpos_simps using ok by blast
  moreover have "guards p (with_watches lit (kept @ ws) (set_cpos c k s)) \<longleftrightarrow> guards p (with_watches lit (kept @ ws) s)"
    unfolding guards_def set_cpos_simps ..
  ultimately show ?thesis using v unfolding visit_ok_def by simp
qed

lemma visit_garbage:
  assumes v: "visit_ok opts F A C p lit kept (w # ws) s" and g: "garbage (arena s (wclause w))"
  shows "visit_ok opts F A C p lit kept ws s"
proof -
  let ?old = "with_watches lit (kept @ w # ws) s" and ?new = "with_watches lit (kept @ ws) s"
  have inv: "watch_inv F ?old" "guards p ?old" using v unfolding visit_ok_def by blast+
  have "entry_ok F s l x" if "x \<in> set (wtab ?new l)" for l x
    using that inv(1) unfolding watch_inv_def by (cases "l = lit") (auto split: if_splits)
  moreover have "distinct (map wclause (wtab ?new l))" for l
  proof (cases "l = lit")
    case True
    have "distinct (map wclause (wtab ?old lit))" using inv(1) unfolding watch_inv_def by blast
    then show ?thesis using True by simp
  next
    case False
    have "distinct (map wclause (wtab ?old l))" using inv(1) unfolding watch_inv_def by blast
    then show ?thesis using False by simp
  qed
  moreover have "c \<in> wclause ` set (wtab ?new l)" if "\<not> garbage (arena s c)" "c \<in> wclause ` set (wtab ?old l)" for c l
    using that g by (auto split: if_splits)
  ultimately have "watch_inv F ?new"
    using inv(1) unfolding watch_inv_def by (simp del: with_watches_simps(5))
  moreover have "guards p ?new"
    using inv(2) unfolding guards_def by (auto split: if_splits)
  ultimately show ?thesis using v unfolding visit_ok_def by simp
qed

lemma not_both:
  assumes "trail_inv t" "x \<in> set (trail t)"
  shows "- x \<notin> set (trail t)"
proof
  assume m: "- x \<in> set (trail t)"
  have "x \<noteq> 0" using trail_invD(2)[OF assms] by blast
  then show False using lit_value_trail(1,2)[OF assms(1), of x] assms(2) m by simp
qed

text \<open>The entry moves to the list of another literal of the clause, which becomes the second one.\<close>

lemma set_literals_simps [simp]:
  "cdcl_part (set_literals c ls s) = cdcl_part s" "wtab (set_literals c ls s) = wtab s"
  "clause_ids (set_literals c ls s) = clause_ids s" "conflict (set_literals c ls s) = conflict s"
  "literals (arena (set_literals c ls s) x) = (if x = c then ls else literals (arena s x))"
  "garbage (arena (set_literals c ls s) x) = garbage (arena s x)"
  "cpos (arena (set_literals c ls s) x) = cpos (arena s x)"
  by (simp_all add: set_literals_def)

lemma entry_frame:
  assumes "cdcl_part s' = cdcl_part s" "arena s' (wclause x) = arena s (wclause x)"
  shows "entry_ok F s' l x \<longleftrightarrow> entry_ok F s l x" "entry_guarded s' l x \<longleftrightarrow> entry_guarded s l x"
  using assms by (simp_all add: entry_ok_def entry_guarded_def)

lemma visit_swap:
  assumes v: "visit_ok opts F A C p lit kept (w # ws) s"
    and c: "c = wclause w" "ls = literals (arena s c)" "\<not> garbage (arena s c)"
    and k: "2 \<le> k" "k < length ls" "r = ls ! k"
    and o: "{ls ! 0, ls ! 1} = {lit, oth}" "oth \<noteq> lit" and b: "b \<in> {lit, oth}"
    and g: "- r \<in> set (trail (cdcl_part s)) \<Longrightarrow> guarded (cdcl_part s) r b"
  shows "r \<noteq> lit" "rok (watch_literal r b c (set_literals c (ls[0 := oth, 1 := r, k := lit]) s)) (visit_ok opts F A C p lit kept ws)"
proof -
  note d = visit_okD[OF v]
  let ?ls = "ls[0 := oth, 1 := r, k := lit]" and ?O = "with_watches lit (kept @ w # ws) s"
  have inv: "watch_inv F ?O" "guards p ?O" using v unfolding visit_ok_def by blast+
  have wok: "entry_ok F s lit w" using d(2)[of w] by simp
  then have cl: "clause_ok F (cdcl_part s) (arena s c)" by (simp add: entry_ok_def c(1) Let_def)
  then have dist: "distinct ls" and len: "2 \<le> length ls" by (simp_all add: clause_ok_def c(2))
  note sw = swap_watch[OF dist k(1,2) o(1), folded k(3)]
  have set: "set ?ls = set ls" "distinct ?ls" "length ?ls = length ls"
    using sw(1) dist mset_eq_setD[OF sw(1)] mset_eq_imp_distinct_iff[OF sw(1)] by simp_all
  have r01: "r \<notin> {ls ! 0, ls ! 1}"
  proof -
    have "0 < length ls" "1 < length ls" using len by linarith+
    then show ?thesis using k dist nth_eq_iff_index_eq[of ls k] by auto
  qed
  then show rl: "r \<noteq> lit" using o(1) by auto
  have ro: "r \<noteq> oth" using r01 o(1) by auto
  have in_ls: "lit \<in> set ls" "oth \<in> set ls" "r \<in> set ls"
  proof -
    have "{ls ! 0, ls ! 1} \<subseteq> set ls" using len by (auto intro: nth_mem)
    then show "lit \<in> set ls" "oth \<in> set ls" unfolding o(1) by simp_all
    show "r \<in> set ls" using k(2,3) by simp
  qed
  define new where "new = \<lparr>wclause = c, blit = b, wsize = length ls\<rparr>"
  define s2 where "s2 = (set_literals c ?ls s)\<lparr>wtab := (wtab s)(r := wtab s r @ [new])\<rparr>"
  let ?N = "with_watches lit (kept @ ws) s2"
  have f: "cdcl_part s2 = cdcl_part s" "conflict s2 = conflict s" "clause_ids s2 = clause_ids s"
    "\<And>x. literals (arena s2 x) = (if x = c then ?ls else literals (arena s x))"
    "\<And>x. garbage (arena s2 x) = garbage (arena s x)" "\<And>x. x \<noteq> c \<Longrightarrow> arena s2 x = arena s x"
    "\<And>x. cpos (arena s2 x) = cpos (arena s x)"
    by (simp_all add: s2_def set_literals_def)
  have run: "watch_literal r b c (set_literals c ?ls s) = Inr s2"
    using b rl ro by (auto simp: watch_literal_def s2_def new_def set(3))
  have N: "wtab ?N l = (if l = lit then kept @ ws else if l = r then wtab s r @ [new] else wtab s l)" for l
    using rl by (simp add: s2_def)
  have O: "wtab ?O l = (if l = lit then kept @ w # ws else wtab s l)" for l by simp
  have NO: "x = new \<and> l = r \<or> x \<in> set (wtab ?O l)" if "x \<in> set (wtab ?N l)" for l x
    using that unfolding N O by (auto split: if_splits)
  have ent: "entry_ok F s l x" if "x \<in> set (wtab ?O l)" for l x
    using inv(1) that unfolding watch_inv_def with_watches_simps(7) by blast
  have diO: "distinct (map wclause (wtab ?O l))" for l using inv(1) unfolding watch_inv_def by blast
  have clause': "clause_ok F (cdcl_part s) (arena s2 c)"
    using cl set c(2) f(7) unfolding clause_ok_def by (simp add: f(4) implied_def)
  have same: "entry_ok F s2 l x \<longleftrightarrow> entry_ok F s l x" "entry_guarded s2 l x \<longleftrightarrow> entry_guarded s l x"
    if "wclause x \<noteq> c" for l x using entry_frame[OF f(1) f(6)[OF that]] .
  have kept_c: "wclause x \<noteq> c" if "x \<in> set (kept @ ws)" for x
  proof -
    have "wclause w \<notin> wclause ` set (kept @ ws)" using diO[of lit] by auto
    then show ?thesis using that c(1) by (metis image_eqI)
  qed
  have at_c: "l = lit \<or> l = oth" if "x \<in> set (wtab ?O l)" "wclause x = c" for l x
  proof -
    have "l \<in> {ls ! 0, ls ! 1}" using ent[OF that(1)] that(2) c(2,3) by (simp add: entry_ok_def Let_def)
    then show ?thesis unfolding o(1) by simp
  qed
  have r_c: "wclause x \<noteq> c" if "x \<in> set (wtab s r)" for x
    using at_c[of x r] that rl ro by auto
  have entN: "entry_ok F s2 l x" if x: "x \<in> set (wtab ?N l)" for l x
  proof (cases "wclause x = c")
    case False
    then have "x \<in> set (wtab ?O l)" using NO[OF x] by (auto simp: new_def)
    then show ?thesis using ent same(1)[OF False] by blast
  next
    case True
    have "x \<in> set (kept @ ws)" if "l = lit" using x that unfolding N by simp
    then have "l \<noteq> lit" using kept_c True by blast
    show ?thesis
    proof (cases "l = r")
      case l: True
      have "x \<in> set (wtab s r) \<or> x = new" using x l rl unfolding N by auto
      then have "x = new" using r_c True by blast
      then show ?thesis using clause' l b rl ro in_ls set sw(3) k f(1,5)
        by (auto simp: entry_ok_def Let_def new_def f(4) binary_def)
    next
      case False
      then have x': "x \<in> set (wtab ?O l)" using NO[OF x] by blast
      then have l: "l = oth" using at_c True \<open>l \<noteq> lit\<close> by blast
      show ?thesis using ent[OF x'] clause' True l in_ls set sw(2) c(2) f(1)
        by (auto simp: entry_ok_def Let_def f(4))
    qed
  qed
  have di: "distinct (map wclause (wtab ?N l))" for l
  proof -
    consider "l = lit" | "l = r" | "l \<noteq> lit" "l \<noteq> r" by blast
    then show ?thesis
    proof cases
      case 1
      then show ?thesis using diO[of lit] unfolding N by simp
    next
      case 2
      then show ?thesis using diO[of r] rl r_c unfolding N by (auto simp: new_def)
    next
      case 3
      then show ?thesis using diO[of l] unfolding N by simp
    qed
  qed
  have cov: "clause_ok F (cdcl_part s) (arena s2 x) \<and> (\<forall>j<2. x \<in> wclause ` set (wtab ?N (literals (arena s2 x) ! j)))"
    if x: "x \<in> set (clause_ids s)" "\<not> garbage (arena s x)" for x
  proof -
    have old: "clause_ok F (cdcl_part s) (arena s x)" "\<forall>j<2. x \<in> wclause ` set (wtab ?O (literals (arena s x) ! j))"
      using inv(1) x unfolding watch_inv_def with_watches_simps(1-4,7) by blast+
    show ?thesis
    proof (cases "x = c")
      case True
      have "oth \<in> {ls ! 0, ls ! 1}" using o(1) by simp
      then have "c \<in> wclause ` set (wtab ?O oth)" using old(2) True c(2) by (auto simp: numeral_2_eq_2 less_Suc_eq)
      then have "c \<in> wclause ` set (wtab ?N oth)" using o(2) ro unfolding N by simp
      moreover have "c \<in> wclause ` set (wtab ?N r)" using rl unfolding N by (simp add: new_def)
      ultimately show ?thesis using True clause' sw(2,3) by (auto simp: f(4) numeral_2_eq_2 less_Suc_eq)
    next
      case False
      have "x \<in> wclause ` set (wtab ?N l)" if "x \<in> wclause ` set (wtab ?O l)" for l
        using that False c(1) unfolding N by auto
      then show ?thesis using old False by (simp add: f(4,6) del: with_watches_simps(5))
    qed
  qed
  have "watch_inv F ?N"
    using entN di cov unfolding watch_inv_def with_watches_simps(1-4,7) f(1,3,5) by blast
  moreover have "guards p ?N"
    unfolding guards_def
  proof (intro allI ballI impI)
    fix l x assume x: "x \<in> set (wtab ?N l)" "- l \<in> set (trail (cdcl_part ?N))" "vtrail (vtab (cdcl_part ?N) (vidx l)) < p"
    have l: "l \<noteq> lit" using x(3) d(4) by (auto simp: f(1))
    show "entry_guarded ?N l x"
    proof (cases "x = new \<and> l = r")
      case True
      then show ?thesis using g x(2) by (simp add: entry_guarded_def Let_def new_def f(1))
    next
      case False
      then have x': "x \<in> set (wtab ?O l)" using NO[OF x(1)] by blast
      then have gO: "entry_guarded s l x" using inv(2) x(2,3) unfolding guards_def by (simp add: f(1))
      show ?thesis
      proof (cases "wclause x = c")
        case False
        then show ?thesis using gO same(2) by simp
      next
        case True
        then have l': "l = oth" using at_c[OF x'] l by blast
        have "\<not> guarded (cdcl_part s) oth lit" using not_both[OF d(5), of lit] d(3) by (auto simp: guarded_def)
        moreover have "y = lit" if "y \<in> {ls ! 0, ls ! 1}" "y \<noteq> oth" for y using that unfolding o(1) by simp
        ultimately have "guarded (cdcl_part s) l (blit x)"
          using gO True c(2,3) unfolding entry_guarded_def Let_def l' by metis
        then show ?thesis by (simp add: entry_guarded_def Let_def f(1))
      qed
    qed
  qed
  moreover have "falsified s2 x \<longleftrightarrow> falsified s x" for x
    unfolding falsified_def f(1,4) using set(1) c(2) by simp
  moreover have "entry_guarded s2 lit x" if "entry_guarded s lit x" "x \<in> set kept" for x
    using that same(2) kept_c by simp
  ultimately have "visit_ok opts F A C p lit kept ws s2"
    using v unfolding visit_ok_def f(1,2) by blast
  then show "rok (watch_literal r b c (set_literals c ?ls s)) (visit_ok opts F A C p lit kept ws)" unfolding run by simp
qed

section \<open>Visiting one watch\<close>

lemma guarded_entry: "guarded (cdcl_part s) lit (blit w) \<Longrightarrow> entry_guarded s lit w"
  by (simp add: entry_guarded_def Let_def)

lemma visit_conflict:
  assumes v: "visit_ok opts F A C p lit kept ws s" and f: "falsified s c"
  shows "visit_ok opts F A C p lit kept ws (s\<lparr>conflict := Some c\<rparr>)"
proof -
  have w: "with_watches lit l (s\<lparr>conflict := Some c\<rparr>) = (with_watches lit l s)\<lparr>conflict := Some c\<rparr>" for l
    by (simp add: with_watches_def)
  have "falsified (s\<lparr>conflict := Some c\<rparr>) x \<longleftrightarrow> falsified s x" for x by (simp add: falsified_def)
  then show ?thesis using v f unfolding visit_ok_def w
    by (simp add: watch_inv_def guards_def del: with_watches_simps(5))
qed

text \<open>The outcome of a visit: the entry is kept, dropped, or a conflict stops the loop.\<close>

definition visit_post :: "options \<Rightarrow> int list list \<Rightarrow> int list \<Rightarrow> int list \<Rightarrow> nat \<Rightarrow> int \<Rightarrow> Watch list \<Rightarrow> Watch list
    \<Rightarrow> Watch \<Rightarrow> visited \<times> 'a::linordered_field csolver \<Rightarrow> bool" where
  "visit_post opts F A C p lit kept ws w = (\<lambda>(r, s). case r of
       Keep w' \<Rightarrow> visit_ok opts F A C p lit (kept @ [w']) ws s
     | Drop \<Rightarrow> visit_ok opts F A C p lit kept ws s
     | Stop \<Rightarrow> conflict s \<noteq> None \<and> visit_ok opts F A C p lit kept (w # ws) s)"

lemma keep_post:
  assumes "visit_ok opts F A C p lit kept (w # ws) s" "conflict s = None \<Longrightarrow> entry_guarded s lit w"
  shows "visit_post opts F A C p lit kept ws w (Keep w, s)"
  using visit_keep[OF assms(1) refl _ assms(2)] visit_okD(2)[OF assms(1), of w] by (simp add: visit_post_def)

lemma false_lit:
  assumes "visit_ok opts F A C p lit kept ws s" "x \<noteq> 0"
  shows "lit_value (cdcl_part s) x < 0 \<longleftrightarrow> - x \<in> set (trail (cdcl_part s))"
    "lit_value (cdcl_part s) x > 0 \<longleftrightarrow> x \<in> set (trail (cdcl_part s))"
  using lit_value_trail(1,2)[OF visit_okD(5)[OF assms(1)] assms(2)] by blast+

lemma visit_binary:
  assumes v: "visit_ok opts F A C p lit kept (w # ws) s" and b: "binary w"
    and nt: "\<not> lit_value (cdcl_part s) (blit w) > 0"
  shows "rok (if lit_value (cdcl_part s) (blit w) < 0 then Inr (Keep w, s\<lparr>conflict := Some (wclause w)\<rparr>)
     else rbind (assign_in opts (blit w) (literals (arena s (wclause w))) s) (\<lambda>s. Inr (Keep w, s)))
    (visit_post opts F A C p lit kept ws w)"
proof -
  note d = visit_okD[OF v]
  let ?ls = "literals (arena s (wclause w))"
  have e: "clause_ok F (cdcl_part s) (arena s (wclause w))" "lit \<in> set ?ls" "blit w \<in> set ?ls" "blit w \<noteq> lit" "length ?ls = 2"
    using d(2)[of w] b by (simp_all add: entry_ok_def Let_def)
  have "set ?ls = {lit, blit w}"
  proof (rule card_seteq[symmetric])
    have "distinct ?ls" using e(1) by (simp add: clause_ok_def)
    then show "card (set ?ls) \<le> card {lit, blit w}" using e(4,5) by (simp add: distinct_card)
  qed (use e(2,3) in auto)
  note ls = this
  have nz: "blit w \<noteq> 0" using e(1,3) by (auto simp: clause_ok_def)
  show ?thesis
  proof (cases "lit_value (cdcl_part s) (blit w) < 0")
    case True
    then have "falsified s (wclause w)" using d(3) false_lit(1)[OF v nz] unfolding falsified_def ls by simp
    from keep_post[OF visit_conflict[OF v this]] True show ?thesis by simp
  next
    case False
    then have "lit_value (cdcl_part s) (blit w) = 0" using nt by simp
    moreover have "lit_value (cdcl_part s) lit < 0"
      using d(3) false_lit(1)[OF v, of lit] e(1,2) by (auto simp: clause_ok_def)
    ultimately have u: "unit_for (cdcl_part s) ?ls (blit w)" using e(1) ls unfolding unit_for_def clause_ok_def by auto
    have "implied F ?ls" using e(1) by (simp add: clause_ok_def)
    from assign_in_rok[OF d(1) u this] obtain t' where t: "assign_in opts (blit w) ?ls s = Inr (s\<lparr>cdcl_part := t'\<rparr>)"
        "extends (cdcl_part s) t'" "cdcl_reachable opts F A C t'" "blit w \<in> set (trail t')" by (auto elim!: rokE)
    have v': "visit_ok opts F A C p lit kept (w # ws) (s\<lparr>cdcl_part := t'\<rparr>)" by (rule visit_extends[OF v t(2,3)])
    have "guarded t' lit (blit w)" using visit_okD(7)[OF v'] t(4) by simp
    then have "entry_guarded (s\<lparr>cdcl_part := t'\<rparr>) lit w" by (intro guarded_entry) simp
    from keep_post[OF v' this] False t(1) show ?thesis by simp
  qed
qed

text \<open>Watching a literal of the right level instead; \<open>oth\<close> has just been assigned by the clause.\<close>

lemma watch_level_rok:
  assumes v: "visit_ok opts F A C p lit kept (w # ws) s"
    and c: "ls = literals (arena s (wclause w))" "\<not> garbage (arena s (wclause w))"
    and o: "{ls ! 0, ls ! 1} = {lit, oth}" "oth \<noteq> lit" "oth \<in> set (trail (cdcl_part s))"
    and lv: "lit_level (cdcl_part s) oth > lit_level (cdcl_part s) lit \<Longrightarrow>
      \<exists>x\<in>set ls. x \<noteq> oth \<and> lit_level (cdcl_part s) x = lit_level (cdcl_part s) oth"
  shows "rok (watch_level lit oth w s) (visit_post opts F A C p lit kept ws w)"
proof (cases "lit_level (cdcl_part s) oth > lit_level (cdcl_part s) lit")
  case False
  have "guarded (cdcl_part s) lit oth" by (rule visit_okD(7)[OF v o(3)])
  moreover have "oth \<in> {ls ! 0, ls ! 1}" using o(1) by simp
  ultimately have "entry_guarded s lit w" using o(2) c(1) unfolding entry_guarded_def Let_def by blast
  from keep_post[OF v this] False show ?thesis by (simp add: watch_level_def Let_def)
next
  case True
  let ?t = "cdcl_part s" and ?f = "filter (\<lambda>p. lit_level (cdcl_part s) (ls ! p) = lit_level (cdcl_part s) oth) [2..<length ls]"
  have cl: "clause_ok F ?t (arena s (wclause w))" using visit_okD(2)[OF v, of w] by (simp add: entry_ok_def Let_def)
  obtain x where x: "x \<in> set ls" "x \<noteq> oth" "lit_level ?t x = lit_level ?t oth" using lv[OF True] by blast
  then obtain j where j: "j < length ls" "ls ! j = x" by (auto simp: in_set_conv_nth)
  have "x \<noteq> lit" using x(3) True by auto
  then have "x \<notin> {ls ! 0, ls ! 1}" using x(2) unfolding o(1) by simp
  then have "2 \<le> j" using j by (cases j; cases "j - 1") auto
  then have "j \<in> set ?f" using j x(3) by simp
  then obtain q qs where q: "?f = q # qs" by (cases ?f) auto
  then have "q \<in> set ?f" by simp
  then have k: "2 \<le> q" "q < length ls" "lit_level ?t (ls ! q) = lit_level ?t oth" by auto
  have dist: "distinct ls" using cl c(1) by (simp add: clause_ok_def)
  have g: "guarded ?t (ls ! q) oth" if neg: "- (ls ! q) \<in> set (trail ?t)"
    unfolding guarded_def
  proof (intro conjI ballI impI)
    fix l assume l: "l \<in> {1..level ?t}" "vtrail (vtab ?t (vidx (ls ! q))) < start (control ?t ! l)"
    obtain i where i: "i < length (trail ?t)" "trail ?t ! i = - (ls ! q)" using neg by (metis in_set_conv_nth)
    have "vtrail (vtab ?t (vidx (ls ! q))) = i" using trail_invD(7)[OF visit_okD(5)[OF v] i(1)] by (simp add: i(2) vidx_simps)
    then have "lit_level ?t (trail ?t ! i) < l" using levels_invD(5)[OF visit_okD(6)[OF v] l(1)] l(2) by simp
    then show "lit_level ?t oth < l" using k(3) by (simp add: i(2) vidx_simps)
  qed (rule o(3))
  note s = visit_swap[OF v refl c k(1,2) refl o(1,2), of oth, OF _ g]
  have "watch_level lit oth w s = rbind (watch_literal (ls ! q) oth (wclause w)
      (set_literals (wclause w) (ls[0 := oth, 1 := ls ! q, q := lit]) s)) (\<lambda>s. Inr (Drop, s))"
    using True q s(1) swap_watch(4)[OF dist k(1,2) o(1)] by (simp add: watch_level_def Let_def c(1))
  moreover have "rok (rbind (watch_literal (ls ! q) oth (wclause w)
      (set_literals (wclause w) (ls[0 := oth, 1 := ls ! q, q := lit]) s)) (\<lambda>s. Inr (Drop, s)))
      (visit_post opts F A C p lit kept ws w)"
    by (rule rok_bind[OF s(2)]) (simp_all add: visit_post_def)
  ultimately show ?thesis by simp
qed

lemma visit_long_eq:
  fixes s :: "'a csolver"
  defines "t \<equiv> cdcl_part s"
  assumes "ls = literals (arena s (wclause w))" "m = cpos (arena s (wclause w))" "oth = ls ! 0 XOR ls ! 1 XOR lit"
    and "replacement t ls m = (k, x)" "2 \<le> length ls" "m \<le> length ls"
  shows "visit_long opts lit w s =
      (if lit_value t oth > 0 then Inr (Keep (w\<lparr>blit := oth\<rparr>), s)
       else if x > 0 then Inr (Keep (w\<lparr>blit := ls ! k\<rparr>), (set_cpos (wclause w) k s))
       else if x = 0 then
         if ls ! k = lit then Inl BufferOverflow
         else rbind (watch_literal (ls ! k) lit (wclause w) (set_literals (wclause w) (ls[0 := oth, 1 := ls ! k, k := lit]) (set_cpos (wclause w) k s)))
           (\<lambda>s. Inr (Drop, s))
       else if lit_value t oth = 0 then
         rbind (assign_in opts oth ls (set_cpos (wclause w) k s)) (\<lambda>s. if opt_chrono opts > 1 then watch_level lit oth w s else Inr (Keep w, s))
       else Inr (Stop, (set_cpos (wclause w) k s)\<lparr>conflict := Some (wclause w)\<rparr>))"
  using assms(5-7) unfolding visit_long_def Let_def t_def assms(2-4) by simp

lemma visit_long_rok:
  assumes v: "visit_ok opts F A C p lit kept (w # ws) s"
    and w: "\<not> binary w" "\<not> garbage (arena s (wclause w))" "conflict s = None"
  shows "rok (visit_long opts lit w s) (visit_post opts F A C p lit kept ws w)"
proof -
  note d = visit_okD[OF v]
  let ?t = "cdcl_part s" and ?c = "wclause w"
  define ls where "ls = literals (arena s ?c)"
  define m where "m = cpos (arena s ?c)"
  define oth where "oth = ls ! 0 XOR ls ! 1 XOR lit"
  have e: "entry_ok F s lit w" using d(2)[of w] by simp
  then have cl: "distinct ls" "2 \<le> length ls" "\<forall>x\<in>set ls. ok_lit ?t x" "2 \<le> m" "m \<le> length ls" "implied F ls"
    and l01: "lit \<in> {ls ! 0, ls ! 1}"
    using w(2) by (simp_all add: entry_ok_def Let_def clause_ok_def ls_def m_def)
  note o = other_watch[OF cl(1,2) l01, folded oth_def]
  have in_ls: "lit \<in> set ls" "oth \<in> set ls"
  proof -
    have "{ls ! 0, ls ! 1} \<subseteq> set ls" using cl(2) by (auto intro: nth_mem)
    then show "lit \<in> set ls" "oth \<in> set ls" unfolding o(1) by simp_all
  qed
  have nz: "x \<in> set ls \<Longrightarrow> x \<noteq> 0" for x using cl(3) by blast
  note fl = false_lit[OF v nz]
  have keep: "visit_post opts F A C p lit kept ws w (Keep (w\<lparr>blit := x\<rparr>), s')"
    if v': "visit_ok opts F A C p lit kept (w # ws) s'" and s': "cdcl_part s' = ?t" "entry_ok F s' lit w"
      "literals (arena s' ?c) = ls"
      and x: "x \<in> set ls" "x \<noteq> lit" "x \<in> set (trail ?t)" for x s'
  proof -
    have "entry_ok F s' lit (w\<lparr>blit := x\<rparr>)" using s'(2,3) x(1,2) by (simp add: entry_ok_def Let_def binary_def)
    moreover have "entry_guarded s' lit (w\<lparr>blit := x\<rparr>)" using d(7)[OF x(3)] s'(1) by (intro guarded_entry) simp
    ultimately show ?thesis using visit_keep[OF v', of "w\<lparr>blit := x\<rparr>"] by (simp add: visit_post_def)
  qed
  obtain k x where r: "replacement ?t ls m = (k, x)" by fastforce
  note rep = replacement_result[OF r cl(4,5)]
  let ?s = "set_cpos ?c k s"
  have v1: "visit_ok opts F A C p lit kept (w # ws) ?s"
    by (rule visit_cpos[OF v rep(1)]) (use rep(2) in \<open>simp add: ls_def\<close>)
  have ls1: "literals (arena ?s ?c) = ls" "\<not> garbage (arena ?s ?c)" by (simp_all add: ls_def w(2))
  note eq = visit_long_eq[OF ls_def m_def oth_def r cl(2,5), of opts]
  have rk: "ls ! k \<in> set ls" "ls ! k \<noteq> lit" if "k < length ls"
  proof -
    show "ls ! k \<in> set ls" using that by simp
    have "0 < length ls" "1 < length ls" using cl(2) by linarith+
    then have "ls ! k \<noteq> ls ! 0" "ls ! k \<noteq> ls ! 1" using rep(1) that nth_eq_iff_index_eq[OF cl(1) that] by auto
    then show "ls ! k \<noteq> lit" using l01 by auto
  qed
  consider (other) "lit_value ?t oth > 0" | (sat) "\<not> lit_value ?t oth > 0" "x > 0" | (move) "\<not> lit_value ?t oth > 0" "x = 0"
    | (unit) "lit_value ?t oth = 0" "x < 0" | (conf) "lit_value ?t oth < 0" "x < 0" by linarith
  then show ?thesis
  proof cases
    case other
    then have "oth \<in> set (trail ?t)" using fl(2)[OF in_ls(2)] by blast
    from keep[OF v refl e ls_def[symmetric] in_ls(2) o(2) this] other show ?thesis by (simp add: eq)
  next
    case sat
    then have k: "k < length ls" "lit_value ?t (ls ! k) > 0" using rep(3) by (simp_all split: if_splits)
    then have "ls ! k \<in> set (trail ?t)" using fl(2)[OF rk(1)] by blast
    from keep[OF v1 _ visit_okD(2)[OF v1] ls1(1) rk[OF k(1)] this] sat show ?thesis by (simp add: eq)
  next
    case move
    then have k: "k < length ls" "lit_value ?t (ls ! k) = 0" using rep(3) by (simp_all split: if_splits)
    then have "- (ls ! k) \<notin> set (trail ?t)" using fl(1)[OF rk(1)] by auto
    then have g: "- (ls ! k) \<in> set (trail (cdcl_part ?s)) \<Longrightarrow> guarded (cdcl_part ?s) (ls ! k) lit" by simp
    have "rok (watch_literal (ls ! k) lit ?c (set_literals ?c (ls[0 := oth, 1 := ls ! k, k := lit]) ?s))
        (visit_ok opts F A C p lit kept ws)"
      by (rule visit_swap(2)[OF v1 refl ls1(1)[symmetric] ls1(2) rep(1) k(1) refl o _ g]) simp_all
    from rok_bind[OF this, of "\<lambda>s. Inr (Drop, s)" "visit_post opts F A C p lit kept ws w"]
    show ?thesis using move rk(2)[OF k(1)] by (simp add: eq visit_post_def)
  next
    case unit
    then have low: "\<forall>k\<in>{2..<length ls}. lit_value ?t (ls ! k) < 0" using rep(3) by simp
    have neg: "lit_value ?t y < 0" if y: "y \<in> set ls" "y \<noteq> oth" for y
    proof -
      obtain j where j: "j < length ls" "ls ! j = y" using y(1) by (auto simp: in_set_conv_nth)
      show ?thesis
      proof (cases "j < 2")
        case True
        then have "y \<in> {ls ! 0, ls ! 1}" using j(2) by (auto simp: less_2_cases_iff)
        then have "y = lit" using y(2) unfolding o(1) by simp
        then show ?thesis using fl(1)[OF in_ls(1)] d(3) by blast
      next
        case False
        then have "j \<in> {2..<length ls}" using j(1) by simp
        then show ?thesis using low j(2) by blast
      qed
    qed
    have u: "unit_for (cdcl_part ?s) ls oth" using in_ls(2) unit(1) cl(3) neg by (simp add: unit_for_def)
    have "cdcl_reachable opts F A C (cdcl_part ?s)" using d(1) by simp
    from assign_in_rok[OF this u cl(6)] obtain t' where t: "assign_in opts oth ls ?s = Inr (?s\<lparr>cdcl_part := t'\<rparr>)"
        "extends (cdcl_part ?s) t'" "cdcl_reachable opts F A C t'" "oth \<in> set (trail t')"
        "0 < opt_chrono opts \<longrightarrow> lit_level t' oth = 0 \<or> (\<exists>y\<in>set ls. y \<noteq> oth \<and> lit_level t' y = lit_level t' oth)"
      by (auto elim!: rokE)
    let ?s' = "?s\<lparr>cdcl_part := t'\<rparr>"
    have v': "visit_ok opts F A C p lit kept (w # ws) ?s'" by (rule visit_extends[OF v1 t(2,3)])
    have "rok (if opt_chrono opts > 1 then watch_level lit oth w ?s' else Inr (Keep w, ?s'))
        (visit_post opts F A C p lit kept ws w)"
    proof (cases "opt_chrono opts > 1")
      case True
      have "rok (watch_level lit oth w ?s') (visit_post opts F A C p lit kept ws w)"
      proof (rule watch_level_rok[OF v' _ _ o])
        show "ls = literals (arena ?s' ?c)" "\<not> garbage (arena ?s' ?c)" using ls1 by simp_all
      qed (use t(4,5) True in auto)
      then show ?thesis using True by simp
    next
      case False
      have "guarded (cdcl_part ?s') lit oth" using visit_okD(7)[OF v'] t(4) by simp
      moreover have "oth \<in> {ls ! 0, ls ! 1}" using o(1) by simp
      ultimately have "entry_guarded ?s' lit w" using o(2) ls1(1) unfolding entry_guarded_def Let_def by auto
      from keep_post[OF v' this] False show ?thesis by simp
    qed
    then show ?thesis using unit t(1) by (simp add: eq)
  next
    case conf
    then have low: "\<forall>k\<in>{2..<length ls}. lit_value ?t (ls ! k) < 0" using rep(3) by simp
    have "falsified ?s ?c" unfolding falsified_def ls1(1)
    proof
      fix y assume y: "y \<in> set ls"
      then obtain j where j: "j < length ls" "ls ! j = y" by (auto simp: in_set_conv_nth)
      have "lit_value ?t y < 0"
      proof (cases "j < 2")
        case True
        then have "y \<in> {ls ! 0, ls ! 1}" using j(2) by (auto simp: less_2_cases_iff)
        then show ?thesis using conf(1) fl(1)[OF in_ls(1)] d(3) unfolding o(1) by blast
      next
        case False
        then have "j \<in> {2..<length ls}" using j(1) by simp
        then show ?thesis using low j(2) by blast
      qed
      then show "- y \<in> set (trail (cdcl_part ?s))" using fl(1)[OF y] by simp
    qed
    from visit_conflict[OF v1 this] conf show ?thesis by (simp add: eq visit_post_def)
  qed
qed

lemma visit_watch_rok:
  assumes v: "visit_ok opts F A C p lit kept (w # ws) s"
  shows "rok (visit_watch opts lit w s) (visit_post opts F A C p lit kept ws w)"
proof -
  let ?b = "lit_value (cdcl_part s) (blit w)"
  have e: "entry_ok F s lit w" using visit_okD(2)[OF v, of w] by simp
  then have nz: "blit w \<noteq> 0" by (auto simp: entry_ok_def Let_def clause_ok_def)
  show ?thesis
  proof (cases "?b > 0")
    case True
    then have "guarded (cdcl_part s) lit (blit w)" using visit_okD(7)[OF v] false_lit(2)[OF v nz] by blast
    from keep_post[OF v guarded_entry[OF this]] True show ?thesis by (simp add: visit_watch_def)
  next
    case nt: False
    show ?thesis
    proof (cases "binary w")
      case True
      from visit_binary[OF v True nt] show ?thesis using nt True by (simp add: visit_watch_def)
    next
      case False
      then have "visit_watch opts lit w s = (if conflict s \<noteq> None then Inr (Stop, s)
          else if garbage (arena s (wclause w)) then Inr (Drop, s) else visit_long opts lit w s)"
        using nt by (simp add: visit_watch_def)
      then show ?thesis
        using v visit_garbage[OF v] visit_long_rok[OF v False] by (auto simp: visit_post_def)
    qed
  qed
qed

section \<open>The whole trail\<close>

lemma with_watches_same [simp]:
  "with_watches lit ws (with_watches lit ws' s) = with_watches lit ws s" "with_watches lit (wtab s lit) s = s"
  by (simp_all add: with_watches_def)

lemma visit_ok_with [simp]:
  "visit_ok opts F A C p lit kept ws (with_watches lit ws' s) \<longleftrightarrow> visit_ok opts F A C p lit kept ws s"
proof -
  have "falsified (with_watches lit ws' s) c \<longleftrightarrow> falsified s c" for c by (simp add: falsified_def)
  then show ?thesis by (simp add: visit_ok_def del: with_watches_simps(5))
qed

lemma watch_loop_rok:
  assumes "visit_ok opts F A C p lit kept ws s"
  shows "rok (watch_loop opts lit kept ws s) (\<lambda>s'. \<exists>kept' rest. wtab s' lit = kept' @ rest \<and>
    visit_ok opts F A C p lit kept' rest s' \<and> (rest = [] \<or> conflict s' \<noteq> None))"
  using assms
proof (induction ws arbitrary: kept s)
  case Nil
  let ?s = "s\<lparr>wtab := (wtab s)(lit := kept)\<rparr>"
  have e: "?s = with_watches lit kept s" by (simp add: with_watches_def)
  have "wtab ?s lit = kept @ [] \<and> visit_ok opts F A C p lit kept [] ?s" using Nil unfolding e by simp
  then show ?case unfolding watch_loop.simps rok_simps by blast
next
  case (Cons w ws)
  from visit_watch_rok[OF Cons.prems] obtain r s1 where r: "visit_watch opts lit w s = Inr (r, s1)"
      "visit_post opts F A C p lit kept ws w (r, s1)" by (auto elim!: rokE)
  show ?case
  proof (cases r)
    case (Keep w')
    with r(2) have "visit_ok opts F A C p lit (kept @ [w']) ws s1" by (simp add: visit_post_def)
    from Cons.IH[OF this] show ?thesis by (simp add: r(1) Keep)
  next
    case Drop
    with r(2) have "visit_ok opts F A C p lit kept ws s1" by (simp add: visit_post_def)
    from Cons.IH[OF this] show ?thesis by (simp add: r(1) Drop)
  next
    case Stop
    let ?s = "s1\<lparr>wtab := (wtab s1)(lit := kept @ w # ws)\<rparr>"
    have e: "?s = with_watches lit (kept @ w # ws) s1" by (simp add: with_watches_def)
    have "visit_ok opts F A C p lit kept (w # ws) s1" "conflict s1 \<noteq> None" using r(2) Stop by (simp_all add: visit_post_def)
    then have "wtab ?s lit = kept @ (w # ws) \<and> visit_ok opts F A C p lit kept (w # ws) ?s \<and> conflict ?s \<noteq> None"
      unfolding e by simp
    moreover have "watch_loop opts lit kept (w # ws) s = Inr ?s" by (simp add: r(1) Stop)
    ultimately show ?thesis unfolding \<open>watch_loop opts lit kept (w # ws) s = Inr ?s\<close> rok_simps by blast
  qed
qed

text \<open>
  The invariant of the solver between propagations: watches before position \<open>q\<close> are guarded.  After a
  conflict the literal at \<open>q\<close> is not completely visited; backtracking makes \<open>propagated\<close> smaller than \<open>q + 1\<close>.
\<close>

definition solver_inv :: "options \<Rightarrow> int list list \<Rightarrow> int list \<Rightarrow> int list \<Rightarrow> nat \<Rightarrow> 'a::linordered_field csolver \<Rightarrow> bool" where
  "solver_inv opts F A C q s \<longleftrightarrow> cdcl_reachable opts F A C (cdcl_part s) \<and> watch_inv F s \<and> guards q s \<and>
     (\<forall>l\<in>{1..level (cdcl_part s)}. start (control (cdcl_part s) ! l) \<le> q) \<and>
     (conflict s = None \<longrightarrow> propagated (cdcl_part s) = q) \<and>
     (\<forall>c. conflict s = Some c \<longrightarrow> propagated (cdcl_part s) = Suc q \<and> falsified s c)"

lemma reachable_trail:
  assumes "cdcl_reachable opts F A C t"
  shows "trail_inv t" "levels_inv opts t" "base_inv t"
  using cdcl_reachable_inv[OF assms] cdcl_invD(1-3) unfolding query_inv_def by blast+

text \<open>Propagation changes neither levels, nor assigned variables, nor the clauses, except for the order of their literals.\<close>

definition same_levels :: "'a csolver \<Rightarrow> 'a csolver \<Rightarrow> bool" where
  "same_levels s s' \<longleftrightarrow> level (cdcl_part s') = level (cdcl_part s) \<and> control (cdcl_part s') = control (cdcl_part s) \<and>
     n_vars (base (cdcl_part s')) = n_vars (base (cdcl_part s)) \<and> clause_ids s' = clause_ids s \<and>
     (\<forall>x. var_value (cdcl_part s) x \<noteq> 0 \<longrightarrow>
        var_value (cdcl_part s') x = var_value (cdcl_part s) x \<and> vtab (cdcl_part s') x = vtab (cdcl_part s) x) \<and>
     (\<forall>c. garbage (arena s' c) = garbage (arena s c) \<and> mset (literals (arena s' c)) = mset (literals (arena s c)))"

lemma same_levels_refl: "same_levels s s" "same_levels s (s\<lparr>conflict := c\<rparr>)" "same_levels s (s\<lparr>wtab := wt\<rparr>)"
  by (simp_all add: same_levels_def)

lemma same_levels_trans: "same_levels s s1 \<Longrightarrow> same_levels s1 s2 \<Longrightarrow> same_levels s s2"
  by (simp add: same_levels_def)

lemma same_levels_steps:
  "assign_in opts x c s = Inr s' \<Longrightarrow> same_levels s s'"
  "watch_literal x b d s = Inr s' \<Longrightarrow> same_levels s s'"
  "same_levels s (set_cpos d k s)"
  "mset ls = mset (literals (arena s d)) \<Longrightarrow> same_levels s (set_literals d ls s)"
  by (auto simp: same_levels_def assign_in_def search_assign_def watch_literal_def set_value_def Let_def rbind_def
      split: sum.splits if_splits)

lemma moved_watch:
  assumes w: "watch_literal r b d (set_literals d ls s) = Inr s'" and ls: "mset ls = mset (literals (arena s d))"
  shows "same_levels s s'"
  by (rule same_levels_trans[OF same_levels_steps(4)[OF ls] same_levels_steps(2)[OF w]])

lemma watch_level_same_levels:
  assumes r: "watch_level lit oth w s = Inr (r, s')" and dist: "distinct (literals (arena s (wclause w)))"
    and o: "{literals (arena s (wclause w)) ! 0, literals (arena s (wclause w)) ! 1} = {lit, oth}"
  shows "same_levels s s'"
proof -
  let ?ls = "literals (arena s (wclause w))"
  let ?f = "filter (\<lambda>p. lit_level (cdcl_part s) (?ls ! p) = lit_level (cdcl_part s) oth) [2..<length ?ls]"
  show ?thesis
  proof (cases "lit_level (cdcl_part s) oth > lit_level (cdcl_part s) lit")
    case False
    then show ?thesis using r same_levels_refl by (simp add: watch_level_def Let_def)
  next
    case True
    then obtain p ps where p: "?f = p # ps" using r by (cases ?f) (simp_all add: watch_level_def Let_def)
    then have "p \<in> set ?f" by simp
    then have k: "2 \<le> p" "p < length ?ls" by auto
    show ?thesis
      using r True swap_watch(1,4)[OF dist k o] moved_watch
      by (auto simp: watch_level_def Let_def p rbind_Inr split: if_splits)
  qed
qed

lemma visit_same_levels:
  assumes v: "visit_ok opts F A C p lit kept (w # ws) s" and run: "visit_watch opts lit w s = Inr (r, s')"
  shows "same_levels s s'"
proof -
  have long: "same_levels s s'" if run: "visit_long opts lit w s = Inr (r, s')" and ng: "\<not> garbage (arena s (wclause w))"
  proof -
    let ?t = "cdcl_part s" and ?c = "wclause w"
    define ls where "ls = literals (arena s ?c)"
    define m where "m = cpos (arena s ?c)"
    define oth where "oth = ls ! 0 XOR ls ! 1 XOR lit"
    have "entry_ok F s lit w" using visit_okD(2)[OF v, of w] by simp
    then have cl: "distinct ls" "2 \<le> length ls" "2 \<le> m" "m \<le> length ls" "lit \<in> {ls ! 0, ls ! 1}"
      using ng by (simp_all add: entry_ok_def Let_def clause_ok_def ls_def m_def)
    note o = other_watch[OF cl(1,2,5), folded oth_def]
    obtain k x where rep: "replacement ?t ls m = (k, x)" by fastforce
    note res = replacement_result[OF rep cl(3,4)]
    let ?s = "set_cpos ?c k s"
    have ls1: "literals (arena ?s ?c) = ls" by (simp add: ls_def)
    have pos: "same_levels s ?s" by (rule same_levels_steps(3))
    note eq = visit_long_eq[OF ls_def m_def oth_def rep cl(2,4), of opts]
    show ?thesis
    proof (cases "lit_value ?t oth \<le> 0 \<and> x = 0")
      case True
      then have "k < length ls" using res(3) by (simp split: if_splits)
      from swap_watch(1)[OF cl(1) res(1) this o(1)] have "mset (ls[0 := oth, 1 := ls ! k, k := lit]) = mset (literals (arena ?s ?c))"
        by (simp only: ls1)
      note moved = same_levels_trans[OF pos moved_watch[OF _ this]]
      have "\<not> 0 < lit_value ?t oth" "x = 0" using True by simp_all
      then show ?thesis using run moved unfolding eq by (auto simp: rbind_Inr split: if_splits)
    next
      case False
      have "same_levels s s2" if a: "assign_in opts oth ls ?s = Inr s1" and s2: "watch_level lit oth w s1 = Inr (r, s2)" for s1 s2
      proof -
        have "literals (arena s1 ?c) = ls" using a ls1 by (auto simp: assign_in_def rbind_Inr)
        then have "same_levels s1 s2" using watch_level_same_levels[OF s2] cl(1) o(1) by simp
        with same_levels_trans[OF pos same_levels_steps(1)[OF a]] show ?thesis by (rule same_levels_trans)
      qed
      moreover have "same_levels s s1" if "assign_in opts oth ls ?s = Inr s1" for s1
        by (rule same_levels_trans[OF pos same_levels_steps(1)[OF that]])
      moreover have "same_levels s (?s\<lparr>conflict := Some ?c\<rparr>)" by (rule same_levels_trans[OF pos same_levels_refl(2)])
      ultimately show ?thesis using run False pos same_levels_refl(1) unfolding eq
        by (auto simp: rbind_Inr not_le split: if_splits)
    qed
  qed
  show ?thesis using run long same_levels_refl same_levels_steps(1)
    unfolding visit_watch_def Let_def by (auto simp: rbind_Inr split: if_splits)
qed

lemma watch_loop_same_levels:
  "visit_ok opts F A C p lit kept ws s \<Longrightarrow> watch_loop opts lit kept ws s = Inr s' \<Longrightarrow> same_levels s s'"
proof (induction ws arbitrary: kept s)
  case Nil
  then show ?case by (auto simp: same_levels_def)
next
  case (Cons w ws)
  from visit_watch_rok[OF Cons.prems(1)] obtain r s1 where r: "visit_watch opts lit w s = Inr (r, s1)"
      "visit_post opts F A C p lit kept ws w (r, s1)" by (auto elim!: rokE)
  have "same_levels s1 s'"
  proof (cases r)
    case Stop
    then show ?thesis using Cons.prems(2) same_levels_refl(3) by (auto simp: r(1))
  qed (use Cons r in \<open>auto simp: visit_post_def\<close>)
  with same_levels_trans[OF visit_same_levels[OF Cons.prems(1) r(1)]] show ?case by blast
qed

text \<open>Addresses are numbers in the order of allocation; no clause is collected.\<close>

definition ids_ok :: "'a csolver \<Rightarrow> bool" where
  "ids_ok s \<longleftrightarrow> clause_ids s = [0..<length (clause_ids s)] \<and> (\<forall>c. \<not> garbage (arena s c)) \<and>
     (\<forall>lit. \<forall>w\<in>set (wtab s lit). wclause w \<in> set (clause_ids s)) \<and>
     (\<forall>c. conflict s = Some c \<longrightarrow> c \<in> set (clause_ids s))"

lemma ids_steps:
  "assign_in opts x c s = Inr s' \<Longrightarrow> ids_ok s' = ids_ok s \<and> clause_ids s' = clause_ids s"
  "watch_literal x b d s = Inr s' \<Longrightarrow> ids_ok s \<Longrightarrow> d \<in> set (clause_ids s) \<Longrightarrow> ids_ok s'"
  "ids_ok (set_cpos d k s) = ids_ok s" "ids_ok (set_literals d ls s) = ids_ok s"
  "ids_ok s \<Longrightarrow> d \<in> set (clause_ids s) \<Longrightarrow> ids_ok (s\<lparr>conflict := Some d\<rparr>)"
  by (auto simp: ids_ok_def assign_in_def watch_literal_def set_cpos_def set_literals_def rbind_Inr split: if_splits)

lemma moved_ids:
  assumes "watch_literal r b d (set_literals d ls s) = Inr s'" "ids_ok s" "d \<in> set (clause_ids s)"
  shows "ids_ok s'"
  by (rule ids_steps(2)[OF assms(1)]) (simp_all add: ids_steps(4) assms)

lemma visit_ids:
  assumes run: "visit_watch opts lit w s = Inr (r, s')" and ids: "ids_ok s" "wclause w \<in> set (clause_ids s)"
  shows "ids_ok s'" "r = Keep w' \<Longrightarrow> wclause w' = wclause w"
proof -
  have lv: "ids_ok s' \<and> (\<forall>w'. r = Keep w' \<longrightarrow> wclause w' = wclause w)"
    if "watch_level lit x w s = Inr (r, s')" "ids_ok s" "wclause w \<in> set (clause_ids s)" for x r and s s' :: "'a csolver"
    using that moved_ids unfolding watch_level_def Let_def by (auto simp: rbind_Inr split: if_splits list.splits)
  define ls where "ls = literals (arena s (wclause w))"
  define m where "m = cpos (arena s (wclause w))"
  define oth where "oth = ls ! 0 XOR ls ! 1 XOR lit"
  obtain k x where rep: "replacement (cdcl_part s) ls m = (k, x)" by fastforce
  let ?s = "set_cpos (wclause w) k s"
  have i1: "ids_ok ?s" "wclause w \<in> set (clause_ids ?s)" using ids by (simp_all add: ids_steps(3))
  have as: "ids_ok s1 \<and> wclause w \<in> set (clause_ids s1)" if "assign_in opts y ls ?s = Inr s1" for y s1
    using ids_steps(1)[OF that] i1 by simp
  have long: "ids_ok s' \<and> (\<forall>w'. r = Keep w' \<longrightarrow> wclause w' = wclause w)" if l: "visit_long opts lit w s = Inr (r, s')"
  proof -
    have "2 \<le> length ls" "m \<le> length ls"
      using l unfolding visit_long_def Let_def ls_def m_def by (auto split: if_splits)
    note e = l[unfolded visit_long_eq[OF ls_def m_def oth_def rep this, of opts]]
    have moved: "ids_ok s1"
      if "watch_literal (ls ! k) lit (wclause w) (set_literals (wclause w) (ls[0 := oth, 1 := ls ! k, k := lit]) ?s) = Inr s1" for s1
      by (rule moved_ids[OF that i1])
    have unit_ok: "ids_ok s' \<and> (\<forall>w'. r = Keep w' \<longrightarrow> wclause w' = wclause w)"
      if "rbind (assign_in opts oth ls ?s) (\<lambda>s. if opt_chrono opts > 1 then watch_level lit oth w s else Inr (Keep w, s)) = Inr (r, s')"
    proof -
      obtain s1 where s1: "assign_in opts oth ls ?s = Inr s1"
          "(if opt_chrono opts > 1 then watch_level lit oth w s1 else Inr (Keep w, s1)) = Inr (r, s')"
        using \<open>rbind _ _ = _\<close> by (auto simp: rbind_Inr)
      show ?thesis
      proof (cases "opt_chrono opts > 1")
        case True
        then have "watch_level lit oth w s1 = Inr (r, s')" using s1(2) by simp
        then show ?thesis using as[OF s1(1)] by (intro lv) blast+
      next
        case False
        then have "r = Keep w" "s' = s1" using s1(2) by simp_all
        then show ?thesis using as[OF s1(1)] by simp
      qed
    qed
    have conf_ok: "ids_ok (?s\<lparr>conflict := Some (wclause w)\<rparr>)" by (rule ids_steps(5)[OF i1])
    consider (other) "lit_value (cdcl_part s) oth > 0" | (sat) "\<not> lit_value (cdcl_part s) oth > 0" "x > 0"
      | (move) "\<not> lit_value (cdcl_part s) oth > 0" "x = 0" | (unit) "lit_value (cdcl_part s) oth = 0" "x < 0"
      | (conf) "lit_value (cdcl_part s) oth < 0" "x < 0" by linarith
    then show ?thesis
    proof cases
      case move
      then show ?thesis using e moved by (auto simp: rbind_Inr split: if_splits)
    next
      case unit
      then have "\<not> lit_value (cdcl_part s) oth > 0" "\<not> x > 0" "x \<noteq> 0" by linarith+
      from e[unfolded if_not_P[OF this(1)] if_not_P[OF this(2)] if_not_P[OF this(3)] if_P[OF unit(1)]]
      show ?thesis by (rule unit_ok)
    next
      case conf
      then show ?thesis using e conf_ok by auto
    qed (use e ids(1) i1(1) in auto)
  qed
  have "ids_ok s' \<and> (\<forall>w'. r = Keep w' \<longrightarrow> wclause w' = wclause w)"
  proof (cases "\<not> lit_value (cdcl_part s) (blit w) > 0 \<and> \<not> binary w \<and> conflict s = None \<and> \<not> garbage (arena s (wclause w))")
    case True
    then have "visit_long opts lit w s = Inr (r, s')" using run by (simp add: visit_watch_def)
    then show ?thesis by (rule long)
  next
    case False
    have "ids_ok s1" if "assign_in opts y ls s = Inr s1" for y ls s1 using ids_steps(1)[OF that] ids by simp
    then show ?thesis
      using run False ids(1) ids_steps(5)[OF ids] unfolding visit_watch_def Let_def by (auto simp: rbind_Inr split: if_splits)
  qed
  then show "ids_ok s'" "r = Keep w' \<Longrightarrow> wclause w' = wclause w" by blast+
qed

lemma watch_loop_ids:
  assumes "visit_ok opts F A C p lit kept ws s" "watch_loop opts lit kept ws s = Inr s'" "ids_ok s"
    and "wclause ` set (kept @ ws) \<subseteq> set (clause_ids s)"
  shows "ids_ok s'"
  using assms
proof (induction ws arbitrary: kept s)
  case Nil
  then show ?case by (auto simp: ids_ok_def image_subset_iff split: if_splits)
next
  case (Cons w ws)
  from visit_watch_rok[OF Cons.prems(1)] obtain r s1 where r: "visit_watch opts lit w s = Inr (r, s1)"
      "visit_post opts F A C p lit kept ws w (r, s1)" by (auto elim!: rokE)
  have "clause_ids s1 = clause_ids s" using visit_same_levels[OF Cons.prems(1) r(1)] by (simp add: same_levels_def)
  moreover have "wclause w \<in> set (clause_ids s)" using Cons.prems(4) by simp
  note i = visit_ids[OF r(1) Cons.prems(3) this]
  ultimately show ?case
  proof (cases r)
    case (Keep w')
    have "wclause ` set ((kept @ [w']) @ ws) \<subseteq> set (clause_ids s1)"
      using Cons.prems(4) i(2)[OF Keep] \<open>clause_ids s1 = _\<close> by auto
    then show ?thesis using Cons.IH[of "kept @ [w']" s1] Cons.prems(2) r i(1) by (simp add: Keep visit_post_def)
  next
    case Drop
    then show ?thesis using Cons.IH[of kept s1] Cons.prems(2,4) r i(1) \<open>clause_ids s1 = _\<close> by (simp add: visit_post_def)
  next
    case Stop
    then show ?thesis using Cons.prems(2,4) r(1) i(1) \<open>clause_ids s1 = _\<close>
      by (auto simp: ids_ok_def image_subset_iff split: if_splits)
  qed
qed

lemma propagate_step_rok:
  assumes inv: "solver_inv opts F A C q s"
  shows "rok (propagate_step opts s) (\<lambda>r. case r of
      Continue s' \<Rightarrow> conflict s = None \<and> q < length (trail (cdcl_part s)) \<and> same_levels s s' \<and> (ids_ok s \<longrightarrow> ids_ok s') \<and>
        solver_inv opts F A C (if conflict s' = None then Suc q else q) s'
    | Break s' \<Rightarrow> s' = s \<and> (conflict s = None \<longrightarrow> q = length (trail (cdcl_part s))))"
proof -
  let ?t = "cdcl_part s"
  have r: "cdcl_reachable opts F A C ?t" and w: "watch_inv F s" "guards q s"
    and st: "\<forall>l\<in>{1..level ?t}. start (control ?t ! l) \<le> q" using inv by (simp_all add: solver_inv_def)
  note t = reachable_trail(1)[OF r]
  show ?thesis
  proof (cases "conflict s \<noteq> None \<or> propagated ?t = length (trail ?t)")
    case True
    then show ?thesis using inv by (auto simp: propagate_step_def Let_def solver_inv_def)
  next
    case False
    then have q: "propagated ?t = q" "conflict s = None" using inv by (simp_all add: solver_inv_def)
    then have ql: "q < length (trail ?t)" using False trail_invD(6)[OF t] by simp
    define lit where "lit = - (trail ?t ! q)"
    define s1 where "s1 = s\<lparr>cdcl_part := ?t\<lparr>propagated := Suc q\<rparr>\<rparr>"
    have s1: "cdcl_part s1 = ?t\<lparr>propagated := Suc q\<rparr>" "wtab s1 = wtab s" "arena s1 = arena s" "clause_ids s1 = clause_ids s"
      "conflict s1 = None" by (simp_all add: s1_def q(2))
    have r1: "cdcl_reachable opts F A C (?t\<lparr>propagated := Suc q\<rparr>)"
      by (rule cdcl_reachable.Step[OF r cdcl_step.Propagated]) (use ql in simp)
    have g: "guarded (?t\<lparr>propagated := Suc q\<rparr>) l x \<longleftrightarrow> guarded ?t l x" for l x by (simp add: guarded_def)
    have "watch_inv F s1" using w(1) unfolding watch_inv_def entry_ok_def clause_ok_def Let_def s1 by simp
    moreover have "guards q s1" using w(2) unfolding guards_def entry_guarded_def Let_def s1 g by simp
    ultimately have vis: "visit_ok opts F A C q lit [] (wtab s1 lit) s1"
      using r1 ql st unfolding visit_ok_def by (simp add: s1(1,5) lit_def)
    from watch_loop_rok[OF this] obtain s' kept rest where l: "watch_loop opts lit [] (wtab s1 lit) s1 = Inr s'"
        "wtab s' lit = kept @ rest" "visit_ok opts F A C q lit kept rest s'" "rest = [] \<or> conflict s' \<noteq> None"
      by (auto elim!: rokE)
    have run: "propagate_step opts s = Inr (Continue s')"
      using False q ql l(1) by (simp add: propagate_step_def Let_def lit_def s1_def)
    have same: "same_levels s s'" using watch_loop_same_levels[OF vis l(1)] by (simp add: same_levels_def s1)
    have ids: "ids_ok s'" if "ids_ok s"
    proof (rule watch_loop_ids[OF vis l(1)])
      show "ids_ok s1" "wclause ` set ([] @ wtab s1 lit) \<subseteq> set (clause_ids s1)"
        using that by (auto simp: ids_ok_def s1 q(2))
    qed
    have e: "with_watches lit (kept @ rest) s' = s'" using l(2) with_watches_same(2)[of lit s'] by simp
    have v: "cdcl_reachable opts F A C (cdcl_part s')" "watch_inv F s'" "guards q s'"
      "q < length (trail (cdcl_part s'))" "trail (cdcl_part s') ! q = - lit" "propagated (cdcl_part s') = Suc q"
      "\<forall>l\<in>{1..level (cdcl_part s')}. start (control (cdcl_part s') ! l) \<le> q"
      "conflict s' = None \<Longrightarrow> \<forall>w\<in>set kept. entry_guarded s' lit w" "\<forall>c. conflict s' = Some c \<longrightarrow> falsified s' c"
      using l(3) unfolding visit_ok_def e by blast+
    have "solver_inv opts F A C (if conflict s' = None then Suc q else q) s'"
    proof (cases "conflict s' = None")
      case True
      have "guards (Suc q) s'"
        unfolding guards_def
      proof (intro allI ballI impI)
        fix l x assume x: "x \<in> set (wtab s' l)" "- l \<in> set (trail (cdcl_part s'))"
          "vtrail (vtab (cdcl_part s') (vidx l)) < Suc q"
        obtain i where i: "i < length (trail (cdcl_part s'))" "trail (cdcl_part s') ! i = - l" using x(2) by (auto simp: in_set_conv_nth)
        have "vtrail (vtab (cdcl_part s') (vidx l)) = i"
          using trail_invD(7)[OF reachable_trail(1)[OF v(1)] i(1)] by (simp add: i(2) vidx_simps)
        then consider "vtrail (vtab (cdcl_part s') (vidx l)) < q" | "i = q" using x(3) by linarith
        then show "entry_guarded s' l x"
        proof cases
          case 1
          then show ?thesis using v(3) x(1,2) by (simp add: guards_def)
        next
          case 2
          then have "l = lit" using i(2) v(5) by simp
          then show ?thesis using x(1) l(2,4) v(8) True by simp
        qed
      qed
      then show ?thesis using v True by (simp add: solver_inv_def le_SucI)
    next
      case False
      then obtain c where "conflict s' = Some c" by blast
      then show ?thesis using v by (simp add: solver_inv_def)
    qed
    then show ?thesis using q(2) ql same ids by (simp add: run)
  qed
qed

text \<open>When the whole trail is propagated without conflict, no clause is falsified.\<close>

lemma propagated_clauses:
  assumes inv: "solver_inv opts F A C q s" and n: "conflict s = None" and q: "q = length (trail (cdcl_part s))"
    and c: "c \<in> set (clause_ids s)" "\<not> garbage (arena s c)"
  shows "\<exists>x\<in>set (literals (arena s c)). ok_lit (cdcl_part s) x \<and> lit_value (cdcl_part s) x \<ge> 0"
proof -
  let ?t = "cdcl_part s" and ?ls = "literals (arena s c)"
  have w: "watch_inv F s" "guards q s" and t: "trail_inv ?t"
    using inv reachable_trail(1) by (auto simp: solver_inv_def)
  have cl: "clause_ok F ?t (arena s c)" "c \<in> wclause ` set (wtab s (?ls ! 0))" using w(1) c by (auto simp: watch_inv_def)
  then obtain e where e: "e \<in> set (wtab s (?ls ! 0))" "wclause e = c" by blast
  have in_ls: "?ls ! 0 \<in> set ?ls" "{?ls ! 0, ?ls ! 1} \<subseteq> set ?ls" using cl(1) by (auto simp: clause_ok_def intro!: nth_mem)
  have ok: "x \<in> set ?ls \<Longrightarrow> ok_lit ?t x" for x using cl(1) by (simp add: clause_ok_def)
  show ?thesis
  proof (cases "- (?ls ! 0) \<in> set (trail ?t)")
    case True
    then obtain i where i: "i < length (trail ?t)" "trail ?t ! i = - (?ls ! 0)" by (auto simp: in_set_conv_nth)
    have "vtrail (vtab ?t (vidx (?ls ! 0))) = i" using trail_invD(7)[OF t i(1)] by (simp add: i(2) vidx_simps)
    then have g: "entry_guarded s (?ls ! 0) e" using w(2) e(1) True i(1) q by (simp add: guards_def)
    have bl: "blit e \<in> set ?ls" "binary e \<longrightarrow> True" using w(1) e by (auto simp: watch_inv_def entry_ok_def Let_def)
    obtain x where "x \<in> set ?ls" "x \<in> set (trail ?t)"
      using g c(2) e(2) bl(1) in_ls(2) unfolding entry_guarded_def Let_def guarded_def by auto
    moreover have "lit_value ?t x > 0" using lit_value_trail(1)[OF t, of x] calculation ok[of x] by blast
    ultimately show ?thesis using ok[of x] by (intro bexI[of _ x]) auto
  next
    case False
    then have "\<not> lit_value ?t (?ls ! 0) < 0" using lit_value_trail(2)[OF t] ok[OF in_ls(1)] by blast
    then show ?thesis using ok in_ls(1) by (intro bexI[of _ "?ls ! 0"]) auto
  qed
qed

text \<open>\<open>propagate\<close> ends, and says the truth.\<close>

definition propagate_post :: "options \<Rightarrow> int list list \<Rightarrow> int list \<Rightarrow> int list \<Rightarrow> 'a::linordered_field csolver
    \<Rightarrow> bool \<times> 'a csolver \<Rightarrow> bool" where
  "propagate_post opts F A C s = (\<lambda>(ok, s'). same_levels s s' \<and> (ids_ok s \<longrightarrow> ids_ok s') \<and>
     (\<exists>q. solver_inv opts F A C q s') \<and> ok = (conflict s' = None) \<and>
     (ok \<longrightarrow> propagated (cdcl_part s') = length (trail (cdcl_part s')) \<and>
       (\<forall>c\<in>set (clause_ids s'). \<not> garbage (arena s' c) \<longrightarrow>
          (\<exists>x\<in>set (literals (arena s' c)). ok_lit (cdcl_part s') x \<and> lit_value (cdcl_part s') x \<ge> 0))) \<and>
     (\<not> ok \<longrightarrow> (\<exists>c. conflict s' = Some c \<and> (\<forall>x\<in>set (literals (arena s' c)). - x \<in> set (trail (cdcl_part s'))))))"

lemma solver_inv_counters:
  assumes inv: "solver_inv opts F A C q s"
  shows "solver_inv opts F A C q (s\<lparr>cdcl_part := (cdcl_part s)\<lparr>no_conflict_until := n\<rparr>\<rparr>)"
    and "solver_inv opts F A C q (s\<lparr>cdcl_part := (cdcl_part s)\<lparr>conflicts := k, no_conflict_until := n\<rparr>\<rparr>)"
proof -
  let ?t = "cdcl_part s"
  have c: "cdcl_step opts F ?t (?t\<lparr>propagated2 := propagated2 ?t, no_conflict_until := n, conflicts := k, rephased := rephased ?t,
      last_rephase_conflicts := last_rephase_conflicts ?t, stable_mode := stable_mode ?t, marked_failed := marked_failed ?t\<rparr>)" for k
    by (rule cdcl_step.Counters)
  have r: "cdcl_reachable opts F A C ?t" using inv by (simp add: solver_inv_def)
  have r1: "cdcl_reachable opts F A C (?t\<lparr>conflicts := k, no_conflict_until := n\<rparr>)" for k
  proof -
    have "?t\<lparr>conflicts := k, no_conflict_until := n\<rparr> = ?t\<lparr>propagated2 := propagated2 ?t, no_conflict_until := n, conflicts := k,
        rephased := rephased ?t, last_rephase_conflicts := last_rephase_conflicts ?t,
        stable_mode := stable_mode ?t, marked_failed := marked_failed ?t\<rparr>"
      by (rule cdcl.equality) simp_all
    then show ?thesis using cdcl_reachable.Step[OF r c[of k]] by metis
  qed
  have r2: "cdcl_reachable opts F A C (?t\<lparr>no_conflict_until := n\<rparr>)"
  proof -
    have "?t\<lparr>no_conflict_until := n\<rparr> = ?t\<lparr>conflicts := conflicts ?t, no_conflict_until := n\<rparr>"
      by (rule cdcl.equality) simp_all
    then show ?thesis using r1[of "conflicts ?t"] by metis
  qed
  show "solver_inv opts F A C q (s\<lparr>cdcl_part := (cdcl_part s)\<lparr>no_conflict_until := n\<rparr>\<rparr>)"
    using inv r2 by (simp add: solver_inv_def watch_inv_def entry_ok_def clause_ok_def guards_def entry_guarded_def
        guarded_def falsified_def)
  show "solver_inv opts F A C q (s\<lparr>cdcl_part := (cdcl_part s)\<lparr>conflicts := k, no_conflict_until := n\<rparr>\<rparr>)"
    using inv r1 by (simp add: solver_inv_def watch_inv_def entry_ok_def clause_ok_def guards_def entry_guarded_def
        guarded_def falsified_def)
qed

lemma propagate_total:
  assumes inv: "solver_inv opts F A C q s"
  shows "rok (propagate opts s) (propagate_post opts F A C s)"
proof -
  let ?n = "n_vars (base (cdcl_part s))"
  let ?I = "\<lambda>s'. (\<exists>q. solver_inv opts F A C q s') \<and> same_levels s s' \<and> (ids_ok s \<longrightarrow> ids_ok s')"
  let ?Q = "\<lambda>s'. ?I s' \<and> (conflict s' = None \<longrightarrow> propagated (cdcl_part s') = length (trail (cdcl_part s')))"
  let ?\<mu> = "\<lambda>s'. if conflict s' \<noteq> None then 0 else Suc (?n - propagated (cdcl_part s'))"
  have "rok (rloop (?n + 2) (propagate_step opts) s) ?Q"
  proof (rule rok_rloop[where I = ?I and \<mu> = ?\<mu>])
    show "?I s" using inv by (auto simp: same_levels_def)
    show "?\<mu> s < ?n + 2" by (simp add: less_Suc_eq_le)
    fix s1 assume I: "?I s1"
    then obtain q where i: "solver_inv opts F A C q s1" by blast
    have n: "n_vars (base (cdcl_part s1)) = ?n" using I by (simp add: same_levels_def)
    have t: "length (trail (cdcl_part s1)) \<le> ?n"
      using trail_full(1)[OF reachable_trail(1), of opts F A C "cdcl_part s1"] i n by (simp add: solver_inv_def)
    show "rok (propagate_step opts s1) (\<lambda>r. case r of Continue s' \<Rightarrow> ?I s' \<and> ?\<mu> s' < ?\<mu> s1 | Break s' \<Rightarrow> ?Q s')"
    proof (rule rok_weaken[OF propagate_step_rok[OF i]])
      fix r assume r: "case r of
          Continue s' \<Rightarrow> conflict s1 = None \<and> q < length (trail (cdcl_part s1)) \<and> same_levels s1 s' \<and> (ids_ok s1 \<longrightarrow> ids_ok s') \<and>
            solver_inv opts F A C (if conflict s' = None then Suc q else q) s'
        | Break s' \<Rightarrow> s' = s1 \<and> (conflict s1 = None \<longrightarrow> q = length (trail (cdcl_part s1)))"
      show "case r of Continue s' \<Rightarrow> ?I s' \<and> ?\<mu> s' < ?\<mu> s1 | Break s' \<Rightarrow> ?Q s'"
      proof (cases r)
        case (Continue s')
        then have c: "conflict s1 = None" "q < length (trail (cdcl_part s1))" "same_levels s1 s'"
          "ids_ok s1 \<longrightarrow> ids_ok s'" "solver_inv opts F A C (if conflict s' = None then Suc q else q) s'" using r by simp_all
        then have "propagated (cdcl_part s1) = q" "conflict s' = None \<longrightarrow> propagated (cdcl_part s') = Suc q"
          using i by (auto simp: solver_inv_def)
        then have "?\<mu> s' < ?\<mu> s1" using c t by auto
        moreover have "same_levels s s'" using I same_levels_trans c(3) by blast
        ultimately show ?thesis using c(4,5) I Continue by auto
      next
        case (Break s')
        then show ?thesis using r I i by (auto simp: solver_inv_def)
      qed
    qed
  qed
  then obtain s1 q1 where l: "rloop (?n + 2) (propagate_step opts) s = Inr s1" "solver_inv opts F A C q1 s1" "same_levels s s1"
      "ids_ok s \<longrightarrow> ids_ok s1" "conflict s1 = None \<longrightarrow> propagated (cdcl_part s1) = length (trail (cdcl_part s1))" by (elim rokE) auto
  let ?t = "cdcl_part s1"
  define s' where "s' = s1\<lparr>cdcl_part := (if conflict s1 = None then ?t\<lparr>no_conflict_until := propagated ?t\<rparr>
             else ?t\<lparr>conflicts := conflicts ?t + 1, no_conflict_until := start (control ?t ! level ?t)\<rparr>)\<rparr>"
  have run: "propagate opts s = Inr (conflict s1 = None, s')" unfolding propagate_def l(1) s'_def Let_def by simp
  have inv': "solver_inv opts F A C q1 s'" using solver_inv_counters[OF l(2)] by (simp add: s'_def)
  have f: "conflict s' = conflict s1" "same_levels s s'" "propagated (cdcl_part s') = propagated ?t"
    "trail (cdcl_part s') = trail ?t" using l(3) by (simp_all add: s'_def same_levels_def)
  have ids: "ids_ok s \<longrightarrow> ids_ok s'" using l(4) by (simp add: s'_def ids_ok_def)
  have "\<exists>x\<in>set (literals (arena s' c)). ok_lit (cdcl_part s') x \<and> lit_value (cdcl_part s') x \<ge> 0"
    if "conflict s1 = None" "c \<in> set (clause_ids s')" "\<not> garbage (arena s' c)" for c
    using propagated_clauses[OF inv' _ _ that(2,3)] that(1) l(2,5) f by (simp add: solver_inv_def)
  moreover have "\<exists>c. conflict s' = Some c \<and> (\<forall>x\<in>set (literals (arena s' c)). - x \<in> set (trail (cdcl_part s')))"
    if "conflict s1 \<noteq> None"
    using that f(1) inv' unfolding solver_inv_def falsified_def by auto
  ultimately show ?thesis using inv' f ids l(5) by (auto simp: run propagate_post_def)
qed

end
