(* ===== verification/SearchState.thy ===== *)
theory SearchState
  imports Propagate
begin

text \<open>
  Adding clauses to the SAT solver (clause.cpp): original clauses, which are cleaned, assigned as units or
  watched, and learned clauses.  The invariant of the propagation loop survives the new clauses, backtracking,
  restarts and decisions; together with the formula it says when the solver may give an answer.
\<close>

section \<open>New clauses\<close>

text \<open>The clause at a new address, in the order of the literals that the source keeps in \<open>clause\<close>.\<close>

definition new_clause :: "int list \<Rightarrow> 'a csolver \<Rightarrow> nat \<times> 'a csolver" where
  "new_clause lits s =
     (let c = length (clause_ids s)
      in (c, s\<lparr>arena := (arena s)(c := \<lparr>literals = lits, cpos = 2, garbage = False\<rparr>),
              clause_ids := clause_ids s @ [c]\<rparr>))"

definition watch_clause :: "nat \<Rightarrow> 'a csolver \<Rightarrow> 'a csolver result" where
  "watch_clause c s =
     (let l0 = literals (arena s c) ! 0; l1 = literals (arena s c) ! 1
      in rbind (watch_literal l0 l1 c s) (watch_literal l1 l0 c))"

definition new_learned_redundant_clause :: "int list \<Rightarrow> 'a csolver \<Rightarrow> (nat \<times> 'a csolver) result" where
  "new_learned_redundant_clause lits s =
     (if length lits < 2 then Inl OutOfBounds
      else let (c, s) = new_clause lits s in rbind (watch_clause c s) (\<lambda>s. Inr (c, s)))"

definition attached :: "int list \<Rightarrow> 'a csolver \<Rightarrow> 'a csolver" where
  "attached lits s = (let c = length (clause_ids s); n = length lits in
     s\<lparr>arena := (arena s)(c := \<lparr>literals = lits, cpos = 2, garbage = False\<rparr>), clause_ids := clause_ids s @ [c],
       wtab := (wtab s)(lits ! 0 := wtab s (lits ! 0) @ [\<lparr>wclause = c, blit = lits ! 1, wsize = n\<rparr>],
                        lits ! 1 := wtab s (lits ! 1) @ [\<lparr>wclause = c, blit = lits ! 0, wsize = n\<rparr>])\<rparr>)"

lemma attached_simps [simp]:
  "cdcl_part (attached lits s) = cdcl_part s" "conflict (attached lits s) = conflict s"
  "clause_ids (attached lits s) = clause_ids s @ [length (clause_ids s)]"
  "arena (attached lits s) = (arena s)(length (clause_ids s) := \<lparr>literals = lits, cpos = 2, garbage = False\<rparr>)"
  "(attached lits s)\<lparr>cdcl_part := t\<rparr> = attached lits (s\<lparr>cdcl_part := t\<rparr>)"
  by (simp_all add: attached_def Let_def)

lemma attached_watches:
  assumes "lits ! 0 \<noteq> lits ! 1"
  shows "wtab (attached lits s) l = wtab s l @
    (if l = lits ! 0 then [\<lparr>wclause = length (clause_ids s), blit = lits ! 1, wsize = length lits\<rparr>]
     else if l = lits ! 1 then [\<lparr>wclause = length (clause_ids s), blit = lits ! 0, wsize = length lits\<rparr>] else [])"
  using assms by (simp add: attached_def Let_def)

lemma new_clause_eq:
  assumes "distinct lits" "2 \<le> length lits"
  shows "(let (c, s) = new_clause lits s in rbind (watch_clause c s) (\<lambda>s. Inr (c, s))) =
      Inr (length (clause_ids s), attached lits s)" "lits ! 0 \<noteq> lits ! 1"
proof -
  have "0 < length lits" "1 < length lits" using assms(2) by linarith+
  then show n: "lits ! 0 \<noteq> lits ! 1" using nth_eq_iff_index_eq[OF assms(1)] by auto
  then show "(let (c, s) = new_clause lits s in rbind (watch_clause c s) (\<lambda>s. Inr (c, s))) =
      Inr (length (clause_ids s), attached lits s)"
    by (auto simp: new_clause_def watch_clause_def watch_literal_def attached_def Let_def)
qed

text \<open>A new clause keeps the invariant when its two watches are guarded.\<close>

definition new_ok :: "int list list \<Rightarrow> 'a cdcl \<Rightarrow> int list \<Rightarrow> bool" where
  "new_ok F t lits \<longleftrightarrow> distinct lits \<and> 2 \<le> length lits \<and> (\<forall>x\<in>set lits. ok_lit t x) \<and> implied F lits"

lemma attached_inv:
  assumes inv: "solver_inv opts F A C q s" and ids: "ids_ok s" and new: "new_ok F (cdcl_part s) lits"
    and g: "\<And>l x. (l, x) \<in> {(lits ! 0, lits ! 1), (lits ! 1, lits ! 0)} \<Longrightarrow> - l \<in> set (trail (cdcl_part s)) \<Longrightarrow>
      vtrail (vtab (cdcl_part s) (vidx l)) < q \<Longrightarrow> guarded (cdcl_part s) l x"
  shows "solver_inv opts F A C q (attached lits s)" "ids_ok (attached lits s)"
proof -
  let ?c = "length (clause_ids s)" and ?s = "attached lits s"
  have ne: "lits ! 0 \<noteq> lits ! 1" using new_clause_eq(2)[of lits] new by (simp add: new_ok_def)
  have len: "0 < length lits" "1 < length lits" using new unfolding new_ok_def by linarith+
  note w = attached_watches[OF ne, of s]
  have old: "wclause x \<noteq> ?c" if "x \<in> set (wtab s l)" for x l
  proof -
    have "wclause x \<in> set (clause_ids s)" using ids that by (simp add: ids_ok_def)
    moreover have "?c \<notin> set (clause_ids s)" using ids by (metis ids_ok_def atLeastLessThan_iff less_irrefl set_upt)
    ultimately show ?thesis by metis
  qed
  have fresh: "i \<noteq> ?c" if "i \<in> set (clause_ids s)" for i
    using that ids by (metis ids_ok_def atLeastLessThan_iff less_irrefl set_upt)
  have inv': "watch_inv F s" "guards q s" using inv by (simp_all add: solver_inv_def)
  have cl: "clause_ok F (cdcl_part s) \<lparr>literals = lits, cpos = 2, garbage = False\<rparr>"
    using new by (simp add: new_ok_def clause_ok_def)
  have "entry_ok F ?s l x" if "x \<in> set (wtab ?s l)" for l x
  proof (cases "x \<in> set (wtab s l)")
    case True
    then show ?thesis using inv'(1) old[OF True] by (simp add: watch_inv_def entry_ok_def)
  next
    case False
    then show ?thesis using that cl ne len unfolding w by (auto simp: entry_ok_def binary_def split: if_splits)
  qed
  moreover have "distinct (map wclause (wtab ?s l))" for l
  proof -
    have "distinct (map wclause (wtab s l))" using inv'(1) by (simp add: watch_inv_def)
    moreover have "?c \<notin> wclause ` set (wtab s l)" using old[of _ l] by (metis imageE)
    ultimately show ?thesis unfolding w by auto
  qed
  moreover have "clause_ok F (cdcl_part ?s) (arena ?s c) \<and> (\<forall>k<2. c \<in> wclause ` set (wtab ?s (literals (arena ?s c) ! k)))"
    if c: "c \<in> set (clause_ids ?s)" "\<not> garbage (arena ?s c)" for c
  proof (cases "c = ?c")
    case True
    then show ?thesis using cl unfolding w by (auto simp: less_2_cases_iff)
  next
    case False
    then have "c \<in> set (clause_ids s)" "\<not> garbage (arena s c)" using c by simp_all
    then have "clause_ok F (cdcl_part s) (arena s c)" "\<forall>k<2. c \<in> wclause ` set (wtab s (literals (arena s c) ! k))"
      using inv'(1) by (auto simp: watch_inv_def)
    then show ?thesis using False unfolding w by auto
  qed
  ultimately have "watch_inv F ?s" unfolding watch_inv_def by blast
  moreover have "guards q ?s"
    unfolding guards_def
  proof (intro allI ballI impI)
    fix l x assume x: "x \<in> set (wtab ?s l)" "- l \<in> set (trail (cdcl_part ?s))" "vtrail (vtab (cdcl_part ?s) (vidx l)) < q"
    show "entry_guarded ?s l x"
    proof (cases "x \<in> set (wtab s l)")
      case True
      then have "entry_guarded s l x" using inv'(2) x(2,3) by (simp add: guards_def)
      then show ?thesis using old[OF True] by (simp add: entry_guarded_def)
    next
      case False
      then have "l = lits ! 0 \<and> blit x = lits ! 1 \<or> l = lits ! 1 \<and> blit x = lits ! 0"
        using x(1) unfolding w by (auto split: if_splits)
      then have "guarded (cdcl_part s) l (blit x)" using g[of l "blit x"] x(2,3) by auto
      then show ?thesis by (intro guarded_entry) simp
    qed
  qed
  moreover have "c \<noteq> ?c" if "conflict s = Some c" for c using ids that fresh by (simp add: ids_ok_def)
  ultimately show "solver_inv opts F A C q ?s"
    using inv by (simp add: solver_inv_def falsified_def)
  have "wclause x \<in> set (clause_ids ?s)" if "x \<in> set (wtab ?s l)" for l x
    using that ids unfolding w by (auto simp: ids_ok_def split: if_splits)
  then show "ids_ok ?s" using ids unfolding ids_ok_def by auto
qed

section \<open>Trails that grow and shrink\<close>

text \<open>More literals, and perhaps a new level that starts after the old trail.\<close>

definition grows :: "'a cdcl \<Rightarrow> 'a cdcl \<Rightarrow> bool" where
  "grows t t' \<longleftrightarrow> n_vars (base t') = n_vars (base t) \<and> propagated t' = propagated t \<and>
     (\<exists>ys. trail t' = trail t @ ys) \<and> (\<forall>x\<in>set (trail t). vtab t' (vidx x) = vtab t (vidx x)) \<and>
     (level t' = level t \<and> control t' = control t \<or>
      level t' = Suc (level t) \<and> (\<exists>d. control t' = control t @ [\<lparr>decision = d, start = length (trail t)\<rparr>]))"

lemma grows_fields:
  assumes "grows t t'" "trail t2 = trail t'" "vtab t2 = vtab t'" "control t2 = control t'" "level t2 = level t'"
    "propagated t2 = propagated t'" "n_vars (base t2) = n_vars (base t')"
  shows "grows t t2"
  using assms unfolding grows_def by simp

lemma search_assign_form:
  assumes "search_assign opts lit r t = Inr t'"
  shows "var_value t (vidx lit) = 0"
    "\<exists>lv. t' = assign_at lit lv (if r = Decision_reason \<or> lv = 0 then No_reason else r) t \<and>
       (r = Decision_reason \<longrightarrow> lv = level t) \<and> (r = No_reason \<longrightarrow> lv = 0)"
proof -
  show z: "var_value t (vidx lit) = 0"
    by (rule ccontr) (use assms in \<open>simp add: search_assign_def\<close>)
  let ?lv = "case r of No_reason \<Rightarrow> Inr 0 | Decision_reason \<Rightarrow> Inr (level t)
     | Reason_clause c \<Rightarrow> if 0 < opt_chrono opts then assignment_level lit c t else Inr (level t)"
  obtain lv where lv: "?lv = Inr lv" using assms z by (cases ?lv) (simp_all add: search_assign_def)
  have "t' = assign_at lit lv (if r = Decision_reason \<or> lv = 0 then No_reason else r) t"
    using assms z unfolding search_assign_def lv
    by (simp add: Let_def assign_at_def set_value_def split: if_splits)
  then show "\<exists>lv. t' = assign_at lit lv (if r = Decision_reason \<or> lv = 0 then No_reason else r) t \<and>
      (r = Decision_reason \<longrightarrow> lv = level t) \<and> (r = No_reason \<longrightarrow> lv = 0)"
    using lv by (intro exI[of _ lv]) auto
qed

lemma assign_grows:
  assumes "trail_inv t" "search_assign opts lit r t = Inr t'"
  shows "grows t t'" "trail t' = trail t @ [lit]" "level t' = level t" "conflicts t' = conflicts t"
proof -
  obtain lv r' where t': "t' = assign_at lit lv r' t" using search_assign_form(2)[OF assms(2)] by blast
  then show "grows t t'" using trail_new[OF assms(1) search_assign_form(1)[OF assms(2)]] by (auto simp: grows_def)
  show "trail t' = trail t @ [lit]" "level t' = level t" by (simp_all add: t')
  show "conflicts t' = conflicts t" by (simp add: t' assign_at_def set_value_def)
qed

lemma assume_decision_grows:
  assumes "trail_inv t" "search_assume_decision opts lit t = Inr t'"
  shows "grows t t'"
proof -
  let ?n = "new_trail_level lit t"
  have a: "search_assign opts lit Decision_reason ?n = Inr t'"
    using assms(2) by (simp add: search_assume_decision_def split: if_splits)
  obtain lv r' where t': "t' = assign_at lit lv r' ?n" using search_assign_form(2)[OF a] by blast
  have "var_value t (vidx lit) = 0" using search_assign_form(1)[OF a] by simp
  from trail_new[OF assms(1) this] show ?thesis by (auto simp: t' grows_def)
qed

lemma new_level_grows: "grows t (new_trail_level d t)"
  by (simp add: grows_def)

text \<open>\<open>decide\<close> adds a pseudo level, or a level with a decision, or fails.\<close>

definition alike :: "'a cdcl \<Rightarrow> 'a cdcl \<Rightarrow> bool" where
  "alike t t' \<longleftrightarrow> trail t' = trail t \<and> vtab t' = vtab t \<and> control t' = control t \<and> level t' = level t \<and>
     propagated t' = propagated t \<and> var_value t' = var_value t \<and> num_assigned t' = num_assigned t \<and>
     n_vars (base t') = n_vars (base t)"

definition decided :: "options \<Rightarrow> 'a cdcl \<Rightarrow> 'a cdcl \<Rightarrow> bool" where
  "decided opts t t' \<longleftrightarrow> (\<exists>t1 t2. alike t t1 \<and> alike t2 t' \<and>
     (t2 = t1 \<or> t2 = new_trail_level 0 t1 \<or> (\<exists>lit. search_assume_decision opts lit t1 = Inr t2)))"

lemma alike_refl [simp]: "alike t t" "alike t (t\<lparr>marked_failed := m\<rparr>)" "alike t (t\<lparr>constraint_lits := cs\<rparr>)"
  "alike t (t\<lparr>constraint_lits := cs, unsat_constraint := u\<rparr>)" "alike t (t\<lparr>base := (base t)\<lparr>internals := i\<rparr>\<rparr>)"
  by (simp_all add: alike_def)

lemma alike_trans: "alike t t1 \<Longrightarrow> alike t1 t2 \<Longrightarrow> alike t t2"
  by (simp add: alike_def)

lemma decidedI:
  "alike t t' \<Longrightarrow> decided opts t t'" "alike t t1 \<Longrightarrow> decided opts t (new_trail_level 0 t1)"
  "alike t t1 \<Longrightarrow> search_assume_decision opts lit t1 = Inr t' \<Longrightarrow> decided opts t t'"
  "decided opts t t2 \<Longrightarrow> alike t2 t' \<Longrightarrow> decided opts t t'"
  unfolding decided_def by (blast intro: alike_refl(1) alike_trans)+

lemma decide_constraint_decided:
  assumes r: "decide_constraint opts t = Inr (res, t')"
  shows "decided opts t t'"
proof -
  obtain cs p u x where c: "constraint_loop t [0..<length (constraint_lits t)] (constraint_lits t) 0 0 = (cs, p, u, x)"
    by (rule prod_cases4)
  show ?thesis
    using r unfolding decide_constraint_def c
    by (auto simp: rbind_Inr Let_def split: if_splits intro: decidedI(1,2) decidedI(3)[OF alike_refl(3)])
qed

lemma decide_decided:
  assumes r: "decide opts t = Inr (res, t')"
  shows "decided opts t t'"
proof -
  define m where "m = (if level t < length (assumed_lits t) then
             let lit = assumed_lits t ! level t; tmp = lit_value t lit
             in if tmp < 0 then Inr (20, t)
                else if tmp > 0 then Inr (0, new_trail_level 0 t)
                else rbind (search_assume_decision opts lit t) (\<lambda>t. Inr (0, t))
           else if level t = length (assumed_lits t) \<and> constraint_lits t \<noteq> [] then decide_constraint opts t
           else
             rbind (next_decision_variable (opt_score opts \<and> stable_mode t) (stabs (base t)) (n_vars (base t))
                 (internals (base t))) (\<lambda>(idx, i).
             let t = t\<lparr>base := (base t)\<lparr>internals := i\<rparr>\<rparr>;
                 target = (opt_target opts > 1 \<or> stable_mode t \<and> opt_target opts \<noteq> 0)
             in rbind (search_assume_decision opts (decide_phase opts idx target t) t) (\<lambda>t. Inr (0, t))))"
  have "rbind m (\<lambda>(res, t). Inr (res, if res \<noteq> 0 then t\<lparr>marked_failed := False\<rparr> else t)) = Inr (res, t')"
    using r unfolding decide_def m_def[symmetric] by (auto split: if_splits)
  then obtain t2 where t2: "m = Inr (res, t2)" "t' = (if res \<noteq> 0 then t2\<lparr>marked_failed := False\<rparr> else t2)"
    by (auto simp: rbind_Inr)
  have "decided opts t t2"
  proof (cases "level t < length (assumed_lits t)")
    case True
    then show ?thesis using t2(1)
      by (auto simp: m_def Let_def rbind_Inr split: if_splits intro: decidedI(1,2) decidedI(3)[OF alike_refl(1)])
  next
    case False
    then show ?thesis using t2(1) decide_constraint_decided decidedI(3)[OF alike_refl(5)]
      by (auto simp: m_def Let_def rbind_Inr split: if_splits)
  qed
  moreover have "alike t2 t'" using t2(2) by simp
  ultimately show ?thesis by (rule decidedI(4))
qed

lemma decide_grows:
  assumes t: "trail_inv t" and r: "decide opts t = Inr (res, t')"
  shows "grows t t'"
proof -
  obtain t1 t2 where d: "alike t t1" "alike t2 t'"
      "t2 = t1 \<or> t2 = new_trail_level 0 t1 \<or> (\<exists>lit. search_assume_decision opts lit t1 = Inr t2)"
    using decide_decided[OF r] unfolding decided_def by blast
  have t1: "trail_inv t1" using t d(1) by (simp add: trail_inv_def alike_def)
  have "grows t1 t2" using d(3) new_level_grows[of t1 0] assume_decision_grows[OF t1] by (auto simp: grows_def[of t1 t1])
  then show ?thesis using d(1,2) by (simp add: grows_def alike_def)
qed

lemma guards_transfer:
  assumes "guards q s"
    and "\<And>lit. - lit \<in> set (trail t') \<Longrightarrow> vtrail (vtab t' (vidx lit)) < q' \<Longrightarrow>
      - lit \<in> set (trail (cdcl_part s)) \<and> vtrail (vtab (cdcl_part s) (vidx lit)) < q \<and>
      (\<forall>x. guarded (cdcl_part s) lit x \<longrightarrow> guarded t' lit x)"
  shows "guards q' (s\<lparr>cdcl_part := t'\<rparr>)"
  using assms unfolding guards_def entry_guarded_def Let_def by simp blast

lemma position:
  assumes "trail_inv t" "- lit \<in> set (trail t)"
  shows "vtrail (vtab t (vidx lit)) < length (trail t)" "trail t ! vtrail (vtab t (vidx lit)) = - lit"
proof -
  obtain i where "i < length (trail t)" "trail t ! i = - lit" using assms(2) by (auto simp: in_set_conv_nth)
  then show "vtrail (vtab t (vidx lit)) < length (trail t)" "trail t ! vtrail (vtab t (vidx lit)) = - lit"
    using trail_invD(7)[OF assms(1), of i] by (simp_all add: vidx_simps)
qed

lemma position_eq:
  assumes "trail_inv t" "i < length (trail t)" "trail t ! i = - lit"
  shows "vtrail (vtab t (vidx lit)) = i"
  using trail_invD(7)[OF assms(1,2)] by (simp add: assms(3) vidx_simps)

lemma solver_inv_grows:
  assumes inv: "solver_inv opts F A C q s" and c: "conflict s = None" and g: "grows (cdcl_part s) t'"
    and r: "cdcl_reachable opts F A C t'" and new: "level t' = level (cdcl_part s) \<or> q = length (trail (cdcl_part s))"
  shows "solver_inv opts F A C q (s\<lparr>cdcl_part := t'\<rparr>)"
proof -
  let ?t = "cdcl_part s"
  have r0: "cdcl_reachable opts F A C ?t" and w: "watch_inv F s" "guards q s" "propagated ?t = q"
    and st: "\<forall>l\<in>{1..level ?t}. start (control ?t ! l) \<le> q" using inv c by (simp_all add: solver_inv_def)
  note t = reachable_trail[OF r0] and t' = reachable_trail[OF r]
  have q: "q \<le> length (trail ?t)" using trail_invD(6)[OF t(1)] w(3) by simp
  have lv: "level t' = level ?t \<and> control t' = control ?t \<or>
      level t' = Suc (level ?t) \<and> (\<exists>d. control t' = control ?t @ [\<lparr>decision = d, start = length (trail ?t)\<rparr>])"
    using g by (simp add: grows_def)
  obtain ys where ys: "trail t' = trail ?t @ ys" "\<forall>x\<in>set (trail ?t). vtab t' (vidx x) = vtab ?t (vidx x)"
      "n_vars (base t') = n_vars (base ?t)" "propagated t' = propagated ?t"
    using g by (auto simp: grows_def)
  have c: "l \<le> level ?t \<Longrightarrow> control t' ! l = control ?t ! l" for l
    using lv levels_invD(1)[OF t(2)] by (auto simp: nth_append)
  have n: "start (control t' ! l) = length (trail ?t) \<and> level ?t < l \<and> q = length (trail ?t)"
    if "l \<in> {1..level t'}" "\<not> l \<le> level ?t" for l
  proof -
    have "l = Suc (level ?t)" "level t' = Suc (level ?t)" using that lv by auto
    then show ?thesis using lv new levels_invD(1)[OF t(2)] by (auto simp: nth_append)
  qed
  have "guards q (s\<lparr>cdcl_part := t'\<rparr>)"
  proof (rule guards_transfer[OF w(2)])
    fix lit assume x: "- lit \<in> set (trail t')" "vtrail (vtab t' (vidx lit)) < q"
    have "trail ?t ! vtrail (vtab t' (vidx lit)) = - lit"
      using position[OF t'(1) x(1)] x(2) q by (simp add: ys(1) nth_append)
    then have l: "- lit \<in> set (trail ?t)" using x(2) q nth_mem[of "vtrail (vtab t' (vidx lit))" "trail ?t"] by simp
    then have v: "vtab t' (vidx lit) = vtab ?t (vidx lit)" using ys(2) vidx_simps(1) by metis
    have "guarded t' lit y" if y: "guarded ?t lit y" for y
    proof -
      have m: "y \<in> set (trail ?t)" using y by (simp add: guarded_def)
      have "lit_level t' y < l" if "l \<in> {1..level t'}" "vtrail (vtab t' (vidx lit)) < start (control t' ! l)" for l
        using that y c[of l] n[of l] levels_invD(2)[OF t(2) m] ys(2) m unfolding guarded_def v
        by (cases "l \<le> level ?t") auto
      then show ?thesis using m by (simp add: guarded_def ys(1))
    qed
    then show "- lit \<in> set (trail ?t) \<and> vtrail (vtab ?t (vidx lit)) < q \<and> (\<forall>y. guarded ?t lit y \<longrightarrow> guarded t' lit y)"
      using l x(2) v by simp
  qed
  moreover have "start (control t' ! l) \<le> q" if "l \<in> {1..level t'}" for l
    using that st c[of l] n[of l] by (cases "l \<le> level ?t") auto
  ultimately show ?thesis
    using inv r extends_watch_inv[OF ys(3) w(1)] assms(2) ys(4) by (simp add: solver_inv_def)
qed

text \<open>Backtracking takes the propagation back to the start of the first removed level.\<close>

definition shrinks :: "nat \<Rightarrow> 'a cdcl \<Rightarrow> 'a cdcl \<Rightarrow> bool" where
  "shrinks k t t' \<longleftrightarrow> level t' = k \<and> k \<le> level t \<and> trail t' = filter (\<lambda>lit. lit_level t lit \<le> k) (trail t) \<and>
     control t' = take (Suc k) (control t) \<and> (\<forall>x. vlevel (vtab t' x) = vlevel (vtab t x)) \<and>
     n_vars (base t') = n_vars (base t) \<and>
     propagated t' = (if k < level t then min (propagated t) (start (control t ! Suc k)) else propagated t)"

lemma solver_inv_shrinks:
  assumes inv: "solver_inv opts F A C q s" and c: "conflict s = None \<or> k < level (cdcl_part s)"
    and g: "shrinks k (cdcl_part s) t'" and r: "cdcl_reachable opts F A C t'"
  shows "solver_inv opts F A C (propagated t') (s\<lparr>cdcl_part := t', conflict := None\<rparr>)"
proof -
  let ?t = "cdcl_part s"
  have r0: "cdcl_reachable opts F A C ?t" and w: "watch_inv F s" "guards q s"
    and st: "\<forall>l\<in>{1..level ?t}. start (control ?t ! l) \<le> q" using inv by (simp_all add: solver_inv_def)
  note t = reachable_trail[OF r0] and t' = reachable_trail[OF r]
  have p: "conflict s = None \<longrightarrow> propagated ?t = q" "q \<le> propagated ?t" using inv by (cases "conflict s"; simp add: solver_inv_def)+
  define first where "first = (if k < level ?t then start (control ?t ! Suc k) else propagated ?t)"
  have f: "first \<le> q"
  proof (cases "k < level ?t")
    case True
    then show ?thesis using st by (simp add: first_def)
  next
    case False
    then show ?thesis using c p(1) by (simp add: first_def)
  qed
  have k: "level t' = k" "k \<le> level ?t" and tr: "trail t' = filter (\<lambda>lit. lit_level ?t lit \<le> k) (trail ?t)"
    and ct: "control t' = take (Suc k) (control ?t)" and vl: "\<And>x. vlevel (vtab t' x) = vlevel (vtab ?t x)"
    and pr: "propagated t' = first" and nv: "n_vars (base t') = n_vars (base ?t)"
    using g f p(2) unfolding shrinks_def first_def by auto
  have fl: "first \<le> length (trail ?t)" using f p(2) trail_invD(6)[OF t(1)] by simp
  have low: "lit_level ?t x \<le> k" if "x \<in> set (take first (trail ?t))" for x
  proof -
    obtain i where i: "i < first" "x = trail ?t ! i" using \<open>x \<in> _\<close> fl by (auto simp: in_set_conv_nth)
    show ?thesis
    proof (cases "k < level ?t")
      case True
      then have "Suc k \<in> {1..level ?t}" "i < start (control ?t ! Suc k)" using i(1) by (simp_all add: first_def)
      from levels_invD(5)[OF t(2) this] i(2) show ?thesis by simp
    next
      case False
      then show ?thesis using levels_invD(2)[OF t(2), of x] i fl k(2) by simp
    qed
  qed
  have prefix: "take first (trail t') = take first (trail ?t)"
  proof -
    have "trail t' = take first (trail ?t) @ filter (\<lambda>lit. lit_level ?t lit \<le> k) (drop first (trail ?t))"
      using low filter_append[of "\<lambda>lit. lit_level ?t lit \<le> k" "take first (trail ?t)" "drop first (trail ?t)"]
      unfolding tr by (simp add: filter_id_conv)
    then show ?thesis using fl by simp
  qed
  have cl: "l \<le> k \<Longrightarrow> control t' ! l = control ?t ! l" for l by (simp add: ct)
  have "guards first (s\<lparr>cdcl_part := t'\<rparr>)"
  proof (rule guards_transfer[OF w(2)])
    fix lit assume x: "- lit \<in> set (trail t')" "vtrail (vtab t' (vidx lit)) < first"
    let ?i = "vtrail (vtab t' (vidx lit))"
    have "trail ?t ! ?i = - lit" using position(2)[OF t'(1) x(1)] prefix x(2) by (metis nth_take)
    then have v: "vtrail (vtab ?t (vidx lit)) = ?i" using position_eq[OF t(1)] x(2) fl by simp
    have "guarded t' lit y" if y: "guarded ?t lit y" for y
    proof -
      have "lit_level ?t y \<le> k"
      proof (cases "k < level ?t")
        case True
        then have "Suc k \<in> {1..level ?t}" "?i < start (control ?t ! Suc k)" using x(2) by (simp_all add: first_def)
        then show ?thesis using y v unfolding guarded_def by (metis less_Suc_eq_le)
      next
        case False
        then show ?thesis using levels_invD(2)[OF t(2), of y] y k(2) by (simp add: guarded_def)
      qed
      then show ?thesis using y k cl vl unfolding guarded_def v tr by auto
    qed
    then show "- lit \<in> set (trail ?t) \<and> vtrail (vtab ?t (vidx lit)) < q \<and> (\<forall>y. guarded ?t lit y \<longrightarrow> guarded t' lit y)"
      using x f v tr by auto
  qed
  then have "guards first (s\<lparr>cdcl_part := t', conflict := None\<rparr>)" unfolding guards_def entry_guarded_def Let_def by simp
  moreover have "watch_inv F (s\<lparr>cdcl_part := t', conflict := None\<rparr>)"
    using extends_watch_inv[OF nv w(1)] unfolding watch_inv_def by simp
  moreover have "start (control t' ! l) \<le> first" if l: "l \<in> {1..k}" for l
  proof (cases "k < level ?t")
    case True
    then have "start (control ?t ! l) \<le> start (control ?t ! Suc k)" using l by (intro levels_invD(4)[OF t(2)]) auto
    then show ?thesis using True l cl by (simp add: first_def)
  next
    case False
    then show ?thesis using l cl st k(2) c p(1) by (simp add: first_def)
  qed
  ultimately show ?thesis using r k(1) pr by (simp add: solver_inv_def)
qed

section \<open>Original clauses\<close>

text \<open>The value of a literal at level 0.\<close>

definition fixed :: "int \<Rightarrow> 'a cdcl \<Rightarrow> int" where
  "fixed lit t =
     (let idx = vidx lit; res = var_value t idx;
          res = (if res \<noteq> 0 \<and> vlevel (vtab t idx) \<noteq> 0 then 0 else res)
      in if lit < 0 then - res else res)"

text \<open>
  The loop over the literals of the clause: the marked literals, the literals that stay, and whether the clause
  is skipped.  Nothing is modelled of proofs and of the glue.
\<close>

fun clean_clause :: "'a cdcl \<Rightarrow> int list \<Rightarrow> int list \<Rightarrow> int list \<Rightarrow> bool \<Rightarrow> int list \<times> bool" where
  "clean_clause t [] marked clause skip = (clause, skip)"
| "clean_clause t (lit # original) marked clause skip =
     (if lit \<in> set marked then clean_clause t original marked clause skip
      else if - lit \<in> set marked then clean_clause t original marked clause True
      else
        let marked = marked @ [lit]; tmp = fixed lit t
        in if tmp < 0 then clean_clause t original marked clause skip
           else if tmp > 0 then clean_clause t original marked clause True
           else clean_clause t original marked (clause @ [lit]) skip)"

text \<open>The flag \<open>unsat\<close> of the solver is the first component of its state.\<close>

definition learn_empty_clause :: "bool \<times> 'a csolver \<Rightarrow> (bool \<times> 'a csolver) result" where
  "learn_empty_clause = (\<lambda>(unsat, s).
     if unsat then Inl OutOfBounds
     else Inr (True, s\<lparr>cdcl_part := (cdcl_part s)\<lparr>marked_failed := True\<rparr>\<rparr>))"

definition assign_original_unit :: "options \<Rightarrow> int \<Rightarrow> bool \<times> 'a csolver \<Rightarrow> (bool \<times> 'a csolver) result" where
  "assign_original_unit opts lit = (\<lambda>(unsat, s).
     let t = cdcl_part s; idx = vidx lit
     in if level t \<noteq> 0 \<and> opt_chrono opts = 0 \<or> unsat \<or> var_value t idx \<noteq> 0 then Inl OutOfBounds
        else
          let t = t\<lparr>vtab := (vtab t)(idx := \<lparr>vlevel = 0, vtrail = length (trail t), vreason = No_reason\<rparr>)\<rparr>;
              t = set_value idx (sgn lit) t;
              t = t\<lparr>trail := trail t @ [lit]\<rparr>;
              t = t\<lparr>num_assigned := num_assigned t + 1\<rparr>
          in if num_assigned t \<noteq> length (trail t) \<and> level t = 0 then Inl OutOfBounds
             else if level t \<noteq> 0 then Inr (unsat, s\<lparr>cdcl_part := t\<rparr>)
             else rbind (propagate opts (s\<lparr>cdcl_part := t\<rparr>)) (\<lambda>(ok, s).
               if ok then Inr (unsat, s)
               else if conflict s = None then Inl OutOfBounds
               else learn_empty_clause (unsat, s)))"

definition add_new_original_clause :: "options \<Rightarrow> int list \<Rightarrow> bool \<times> 'a::linorder csolver \<Rightarrow> (bool \<times> 'a csolver) result" where
  "add_new_original_clause opts original = (\<lambda>(unsat, s).
     rbind (if level (cdcl_part s) \<noteq> 0 then backtrack opts 0 (cdcl_part s) else Inr (cdcl_part s)) (\<lambda>t.
     let s = s\<lparr>cdcl_part := t\<rparr>;
         (clause, skip) = (if unsat then ([], True) else clean_clause t original [] [] False)
     in if skip then Inr (unsat, s)
        else if clause = [] then
          if unsat then Inl OutOfBounds else Inr (True, s\<lparr>cdcl_part := t\<lparr>marked_failed := True\<rparr>\<rparr>)
        else if length clause = 1 then
          let lit = clause ! 0
          in if lit_value t lit \<noteq> 0 \<and> vlevel (vtab t (vidx lit)) = 0 then Inl OutOfBounds
             else
               rbind (if lit_value t lit < 0 then backtrack opts (vlevel (vtab t (vidx lit)) - 1) t else Inr t) (\<lambda>t.
               if lit_value t lit < 0 then Inl OutOfBounds
               else assign_original_unit opts lit (unsat, s\<lparr>cdcl_part := t\<rparr>))
        else rbind (let (c, s) = new_clause clause s in rbind (watch_clause c s) (\<lambda>s. Inr (c, s))) (\<lambda>(c, s).
               Inr (unsat, s))))"

section \<open>The formula grows\<close>

lemma implied_mono: "set F \<subseteq> set G \<Longrightarrow> implied F c \<Longrightarrow> implied G c"
  unfolding implied_def sat_def by (metis subsetD)

lemma cdcl_step_mono:
  assumes "cdcl_step opts F t t'" "set F \<subseteq> set G"
  shows "cdcl_step opts G t t'"
  using assms(1)
  by (cases rule: cdcl_step.cases) (auto intro: cdcl_step.intros implied_mono[OF assms(2)])

lemma cdcl_reachable_mono:
  assumes "cdcl_reachable opts F A C t" "set F \<subseteq> set G"
  shows "cdcl_reachable opts G A C t"
  using assms(1)
  by (induction rule: cdcl_reachable.induct)
    (auto intro: cdcl_reachable.intros cdcl_step_mono[OF _ assms(2)])

lemma solver_inv_mono:
  assumes "solver_inv opts F A C q s" "set F \<subseteq> set G"
  shows "solver_inv opts G A C q s"
proof -
  have "clause_ok G t c" if "clause_ok F t c" for c and t :: "'a cdcl"
    using that implied_mono[OF assms(2)] by (simp add: clause_ok_def)
  then have "watch_inv G s" if "watch_inv F s"
    using that unfolding watch_inv_def entry_ok_def Let_def by blast
  then show ?thesis using assms cdcl_reachable_mono by (auto simp: solver_inv_def)
qed

section \<open>Original clauses are kept\<close>

lemma clean_clause_props:
  assumes "clean_clause t original marked clause skip = (clause', skip')"
  shows "distinct clause \<Longrightarrow> set clause \<subseteq> set marked \<Longrightarrow> distinct clause'"
    and "set clause \<subseteq> set clause'" "set clause' \<subseteq> set clause \<union> set original"
    and "\<forall>x\<in>set clause'. x \<in> set clause \<or> fixed x t = 0"
    and "\<not> skip' \<Longrightarrow> \<not> skip \<and> (\<forall>x\<in>set original. x \<in> set marked \<or> x \<in> set clause' \<or> fixed x t < 0)"
    and "skip' \<Longrightarrow> skip \<or> (\<exists>x\<in>set original \<union> set marked. - x \<in> set original \<union> set marked) \<or> (\<exists>x\<in>set original. fixed x t > 0)"
proof -
  show "distinct clause \<Longrightarrow> set clause \<subseteq> set marked \<Longrightarrow> distinct clause'"
    using assms by (induction t original marked clause skip rule: clean_clause.induct) (auto simp: Let_def split: if_splits)
  show sub: "set clause \<subseteq> set clause'"
    using assms by (induction t original marked clause skip rule: clean_clause.induct) (auto simp: Let_def split: if_splits)
  show "set clause' \<subseteq> set clause \<union> set original"
    using assms by (induction t original marked clause skip rule: clean_clause.induct) (auto simp: Let_def split: if_splits)
  show "\<forall>x\<in>set clause'. x \<in> set clause \<or> fixed x t = 0"
    using assms
    by (induction t original marked clause skip rule: clean_clause.induct) (force simp: Let_def split: if_splits)+
  have sub': "set clause \<subseteq> set clause'" if "clean_clause t original marked clause skip = (clause', skip')"
    for t :: "'a cdcl" and original marked clause skip
    using that by (induction t original marked clause skip rule: clean_clause.induct) (auto simp: Let_def split: if_splits)
  show "\<not> skip' \<Longrightarrow> \<not> skip \<and> (\<forall>x\<in>set original. x \<in> set marked \<or> x \<in> set clause' \<or> fixed x t < 0)"
    using assms
  proof (induction t original marked clause skip rule: clean_clause.induct)
    case (2 t lit original marked clause skip)
    consider (seen) "lit \<in> set marked" | (taut) "lit \<notin> set marked" "- lit \<in> set marked"
      | (false) "lit \<notin> set marked" "- lit \<notin> set marked" "fixed lit t < 0"
      | (true) "lit \<notin> set marked" "- lit \<notin> set marked" "fixed lit t > 0"
      | (keep) "lit \<notin> set marked" "- lit \<notin> set marked" "fixed lit t = 0" by linarith
    then show ?case
    proof cases
      case seen
      then show ?thesis using 2(1)[OF seen 2(6)] 2(7) by simp
    next
      case taut
      then show ?thesis using 2(2)[OF taut 2(6)] 2(7) by simp
    next
      case false
      then have "\<not> skip \<and> (\<forall>x\<in>set original. x \<in> set (marked @ [lit]) \<or> x \<in> set clause' \<or> fixed x t < 0)"
        using 2(3)[OF false(1,2) refl refl false(3) 2(6)] 2(7) by (simp add: Let_def)
      then show ?thesis using false(3) by auto
    next
      case true
      then show ?thesis using 2(4)[OF true(1,2) refl refl _ true(3) 2(6)] 2(7) by (simp add: Let_def)
    next
      case keep
      then have r: "clean_clause t original (marked @ [lit]) (clause @ [lit]) skip = (clause', skip')"
        using 2(7) by (simp add: Let_def)
      have "\<not> skip \<and> (\<forall>x\<in>set original. x \<in> set (marked @ [lit]) \<or> x \<in> set clause' \<or> fixed x t < 0)"
        using 2(5)[OF keep(1,2) refl refl _ _ 2(6) r] keep(3) by simp
      then show ?thesis using sub'[OF r] by auto
    qed
  qed simp
  show "skip' \<Longrightarrow> skip \<or> (\<exists>x\<in>set original \<union> set marked. - x \<in> set original \<union> set marked) \<or> (\<exists>x\<in>set original. fixed x t > 0)"
    using assms
  proof (induction t original marked clause skip rule: clean_clause.induct)
    case (2 t lit original marked clause skip)
    let ?M = "set (lit # original) \<union> set marked"
    have m: "set original \<union> set (marked @ [lit]) = ?M" by auto
    consider (seen) "lit \<in> set marked" | (taut) "lit \<notin> set marked" "- lit \<in> set marked"
      | (false) "lit \<notin> set marked" "- lit \<notin> set marked" "fixed lit t < 0"
      | (true) "fixed lit t > 0" | (keep) "lit \<notin> set marked" "- lit \<notin> set marked" "fixed lit t = 0" by linarith
    then show ?case
    proof cases
      case seen
      then have "skip \<or> (\<exists>x\<in>set original \<union> set marked. - x \<in> set original \<union> set marked) \<or> (\<exists>x\<in>set original. fixed x t > 0)"
        using 2 by simp
      then show ?thesis by auto
    next
      case taut
      then show ?thesis by (intro disjI2 disjI1 bexI[of _ lit]) auto
    next
      case false
      then have "skip \<or> (\<exists>x\<in>?M. - x \<in> ?M) \<or> (\<exists>x\<in>set original. fixed x t > 0)"
        using 2(3)[OF false(1,2) refl refl false(3) 2(6)] 2(7) unfolding m by (simp add: Let_def)
      then show ?thesis by auto
    next
      case true
      then show ?thesis by auto
    next
      case keep
      then have "skip \<or> (\<exists>x\<in>?M. - x \<in> ?M) \<or> (\<exists>x\<in>set original. fixed x t > 0)"
        using 2(5)[OF keep(1,2) refl refl _ _ 2(6)] 2(7) unfolding m by (simp add: Let_def)
      then show ?thesis by auto
    qed
  qed simp
qed

section \<open>The invariant of the solver\<close>

text \<open>Every clause of the formula is true at level 0, tautological, or contains a clause of the arena.\<close>

definition covers :: "int list list \<Rightarrow> 'a csolver \<Rightarrow> bool" where
  "covers F s \<longleftrightarrow> (\<forall>c\<in>set F. (\<forall>x\<in>set c. ok_lit (cdcl_part s) x) \<and>
     ((\<exists>x\<in>set c. lit_value (cdcl_part s) x > 0 \<and> lit_level (cdcl_part s) x = 0) \<or> (\<exists>x\<in>set c. - x \<in> set c) \<or>
      (\<exists>i\<in>set (clause_ids s). set (literals (arena s i)) \<subseteq> set c)))"

definition solver_ok :: "options \<Rightarrow> int list list \<Rightarrow> int list \<Rightarrow> int list \<Rightarrow> bool \<times> 'a::linordered_field csolver \<Rightarrow> bool" where
  "solver_ok opts F A C = (\<lambda>(unsat, s). (\<exists>q. solver_inv opts F A C q s) \<and> ids_ok s \<and>
     (if unsat then level (cdcl_part s) = 0 \<and> (\<nexists>v. sat v F) else covers F s))"

text \<open>Assigned variables keep their values, clauses their literals.\<close>

lemma covers_keeps:
  assumes "covers F s" "n_vars (base (cdcl_part s')) = n_vars (base (cdcl_part s))"
    and "\<And>x. lit_value (cdcl_part s) x > 0 \<Longrightarrow> lit_level (cdcl_part s) x = 0 \<Longrightarrow> ok_lit (cdcl_part s) x \<Longrightarrow>
      lit_value (cdcl_part s') x > 0 \<and> lit_level (cdcl_part s') x = 0"
    and "\<And>i. i \<in> set (clause_ids s) \<Longrightarrow> i \<in> set (clause_ids s') \<and> set (literals (arena s' i)) = set (literals (arena s i))"
  shows "covers F s'"
  unfolding covers_def
proof
  fix c assume c: "c \<in> set F"
  have ok: "\<forall>x\<in>set c. ok_lit (cdcl_part s) x" using assms(1) c by (simp add: covers_def)
  from assms(1) c consider (true) x where "x \<in> set c" "lit_value (cdcl_part s) x > 0" "lit_level (cdcl_part s) x = 0"
    | (taut) "\<exists>x\<in>set c. - x \<in> set c" | (clause) i where "i \<in> set (clause_ids s)" "set (literals (arena s i)) \<subseteq> set c"
    unfolding covers_def by blast
  then have "(\<exists>x\<in>set c. lit_value (cdcl_part s') x > 0 \<and> lit_level (cdcl_part s') x = 0) \<or> (\<exists>x\<in>set c. - x \<in> set c) \<or>
      (\<exists>i\<in>set (clause_ids s'). set (literals (arena s' i)) \<subseteq> set c)"
  proof cases
    case true
    then show ?thesis using assms(3)[OF true(2,3)] ok by blast
  next
    case clause
    then have "i \<in> set (clause_ids s') \<and> set (literals (arena s' i)) \<subseteq> set c" using assms(4)[OF clause(1)] by simp
    then show ?thesis by (intro disjI2 bexI[of _ i]) blast+
  qed simp
  then show "(\<forall>x\<in>set c. ok_lit (cdcl_part s') x) \<and> ((\<exists>x\<in>set c. lit_value (cdcl_part s') x > 0 \<and> lit_level (cdcl_part s') x = 0) \<or>
      (\<exists>x\<in>set c. - x \<in> set c) \<or> (\<exists>i\<in>set (clause_ids s'). set (literals (arena s' i)) \<subseteq> set c))"
    using ok assms(2) by simp
qed

lemma covers_same_levels:
  assumes "covers F s" "same_levels s s'"
  shows "covers F s'"
proof (rule covers_keeps[OF assms(1)])
  show "n_vars (base (cdcl_part s')) = n_vars (base (cdcl_part s))" using assms(2) by (simp add: same_levels_def)
  show "lit_value (cdcl_part s') x > 0 \<and> lit_level (cdcl_part s') x = 0"
    if "lit_value (cdcl_part s) x > 0" "lit_level (cdcl_part s) x = 0" for x
  proof -
    have "var_value (cdcl_part s) (vidx x) \<noteq> 0" using that(1) by (auto simp: lit_value_def split: if_splits)
    then have "var_value (cdcl_part s') (vidx x) = var_value (cdcl_part s) (vidx x)" "vtab (cdcl_part s') (vidx x) = vtab (cdcl_part s) (vidx x)"
      using assms(2) by (auto simp: same_levels_def)
    then show ?thesis using that by (simp add: lit_value_def split: if_splits)
  qed
  show "i \<in> set (clause_ids s') \<and> set (literals (arena s' i)) = set (literals (arena s i))" if "i \<in> set (clause_ids s)" for i
    using assms(2) that mset_eq_setD unfolding same_levels_def by metis
qed

text \<open>The trail decides values of literals, so growing and shrinking trails keep what is true at level 0.\<close>

lemma covers_trail:
  assumes "covers F s" "trail_inv (cdcl_part s)" "trail_inv t'" "n_vars (base t') = n_vars (base (cdcl_part s))"
    and "\<And>x. x \<in> set (trail (cdcl_part s)) \<Longrightarrow> lit_level (cdcl_part s) x = 0 \<Longrightarrow> x \<in> set (trail t') \<and> lit_level t' x = 0"
  shows "covers F (s\<lparr>cdcl_part := t'\<rparr>)"
  by (rule covers_keeps[OF assms(1)])
    (use assms(4,5) lit_value_trail(1)[OF assms(2)] lit_value_trail(1)[OF assms(3)] in auto)

lemma covers_grows:
  assumes "covers F s" "trail_inv (cdcl_part s)" "trail_inv t'" "grows (cdcl_part s) t'"
  shows "covers F (s\<lparr>cdcl_part := t'\<rparr>)"
  by (rule covers_trail[OF assms(1-3)]) (use assms(4) in \<open>auto simp: grows_def\<close>)

lemma covers_shrinks:
  assumes "covers F s" "trail_inv (cdcl_part s)" "trail_inv t'" "shrinks k (cdcl_part s) t'"
  shows "covers F (s\<lparr>cdcl_part := t'\<rparr>)"
  by (rule covers_trail[OF assms(1-3)]) (use assms(4) in \<open>auto simp: shrinks_def\<close>)

lemma covers_conflict [simp]: "covers F (s\<lparr>conflict := c\<rparr>) = covers F s"
  by (simp add: covers_def)

lemma covers_attached: "ids_ok s \<Longrightarrow> covers F s \<Longrightarrow> covers F (attached lits s)"
  by (erule covers_keeps) (auto simp: ids_ok_def dest: arg_cong[of _ _ set])

lemma covers_Cons:
  "covers (c # F) s \<longleftrightarrow> covers F s \<and> (\<forall>x\<in>set c. ok_lit (cdcl_part s) x) \<and>
     ((\<exists>x\<in>set c. lit_value (cdcl_part s) x > 0 \<and> lit_level (cdcl_part s) x = 0) \<or> (\<exists>x\<in>set c. - x \<in> set c) \<or>
      (\<exists>i\<in>set (clause_ids s). set (literals (arena s i)) \<subseteq> set c))"
  by (auto simp: covers_def)

text \<open>A falsified clause at level 0 refutes the formula.\<close>

lemma level0_refutes:
  assumes r: "cdcl_reachable opts F A C t" and l: "level t = 0" and c: "implied F c"
    and f: "\<And>x. x \<in> set c \<Longrightarrow> x \<noteq> 0 \<and> - x \<in> set (trail t)"
  shows "\<nexists>v. sat v F"
proof
  assume "\<exists>v. sat v F"
  then obtain v where v: "sat v F" by blast
  then obtain x where x: "x \<in> set c" "lit_true v x" using c by (auto simp: implied_def)
  have inv: "cdcl_inv opts F t" using cdcl_reachable_inv[OF r] by (simp add: query_inv_def)
  have "follows F (decisions_upto t (lit_level t (- x))) (- x)" using cdcl_invD(4)[OF inv] f[OF x(1)] unfolding justified_def by blast
  moreover have "lit_level t (- x) = 0" using levels_invD(2)[OF cdcl_invD(3)[OF inv]] f[OF x(1)] l by (metis le_zero_eq)
  ultimately have "lit_true v (- x)" using v by (simp add: follows_def decisions_upto_def)
  then show False using x(2) f[OF x(1)] by simp
qed

lemma conflict_refutes:
  assumes inv: "solver_inv opts F A C q s" and ids: "ids_ok s" and l: "level (cdcl_part s) = 0" and c: "conflict s = Some c"
  shows "\<nexists>v. sat v F"
proof (rule level0_refutes[OF _ l])
  show "cdcl_reachable opts F A C (cdcl_part s)" using inv by (simp add: solver_inv_def)
  have "clause_ok F (cdcl_part s) (arena s c)"
    using inv ids c unfolding solver_inv_def watch_inv_def ids_ok_def by blast
  then show "implied F (literals (arena s c))"
    "\<And>x. x \<in> set (literals (arena s c)) \<Longrightarrow> x \<noteq> 0 \<and> - x \<in> set (trail (cdcl_part s))"
    using inv c by (auto simp: clause_ok_def solver_inv_def falsified_def)
qed

section \<open>Adding an original clause\<close>

lemma fixed_level0:
  assumes "levels_inv opts t" "trail_inv t" "level t = 0"
  shows "fixed x t = lit_value t x"
proof -
  have "vlevel (vtab t (vidx x)) = 0" if nz: "var_value t (vidx x) \<noteq> 0"
  proof -
    obtain y where y: "y \<in> set (trail t)" "vidx x = vidx y" using trail_invD(4)[OF assms(2) nz] by blast
    then show ?thesis using levels_invD(2)[OF assms(1) y(1)] assms(3) by simp
  qed
  then show ?thesis by (cases "var_value t (vidx x) = 0") (simp_all add: fixed_def lit_value_def Let_def)
qed

text \<open>What \<open>assign_original_unit\<close> assigns: as a learned unit, but the saved phase stays.\<close>

definition original_unit :: "int \<Rightarrow> 'a cdcl \<Rightarrow> 'a cdcl" where
  "original_unit lit t = (assign_at lit 0 No_reason t)\<lparr>phases_saved := phases_saved t\<rparr>"

lemma original_unit_eq:
  "original_unit lit t = (set_value (vidx lit) (sgn lit)
     (t\<lparr>vtab := (vtab t)(vidx lit := \<lparr>vlevel = 0, vtrail = length (trail t), vreason = No_reason\<rparr>)\<rparr>))
     \<lparr>trail := trail t @ [lit], num_assigned := num_assigned t + 1\<rparr>"
  by (rule cdcl.equality) (simp_all add: original_unit_def assign_at_def set_value_def)

lemma original_unit_reachable:
  assumes r: "cdcl_reachable opts F A C t" and l: "ok_lit t lit" "lit_value t lit = 0" "implied F [lit]" "level t = 0"
  shows "cdcl_reachable opts F A C (original_unit lit t)" "grows t (original_unit lit t)"
    "lit \<in> set (trail (original_unit lit t))"
proof -
  have inv: "cdcl_inv opts F t" using cdcl_reachable_inv[OF r] by (simp add: query_inv_def)
  note t = cdcl_invD(2)[OF inv]
  have z: "var_value t (vidx lit) = 0" using lit_value_trail(3)[OF t, of lit] l by simp
  have "length (trail t) < n_vars (base t)" by (rule trail_room[OF t _ z]) (use l(1) in blast)
  then have a: "search_assign opts lit No_reason t = Inr (assign_at lit 0 No_reason t)"
    using z trail_invD(5)[OF t] by (simp add: search_assign_def Let_def assign_at_def set_value_def)
  from assign_grows(1)[OF t this] show "grows t (original_unit lit t)"
    by (rule grows_fields) (simp_all add: original_unit_def)
  have "cdcl_step opts F t (assign_at lit 0 No_reason t)"
    by (rule cdcl_step.Unit[OF l(1-3)]) (use l(4) a in \<open>simp_all add: search_assign_driving_def\<close>)
  from cdcl_reachable.Step[OF r this] have "cdcl_reachable opts F A C (assign_at lit 0 No_reason t)" .
  moreover have "\<forall>i. \<bar>phases_saved t i\<bar> \<le> 1" using cdcl_invD(6)[OF inv] by (simp add: phases_inv_def)
  ultimately show "cdcl_reachable opts F A C (original_unit lit t)"
    unfolding original_unit_def by (rule cdcl_reachable.Step[OF _ cdcl_step.Rephase])
  show "lit \<in> set (trail (original_unit lit t))" by (simp add: original_unit_def)
qed

lemma solver_inv_field:
  assumes "solver_inv opts F A C q s" "cdcl_reachable opts F A C (t' :: 'a::linordered_field cdcl)"
    and "trail t' = trail (cdcl_part s)" "vtab t' = vtab (cdcl_part s)" "control t' = control (cdcl_part s)"
    and "level t' = level (cdcl_part s)" "propagated t' = propagated (cdcl_part s)" "n_vars (base t') = n_vars (base (cdcl_part s))"
  shows "solver_inv opts F A C q (s\<lparr>cdcl_part := t'\<rparr>)"
  using assms by (simp add: solver_inv_def watch_inv_def entry_ok_def clause_ok_def guards_def entry_guarded_def
      guarded_def falsified_def)

lemma marked_failed_reachable:
  assumes "cdcl_reachable opts F A C t"
  shows "cdcl_reachable opts F A C (t\<lparr>marked_failed := m\<rparr>)"
proof -
  have "cdcl_step opts F t (t\<lparr>propagated2 := propagated2 t, no_conflict_until := no_conflict_until t, conflicts := conflicts t,
      rephased := rephased t, last_rephase_conflicts := last_rephase_conflicts t, stable_mode := stable_mode t,
      marked_failed := m\<rparr>)" by (rule cdcl_step.Counters)
  then show ?thesis using cdcl_reachable.Step[OF assms] by simp
qed

lemma learn_empty_ok:
  assumes "solver_inv opts F A C q s" "ids_ok s" "level (cdcl_part s) = 0" "\<nexists>v. sat v F"
  shows "solver_ok opts F A C (True, s\<lparr>cdcl_part := (cdcl_part s)\<lparr>marked_failed := True\<rparr>\<rparr>)"
proof -
  have "cdcl_reachable opts F A C ((cdcl_part s)\<lparr>marked_failed := True\<rparr>)"
    by (rule marked_failed_reachable) (use assms(1) in \<open>simp add: solver_inv_def\<close>)
  from solver_inv_field[OF assms(1) this] show ?thesis
    using assms(2-4) by (auto simp: solver_ok_def ids_ok_def)
qed

lemma assign_original_unit_rok:
  assumes inv: "solver_inv opts F A C q s" and ids: "ids_ok s" and n: "conflict s = None" and l0: "level (cdcl_part s) = 0"
    and lit: "ok_lit (cdcl_part s) lit" "lit_value (cdcl_part s) lit = 0" "implied F [lit]"
    and cov: "covers F (s\<lparr>cdcl_part := original_unit lit (cdcl_part s)\<rparr>)"
  shows "rok (assign_original_unit opts lit (False, s)) (\<lambda>(u, s'). solver_ok opts F A C (u, s') \<and> (u \<or> conflict s' = None) \<and>
    level (cdcl_part s') = 0 \<and> n_vars (base (cdcl_part s')) = n_vars (base (cdcl_part s)))"
proof -
  let ?t = "cdcl_part s"
  let ?s = "s\<lparr>cdcl_part := original_unit lit ?t\<rparr>"
  have r: "cdcl_reachable opts F A C ?t" using inv by (simp add: solver_inv_def)
  note u = original_unit_reachable[OF r lit l0] and t = reachable_trail[OF r]
  have z: "var_value ?t (vidx lit) = 0" using lit_value_trail(3)[OF t(1), of lit] lit by simp
  have f: "level (original_unit lit ?t) = 0" "n_vars (base (original_unit lit ?t)) = n_vars (base ?t)"
    using l0 by (simp_all add: original_unit_def)
  have inv': "solver_inv opts F A C q ?s"
    by (rule solver_inv_grows[OF inv n u(2,1)]) (simp add: f l0)
  have ids': "ids_ok ?s" using ids by (simp add: ids_ok_def)
  have run: "assign_original_unit opts lit (False, s) =
      rbind (propagate opts ?s) (\<lambda>(ok, s).
               if ok then Inr (False, s)
               else if conflict s = None then Inl OutOfBounds
               else learn_empty_clause (False, s))"
    using z l0 trail_invD(5)[OF t(1)]
    by (simp add: assign_original_unit_def Let_def original_unit_eq set_value_def)
  from propagate_total[OF inv'] obtain ok s1 where p: "propagate opts ?s = Inr (ok, s1)"
      "propagate_post opts F A C ?s (ok, s1)" by (auto elim!: rokE)
  have same: "same_levels ?s s1" and ids1: "ids_ok s1" and ok: "ok \<longleftrightarrow> conflict s1 = None"
    using p(2) ids' by (simp_all add: propagate_post_def)
  obtain q1 where inv1: "solver_inv opts F A C q1 s1" using p(2) by (auto simp: propagate_post_def)
  have l1: "level (cdcl_part s1) = 0" "n_vars (base (cdcl_part s1)) = n_vars (base ?t)"
    using same f by (simp_all add: same_levels_def)
  show ?thesis
  proof (cases "conflict s1")
    case None
    moreover have "covers F s1" by (rule covers_same_levels[OF cov same])
    ultimately show ?thesis using ok inv1 ids1 l1 by (auto simp: run p(1) solver_ok_def)
  next
    case (Some c)
    from learn_empty_ok[OF inv1 ids1 l1(1) conflict_refutes[OF inv1 ids1 l1(1) Some]] show ?thesis
      using Some ok l1 by (simp add: run p(1) learn_empty_clause_def)
  qed
qed

lemma backtrack_shrinks:
  assumes r: "cdcl_reachable opts F A C t" and k: "k \<le> level t"
  shows "rok (backtrack opts k t) (\<lambda>t'. cdcl_reachable opts F A C t' \<and> shrinks k t t')"
proof -
  have inv: "cdcl_inv opts F t" using cdcl_reachable_inv[OF r] by (simp add: query_inv_def)
  from backtrack_rok[OF inv k] obtain t' where b: "backtrack opts k t = Inr t'" "backtrack_post opts F k t t'" by (elim rokE)
  have "cdcl_reachable opts F A C t'" by (rule cdcl_reachable.Step[OF r cdcl_step.Backtrack[OF k b(1)]])
  then show ?thesis using b k by (simp add: backtrack_post_def shrinks_def)
qed

text \<open>At level 0, the cleaned clause is what remains of the original one.\<close>

lemma cleaned:
  assumes r: "cdcl_reachable opts F A C t" and l0: "level t = 0" and ok: "\<forall>x\<in>set c. ok_lit t x"
    and cl: "clean_clause t c [] [] False = (cl, skip)"
  shows "distinct cl" "set cl \<subseteq> set c" "\<forall>x\<in>set cl. lit_value t x = 0"
    "skip \<Longrightarrow> (\<exists>x\<in>set c. - x \<in> set c) \<or> (\<exists>x\<in>set c. lit_value t x > 0 \<and> lit_level t x = 0)"
    "\<not> skip \<Longrightarrow> c \<in> set F \<Longrightarrow> implied F cl"
proof -
  note t = reachable_trail[OF r]
  note fx = fixed_level0[OF t(2,1) l0]
  note p = clean_clause_props[OF cl, unfolded fx]
  show "distinct cl" "set cl \<subseteq> set c" "\<forall>x\<in>set cl. lit_value t x = 0" using p(1,3,4) by simp_all
  have lv: "lit_level t x = 0" if "x \<in> set c" "lit_value t x > 0" for x
  proof -
    have "x \<in> set (trail t)" using lit_value_trail(1)[OF t(1)] ok that by blast
    then show ?thesis using levels_invD(2)[OF t(2), of x] l0 by simp
  qed
  show "skip \<Longrightarrow> (\<exists>x\<in>set c. - x \<in> set c) \<or> (\<exists>x\<in>set c. lit_value t x > 0 \<and> lit_level t x = 0)"
    using p(6) lv by auto
  show "implied F cl" if ns: "\<not> skip" and F: "c \<in> set F"
    unfolding implied_def
  proof (intro allI impI)
    fix v assume v: "sat v F"
    then obtain x where x: "x \<in> set c" "lit_true v x" using F by (auto simp: sat_def)
    have "x \<in> set cl \<or> lit_value t x < 0" using p(5)[OF ns] x(1) by auto
    moreover have False if neg: "lit_value t x < 0"
    proof -
      have m: "- x \<in> set (trail t)" using lit_value_trail(2)[OF t(1)] ok x(1) neg by blast
      have "\<nexists>v. sat v (F @ [[x]])"
      proof (rule level0_refutes[OF _ l0])
        show "cdcl_reachable opts (F @ [[x]]) A C t" by (rule cdcl_reachable_mono[OF r]) auto
        show "implied (F @ [[x]]) [x]" by (auto simp: implied_def sat_def)
      qed (use m ok x(1) in auto)
      moreover have "sat v (F @ [[x]])" using v x(2) by (auto simp: sat_def)
      ultimately show False by blast
    qed
    ultimately show "\<exists>l\<in>set cl. lit_true v l" using x(2) by blast
  qed
qed

lemma add_new_original_clause_rok:
  assumes ok: "solver_ok opts F A C (u, s)" and n: "u \<or> conflict s = None" and c: "\<forall>x\<in>set c. ok_lit (cdcl_part s) x"
  shows "rok (add_new_original_clause opts c (u, s)) (\<lambda>(u', s'). solver_ok opts (c # F) A C (u', s') \<and>
    (u' \<or> conflict s' = None) \<and> level (cdcl_part s') = 0 \<and> n_vars (base (cdcl_part s')) = n_vars (base (cdcl_part s)))"
    (is "rok _ ?Q")
proof (cases u)
  case True
  have "\<exists>q. solver_inv opts (c # F) A C q s" using ok solver_inv_mono[of opts F A C _ s "c # F"] by (auto simp: solver_ok_def)
  moreover have "\<nexists>v. sat v (c # F)" using ok True by (auto simp: solver_ok_def sat_def)
  ultimately have "solver_ok opts (c # F) A C (True, s)" using ok True by (simp add: solver_ok_def)
  moreover have "level (cdcl_part s) = 0" using ok True by (simp add: solver_ok_def)
  ultimately show ?thesis using True by (simp add: add_new_original_clause_def)
next
  case False
  let ?G = "c # F"
  have n: "conflict s = None" and ids: "ids_ok s" and cov: "covers F s" using n False ok by (simp_all add: solver_ok_def)
  obtain q where inv0: "solver_inv opts F A C q s" using ok by (auto simp: solver_ok_def)
  have "solver_inv opts ?G A C q s" by (rule solver_inv_mono[OF inv0]) auto
  then have r: "cdcl_reachable opts ?G A C (cdcl_part s)" and inv: "solver_inv opts ?G A C q s" by (simp_all add: solver_inv_def)
  have "rok (if level (cdcl_part s) \<noteq> 0 then backtrack opts 0 (cdcl_part s) else Inr (cdcl_part s))
      (\<lambda>t. level t = 0 \<and> n_vars (base t) = n_vars (base (cdcl_part s)) \<and> covers F (s\<lparr>cdcl_part := t\<rparr>) \<and>
        (\<exists>q. solver_inv opts ?G A C q (s\<lparr>cdcl_part := t\<rparr>)))"
  proof (cases "level (cdcl_part s) = 0")
    case True
    then show ?thesis using cov inv by auto
  next
    case False
    have "rok (backtrack opts 0 (cdcl_part s)) (\<lambda>t. level t = 0 \<and> n_vars (base t) = n_vars (base (cdcl_part s)) \<and>
        covers F (s\<lparr>cdcl_part := t\<rparr>) \<and> (\<exists>q. solver_inv opts ?G A C q (s\<lparr>cdcl_part := t\<rparr>)))"
    proof (rule rok_weaken[OF backtrack_shrinks[OF r]])
      fix t assume t: "cdcl_reachable opts ?G A C t \<and> shrinks 0 (cdcl_part s) t"
      have "s\<lparr>cdcl_part := t, conflict := None\<rparr> = s\<lparr>cdcl_part := t\<rparr>" using n by simp
      then have "solver_inv opts ?G A C (propagated t) (s\<lparr>cdcl_part := t\<rparr>)"
        using solver_inv_shrinks[OF inv disjI1[OF n]] t by metis
      then show "level t = 0 \<and> n_vars (base t) = n_vars (base (cdcl_part s)) \<and>
          covers F (s\<lparr>cdcl_part := t\<rparr>) \<and> (\<exists>q. solver_inv opts ?G A C q (s\<lparr>cdcl_part := t\<rparr>))"
        using covers_shrinks[OF cov reachable_trail(1)[OF r] reachable_trail(1), of opts ?G A C t 0] t
        by (auto simp: shrinks_def)
    qed simp
    then show ?thesis using False by simp
  qed
  then obtain t q1 where b: "(if level (cdcl_part s) \<noteq> 0 then backtrack opts 0 (cdcl_part s) else Inr (cdcl_part s)) = Inr t"
      and l0: "level t = 0" and nv: "n_vars (base t) = n_vars (base (cdcl_part s))" and cov1: "covers F (s\<lparr>cdcl_part := t\<rparr>)"
      and inv1: "solver_inv opts ?G A C q1 (s\<lparr>cdcl_part := t\<rparr>)" by (auto elim!: rokE)
  let ?s = "s\<lparr>cdcl_part := t\<rparr>"
  have ids1: "ids_ok ?s" using ids by (simp add: ids_ok_def)
  have rt: "cdcl_reachable opts ?G A C t" using inv1 by (simp add: solver_inv_def)
  note tt = reachable_trail[OF rt]
  have okt: "\<forall>x\<in>set c. ok_lit t x" using c nv by simp
  obtain cl skip where cl: "clean_clause t c [] [] False = (cl, skip)" by fastforce
  note k = cleaned[OF rt l0 okt cl]
  have run: "add_new_original_clause opts c (u, s) =
     (if skip then Inr (False, ?s)
      else if cl = [] then Inr (True, ?s\<lparr>cdcl_part := t\<lparr>marked_failed := True\<rparr>\<rparr>)
      else if length cl = 1 then
        if lit_value t (cl ! 0) \<noteq> 0 \<and> vlevel (vtab t (vidx (cl ! 0))) = 0 then Inl OutOfBounds
        else rbind (if lit_value t (cl ! 0) < 0 then backtrack opts (vlevel (vtab t (vidx (cl ! 0))) - 1) t else Inr t) (\<lambda>t.
          if lit_value t (cl ! 0) < 0 then Inl OutOfBounds else assign_original_unit opts (cl ! 0) (False, ?s\<lparr>cdcl_part := t\<rparr>))
      else rbind (let (c, s) = new_clause cl ?s in rbind (watch_clause c s) (\<lambda>s. Inr (c, s))) (\<lambda>(c, s). Inr (False, s)))"
    unfolding eq_False[THEN iffD2, OF False] add_new_original_clause_def prod.case b by (simp add: cl Let_def)
  consider (skip) "skip" | (empty) "\<not> skip" "cl = []" | (unit) x where "\<not> skip" "cl = [x]" | (long) "\<not> skip" "2 \<le> length cl"
    by (cases cl; cases "tl cl") auto
  then show ?thesis
  proof cases
    case skip
    then have "covers ?G ?s" using k(4) cov1 okt by (auto simp: covers_Cons)
    then show ?thesis using skip inv1 ids1 l0 nv n by (auto simp: run solver_ok_def)
  next
    case empty
    then have "\<nexists>v. sat v ?G" using k(5) by (simp add: implied_def)
    from learn_empty_ok[OF inv1 ids1 _ this] show ?thesis using empty l0 nv by (simp add: run)
  next
    case (unit x)
    have x: "ok_lit t x" "lit_value t x = 0" "implied ?G [x]" "x \<in> set c" using k(2,3,5) okt unit by simp_all
    note u = original_unit_reachable[OF rt x(1-3) l0]
    have "covers F (?s\<lparr>cdcl_part := original_unit x t\<rparr>)"
      using covers_grows[OF cov1, of "original_unit x t"] tt(1) reachable_trail(1)[OF u(1)] u(2) by simp
    moreover have "lit_value (original_unit x t) x > 0" "lit_level (original_unit x t) x = 0"
      using lit_value_trail(1)[OF reachable_trail(1)[OF u(1)]] u(3) x(1) by (auto simp: original_unit_def)
    moreover have "n_vars (base (original_unit x t)) = n_vars (base t)" by (simp add: original_unit_def)
    ultimately have "covers ?G (?s\<lparr>cdcl_part := original_unit x t\<rparr>)" using x(4) okt by (auto simp: covers_Cons)
    from rok_weaken[OF assign_original_unit_rok[OF inv1 ids1 _ _ _ _ x(3)], of ?Q] this x(1,2) l0 nv n
    show ?thesis by (simp add: run unit split: prod.splits)
  next
    case long
    note e = new_clause_eq(1)[OF k(1) long(2), of ?s]
    have new: "new_ok ?G (cdcl_part ?s) cl" using k(1,2,5) long okt by (auto simp: new_ok_def)
    have "- l \<notin> set (trail t)" if "l \<in> set cl" for l
      using lit_value_trail(2)[OF tt(1), of l] k(2,3) okt that by fastforce
    moreover have "cl ! 0 \<in> set cl" "cl ! 1 \<in> set cl" using long(2) by (auto intro!: nth_mem)
    ultimately have a: "solver_inv opts ?G A C q1 (attached cl ?s)" "ids_ok (attached cl ?s)"
      using attached_inv[OF inv1 ids1 new] by auto
    have "covers F (attached cl ?s)" by (rule covers_attached[OF ids1 cov1])
    moreover have "length (clause_ids ?s) \<in> set (clause_ids (attached cl ?s)) \<and>
        set (literals (arena (attached cl ?s) (length (clause_ids ?s)))) \<subseteq> set c" using k(2) by simp
    ultimately have "covers ?G (attached cl ?s)" using okt unfolding covers_Cons by (auto simp del: attached_simps(3,4))
    then show ?thesis using a long l0 nv n by (auto simp: run e solver_ok_def)
  qed
qed

section \<open>The operations of the search keep the invariant\<close>

definition start_state :: "int list \<Rightarrow> int list \<Rightarrow> 'a::linordered_field csolver \<Rightarrow> bool" where
  "start_state A C s \<longleftrightarrow> fresh A C (cdcl_part s) \<and> wtab s = (\<lambda>_. []) \<and> clause_ids s = [] \<and> conflict s = None \<and>
     (\<forall>c. \<not> garbage (arena s c))"

lemma start_ok:
  assumes "start_state A C s"
  shows "solver_ok opts [] A C (False, s)"
proof -
  have "cdcl_reachable opts [] A C (cdcl_part s)" by (rule cdcl_reachable.Start) (use assms in \<open>simp add: start_state_def\<close>)
  then have "solver_inv opts [] A C 0 s"
    using assms by (auto simp: start_state_def solver_inv_def watch_inv_def guards_def fresh_def)
  then show ?thesis using assms by (auto simp: solver_ok_def ids_ok_def covers_def start_state_def)
qed

lemma propagate_ok:
  assumes ok: "solver_ok opts F A C (False, s)"
  shows "rok (propagate opts s) (\<lambda>(ok, s'). solver_ok opts F A C (False, s') \<and> same_levels s s' \<and> ok = (conflict s' = None) \<and>
    (ok \<longrightarrow> propagated (cdcl_part s') = length (trail (cdcl_part s')) \<and>
       (\<forall>c\<in>set (clause_ids s'). \<exists>x\<in>set (literals (arena s' c)). ok_lit (cdcl_part s') x \<and> lit_value (cdcl_part s') x \<ge> 0)) \<and>
    (\<not> ok \<longrightarrow> (\<exists>c\<in>set (clause_ids s'). conflict s' = Some c \<and> implied F (literals (arena s' c)) \<and>
       (\<forall>x\<in>set (literals (arena s' c)). - x \<in> set (trail (cdcl_part s'))))))"
proof -
  obtain q where inv: "solver_inv opts F A C q s" and ids: "ids_ok s" and cov: "covers F s"
    using ok by (auto simp: solver_ok_def)
  show ?thesis
  proof (rule rok_weaken[OF propagate_total[OF inv]])
    fix r assume p: "propagate_post opts F A C s r"
    obtain ok s' where r: "r = (ok, s')" by fastforce
    have d: "same_levels s s'" "ids_ok s'" "\<exists>q. solver_inv opts F A C q s'" "ok \<longleftrightarrow> conflict s' = None"
      using p ids by (simp_all add: r propagate_post_def)
    have ng: "\<not> garbage (arena s' c)" for c using d(2) by (simp add: ids_ok_def)
    have "solver_ok opts F A C (False, s')" using d(2,3) covers_same_levels[OF cov d(1)] by (simp add: solver_ok_def)
    moreover have "c \<in> set (clause_ids s') \<and> implied F (literals (arena s' c))" if "conflict s' = Some c" for c
    proof -
      have c: "c \<in> set (clause_ids s')" using d(2) that by (simp add: ids_ok_def)
      then have "clause_ok F (cdcl_part s') (arena s' c)" using d(3) ng by (auto simp: solver_inv_def watch_inv_def)
      then show ?thesis using c by (simp add: clause_ok_def)
    qed
    ultimately show "case r of (ok, s') \<Rightarrow> solver_ok opts F A C (False, s') \<and> same_levels s s' \<and> ok = (conflict s' = None) \<and>
      (ok \<longrightarrow> propagated (cdcl_part s') = length (trail (cdcl_part s')) \<and>
         (\<forall>c\<in>set (clause_ids s'). \<exists>x\<in>set (literals (arena s' c)). ok_lit (cdcl_part s') x \<and> lit_value (cdcl_part s') x \<ge> 0)) \<and>
      (\<not> ok \<longrightarrow> (\<exists>c\<in>set (clause_ids s'). conflict s' = Some c \<and> implied F (literals (arena s' c)) \<and>
         (\<forall>x\<in>set (literals (arena s' c)). - x \<in> set (trail (cdcl_part s')))))"
      using p d(1,4) ng unfolding r prod.case propagate_post_def by blast
  qed
qed

lemma solver_ok_trail:
  assumes "solver_ok opts F A C (False, s)"
  shows "cdcl_reachable opts F A C (cdcl_part s)" "trail_inv (cdcl_part s)" "levels_inv opts (cdcl_part s)"
  using assms reachable_trail by (auto simp: solver_ok_def solver_inv_def)

lemma backtrack_ok:
  assumes ok: "solver_ok opts F A C (False, s)" and c: "conflict s = None \<or> k < level (cdcl_part s)"
    and r: "cdcl_reachable opts F A C t'" and sh: "shrinks k (cdcl_part s) t'"
  shows "solver_ok opts F A C (False, s\<lparr>cdcl_part := t', conflict := None\<rparr>)"
proof -
  obtain q where inv: "solver_inv opts F A C q s" and ids: "ids_ok s" and cov: "covers F s"
    using ok by (auto simp: solver_ok_def)
  have "covers F (s\<lparr>cdcl_part := t'\<rparr>)"
    by (rule covers_shrinks[OF cov _ _ sh]) (use solver_ok_trail[OF ok] reachable_trail[OF r] in blast)+
  then show ?thesis using solver_inv_shrinks[OF inv c sh r] ids by (auto simp: solver_ok_def ids_ok_def)
qed

lemma restart_ok:
  assumes ok: "solver_ok opts F A C (False, s)" and n: "conflict s = None"
    and p: "propagated (cdcl_part s) = length (trail (cdcl_part s))" and ns: "\<not> satisfied (cdcl_part s)"
    and lv: "length A + 2 \<le> level (cdcl_part s)" and run: "restart opts (cdcl_part s) = Inr t'"
  shows "solver_ok opts F A C (False, s\<lparr>cdcl_part := t'\<rparr>)"
proof -
  note r = solver_ok_trail(1)[OF ok]
  have q: "query_inv opts F A C (cdcl_part s)" by (rule cdcl_reachable_inv[OF r])
  then have lv': "length (assumed_lits (cdcl_part s)) + 2 \<le> level (cdcl_part s)" and inv: "cdcl_inv opts F (cdcl_part s)"
    using lv by (simp_all add: query_inv_def)
  have "shrinks (level t') (cdcl_part s) t'"
    using restart_rok[OF inv p ns lv'] run by (auto simp: backtrack_post_def shrinks_def)
  moreover have "cdcl_reachable opts F A C t'" by (rule cdcl_reachable.Step[OF r cdcl_step.Restart[OF p ns lv' run]])
  ultimately have "solver_ok opts F A C (False, s\<lparr>cdcl_part := t', conflict := None\<rparr>)"
    using backtrack_ok[OF ok disjI1[OF n]] by blast
  moreover have "s\<lparr>cdcl_part := t', conflict := None\<rparr> = s\<lparr>cdcl_part := t'\<rparr>" using n by simp
  ultimately show ?thesis by metis
qed

lemma decide_ok:
  assumes ok: "solver_ok opts F A C (False, s)" and n: "conflict s = None"
    and p: "propagated (cdcl_part s) = length (trail (cdcl_part s))" and ns: "\<not> satisfied (cdcl_part s)"
    and run: "decide opts (cdcl_part s) = Inr (res, t')"
  shows "solver_ok opts F A C (False, s\<lparr>cdcl_part := t'\<rparr>)"
proof -
  obtain q where inv: "solver_inv opts F A C q s" and ids: "ids_ok s" and cov: "covers F s"
    using ok by (auto simp: solver_ok_def)
  note r = solver_ok_trail[OF ok]
  have r': "cdcl_reachable opts F A C t'" by (rule cdcl_reachable.Step[OF r(1) cdcl_step.Decide[OF p ns run]])
  have g: "grows (cdcl_part s) t'" by (rule decide_grows[OF r(2) run])
  have "q = length (trail (cdcl_part s))" using inv n p by (simp add: solver_inv_def)
  then have "solver_inv opts F A C q (s\<lparr>cdcl_part := t'\<rparr>)" by (intro solver_inv_grows[OF inv n g r']) simp
  moreover have "covers F (s\<lparr>cdcl_part := t'\<rparr>)" by (rule covers_grows[OF cov r(2) reachable_trail(1)[OF r'] g])
  ultimately show ?thesis using ids by (auto simp: solver_ok_def ids_ok_def)
qed

text \<open>All variables assigned and all clauses propagated: a model of the formula.\<close>

lemma solver_satisfied:
  assumes ok: "solver_ok opts F A C (False, s)" and s: "satisfied (cdcl_part s)" and n: "conflict s = None"
  shows "sat (values_of (cdcl_part s)) F \<and> (\<forall>a\<in>set A. lit_true (values_of (cdcl_part s)) a) \<and>
    (C \<noteq> [] \<longrightarrow> (\<exists>c\<in>set C. lit_true (values_of (cdcl_part s)) c))"
proof (rule reachable_satisfied[OF solver_ok_trail(1)[OF ok] s])
  let ?t = "cdcl_part s"
  obtain q where inv: "solver_inv opts F A C q s" and ids: "ids_ok s" and cov: "covers F s"
    using ok by (auto simp: solver_ok_def)
  have p: "propagated ?t = length (trail ?t)" using s trail_invD(6)[OF solver_ok_trail(2)[OF ok]]
    by (simp add: satisfied_def split: if_splits)
  then have q: "q = length (trail ?t)" using inv n by (simp add: solver_inv_def)
  show "\<forall>c\<in>set F. \<exists>x\<in>set c. ok_lit ?t x \<and> lit_value ?t x \<ge> 0"
  proof
    fix c assume c: "c \<in> set F"
    then have ok: "\<forall>x\<in>set c. ok_lit ?t x" using cov by (simp add: covers_def)
    from c cov consider (true) x where "x \<in> set c" "lit_value ?t x > 0" | (taut) x where "x \<in> set c" "- x \<in> set c"
      | (clause) i where "i \<in> set (clause_ids s)" "set (literals (arena s i)) \<subseteq> set c"
      unfolding covers_def by blast
    then show "\<exists>x\<in>set c. ok_lit ?t x \<and> lit_value ?t x \<ge> 0"
    proof cases
      case true
      then show ?thesis using ok by (intro bexI[of _ x]) auto
    next
      case taut
      have "lit_value ?t (- x) = - lit_value ?t x" using ok taut(1) by (auto simp: lit_value_def vidx_simps)
      then have "lit_value ?t x \<ge> 0 \<or> lit_value ?t (- x) \<ge> 0" by linarith
      then show ?thesis using ok taut by blast
    next
      case clause
      have "\<not> garbage (arena s i)" using ids by (simp add: ids_ok_def)
      from propagated_clauses[OF inv n q clause(1) this] clause(2) show ?thesis by blast
    qed
  qed
qed

end
