(* ===== verification/TrailExample.thy ===== *)
theory TrailExample
  imports Complex_Main SearchState
begin

text \<open>Concrete states for the theorems about the trail: a solver with \<open>n\<close> variables and the states after it.\<close>

definition ex_opts :: options where
  "ex_opts = \<lparr>opt_chrono = 1, opt_phase = True, opt_forcephase = False, opt_target = 1, opt_score = True,
     opt_restartreusetrail = True, opt_restartint = 2\<rparr>"

lemma ex_trail_fresh:
  assumes "n < 2 ^ 31" "\<forall>lit\<in>set (A @ C). lit \<noteq> 0 \<and> vidx lit \<in> {1..n}"
  shows "\<exists>t :: rat cdcl. fresh A C t \<and> n_vars (base t) = n"
proof -
  have "rok (init_vars n (search_init :: rat search)) (\<lambda>s. (\<exists>xs. search_inv s xs) \<and>
      (n_vars s = n \<or> n = 0 \<and> n_vars s = 0) \<and> assigned (internals s) = (\<lambda>_. False))"
    by (rule rok_weaken[OF init_vars_rok[OF search_init_inv assms(1)]]) (auto simp: search_init_def)
  then obtain s :: "rat search" where s: "\<exists>xs. search_inv s xs" "n_vars s = n" "assigned (internals s) = (\<lambda>_. False)"
    by (auto elim!: rokE)
  let ?t = "\<lparr>base = s, var_value = \<lambda>_. 0, vtab = \<lambda>_. \<lparr>vlevel = 0, vtrail = 0, vreason = No_reason\<rparr>, trail = [],
    control = [\<lparr>decision = 0, start = 0\<rparr>], level = 0, num_assigned = 0, assumed_lits = A, constraint_lits = C,
    propagated = 0, propagated2 = 0, no_conflict_until = 0, phases_saved = \<lambda>_. 1, phases_forced = \<lambda>_. 0,
    phases_target = \<lambda>_. 0, phases_best = \<lambda>_. 0, target_assigned = 0, best_assigned = 0, rephased = CHR 0x00,
    conflicts = 0, last_rephase_conflicts = 0, lim_restart = 2, force_saved_phase = False, stable_mode = False,
    unsat_constraint = False, marked_failed = True\<rparr>"
  have "fresh A C ?t" using s assms(2) by (auto simp: fresh_def phases_inv_def lits_inv_def)
  then show ?thesis using s(2) by (intro exI[of _ ?t]) simp
qed

lemma reachable_num:
  "cdcl_reachable opts F A C t \<Longrightarrow> num_assigned t = length (trail t) \<and> assumed_lits t = A \<and> mset (constraint_lits t) = mset C"
  using trail_invD(5)[OF cdcl_invD(2)] by (auto dest!: cdcl_reachable_inv simp: query_inv_def)

text \<open>One unit clause, and as many decisions as there is room for.\<close>

lemma ex_unit:
  "\<exists>t :: rat cdcl. cdcl_reachable ex_opts [[1]] [] [] t \<and> trail t = [1] \<and> propagated t = 1 \<and> n_vars (base t) = 1 \<and>
     satisfied t"
proof -
  obtain t :: "rat cdcl" where t: "fresh [] [] t" "n_vars (base t) = 1" using ex_trail_fresh[of 1 "[]" "[]"] by auto
  note r = cdcl_reachable.Start[OF t(1), of ex_opts "[[1]]"]
  have lit: "ok_lit t 1" "lit_value t 1 = 0" "level t = 0" "trail t = []"
    using t by (simp_all add: vidx_def lit_value_def fresh_def)
  have "implied [[1]] [1]" by (simp add: implied_def sat_def)
  from reachable_assign(2)[OF r lit(1,2) this lit(3)] obtain t1 where
    t1: "assign_unit ex_opts 1 t = Inr t1" "cdcl_reachable ex_opts [[1]] [] [] t1" "trail t1 = [1]"
    using lit(4) by (auto elim!: rokE)
  have f: "n_vars (base t1) = 1" "level t1 = 0"
    using t1(1) t(2) lit(3)
    by (auto simp: assign_unit_def search_assign_def set_value_def Let_def split: if_splits)
  let ?t = "t1\<lparr>propagated := 1\<rparr>"
  have r2: "cdcl_reachable ex_opts [[1]] [] [] ?t"
    by (rule cdcl_reachable.Step[OF t1(2) cdcl_step.Propagated]) (simp add: t1(3))
  then have "num_assigned ?t = length (trail ?t)" "assumed_lits ?t = []" "constraint_lits ?t = []"
    using reachable_num[OF r2] by simp_all
  then have "satisfied ?t" by (simp add: satisfied_def t1(3) f)
  then show ?thesis using r2 t1(3) f by (intro exI[of _ ?t]) simp
qed

lemma ex_decide:
  assumes r: "cdcl_reachable ex_opts [] A [] (t :: rat cdcl)" and A: "set A \<subseteq> {1}" and p: "propagated t = length (trail t)"
    and n: "length (trail t) < n_vars (base t)"
  shows "\<exists>t' :: rat cdcl. cdcl_reachable ex_opts [] A [] t' \<and> propagated t' = length (trail t') \<and>
    level t' = Suc (level t) \<and> length (trail t') \<le> Suc (length (trail t)) \<and> n_vars (base t') = n_vars (base t)"
proof -
  have "num_assigned t = length (trail t)" using reachable_num[OF r] by simp
  then have ns: "\<not> satisfied t" using n by (simp add: satisfied_def)
  have "sat (\<lambda>_. True) [] \<and> (\<forall>a\<in>set A. lit_true (\<lambda>_. True) a)" using A by (auto simp: sat_def lit_true_def)
  then have "\<exists>v. sat v [] \<and> (\<forall>a\<in>set A. lit_true v a)" by blast
  with reachable_decide[OF r p ns] obtain t' where t': "decide ex_opts t = Inr (0, t')" "cdcl_reachable ex_opts [] A [] t'"
      "level t' = Suc (level t)" "length (trail t') \<le> Suc (length (trail t))" "n_vars (base t') = n_vars (base t)"
    by (auto elim!: rokE)
  let ?t = "t'\<lparr>propagated := length (trail t')\<rparr>"
  have "cdcl_reachable ex_opts [] A [] ?t"
    by (rule cdcl_reachable.Step[OF t'(2) cdcl_step.Propagated]) simp
  then show ?thesis using t'(3-5) by (intro exI[of _ ?t]) simp
qed

lemma ex_levels:
  assumes "set A \<subseteq> {1}"
  shows "\<exists>t :: rat cdcl. cdcl_reachable ex_opts [] A [] t \<and> propagated t = length (trail t) \<and>
    level t = 2 \<and> length (trail t) \<le> 2 \<and> n_vars (base t) = 3"
proof -
  have "\<forall>lit\<in>set (A @ []). lit \<noteq> 0 \<and> vidx lit \<in> {1..3}" using assms by (auto simp: vidx_def)
  from ex_trail_fresh[OF _ this] obtain t :: "rat cdcl" where t: "fresh A [] t" "n_vars (base t) = 3" by auto
  then have z: "trail t = []" "propagated t = 0" "level t = 0" by (simp_all add: fresh_def)
  from ex_decide[OF cdcl_reachable.Start[OF t(1)] assms] z t(2) obtain t1 :: "rat cdcl" where
    t1: "cdcl_reachable ex_opts [] A [] t1" "propagated t1 = length (trail t1)" "level t1 = 1" "length (trail t1) \<le> 1"
      "n_vars (base t1) = 3" by auto
  from ex_decide[OF t1(1) assms t1(2)] t1(3-5) show ?thesis by fastforce
qed

text \<open>A solver with \<open>n\<close> variables, and after adding clauses.\<close>

lemma ex_solver:
  assumes "n < 2 ^ 31"
  shows "\<exists>s :: rat csolver. solver_ok ex_opts [] [] [] (False, s) \<and> conflict s = None \<and> level (cdcl_part s) = 0 \<and>
    n_vars (base (cdcl_part s)) = n"
proof -
  obtain t :: "rat cdcl" where t: "fresh [] [] t" "n_vars (base t) = n" using ex_trail_fresh[OF assms, of "[]" "[]"] by auto
  let ?s = "\<lparr>cdcl_part = t, wtab = \<lambda>_. [], arena = \<lambda>_. \<lparr>literals = [], cpos = 2, garbage = False\<rparr>, clause_ids = [],
    conflict = None\<rparr>"
  have "start_state [] [] ?s" using t(1) by (simp add: start_state_def)
  from start_ok[OF this] show ?thesis using t by (intro exI[of _ ?s]) (simp add: fresh_def)
qed

lemma ex_add:
  assumes "solver_ok opts F [] [] (False, s :: rat csolver)" "conflict s = None" "\<forall>x\<in>set c. ok_lit (cdcl_part s) x" "\<exists>v. sat v (c # F)"
  shows "\<exists>s' :: rat csolver. solver_ok opts (c # F) [] [] (False, s') \<and> conflict s' = None \<and> level (cdcl_part s') = 0 \<and>
    n_vars (base (cdcl_part s')) = n_vars (base (cdcl_part s))"
proof -
  have n: "False \<or> conflict s = None" using assms(2) by simp
  obtain u s' where a: "add_new_original_clause opts c (False, s) = Inr (u, s')"
    by (rule rok_pairE[OF add_new_original_clause_rok[OF assms(1) n assms(3)]])
  have "solver_ok opts (c # F) [] [] (u, s')" "u \<or> conflict s' = None" "level (cdcl_part s') = 0"
    "n_vars (base (cdcl_part s')) = n_vars (base (cdcl_part s))"
    using add_new_original_clause_rok[OF assms(1) n assms(3)] by (simp_all add: a)
  moreover from this(1) have "\<not> u" using assms(4) by (auto simp: solver_ok_def)
  ultimately show ?thesis by auto
qed

lemma ex_clauses:
  "\<exists>s :: rat csolver. solver_ok ex_opts [[1, 2], [-1]] [] [] (False, s) \<and> conflict s = None \<and> n_vars (base (cdcl_part s)) = 2"
proof -
  have m: "sat (\<lambda>i. i = 2) [[1, 2], [-1]]" "sat (\<lambda>i. i = 2) [[-1]]" by (simp_all add: sat_def lit_true_def)
  obtain s :: "rat csolver" where s: "solver_ok ex_opts [] [] [] (False, s)" "conflict s = None" "n_vars (base (cdcl_part s)) = 2"
    using ex_solver[of 2] by auto
  have "\<forall>x\<in>set [-1]. ok_lit (cdcl_part s) x" using s(3) by (simp add: vidx_def)
  from ex_add[OF s(1,2) this] m obtain s1 :: "rat csolver" where s1: "solver_ok ex_opts [[-1]] [] [] (False, s1)"
      "conflict s1 = None" "n_vars (base (cdcl_part s1)) = 2" using s(3) by auto
  have "\<forall>x\<in>set [1, 2]. ok_lit (cdcl_part s1) x" using s1(3) by (simp add: vidx_def)
  from ex_add[OF s1(1,2) this] m s1(3) show ?thesis by auto
qed

text \<open>One unit clause for one variable: every variable is assigned.\<close>

lemma ex_model:
  "\<exists>s :: rat csolver. solver_ok ex_opts [[1]] [] [] (False, s) \<and> conflict s = None \<and> satisfied (cdcl_part s)"
proof -
  have m: "sat (\<lambda>i. True) [[1]]" by (simp add: sat_def lit_true_def)
  obtain s :: "rat csolver" where s: "solver_ok ex_opts [] [] [] (False, s)" "conflict s = None" "n_vars (base (cdcl_part s)) = 1"
    using ex_solver[of 1] by auto
  have "\<forall>x\<in>set [1]. ok_lit (cdcl_part s) x" using s(3) by (simp add: vidx_def)
  from ex_add[OF s(1,2) this] m obtain s1 :: "rat csolver" where s1: "solver_ok ex_opts [[1]] [] [] (False, s1)"
      "level (cdcl_part s1) = 0" "n_vars (base (cdcl_part s1)) = 1" using s(3) by auto
  obtain ok s2 where p: "propagate ex_opts s1 = Inr (ok, s2)"
    by (rule rok_pairE[OF propagate_ok[OF s1(1)]])
  have s2: "solver_ok ex_opts [[1]] [] [] (False, s2)" "same_levels s1 s2"
      "ok = (conflict s2 = None)" "ok \<longrightarrow> propagated (cdcl_part s2) = length (trail (cdcl_part s2))"
    using propagate_ok[OF s1(1)] by (simp_all add: p)
  have l2: "level (cdcl_part s2) = 0" "n_vars (base (cdcl_part s2)) = 1" using s1(2,3) s2(2) by (simp_all add: same_levels_def)
  have n: "conflict s2 = None"
  proof (rule ccontr)
    assume "conflict s2 \<noteq> None"
    then obtain c where c: "conflict s2 = Some c" by blast
    obtain q where q: "solver_inv ex_opts [[1]] [] [] q s2" "ids_ok s2" using s2(1) by (auto simp: solver_ok_def)
    from conflict_refutes[OF q l2(1) c] m show False by blast
  qed
  note t = solver_ok_trail[OF s2(1)]
  have "\<exists>x\<in>set [1]. lit_value (cdcl_part s2) x > 0"
  proof -
    have "\<not> set (literals (arena s2 i)) \<subseteq> {1}" if "i \<in> set (clause_ids s2)" for i
    proof -
      have "clause_ok [[1]] (cdcl_part s2) (arena s2 i)"
        using s2(1) that by (auto simp: solver_ok_def solver_inv_def watch_inv_def ids_ok_def)
      then have "2 \<le> card (set (literals (arena s2 i)))" by (simp add: clause_ok_def distinct_card)
      moreover have "card (set (literals (arena s2 i))) \<le> card {1::int}" if "set (literals (arena s2 i)) \<subseteq> {1}"
        by (rule card_mono[OF _ that]) simp
      ultimately show ?thesis by auto
    qed
    then show ?thesis using s2(1) by (auto simp: solver_ok_def covers_def)
  qed
  then have "1 \<in> set (trail (cdcl_part s2))" using lit_value_trail(1)[OF t(2), of 1] by simp
  then have "trail (cdcl_part s2) \<noteq> []" by auto
  then have "length (trail (cdcl_part s2)) = 1" using trail_full(1)[OF t(2)] l2(2) by (cases "trail (cdcl_part s2)") auto
  moreover have "num_assigned (cdcl_part s2) = length (trail (cdcl_part s2))" "assumed_lits (cdcl_part s2) = []"
    "constraint_lits (cdcl_part s2) = []" using reachable_num[OF t(1)] by simp_all
  ultimately have "satisfied (cdcl_part s2)" using s2(3,4) n l2 by (simp add: satisfied_def)
  then show ?thesis using s2(1) n by blast
qed

end
