(* ===== verification/Spec2Isabelle.thy ===== *)
theory Spec2Isabelle
  imports Example SolverExample TrailExample
begin

text \<open>
  taas-fudge is a solver for problems of abstract argumentation: given a framework (arguments and an
  attack relation), a track such as DS-PR and possibly a queried argument, it prints an extension, a
  decision with a witness, the number of extensions or the accepted arguments.  This development
  models the program function by function and proves that what it prints is right.

  Parts of the program and the theories that model them:

  \<^item> Prelude: errors as values (null pointers, writes past a buffer, violated contracts of the SAT
    interface), loops with fuel (\<open>rloop\<close>, \<open>rfold\<close>), the Hoare-style predicate \<open>rok r Q\<close> (\<open>r\<close> is a
    result, not an error, and satisfies \<open>Q\<close>) with its rules, and decimal numbers.
  \<^item> Bitset, Raset (src/util/bitset.c, raset.c): the data structures, with their invariants and the
    interfaces \<open>bit_array\<close> and \<open>index_set\<close> through which the other theories use them.
  \<^item> Argumentation: Dung's theory as it is needed (admissible, complete, preferred, stable,
    semi-stable, stage, grounded and ideal semantics).  It is the specification.
  \<^item> Aaf, Labeling (src/taas/taas_aaf.c, taas_labeling.c): frameworks with adjacency lists, labelings
    as two bit sets, printing into a buffer of a given size.  \<open>wf_aaf\<close> is the invariant of a framework,
    \<open>af_of\<close> its abstraction, \<open>grounded_labeling\<close> says that a labeling is the grounded one.
  \<^item> Ipasir (src/ipasir.h, src/sat/ipasir_solver.cpp): the SAT solver as the state machine of the
    interface: clauses, assumptions, and the states INPUT, SAT and UNSAT; reading a value in another
    state than SAT is an error.  The answer of the solver is an argument \<open>ips\<close> of the definitions and
    \<open>oracle_ok ips\<close> the documented contract of ipasir_solve; \<open>brute_force\<close> is an instance.
  \<^item> Encodings (src/tasks/task_general.cpp): the clauses; the locale \<open>set_encoding\<close> turns what the
    clauses say of one argument into the sets that are models.
  \<^item> Basics (src/taas/taas_basics.c): the grounded labeling, the local checks of a labeling; the
    function \<open>taas__solve\<close> itself is in Driver.
  \<^item> TaskBase, Stable, Complete, Preferred, Skeptical, CountPreferred, Ideal, IdealQuery, EnumAccept,
    Range, RangeQuery (src/tasks/): the procedures of the tracks.  Each has an invariant for every
    loop, a measure, and the theorem that it answers the question of the track.  Partial has the
    predicate for procedures that may stop with a given error.
  \<^item> Inout, Driver (src/taas/taas_inout.c, src/util/miscutil.c, src/taas-fudge.cpp): the readers of
    the two file formats, the command line, the switch over the tracks and main.  The locale
    \<open>track_solver\<close> states what main relies on; it is interpreted on the switch.
  \<^item> Memory (the destructors in src/util/ and src/taas/, sat__free): which heap blocks the structures own;
    a whole run from main on with its blocks, the command line, the i23 reader, the worklist of the grounded
    labeling, the printed line, and what the destructors release of them.
  \<^item> CadicalApi (src/lib/cadical-2.1.0/src: ipasir.cpp, ccadical.cpp, solver.cpp, contract.hpp,
    external.cpp): the API states and contracts of the vendored solver; a simulation shows that this
    shell, around every internal solver that is right about what it is told, shows a client the interface
    that Ipasir models with an oracle that satisfies the contract, whatever the order of add, assume, solve and val.
  \<^item> PriorityHeap, RadixSort, VmtfQueue (heap.hpp, radix.hpp, queue.hpp, queue.cpp and the functions of
    analyze.cpp, backtrack.cpp, decide.cpp, score.cpp that use them): how the solver chooses its
    decisions.  The heap has the locale \<open>weak_order\<close>, interpreted on the comparison of scores;
    \<open>queue_inv\<close> and \<open>scores_inv\<close> are the invariants of queue and heap.
  \<^item> Decisions (analyze.cpp, internal.cpp): bumping and new variables, and the step relation
    \<open>search_step\<close> by which all operations on queue and heap may follow each other; \<open>reachable\<close> states
    keep both invariants.
  \<^item> Trail, Chrono (propagate.cpp, decide.cpp, backtrack.cpp, restart.cpp): the trail with assignment levels,
    decisions on assumptions, on the constraint and on variables, chronological backtracking and restarts.
    \<open>cdcl_inv\<close> is the invariant: positions, levels, the decisions from which every literal follows, and the
    assumptions and the constraint that the first levels serve.  In states reachable by \<open>cdcl_step\<close> no
    operation fails, and the answers 10 and 20 of the decision procedure are right.  Which clauses
    propagate is left open there: a step may use any clause that the formula implies and that is unit.
  \<^item> Propagate (propagate.cpp, watch.hpp): the propagation loop over watch lists with blocking literals.
    \<open>watch_inv\<close> says which entries the lists have, \<open>guards\<close> that every false watched literal that was
    visited has a true literal in its clause that stays as long as it does.
  \<^item> SearchState (clause.cpp): original and learned clauses.  \<open>solver_ok\<close> is the invariant of the solver
    between its operations, for the formula that was added: propagating, adding clauses, backtracking, restarting
    and deciding keep it, and a state that satisfies it gives no wrong answer.
  \<^item> Reluctant (reluctant.hpp): the restart intervals of the stable mode, the Luby sequence on two words.
  \<^item> Example, SolverExample, TrailExample: a framework of four arguments, and values of the solver, on
    which the theorems are instantiated.

  How the model corresponds to the code.  Functions keep their names (\<open>taas__compute_grounded\<close>,
  \<open>solve_dspr\<close>, ...); a loop body or a branch that is a definition of its own is named after its
  function (\<open>dspr_loop\<close>, \<open>sepr_scan\<close>).  Structs are records; a GSList is a list with its head first, the
  hash table is a map, arrays are lists, and what is printed is a string that the functions return.
  The words of a bit set are 32-bit words.  Uninitialised memory has the value \<open>uninit_word\<close> or
  \<open>uninit_index\<close>, arbitrary constants on which no theorem depends.  The input file is a function from
  paths to contents, rand() an argument.  The early returns, the printing in the middle of a
  computation and the order in which clauses are added are those of the code.

  Fuel.  A while loop takes a bound on its iterations; running out is the error value \<open>OutOfFuel\<close>, so a
  theorem \<open>rok (f fuel ...) Q\<close> says that the loop ends within the bound.  The number of arguments \<open>n\<close>
  bounds the loops that grow or shrink a set of arguments (SE-PR, SE-SST, SE-STG, the ideal
  extension, the grounded labeling); the number of extensions bounds CE-CO and CE-ST; \<open>2 ^ n\<close> bounds
  DS-PR, EA-PR and the range-based queries, which exclude at least one set of arguments per round.

  The loops of the solver's heap and of its queue are bounded by the number of their elements.

  Not modelled: conflict analysis, inprocessing and proofs of the SAT solver, whose
  answer is a parameter (\<open>ips\<close> behind the interface, \<open>core\<close> behind the API shell); its renumbering of variables, its
  statistics and fixed-variable counters (learn_unit_clause), move_literals_to_watch, which does nothing at level 0, and the
  floating-point arithmetic of its scores; the failure of malloc; the blocks that the solve functions
  and the TGF reader allocate, with the calls of sat__free in the solve functions (Memory has the function itself); the capacity of the machine integers that count arguments, attacks and
  SAT variables (they are unbounded here, only the numbers read from a file are checked against 32
  bits); the library functions of GLib and C, which are modelled by what their documentation says.
\<close>

section \<open>The whole program\<close>

text \<open>
  C1: Reading an ICCMA 2023 text (comments, header, attack lines, blank lines) and a command
  line, the program prints what the track demands of the framework in the text: an extension,
  the right YES or NO with a witness, the right number, or the list of accepted arguments, for
  every track except DC-STG and DS-STG.
\<close>

theorem end_to_end:
  assumes "fs p = Some (i23_text comments n items)" and "n < 2 ^ 31"
    and "\<forall>c\<in>set comments. item_ok n (Comment c)" "\<forall>i\<in>set items. item_ok n i"
    and "distinct (item_list_attacks items)" and "q < n"
    and "t \<in> set (grounded_tracks @ solver_tracks)" and "oracle_ok ips" and "2 ^ n < fuel"
  shows "\<exists>A out q'. main_output fuel ips fs (query_argv prog t p q) = Inr out \<and>
    af_of A = \<lparr>args = {..<n}, attacks = set (item_list_attacks items)\<rparr> \<and>
    ids2arguments A = map (\<lambda>i. show_nat (i + 1)) [0..<n] \<and> (is_query t \<longrightarrow> q' = q) \<and>
    track_answer t A q' out"
  using assms by (rule main_output_i23)

theorem end_to_end_witness:
  "\<exists>A out q'. main_output 5 brute_force (\<lambda>_. Some (i23_text [''x''] 2 [Attack 0 1, Blank, Attack 1 1]))
      (query_argv ''taas'' ''DS-PR'' ''f'' 1) = Inr out \<and>
    af_of A = \<lparr>args = {..<2}, attacks = {(0, 1), (1, 1)}\<rparr> \<and>
    ids2arguments A = map (\<lambda>i. show_nat (i + 1)) [0..<2] \<and> (is_query ''DS-PR'' \<longrightarrow> q' = 1) \<and>
    track_answer ''DS-PR'' A q' out"
proof -
  have c: "item_ok 2 (Comment ''x'')" by (simp add: clean_def NUL_def isspace_def)
  show ?thesis
    using end_to_end[of "\<lambda>_. Some (i23_text [''x''] 2 [Attack 0 1, Blank, Attack 1 1])" "''f''" "[''x'']" 2
      "[Attack 0 1, Blank, Attack 1 1]" 1 "''DS-PR''" brute_force 5 "''taas''"] c brute_force_ok
    by (simp add: item_list_attacks_def solver_tracks_def)
qed

text \<open>
  C2: DS-PR decides skeptical acceptance under preferred semantics: it terminates, answers YES
  exactly when every preferred extension contains the query, and with NO prints a preferred
  extension without it.
\<close>

theorem dspr_correct:
  assumes "wf_aaf A" and "grounded_labeling A g" and "oracle_ok ips"
    and "names_fit 99 A (grounded_ext (af_of A))" and "query task < number_of_arguments A"
    and "2 ^ number_of_arguments A < fuel"
  shows "rok (solve_dspr fuel ips task A g do_print) (dspr_spec A (query task) do_print)"
  using assms by (rule solve_dspr_rok)

theorem dspr_correct_witness:
  "rok (solve_dspr 17 brute_force (ex_task ''DS-PR'' 3) ex_aaf ex_labeling True) (dspr_spec ex_aaf 3 True)"
  using dspr_correct[OF ex_setup ex_names_fit, of "ex_task ''DS-PR'' 3" 17 True] by simp

text \<open>
  C3: SE-ID terminates and computes the ideal extension, the largest admissible set inside every
  preferred extension, by discarding what admissible sets attack and pruning the rest.
\<close>

theorem seid_correct:
  assumes "wf_aaf A" "grounded_labeling A g" "oracle_ok ips" "number_of_arguments A < fuel"
  shows "rok (compute_ideal fuel ips task A g) (\<lambda>r. \<exists>E.
    raset_is (number_of_arguments A) E r \<and> ideal_ext (af_of A) E)"
  using assms by (rule compute_ideal_rok)

theorem seid_correct_witness:
  "rok (compute_ideal 17 brute_force (ex_task ''SE-ID'' 0) ex_aaf ex_labeling) (\<lambda>r. \<exists>E.
    raset_is 4 E r \<and> ideal_ext (af_of ex_aaf) E)"
  using seid_correct[OF ex_setup, of 17 "ex_task ''SE-ID'' 0"] by simp

text \<open>
  C4: EA-PR terminates and prints exactly the arguments that are in every preferred extension,
  each once.
\<close>

theorem eapr_correct:
  assumes "wf_aaf A" and "grounded_labeling A g" and "oracle_ok ips"
    and "names_fit 99 A (grounded_ext (af_of A))" and "2 ^ number_of_arguments A < fuel"
  shows "rok (solve_eapr fuel ips task A g) (prints_list A {a. skeptical (preferred (af_of A)) a})"
  using assms by (rule solve_eapr_rok)

theorem eapr_correct_witness:
  "rok (solve_eapr 17 brute_force (ex_task ''EA-PR'' 0) ex_aaf ex_labeling)
    (prints_list ex_aaf {a. skeptical (preferred (af_of ex_aaf)) a})"
  using eapr_correct[OF ex_setup ex_names_fit ex_fuel(1), of "ex_task ''EA-PR'' 0"] by simp

text \<open>
  C5: DS-SST decides whether the query is in every semi-stable extension by the two nested
  range-growing loops, terminates, and prints a semi-stable extension without the query after
  NO.
\<close>

theorem dssst_correct:
  assumes "wf_aaf A" and "grounded_labeling A g" and "oracle_ok ips"
    and "names_fit 99 A (grounded_ext (af_of A))" and "query task < number_of_arguments A"
    and "2 ^ number_of_arguments A < fuel"
  shows "rok (solve_dssst fuel ips task A g do_print)
    (ds_answer (semi_stable (af_of A)) A (query task) do_print)"
  using assms by (rule solve_dssst_rok)

theorem dssst_correct_witness:
  "rok (solve_dssst 17 brute_force (ex_task ''DS-SST'' 3) ex_aaf ex_labeling True)
    (ds_answer (semi_stable (af_of ex_aaf)) ex_aaf 3 True)"
  using dssst_correct[OF ex_setup ex_names_fit, of "ex_task ''DS-SST'' 3" 17 True] by simp

text \<open>
  C6: DC-SST decides whether some semi-stable extension contains the query, terminates, and
  prints such an extension after YES.
\<close>

theorem dcsst_correct:
  assumes "wf_aaf A" and "grounded_labeling A g" and "oracle_ok ips"
    and "names_fit 99 A (grounded_ext (af_of A))" and "query task < number_of_arguments A"
    and "2 ^ number_of_arguments A < fuel"
  shows "rok (solve_dcsst fuel ips task A g do_print)
    (dc_answer (semi_stable (af_of A)) A (query task) do_print)"
  using assms by (rule solve_dcsst_rok)

theorem dcsst_correct_witness:
  "rok (solve_dcsst 17 brute_force (ex_task ''DC-SST'' 3) ex_aaf ex_labeling True)
    (dc_answer (semi_stable (af_of ex_aaf)) ex_aaf 3 True)"
  using dcsst_correct[OF ex_setup ex_names_fit, of "ex_task ''DC-SST'' 3" 17 True] by simp

text \<open>
  C7: CE-PR terminates and prints the number of preferred extensions.
\<close>

theorem cepr_correct:
  assumes "wf_aaf A" and "grounded_labeling A g" and "oracle_ok ips"
    and "number_of_arguments A < fuel" "card {P. preferred (af_of A) P} < fuel"
  shows "rok (solve_cepr fuel ips task A g)
    (\<lambda>out. out = show_nat (card {P. preferred (af_of A) P}) @ newline)"
  using assms by (rule solve_cepr_rok)

theorem cepr_correct_witness:
  "rok (solve_cepr 17 brute_force (ex_task ''CE-PR'' 0) ex_aaf ex_labeling)
    (\<lambda>out. out = show_nat (card {P. preferred (af_of ex_aaf) P}) @ newline)"
  using cepr_correct[OF ex_setup ex_fuel(2) ex_card, of "ex_task ''CE-PR'' 0"] preferred_admissible by simp

text \<open>
  C8: SE-PR, started from nothing or from an admissible set, terminates and prints a preferred
  extension that contains the set it was started from.
\<close>

theorem sepr_correct:
  assumes "wf_aaf A" and "grounded_labeling A g" and "oracle_ok ips"
    and "names_fit 99 A (grounded_ext (af_of A))"
    and "initial_ok A E0 init" and "number_of_arguments A < fuel"
  shows "rok (solve_sepr fuel ips task A g init) (\<lambda>out.
    \<exists>E. preferred (af_of A) E \<and> E0 \<subseteq> E \<and> prints_ext A E out)"
  using assms by (rule solve_sepr_rok)

theorem sepr_correct_witness:
  "rok (solve_sepr 17 brute_force (ex_task ''SE-PR'' 0) ex_aaf ex_labeling None) (\<lambda>out.
    \<exists>E. preferred (af_of ex_aaf) E \<and> {} \<subseteq> E \<and> prints_ext ex_aaf E out)"
  using sepr_correct[OF ex_setup ex_names_fit, of "{}" None 17 "ex_task ''SE-PR'' 0"]
  by (simp add: initial_ok_def)

text \<open>
  C9: SE-SST terminates and prints a semi-stable extension: the range of the model is enlarged
  until it is maximal.
\<close>

theorem sesst_correct:
  assumes "wf_aaf A" and "grounded_labeling A g" and "oracle_ok ips"
    and "names_fit 99 A (grounded_ext (af_of A))" and "number_of_arguments A < fuel"
  shows "rok (solve_sesst fuel ips task A g) (\<lambda>out. \<exists>E. semi_stable (af_of A) E \<and> prints_ext A E out)"
  using assms by (rule solve_sesst_rok)

theorem sesst_correct_witness:
  "rok (solve_sesst 17 brute_force (ex_task ''SE-SST'' 0) ex_aaf ex_labeling)
    (\<lambda>out. \<exists>E. semi_stable (af_of ex_aaf) E \<and> prints_ext ex_aaf E out)"
  using sesst_correct[OF ex_setup ex_names_fit ex_fuel(2), of "ex_task ''SE-SST'' 0"] .

text \<open>
  C10: SE-STG terminates and prints a stage extension.
\<close>

theorem sestg_correct:
  assumes "wf_aaf A" and "grounded_labeling A g" and "oracle_ok ips"
    and "names_fit 99 A (grounded_ext (af_of A))" and "number_of_arguments A < fuel"
  shows "rok (solve_sestg fuel ips task A g) (\<lambda>out. \<exists>E. stage (af_of A) E \<and> prints_ext A E out)"
  using assms by (rule solve_sestg_rok)

theorem sestg_correct_witness:
  "rok (solve_sestg 17 brute_force (ex_task ''SE-STG'' 0) ex_aaf ex_labeling)
    (\<lambda>out. \<exists>E. stage (af_of ex_aaf) E \<and> prints_ext ex_aaf E out)"
  using sestg_correct[OF ex_setup ex_names_fit ex_fuel(2), of "ex_task ''SE-STG'' 0"] .

text \<open>
  C11: For DC-STG and DS-STG the whole program either stops with a violated contract of the SAT
  interface, and with no other error, or prints the right answer with respect to stage
  semantics.
\<close>

theorem stage_tracks_safe:
  assumes "read_task fs argv task A" and "wf_aaf A" "fresh_aaf A"
    and "oracle_ok ips" "names_fit 99 A (grounded_ext (af_of A))" "2 ^ number_of_arguments A < fuel"
    and "track task = Some t" "t \<in> set stage_tracks" and "query task < number_of_arguments A"
  shows "rsafe {SolverState} (main_output fuel ips fs argv) (track_answer t A (query task))"
  using assms by (rule main_output_stage)

theorem stage_tracks_safe_witness:
  "\<exists>A task. rsafe {SolverState} (main_output 9 brute_force (\<lambda>_. Some (i23_text [] 2 [Attack 1 1]))
      (query_argv ''taas'' ''DC-STG'' ''f'' 0)) (track_answer ''DC-STG'' A (query task)) \<and> query task = 0"
proof -
  let ?fs = "\<lambda>_ :: string. Some (i23_text [] 2 [Attack 1 1])"
  obtain A task where r: "read_task ?fs (query_argv ''taas'' ''DC-STG'' ''f'' 0) task A" "wf_aaf A" "fresh_aaf A"
    and a: "af_of A = \<lparr>args = {..<2}, attacks = {(1, 1)}\<rparr>"
      "ids2arguments A = map (\<lambda>i. show_nat (i + 1)) [0..<2]"
    and t: "track task = Some ''DC-STG''" "query task < 2" "query task = 0"
    using read_task_i23[where fs = ?fs and p = "''f''" and comments = "[]" and n = 2 and
        items = "[Attack 1 1]" and q = 0 and t = "''DC-STG''" and prog = "''taas''"]
    by (auto simp: item_list_attacks_def is_query_def)
  have n: "number_of_arguments A = 2" using a(1) args_af_of[of A] by simp
  have "names_fit 99 A (grounded_ext (af_of A))"
    using i23_names_fit[OF a(2)] grounded_args[of _ "af_of A"] a(1) by auto
  from stage_tracks_safe[OF r brute_force_ok this, where fuel = 9 and t = "''DC-STG''"] t n
  have "rsafe {SolverState} (main_output 9 brute_force ?fs (query_argv ''taas'' ''DC-STG'' ''f'' 0))
      (track_answer ''DC-STG'' A (query task))" by (simp add: stage_tracks_def)
  with t(3) show ?thesis by blast
qed

text \<open>
  C12: Whenever the inner model of DC-STG or DS-STG labels an argument whose status is new,
  other than the query, the loop reads a value from a solver that has just been given a clause,
  which ipasir.h forbids.
\<close>

theorem stage_reader_violates_contract:
  assumes "model_is s v" and "ready s" and "vars_ok n iv" and "vars_ok n ov"
    and "raset_is n N nu" and "raset_is n {} a"
    and "j < n" "j \<in> labels iv ov v" "j \<notin> N" "j \<noteq> q"
  shows "stg_collect iv ov n q s nu a = Inl SolverState"
  using assms by (rule stg_collect_violation)

theorem stage_reader_violates_contract_witness:
  "stg_collect [1, 3] [2, 4] 2 0 (ipasir_init\<lparr>mode := SAT (val_of (\<lambda>k. k = 3))\<rparr>)
     (raset__init_empty 2) (raset__init_empty 2) = Inl SolverState"
  using stage_reader_violates_contract[of "ipasir_init\<lparr>mode := SAT (val_of (\<lambda>k. k = 3))\<rparr>" "\<lambda>k. k = 3" 2
      "[1, 3]" "[2, 4]" "{}" "raset__init_empty 2" "raset__init_empty 2" 1 0]
  by (simp add: model_is_def ready_def ipasir_init_def vars_ok_def raset_is_init true_set_def lit_true_def)

text \<open>
  C13: The DS-ID procedure, called on a query that the grounded extension does not decide,
  terminates and answers whether the ideal extension contains the query.
\<close>

theorem dsid_correct:
  assumes "wf_aaf A" and "grounded_labeling A g" and "oracle_ok ips"
    and "query task < number_of_arguments A" "query task \<notin> grounded_ext (af_of A)"
      "query task \<notin> attacked (af_of A) (grounded_ext (af_of A))"
    and "number_of_arguments A < fuel"
  shows "rok (solve_dsid fuel ips task A g do_print) (dsid_answer A (query task) do_print)"
  using assms by (rule solve_dsid_rok)

theorem dsid_correct_witness:
  "rok (solve_dsid 17 brute_force (ex_task ''DS-ID'' 3) ex_aaf ex_labeling True) (dsid_answer ex_aaf 3 True)"
  using dsid_correct[OF ex_setup, of "ex_task ''DS-ID'' 3" 17 True] by (simp add: ex_grounded attacked_def)

text \<open>
  C14: The worklist algorithm ends after at most one iteration per argument and one more, labels
  exactly the grounded extension in and what it attacks out, and changes nothing of the
  framework but the attack counters.
\<close>

theorem grounded_correct:
  assumes "wf_aaf A" and "fresh_aaf A" and "\<not> twoValued g" and "number_of_arguments A < fuel"
  shows "rok (taas__compute_grounded fuel A g) (\<lambda>(A', g').
    grounded_labeling A g' \<and> A' = A\<lparr>number_of_attackers := number_of_attackers A'\<rparr>)"
  using assms by (rule compute_grounded_rok)

theorem grounded_correct_witness:
  "rok (taas__compute_grounded 5 ex_aaf (taas__lab_init False)) (\<lambda>(A', g').
    grounded_labeling ex_aaf g' \<and> A' = ex_aaf\<lparr>number_of_attackers := number_of_attackers A'\<rparr>)"
  using grounded_correct[OF ex_wf ex_fresh, of "taas__lab_init False" 5]
  by (simp add: taas__lab_init_def Let_def)

text \<open>
  C15: DC-CO answers whether some complete extension contains the query and prints one that
  does.
\<close>

theorem dcco_correct:
  assumes "wf_aaf A" and "grounded_labeling A g" and "oracle_ok ips"
    and "query task < number_of_arguments A"
  shows "rok (solve_dcco ips task A g do_print) (\<lambda>(b, out).
    b = credulous (complete_ext (af_of A)) (query task) \<and>
    (do_print \<longrightarrow> (if b then \<exists>E w. complete_ext (af_of A) E \<and> query task \<in> E \<and>
        lists_set print_number E w \<and> out = YES @ w else out = NO)) \<and>
    (\<not> do_print \<longrightarrow> out = []))"
  using assms by (rule solve_dcco_rok)

theorem dcco_correct_witness:
  "rok (solve_dcco brute_force (ex_task ''DC-CO'' 3) ex_aaf ex_labeling True) (\<lambda>(b, out).
    b = credulous (complete_ext (af_of ex_aaf)) 3 \<and>
    (if b then \<exists>E w. complete_ext (af_of ex_aaf) E \<and> 3 \<in> E \<and>
        lists_set print_number E w \<and> out = YES @ w else out = NO))"
  using dcco_correct[OF ex_setup, of "ex_task ''DC-CO'' 3" True] by (simp only: ex_query ex_number simp_thms)

text \<open>
  C16: CE-CO stops after as many rounds as there are complete extensions and prints their
  number: the blocking clause excludes exactly the set that was found.
\<close>

theorem ceco_correct:
  assumes "wf_aaf A" and "grounded_labeling A g" and "oracle_ok ips"
    and "card {E. complete_ext (af_of A) E} < fuel"
  shows "rok (solve_ceco fuel ips task A g)
    (\<lambda>out. out = show_nat (card {E. complete_ext (af_of A) E}) @ newline)"
  using assms by (rule solve_ceco_rok)

theorem ceco_correct_witness:
  "rok (solve_ceco 17 brute_force (ex_task ''CE-CO'' 0) ex_aaf ex_labeling)
    (\<lambda>out. out = show_nat (card {E. complete_ext (af_of ex_aaf) E}) @ newline)"
  by (rule ceco_correct[OF ex_setup ex_card]) (simp add: complete_ext_def)

text \<open>
  C17: SE-ST prints a stable extension, or NO when the framework has none.
\<close>

theorem sest_correct:
  assumes "wf_aaf A" and "grounded_labeling A g" and "oracle_ok ips"
  shows "rok (solve_sest ips task A g) (\<lambda>out.
    (\<exists>E. stable (af_of A) E \<and> prints_ext A E out) \<or> (\<forall>E. \<not> stable (af_of A) E) \<and> out = NO)"
  using assms by (rule solve_sest_rok)

theorem sest_correct_witness:
  "rok (solve_sest brute_force (ex_task ''SE-ST'' 0) ex_aaf ex_labeling) (\<lambda>out.
    (\<exists>E. stable (af_of ex_aaf) E \<and> prints_ext ex_aaf E out) \<or>
    (\<forall>E. \<not> stable (af_of ex_aaf) E) \<and> out = NO)"
  by (rule sest_correct[OF ex_setup])

text \<open>
  C18: The clauses of add_admTestClauses, projected to the in-variables, have as models exactly
  the admissible sets above the grounded extension; the returned flag tells whether the grounded
  labels decide all arguments.
\<close>

theorem admissible_encoding:
  assumes "wf_aaf A" "grounded_labeling A g" "vars_ok (number_of_arguments A) iv"
    "vars_ok (number_of_arguments A) ov" "distinct (iv @ ov)"
  shows "rok (add_admTestClauses (sat__init m) iv ov A g) (\<lambda>(s, b).
    models s iv {E. admissible (af_of A) E \<and> grounded_ext (af_of A) \<subseteq> E} \<and>
    b = all_decided g (number_of_arguments A))"
  using add_admTestClauses_rok[OF assms(1,3,4) ready_init(1), of m g] adm.models_init[OF assms]
  by (auto simp: adm_sem_def elim: rok_weaken)

theorem admissible_encoding_witness:
  "rok (add_admTestClauses (sat__init 8) [1, 3, 5, 7] [2, 4, 6, 8] ex_aaf ex_labeling) (\<lambda>(s, b).
    models s [1, 3, 5, 7] {E. admissible (af_of ex_aaf) E \<and> grounded_ext (af_of ex_aaf) \<subseteq> E} \<and>
    b = all_decided ex_labeling 4)"
  using admissible_encoding[OF ex_wf ex_labels, of "[1, 3, 5, 7]" "[2, 4, 6, 8]" 8]
  by (simp add: vars_ok_def)

text \<open>
  C19: The clauses of add_comTestClauses have as models exactly the complete extensions.
\<close>

theorem complete_encoding:
  assumes "wf_aaf A" "grounded_labeling A g" "vars_ok (number_of_arguments A) iv"
    "vars_ok (number_of_arguments A) ov" "distinct (iv @ ov)"
  shows "rok (add_comTestClauses (sat__init m) iv ov A g) (\<lambda>s.
    models s iv {E. complete_ext (af_of A) E})"
  using add_comTestClauses_rok[OF assms(1,3,4) ready_init(1), of m g] com.models_init[OF assms]
  by (auto elim: rok_weaken)

theorem complete_encoding_witness:
  "rok (add_comTestClauses (sat__init 8) [1, 3, 5, 7] [2, 4, 6, 8] ex_aaf ex_labeling) (\<lambda>s.
    models s [1, 3, 5, 7] {E. complete_ext (af_of ex_aaf) E})"
  using complete_encoding[OF ex_wf ex_labels, of "[1, 3, 5, 7]" "[2, 4, 6, 8]" 8]
  by (simp add: vars_ok_def)

text \<open>
  C20: A text printed in the ICCMA 2023 format, with comments and blank lines, is read back to a
  well-formed framework with the printed arguments and attacks.
\<close>

theorem i23_roundtrip:
  assumes "fs p = Some (i23_text comments n items)" and "n < 2 ^ 31"
    and "\<forall>c\<in>set comments. item_ok n (Comment c)" "\<forall>i\<in>set items. item_ok n i"
    and "distinct (item_list_attacks items)"
  shows "rok (taas__readFile_i23 fs (Some p)) (\<lambda>A. wf_aaf A \<and> fresh_aaf A \<and>
    af_of A = \<lparr>args = {..<n}, attacks = set (item_list_attacks items)\<rparr> \<and>
    ids2arguments A = map (\<lambda>i. show_nat (i + 1)) [0..<n])"
  by (rule rok_weaken[OF readFile_i23_text[where fs = fs and p = p, OF assms(1-4)]])
    (use reads_wf[OF _ assms(5)] in \<open>auto simp: reads_def\<close>)

theorem i23_roundtrip_witness:
  "rok (taas__readFile_i23 (\<lambda>_. Some (i23_text [] 3 [Attack 0 1, Blank, Attack 2 2])) (Some ''f''))
    (\<lambda>A. wf_aaf A \<and> fresh_aaf A \<and>
      af_of A = \<lparr>args = {..<3}, attacks = {(0, 1), (2, 2)}\<rparr> \<and>
      ids2arguments A = map (\<lambda>i. show_nat (i + 1)) [0..<3])"
  using i23_roundtrip[where fs = "\<lambda>_. Some (i23_text [] 3 [Attack 0 1, Blank, Attack 2 2])" and p = "''f''"
      and comments = "[]" and n = 3 and items = "[Attack 0 1, Blank, Attack 2 2]"]
  by (simp add: item_list_attacks_def)

text \<open>
  C21: Whatever text the ICCMA 2023 reader accepts, the framework it returns is consistent:
  adjacency lists in both directions, counters and bit sets all describe one list of attacks
  between existing arguments.
\<close>

theorem i23_accepts_consistent:
  assumes "taas__readFile_i23 fs path = Inr A"
  shows "\<exists>n atts. reads n (map (\<lambda>i. show_nat (i + 1)) [0..<n]) atts A"
  using assms by (rule readFile_i23_accepts)

theorem i23_accepts_consistent_witness:
  "\<exists>A. taas__readFile_i23 (\<lambda>_. Some (i23_text [] 2 [Attack 0 1])) (Some ''f'') = Inr A \<and>
    (\<exists>n atts. reads n (map (\<lambda>i. show_nat (i + 1)) [0..<n]) atts A)"
proof -
  obtain A where A: "taas__readFile_i23 (\<lambda>_. Some (i23_text [] 2 [Attack 0 1])) (Some ''f'') = Inr A"
    using readFile_i23_text[where fs = "\<lambda>_. Some (i23_text [] 2 [Attack 0 1])" and p = "''f''"
        and comments = "[]" and n = 2 and items = "[Attack 0 1]"] by (auto elim!: rokE)
  with i23_accepts_consistent[OF A] show ?thesis by blast
qed

text \<open>
  C22: A text printed in the trivial graph format, with distinct names of up to eight
  characters, is read back to a well-formed framework with these names and attacks.
\<close>

theorem tgf_roundtrip:
  assumes "fs p = Some (tgf_text names atts)" and "distinct names" and "\<forall>s\<in>set names. name_ok s"
    and "set atts \<subseteq> {..<length names} \<times> {..<length names}" and "distinct atts"
  shows "rok (taas__readFile_tgf fs (Some p)) (\<lambda>A. wf_aaf A \<and> fresh_aaf A \<and>
    af_of A = \<lparr>args = {..<length names}, attacks = set atts\<rparr> \<and> ids2arguments A = names)"
  by (rule rok_weaken[OF readFile_tgf_text[where fs = fs and p = p, OF assms(1-4)]])
    (use reads_wf[OF _ assms(5)] in \<open>auto simp: reads_def\<close>)

theorem tgf_roundtrip_witness:
  "rok (taas__readFile_tgf (\<lambda>_. Some (tgf_text ex_names ex_attacks)) (Some ''f'')) (\<lambda>A. wf_aaf A \<and> fresh_aaf A \<and>
    af_of A = \<lparr>args = {..<length ex_names}, attacks = set ex_attacks\<rparr> \<and> ids2arguments A = ex_names)"
proof -
  have "\<forall>s\<in>set ex_names. name_ok s"
    by (simp add: ex_names_def name_ok_def clean_def NUL_def isspace_def NAME_ALLOC_def)
  then show ?thesis
    using tgf_roundtrip[where fs = "\<lambda>_. Some (tgf_text ex_names ex_attacks)" and p = "''f''" and
        names = ex_names and atts = ex_attacks]
    by (simp add: ex_names_def ex_attacks_def)
qed

text \<open>
  C23: A name of more than eight characters in a TGF file is copied past the end of its buffer,
  which was allocated with the size of a pointer.
\<close>

theorem tgf_long_name_overflow:
  assumes "fs p = Some (concat (map (\<lambda>s. s @ newline) (names @ [long])) @ rest)"
    and "\<forall>s\<in>set names. name_ok s"
    and "clean long" "CHR 0x0A \<notin> set long" "8 < length long"
  shows "taas__readFile_tgf fs (Some p) = Inl BufferOverflow"
  by (rule readFile_tgf_long_name[where fs = fs and p = p, OF assms])

theorem tgf_long_name_overflow_witness:
  "taas__readFile_tgf (\<lambda>_. Some (concat (map (\<lambda>s. s @ newline) ([''a''] @ [''argument1''])) @ ''#'')) (Some ''f'') =
    Inl BufferOverflow"
proof -
  have a: "\<forall>s\<in>set [''a'']. name_ok s" "clean ''argument1''"
    by (simp_all add: name_ok_def clean_def NUL_def isspace_def NAME_ALLOC_def)
  show ?thesis by (rule tgf_long_name_overflow[where p = "''f''" and names = "[''a'']" and long = "''argument1''" and rest = "''#''", OF refl a])
      simp_all
qed

text \<open>
  C24: A query for an argument that is not in the framework dereferences the null pointer the
  lookup returns.
\<close>

theorem unknown_query_fails:
  assumes "problem task = ''DS'' \<or> problem task = ''DC''" "argAsString task = Some s"
    and "arguments2ids aaf = ids_of names" "NUL \<notin> set s" "strip s \<notin> set names"
  shows "taas__update_arg_param task aaf = Inl NullPointer"
  using assms by (rule update_arg_param_unknown)

theorem unknown_query_fails_witness:
  "taas__update_arg_param (ex_task ''DS-PR'' 0\<lparr>argAsString := Some ''z''\<rparr>) ex_aaf = Inl NullPointer"
  by (rule unknown_query_fails[where s = "''z''" and names = ex_names])
    (simp_all add: ex_task_def ex_aaf_def NUL_def strip_def isspace_def ex_names_def)

text \<open>
  C25: Adding to and removing from a random access set keep its invariant (the array, its
  inverse and the bit set agree), act on the represented set as insertion and deletion, and
  report whether it changed.
\<close>

theorem raset_refines_sets:
  assumes "raset_inv s" "i < max_number_of_elements s"
  shows "raset_inv (snd (raset__add s i)) \<and> raset_set (snd (raset__add s i)) = insert i (raset_set s) \<and>
      (fst (raset__add s i) \<longleftrightarrow> i \<notin> raset_set s) \<and>
      raset_inv (snd (raset__remove s i)) \<and> raset_set (snd (raset__remove s i)) = raset_set s - {i} \<and>
      (fst (raset__remove s i) \<longleftrightarrow> i \<in> raset_set s) \<and>
      (raset__contains s i \<longleftrightarrow> i \<in> raset_set s)"
  using assms by (simp add: raset__contains_iff)

theorem raset_refines_sets_witness:
  "raset_set (snd (raset__remove (snd (raset__add (raset__init_empty 5) 3)) 3)) = {}"
  using raset_refines_sets[of "raset__init_empty 5" 3] raset_refines_sets[of "snd (raset__add (raset__init_empty 5) 3)" 3]
  by simp

text \<open>
  C26: All arguments pass taas__labeled_correctly exactly when the arguments labeled in form a
  complete extension and those labeled out are what it attacks.
\<close>

theorem local_labels_complete:
  assumes "wf_aaf A" and "\<not> twoValued lab" "wf_labeling (number_of_arguments A) lab"
      "bits (lab_in lab) \<inter> bits (lab_out lab) = {}"
  shows "(\<forall>i<number_of_arguments A. taas__labeled_correctly A lab i) \<longleftrightarrow>
    complete_ext (af_of A) (bits (lab_in lab)) \<and>
    bits (lab_out lab) = attacked (af_of A) (bits (lab_in lab))"
  using assms by (rule labeled_correctly_complete)

theorem local_labels_complete_witness:
  "(\<forall>i<4. taas__labeled_correctly ex_aaf ex_labeling i) \<longleftrightarrow>
    complete_ext (af_of ex_aaf) (bits (lab_in ex_labeling)) \<and>
    bits (lab_out ex_labeling) = attacked (af_of ex_aaf) (bits (lab_in ex_labeling))"
  using local_labels_complete[OF ex_wf, of ex_labeling] grounded_labelingD(3,4)[OF ex_labels]
  by (simp add: ex_labeling_def bits_none)

text \<open>
  C27: A first name of 198 or more characters makes taas__lab_print_i23 write past its buffer,
  which grows by 100 bytes whatever the name needs.
\<close>

theorem long_name_overflows_line:
  assumes "bitset_members (lab_in lab) = i # xs" "twoValued lab \<or> \<not> bit_at (lab_out lab) i"
    and "198 \<le> length (ids2arguments aaf ! i)"
  shows "taas__lab_print_i23 lab aaf = Inl BufferOverflow"
  using assms by (rule lab_print_i23_overflow)

theorem long_name_overflows_line_witness:
  "taas__lab_print_i23 (ex_labeling\<lparr>lab_in := bitset__set (lab_in ex_labeling) 0, twoValued := True\<rparr>)
    (ex_aaf\<lparr>ids2arguments := [replicate 198 (CHR ''a'')]\<rparr>) = Inl BufferOverflow"
proof -
  have "bitset_members (bitset__set (bitset__unsetAll (bitset__init 4)) 0) = [0]"
    by (simp add: bitset_members_eq bits_none upt_conv_Cons)
  then show ?thesis
    by (intro long_name_overflows_line[where i = 0 and xs = "[]"]) (simp_all add: ex_labeling_def)
qed

section \<open>The SAT solver behind the interface\<close>

text \<open>
  C28: The API shell of the vendored solver implements the IPASIR interface that the other
  theories use. If the internal solver answers rightly about the clauses and the assumptions
  that it has been told, there is an oracle with the contract of ipasir.h (a model of all
  clauses and of the current assumptions that val reads consistently, or none exists) such that
  every client that passes valid literals and finishes its clauses before solve, with calls of
  add, assume, solve and val in any order, receives from the shell exactly the numbers, or the
  abort, that the interface with this oracle gives.
\<close>

theorem cadical_implements_ipasir:
  assumes "core_sound core"
  shows "\<exists>ips. oracle_ok ips \<and>
    (\<forall>calls. valid_calls False calls \<longrightarrow> cadical_outputs core calls = ipasir_outputs ips calls)"
  using cadical_oracle_ok[OF assms] cadical_refines[OF assms] by blast

theorem cadical_implements_ipasir_witness:
  "\<exists>ips. oracle_ok ips \<and> valid_calls False ex_calls \<and>
    cadical_outputs reference_core ex_calls = ipasir_outputs ips ex_calls \<and>
    cadical_outputs reference_core ex_calls = Inr [10, 1, 10, -1, 20]"
  using cadical_implements_ipasir[OF reference_core_sound] ex_calls_valid ex_calls_outputs by blast

text \<open>
  C29: Bumping the analysed variables moves exactly them to the end of the decision queue and
  keeps the order of both parts, whichever sorting routine is chosen; the time stamps stay
  increasing along the queue and the pointer stays right.
\<close>

theorem bump_keeps_order:
  assumes "queue_inv s xs" and "distinct (map vidx analyzed)" and "vidx ` set analyzed \<subseteq> set xs"
    and "\<forall>x\<in>set xs. 0 \<le> btab s x" and "stats_bumped s < 2 ^ 63" and "length junk = 256"
  shows "queue_inv (bump_variables limit junk analyzed s)
    (filter (\<lambda>x. x \<notin> vidx ` set analyzed) xs @ filter (\<lambda>x. x \<in> vidx ` set analyzed) xs)"
  using assms by (rule bump_variables_inv(1))

theorem bump_keeps_order_witness:
  "queue_inv (bump_variables 1 (replicate 256 7) [2, - 1] (ex_internal (\<lambda>_. True) ex_heap)) [3, 1, 2]"
proof -
  have v: "vidx (- 1) = 1" "vidx 2 = 2" by (simp_all add: vidx_def)
  show ?thesis
    using bump_keeps_order[OF ex_queue_inv, of "[2, - 1]" "\<lambda>_. True" ex_heap "replicate 256 7" 1]
    by (simp add: v)
qed

text \<open>
  C30: The radix sort of the solver, with its skipped bytes and partly cleared buckets, computes
  the same list as the stable sort of the library, whatever the buckets contained before. Ranks
  have more than 8 bits, as a loop over all buckets does not end for a counter of 8 bits.
\<close>

theorem radix_sort_stable:
  fixes rank :: "'a \<Rightarrow> 'w::len word"
  assumes "8 dvd LENGTH('w)" and "8 < LENGTH('w)" and "length junk = 256"
  shows "rsort fill junk rank xs = sort_key rank xs"
  using assms(1,3) by (rule rsort_correct)

theorem radix_sort_stable_witness:
  "rsort 0 (replicate 256 7) (\<lambda>x. x) [300, 5, 70000, 5 :: 32 word] = [5, 5, 300, 70000]"
  by (simp add: radix_sort_stable)

section \<open>Memory\<close>

text \<open>
  C31: A whole run on an ICCMA 2023 text, for the tracks that the grounded extension answers
  (SE-GR, SE-CO, DC-GR, DS-GR, DS-CO), releases only live blocks and none twice, and leaks
  exactly 11 + n + 2 m + g blocks for n arguments, m attacks and g arguments in the grounded
  extension of the framework in the text: two arrays and the problem string of the task, the
  printed line, the attack counters, two bit sets of two blocks each, the line buffer, the lost
  stack block, an integer per argument, two per attack and a stack cell per grounded argument.
  The other tracks call the function doSolve, an argument of the model whose blocks are not
  counted.
\<close>

theorem run_leaks:
  assumes "fs p = Some (i23_text comments n items)" and "n < 2 ^ 31"
    and "\<forall>c\<in>set comments. item_ok n (Comment c)" "\<forall>i\<in>set items. item_ok n i"
    and "distinct (item_list_attacks items)" and "q < n" and "t \<in> set grounded_tracks" and "n < fuel"
  shows "rok (main_blocks fuel fs (query_argv prog t p q) doSolve m)
    (leaks (11 + n + 2 * length (item_list_attacks items) +
      card (grounded_ext \<lparr>args = {..<n}, attacks = set (item_list_attacks items)\<rparr>)) m)"
  using assms by (rule main_blocks_i23)

theorem run_leaks_witness:
  "rok (main_blocks 3 (\<lambda>_. Some (i23_text [''x''] 2 [Attack 0 1, Blank]))
      (query_argv ''taas'' ''DC-GR'' ''f'' 1) (\<lambda>_ _ _. Inr) []) (leaks 16 [])"
proof -
  have c: "item_ok 2 (Comment ''x'')" by (simp add: clean_def NUL_def isspace_def)
  show ?thesis
    using run_leaks[of "\<lambda>_. Some (i23_text [''x''] 2 [Attack 0 1, Blank])" "''f''" "[''x'']" 2
      "[Attack 0 1, Blank]" 1 "''DC-GR''" 3 "''taas''" "\<lambda>_ _ _. Inr" "[]"] c ex_two_grounded
    by (simp add: item_list_attacks_def grounded_tracks_def)
qed

text \<open>
  C32: In every reachable state with an unassigned variable the solver finds a decision, and it
  is the right one: with scores the unassigned variable with the largest score, ties broken by
  the smaller index, otherwise the unassigned variable that was bumped last. The loops that skip
  assigned variables end within the number of variables.
\<close>

theorem search_decides:
  assumes "reachable s" and "\<exists>x\<in>{1..n_vars s}. \<not> assigned (internals s) x"
  shows "rok (next_decision_variable use_scores (stabs s) (n_vars s) (internals s)) (\<lambda>(res, i).
    res \<in> {1..n_vars s} \<and> \<not> assigned (internals s) res \<and>
    (\<forall>y\<in>{1..n_vars s}. \<not> assigned (internals s) y \<longrightarrow> y \<noteq> res \<longrightarrow>
       (if use_scores then stabs s y < stabs s res \<or> stabs s y = stabs s res \<and> res < y
        else btab (internals s) y < btab (internals s) res)))"
  using assms by (rule reachable_decides)

theorem search_decides_witness:
  "\<exists>s :: rat search. reachable s \<and> n_vars s = 3 \<and>
    rok (next_decision_variable False (stabs s) 3 (internals s)) (\<lambda>(res, i). res = 1 \<or> res = 3)"
proof -
  obtain s :: "rat search" where s: "reachable s" "n_vars s = 3"
      "assigned (internals s) = (\<lambda>_. False)(2 := True)" using ex_reachable by blast
  then have "\<exists>x\<in>{1..n_vars s}. \<not> assigned (internals s) x" by (intro bexI[of _ 1]) simp_all
  from rok_weaken[OF search_decides[OF s(1) this, of False], of "\<lambda>(res, i). res = 1 \<or> res = 3"] s
  show ?thesis by (intro exI[of _ s]) (force simp: s)
qed

text \<open>
  C33: Without a limit the restart signals come after p * v conflicts each, where v runs through
  the Luby sequence in its recursive definition (a block twice, then the next power of two):
  Knuth's two-word update on 64-bit words computes it, as long as p times the largest element
  fits into 64 bits.
\<close>

theorem luby_schedule:
  assumes "0 < p" and "p * 2 ^ k < 2 ^ 64" and "l \<le> 0"
  shows "fst (poll_run (p * sum_list (luby_block (Suc k))) (reluctant_enable p l r)) =
    concat (map (\<lambda>v. replicate (p * v - 1) False @ [True]) (luby_block (Suc k)))"
  using schedule[OF assms] by (simp only: intervals_def)

theorem luby_schedule_witness:
  "fst (poll_run 8 (reluctant_enable 2 0 ex_reluctant)) = [False, True, False, True, False, False, False, True]"
proof -
  have n: "2 * sum_list (luby_block (Suc 1)) = 8" by simp
  have "concat (map (\<lambda>v. replicate (2 * v - 1) False @ [True]) (luby_block (Suc 1))) =
      [False, True, False, True, False, False, False, True]" by (simp add: numeral_eq_Suc)
  with luby_schedule[of 2 1 0 ex_reluctant] show ?thesis unfolding n by (simp del: poll_run.simps)
qed

text \<open>
  C34: With a limit, whatever ticks and queries came before, a restart signal is raised within
  period times limit further conflicts: the countdown never becomes zero or wraps around, so
  stable mode never stops restarting.
\<close>

theorem restart_signal_comes:
  assumes "enabled p l r" and "0 < p" and "0 < l" and "p * l < 2 ^ 64" and "l < 2 ^ 63"
  shows "\<exists>n\<le>p * l. trigger ((tick ^^ n) r)"
  using assms by (rule signal_comes)

theorem restart_signal_comes_witness:
  "\<exists>n\<le>1024 * 1048576. trigger ((tick ^^ n) (tick (reluctant_enable 1024 (int 1048576) ex_reluctant)))"
  by (rule restart_signal_comes[OF enabled.Tick[OF enabled.Enable]]) simp_all

text \<open>
  C35: In every state that the search reaches (decisions, units, propagation by implied clauses,
  chronological backtracking, restarts and bumping in any order), when all of the trail has been
  propagated and the search is not satisfied, as decide asserts, decide does not fail, whether
  it works on an assumption, on the constraint or on a free variable: either it opens exactly
  one new level, or it answers 20, and then the formula has no model that satisfies the
  assumptions and the constraint.
\<close>

theorem decide_right:
  assumes "cdcl_reachable opts F A C t" and "propagated t = length (trail t)" and "\<not> satisfied t"
  shows "rok (decide opts t) (\<lambda>(res, t'). cdcl_reachable opts F A C t' \<and>
    length (trail t') \<le> Suc (length (trail t)) \<and> n_vars (base t') = n_vars (base t) \<and>
    (res = 0 \<and> level t' = Suc (level t) \<or>
     res = 20 \<and> (\<nexists>v. sat v F \<and> (\<forall>a\<in>set A. lit_true v a) \<and> (C \<noteq> [] \<longrightarrow> (\<exists>c\<in>set C. lit_true v c)))))"
  using assms by (rule reachable_decide)

theorem decide_right_witness:
  "\<exists>t :: rat cdcl. fresh [1] [2, - 3] t \<and> rok (decide ex_opts t) (\<lambda>(res, t'). res = 0 \<and> level t' = 1)"
proof -
  have "\<forall>lit\<in>set ([1] @ [2, - 3]). lit \<noteq> 0 \<and> vidx lit \<in> {1..3}" by (simp add: vidx_def)
  from ex_trail_fresh[OF _ this] obtain t :: "rat cdcl" where t: "fresh [1] [2, - 3] t" by auto
  then have s: "propagated t = length (trail t)" "\<not> satisfied t" "level t = 0" by (simp_all add: fresh_def satisfied_def)
  have "sat (\<lambda>_. True) [] \<and> lit_true (\<lambda>_. True) 1 \<and> lit_true (\<lambda>_. True) 2" by (simp add: sat_def lit_true_def)
  then have "\<exists>v. sat v [] \<and> (\<forall>a\<in>set [1]. lit_true v a) \<and> ([2, - 3] \<noteq> [] \<longrightarrow> (\<exists>c\<in>set [2, - 3]. lit_true v c))" by auto
  with rok_weaken[OF decide_right[OF cdcl_reachable.Start[OF t] s(1,2), of ex_opts "[]"],
      of "\<lambda>(res, t'). res = 0 \<and> level t' = 1"] s(3) t
  show ?thesis by (intro exI[of _ t]) auto
qed

text \<open>
  C36: Backtracking to a level succeeds in every reachable state and removes exactly the
  literals of higher levels: the literals of lower levels that were assigned out of order stay
  on the trail, in their order and with their positions updated, exactly the variables on the
  trail keep a value, and no assertion fails.
\<close>

theorem backtrack_chronological:
  assumes "cdcl_reachable opts F A C t" and "k \<le> level t"
  shows "rok (backtrack opts k t) (\<lambda>t'. cdcl_reachable opts F A C t' \<and> level t' = k \<and>
    trail t' = filter (\<lambda>lit. lit_level t lit \<le> k) (trail t) \<and>
    (\<forall>i<length (trail t'). vtrail (vtab t' (vidx (trail t' ! i))) = i) \<and>
    (\<forall>x. var_value t' x \<noteq> 0 \<longleftrightarrow> x \<in> vidx ` set (trail t')))"
  using assms by (rule reachable_backtrack)

theorem backtrack_chronological_witness:
  "\<exists>t :: rat cdcl. cdcl_reachable ex_opts [] [1] [] t \<and> level t = 2 \<and>
    rok (backtrack ex_opts 1 t) (\<lambda>t'. level t' = 1 \<and> trail t' = filter (\<lambda>lit. lit_level t lit \<le> 1) (trail t))"
proof -
  obtain t :: "rat cdcl" where t: "cdcl_reachable ex_opts [] [1] [] t" "level t = 2"
    using ex_levels[of "[1]"] by auto
  have "1 \<le> level t" by (simp add: t(2))
  from rok_weaken[OF backtrack_chronological[OF t(1) this],
      of "\<lambda>t'. level t' = 1 \<and> trail t' = filter (\<lambda>lit. lit_level t lit \<le> 1) (trail t)"] t
  show ?thesis by blast
qed

text \<open>
  C37: When the trail has been propagated, the search is not satisfied and at least two levels
  lie above the assumptions, as the guard of restarting demands, a restart keeps all levels of
  the assumptions, so that every assumption is still true, and beyond them it keeps a level only
  while no decision is worse than an unassigned variable; the loop over the levels ends, and the
  trail keeps exactly the literals of the remaining levels.
\<close>

theorem restart_keeps_assumptions:
  assumes "cdcl_reachable opts F A C t" and "propagated t = length (trail t)" and "\<not> satisfied t"
    and "length A + 2 \<le> level t"
  shows "rok (restart opts t) (\<lambda>t'. cdcl_reachable opts F A C t' \<and> length A \<le> level t' \<and> level t' \<le> level t \<and>
    reused_upto opts t (level t') \<and> trail t' = filter (\<lambda>lit. lit_level t lit \<le> level t') (trail t) \<and>
    (\<forall>a\<in>set A. a \<in> set (trail t')))"
  using assms by (rule reachable_restart)

theorem restart_keeps_assumptions_witness:
  "\<exists>t :: rat cdcl. cdcl_reachable ex_opts [] [] [] t \<and> level t = 2 \<and>
    rok (restart ex_opts t) (\<lambda>t'. cdcl_reachable ex_opts [] [] [] t' \<and> level t' \<le> 2)"
proof -
  obtain t :: "rat cdcl" where t: "cdcl_reachable ex_opts [] [] [] t" "propagated t = length (trail t)" "level t = 2"
      "length (trail t) \<le> 2" "n_vars (base t) = 3" using ex_levels[of "[]"] by auto
  have "\<not> satisfied t" "length [] + 2 \<le> level t" using t reachable_num[OF t(1)] by (simp_all add: satisfied_def)
  from rok_weaken[OF restart_keeps_assumptions[OF t(1,2) this],
      of "\<lambda>t'. cdcl_reachable ex_opts [] [] [] t' \<and> level t' \<le> 2"] t
  show ?thesis by auto
qed

text \<open>
  C38: Adding an original clause succeeds in every state that satisfies the invariant of the
  solver, with literals in range and no conflict pending unless the solver is already
  unsatisfiable (as holds between calls of the API), with no assertion failing, and the
  invariant holds afterwards for the formula with the new clause: every clause of the formula is
  true at level 0, tautological, or contains a watched clause. When the solver is marked
  unsatisfiable, the formula has no model.
\<close>

theorem add_clause_right:
  assumes "solver_ok opts F A C (u, s)" and "u \<or> conflict s = None" and "\<forall>x\<in>set c. ok_lit (cdcl_part s) x"
  shows "rok (add_new_original_clause opts c (u, s)) (\<lambda>(u', s'). solver_ok opts (c # F) A C (u', s') \<and>
    (u' \<longrightarrow> (\<nexists>v. sat v (c # F))) \<and> (\<not> u' \<longrightarrow> covers (c # F) s' \<and> conflict s' = None))"
  by (rule rok_weaken[OF add_new_original_clause_rok[OF assms]]) (auto simp: solver_ok_def)

theorem add_clause_right_witness:
  "\<exists>s :: rat csolver. solver_ok ex_opts [[1, 2], [-1]] [] [] (False, s) \<and>
    rok (add_new_original_clause ex_opts [-2, 1] (False, s)) (\<lambda>(u', s'). \<not> u' \<longrightarrow> covers [[-2, 1], [1, 2], [-1]] s')"
proof -
  obtain s :: "rat csolver" where s: "solver_ok ex_opts [[1, 2], [-1]] [] [] (False, s)" "conflict s = None"
    "n_vars (base (cdcl_part s)) = 2" using ex_clauses by blast
  have "False \<or> conflict s = None" "\<forall>x\<in>set [-2, 1]. ok_lit (cdcl_part s) x" using s by (simp_all add: vidx_def)
  from rok_weaken[OF add_clause_right[OF s(1) this]]
  have "rok (add_new_original_clause ex_opts [-2, 1] (False, s)) (\<lambda>(u', s'). \<not> u' \<longrightarrow> covers [[-2, 1], [1, 2], [-1]] s')"
    by fastforce
  then show ?thesis using s by blast
qed

text \<open>
  C39: The propagation loop over watch lists with blocking literals ends in every state that
  satisfies the invariant of the solver, no assertion fails and the visited list is never
  written out of turn. When it reports no conflict, the whole trail is propagated and no clause
  of the solver is falsified, although chronological backtracking leaves literals out of order
  on the trail. When it reports a conflict, the conflict clause follows from the formula and all
  its literals are false. Levels and assigned variables stay as they are.
\<close>

theorem propagate_right:
  assumes "solver_ok opts F A C (False, s)"
  shows "rok (propagate opts s) (\<lambda>(ok, s'). solver_ok opts F A C (False, s') \<and>
    level (cdcl_part s') = level (cdcl_part s) \<and>
    (\<forall>x. var_value (cdcl_part s) x \<noteq> 0 \<longrightarrow> var_value (cdcl_part s') x = var_value (cdcl_part s) x) \<and>
    (if ok then conflict s' = None \<and> propagated (cdcl_part s') = length (trail (cdcl_part s')) \<and>
       (\<forall>c\<in>set (clause_ids s'). \<exists>x\<in>set (literals (arena s' c)). lit_value (cdcl_part s') x \<ge> 0)
     else \<exists>c\<in>set (clause_ids s'). conflict s' = Some c \<and> implied F (literals (arena s' c)) \<and>
       (\<forall>x\<in>set (literals (arena s' c)). - x \<in> set (trail (cdcl_part s')))))"
  by (rule rok_weaken[OF propagate_ok[OF assms]]) (auto simp: same_levels_def)

theorem propagate_right_witness:
  "\<exists>s :: rat csolver. solver_ok ex_opts [[1, 2], [-1]] [] [] (False, s) \<and>
    rok (propagate ex_opts s) (\<lambda>(ok, s'). ok \<longrightarrow> propagated (cdcl_part s') = length (trail (cdcl_part s')))"
proof -
  obtain s :: "rat csolver" where s: "solver_ok ex_opts [[1, 2], [-1]] [] [] (False, s)" using ex_clauses by blast
  have "rok (propagate ex_opts s) (\<lambda>(ok, s'). ok \<longrightarrow> propagated (cdcl_part s') = length (trail (cdcl_part s')))"
    by (rule rok_weaken[OF propagate_right[OF s]]) auto
  then show ?thesis using s by blast
qed

text \<open>
  C40: When all variables are assigned and propagated without a conflict in a state that
  satisfies the invariant of the solver, the values form a model of all clauses that were added,
  in which every assumption and some literal of the constraint are true: the answer 10 is right.
  The clauses that are watched need not be all clauses of the formula: clauses that are true at
  level 0, false literals and tautologies were dropped.
\<close>

theorem search_model_right:
  assumes "solver_ok opts F A C (False, s)" and "satisfied (cdcl_part s)" and "conflict s = None"
  shows "sat (values_of (cdcl_part s)) F \<and> (\<forall>a\<in>set A. lit_true (values_of (cdcl_part s)) a) \<and>
    (C \<noteq> [] \<longrightarrow> (\<exists>c\<in>set C. lit_true (values_of (cdcl_part s)) c))"
  using assms by (rule solver_satisfied)

theorem search_model_right_witness:
  "\<exists>s :: rat csolver. solver_ok ex_opts [[1]] [] [] (False, s) \<and> sat (values_of (cdcl_part s)) [[1]]"
  using ex_model search_model_right by blast

end
